(* ===== verification/Prelude.thy ===== *)
theory Prelude
  imports Main "HOL-Library.Word"
begin

text \<open>
  What every component of the model shares: the machine types of \<^verbatim>\<open>kernel/types.h\<close>, the result
  type of kernel code (a value and a state, or a failure and the state it failed in), the state
  monad in which the C functions are written, its weakest preconditions, little-endian byte
  encodings, and generic lemmas on lists and words.
\<close>

unbundle bit_operations_syntax

subsection \<open>Collections of facts\<close>

named_theorems wp_simps \<open>equations that push a weakest precondition through a statement\<close>
named_theorems wp_rules \<open>specifications of operations, as introduction rules for a weakest precondition\<close>
named_theorems const_defs \<open>the constants of param.h, fs.h, riscv.h and memlayout.h\<close>

subsection \<open>Machine integers (kernel/types.h)\<close>

type_synonym u8 = "8 word"
type_synonym u16 = "16 word"
type_synonym u32 = "32 word"
type_synonym u64 = "64 word"

subsection \<open>Modes of \<^verbatim>\<open>open\<close> (kernel/fcntl.h)\<close>

definition O_RDONLY :: int where [const_defs]: "O_RDONLY = 0"
definition O_WRONLY :: int where [const_defs]: "O_WRONLY = 1"
definition O_RDWR :: int where [const_defs]: "O_RDWR = 2"
definition O_CREATE :: int where [const_defs]: "O_CREATE = 0x200"
definition O_TRUNC :: int where [const_defs]: "O_TRUNC = 0x400"

subsection \<open>Results and the kernel monad\<close>

text \<open>
  A call of a kernel function returns (\<open>Ok\<close>), panics (\<^verbatim>\<open>panic()\<close> in \<^verbatim>\<open>printf.c\<close> never returns),
  would give up the CPU (\<open>Sleeps\<close>, in \<^verbatim>\<open>sleep()\<close> on a channel or in \<^verbatim>\<open>sched()\<close>), loops forever on purpose
  (\<open>Spins\<close>), or does something that C leaves undefined, such as an access past the end of an array
  (\<open>Fault\<close>). Every outcome carries the state.
\<close>

datatype fail = Panic string | Sleeps string | Spins string | Fault string

datatype ('s, 'a) res = Ok 'a 's | Err fail 's

type_synonym ('s, 'a) prog = "'s \<Rightarrow> ('s, 'a) res"

definition ret :: "'a \<Rightarrow> ('s, 'a) prog" where
  "ret a = (\<lambda>s. Ok a s)"

definition bnd :: "('s, 'a) prog \<Rightarrow> ('a \<Rightarrow> ('s, 'b) prog) \<Rightarrow> ('s, 'b) prog" where
  "bnd m f = (\<lambda>s. case m s of Ok a s' \<Rightarrow> f a s' | Err e s' \<Rightarrow> Err e s')"

definition andthen :: "('s, 'a) prog \<Rightarrow> ('s, 'b) prog \<Rightarrow> ('s, 'b) prog" where
  "andthen m n = bnd m (\<lambda>_. n)"

definition fails :: "fail \<Rightarrow> ('s, 'a) prog" where
  "fails e = (\<lambda>s. Err e s)"

definition gets :: "('s \<Rightarrow> 'a) \<Rightarrow> ('s, 'a) prog" where
  "gets f = (\<lambda>s. Ok (f s) s)"

definition modify :: "('s \<Rightarrow> 's) \<Rightarrow> ('s, unit) prog" where
  "modify f = (\<lambda>s. Ok () (f s))"

abbreviation panic :: "string \<Rightarrow> ('s, 'a) prog" where
  "panic msg \<equiv> fails (Panic msg)"

definition guard :: "bool \<Rightarrow> fail \<Rightarrow> ('s, unit) prog" where
  "guard b e = (if b then ret () else fails e)"

text \<open>\<open>for_each\<close> is a counted \<^verbatim>\<open>for\<close> loop without early exit.\<close>

primrec for_each :: "'i list \<Rightarrow> ('i \<Rightarrow> ('s, unit) prog) \<Rightarrow> ('s, unit) prog" where
  "for_each [] f = ret ()"
| "for_each (i # is) f = andthen (f i) (for_each is f)"

text \<open>
  \<open>zoom\<close> runs an operation of one component on the field of a larger state that holds the
  component's state: \<open>get\<close> is the field's selector and \<open>upd\<close> its update.
\<close>

definition zoom :: "('s \<Rightarrow> 't) \<Rightarrow> (('t \<Rightarrow> 't) \<Rightarrow> 's \<Rightarrow> 's) \<Rightarrow> ('t, 'a) prog \<Rightarrow> ('s, 'a) prog" where
  "zoom get upd m = (\<lambda>s. case m (get s) of
     Ok a t \<Rightarrow> Ok a (upd (\<lambda>_. t) s)
   | Err e t \<Rightarrow> Err e (upd (\<lambda>_. t) s))"

subsection \<open>Weakest preconditions\<close>

text \<open>
  \<open>wp m Q s\<close>: run from \<open>s\<close>, \<open>m\<close> returns normally (no panic, no sleep, no undefined access) with a
  value and a state that satisfy \<open>Q\<close>. This is total correctness.
\<close>

definition wp :: "('s, 'a) prog \<Rightarrow> ('a \<Rightarrow> 's \<Rightarrow> bool) \<Rightarrow> 's \<Rightarrow> bool" where
  "wp m Q s \<longleftrightarrow> (case m s of Ok a s' \<Rightarrow> Q a s' | Err _ _ \<Rightarrow> False)"

lemma wp_ret [wp_simps]: "wp (ret a) Q s \<longleftrightarrow> Q a s"
  by (simp add: wp_def ret_def)

lemma wp_ret_fun: "wp (ret a) Q = Q a"
  by (rule ext) (simp add: wp_ret)

lemma wp_bnd [wp_simps]: "wp (bnd m f) Q = wp m (\<lambda>a. wp (f a) Q)"
  by (rule ext) (simp add: wp_def bnd_def split: res.split)

lemma wp_andthen [wp_simps]: "wp (andthen m n) Q = wp m (\<lambda>_. wp n Q)"
  by (simp add: andthen_def wp_bnd)

lemma wp_fails [wp_simps]: "wp (fails e) Q s \<longleftrightarrow> False"
  by (simp add: wp_def fails_def)

lemma wp_gets [wp_simps]: "wp (gets f) Q s \<longleftrightarrow> Q (f s) s"
  by (simp add: wp_def gets_def)

lemma wp_modify [wp_simps]: "wp (modify f) Q s \<longleftrightarrow> Q () (f s)"
  by (simp add: wp_def modify_def)

lemma wp_guard [wp_simps]: "wp (guard b e) Q s \<longleftrightarrow> b \<and> Q () s"
  by (simp add: guard_def wp_ret wp_fails)

lemma wp_if [wp_simps]:
  "wp (if b then m else n) Q s \<longleftrightarrow> (if b then wp m Q s else wp n Q s)"
  by simp

lemma wp_case_option [wp_simps]:
  "wp (case x of None \<Rightarrow> m | Some y \<Rightarrow> n y) Q s \<longleftrightarrow>
   (case x of None \<Rightarrow> wp m Q s | Some y \<Rightarrow> wp (n y) Q s)"
  by (simp split: option.split)

lemma wp_for_each_Nil [wp_simps]: "wp (for_each [] f) Q s \<longleftrightarrow> Q () s"
  by (simp add: wp_ret)

lemma wp_for_each_Cons [wp_simps]:
  "wp (for_each (i # is) f) Q s \<longleftrightarrow> wp (f i) (\<lambda>_. wp (for_each is f) Q) s"
  by (simp add: wp_andthen)

lemma wp_zoom [wp_simps]:
  "wp (zoom get upd m) Q s \<longleftrightarrow> wp m (\<lambda>a t. Q a (upd (\<lambda>_. t) s)) (get s)"
  by (simp add: wp_def zoom_def split: res.split)

lemma wp_mono:
  assumes "wp m P s" and "\<And>a t. P a t \<Longrightarrow> Q a t"
  shows "wp m Q s"
  using assms by (auto simp: wp_def split: res.splits)

lemma wp_conj:
  assumes "wp m P s" and "wp m Q s"
  shows "wp m (\<lambda>a t. P a t \<and> Q a t) s"
  using assms by (auto simp: wp_def split: res.splits)

lemma wpI: "m s = Ok a t \<Longrightarrow> Q a t \<Longrightarrow> wp m Q s"
  by (simp add: wp_def)

lemma wpE:
  assumes "wp m Q s"
  obtains a t where "m s = Ok a t" and "Q a t"
  using assms by (auto simp: wp_def split: res.splits)

lemma wp_iff: "wp m Q s \<longleftrightarrow> (\<exists>a t. m s = Ok a t \<and> Q a t)"
  by (auto simp: wp_def split: res.splits)

text \<open>A loop rule: an invariant indexed by the iterations done so far.\<close>

lemma wp_for_each:
  assumes "I 0 s"
    and "\<And>k t. k < length is \<Longrightarrow> I k t \<Longrightarrow> wp (f (is ! k)) (\<lambda>_. I (Suc k)) t"
    and "\<And>t. I (length is) t \<Longrightarrow> Q () t"
  shows "wp (for_each is f) Q s"
  using assms
proof (induction "is" arbitrary: s I)
  case Nil
  then show ?case by (simp add: wp_ret)
next
  case (Cons i "is")
  have "wp (f i) (\<lambda>_. I (Suc 0)) s"
    using Cons.prems(2) [of 0 s] Cons.prems(1) by simp
  then show ?case
  proof (simp add: wp_andthen, elim wp_mono)
    fix t assume "I (Suc 0) t"
    then show "wp (for_each is f) Q t"
      by (rule Cons.IH [of "\<lambda>k. I (Suc k)"]) (use Cons.prems(2,3) in force)+
  qed
qed

text \<open>The same equations for running a program on a concrete state.\<close>

lemma run_simps:
  "ret a s = Ok a s"
  "bnd m f s = (case m s of Ok a s' \<Rightarrow> f a s' | Err e s' \<Rightarrow> Err e s')"
  "andthen m n s = (case m s of Ok a s' \<Rightarrow> n s' | Err e s' \<Rightarrow> Err e s')"
  "fails e s = Err e s"
  "gets g s = Ok (g s) s"
  "modify h s = Ok () (h s)"
  "guard b e s = (if b then Ok () s else Err e s)"
  "zoom get upd m' s = (case m' (get s) of
     Ok a t \<Rightarrow> Ok a (upd (\<lambda>_. t) s) | Err e t \<Rightarrow> Err e (upd (\<lambda>_. t) s))"
  by (simp_all add: ret_def bnd_def andthen_def fails_def gets_def modify_def guard_def zoom_def)

subsection \<open>Byte lists and little-endian encodings\<close>

text \<open>
  RISC-V is little-endian. A \<^verbatim>\<open>uint\<close> stored in a byte array occupies four bytes, least significant
  first. \<open>splice_at\<close> overwrites a part of a byte array, as \<^verbatim>\<open>memmove\<close> into it does.
\<close>

definition le32_bytes :: "u32 \<Rightarrow> u8 list" where
  "le32_bytes w = map (\<lambda>i. ucast (drop_bit (8 * i) w)) [0..<4]"

definition le32_of :: "u8 list \<Rightarrow> u32" where
  "le32_of bs = foldr (\<lambda>b acc. (ucast b :: u32) OR push_bit 8 acc) bs 0"

definition splice_at :: "'a list \<Rightarrow> nat \<Rightarrow> 'a list \<Rightarrow> 'a list" where
  "splice_at xs off ys = take off xs @ ys @ drop (off + length ys) xs"

definition get32 :: "u8 list \<Rightarrow> nat \<Rightarrow> u32" where
  "get32 bs off = le32_of (take 4 (drop off bs))"

definition put32 :: "u8 list \<Rightarrow> nat \<Rightarrow> u32 \<Rightarrow> u8 list" where
  "put32 bs off w = splice_at bs off (le32_bytes w)"

lemma length_le32_bytes [simp]: "length (le32_bytes w) = 4"
  by (simp add: le32_bytes_def)

lemma foldr_le_bytes:
  fixes v :: "'a :: len word"
  shows "foldr (\<lambda>i acc. (ucast (ucast (drop_bit (8 * i) v) :: u8) :: 'a word) OR push_bit 8 acc) [0..<k] 0 =
    take_bit (8 * k) v"
proof (induction k arbitrary: v)
  case (Suc k)
  have "foldr (\<lambda>i acc. (ucast (ucast (drop_bit (8 * i) v) :: u8) :: 'a word) OR push_bit 8 acc) [0..<Suc k] 0 =
      ucast (ucast v :: u8) OR push_bit 8 (take_bit (8 * k) (drop_bit 8 v))"
    by (simp add: upt_conv_Cons map_Suc_upt [symmetric] foldr_map comp_def drop_bit_drop_bit
        flip: Suc add: add.commute del: upt_Suc)
  also have "\<dots> = take_bit (8 * Suc k) v"
    by (rule bit_word_eqI) (auto simp: bit_simps)
  finally show ?case .
qed simp

lemma le32_roundtrip [simp]: "le32_of (le32_bytes w) = w"
  unfolding le32_of_def le32_bytes_def foldr_map comp_def foldr_le_bytes
  using take_bit_length_eq [of w] by simp

lemma length_splice_at [simp]:
  "off + length ys \<le> length xs \<Longrightarrow> length (splice_at xs off ys) = length xs"
  by (simp add: splice_at_def)

lemma splice_at_read:
  assumes "off \<le> length xs" and "n = length ys"
  shows "take n (drop off (splice_at xs off ys)) = ys"
  using assms by (simp add: splice_at_def)

lemma splice_at_read_other:
  assumes "off + length ys \<le> length xs"
    and "o' + n \<le> off \<or> off + length ys \<le> o'"
  shows "take n (drop o' (splice_at xs off ys)) = take n (drop o' xs)"
proof (rule nth_equalityI)
  show "length (take n (drop o' (splice_at xs off ys))) = length (take n (drop o' xs))"
    using assms by simp
next
  fix i assume "i < length (take n (drop o' (splice_at xs off ys)))"
  with assms show "take n (drop o' (splice_at xs off ys)) ! i = take n (drop o' xs) ! i"
    by (auto simp: splice_at_def nth_append)
qed

lemma splice_at_self:
  assumes "off + n \<le> length xs"
  shows "splice_at xs off (take n (drop off xs)) = xs"
proof -
  have "splice_at xs off (take n (drop off xs)) = take off xs @ take n (drop off xs) @ drop n (drop off xs)"
    using assms by (simp add: splice_at_def add.commute)
  then show ?thesis by (metis append_take_drop_id)
qed

lemma length_put32 [simp]: "off + 4 \<le> length bs \<Longrightarrow> length (put32 bs off w) = length bs"
  by (simp add: put32_def)

lemma get32_put32 [simp]: "off \<le> length bs \<Longrightarrow> get32 (put32 bs off w) off = w"
  by (simp add: get32_def put32_def splice_at_read)

lemma get32_put32_other [simp]:
  "off + 4 \<le> length bs \<Longrightarrow> o' + 4 \<le> off \<or> off + 4 \<le> o' \<Longrightarrow>
   get32 (put32 bs off w) o' = get32 bs o'"
  by (simp add: get32_def put32_def splice_at_read_other)

subsection \<open>Signed words\<close>

lemma uint_of_sint:
  "uint (word_of_int k :: 'a :: len word) = k" if "0 \<le> k" "k < 2 ^ LENGTH('a)"
  using that by (simp add: uint_word_of_int)

lemma sint_sign:
  "(if xx <s 0 then - int (unat (- xx)) else int (unat xx)) = sint (xx :: 'a :: len word)"
proof -
  have b: "- (2 ^ (LENGTH('a) - 1)) \<le> sint xx" "sint xx < 2 ^ (LENGTH('a) - 1)"
    using sint_ge [of xx] sint_lt [of xx] by simp_all
  have p: "(2 :: int) ^ (LENGTH('a) - 1) < 2 ^ LENGTH('a)" by (rule power_strict_increasing) auto
  have x: "xx = word_of_int (sint xx)" by simp
  show ?thesis
  proof (cases "sint xx < 0")
    case True
    have "- xx = word_of_int (- sint xx)" using arg_cong [OF x, of uminus] by simp
    moreover have "- sint xx < 2 ^ LENGTH('a)" using b(1) p by linarith
    ultimately have "uint (- xx) = - sint xx" using True uint_of_sint [of "- sint xx", where 'a='a] by simp
    then show ?thesis using True by (simp add: word_sless_alt)
  next
    case False
    moreover have "sint xx < 2 ^ LENGTH('a)" using b(2) p by linarith
    ultimately have "uint xx = sint xx" using uint_of_sint [of "sint xx", where 'a='a] by simp
    then show ?thesis using False by (simp add: word_sless_alt)
  qed
qed

subsection \<open>Offsets of word addresses\<close>

lemma unat_bound: "unat (w :: 'a :: len word) < 2 ^ LENGTH('a)"
  by (rule unsigned_less)

lemma unat_of_nat_small: "k < 2 ^ LENGTH('a) \<Longrightarrow> unat (of_nat k :: 'a :: len word) = k"
  by (simp add: unat_of_nat take_bit_nat_eq_self)

lemma uint_eq_iff: "uint v = uint w \<longleftrightarrow> v = w"
  by (simp add: word_uint_eq_iff)

lemma unat_ucast_up:
  assumes "LENGTH('a) \<le> LENGTH('b)"
  shows "unat (ucast (w :: 'a :: len word) :: 'b :: len word) = unat w"
proof -
  have "unat w < 2 ^ LENGTH('b)"
    using unat_bound [of w] assms by (meson less_le_trans one_le_numeral power_increasing)
  then show ?thesis by (simp add: unsigned_ucast_eq take_bit_nat_eq_self)
qed

lemma unat_minus_1: "unat (- 1 :: 'a :: len word) = 2 ^ LENGTH('a) - 1"
  by (simp add: unsigned_minus_1_eq_mask mask_eq_exp_minus_1)

lemma offset_eq_iff:
  fixes a d :: "'a :: len word"
  assumes "k < 2 ^ LENGTH('a)"
  shows "a = d + of_nat k \<longleftrightarrow> unat (a - d) = k"
proof
  assume "unat (a - d) = k"
  then have "of_nat k = a - d" by (metis word_unat_eq_iff unat_of_nat_small assms)
  then show "a = d + of_nat k" by simp
qed (use assms in \<open>simp add: unat_of_nat_small\<close>)

lemma offset_Suc:
  fixes a d :: "'a :: len word"
  assumes "unat (a - d) = Suc k"
  shows "unat (a - (d + 1)) = k"
proof -
  have k: "Suc k < 2 ^ LENGTH('a)" using assms unat_bound [of "a - d"] by simp
  then have "a = d + of_nat (Suc k)" using assms by (simp only: offset_eq_iff)
  then have "a - (d + 1) = of_nat k" by (simp add: algebra_simps)
  with k show ?thesis by (simp add: unat_of_nat_small)
qed

end
