(* ===== verification/Sleeplock.thy ===== *)
theory Sleeplock
  imports Prelude
begin

text \<open>
  \<^verbatim>\<open>kernel/sleeplock.c\<close>. Each function runs inside a critical section of the spin lock \<^verbatim>\<open>lk->lk\<close>, so it is
  one atomic action on the two remaining fields. The process id that the C code reads from
  \<^verbatim>\<open>myproc()\<close> is an argument. A process that finds the lock taken sleeps on it; the \<^verbatim>\<open>wakeup\<close> in
  \<^verbatim>\<open>releasesleep\<close> makes such processes runnable and changes nothing else.
\<close>

record sleeplock =
  slocked :: u32
  spid :: int

definition initsleeplock :: "(sleeplock, unit) prog" where
  "initsleeplock = andthen (modify (slocked_update (\<lambda>_. 0))) (modify (spid_update (\<lambda>_. 0)))"

definition acquiresleep :: "int \<Rightarrow> (sleeplock, unit) prog" where
  "acquiresleep pid =
     bnd (gets slocked) (\<lambda>l.
     if l \<noteq> 0 then fails (Sleeps ''sleep lock'')
     else andthen (modify (slocked_update (\<lambda>_. 1))) (modify (spid_update (\<lambda>_. pid))))"

definition releasesleep :: "(sleeplock, unit) prog" where
  "releasesleep = andthen (modify (slocked_update (\<lambda>_. 0))) (modify (spid_update (\<lambda>_. 0)))"

definition holdingsleep :: "int \<Rightarrow> (sleeplock, bool) prog" where
  "holdingsleep pid = gets (\<lambda>k. slocked k \<noteq> 0 \<and> spid k = pid)"

abbreviation unlocked :: sleeplock where
  "unlocked \<equiv> \<lparr>slocked = 0, spid = 0\<rparr>"

abbreviation locked_by :: "int \<Rightarrow> sleeplock" where
  "locked_by pid \<equiv> \<lparr>slocked = 1, spid = pid\<rparr>"

lemma sleeplock_runs:
  "initsleeplock k = Ok () unlocked"
  "acquiresleep pid k = (if slocked k \<noteq> 0 then Err (Sleeps ''sleep lock'') k else Ok () (locked_by pid))"
  "releasesleep k = Ok () unlocked"
  "holdingsleep pid k = Ok (slocked k \<noteq> 0 \<and> spid k = pid) k"
  by (cases k; simp add: initsleeplock_def acquiresleep_def releasesleep_def holdingsleep_def run_simps)+

subsection \<open>Many processes and one lock\<close>

text \<open>
  Where a process is: it has nothing to do with the lock, it is about to test \<^verbatim>\<open>lk->locked\<close> in \<^verbatim>\<open>acquiresleep\<close>, it sleeps on the lock,
  or it is between \<^verbatim>\<open>acquiresleep\<close> and \<^verbatim>\<open>releasesleep\<close>. A process is known by its identifier.
\<close>

datatype sl_phase = Away | Trying | Dozing | Working

record sl_system =
  sl_lock :: sleeplock
  sl_phases :: "int \<Rightarrow> sl_phase"

definition set_phase :: "int \<Rightarrow> sl_phase \<Rightarrow> sl_system \<Rightarrow> sl_system" where
  "set_phase p x s = s\<lparr>sl_phases := (sl_phases s)(p := x)\<rparr>"

text \<open>\<^verbatim>\<open>wakeup(lk)\<close>: all the processes that sleep on the lock test it again.\<close>

definition wake_all :: "sl_system \<Rightarrow> sl_system" where
  "wake_all s = s\<lparr>sl_phases := (\<lambda>p. if sl_phases s p = Dozing then Trying else sl_phases s p)\<rparr>"

inductive sl_step :: "sl_system \<Rightarrow> sl_system \<Rightarrow> bool" where
  call: "sl_phases s p = Away \<Longrightarrow> sl_step s (set_phase p Trying s)"
| got_it: "sl_phases s p = Trying \<Longrightarrow> acquiresleep p (sl_lock s) = Ok () k \<Longrightarrow> sl_step s (set_phase p Working (s\<lparr>sl_lock := k\<rparr>))"
| falls_asleep: "sl_phases s p = Trying \<Longrightarrow> acquiresleep p (sl_lock s) = Err e k \<Longrightarrow> sl_step s (set_phase p Dozing (s\<lparr>sl_lock := k\<rparr>))"
| gives_back: "sl_phases s p = Working \<Longrightarrow> releasesleep (sl_lock s) = Ok () k \<Longrightarrow> sl_step s (wake_all (set_phase p Away (s\<lparr>sl_lock := k\<rparr>)))"

inductive_cases sl_stepE: "sl_step s t"

text \<open>The lock is set exactly while a process works, it carries the identifier of that process, and nobody sleeps on a free lock.\<close>

definition sl_inv :: "sl_system \<Rightarrow> bool" where
  "sl_inv s \<longleftrightarrow> (\<forall>p. sl_phases s p = Working \<longleftrightarrow> slocked (sl_lock s) \<noteq> 0 \<and> spid (sl_lock s) = p) \<and>
     (\<forall>p. sl_phases s p = Dozing \<longrightarrow> slocked (sl_lock s) \<noteq> 0)"

lemma sl_inv_step: "sl_step s t \<Longrightarrow> sl_inv s \<Longrightarrow> sl_inv t"
proof (erule sl_stepE)
  assume i: "sl_inv s"
  have w: "sl_phases s p = Working \<longleftrightarrow> slocked (sl_lock s) \<noteq> 0 \<and> p = spid (sl_lock s)" for p using i by (auto simp: sl_inv_def)
  have z: "sl_phases s p = Dozing \<Longrightarrow> slocked (sl_lock s) \<noteq> 0" for p using i by (auto simp: sl_inv_def)
  {
    fix p assume "t = set_phase p Trying s" "sl_phases s p = Away"
    then show "sl_inv t" using w [of p] w z by (simp add: sl_inv_def set_phase_def) auto
  next
    fix p k assume "t = set_phase p Working (s\<lparr>sl_lock := k\<rparr>)" "sl_phases s p = Trying" "acquiresleep p (sl_lock s) = Ok () k"
    then show "sl_inv t" using w z by (auto simp: sl_inv_def set_phase_def sleeplock_runs split: if_splits)
  next
    fix p e k assume "t = set_phase p Dozing (s\<lparr>sl_lock := k\<rparr>)" "sl_phases s p = Trying" "acquiresleep p (sl_lock s) = Err e k"
    then show "sl_inv t" using w [of p] w z by (simp add: sl_inv_def set_phase_def sleeplock_runs split: if_splits) auto
  next
    fix p k assume t: "t = wake_all (set_phase p Away (s\<lparr>sl_lock := k\<rparr>))" "sl_phases s p = Working" "releasesleep (sl_lock s) = Ok () k"
    have "sl_phases s q \<noteq> Working" if "q \<noteq> p" for q using w [of p] w [of q] t(2) that by simp
    then show "sl_inv t" using t by (auto simp: sl_inv_def set_phase_def wake_all_def sleeplock_runs)
  }
qed

lemma sl_inv_run: "sl_step\<^sup>*\<^sup>* s t \<Longrightarrow> sl_inv s \<Longrightarrow> sl_inv t"
  by (induction rule: rtranclp_induct) (auto dest: sl_inv_step)

text \<open>
  C6: any number of processes use a sleep lock, in any order of their \<^verbatim>\<open>acquiresleep\<close> and \<^verbatim>\<open>releasesleep\<close> calls. In every state
  they run into, at most one of them is between the two calls, and \<^verbatim>\<open>holdingsleep\<close> is true for it and for no other process; whoever
  sleeps on the lock waits for another process that holds it, so that no wakeup is lost; and when nobody holds
  the lock, the next \<^verbatim>\<open>acquiresleep\<close> succeeds.
\<close>

theorem sleeplock_excludes:
  assumes "slocked (sl_lock s) = 0" and "\<And>p. sl_phases s p = Away" and "sl_step\<^sup>*\<^sup>* s t"
  shows "(\<forall>p q. sl_phases t p = Working \<longrightarrow> sl_phases t q = Working \<longrightarrow> p = q) \<and>
    (\<forall>p. holdingsleep p (sl_lock t) = Ok (sl_phases t p = Working) (sl_lock t)) \<and>
    (\<forall>p. sl_phases t p = Dozing \<longrightarrow> (\<exists>q. q \<noteq> p \<and> sl_phases t q = Working)) \<and>
    ((\<forall>q. sl_phases t q \<noteq> Working) \<longrightarrow> (\<forall>p. \<exists>k. acquiresleep p (sl_lock t) = Ok () k))"
proof -
  have "sl_inv s" using assms(1,2) by (simp add: sl_inv_def)
  with assms(3) have i: "sl_inv t" by (rule sl_inv_run)
  have w: "sl_phases t p = Working \<longleftrightarrow> slocked (sl_lock t) \<noteq> 0 \<and> spid (sl_lock t) = p" for p using i by (simp add: sl_inv_def)
  have "\<exists>q. q \<noteq> p \<and> sl_phases t q = Working" if "sl_phases t p = Dozing" for p
    using that w [of p] w [of "spid (sl_lock t)"] i by (intro exI [of _ "spid (sl_lock t)"]) (auto simp: sl_inv_def)
  then show ?thesis by (auto simp: w sleeplock_runs)
qed

theorem sleeplock_excludes_witness:
  "\<exists>t :: sl_system. sl_phases t 3 = Working \<and> sl_phases t 4 = Dozing \<and> holdingsleep 4 (sl_lock t) = Ok False (sl_lock t)"
proof -
  let ?s = "\<lambda>k f. \<lparr>sl_lock = k, sl_phases = f\<rparr>" and ?f = "\<lambda>_. Away"
  have "sl_step (?s unlocked ?f) (?s unlocked (?f(3 := Trying)))"
    using sl_step.call [of "?s unlocked ?f" 3] by (simp add: set_phase_def)
  moreover have "sl_step (?s unlocked (?f(3 := Trying))) (?s (locked_by 3) (?f(3 := Working)))"
    using sl_step.got_it [of "?s unlocked (?f(3 := Trying))" 3] by (simp add: set_phase_def sleeplock_runs)
  moreover have "sl_step (?s (locked_by 3) (?f(3 := Working))) (?s (locked_by 3) (?f(3 := Working, 4 := Trying)))"
    using sl_step.call [of "?s (locked_by 3) (?f(3 := Working))" 4] by (simp add: set_phase_def)
  moreover have "sl_step (?s (locked_by 3) (?f(3 := Working, 4 := Trying))) (?s (locked_by 3) (?f(3 := Working, 4 := Dozing)))"
    using sl_step.falls_asleep [of "?s (locked_by 3) (?f(3 := Working, 4 := Trying))" 4] by (simp add: set_phase_def sleeplock_runs)
  ultimately have r: "sl_step\<^sup>*\<^sup>* (?s unlocked ?f) (?s (locked_by 3) (?f(3 := Working, 4 := Dozing)))"
    by (meson rtranclp.rtrancl_into_rtrancl rtranclp.rtrancl_refl)
  let ?t = "?s (locked_by 3) (?f(3 := Working, 4 := Dozing))"
  have "\<forall>p. holdingsleep p (sl_lock ?t) = Ok (sl_phases ?t p = Working) (sl_lock ?t)"
    by (rule sleeplock_excludes [OF _ _ r, THEN conjunct2, THEN conjunct1]) simp_all
  then have "sl_phases ?t 3 = Working \<and> sl_phases ?t 4 = Dozing \<and> holdingsleep 4 (sl_lock ?t) = Ok False (sl_lock ?t)" by simp
  then show ?thesis by (rule exI)
qed

end
