(* ===== verification/Bio.thy ===== *)
theory Bio
  imports Sleeplock
begin

text \<open>
  \<^verbatim>\<open>kernel/bio.c\<close>, the buffer cache, over the disk that \<^verbatim>\<open>virtio_disk_rw\<close> reads and writes. Buffers are
  entries of a list; \<^verbatim>\<open>bcache.head\<close> is entry \<open>NBUF\<close>, and the pointers \<^verbatim>\<open>prev\<close> and \<^verbatim>\<open>next\<close> are indices. Each
  function runs its list operations inside a critical section of \<^verbatim>\<open>bcache.lock\<close>. The disk keeps the
  sequence of block writes it has received, which is what a crash can cut short.
\<close>

subsection \<open>Data\<close>

type_synonym block = "u8 list"

definition NBUF :: nat where [const_defs]: "NBUF = 30"
definition BSIZE :: nat where [const_defs]: "BSIZE = 1024"
definition ROOTDEV :: u32 where [const_defs]: "ROOTDEV = 1"

record buf =
  valid :: bool
  dev :: u32
  blockno :: u32
  lock :: sleeplock
  refcnt :: u32
  prev :: nat
  nxt :: nat
  data :: block

record bio =
  bufs :: "buf list"
  disk :: "u32 \<Rightarrow> block"
  written :: "(u32 \<times> block) list"

abbreviation head :: nat where
  "head \<equiv> NBUF"

abbreviation buf_at :: "bio \<Rightarrow> nat \<Rightarrow> buf" where
  "buf_at s i \<equiv> bufs s ! i"

definition upd_buf :: "nat \<Rightarrow> (buf \<Rightarrow> buf) \<Rightarrow> bio \<Rightarrow> bio" where
  "upd_buf i f s = s\<lparr>bufs := (bufs s)[i := f (bufs s ! i)]\<rparr>"

definition buf_lock :: "nat \<Rightarrow> (sleeplock, 'a) prog \<Rightarrow> (bio, 'a) prog" where
  "buf_lock i = zoom (\<lambda>s. lock (buf_at s i)) (\<lambda>f. upd_buf i (lock_update f))"

subsection \<open>The disk\<close>

text \<open>
  What a completed request does: \<^verbatim>\<open>virtio_disk_rw(b, write)\<close> returns after the device has transferred
  the block between \<^verbatim>\<open>b->data\<close> and the disk.
\<close>

definition virtio_disk_rw :: "nat \<Rightarrow> bool \<Rightarrow> (bio, unit) prog" where
  "virtio_disk_rw i write =
     bnd (gets (\<lambda>s. buf_at s i)) (\<lambda>b.
     if write then
       modify (\<lambda>s. s\<lparr>disk := (disk s)(blockno b := data b), written := written s @ [(blockno b, data b)]\<rparr>)
     else
       bnd (gets (\<lambda>s. disk s (blockno b))) (\<lambda>d. modify (upd_buf i (data_update (\<lambda>_. d)))))"

subsection \<open>Operations\<close>

definition binit :: "(bio, unit) prog" where
  "binit =
     andthen (modify (upd_buf head (prev_update (\<lambda>_. head))))
     (andthen (modify (upd_buf head (nxt_update (\<lambda>_. head))))
     (for_each [0..<NBUF] (\<lambda>b.
        bnd (gets (\<lambda>s. nxt (buf_at s head))) (\<lambda>h.
        andthen (modify (upd_buf b (nxt_update (\<lambda>_. h))))
        (andthen (modify (upd_buf b (prev_update (\<lambda>_. head))))
        (andthen (buf_lock b initsleeplock)
        (andthen (modify (upd_buf h (prev_update (\<lambda>_. b))))
        (modify (upd_buf head (nxt_update (\<lambda>_. b)))))))))))"

text \<open>
  The two searches of \<^verbatim>\<open>bget\<close>: along \<^verbatim>\<open>next\<close> for the block, then along \<^verbatim>\<open>prev\<close> for an unused buffer. The
  ring has \<open>NBUF\<close> buffers, so \<open>NBUF + 1\<close> rounds reach the head again.
\<close>

primrec find_cached :: "nat \<Rightarrow> bio \<Rightarrow> u32 \<Rightarrow> u32 \<Rightarrow> nat \<Rightarrow> nat option" where
  "find_cached 0 s d bn b = None"
| "find_cached (Suc fuel) s d bn b =
     (if b = head then None
      else if dev (buf_at s b) = d \<and> blockno (buf_at s b) = bn then Some b
      else find_cached fuel s d bn (nxt (buf_at s b)))"

primrec find_unused :: "nat \<Rightarrow> bio \<Rightarrow> nat \<Rightarrow> nat option" where
  "find_unused 0 s b = None"
| "find_unused (Suc fuel) s b =
     (if b = head then None
      else if refcnt (buf_at s b) = 0 then Some b
      else find_unused fuel s (prev (buf_at s b)))"

definition bget :: "int \<Rightarrow> u32 \<Rightarrow> u32 \<Rightarrow> (bio, nat) prog" where
  "bget pid d bn =
     bnd (gets (\<lambda>s. find_cached (Suc NBUF) s d bn (nxt (buf_at s head)))) (\<lambda>r.
     case r of
       Some b \<Rightarrow>
         andthen (modify (upd_buf b (refcnt_update (\<lambda>n. n + 1))))
         (andthen (buf_lock b (acquiresleep pid)) (ret b))
     | None \<Rightarrow>
         bnd (gets (\<lambda>s. find_unused (Suc NBUF) s (prev (buf_at s head)))) (\<lambda>r.
         case r of
           Some b \<Rightarrow>
             andthen (modify (upd_buf b (\<lambda>x. x\<lparr>dev := d, blockno := bn, valid := False, refcnt := 1\<rparr>)))
             (andthen (buf_lock b (acquiresleep pid)) (ret b))
         | None \<Rightarrow> panic ''bget: no buffers''))"

definition bread :: "int \<Rightarrow> u32 \<Rightarrow> u32 \<Rightarrow> (bio, nat) prog" where
  "bread pid d bn =
     bnd (bget pid d bn) (\<lambda>b.
     bnd (gets (\<lambda>s. valid (buf_at s b))) (\<lambda>v.
     andthen (if \<not> v then andthen (virtio_disk_rw b False) (modify (upd_buf b (valid_update (\<lambda>_. True)))) else ret ())
     (ret b)))"

definition bwrite :: "int \<Rightarrow> nat \<Rightarrow> (bio, unit) prog" where
  "bwrite pid b =
     bnd (buf_lock b (holdingsleep pid)) (\<lambda>h.
     if \<not> h then panic ''bwrite'' else virtio_disk_rw b True)"

definition brelse :: "int \<Rightarrow> nat \<Rightarrow> (bio, unit) prog" where
  "brelse pid b =
     bnd (buf_lock b (holdingsleep pid)) (\<lambda>h.
     if \<not> h then panic ''brelse''
     else andthen (buf_lock b releasesleep)
       (andthen (modify (upd_buf b (refcnt_update (\<lambda>n. n - 1))))
       (bnd (gets (\<lambda>s. refcnt (buf_at s b))) (\<lambda>n.
        if n = 0 then
          bnd (gets (\<lambda>s. buf_at s b)) (\<lambda>x. andthen (modify (upd_buf (nxt x) (prev_update (\<lambda>_. prev x))))
          (bnd (gets (\<lambda>s. buf_at s b)) (\<lambda>x. andthen (modify (upd_buf (prev x) (nxt_update (\<lambda>_. nxt x))))
          (bnd (gets (\<lambda>s. buf_at s head)) (\<lambda>h. andthen (modify (upd_buf b (nxt_update (\<lambda>_. nxt h))))
          (andthen (modify (upd_buf b (prev_update (\<lambda>_. head))))
          (bnd (gets (\<lambda>s. buf_at s head)) (\<lambda>h. andthen (modify (upd_buf (nxt h) (prev_update (\<lambda>_. b))))
          (modify (upd_buf head (nxt_update (\<lambda>_. b))))))))))))
        else ret ()))))"

definition bpin :: "nat \<Rightarrow> (bio, unit) prog" where
  "bpin b = modify (upd_buf b (refcnt_update (\<lambda>n. n + 1)))"

definition bunpin :: "nat \<Rightarrow> (bio, unit) prog" where
  "bunpin b = modify (upd_buf b (refcnt_update (\<lambda>n. n - 1)))"

text \<open>A client's access to \<^verbatim>\<open>b->data\<close>.\<close>

definition bdata :: "nat \<Rightarrow> (bio, block) prog" where
  "bdata i = gets (\<lambda>s. data (buf_at s i))"

definition bset :: "nat \<Rightarrow> block \<Rightarrow> (bio, unit) prog" where
  "bset i d = modify (upd_buf i (data_update (\<lambda>_. d)))"

end
