(* ===== verification/Bcache.thy ===== *)
theory Bcache
  imports Bio
begin

text \<open>
  What the buffer cache promises. The locale \<open>block_cache\<close> is the contract its clients rely on: over an
  abstract cache (the contents a client sees, the contents of the disk, reference counts, lock owners,
  and the sequence of disk writes) each operation is a simple function. The rest of the theory proves
  that the linked list of buffers of \<^verbatim>\<open>bio.c\<close> keeps the contract.
\<close>

subsection \<open>The abstract cache\<close>

record cache =
  cview :: "u32 \<Rightarrow> block"
  cstore :: "u32 \<Rightarrow> block"
  crefs :: "u32 \<Rightarrow> nat"
  cowner :: "u32 \<Rightarrow> int option"
  ctrace :: "(u32 \<times> block) list"

definition c_read :: "int \<Rightarrow> u32 \<Rightarrow> cache \<Rightarrow> cache" where
  "c_read pid b c = c\<lparr>crefs := (crefs c)(b := Suc (crefs c b)), cowner := (cowner c)(b := Some pid)\<rparr>"

definition c_put :: "u32 \<Rightarrow> block \<Rightarrow> cache \<Rightarrow> cache" where
  "c_put b d c = c\<lparr>cview := (cview c)(b := d)\<rparr>"

definition c_write :: "u32 \<Rightarrow> cache \<Rightarrow> cache" where
  "c_write b c = c\<lparr>cstore := (cstore c)(b := cview c b), ctrace := ctrace c @ [(b, cview c b)]\<rparr>"

definition c_relse :: "u32 \<Rightarrow> cache \<Rightarrow> cache" where
  "c_relse b c = c\<lparr>crefs := (crefs c)(b := crefs c b - 1), cowner := (cowner c)(b := None)\<rparr>"

definition c_pin :: "u32 \<Rightarrow> cache \<Rightarrow> cache" where
  "c_pin b c = c\<lparr>crefs := (crefs c)(b := Suc (crefs c b))\<rparr>"

definition c_unpin :: "u32 \<Rightarrow> cache \<Rightarrow> cache" where
  "c_unpin b c = c\<lparr>crefs := (crefs c)(b := crefs c b - 1)\<rparr>"

lemmas c_defs = c_read_def c_put_def c_write_def c_relse_def c_pin_def c_unpin_def

text \<open>The blocks in use, and whether a buffer for block \<open>b\<close> can be had.\<close>

definition in_use :: "cache \<Rightarrow> u32 set" where
  "in_use c = {b. 0 < crefs c b}"

definition room :: "nat \<Rightarrow> cache \<Rightarrow> u32 \<Rightarrow> bool" where
  "room cap c b \<longleftrightarrow> (0 < crefs c b \<or> card (in_use c) < cap) \<and> crefs c b < 2 ^ 32 - 1 \<and> cowner c b = None"

text \<open>Two more buffers can be had, for the blocks \<open>a\<close> and \<open>b\<close>, one after the other.\<close>

definition room2 :: "nat \<Rightarrow> cache \<Rightarrow> u32 \<Rightarrow> u32 \<Rightarrow> bool" where
  "room2 cap c a b \<longleftrightarrow> a \<noteq> b \<and> card (insert a (insert b (in_use c))) \<le> cap \<and>
     (\<forall>x \<in> {a, b}. crefs c x < 2 ^ 32 - 2 \<and> cowner c x = None)"

lemma room2_first: "room2 cap c a b \<Longrightarrow> room cap c a"
proof -
  assume r: "room2 cap c a b"
  have "card (in_use c) < cap" if "crefs c a = 0"
  proof -
    have "a \<notin> in_use c" using that by (simp add: in_use_def)
    then have "card (in_use c) < card (insert a (in_use c))" by simp
    also have "\<dots> \<le> card (insert a (insert b (in_use c)))" by (intro card_mono) auto
    finally show ?thesis using r by (simp add: room2_def)
  qed
  then show ?thesis using r by (auto simp: room_def room2_def)
qed

lemma room2_second: "room2 cap c a b \<Longrightarrow> room cap (c_read pid a c) b"
proof -
  assume r: "room2 cap c a b"
  have u: "in_use (c_read pid a c) = insert a (in_use c)" by (auto simp: in_use_def c_read_def)
  have "card (insert a (in_use c)) < cap" if "crefs c b = 0"
  proof -
    have "b \<notin> insert a (in_use c)" using that r by (auto simp: in_use_def room2_def)
    then have "card (insert a (in_use c)) < card (insert b (insert a (in_use c)))" by simp
    then show ?thesis using r by (simp add: room2_def insert_commute)
  qed
  then show ?thesis using r by (auto simp: room_def room2_def u) (auto simp: c_read_def)
qed

definition c_copy :: "u32 \<Rightarrow> u32 \<Rightarrow> cache \<Rightarrow> cache" where
  "c_copy src dst c = c\<lparr>cview := (cview c)(dst := cview c src), cstore := (cstore c)(dst := cview c src),
     ctrace := ctrace c @ [(dst, cview c src)]\<rparr>"

text \<open>Reading two blocks, copying one over the other and giving both back.\<close>

lemma c_read_relse:
  assumes "cowner c b = None"
  shows "c_relse b (c_read pid b c) = c"
  by (rule cache.equality) (use assms in \<open>auto simp: c_defs fun_eq_iff\<close>)

lemma c_copy_cycle:
  assumes "a \<noteq> b" and "cowner c a = None" and "cowner c b = None" and "{x, y} = {a, b}"
  shows "c_relse x (c_relse y (c_copy src dst (c_read pid b (c_read pid a c)))) = c_copy src dst c"
proof -
  have "x = a \<and> y = b \<or> x = b \<and> y = a" using assms(4) by (auto simp: doubleton_eq_iff)
  then show ?thesis
    by (intro cache.equality) (use assms in \<open>auto simp: c_defs c_copy_def fun_eq_iff\<close>)
qed

lemma c_unpin_cycle:
  assumes "a \<noteq> b" and "cowner c a = None" and "cowner c b = None"
  shows "c_relse b (c_relse a (c_unpin b (c_copy a b (c_read pid b (c_read pid a c))))) = c_unpin b (c_copy a b c)"
  by (rule cache.equality) (use assms in \<open>auto simp: c_defs c_copy_def fun_eq_iff\<close>)

lemma c_rewrite_cycle:
  assumes "cowner c b = None"
  shows "c_relse b (c_write b (c_put b d (c_read pid b c))) = c_write b (c_put b d c)"
  by (rule cache.equality) (use assms in \<open>auto simp: c_defs fun_eq_iff\<close>)

locale block_cache =
  fixes inv :: "'s \<Rightarrow> bool"
    and cabs :: "'s \<Rightarrow> cache"
    and loc :: "'s \<Rightarrow> nat \<Rightarrow> u32 \<Rightarrow> bool"
    and cap :: nat
    and rd :: "int \<Rightarrow> u32 \<Rightarrow> ('s, nat) prog"
    and gt :: "nat \<Rightarrow> ('s, block) prog"
    and pt :: "nat \<Rightarrow> block \<Rightarrow> ('s, unit) prog"
    and wr :: "int \<Rightarrow> nat \<Rightarrow> ('s, unit) prog"
    and rel :: "int \<Rightarrow> nat \<Rightarrow> ('s, unit) prog"
    and pin :: "nat \<Rightarrow> ('s, unit) prog"
    and unpin :: "nat \<Rightarrow> ('s, unit) prog"
  assumes read_ok: "inv s \<Longrightarrow> room cap (cabs s) b \<Longrightarrow>
      wp (rd pid b) (\<lambda>i t. inv t \<and> loc t i b \<and> cabs t = c_read pid b (cabs s) \<and>
        (\<forall>j c. loc s j c \<longrightarrow> 0 < crefs (cabs s) c \<longrightarrow> loc t j c)) s"
    and get_ok: "inv s \<Longrightarrow> loc s i b \<Longrightarrow> cowner (cabs s) b = Some pid \<Longrightarrow> gt i s = Ok (cview (cabs s) b) s"
    and put_ok: "inv s \<Longrightarrow> loc s i b \<Longrightarrow> cowner (cabs s) b = Some pid \<Longrightarrow> length d = BSIZE \<Longrightarrow>
      wp (pt i d) (\<lambda>_ t. inv t \<and> loc t = loc s \<and> cabs t = c_put b d (cabs s)) s"
    and write_ok: "inv s \<Longrightarrow> loc s i b \<Longrightarrow> cowner (cabs s) b = Some pid \<Longrightarrow>
      wp (wr pid i) (\<lambda>_ t. inv t \<and> loc t = loc s \<and> cabs t = c_write b (cabs s)) s"
    and relse_ok: "inv s \<Longrightarrow> loc s i b \<Longrightarrow> cowner (cabs s) b = Some pid \<Longrightarrow>
      (crefs (cabs s) b = 1 \<Longrightarrow> cview (cabs s) b = cstore (cabs s) b) \<Longrightarrow>
      wp (rel pid i) (\<lambda>_ t. inv t \<and> loc t = loc s \<and> cabs t = c_relse b (cabs s)) s"
    and pin_ok: "inv s \<Longrightarrow> loc s i b \<Longrightarrow> 0 < crefs (cabs s) b \<Longrightarrow> crefs (cabs s) b < 2 ^ 32 - 1 \<Longrightarrow>
      wp (pin i) (\<lambda>_ t. inv t \<and> loc t = loc s \<and> cabs t = c_pin b (cabs s)) s"
    and unpin_ok: "inv s \<Longrightarrow> loc s i b \<Longrightarrow> 1 < crefs (cabs s) b \<Longrightarrow>
      wp (unpin i) (\<lambda>_ t. inv t \<and> loc t = loc s \<and> cabs t = c_unpin b (cabs s)) s"
    and view_length: "inv s \<Longrightarrow> length (cview (cabs s) b) = BSIZE"
    and owner_refs: "inv s \<Longrightarrow> cowner (cabs s) b \<noteq> None \<Longrightarrow> 0 < crefs (cabs s) b"
begin

text \<open>Reading a block through the cache and giving the buffer back changes nothing.\<close>

lemma read_release:
  assumes "inv s" and "room cap (cabs s) b"
    and "crefs (cabs s) b = 0 \<Longrightarrow> cview (cabs s) b = cstore (cabs s) b"
  shows "wp (bnd (rd pid b) (\<lambda>i. bnd (gt i) (\<lambda>d. andthen (rel pid i) (ret d))))
    (\<lambda>d t. inv t \<and> cabs t = cabs s \<and> d = cview (cabs s) b) s"
  unfolding wp_bnd wp_andthen wp_ret
proof (rule wp_mono [OF read_ok [OF assms(1,2)]], elim conjE)
  fix i t
  assume t: "inv t" "loc t i b" "cabs t = c_read pid b (cabs s)"
  have o: "cowner (cabs t) b = Some pid" using t(3) by (simp add: c_read_def)
  have "wp (rel pid i) (\<lambda>_ u. inv u \<and> loc u = loc t \<and> cabs u = c_relse b (cabs t)) t"
    by (rule relse_ok [OF t(1,2) o]) (use t(3) assms(3) in \<open>auto simp: c_read_def\<close>)
  then have "wp (rel pid i) (\<lambda>_ u. inv u \<and> cabs u = cabs s \<and> cview (cabs t) b = cview (cabs s) b) t"
    by (rule wp_mono) (use t(3) assms(2) c_read_relse [of "cabs s" b] in \<open>simp add: room_def c_read_def\<close>)
  then show "wp (gt i) (\<lambda>d. wp (rel pid i) (\<lambda>_ u. inv u \<and> cabs u = cabs s \<and> d = cview (cabs s) b)) t"
    by (simp add: wp_def [of "gt i"] get_ok [OF t(1,2) o])
qed

text \<open>Copying one block over another, as the log does in both directions.\<close>

lemma read2:
  assumes "inv s" and "room2 cap (cabs s) a b"
    and "\<And>i j t. inv t \<Longrightarrow> loc t i a \<Longrightarrow> loc t j b \<Longrightarrow> cabs t = c_read pid b (c_read pid a (cabs s)) \<Longrightarrow> wp (M i j) Q t"
  shows "wp (bnd (rd pid a) (\<lambda>i. bnd (rd pid b) (M i))) Q s"
  unfolding wp_bnd
proof (rule wp_mono [OF read_ok [OF assms(1) room2_first [OF assms(2)]]], elim conjE)
  fix i t assume t: "inv t" "loc t i a" "cabs t = c_read pid a (cabs s)"
  have r: "room cap (cabs t) b" using room2_second [OF assms(2)] t(3) by simp
  show "wp (rd pid b) (\<lambda>j. wp (M i j) Q) t"
  proof (rule wp_mono [OF read_ok [OF t(1) r]], elim conjE)
    fix j u
    assume u: "inv u" "loc u j b" "cabs u = c_read pid b (cabs t)"
      and k: "\<forall>j c. loc t j c \<longrightarrow> 0 < crefs (cabs t) c \<longrightarrow> loc u j c"
    have "loc u i a" using k t(2,3) by (simp add: c_read_def)
    then show "wp (M i j) Q u" using assms(3) u t(3) by simp
  qed
qed

lemma copy_write:
  assumes t: "inv t" "loc t i a" "loc t j b" and o: "cowner (cabs t) a = Some pid" "cowner (cabs t) b = Some pid"
    and "a \<noteq> b"
    and Q: "\<And>u. inv u \<Longrightarrow> loc u = loc t \<Longrightarrow> cabs u = c_copy a b (cabs t) \<Longrightarrow> wp M Q u"
  shows "wp (bnd (gt i) (\<lambda>d. andthen (pt j d) (andthen (wr pid j) M))) Q t"
proof -
  let ?d = "cview (cabs t) a"
  have "wp (pt j ?d) (\<lambda>_. wp (wr pid j) (\<lambda>_. wp M Q)) t"
  proof (rule wp_mono [OF put_ok [OF t(1,3) o(2) view_length [OF t(1)]]], elim conjE)
    fix u assume u: "inv u" "loc u = loc t" "cabs u = c_put b ?d (cabs t)"
    have "loc u j b" "cowner (cabs u) b = Some pid" using u t(3) o(2) by (simp_all add: c_put_def)
    then show "wp (wr pid j) (\<lambda>_. wp M Q) u"
      by (rule wp_mono [OF write_ok [OF u(1)]]) (use u assms(6) in \<open>auto simp: c_defs c_copy_def intro!: Q\<close>)
  qed
  then show ?thesis by (simp add: wp_bnd wp_andthen wp_def [of "gt i"] get_ok [OF t(1,2) o(1)])
qed

lemma release2:
  assumes t: "inv t" "loc t i a" "loc t j b" and o: "cowner (cabs t) a = Some pid" "cowner (cabs t) b = Some pid"
    and "a \<noteq> b"
    and clean: "crefs (cabs t) a = 1 \<Longrightarrow> cview (cabs t) a = cstore (cabs t) a"
      "crefs (cabs t) b = 1 \<Longrightarrow> cview (cabs t) b = cstore (cabs t) b"
  shows "wp (andthen (rel pid i) (rel pid j)) (\<lambda>_ u. inv u \<and> cabs u = c_relse b (c_relse a (cabs t))) t"
  unfolding wp_andthen
proof (rule wp_mono [OF relse_ok [OF t(1,2) o(1) clean(1)]], assumption, elim conjE)
  fix u assume u: "inv u" "loc u = loc t" "cabs u = c_relse a (cabs t)"
  have "wp (rel pid j) (\<lambda>_ v. inv v \<and> loc v = loc u \<and> cabs v = c_relse b (cabs u)) u"
    by (rule relse_ok) (use u t(3) o(2) assms(6) clean(2) in \<open>auto simp: c_relse_def\<close>)
  then show "wp (rel pid j) (\<lambda>_ v. inv v \<and> cabs v = c_relse b (c_relse a (cabs t))) u"
    by (rule wp_mono) (use u in auto)
qed

text \<open>
  One round of \<open>write_log\<close>: block \<open>b\<close> is copied to \<open>a\<close>, and one round of \<open>install_trans\<close>: block \<open>a\<close> is copied
  to \<open>b\<close> and, unless recovering, \<open>b\<close> loses the reference that pinned it.
\<close>

lemma log_round:
  assumes "inv s" and "room2 cap (cabs s) a b"
    and "crefs (cabs s) b = 0 \<Longrightarrow> cview (cabs s) b = cstore (cabs s) b"
  shows "wp (bnd (rd pid a) (\<lambda>i. bnd (rd pid b) (\<lambda>j. bnd (gt j) (\<lambda>d. andthen (pt i d)
      (andthen (wr pid i) (andthen (rel pid j) (rel pid i)))))))
    (\<lambda>_ t. inv t \<and> cabs t = c_copy b a (cabs s)) s"
proof (rule read2 [OF assms(1,2)])
  fix i j t
  assume t: "inv t" "loc t i a" "loc t j b" "cabs t = c_read pid b (c_read pid a (cabs s))"
  have ne: "b \<noteq> a" using assms(2) by (auto simp: room2_def)
  have o: "cowner (cabs t) b = Some pid" "cowner (cabs t) a = Some pid" using t(4) ne by (auto simp: c_read_def)
  show "wp (bnd (gt j) (\<lambda>d. andthen (pt i d) (andthen (wr pid i) (andthen (rel pid j) (rel pid i)))))
    (\<lambda>_ t. inv t \<and> cabs t = c_copy b a (cabs s)) t"
  proof (rule copy_write [OF t(1,3,2) o ne])
    fix u assume u: "inv u" "loc u = loc t" "cabs u = c_copy b a (cabs t)"
    have "wp (andthen (rel pid j) (rel pid i)) (\<lambda>_ v. inv v \<and> cabs v = c_relse a (c_relse b (cabs u))) u"
      by (rule release2) (use u t o ne assms(3) in \<open>auto simp: c_copy_def c_read_def\<close>)
    then show "wp (andthen (rel pid j) (rel pid i)) (\<lambda>_ v. inv v \<and> cabs v = c_copy b a (cabs s)) u"
      by (rule wp_mono) (use u t(4) ne assms(2) c_copy_cycle [of a b "cabs s" a b] in \<open>simp add: room2_def\<close>)
  qed
qed

lemma install_round:
  assumes "inv s" and "room2 cap (cabs s) a b" and "\<not> recovering \<Longrightarrow> 0 < crefs (cabs s) b"
    and "crefs (cabs s) a = 0 \<Longrightarrow> cview (cabs s) a = cstore (cabs s) a"
  shows "wp (bnd (rd pid a) (\<lambda>i. bnd (rd pid b) (\<lambda>j. bnd (gt i) (\<lambda>d. andthen (pt j d)
      (andthen (wr pid j) (andthen (if \<not> recovering then unpin j else ret ()) (andthen (rel pid i) (rel pid j))))))))
    (\<lambda>_ t. inv t \<and> cabs t = (if recovering then c_copy a b (cabs s) else c_unpin b (c_copy a b (cabs s)))) s"
proof (rule read2 [OF assms(1,2)])
  fix i j t
  assume t: "inv t" "loc t i a" "loc t j b" "cabs t = c_read pid b (c_read pid a (cabs s))"
  have ne: "a \<noteq> b" using assms(2) by (auto simp: room2_def)
  have o: "cowner (cabs t) a = Some pid" "cowner (cabs t) b = Some pid" using t(4) ne by (auto simp: c_read_def)
  show "wp (bnd (gt i) (\<lambda>d. andthen (pt j d) (andthen (wr pid j) (andthen (if \<not> recovering then unpin j else ret ())
        (andthen (rel pid i) (rel pid j))))))
    (\<lambda>_ t. inv t \<and> cabs t = (if recovering then c_copy a b (cabs s) else c_unpin b (c_copy a b (cabs s)))) t"
  proof (rule copy_write [OF t(1,2,3) o ne])
    fix u assume u: "inv u" "loc u = loc t" "cabs u = c_copy a b (cabs t)"
    have lu: "loc u i a" "loc u j b" using u(2) t(2,3) by simp_all
    have fin: "wp (andthen (rel pid i) (rel pid j))
        (\<lambda>_ v. inv v \<and> cabs v = (if recovering then c_copy a b (cabs s) else c_unpin b (c_copy a b (cabs s)))) w"
      if w: "inv w" "loc w = loc u" "cabs w = (if recovering then cabs u else c_unpin b (cabs u))" for w
    proof -
      have "wp (andthen (rel pid i) (rel pid j)) (\<lambda>_ v. inv v \<and> cabs v = c_relse b (c_relse a (cabs w))) w"
        by (rule release2) (use w u t o ne assms(4) in \<open>auto simp: c_copy_def c_read_def c_unpin_def split: if_splits\<close>)
      then show ?thesis
        by (rule wp_mono) (use w(3) u t(4) ne assms(2) c_copy_cycle [of a b "cabs s" b a]
          c_unpin_cycle [of a b "cabs s"] in \<open>simp add: room2_def insert_commute\<close>)
    qed
    show "wp (andthen (if \<not> recovering then unpin j else ret ()) (andthen (rel pid i) (rel pid j)))
        (\<lambda>_ v. inv v \<and> cabs v = (if recovering then c_copy a b (cabs s) else c_unpin b (c_copy a b (cabs s)))) u"
    proof (cases recovering)
      case True
      then show ?thesis using fin [OF u(1)] by (simp add: wp_andthen wp_ret)
    next
      case False
      then have "1 < crefs (cabs u) b" using assms(3) u(3) t(4) ne by (simp add: c_copy_def c_read_def)
      then have "wp (unpin j) (\<lambda>_ v. inv v \<and> loc v = loc u \<and> cabs v = c_unpin b (cabs u)) u"
        by (rule unpin_ok [OF u(1) lu(2)])
      then have "wp (unpin j) (\<lambda>_. wp (andthen (rel pid i) (rel pid j)) (\<lambda>_ v. inv v \<and>
          cabs v = (if recovering then c_copy a b (cabs s) else c_unpin b (c_copy a b (cabs s))))) u"
        by (rule wp_mono) (rule fin, use False in auto)
      then show ?thesis using False by (simp add: wp_andthen)
    qed
  qed
qed

text \<open>Rewriting one block in place: read it, change it, write it through, give it back.\<close>

lemma rewrite_round:
  assumes "inv s" and "room cap (cabs s) b" and "\<And>x. length x = BSIZE \<Longrightarrow> length (f x) = BSIZE"
  shows "wp (bnd (rd pid b) (\<lambda>i. bnd (gt i) (\<lambda>d. andthen (pt i (f d)) (andthen (wr pid i) (rel pid i)))))
    (\<lambda>_ t. inv t \<and> cabs t = c_write b (c_put b (f (cview (cabs s) b)) (cabs s))) s"
  unfolding wp_bnd wp_andthen
proof (rule wp_mono [OF read_ok [OF assms(1,2)]], elim conjE)
  fix i t
  assume t: "inv t" "loc t i b" "cabs t = c_read pid b (cabs s)"
  have o: "cowner (cabs t) b = Some pid" using t(3) by (simp add: c_read_def)
  let ?d = "f (cview (cabs t) b)"
  have "wp (pt i ?d) (\<lambda>_. wp (wr pid i) (\<lambda>_. wp (rel pid i)
      (\<lambda>_ t. inv t \<and> cabs t = c_write b (c_put b (f (cview (cabs s) b)) (cabs s))))) t"
  proof (rule wp_mono [OF put_ok [OF t(1,2) o assms(3) [OF view_length [OF t(1)]]]], elim conjE)
    fix u assume u: "inv u" "loc u = loc t" "cabs u = c_put b ?d (cabs t)"
    have lu: "loc u i b" "cowner (cabs u) b = Some pid" using u t(2) o by (simp_all add: c_put_def)
    show "wp (wr pid i) (\<lambda>_. wp (rel pid i)
      (\<lambda>_ t. inv t \<and> cabs t = c_write b (c_put b (f (cview (cabs s) b)) (cabs s)))) u"
    proof (rule wp_mono [OF write_ok [OF u(1) lu]], elim conjE)
      fix v assume v: "inv v" "loc v = loc u" "cabs v = c_write b (cabs u)"
      have "wp (rel pid i) (\<lambda>_ w. inv w \<and> loc w = loc v \<and> cabs w = c_relse b (cabs v)) v"
        by (rule relse_ok) (use v u lu o in \<open>auto simp: c_defs\<close>)
      then show "wp (rel pid i) (\<lambda>_ t. inv t \<and> cabs t = c_write b (c_put b (f (cview (cabs s) b)) (cabs s))) v"
        by (rule wp_mono) (use v u t(3) assms(2) c_rewrite_cycle [of "cabs s" b] in \<open>simp add: room_def c_read_def\<close>)
    qed
  qed
  then show "wp (gt i) (\<lambda>d. wp (pt i (f d)) (\<lambda>_. wp (wr pid i) (\<lambda>_. wp (rel pid i)
      (\<lambda>_ t. inv t \<and> cabs t = c_write b (c_put b (f (cview (cabs s) b)) (cabs s)))))) t"
    by (simp add: wp_def [of "gt i"] get_ok [OF t(1,2) o])
qed

end

end
