(* ===== verification/Bufring.thy ===== *)
theory Bufring
  imports Bcache
begin

text \<open>
  The buffer cache of \<^verbatim>\<open>bio.c\<close> keeps the contract \<open>block_cache\<close>. The pointers of the buffers form a ring
  through the head whose order is the order of last use; the searches of \<^verbatim>\<open>bget\<close> and the list surgery
  of \<^verbatim>\<open>brelse\<close> are operations on that order.
\<close>

subsection \<open>Doubly linked paths\<close>

primrec dlink :: "(nat \<Rightarrow> nat) \<Rightarrow> (nat \<Rightarrow> nat) \<Rightarrow> nat \<Rightarrow> nat list \<Rightarrow> nat \<Rightarrow> bool" where
  "dlink nx pv a [] b \<longleftrightarrow> nx a = b \<and> pv b = a"
| "dlink nx pv a (x # xs) b \<longleftrightarrow> nx a = x \<and> pv x = a \<and> dlink nx pv x xs b"

lemma dlink_append:
  "dlink nx pv a (xs @ y # ys) b \<longleftrightarrow> dlink nx pv a xs y \<and> dlink nx pv y ys b"
  by (induction xs arbitrary: a) auto

lemma dlink_cong:
  assumes "\<And>i. i \<in> set (a # xs) \<Longrightarrow> nx' i = nx i" and "\<And>i. i \<in> set (xs @ [b]) \<Longrightarrow> pv' i = pv i"
  shows "dlink nx' pv' a xs b = dlink nx pv a xs b"
  using assms by (induction xs arbitrary: a) auto

lemma dlink_last: "dlink nx pv a xs b \<Longrightarrow> nx (last (a # xs)) = b \<and> pv b = last (a # xs)"
  by (induction xs arbitrary: a) auto

lemma dlink_first: "dlink nx pv a xs b \<Longrightarrow> nx a = hd (xs @ [b]) \<and> pv (hd (xs @ [b])) = a"
  by (cases xs) auto

text \<open>Taking an element out of a path.\<close>

lemma dlink_remove:
  assumes "dlink nx pv a (xs @ y # ys) b" and "distinct (a # xs @ y # ys)" and "distinct (xs @ y # ys @ [b])"
  shows "dlink (nx(pv y := nx y)) (pv(nx y := pv y)) a (xs @ ys) b"
proof -
  let ?p = "last (a # xs)" and ?n = "hd (ys @ [b])"
  have l: "dlink nx pv a xs y" "dlink nx pv y ys b" using assms(1) by (simp_all add: dlink_append)
  have p: "pv y = ?p" using dlink_last [OF l(1)] by simp
  have n: "nx y = ?n" using dlink_first [OF l(2)] by simp
  have "dlink (nx(?p := ?n)) (pv(?n := ?p)) a (xs @ ys) b"
  proof (cases ys)
    case Nil
    show ?thesis using l(1) assms(2,3) unfolding Nil
    proof (induction xs arbitrary: a)
      case (Cons x xs)
      then show ?case by (auto split: if_splits)
    qed simp
  next
    case (Cons z zs)
    have r: "dlink nx pv z zs b" using l(2) Cons by simp
    have "?p \<in> set (a # xs)" by (rule last_in_set) simp
    then have "?p \<notin> set (z # zs)" using assms(2) Cons by auto
    then have "dlink (nx(?p := z)) (pv(z := ?p)) z zs b = dlink nx pv z zs b"
      using assms(3) Cons by (intro dlink_cong) (auto simp del: last.simps)
    moreover have "dlink (nx(?p := z)) (pv(z := ?p)) a xs z"
      using l(1) assms(2,3) unfolding Cons
    proof (induction xs arbitrary: a)
      case (Cons x xs)
      then show ?case by (auto split: if_splits)
    qed simp
    ultimately show ?thesis using r Cons by (simp add: dlink_append)
  qed
  then show ?thesis unfolding p n .
qed

text \<open>Putting an element in front.\<close>

lemma dlink_push:
  assumes "dlink nx pv a xs b" and "y \<notin> set (a # xs)" and "y \<noteq> b" and "distinct (a # xs)" and "distinct (xs @ [b])"
  shows "dlink (nx(y := nx a, a := y)) (pv(y := a, nx a := y)) a (y # xs) b"
proof (cases xs)
  case Nil
  then show ?thesis using assms by auto
next
  case (Cons z zs)
  have z: "nx a = z" "dlink nx pv z zs b" using assms(1) Cons by auto
  have "dlink (nx(y := z, a := y)) (pv(y := a, z := y)) z zs b = dlink nx pv z zs b"
    using assms(2-5) Cons by (intro dlink_cong) auto
  then show ?thesis using z assms Cons by auto
qed

subsection \<open>The ring and the abstraction\<close>

definition nx :: "bio \<Rightarrow> nat \<Rightarrow> nat" where "nx s i = nxt (buf_at s i)"
definition pv :: "bio \<Rightarrow> nat \<Rightarrow> nat" where "pv s i = prev (buf_at s i)"

definition ring :: "bio \<Rightarrow> nat list \<Rightarrow> bool" where
  "ring s xs \<longleftrightarrow> length (bufs s) = Suc NBUF \<and> distinct xs \<and> set xs = {..<NBUF} \<and> dlink (nx s) (pv s) head xs head"

text \<open>\<open>names b\<close>: the buffer is for a block of the root device. No two buffers are for the same block.\<close>

definition for_block :: "u32 \<Rightarrow> buf \<Rightarrow> bool" where
  "for_block bn b \<longleftrightarrow> dev b = ROOTDEV \<and> blockno b = bn"

definition buf_ok :: "(u32 \<Rightarrow> block) \<Rightarrow> buf \<Rightarrow> bool" where
  "buf_ok d b \<longleftrightarrow> length (data b) = BSIZE \<and> (valid b \<or> refcnt b \<noteq> 0 \<longrightarrow> dev b = ROOTDEV) \<and>
     (slocked (lock b) \<noteq> 0 \<longrightarrow> refcnt b \<noteq> 0) \<and> (refcnt b = 0 \<and> valid b \<longrightarrow> data b = d (blockno b))"

definition bufs_ok :: "bio \<Rightarrow> bool" where
  "bufs_ok s \<longleftrightarrow> length (bufs s) = Suc NBUF \<and> (\<forall>i<NBUF. buf_ok (disk s) (buf_at s i)) \<and>
     (\<forall>i<NBUF. \<forall>j<NBUF. \<forall>bn. for_block bn (buf_at s i) \<longrightarrow> for_block bn (buf_at s j) \<longrightarrow> i = j) \<and>
     (\<forall>bn. length (disk s bn) = BSIZE)"

text \<open>Between calls every buffer for a block of the device has been read.\<close>

definition bio_inv :: "bio \<Rightarrow> bool" where
  "bio_inv s \<longleftrightarrow> bufs_ok s \<and> (\<exists>xs. ring s xs) \<and>
     (\<forall>i<NBUF. dev (buf_at s i) = ROOTDEV \<longrightarrow> valid (buf_at s i))"

definition lookup :: "bio \<Rightarrow> u32 \<Rightarrow> buf option" where
  "lookup s bn = map_option (\<lambda>i. buf_at s i) (find (\<lambda>i. for_block bn (buf_at s i)) [0..<NBUF])"

definition bio_abs :: "bio \<Rightarrow> cache" where
  "bio_abs s = \<lparr>
     cview = (\<lambda>bn. case lookup s bn of Some b \<Rightarrow> if valid b then data b else disk s bn | None \<Rightarrow> disk s bn),
     cstore = disk s,
     crefs = (\<lambda>bn. case lookup s bn of Some b \<Rightarrow> unat (refcnt b) | None \<Rightarrow> 0),
     cowner = (\<lambda>bn. case lookup s bn of
        Some b \<Rightarrow> if slocked (lock b) \<noteq> 0 then Some (spid (lock b)) else None | None \<Rightarrow> None),
     ctrace = written s\<rparr>"

definition holds :: "bio \<Rightarrow> nat \<Rightarrow> u32 \<Rightarrow> bool" where
  "holds s i bn \<longleftrightarrow> i < NBUF \<and> for_block bn (buf_at s i)"

lemma find_SomeD: "find P xs = Some x \<Longrightarrow> P x \<and> x \<in> set xs"
  by (induction xs) (auto split: if_splits)

lemma find_unique:
  assumes "i \<in> set xs" and "P i" and "\<And>j. j \<in> set xs \<Longrightarrow> P j \<Longrightarrow> j = i"
  shows "find P xs = Some i"
proof (cases "find P xs")
  case None
  then show ?thesis using assms(1,2) by (auto simp: find_None_iff)
next
  case (Some j)
  then show ?thesis using find_SomeD [OF Some] assms(3) by auto
qed

lemma lookup_Some:
  assumes "bufs_ok s"
  shows "lookup s bn = Some b \<longleftrightarrow> (\<exists>i. holds s i bn \<and> b = buf_at s i)"
proof
  assume "lookup s bn = Some b"
  then show "\<exists>i. holds s i bn \<and> b = buf_at s i"
    by (auto simp: lookup_def holds_def dest!: find_SomeD)
next
  assume "\<exists>i. holds s i bn \<and> b = buf_at s i"
  then obtain i where i: "i < NBUF" "for_block bn (buf_at s i)" "b = buf_at s i" by (auto simp: holds_def)
  then have "find (\<lambda>i. for_block bn (buf_at s i)) [0..<NBUF] = Some i"
    using assms by (intro find_unique) (auto simp: bufs_ok_def)
  then show "lookup s bn = Some b" using i by (simp add: lookup_def)
qed

lemma lookup_None: "lookup s bn = None \<longleftrightarrow> (\<forall>i. \<not> holds s i bn)"
  by (auto simp: lookup_def holds_def find_None_iff)

lemma lookup_holds: "bufs_ok s \<Longrightarrow> holds s i bn \<Longrightarrow> lookup s bn = Some (buf_at s i)"
  by (auto simp: lookup_Some)

lemma holds_unique: "bufs_ok s \<Longrightarrow> holds s i bn \<Longrightarrow> holds s j bn \<Longrightarrow> i = j"
  unfolding holds_def bufs_ok_def by blast

lemma nth_upd_buf [simp]:
  "i < length (bufs s) \<Longrightarrow> buf_at (upd_buf i f s) j = (if j = i then f (buf_at s i) else buf_at s j)"
  by (simp add: upd_buf_def nth_list_update)

lemma upd_buf_simps [simp]:
  "length (bufs (upd_buf i f s)) = length (bufs s)"
  "disk (upd_buf i f s) = disk s"
  "written (upd_buf i f s) = written s"
  by (simp_all add: upd_buf_def)

text \<open>Changing a buffer without changing which block it is for.\<close>

lemma lookup_upd:
  assumes "bufs_ok s" and "holds s i bn" and "\<And>x. for_block x (f (buf_at s i)) = for_block x (buf_at s i)"
  shows "lookup (upd_buf i f s) c = (if c = bn then Some (f (buf_at s i)) else lookup s c)"
proof -
  have i: "i < NBUF" "i < length (bufs s)" using assms(1,2) by (auto simp: holds_def bufs_ok_def)
  have P: "for_block c (buf_at (upd_buf i f s) j) = for_block c (buf_at s j)" for j
    using i assms(3) by auto
  have "find (\<lambda>j. for_block c (buf_at (upd_buf i f s) j)) [0..<NBUF] = find (\<lambda>j. for_block c (buf_at s j)) [0..<NBUF]"
    by (simp only: P)
  moreover have "find (\<lambda>j. for_block c (buf_at s j)) [0..<NBUF] = Some i \<longleftrightarrow> c = bn"
  proof
    assume "find (\<lambda>j. for_block c (buf_at s j)) [0..<NBUF] = Some i"
    then have "for_block c (buf_at s i)" by (auto dest: find_SomeD)
    then show "c = bn" using assms(2) by (auto simp: holds_def for_block_def)
  next
    assume "c = bn"
    then show "find (\<lambda>j. for_block c (buf_at s j)) [0..<NBUF] = Some i"
      using assms(1,2) i by (intro find_unique) (auto simp: bufs_ok_def holds_def)
  qed
  ultimately show ?thesis
    using i by (cases "find (\<lambda>j. for_block c (buf_at s j)) [0..<NBUF]") (auto simp: lookup_def)
qed

lemma holds_upd:
  assumes "bufs_ok s" and "i < NBUF" and "\<And>x. for_block x (f (buf_at s i)) = for_block x (buf_at s i)"
  shows "holds (upd_buf i f s) j c = holds s j c"
  using assms by (auto simp: holds_def bufs_ok_def)

lemma bufs_ok_upd:
  assumes "bufs_ok s" and "i < NBUF" and "\<And>x. for_block x (f (buf_at s i)) = for_block x (buf_at s i)"
    and "buf_ok (disk s) (f (buf_at s i))"
  shows "bufs_ok (upd_buf i f s)"
proof -
  have "buf_at (upd_buf i f s) j = (if j = i then f (buf_at s i) else buf_at s j)" for j
    using assms(1,2) by (simp add: bufs_ok_def)
  then show ?thesis using assms unfolding bufs_ok_def by auto
qed

lemma ring_upd:
  assumes "ring s xs" and "nxt (f (buf_at s i)) = nxt (buf_at s i)" and "prev (f (buf_at s i)) = prev (buf_at s i)"
  shows "ring (upd_buf i f s) xs"
proof (cases "i < length (bufs s)")
  case True
  then have "nx (upd_buf i f s) = nx s" "pv (upd_buf i f s) = pv s" using assms by (auto simp: nx_def pv_def)
  then show ?thesis using assms(1) by (simp add: ring_def)
next
  case False
  then have "upd_buf i f s = s" by (simp add: upd_buf_def list_update_beyond not_less)
  then show ?thesis using assms(1) by simp
qed

lemma upd_buf_twice [simp]: "upd_buf i f (upd_buf i g s) = upd_buf i (\<lambda>b. f (g b)) s" if "i < length (bufs s)"
  using that by (simp add: upd_buf_def)

subsection \<open>The searches\<close>

lemma find_cached_path:
  assumes "dlink (nx s) (pv s) a xs head" and "head \<notin> set xs" and "length xs \<le> n"
  shows "find_cached (Suc n) s d bn (nx s a) = find (\<lambda>i. dev (buf_at s i) = d \<and> blockno (buf_at s i) = bn) xs"
  using assms
proof (induction xs arbitrary: a n)
  case (Cons x xs)
  then obtain k where k: "n = Suc k" by (cases n) auto
  have "find_cached (Suc k) s d bn (nx s x) = find (\<lambda>i. dev (buf_at s i) = d \<and> blockno (buf_at s i) = bn) xs"
    using Cons.prems k by (intro Cons.IH) auto
  then show ?case using Cons.prems k by (auto simp: nx_def)
qed simp

lemma find_unused_path:
  assumes "dlink (nx s) (pv s) head xs b" and "head \<notin> set xs" and "length xs \<le> n"
  shows "find_unused (Suc n) s (pv s b) = find (\<lambda>i. refcnt (buf_at s i) = 0) (rev xs)"
  using assms
proof (induction xs arbitrary: b n rule: rev_induct)
  case (snoc x xs)
  then obtain k where k: "n = Suc k" by (cases n) auto
  have l: "dlink (nx s) (pv s) head xs x" "pv s b = x" using snoc.prems(1) by (auto simp: dlink_append)
  have "find_unused (Suc k) s (pv s x) = find (\<lambda>i. refcnt (buf_at s i) = 0) (rev xs)"
    using snoc.prems k l by (intro snoc.IH) auto
  then show ?case using snoc.prems k l by (auto simp: pv_def)
qed simp

lemma ring_facts:
  assumes "ring s xs"
  shows "length xs = NBUF" and "head \<notin> set xs" and "length (bufs s) = Suc NBUF"
proof -
  have "distinct xs" and x: "set xs = {..<NBUF}" using assms by (auto simp: ring_def)
  then show "length xs = NBUF" using distinct_card [of xs] by simp
  show "head \<notin> set xs" using x by simp
  show "length (bufs s) = Suc NBUF" using assms by (simp add: ring_def)
qed

lemma find_cached_hit:
  assumes "bufs_ok s" and "ring s xs" and "holds s i bn"
  shows "find_cached (Suc NBUF) s ROOTDEV bn (nxt (buf_at s head)) = Some i"
proof -
  have "find_cached (Suc NBUF) s ROOTDEV bn (nx s head) =
      find (\<lambda>i. dev (buf_at s i) = ROOTDEV \<and> blockno (buf_at s i) = bn) xs"
    using assms(2) ring_facts [OF assms(2)] by (intro find_cached_path) (auto simp: ring_def)
  also have "\<dots> = Some i"
    using assms by (intro find_unique) (auto simp: ring_def holds_def for_block_def bufs_ok_def)
  finally show ?thesis by (simp add: nx_def)
qed

lemma find_cached_miss:
  assumes "ring s xs" and "\<And>i. \<not> holds s i bn"
  shows "find_cached (Suc NBUF) s ROOTDEV bn (nxt (buf_at s head)) = None"
proof -
  have "find_cached (Suc NBUF) s ROOTDEV bn (nx s head) =
      find (\<lambda>i. dev (buf_at s i) = ROOTDEV \<and> blockno (buf_at s i) = bn) xs"
    using assms(1) ring_facts [OF assms(1)] by (intro find_cached_path) (auto simp: ring_def)
  also have "\<dots> = None" using assms by (auto simp: find_None_iff ring_def holds_def for_block_def)
  finally show ?thesis by (simp add: nx_def)
qed

lemma find_unused_ring:
  assumes "ring s xs"
  shows "find_unused (Suc NBUF) s (prev (buf_at s head)) = find (\<lambda>i. refcnt (buf_at s i) = 0) (rev xs)"
  using find_unused_path [of s xs head NBUF] assms ring_facts [OF assms] by (simp add: ring_def pv_def)

text \<open>If fewer than \<open>NBUF\<close> blocks are in use, some buffer is unused.\<close>

lemma unused_exists:
  assumes "bufs_ok s" and "ring s xs" and "card (in_use (bio_abs s)) < NBUF"
  shows "\<exists>i<NBUF. find_unused (Suc NBUF) s (prev (buf_at s head)) = Some i \<and> refcnt (buf_at s i) = 0"
proof -
  have "\<exists>i<NBUF. refcnt (buf_at s i) = 0"
  proof (rule ccontr)
    assume "\<not> (\<exists>i<NBUF. refcnt (buf_at s i) = 0)"
    then have used: "holds s i (blockno (buf_at s i))" "refcnt (buf_at s i) \<noteq> 0" if "i < NBUF" for i
      using assms(1) that by (auto simp: bufs_ok_def buf_ok_def holds_def for_block_def)
    then have "(\<lambda>i. blockno (buf_at s i)) ` {..<NBUF} \<subseteq> in_use (bio_abs s)"
      using lookup_holds [OF assms(1)] by (force simp: in_use_def bio_abs_def unat_gt_0)
    moreover have "inj_on (\<lambda>i. blockno (buf_at s i)) {..<NBUF}"
      using used(1) holds_unique [OF assms(1)] by (intro inj_onI) (metis lessThan_iff)
    ultimately have "NBUF \<le> card (in_use (bio_abs s))"
      by (metis card_inj_on_le card_lessThan finite)
    then show False using assms(3) by simp
  qed
  then have "find (\<lambda>i. refcnt (buf_at s i) = 0) (rev xs) \<noteq> None"
    using assms(2) by (auto simp: find_None_iff ring_def)
  then obtain i where i: "find (\<lambda>i. refcnt (buf_at s i) = 0) (rev xs) = Some i" by auto
  then show ?thesis using find_SomeD [OF i] find_unused_ring [OF assms(2)] assms(2) by (auto simp: ring_def)
qed

subsection \<open>Reading\<close>

lemma buf_lock_run:
  "buf_lock i m s = (case m (lock (buf_at s i)) of
     Ok a k \<Rightarrow> Ok a (upd_buf i (lock_update (\<lambda>_. k)) s) | Err e k \<Rightarrow> Err e (upd_buf i (lock_update (\<lambda>_. k)) s))"
  by (simp add: buf_lock_def run_simps)

lemma buf_lock_holding:
  assumes "i < length (bufs s)"
  shows "buf_lock i (holdingsleep pid) s = Ok (slocked (lock (buf_at s i)) \<noteq> 0 \<and> spid (lock (buf_at s i)) = pid) s"
proof -
  have "upd_buf i (lock_update (\<lambda>_. lock (buf_at s i))) s = s" by (simp add: upd_buf_def)
  then show ?thesis by (simp add: buf_lock_run sleeplock_runs)
qed

lemma bread_hit:
  assumes inv: "bio_inv s" and h: "holds s i bn" and free: "slocked (lock (buf_at s i)) = 0"
  shows "bread pid ROOTDEV bn s = Ok i (upd_buf i (\<lambda>b. (refcnt_update (\<lambda>n. n + 1) b)\<lparr>lock := locked_by pid\<rparr>) s)"
proof -
  obtain xs where r: "ring s xs" and ok: "bufs_ok s" using inv by (auto simp: bio_inv_def)
  have i: "i < length (bufs s)" using h ring_facts(3) [OF r] by (simp add: holds_def)
  have v: "valid (buf_at s i)" using inv h by (auto simp: bio_inv_def holds_def for_block_def)
  show ?thesis
    using i free v find_cached_hit [OF ok r h]
    by (simp add: bread_def bget_def run_simps buf_lock_run sleeplock_runs del: find_cached.simps)
qed

lemma bread_miss:
  assumes r: "ring s xs" and miss: "\<And>i. \<not> holds s i bn"
    and u: "find_unused (Suc NBUF) s (prev (buf_at s head)) = Some i" "i < NBUF"
    and free: "slocked (lock (buf_at s i)) = 0"
  shows "bread pid ROOTDEV bn s = Ok i (upd_buf i (\<lambda>b. b\<lparr>dev := ROOTDEV, blockno := bn,
    refcnt := 1, lock := locked_by pid, data := disk s bn, valid := True\<rparr>) s)"
proof -
  have i: "i < length (bufs s)" using u(2) ring_facts(3) [OF r] by simp
  show ?thesis
    using i free find_cached_miss [OF r miss] u(1)
    by (simp add: bread_def bget_def run_simps buf_lock_run sleeplock_runs virtio_disk_rw_def
        del: find_cached.simps find_unused.simps)
qed

lemma lookup_recycle:
  assumes ok: "bufs_ok s" and i: "i < NBUF" and miss: "\<And>j. \<not> holds s j bn" and x: "for_block bn (f (buf_at s i))"
  shows "lookup (upd_buf i f s) c =
    (if c = bn then Some (f (buf_at s i)) else if for_block c (buf_at s i) then None else lookup s c)"
proof -
  let ?t = "upd_buf i f s"
  have l: "i < length (bufs s)" using ok i by (simp add: bufs_ok_def)
  have at: "buf_at ?t j = (if j = i then f (buf_at s i) else buf_at s j)" for j using l by simp
  have holds: "holds ?t j c \<longleftrightarrow> (if j = i then c = bn else holds s j c)" for j c
    using x i by (auto simp: holds_def at for_block_def)
  have uniq: "j = k" if "holds ?t j c" "holds ?t k c" for j k c
    using that miss holds_unique [OF ok, of j c k] by (cases "j = i"; cases "k = i") (simp_all add: holds)
  have look: "lookup ?t c = Some (buf_at ?t j)" if "holds ?t j c" for j c
  proof -
    have "find (\<lambda>k. for_block c (buf_at ?t k)) [0..<NBUF] = Some j"
    proof (rule find_unique)
      show "j \<in> set [0..<NBUF]" and "for_block c (buf_at ?t j)" using that by (simp_all add: holds_def)
    next
      fix k assume "k \<in> set [0..<NBUF]" and "for_block c (buf_at ?t k)"
      then have "holds ?t k c" by (simp only: holds_def atLeastLessThan_iff set_upt)
      then show "k = j" using that by (rule uniq)
    qed
    then show ?thesis by (simp add: lookup_def)
  qed
  show ?thesis
  proof (cases "\<exists>j. holds ?t j c")
    case True
    then obtain j where j: "holds ?t j c" by blast
    show ?thesis
    proof (cases "j = i")
      case True
      then show ?thesis using look [OF j] j holds at by auto
    next
      case False
      then have "holds s j c" using j holds by auto
      moreover then have "\<not> for_block c (buf_at s i)" using False holds_unique [OF ok] i by (auto simp: holds_def)
      ultimately show ?thesis using look [OF j] False at lookup_holds [OF ok] miss by auto
    qed
  next
    case False
    then have "\<not> holds s j c" if "j \<noteq> i" for j using holds [of j c] that by auto
    then have "lookup s c = None" if "\<not> for_block c (buf_at s i)"
      using that unfolding lookup_None by (metis holds_def)
    moreover have "c \<noteq> bn" using False holds [of i c] by auto
    moreover have "lookup ?t c = None" using False by (simp add: lookup_None)
    ultimately show ?thesis by simp
  qed
qed

lemma bufs_ok_recycle:
  assumes ok: "bufs_ok s" and i: "i < NBUF" and miss: "\<And>j. \<not> holds s j bn" and x: "for_block bn (f (buf_at s i))"
    and b: "buf_ok (disk s) (f (buf_at s i))"
  shows "bufs_ok (upd_buf i f s)"
proof -
  have at: "buf_at (upd_buf i f s) j = (if j = i then f (buf_at s i) else buf_at s j)" for j
    using ok i by (simp add: bufs_ok_def)
  have "j = k" if "j < NBUF" "k < NBUF" "for_block c (buf_at (upd_buf i f s) j)" "for_block c (buf_at (upd_buf i f s) k)" for j k c
  proof -
    have "c = bn" if "for_block c (f (buf_at s i))" using that x by (auto simp: for_block_def)
    then show ?thesis using that miss holds_unique [OF ok] unfolding at holds_def by (auto split: if_splits)
  qed
  then show ?thesis using ok b unfolding bufs_ok_def at by auto
qed

lemma unat_plus_1: "unat (r :: u32) < 2 ^ 32 - 1 \<Longrightarrow> unat (r + 1) = Suc (unat r)"
  by (simp add: unat_plus_if')

lemma bread_refines:
  assumes inv: "bio_inv s" and rm: "room NBUF (bio_abs s) bn"
  shows "wp (bread pid ROOTDEV bn) (\<lambda>i t. bio_inv t \<and> holds t i bn \<and> bio_abs t = c_read pid bn (bio_abs s) \<and>
    (\<forall>j c. holds s j c \<longrightarrow> 0 < crefs (bio_abs s) c \<longrightarrow> holds t j c)) s"
proof -
  obtain xs where r: "ring s xs" and ok: "bufs_ok s" using inv by (auto simp: bio_inv_def)
  show ?thesis
  proof (cases "\<exists>i. holds s i bn")
    case True
    then obtain i where h: "holds s i bn" by blast
    let ?f = "\<lambda>b. (refcnt_update (\<lambda>n. n + 1) b)\<lparr>lock := locked_by pid\<rparr>" and ?b = "buf_at s i"
    have l: "lookup s bn = Some ?b" by (rule lookup_holds [OF ok h])
    have free: "slocked (lock ?b) = 0" and n: "unat (refcnt ?b + 1) = Suc (unat (refcnt ?b))"
      using rm l by (auto simp: room_def bio_abs_def unat_plus_1 split: if_splits)
    have i: "i < NBUF" "for_block bn ?b" using h by (auto simp: holds_def)
    have b: "buf_ok (disk s) ?b" "valid ?b" "dev ?b = ROOTDEV"
      using ok inv i by (auto simp: bufs_ok_def bio_inv_def for_block_def)
    have nz: "refcnt ?b + 1 \<noteq> 0" using n by (metis unat_0 nat.distinct(1))
    have "bufs_ok (upd_buf i ?f s)"
      using b nz by (intro bufs_ok_upd [OF ok i(1)]) (auto simp: for_block_def buf_ok_def)
    moreover have "ring (upd_buf i ?f s) xs" by (rule ring_upd [OF r]) auto
    moreover have "\<forall>j<NBUF. dev (buf_at (upd_buf i ?f s) j) = ROOTDEV \<longrightarrow> valid (buf_at (upd_buf i ?f s) j)"
      using inv ok i by (auto simp: bio_inv_def bufs_ok_def)
    moreover have "holds (upd_buf i ?f s) j c = holds s j c" for j c
      by (rule holds_upd [OF ok i(1)]) (simp add: for_block_def)
    moreover have "lookup (upd_buf i ?f s) c = (if c = bn then Some (?f ?b) else lookup s c)" for c
      by (rule lookup_upd [OF ok h]) (simp add: for_block_def)
    then have "bio_abs (upd_buf i ?f s) = c_read pid bn (bio_abs s)"
      using l n by (auto simp: bio_abs_def c_read_def fun_eq_iff split: option.split)
    ultimately show ?thesis
      using h by (auto simp: wp_def bread_hit [OF inv h free] bio_inv_def)
  next
    case False
    then have miss: "\<And>i. \<not> holds s i bn" by blast
    then have "lookup s bn = None" by (simp add: lookup_None)
    then have "card (in_use (bio_abs s)) < NBUF" using rm by (simp add: room_def bio_abs_def)
    then obtain i where i: "i < NBUF" and u: "find_unused (Suc NBUF) s (prev (buf_at s head)) = Some i"
      and z: "refcnt (buf_at s i) = 0" using unused_exists [OF ok r] by blast
    let ?b = "buf_at s i"
    let ?f = "\<lambda>b. b\<lparr>dev := ROOTDEV, blockno := bn, refcnt := 1, lock := locked_by pid, data := disk s bn, valid := True\<rparr>"
    have b: "buf_ok (disk s) ?b" using ok i by (simp add: bufs_ok_def)
    then have free: "slocked (lock ?b) = 0" using z by (auto simp: buf_ok_def)
    have old: "lookup s c = Some ?b" if "for_block c ?b" for c
      using lookup_holds [OF ok] that i by (simp add: holds_def)
    have x: "for_block bn (?f ?b)" by (simp add: for_block_def)
    have "bufs_ok (upd_buf i ?f s)"
      using ok by (intro bufs_ok_recycle [OF ok i miss]) (simp_all add: buf_ok_def bufs_ok_def for_block_def)
    moreover have "ring (upd_buf i ?f s) xs" by (rule ring_upd [OF r]) auto
    moreover have "\<forall>j<NBUF. dev (buf_at (upd_buf i ?f s) j) = ROOTDEV \<longrightarrow> valid (buf_at (upd_buf i ?f s) j)"
      using inv ok i by (auto simp: bio_inv_def bufs_ok_def)
    moreover have "holds (upd_buf i ?f s) i bn" using i ok x by (simp add: holds_def bufs_ok_def)
    moreover have "holds (upd_buf i ?f s) j c" if "holds s j c" "0 < crefs (bio_abs s) c" for j c
    proof -
      have "j \<noteq> i" using that lookup_holds [OF ok that(1)] z by (auto simp: bio_abs_def)
      then show ?thesis using that(1) ok i by (simp add: holds_def bufs_ok_def)
    qed
    moreover have "bio_abs (upd_buf i ?f s) = c_read pid bn (bio_abs s)"
    proof -
      have "lookup (upd_buf i ?f s) c = (if c = bn then Some (?f ?b) else if for_block c ?b then None else lookup s c)" for c
        by (rule lookup_recycle [OF ok i miss]) (rule x)
      moreover have "(if valid ?b then data ?b else disk s c) = disk s c" if "for_block c ?b" for c
        using b z that by (auto simp: buf_ok_def for_block_def)
      ultimately show ?thesis
        using old \<open>lookup s bn = None\<close> z free by (auto simp: bio_abs_def c_read_def fun_eq_iff split: option.split)
    qed
    ultimately show ?thesis
      by (auto simp: wp_def bread_miss [OF r miss u i free] bio_inv_def)
  qed
qed

subsection \<open>The other operations\<close>

text \<open>Any change to one buffer that keeps its block, its validity and its pointers.\<close>

lemma refine_upd:
  assumes inv: "bio_inv s" and h: "holds s i bn"
    and f: "\<And>b. dev (f b) = dev b \<and> blockno (f b) = blockno b \<and> valid (f b) = valid b \<and> nxt (f b) = nxt b \<and> prev (f b) = prev b"
    and ok: "buf_ok (disk s) (f (buf_at s i))"
  shows "bio_inv (upd_buf i f s)" and "holds (upd_buf i f s) = holds s"
    and "bio_abs (upd_buf i f s) = (bio_abs s)\<lparr>
      cview := (cview (bio_abs s))(bn := data (f (buf_at s i))),
      crefs := (crefs (bio_abs s))(bn := unat (refcnt (f (buf_at s i)))),
      cowner := (cowner (bio_abs s))(bn := if slocked (lock (f (buf_at s i))) \<noteq> 0
        then Some (spid (lock (f (buf_at s i)))) else None)\<rparr>"
proof -
  obtain xs where r: "ring s xs" and bo: "bufs_ok s" using inv by (auto simp: bio_inv_def)
  have i: "i < NBUF" "for_block bn (buf_at s i)" using h by (auto simp: holds_def)
  have fb: "for_block x (f b) = for_block x b" for x b using f by (simp add: for_block_def)
  have v: "valid (f (buf_at s i))" using inv i f by (auto simp: bio_inv_def for_block_def)
  have "ring (upd_buf i f s) xs" using f by (intro ring_upd [OF r]) auto
  moreover have "bufs_ok (upd_buf i f s)" by (rule bufs_ok_upd [OF bo i(1)]) (rule fb, rule ok)
  moreover have "i < length (bufs s)" using i(1) ring_facts(3) [OF r] by simp
  then have "\<forall>j<NBUF. dev (buf_at (upd_buf i f s) j) = ROOTDEV \<longrightarrow> valid (buf_at (upd_buf i f s) j)"
    using inv v by (simp add: bio_inv_def)
  ultimately show "bio_inv (upd_buf i f s)" unfolding bio_inv_def by blast
  show "holds (upd_buf i f s) = holds s" by (intro ext holds_upd [OF bo i(1)] fb)
  have l: "lookup (upd_buf i f s) c = (if c = bn then Some (f (buf_at s i)) else lookup s c)" for c
    by (rule lookup_upd [OF bo h]) (rule fb)
  show "bio_abs (upd_buf i f s) = (bio_abs s)\<lparr>
      cview := (cview (bio_abs s))(bn := data (f (buf_at s i))),
      crefs := (crefs (bio_abs s))(bn := unat (refcnt (f (buf_at s i)))),
      cowner := (cowner (bio_abs s))(bn := if slocked (lock (f (buf_at s i))) \<noteq> 0
        then Some (spid (lock (f (buf_at s i)))) else None)\<rparr>"
    using v by (auto simp: bio_abs_def l fun_eq_iff split: option.split)
qed

lemma abs_at:
  assumes inv: "bio_inv s" and h: "holds s i bn"
  shows "cview (bio_abs s) bn = data (buf_at s i)" and "crefs (bio_abs s) bn = unat (refcnt (buf_at s i))"
    and "cowner (bio_abs s) bn = (if slocked (lock (buf_at s i)) \<noteq> 0 then Some (spid (lock (buf_at s i))) else None)"
    and "i < length (bufs s)" and "buf_ok (disk s) (buf_at s i)" and "blockno (buf_at s i) = bn" and "dev (buf_at s i) = ROOTDEV"
    and "cstore (bio_abs s) bn = disk s (blockno (buf_at s i))"
proof -
  have bo: "bufs_ok s" using inv by (simp add: bio_inv_def)
  note l = lookup_holds [OF bo h]
  have "valid (buf_at s i)" using inv h by (auto simp: bio_inv_def holds_def for_block_def)
  with l h bo show "cview (bio_abs s) bn = data (buf_at s i)" "crefs (bio_abs s) bn = unat (refcnt (buf_at s i))"
    "cowner (bio_abs s) bn = (if slocked (lock (buf_at s i)) \<noteq> 0 then Some (spid (lock (buf_at s i))) else None)"
    "i < length (bufs s)" "buf_ok (disk s) (buf_at s i)" "blockno (buf_at s i) = bn" "dev (buf_at s i) = ROOTDEV"
    "cstore (bio_abs s) bn = disk s (blockno (buf_at s i))"
    by (auto simp: bio_abs_def bufs_ok_def holds_def for_block_def)
qed

lemma holder:
  assumes "bio_inv s" and "holds s i bn" and "cowner (bio_abs s) bn = Some pid"
  shows "buf_lock i (holdingsleep pid) s = Ok True s" and "refcnt (buf_at s i) \<noteq> 0"
    and "slocked (lock (buf_at s i)) \<noteq> 0"
  using abs_at [OF assms(1,2)] assms(3) by (auto simp: buf_lock_holding buf_ok_def split: if_splits)

lemma bwrite_refines:
  assumes inv: "bio_inv s" and h: "holds s i bn" and o: "cowner (bio_abs s) bn = Some pid"
  shows "wp (bwrite pid i) (\<lambda>_ t. bio_inv t \<and> holds t = holds s \<and> bio_abs t = c_write bn (bio_abs s)) s"
proof -
  note a = abs_at [OF inv h] and ho = holder [OF inv h o]
  let ?t = "s\<lparr>disk := (disk s)(bn := data (buf_at s i)), written := written s @ [(bn, data (buf_at s i))]\<rparr>"
  have l: "lookup ?t = lookup s" "holds ?t = holds s" by (auto simp: lookup_def holds_def fun_eq_iff)
  obtain xs where r: "ring s xs" and bo: "bufs_ok s" using inv by (auto simp: bio_inv_def)
  have "ring ?t xs" using r by (simp add: ring_def nx_def [abs_def] pv_def [abs_def])
  moreover have "buf_ok (disk ?t) (buf_at ?t j)" if "j < NBUF" for j
  proof (cases "j = i")
    case True
    then show ?thesis using a ho by (auto simp: buf_ok_def)
  next
    case False
    then have "blockno (buf_at s j) \<noteq> bn" if "dev (buf_at s j) = ROOTDEV"
      using that \<open>j < NBUF\<close> h holds_unique [OF bo, of j bn i] by (auto simp: holds_def for_block_def)
    then show ?thesis using bo that by (auto simp: bufs_ok_def buf_ok_def)
  qed
  then have "bufs_ok ?t" using bo a by (auto simp: bufs_ok_def buf_ok_def)
  ultimately have it: "bio_inv ?t" using inv by (auto simp: bio_inv_def)
  have v: "valid (buf_at s i)" using inv h by (auto simp: bio_inv_def holds_def for_block_def)
  have dv: "valid b" if "lookup s c = Some b" for c b
    using that inv lookup_Some [OF bo] by (auto simp: bio_inv_def holds_def for_block_def)
  have "(case lookup s c of None \<Rightarrow> disk ?t c | Some b \<Rightarrow> if valid b then data b else disk ?t c) =
      (case lookup s c of None \<Rightarrow> disk s c | Some b \<Rightarrow> if valid b then data b else disk s c)" for c
    using dv lookup_holds [OF bo h] by (auto split: option.splits)
  then have "bio_abs ?t = c_write bn (bio_abs s)"
    using a(1) by (simp add: bio_abs_def c_write_def l(1))
  with it l(2) show ?thesis
    using ho a(6) by (simp add: wp_def bwrite_def run_simps virtio_disk_rw_def)
qed

lemma bset_refines:
  assumes inv: "bio_inv s" and h: "holds s i bn" and o: "cowner (bio_abs s) bn = Some pid" and d: "length d = BSIZE"
  shows "wp (bset i d) (\<lambda>_ t. bio_inv t \<and> holds t = holds s \<and> bio_abs t = c_put bn d (bio_abs s)) s"
proof -
  note a = abs_at [OF inv h] and ho = holder [OF inv h o]
  have "buf_ok (disk s) (data_update (\<lambda>_. d) (buf_at s i))" using a(5) ho(2) d by (simp add: buf_ok_def)
  note u = refine_upd [OF inv h, where f = "data_update (\<lambda>_. d)", OF _ this]
  show ?thesis using u a by (simp add: wp_def bset_def run_simps c_put_def fun_upd_idem)
qed

lemma bpin_refines:
  assumes inv: "bio_inv s" and h: "holds s i bn" and n: "0 < crefs (bio_abs s) bn" "crefs (bio_abs s) bn < 2 ^ 32 - 1"
  shows "wp (bpin i) (\<lambda>_ t. bio_inv t \<and> holds t = holds s \<and> bio_abs t = c_pin bn (bio_abs s)) s"
proof -
  note a = abs_at [OF inv h]
  have r: "unat (refcnt (buf_at s i) + 1) = Suc (crefs (bio_abs s) bn)" using n(2) a(2) by (simp add: unat_plus_1)
  then have nz: "refcnt (buf_at s i) + 1 \<noteq> 0" by (metis unat_0 nat.distinct(1))
  then have "buf_ok (disk s) (refcnt_update (\<lambda>n. n + 1) (buf_at s i))" using a(5,7) by (simp add: buf_ok_def)
  note u = refine_upd [OF inv h, where f = "refcnt_update (\<lambda>n. n + 1)", OF _ this]
  show ?thesis using u a r by (simp add: wp_def bpin_def run_simps c_pin_def fun_upd_idem)
qed

lemma unat_minus_one: "(r :: u32) \<noteq> 0 \<Longrightarrow> unat (r - 1) = unat r - 1"
  by (simp add: unat_sub_if' Suc_leI unat_gt_0)

lemma bunpin_refines:
  assumes inv: "bio_inv s" and h: "holds s i bn" and n: "1 < crefs (bio_abs s) bn"
  shows "wp (bunpin i) (\<lambda>_ t. bio_inv t \<and> holds t = holds s \<and> bio_abs t = c_unpin bn (bio_abs s)) s"
proof -
  note a = abs_at [OF inv h]
  have "refcnt (buf_at s i) \<noteq> 0" using n a(2) by auto
  then have r: "unat (refcnt (buf_at s i) - 1) = crefs (bio_abs s) bn - 1" using a(2) by (simp add: unat_minus_one)
  then have "refcnt (buf_at s i) - 1 \<noteq> 0" using n by auto
  then have "buf_ok (disk s) (refcnt_update (\<lambda>n. n - 1) (buf_at s i))" using a(5,7) by (simp add: buf_ok_def)
  note u = refine_upd [OF inv h, where f = "refcnt_update (\<lambda>n. n - 1)", OF _ this]
  show ?thesis using u a r by (simp add: wp_def bunpin_def run_simps c_unpin_def fun_upd_idem)
qed

subsection \<open>Releasing\<close>

text \<open>The pointer updates of \<^verbatim>\<open>brelse\<close>: the buffer moves to the front of the ring.\<close>

definition relink :: "nat \<Rightarrow> bio \<Rightarrow> bio" where
  "relink b s =
    (let s1 = upd_buf (nx s b) (prev_update (\<lambda>_. pv s b)) s;
         s2 = upd_buf (pv s1 b) (nxt_update (\<lambda>_. nx s1 b)) s1;
         s3 = upd_buf b (nxt_update (\<lambda>_. nx s2 head)) s2;
         s4 = upd_buf b (prev_update (\<lambda>_. head)) s3;
         s5 = upd_buf (nx s4 head) (prev_update (\<lambda>_. b)) s4
     in upd_buf head (nxt_update (\<lambda>_. b)) s5)"

text \<open>Buffers up to their pointers.\<close>

definition core :: "buf \<Rightarrow> buf" where
  "core b = b\<lparr>prev := 0, nxt := 0\<rparr>"

definition same_cores :: "bio \<Rightarrow> bio \<Rightarrow> bool" where
  "same_cores s t \<longleftrightarrow> length (bufs t) = length (bufs s) \<and> (\<forall>i. core (buf_at t i) = core (buf_at s i)) \<and>
     disk t = disk s \<and> written t = written s"

lemma same_cores_refl: "same_cores s s"
  by (simp add: same_cores_def)

lemma same_cores_upd:
  assumes "same_cores s t" and "\<And>x. core (f x) = core x"
  shows "same_cores s (upd_buf i f t)"
proof (cases "i < length (bufs t)")
  case True
  then show ?thesis using assms by (simp add: same_cores_def)
next
  case False
  then show ?thesis using assms(1) by (simp add: upd_buf_def list_update_beyond not_less)
qed

lemma core_fields:
  assumes "core b = core c"
  shows "valid b = valid c" "dev b = dev c" "blockno b = blockno c" "lock b = lock c" "refcnt b = refcnt c" "data b = data c"
  using assms by (cases b; cases c; simp add: core_def)+

lemma same_cores_abs:
  assumes "same_cores s t"
  shows "bufs_ok t = bufs_ok s" and "holds t = holds s" and "bufs_ok s \<Longrightarrow> bio_abs t = bio_abs s"
    and "valid (buf_at t i) = valid (buf_at s i)" and "dev (buf_at t i) = dev (buf_at s i)"
proof -
  have c: "core (buf_at t i) = core (buf_at s i)" for i using assms by (simp add: same_cores_def)
  note f = core_fields [OF c]
  show v: "valid (buf_at t i) = valid (buf_at s i)" "dev (buf_at t i) = dev (buf_at s i)" by (rule f)+
  have fb: "for_block x (buf_at t i) = for_block x (buf_at s i)" for x i by (simp add: for_block_def f)
  have d: "disk t = disk s" "written t = written s" "length (bufs t) = length (bufs s)"
    using assms by (simp_all add: same_cores_def)
  have bo: "buf_ok (disk s) (buf_at t i) = buf_ok (disk s) (buf_at s i)" for i by (simp add: buf_ok_def f)
  show "bufs_ok t = bufs_ok s" unfolding bufs_ok_def d fb bo ..
  show "holds t = holds s" by (simp add: holds_def fun_eq_iff fb)
  show "bio_abs t = bio_abs s"
  proof -
    have "find (\<lambda>i. for_block bn (buf_at t i)) [0..<NBUF] = find (\<lambda>i. for_block bn (buf_at s i)) [0..<NBUF]" for bn
      by (simp only: fb)
    then show ?thesis
      by (simp add: bio_abs_def lookup_def d option.case_eq_if fun_eq_iff f option.map_sel)
  qed
qed

lemma relink_cores: "same_cores s (relink b s)"
proof -
  have p: "core (prev_update (\<lambda>_. k) x) = core x" and n: "core (nxt_update (\<lambda>_. k) x) = core x" for k x
    by (cases x; simp add: core_def)+
  show ?thesis unfolding relink_def Let_def
    by (intro same_cores_upd same_cores_refl p n)
qed

lemma nx_upd: "i < length (bufs s) \<Longrightarrow> nx (upd_buf i (nxt_update (\<lambda>_. v)) s) = (nx s)(i := v)"
  by (auto simp: nx_def fun_eq_iff)

lemma pv_upd: "i < length (bufs s) \<Longrightarrow> pv (upd_buf i (prev_update (\<lambda>_. v)) s) = (pv s)(i := v)"
  by (auto simp: pv_def fun_eq_iff)

lemma upd_buf_beyond: "\<not> i < length (bufs s) \<Longrightarrow> upd_buf i f s = s"
  by (simp add: upd_buf_def list_update_beyond)

lemma nx_upd_prev: "nx (upd_buf i (prev_update (\<lambda>_. v)) s) = nx s"
  by (cases "i < length (bufs s)") (auto simp: nx_def fun_eq_iff upd_buf_beyond)

lemma pv_upd_nxt: "pv (upd_buf i (nxt_update (\<lambda>_. v)) s) = pv s"
  by (cases "i < length (bufs s)") (auto simp: pv_def fun_eq_iff upd_buf_beyond)

lemma relink_ring:
  assumes r: "ring s xs" and b: "b < NBUF"
  shows "ring (relink b s) (b # remove1 b xs)"
proof -
  note rf = ring_facts [OF r]
  have x: "set xs = {..<NBUF}" "distinct xs" "dlink (nx s) (pv s) head xs head" using r by (auto simp: ring_def)
  have "b \<in> set xs" using b x(1) by simp
  then obtain ys zs where xs: "xs = ys @ b # zs" by (meson split_list)
  have rm: "remove1 b xs = ys @ zs" using xs x(2) by (simp add: remove1_append)
  have d1: "distinct (head # ys @ b # zs)" "distinct (ys @ b # zs @ [head])" using x(2) rf(2) unfolding xs by auto
  have l: "dlink (nx s) (pv s) head ys b" "dlink (nx s) (pv s) b zs head" using x(3) unfolding xs by (simp_all add: dlink_append)
  let ?p = "pv s b" and ?n = "nx s b"
  let ?nx2 = "(nx s)(?p := ?n)" and ?pv1 = "(pv s)(?n := ?p)"
  have rem: "dlink ?nx2 ?pv1 head (ys @ zs) head" using dlink_remove [OF x(3) [unfolded xs] d1] .
  have pn: "?p = last (head # ys)" "?n = hd (zs @ [head])" using dlink_last [OF l(1)] dlink_first [OF l(2)] by auto
  have "last (head # ys) \<in> set (head # ys)" by (rule last_in_set) simp
  then have in_p: "?p \<in> set (head # ys)" using pn(1) by simp
  have "hd (zs @ [head]) \<in> set (zs @ [head])" by (rule hd_in_set) simp
  then have in_n: "?n \<in> set (zs @ [head])" using pn(2) by simp
  have all: "set (head # ys @ b # zs) = {..NBUF}" using x(1) unfolding xs by (auto simp: lessThan_Suc_atMost [symmetric] lessThan_Suc)
  have lt: "?p < length (bufs s)" "?n < length (bufs s)" "b < length (bufs s)" "head < length (bufs s)"
    using in_p in_n all rf(3) b by (auto simp: less_Suc_eq_le)
  have ne: "?n \<noteq> b" "?p \<noteq> b" "b \<noteq> head" using in_p in_n d1 b by auto
  have h2: "?nx2 head = hd ((ys @ zs) @ [head])" using dlink_first [OF rem] by simp
  have "hd ((ys @ zs) @ [head]) \<in> set ((ys @ zs) @ [head])" by (rule hd_in_set) simp
  then have lt2: "?nx2 head < length (bufs s)" using h2 all rf(3) by (auto simp: less_Suc_eq_le)
  have links: "nx (relink b s) = ?nx2(b := ?nx2 head, head := b)" "pv (relink b s) = ?pv1(b := head, ?nx2 head := b)"
    using lt lt2 ne by (simp_all add: relink_def Let_def nx_upd pv_upd nx_upd_prev pv_upd_nxt del: upd_buf_twice)
  have "dlink (?nx2(b := ?nx2 head, head := b)) (?pv1(b := head, ?nx2 head := b)) head (b # ys @ zs) head"
    using d1 ne by (intro dlink_push [OF rem]) auto
  then have "dlink (nx (relink b s)) (pv (relink b s)) head (b # remove1 b xs) head" by (simp only: links rm)
  moreover have "length (bufs (relink b s)) = Suc NBUF" using relink_cores [of s b] rf(3) by (simp add: same_cores_def)
  ultimately show ?thesis using x d1 by (auto simp: ring_def rm xs)
qed

lemma brelse_run:
  assumes "buf_lock b (holdingsleep pid) s = Ok True s" and "b < length (bufs s)"
  shows "brelse pid b s =
    (let t = upd_buf b (\<lambda>x. refcnt_update (\<lambda>n. n - 1) (x\<lparr>lock := unlocked\<rparr>)) s
     in Ok () (if refcnt (buf_at s b) - 1 = 0 then relink b t else t))"
  using assms by (simp add: brelse_def run_simps buf_lock_run sleeplock_runs relink_def nx_def pv_def Let_def)

lemma brelse_refines:
  assumes inv: "bio_inv s" and h: "holds s i bn" and o: "cowner (bio_abs s) bn = Some pid"
    and clean: "crefs (bio_abs s) bn = 1 \<Longrightarrow> cview (bio_abs s) bn = cstore (bio_abs s) bn"
  shows "wp (brelse pid i) (\<lambda>_ t. bio_inv t \<and> holds t = holds s \<and> bio_abs t = c_relse bn (bio_abs s)) s"
proof -
  note a = abs_at [OF inv h] and ho = holder [OF inv h o]
  let ?f = "\<lambda>x. refcnt_update (\<lambda>n. n - 1) (x\<lparr>lock := unlocked\<rparr>)"
  let ?t = "upd_buf i ?f s"
  have n: "unat (refcnt (buf_at s i) - 1) = crefs (bio_abs s) bn - 1" using ho(2) a(2) by (simp add: unat_minus_one)
  have "data (buf_at s i) = disk s (blockno (buf_at s i))" if "refcnt (buf_at s i) - 1 = 0"
  proof -
    have "refcnt (buf_at s i) = 1" using that by simp
    then show ?thesis using clean a by simp
  qed
  then have "buf_ok (disk s) (?f (buf_at s i))" using a(5,7) by (simp add: buf_ok_def)
  note u = refine_upd [OF inv h, where f = ?f, OF _ this]
  have t: "bio_inv ?t" "holds ?t = holds s" "bio_abs ?t = c_relse bn (bio_abs s)"
    using u a(1) n by (simp_all add: c_relse_def fun_upd_idem)
  have i: "i < NBUF" using h by (simp add: holds_def)
  have r: "bio_inv (relink i ?t) \<and> holds (relink i ?t) = holds s \<and> bio_abs (relink i ?t) = c_relse bn (bio_abs s)"
  proof -
    obtain xs where x: "ring ?t xs" and bo: "bufs_ok ?t" using t(1) by (auto simp: bio_inv_def)
    note sc = same_cores_abs [OF relink_cores [of ?t i]]
    have "ring (relink i ?t) (i # remove1 i xs)" by (rule relink_ring [OF x i])
    then have "bio_inv (relink i ?t)" using t(1) sc(1,4,5) unfolding bio_inv_def by auto
    then show ?thesis using t sc bo by simp
  qed
  show ?thesis
    using t r by (simp add: wp_def brelse_run [OF ho(1) a(4)] Let_def)
qed

text \<open>The code keeps the contract.\<close>

interpretation bc: block_cache bio_inv bio_abs holds NBUF "\<lambda>pid. bread pid ROOTDEV" bdata bset bwrite brelse bpin bunpin
proof unfold_locales
  fix s :: bio and i bn pid
  assume inv: "bio_inv s" and h: "holds s i bn" and "cowner (bio_abs s) bn = Some pid"
  then show "bdata i s = Ok (cview (bio_abs s) bn) s" using abs_at [OF inv h] by (simp add: bdata_def run_simps)
next
  fix s :: bio and bn
  assume inv: "bio_inv s"
  then have ok: "bufs_ok s" by (simp add: bio_inv_def)
  show "length (cview (bio_abs s) bn) = BSIZE"
  proof (cases "\<exists>i. holds s i bn")
    case True
    then obtain i where h: "holds s i bn" by blast
    then show ?thesis using abs_at [OF inv h] by (simp add: buf_ok_def)
  next
    case False
    then have "lookup s bn = None" by (simp add: lookup_None)
    then show ?thesis using ok by (simp add: bio_abs_def bufs_ok_def)
  qed
  assume ow: "cowner (bio_abs s) bn \<noteq> None"
  have "\<exists>i. holds s i bn"
  proof (rule ccontr)
    assume "\<not> (\<exists>i. holds s i bn)"
    then have "lookup s bn = None" by (simp add: lookup_None)
    then show False using ow by (simp add: bio_abs_def)
  qed
  then obtain i where h: "holds s i bn" by blast
  then show "0 < crefs (bio_abs s) bn" using abs_at [OF inv h] ow by (auto simp: buf_ok_def unat_gt_0 split: if_splits)
qed (rule bread_refines bset_refines bwrite_refines brelse_refines bpin_refines bunpin_refines; assumption)+

subsection \<open>Initialisation\<close>

text \<open>A buffer as the zeroed memory of the kernel image has it, up to its pointers.\<close>

definition zero_buf :: "buf \<Rightarrow> bool" where
  "zero_buf b \<longleftrightarrow> \<not> valid b \<and> dev b = 0 \<and> blockno b = 0 \<and> lock b = unlocked \<and> refcnt b = 0 \<and> length (data b) = BSIZE"

definition zeroed :: "bio \<Rightarrow> bool" where
  "zeroed s \<longleftrightarrow> length (bufs s) = Suc NBUF \<and> (\<forall>i\<le>NBUF. zero_buf (buf_at s i)) \<and> (\<forall>b. length (disk s b) = BSIZE)"

lemma zeroed_upd:
  assumes "zeroed s" and "\<And>b. core (f b) = core b"
  shows "zeroed (upd_buf i f s)"
proof -
  have sc: "same_cores s (upd_buf i f s)" by (rule same_cores_upd [OF same_cores_refl assms(2)])
  then have c: "core (buf_at (upd_buf i f s) j) = core (buf_at s j)" for j by (simp add: same_cores_def)
  have "zero_buf (buf_at (upd_buf i f s) j) = zero_buf (buf_at s j)" for j
    unfolding zero_buf_def core_fields [OF c] ..
  then show ?thesis using assms(1) by (simp add: zeroed_def)
qed

lemma zeroed_inv:
  assumes z: "zeroed s" and r: "ring s xs"
  shows "bio_inv s" and "bio_abs s = \<lparr>cview = disk s, cstore = disk s, crefs = \<lambda>_. 0, cowner = \<lambda>_. None, ctrace = written s\<rparr>"
proof -
  have zb: "zero_buf (buf_at s i)" if "i < NBUF" for i using z that by (simp add: zeroed_def)
  then have nf: "\<not> for_block c (buf_at s i)" if "i < NBUF" for c i
    using that by (simp add: zero_buf_def for_block_def ROOTDEV_def)
  then have "bufs_ok s" using z zb by (auto simp: bufs_ok_def zeroed_def buf_ok_def zero_buf_def)
  then show "bio_inv s" using r nf zb by (auto simp: bio_inv_def zero_buf_def ROOTDEV_def)
  have "lookup s c = None" for c using nf by (simp add: lookup_None holds_def)
  then show "bio_abs s = \<lparr>cview = disk s, cstore = disk s, crefs = \<lambda>_. 0, cowner = \<lambda>_. None, ctrace = written s\<rparr>"
    by (simp add: bio_abs_def)
qed

lemma core_prev [simp]: "core (prev_update f x) = core x" and core_nxt [simp]: "core (nxt_update f x) = core x"
  by (cases x; simp add: core_def)+

lemma binit_round:
  assumes z: "zeroed s" and d: "dlink (nx s) (pv s) head xs head" and xs: "set xs \<subseteq> {..<k}" "distinct xs" and k: "k < NBUF"
  shows "wp (bnd (gets (\<lambda>s. nxt (buf_at s head))) (\<lambda>h.
        andthen (modify (upd_buf k (nxt_update (\<lambda>_. h))))
        (andthen (modify (upd_buf k (prev_update (\<lambda>_. head))))
        (andthen (buf_lock k initsleeplock)
        (andthen (modify (upd_buf h (prev_update (\<lambda>_. k))))
        (modify (upd_buf head (nxt_update (\<lambda>_. k)))))))))
    (\<lambda>_ t. zeroed t \<and> dlink (nx t) (pv t) head (k # xs) head \<and> disk t = disk s \<and> written t = written s) s"
proof -
  let ?h = "nx s head"
  let ?s1 = "upd_buf k (nxt_update (\<lambda>_. ?h)) s"
  let ?s2 = "upd_buf k (prev_update (\<lambda>_. head)) ?s1"
  let ?s3 = "upd_buf ?h (prev_update (\<lambda>_. k)) ?s2"
  let ?t = "upd_buf head (nxt_update (\<lambda>_. k)) ?s3"
  have len: "length (bufs s) = Suc NBUF" using z by (simp add: zeroed_def)
  have z2: "zeroed ?s2" by (intro zeroed_upd z) simp_all
  have "upd_buf k (lock_update (\<lambda>_. unlocked)) ?s2 = ?s2"
  proof -
    have "zero_buf (buf_at ?s2 k)" using z2 k unfolding zeroed_def by (meson less_imp_le)
    then have "lock (buf_at ?s2 k) = unlocked" unfolding zero_buf_def by blast
    then have "lock_update (\<lambda>_. unlocked) (buf_at ?s2 k) = buf_at ?s2 k" by (cases "buf_at ?s2 k") simp
    then show ?thesis unfolding upd_buf_def [of k "lock_update (\<lambda>_. unlocked)"] by (simp del: upd_buf_twice)
  qed
  then have run: "buf_lock k initsleeplock ?s2 = Ok () ?s2" by (simp add: buf_lock_run sleeplock_runs del: upd_buf_twice)
  have hx: "?h = hd (xs @ [head])" using dlink_first [OF d] by simp
  have "hd (xs @ [head]) \<in> set (xs @ [head])" by (rule hd_in_set) simp
  then have h: "?h \<le> NBUF" "?h \<noteq> k" using hx xs(1) k by auto
  have "nx ?t = (nx s)(k := ?h, head := k)" "pv ?t = (pv s)(k := head, ?h := k)"
    using len h k by (simp_all add: nx_upd pv_upd nx_upd_prev pv_upd_nxt del: upd_buf_twice)
  moreover have "dlink ((nx s)(k := ?h, head := k)) ((pv s)(k := head, ?h := k)) head (k # xs) head"
    using xs k by (intro dlink_push [OF d]) auto
  moreover have "zeroed ?t" by (intro zeroed_upd z2) simp_all
  ultimately show ?thesis
    using run by (simp add: wp_def run_simps nx_def [symmetric] del: upd_buf_twice)
qed

lemma binit_spec:
  assumes "zeroed s"
  shows "wp binit (\<lambda>_ t. bio_inv t \<and>
    bio_abs t = \<lparr>cview = disk s, cstore = disk s, crefs = \<lambda>_. 0, cowner = \<lambda>_. None, ctrace = written s\<rparr>) s"
proof -
  let ?I = "\<lambda>k t. zeroed t \<and> dlink (nx t) (pv t) head (rev [0..<k]) head \<and> disk t = disk s \<and> written t = written s"
  let ?s1 = "upd_buf head (nxt_update (\<lambda>_. head)) (upd_buf head (prev_update (\<lambda>_. head)) s)"
  have "zeroed ?s1" by (intro zeroed_upd assms) simp_all
  moreover have "head < length (bufs s)" using assms by (simp add: zeroed_def)
  ultimately have i0: "?I 0 ?s1" by (simp add: nx_upd pv_upd nx_upd_prev pv_upd_nxt del: upd_buf_twice)
  have "wp (for_each [0..<NBUF] (\<lambda>b. bnd (gets (\<lambda>s. nxt (buf_at s head))) (\<lambda>h.
        andthen (modify (upd_buf b (nxt_update (\<lambda>_. h))))
        (andthen (modify (upd_buf b (prev_update (\<lambda>_. head))))
        (andthen (buf_lock b initsleeplock)
        (andthen (modify (upd_buf h (prev_update (\<lambda>_. b))))
        (modify (upd_buf head (nxt_update (\<lambda>_. b))))))))))
    (\<lambda>_ t. bio_inv t \<and> bio_abs t = \<lparr>cview = disk s, cstore = disk s, crefs = \<lambda>_. 0, cowner = \<lambda>_. None, ctrace = written s\<rparr>) ?s1"
  proof (rule wp_for_each [where I = ?I, OF i0])
    fix k t assume k: "k < length [0..<NBUF]" and t: "?I k t"
    have "wp (bnd (gets (\<lambda>s. nxt (buf_at s head))) (\<lambda>h.
        andthen (modify (upd_buf k (nxt_update (\<lambda>_. h))))
        (andthen (modify (upd_buf k (prev_update (\<lambda>_. head))))
        (andthen (buf_lock k initsleeplock)
        (andthen (modify (upd_buf h (prev_update (\<lambda>_. k))))
        (modify (upd_buf head (nxt_update (\<lambda>_. k)))))))))
      (\<lambda>_ u. zeroed u \<and> dlink (nx u) (pv u) head (k # rev [0..<k]) head \<and> disk u = disk t \<and> written u = written t) t"
      using t k by (intro binit_round) auto
    then show "wp (bnd (gets (\<lambda>s. nxt (buf_at s head))) (\<lambda>h.
        andthen (modify (upd_buf ([0..<NBUF] ! k) (nxt_update (\<lambda>_. h))))
        (andthen (modify (upd_buf ([0..<NBUF] ! k) (prev_update (\<lambda>_. head))))
        (andthen (buf_lock ([0..<NBUF] ! k) initsleeplock)
        (andthen (modify (upd_buf h (prev_update (\<lambda>_. [0..<NBUF] ! k))))
        (modify (upd_buf head (nxt_update (\<lambda>_. [0..<NBUF] ! k)))))))))
      (\<lambda>_. ?I (Suc k)) t"
      using t k by simp
  next
    fix t assume t: "?I (length [0..<NBUF]) t"
    then have "ring t (rev [0..<NBUF])" by (auto simp: ring_def zeroed_def)
    then show "bio_inv t \<and> bio_abs t = \<lparr>cview = disk s, cstore = disk s, crefs = \<lambda>_. 0, cowner = \<lambda>_. None, ctrace = written s\<rparr>"
      using t zeroed_inv [of t] by simp
  qed
  then show ?thesis by (simp add: binit_def wp_andthen wp_modify del: upd_buf_twice)
qed

text \<open>
  \<^verbatim>\<open>binit()\<close>, run on zeroed memory, builds a well-formed cache that agrees with the disk on every
  block, with no buffer in use and none locked.
\<close>

theorem binit_ok:
  assumes "zeroed s"
  shows "wp binit (\<lambda>_ t. bio_inv t \<and>
    bio_abs t = \<lparr>cview = disk s, cstore = disk s, crefs = \<lambda>_. 0, cowner = \<lambda>_. None, ctrace = written s\<rparr>) s"
  by (rule binit_spec [OF assms])

definition boot_bio :: bio where
  "boot_bio = \<lparr>bufs = replicate 31 \<lparr>valid = False, dev = 0, blockno = 0, lock = unlocked, refcnt = 0, prev = 0, nxt = 0,
     data = replicate 1024 0\<rparr>, disk = \<lambda>_. replicate 1024 0, written = []\<rparr>"

lemma boot_bio_zeroed: "zeroed boot_bio"
  by (simp add: zeroed_def zero_buf_def boot_bio_def const_defs)

theorem binit_ok_witness:
  "wp binit (\<lambda>_ t. bio_inv t \<and>
    bio_abs t = \<lparr>cview = disk boot_bio, cstore = disk boot_bio, crefs = \<lambda>_. 0, cowner = \<lambda>_. None,
      ctrace = written boot_bio\<rparr>) boot_bio"
  by (rule binit_ok [OF boot_bio_zeroed])

text \<open>
  C4: when the block is not locked and a buffer can be had, \<^verbatim>\<open>bread\<close> returns a buffer that holds the block's
  current contents, modified or not, locked by the caller; no other block's contents, reference
  count or lock changes, whether or not a buffer had to be recycled.
\<close>

theorem bread_current:
  assumes "bio_inv s" and "room NBUF (bio_abs s) bn"
  shows "wp (bread pid ROOTDEV bn) (\<lambda>i t. bio_inv t \<and> blockno (buf_at t i) = bn \<and>
    data (buf_at t i) = cview (bio_abs s) bn \<and> lock (buf_at t i) = locked_by pid \<and>
    bio_abs t = c_read pid bn (bio_abs s)) s"
proof -
  have lk: "lock (buf_at t i) = locked_by pid" if "bread pid ROOTDEV bn s = Ok i t" for i t
  proof -
    obtain xs where r: "ring s xs" and ok: "bufs_ok s" using assms(1) by (auto simp: bio_inv_def)
    show ?thesis
    proof (cases "\<exists>i. holds s i bn")
      case True
      then obtain j where h: "holds s j bn" by blast
      have "slocked (lock (buf_at s j)) = 0" "j < length (bufs s)"
        using assms(2) abs_at [OF assms(1) h] by (auto simp: room_def split: if_splits)
      then show ?thesis using that bread_hit [OF assms(1) h] by auto
    next
      case False
      then have miss: "\<And>i. \<not> holds s i bn" by blast
      then have "lookup s bn = None" by (simp add: lookup_None)
      then have "card (in_use (bio_abs s)) < NBUF" using assms(2) by (simp add: room_def bio_abs_def)
      then obtain j where j: "j < NBUF" and u: "find_unused (Suc NBUF) s (prev (buf_at s head)) = Some j"
        and z: "refcnt (buf_at s j) = 0" using unused_exists [OF ok r] by blast
      then have "slocked (lock (buf_at s j)) = 0" using ok by (auto simp: bufs_ok_def buf_ok_def)
      then show ?thesis using that bread_miss [OF r miss u j] j ring_facts(3) [OF r] by auto
    qed
  qed
  from bread_refines [OF assms, of pid] obtain i t where t: "bread pid ROOTDEV bn s = Ok i t"
    "bio_inv t" "holds t i bn" "bio_abs t = c_read pid bn (bio_abs s)" by (auto elim: wpE)
  then show ?thesis
    using abs_at [OF t(2,3)] lk [OF t(1)] by (auto simp: wp_def c_read_def)
qed

theorem bread_current_witness:
  "\<exists>s. wp (bread 4 ROOTDEV 100) (\<lambda>i t. bio_inv t \<and> blockno (buf_at t i) = 100 \<and>
    data (buf_at t i) = cview (bio_abs s) 100 \<and> lock (buf_at t i) = locked_by 4 \<and>
    bio_abs t = c_read 4 100 (bio_abs s)) s"
proof -
  obtain s where s: "bio_inv s" "bio_abs s = \<lparr>cview = disk boot_bio, cstore = disk boot_bio, crefs = \<lambda>_. 0,
      cowner = \<lambda>_. None, ctrace = written boot_bio\<rparr>"
    using binit_spec [OF boot_bio_zeroed] by (auto elim: wpE)
  have "room NBUF (bio_abs s) 100" by (simp add: s(2) room_def in_use_def const_defs)
  from bread_current [OF s(1) this, of 4] show ?thesis by blast
qed

end
