(* ===== verification/Log.thy ===== *)
theory Log
  imports Bufring
begin

text \<open>
  \<^verbatim>\<open>kernel/log.c\<close>, the write-ahead log. The state is \<^verbatim>\<open>struct log\<close> together with the buffer cache below it;
  functions run with the process id that the buffer locks record. An on-disk header block holds the
  number of logged blocks, a signed 32-bit integer, and their numbers.
\<close>

subsection \<open>Data\<close>

definition MAXOPBLOCKS :: int where [const_defs]: "MAXOPBLOCKS = 10"
definition LOGSIZE :: nat where [const_defs]: "LOGSIZE = 30"

record superblock =
  sb_magic :: u32
  sb_size :: u32
  sb_nblocks :: u32
  sb_ninodes :: u32
  sb_nlog :: u32
  sb_logstart :: u32
  sb_inodestart :: u32
  sb_bmapstart :: u32

record log =
  lbio :: bio
  lstart :: u32
  lsize :: int
  outstanding :: int
  committing :: bool
  ldev :: u32
  lhn :: int
  lhblock :: "u32 list"

abbreviation in_bio :: "(bio, 'a) prog \<Rightarrow> (log, 'a) prog" where
  "in_bio \<equiv> zoom lbio lbio_update"

text \<open>The fields of \<^verbatim>\<open>struct logheader\<close> inside a block.\<close>

definition hdr_n :: "block \<Rightarrow> int" where
  "hdr_n d = sint (get32 d 0)"

definition hdr_block :: "block \<Rightarrow> nat \<Rightarrow> u32" where
  "hdr_block d i = get32 d (4 + 4 * i)"

definition put_hdr :: "int \<Rightarrow> u32 list \<Rightarrow> block \<Rightarrow> block" where
  "put_hdr n bs d = fold (\<lambda>i d. put32 d (4 + 4 * i) (bs ! i)) [0..<nat n] (put32 d 0 (word_of_int n))"

subsection \<open>Copying between log and home blocks\<close>

definition install_block :: "int \<Rightarrow> u32 \<Rightarrow> bool \<Rightarrow> u32 \<Rightarrow> u32 \<Rightarrow> (bio, unit) prog" where
  "install_block pid d recovering logb homeb =
     bnd (bread pid d logb) (\<lambda>lbuf.
     bnd (bread pid d homeb) (\<lambda>dbuf.
     bnd (bdata lbuf) (\<lambda>x.
     andthen (bset dbuf x)
     (andthen (bwrite pid dbuf)
     (andthen (if \<not> recovering then bunpin dbuf else ret ())
     (andthen (brelse pid lbuf)
     (brelse pid dbuf)))))))"

definition install_trans :: "int \<Rightarrow> bool \<Rightarrow> (log, unit) prog" where
  "install_trans pid recovering =
     bnd (gets id) (\<lambda>l.
     andthen (guard (nat (lhn l) \<le> LOGSIZE) (Fault ''install_trans: lh.block''))
     (in_bio (for_each [0..<nat (lhn l)] (\<lambda>tail.
        install_block pid (ldev l) recovering (lstart l + of_nat tail + 1) (lhblock l ! tail)))))"

definition log_block :: "int \<Rightarrow> u32 \<Rightarrow> u32 \<Rightarrow> u32 \<Rightarrow> (bio, unit) prog" where
  "log_block pid d logb homeb =
     bnd (bread pid d logb) (\<lambda>to.
     bnd (bread pid d homeb) (\<lambda>from.
     bnd (bdata from) (\<lambda>x.
     andthen (bset to x)
     (andthen (bwrite pid to)
     (andthen (brelse pid from)
     (brelse pid to))))))"

definition write_log :: "int \<Rightarrow> (log, unit) prog" where
  "write_log pid =
     bnd (gets id) (\<lambda>l.
     andthen (guard (nat (lhn l) \<le> LOGSIZE) (Fault ''write_log: lh.block''))
     (in_bio (for_each [0..<nat (lhn l)] (\<lambda>tail.
        log_block pid (ldev l) (lstart l + of_nat tail + 1) (lhblock l ! tail)))))"

subsection \<open>The header\<close>

definition read_head :: "int \<Rightarrow> (log, unit) prog" where
  "read_head pid =
     bnd (gets id) (\<lambda>l.
     bnd (in_bio (bread pid (ldev l) (lstart l))) (\<lambda>buf.
     bnd (in_bio (bdata buf)) (\<lambda>lh.
     andthen (modify (lhn_update (\<lambda>_. hdr_n lh)))
     (andthen (guard (nat (hdr_n lh) \<le> LOGSIZE) (Fault ''read_head: lh.block''))
     (andthen (for_each [0..<nat (hdr_n lh)] (\<lambda>i. modify (lhblock_update (\<lambda>bs. bs[i := hdr_block lh i]))))
     (in_bio (brelse pid buf)))))))"

definition write_head :: "int \<Rightarrow> (log, unit) prog" where
  "write_head pid =
     bnd (gets id) (\<lambda>l.
     andthen (guard (nat (lhn l) \<le> LOGSIZE) (Fault ''write_head: lh.block''))
     (in_bio (
       bnd (bread pid (ldev l) (lstart l)) (\<lambda>buf.
       bnd (bdata buf) (\<lambda>d.
       andthen (bset buf (put_hdr (lhn l) (lhblock l) d))
       (andthen (bwrite pid buf)
       (brelse pid buf)))))))"

definition recover_from_log :: "int \<Rightarrow> (log, unit) prog" where
  "recover_from_log pid =
     andthen (read_head pid)
     (andthen (install_trans pid True)
     (andthen (modify (lhn_update (\<lambda>_. 0)))
     (write_head pid)))"

definition initlog :: "int \<Rightarrow> u32 \<Rightarrow> superblock \<Rightarrow> (log, unit) prog" where
  "initlog pid d sb =
     (if 4 * (1 + LOGSIZE) \<ge> BSIZE then panic ''initlog: too big logheader''
      else andthen (modify (\<lambda>l. l\<lparr>lstart := sb_logstart sb, lsize := sint (sb_nlog sb), ldev := d\<rparr>))
        (recover_from_log pid))"

subsection \<open>Transactions\<close>

definition begin_op :: "(log, unit) prog" where
  "begin_op =
     bnd (gets id) (\<lambda>l.
     if committing l then fails (Sleeps ''log'')
     else if lhn l + (outstanding l + 1) * MAXOPBLOCKS > int LOGSIZE then fails (Sleeps ''log'')
     else modify (outstanding_update (\<lambda>n. n + 1)))"

definition commit :: "int \<Rightarrow> (log, unit) prog" where
  "commit pid =
     bnd (gets lhn) (\<lambda>n.
     if n > 0 then
       andthen (write_log pid)
       (andthen (write_head pid)
       (andthen (install_trans pid False)
       (andthen (modify (lhn_update (\<lambda>_. 0)))
       (write_head pid))))
     else ret ())"

definition end_op :: "int \<Rightarrow> (log, unit) prog" where
  "end_op pid =
     andthen (modify (outstanding_update (\<lambda>n. n - 1)))
     (bnd (gets id) (\<lambda>l.
     if committing l then panic ''log.committing''
     else if outstanding l = 0 then
       andthen (modify (committing_update (\<lambda>_. True)))
       (andthen (commit pid)
       (modify (committing_update (\<lambda>_. False))))
     else ret ()))"

text \<open>The search for the block in \<^verbatim>\<open>log_write\<close>: its index, or \<^verbatim>\<open>lh.n\<close> when it is not logged yet.\<close>

primrec find_logged :: "u32 list \<Rightarrow> u32 \<Rightarrow> nat \<Rightarrow> nat" where
  "find_logged [] bn i = i"
| "find_logged (b # bs) bn i = (if b = bn then i else find_logged bs bn (Suc i))"

definition log_write :: "nat \<Rightarrow> (log, unit) prog" where
  "log_write b =
     bnd (gets id) (\<lambda>l.
     if lhn l \<ge> int LOGSIZE \<or> lhn l \<ge> lsize l - 1 then panic ''too big a transaction''
     else if outstanding l < 1 then panic ''log_write outside of trans''
     else
       let bn = blockno (buf_at (lbio l) b);
           i = find_logged (take (nat (lhn l)) (lhblock l)) bn 0
       in andthen (modify (lhblock_update (\<lambda>bs. bs[i := bn])))
          (if int i = lhn l then andthen (in_bio (bpin b)) (modify (lhn_update (\<lambda>n. n + 1))) else ret ()))"

end
