(* ===== verification/Crash.thy ===== *)
theory Crash
  imports Log
begin

text \<open>
  Crash safety of the log. Part one works on disks alone: the sequence of block writes that a commit
  issues, cut off anywhere, followed by recovery. Part two shows that the code of \<^verbatim>\<open>commit\<close> issues that
  sequence and that the code of \<^verbatim>\<open>initlog\<close> performs that recovery.
\<close>

subsection \<open>Disks and sequences of writes\<close>

type_synonym disk = "u32 \<Rightarrow> block"

definition apply_writes :: "(u32 \<times> block) list \<Rightarrow> disk \<Rightarrow> disk" where
  "apply_writes ws d = fold (\<lambda>(b, x) d. d(b := x)) ws d"

lemma apply_writes_Nil [simp]: "apply_writes [] d = d"
  by (simp add: apply_writes_def)

lemma apply_writes_append: "apply_writes (xs @ ys) d = apply_writes ys (apply_writes xs d)"
  by (simp add: apply_writes_def)

lemma apply_writes_Cons [simp]: "apply_writes ((b, x) # ws) d = apply_writes ws (d(b := x))"
  by (simp add: apply_writes_def)

lemma apply_writes_other: "b \<notin> fst ` set ws \<Longrightarrow> apply_writes ws d b = d b"
  by (induction ws rule: rev_induct) (auto simp: apply_writes_append)

lemma apply_writes_map:
  assumes "inj_on f {..<k}" and "t < k"
  shows "apply_writes (map (\<lambda>t. (f t, g t)) [0..<k]) d (f t) = g t"
  using assms
proof (induction k)
  case (Suc k)
  have "apply_writes (map (\<lambda>t. (f t, g t)) [0..<Suc k]) d =
      (apply_writes (map (\<lambda>t. (f t, g t)) [0..<k]) d)(f k := g k)"
    by (simp add: apply_writes_append)
  moreover have "inj_on f {..<k}" using Suc.prems(1) by (rule inj_on_subset) auto
  moreover have "f t \<noteq> f k" if "t \<noteq> k" using that Suc.prems by (auto dest: inj_onD)
  ultimately show ?case using Suc by (cases "t = k") auto
qed simp

subsection \<open>The layout of the log\<close>

definition slot_no :: "u32 \<Rightarrow> nat \<Rightarrow> u32" where
  "slot_no start t = start + of_nat t + 1"

definition region :: "u32 \<Rightarrow> nat \<Rightarrow> u32 set" where
  "region start m = insert start (slot_no start ` {..<m})"

lemma slot_no_inj: "m \<le> LOGSIZE \<Longrightarrow> inj_on (slot_no start) {..<m}"
proof (rule inj_onI)
  fix i j assume m: "m \<le> LOGSIZE" "i \<in> {..<m}" "j \<in> {..<m}" and "slot_no start i = slot_no start j"
  then have "(of_nat i :: u32) = of_nat j" by (simp add: slot_no_def)
  then have "unat (of_nat i :: u32) = unat (of_nat j :: u32)" by simp
  then show "i = j" using m by (simp add: unat_of_nat_small LOGSIZE_def)
qed

lemma slot_no_start: "t < LOGSIZE \<Longrightarrow> slot_no start t \<noteq> start"
proof
  assume t: "t < LOGSIZE" and "slot_no start t = start"
  then have "(of_nat (Suc t) :: u32) = 0" by (simp add: slot_no_def add.commute add.assoc)
  then have "unat (of_nat (Suc t) :: u32) = 0" by simp
  then show False using t by (simp add: unat_of_nat_small LOGSIZE_def del: of_nat_Suc)
qed

subsection \<open>The header block\<close>

lemma put_hdr_length:
  assumes "length d = BSIZE" and "nat n \<le> LOGSIZE"
  shows "length (put_hdr n bs d) = BSIZE"
proof -
  have "length (fold (\<lambda>i d. put32 d (4 + 4 * i) (bs ! i)) [0..<k] (put32 d 0 w)) = BSIZE" if "k \<le> LOGSIZE" for k w
    using that assms(1) by (induction k) (simp_all add: const_defs)
  from this [OF assms(2)] show ?thesis by (simp add: put_hdr_def)
qed

lemma put_hdr_fields:
  assumes "length d = BSIZE" and "k \<le> LOGSIZE"
  shows "get32 (fold (\<lambda>i d. put32 d (4 + 4 * i) (bs ! i)) [0..<k] (put32 d 0 w)) 0 = w"
    and "t < k \<Longrightarrow> get32 (fold (\<lambda>i d. put32 d (4 + 4 * i) (bs ! i)) [0..<k] (put32 d 0 w)) (4 + 4 * t) = bs ! t"
proof -
  let ?r = "\<lambda>k. fold (\<lambda>i d. put32 d (4 + 4 * i) (bs ! i)) [0..<k] (put32 d 0 w)"
  have len: "length (?r k) = BSIZE" if "k \<le> LOGSIZE" for k
    using that assms(1) by (induction k) (simp_all add: const_defs)
  show "get32 (?r k) 0 = w"
    using assms(2)
  proof (induction k)
    case (Suc k)
    then have "get32 (?r (Suc k)) 0 = get32 (?r k) 0" using len [of k] by (simp add: const_defs)
    then show ?case using Suc by simp
  qed (use assms(1) in \<open>simp add: const_defs\<close>)
  show "get32 (?r k) (4 + 4 * t) = bs ! t" if "t < k"
    using assms(2) that
  proof (induction k)
    case (Suc k)
    then show ?case
      using len [of k] by (cases "t = k") (auto simp: const_defs)
  qed simp
qed

lemma hdr_n_put:
  assumes "length d = BSIZE" and "n \<le> LOGSIZE"
  shows "hdr_n (put_hdr (int n) bs d) = int n"
  using put_hdr_fields(1) [OF assms, of bs "word_of_int (int n)"] assms(2)
  by (simp add: hdr_n_def put_hdr_def LOGSIZE_def signed_of_nat signed_take_bit_int_eq_self)

lemma hdr_block_put:
  assumes "length d = BSIZE" and "n \<le> LOGSIZE" and "t < n"
  shows "hdr_block (put_hdr (int n) bs d) t = bs ! t"
  using put_hdr_fields(2) [OF assms(1,2,3)] by (simp add: hdr_block_def put_hdr_def)

subsection \<open>Recovery and the writes of a commit\<close>

definition install :: "u32 \<Rightarrow> (nat \<Rightarrow> u32) \<Rightarrow> nat \<Rightarrow> disk \<Rightarrow> disk" where
  "install start home n d = fold (\<lambda>t d. d(home t := d (slot_no start t))) [0..<n] d"

definition recover :: "u32 \<Rightarrow> disk \<Rightarrow> disk" where
  "recover start d =
     (let h = d start; d' = install start (hdr_block h) (nat (hdr_n h)) d
      in d'(start := put_hdr 0 [] (d' start)))"

definition log_part :: "u32 \<Rightarrow> u32 list \<Rightarrow> disk \<Rightarrow> (u32 \<times> block) list" where
  "log_part start bs v = map (\<lambda>t. (slot_no start t, v (bs ! t))) [0..<length bs]"

definition home_part :: "u32 list \<Rightarrow> disk \<Rightarrow> (u32 \<times> block) list" where
  "home_part bs v = map (\<lambda>t. (bs ! t, v (bs ! t))) [0..<length bs]"

definition commit_writes :: "u32 \<Rightarrow> u32 list \<Rightarrow> disk \<Rightarrow> block \<Rightarrow> (u32 \<times> block) list" where
  "commit_writes start bs v h =
     (let h1 = put_hdr (int (length bs)) bs h
      in log_part start bs v @ [(start, h1)] @ home_part bs v @ [(start, put_hdr 0 [] h1)])"

lemma install_other: "(\<And>t. t < n \<Longrightarrow> b \<noteq> home t) \<Longrightarrow> install start home n d b = d b"
  by (induction n) (auto simp: install_def)

lemma install_home:
  assumes "inj_on home {..<n}" and "\<And>t u. t < n \<Longrightarrow> u < n \<Longrightarrow> home t \<noteq> slot_no start u" and "t < n"
  shows "install start home n d (home t) = d (slot_no start t)"
  using assms
proof (induction n)
  case (Suc n)
  have e: "install start home (Suc n) d = (install start home n d)(home n := install start home n d (slot_no start n))"
    by (simp add: install_def)
  have sl: "install start home n d (slot_no start n) = d (slot_no start n)"
    by (rule install_other) (use Suc.prems(2) in \<open>metis less_Suc_eq\<close>)
  show ?case
  proof (cases "t = n")
    case True
    then show ?thesis using e sl by simp
  next
    case False
    then have "home t \<noteq> home n" using Suc.prems(1,3) by (auto dest: inj_onD)
    moreover have "install start home n d (home t) = d (slot_no start t)"
      using Suc.prems False by (intro Suc.IH inj_on_subset [OF Suc.prems(1)]) auto
    ultimately show ?thesis using e by simp
  qed
qed simp

text \<open>A committed disk: the header names the blocks and the slots hold their new contents.\<close>

lemma recover_committed:
  assumes "distinct bs" and "set bs \<inter> region start m = {}" and "length bs \<le> m" and "m \<le> LOGSIZE"
    and "length h = BSIZE" and "d start = put_hdr (int (length bs)) bs h"
    and "\<And>t. t < length bs \<Longrightarrow> d (slot_no start t) = v (bs ! t)"
    and "b \<notin> region start m"
  shows "recover start d b = (if b \<in> set bs then v b else d b)"
proof -
  let ?n = "length bs"
  have n: "?n \<le> LOGSIZE" using assms(3,4) by simp
  have hn: "nat (hdr_n (d start)) = ?n" using hdr_n_put [OF assms(5) n] assms(6) by simp
  have hb: "hdr_block (d start) t = bs ! t" if "t < ?n" for t using hdr_block_put [OF assms(5) n that] assms(6) by simp
  have "install start (hdr_block (d start)) ?n d b = (if b \<in> set bs then v b else d b)"
  proof (cases "b \<in> set bs")
    case True
    then obtain t where t: "t < ?n" "b = bs ! t" by (auto simp: in_set_conv_nth)
    have "bs ! i \<noteq> slot_no start j" if "i < ?n" "j < ?n" for i j
      using assms(2,3) that nth_mem [OF that(1)] by (fastforce simp: region_def)
    then have "install start (hdr_block (d start)) ?n d (hdr_block (d start) t) = d (slot_no start t)"
      using assms(1) hb t(1) by (intro install_home) (auto simp: inj_on_def nth_eq_iff_index_eq)
    then show ?thesis using hb t assms(7) True by simp
  next
    case False
    then have "install start (hdr_block (d start)) ?n d b = d b"
      using hb by (intro install_other) (metis nth_mem)
    then show ?thesis using False by simp
  qed
  moreover have "b \<noteq> start" using assms(8) by (auto simp: region_def)
  ultimately show ?thesis by (simp add: recover_def hn Let_def)
qed

lemma recover_clean:
  assumes "hdr_n (d start) = 0" and "b \<noteq> start"
  shows "recover start d b = d b"
  using assms by (simp add: recover_def Let_def install_def)

text \<open>
  Whatever prefix of a commit's writes reaches the disk, recovery yields the old contents of all
  blocks outside the log, or the new contents of all of them: the header write decides.
\<close>

lemma crash_recovery:
  assumes bs: "distinct bs" "set bs \<inter> region start m = {}" "length bs \<le> m" "m \<le> LOGSIZE"
    and h: "length (d start) = BSIZE" "hdr_n (d start) = 0" and b: "b \<notin> region start m"
  shows "recover start (apply_writes (take k (commit_writes start bs v (d start))) d) b =
    (if k \<le> length bs then d b else if b \<in> set bs then v b else d b)"
proof -
  let ?n = "length bs" and ?h1 = "put_hdr (int (length bs)) bs (d start)"
  let ?L = "log_part start bs v" and ?H = "home_part bs v"
  have n: "?n \<le> LOGSIZE" using bs by simp
  have lens: "length ?L = ?n" "length ?H = ?n" by (simp_all add: log_part_def home_part_def)
  have Lb: "fst ` set ?L \<subseteq> slot_no start ` {..<m}" and Hb: "fst ` set ?H \<subseteq> set bs"
    using bs(3) by (auto simp: log_part_def home_part_def)
  have ns: "start \<notin> slot_no start ` {..<m}" 
  proof
    assume "start \<in> slot_no start ` {..<m}"
    then obtain t where "t < m" "start = slot_no start t" by auto
    then show False using slot_no_start [of t start] bs(4) by simp
  qed
  have nb: "b \<noteq> start" "b \<notin> slot_no start ` {..<m}" using b by (auto simp: region_def)
  have sh: "start \<notin> set bs" "set bs \<inter> slot_no start ` {..<m} = {}" using bs(2) by (auto simp: region_def)
  let ?D1 = "(apply_writes ?L d)(start := ?h1)"
  have D1: "?D1 (slot_no start t) = v (bs ! t)" if "t < ?n" for t
  proof -
    have "apply_writes ?L d (slot_no start t) = v (bs ! t)"
      unfolding log_part_def using that bs slot_no_inj [of m start]
      by (intro apply_writes_map) (auto intro: inj_on_subset)
    then show ?thesis using slot_no_start [of t start] n that by simp
  qed
  have D1b: "?D1 b = d b" using nb Lb apply_writes_other [of b ?L d] by auto
  consider "k \<le> ?n" | j where "k = ?n + Suc j" "j \<le> ?n" | "k \<ge> Suc (Suc (?n + ?n))"
  proof -
    have "k \<le> ?n \<or> (\<exists>j. k = ?n + Suc j \<and> j \<le> ?n) \<or> k \<ge> Suc (Suc (?n + ?n))" by presburger
    then show ?thesis using that by blast
  qed
  then show ?thesis
  proof cases
    case 1
    let ?W = "take k ?L"
    have W: "take k (commit_writes start bs v (d start)) = ?W" using 1 lens by (simp add: commit_writes_def Let_def)
    have sub: "fst ` set ?W \<subseteq> slot_no start ` {..<m}" using Lb set_take_subset [of k ?L] by blast
    then have "apply_writes ?W d start = d start" "apply_writes ?W d b = d b"
      using ns nb by (auto intro!: apply_writes_other)
    then show ?thesis unfolding W using 1 h nb by (simp add: recover_clean)
  next
    case (2 j)
    let ?W = "take j ?H"
    have "take k (commit_writes start bs v (d start)) = ?L @ [(start, ?h1)] @ ?W"
      using 2 lens by (simp add: commit_writes_def Let_def)
    then have D: "apply_writes (take k (commit_writes start bs v (d start))) d = apply_writes ?W ?D1"
      by (simp add: apply_writes_append)
    have sub: "fst ` set ?W \<subseteq> set bs" using Hb set_take_subset [of j ?H] by blast
    have st: "apply_writes ?W ?D1 start = ?h1" using sub sh by (subst apply_writes_other) auto
    have sl: "apply_writes ?W ?D1 (slot_no start t) = v (bs ! t)" if "t < ?n" for t
    proof -
      have "slot_no start t \<notin> set bs" using sh(2) that bs(3) by auto
      then show ?thesis using D1 [OF that] sub by (subst apply_writes_other) auto
    qed
    have "recover start (apply_writes ?W ?D1) b = (if b \<in> set bs then v b else apply_writes ?W ?D1 b)"
      by (rule recover_committed [OF bs h(1) st sl b])
    moreover have "apply_writes ?W ?D1 b = d b" if "b \<notin> set bs"
      using that sub D1b by (subst apply_writes_other) auto
    ultimately show ?thesis unfolding D using 2 by auto
  next
    case 3
    have "take k (commit_writes start bs v (d start)) = ?L @ [(start, ?h1)] @ ?H @ [(start, put_hdr 0 [] ?h1)]"
      using 3 lens by (simp add: commit_writes_def Let_def)
    then have D: "apply_writes (take k (commit_writes start bs v (d start))) d =
        (apply_writes ?H ?D1)(start := put_hdr 0 [] ?h1)"
      by (simp add: apply_writes_append)
    have h1: "length ?h1 = BSIZE" using put_hdr_length [OF h(1)] n by simp
    have "hdr_n (put_hdr 0 [] ?h1) = 0" using hdr_n_put [OF h1, of 0] by simp
    moreover have "apply_writes ?H ?D1 b = (if b \<in> set bs then v b else d b)"
    proof (cases "b \<in> set bs")
      case True
      then obtain t where t: "t < ?n" "b = bs ! t" by (auto simp: in_set_conv_nth)
      then show ?thesis unfolding home_part_def using bs(1) True
        by (simp, intro apply_writes_map) (auto simp: inj_on_def nth_eq_iff_index_eq)
    next
      case False
      then show ?thesis using Hb D1b by (subst apply_writes_other) auto
    qed
    ultimately show ?thesis unfolding D using 3 nb by (simp add: recover_clean)
  qed
qed

subsection \<open>Writing through the cache\<close>

definition c_through :: "(u32 \<times> block) list \<Rightarrow> cache \<Rightarrow> cache" where
  "c_through ws c = c\<lparr>cview := apply_writes ws (cview c), cstore := apply_writes ws (cstore c), ctrace := ctrace c @ ws\<rparr>"

lemma c_through_Nil [simp]: "c_through [] c = c"
  by (simp add: c_through_def)

lemma c_through_append: "c_through (xs @ ys) c = c_through ys (c_through xs c)"
  by (simp add: c_through_def apply_writes_append)

lemma c_copy_through: "c_copy src dst c = c_through [(dst, cview c src)] c"
  by (simp add: c_copy_def c_through_def)

lemma c_write_through: "c_write b (c_put b d c) = c_through [(b, d)] c"
  by (simp add: c_write_def c_put_def c_through_def)

lemma c_through_simps [simp]:
  "crefs (c_through ws c) = crefs c" "cowner (c_through ws c) = cowner c" "in_use (c_through ws c) = in_use c"
  by (simp_all add: c_through_def in_use_def)

lemma c_through_clean: "cview c b = cstore c b \<Longrightarrow> cview (c_through ws c) b = cstore (c_through ws c) b"
  by (induction ws rule: rev_induct) (auto simp: c_through_append, auto simp: c_through_def)

lemma cview_through_other: "b \<notin> fst ` set ws \<Longrightarrow> cview (c_through ws c) b = cview c b"
  by (simp add: c_through_def apply_writes_other)

text \<open>
  A cache ready to copy the blocks \<open>bs\<close>: for a commit they are pinned once and only they may differ from
  the disk; for recovery nothing is in use and nothing is modified.
\<close>

definition ready :: "bool \<Rightarrow> u32 \<Rightarrow> nat \<Rightarrow> u32 list \<Rightarrow> cache \<Rightarrow> bool" where
  "ready recovering start m bs c \<longleftrightarrow> distinct bs \<and> set bs \<inter> region start m = {} \<and> length bs \<le> m \<and> m < NBUF \<and>
     (\<forall>b. crefs c b = (if b \<in> set bs \<and> \<not> recovering then 1 else 0)) \<and> (\<forall>b. cowner c b = None) \<and>
     (\<forall>b. b \<notin> set bs \<or> recovering \<longrightarrow> cview c b = cstore c b)"

lemma ready_blocks:
  assumes "ready recovering start m bs c" and "t < length bs"
  shows "bs ! t \<in> set bs" and "slot_no start t \<in> region start m" and "i \<le> t \<Longrightarrow> slot_no start i \<notin> set bs"
    and "slot_no start t \<noteq> bs ! t"
proof -
  show "bs ! t \<in> set bs" using assms(2) by simp
  have r: "slot_no start i \<in> region start m" if "i \<le> t" for i
    using assms that by (auto simp: ready_def region_def)
  then show "slot_no start t \<in> region start m" by simp
  show "slot_no start i \<notin> set bs" if "i \<le> t" using r [OF that] assms(1) by (auto simp: ready_def)
  then show "slot_no start t \<noteq> bs ! t" using r [of t] assms(1) nth_mem [OF assms(2)] by (auto simp: ready_def)
qed

lemma ready_room2:
  assumes "ready recovering start m bs c" and "t < length bs" and "in_use c' \<subseteq> set bs"
    and "\<And>b. crefs c' b \<le> 1" and "\<And>b. cowner c' b = None"
  shows "room2 NBUF c' (slot_no start t) (bs ! t)"
proof -
  note b = ready_blocks [OF assms(1,2)]
  have "insert (slot_no start t) (insert (bs ! t) (in_use c')) \<subseteq> insert (slot_no start t) (set bs)"
    using b(1) assms(3) by auto
  then have "card (insert (slot_no start t) (insert (bs ! t) (in_use c'))) \<le> card (insert (slot_no start t) (set bs))"
    by (intro card_mono) auto
  also have "\<dots> \<le> Suc (length bs)" by (simp add: card_insert_if card_length le_SucI)
  also have "\<dots> \<le> NBUF" using assms(1) by (simp add: ready_def)
  finally have "card (insert (slot_no start t) (insert (bs ! t) (in_use c'))) \<le> NBUF" .
  moreover have "crefs c' x < 2 ^ 32 - 2" for x by (rule le_less_trans [OF assms(4)]) simp
  ultimately show ?thesis using b(4) assms(5) by (simp add: room2_def)
qed

lemma log_loop:
  assumes inv: "bio_inv s" and rd: "ready False start m bs (bio_abs s)" and k: "k \<le> length bs"
  shows "wp (for_each [0..<k] (\<lambda>t. log_block pid ROOTDEV (slot_no start t) (bs ! t)))
    (\<lambda>_ u. bio_inv u \<and> bio_abs u = c_through (map (\<lambda>t. (slot_no start t, cview (bio_abs s) (bs ! t))) [0..<k]) (bio_abs s)) s"
proof -
  let ?c = "bio_abs s" and ?ws = "\<lambda>k. map (\<lambda>t. (slot_no start t, cview (bio_abs s) (bs ! t))) [0..<k]"
  show ?thesis
  proof (rule wp_for_each [where I = "\<lambda>k u. bio_inv u \<and> bio_abs u = c_through (?ws k) ?c"])
    show "bio_inv s \<and> ?c = c_through (?ws 0) ?c" using inv by simp
  next
    fix t u assume t: "t < length [0..<k]" and u: "bio_inv u \<and> bio_abs u = c_through (?ws t) ?c"
    let ?a = "slot_no start t" and ?b = "bs ! t"
    have tk: "t < length bs" using t k by simp
    note b = ready_blocks [OF rd tk]
    have ne: "?b \<notin> fst ` set (?ws t)" using b(1,3) by (auto dest: less_imp_le)
    have refs: "crefs (bio_abs u) x = (if x \<in> set bs then 1 else 0)" "cowner (bio_abs u) x = None" for x
      using u rd by (simp_all add: ready_def)
    then have r2: "room2 NBUF (bio_abs u) ?a ?b" by (intro ready_room2 [OF rd tk]) (auto simp: in_use_def)
    have "wp (log_block pid ROOTDEV ?a ?b) (\<lambda>_ v. bio_inv v \<and> bio_abs v = c_copy ?b ?a (bio_abs u)) u"
      unfolding log_block_def by (rule bc.log_round [OF conjunct1 [OF u] r2]) (use refs b(1) in simp)
    moreover have "c_copy ?b ?a (bio_abs u) = c_through (?ws (Suc t)) ?c"
      using u cview_through_other [OF ne, of ?c] by (simp add: c_copy_through c_through_append)
    ultimately show "wp (log_block pid ROOTDEV (slot_no start ([0..<k] ! t)) (bs ! ([0..<k] ! t)))
        (\<lambda>_ v. bio_inv v \<and> bio_abs v = c_through (?ws (Suc t)) ?c) u"
      using t by simp
  qed simp
qed

lemma install_loop:
  assumes inv: "bio_inv s" and rd: "ready recovering start m bs (bio_abs s)" and k: "k \<le> length bs"
  shows "wp (for_each [0..<k] (\<lambda>t. install_block pid ROOTDEV recovering (slot_no start t) (bs ! t)))
    (\<lambda>_ u. bio_inv u \<and> bio_abs u =
      (c_through (map (\<lambda>t. (bs ! t, cview (bio_abs s) (slot_no start t))) [0..<k]) (bio_abs s))
      \<lparr>crefs := \<lambda>b. if b \<in> set (drop k bs) \<and> \<not> recovering then 1 else 0\<rparr>) s"
proof -
  let ?c = "bio_abs s" and ?ws = "\<lambda>k. map (\<lambda>t. (bs ! t, cview (bio_abs s) (slot_no start t))) [0..<k]"
  let ?r = "\<lambda>k b. if b \<in> set (drop k bs) \<and> \<not> recovering then 1 else 0 :: nat"
  show ?thesis
  proof (rule wp_for_each [where I = "\<lambda>k u. bio_inv u \<and> bio_abs u = (c_through (?ws k) ?c)\<lparr>crefs := ?r k\<rparr>"])
    have "crefs ?c = ?r 0" using rd by (auto simp: ready_def)
    then show "bio_inv s \<and> ?c = (c_through (?ws 0) ?c)\<lparr>crefs := ?r 0\<rparr>" using inv by (simp del: drop_0)
  next
    fix t u assume t: "t < length [0..<k]" and u: "bio_inv u \<and> bio_abs u = (c_through (?ws t) ?c)\<lparr>crefs := ?r t\<rparr>"
    let ?a = "slot_no start t" and ?b = "bs ! t"
    have tk: "t < length bs" using t k by simp
    note b = ready_blocks [OF rd tk]
    have db: "drop t bs = ?b # drop (Suc t) bs" using tk by (simp add: Cons_nth_drop_Suc)
    have nb: "?b \<notin> set (drop (Suc t) bs)"
      using rd tk db distinct_drop [of bs t] by (simp add: ready_def)
    have a: "?a \<notin> set bs" "?a \<notin> fst ` set (?ws t)" using b(3) [of t] tk by auto
    have refs: "crefs (bio_abs u) = ?r t" "cowner (bio_abs u) x = None" for x
      using u rd by (simp_all add: ready_def c_through_def)
    have iu: "in_use (bio_abs u) \<subseteq> set bs" using refs by (auto simp: in_use_def dest: in_set_dropD split: if_splits)
    have r2: "room2 NBUF (bio_abs u) ?a ?b" using refs iu by (intro ready_room2 [OF rd tk]) auto
    have va: "cview (bio_abs u) ?a = cview ?c ?a" "cview (bio_abs u) ?a = cstore (bio_abs u) ?a"
      using u a rd by (simp_all add: ready_def c_through_def apply_writes_other)
    have "wp (install_block pid ROOTDEV recovering ?a ?b) (\<lambda>_ v. bio_inv v \<and> bio_abs v =
        (if recovering then c_copy ?a ?b (bio_abs u) else c_unpin ?b (c_copy ?a ?b (bio_abs u)))) u"
      unfolding install_block_def
      by (rule bc.install_round [OF conjunct1 [OF u] r2]) (use refs(1) db va(2) in simp_all)
    moreover have "(if recovering then c_copy ?a ?b (bio_abs u) else c_unpin ?b (c_copy ?a ?b (bio_abs u))) =
        (c_through (?ws (Suc t)) ?c)\<lparr>crefs := ?r (Suc t)\<rparr>"
    proof (rule cache.equality)
      show "crefs (if recovering then c_copy ?a ?b (bio_abs u) else c_unpin ?b (c_copy ?a ?b (bio_abs u))) =
          crefs ((c_through (?ws (Suc t)) ?c)\<lparr>crefs := ?r (Suc t)\<rparr>)"
        using refs(1) nb db by (auto simp: c_copy_def c_unpin_def fun_eq_iff)
    qed (use u va(1) in \<open>auto simp: c_copy_def c_unpin_def c_through_def apply_writes_append\<close>)
    ultimately show "wp (install_block pid ROOTDEV recovering (slot_no start ([0..<k] ! t)) (bs ! ([0..<k] ! t)))
        (\<lambda>_ v. bio_inv v \<and> bio_abs v = (c_through (?ws (Suc t)) ?c)\<lparr>crefs := ?r (Suc t)\<rparr>) u"
      using t by simp
  qed simp
qed

subsection \<open>The code of commit and recovery\<close>

text \<open>\<open>log_at l start bs\<close>: the in-memory log is for the root device and names the blocks \<open>bs\<close>.\<close>

definition log_at :: "log \<Rightarrow> u32 \<Rightarrow> u32 list \<Rightarrow> bool" where
  "log_at l start bs \<longleftrightarrow> ldev l = ROOTDEV \<and> lstart l = start \<and> lhn l = int (length bs) \<and>
     length (lhblock l) = LOGSIZE \<and> length bs \<le> LOGSIZE \<and> take (length bs) (lhblock l) = bs"

lemma log_at_nth: "log_at l start bs \<Longrightarrow> t < length bs \<Longrightarrow> lhblock l ! t = bs ! t"
  by (metis log_at_def nth_take)

lemma lbio_ex [simp]: "(\<exists>b. l\<lparr>lbio := t\<rparr> = l\<lparr>lbio := b\<rparr> \<and> P b) \<longleftrightarrow> P t"
  by (auto dest: arg_cong [of _ _ lbio])

lemma log_upd_order: "l\<lparr>lhn := k, lbio := b\<rparr> = l\<lparr>lbio := b, lhn := k\<rparr>"
  "l\<lparr>lhn := k, lhblock := bs, lbio := b\<rparr> = l\<lparr>lbio := b, lhn := k, lhblock := bs\<rparr>"
  by (cases l; simp)+

lemma slot_no_eq: "start + of_nat t + 1 = slot_no start t"
  by (simp add: slot_no_def)

lemma for_each_cong:
  "(\<And>i. i \<in> set is \<Longrightarrow> f i = g i) \<Longrightarrow> for_each is f = for_each is g"
  by (induction "is") auto

lemma write_log_spec:
  assumes inv: "bio_inv (lbio l)" and l: "log_at l start bs" and rd: "ready False start m bs (bio_abs (lbio l))"
  shows "wp (write_log pid) (\<lambda>_ l'. \<exists>b. l' = l\<lparr>lbio := b\<rparr> \<and> bio_inv b \<and>
    bio_abs b = c_through (log_part start bs (cview (bio_abs (lbio l)))) (bio_abs (lbio l))) l"
proof -
  have loop: "for_each [0..<length bs] (\<lambda>t. log_block pid (ldev l) (lstart l + of_nat t + 1) (lhblock l ! t)) =
      for_each [0..<length bs] (\<lambda>t. log_block pid ROOTDEV (slot_no start t) (bs ! t))"
    using l log_at_nth [OF l] by (intro for_each_cong) (simp add: log_at_def slot_no_eq)
  have g: "nat (lhn l) = length bs" "length bs \<le> LOGSIZE" using l by (auto simp: log_at_def)
  show ?thesis
    using log_loop [OF inv rd order_refl, of pid]
    by (simp add: write_log_def wp_bnd wp_andthen wp_gets wp_guard wp_zoom g loop log_part_def)
qed

lemma install_spec:
  assumes inv: "bio_inv (lbio l)" and l: "log_at l start bs" and rd: "ready recovering start m bs (bio_abs (lbio l))"
  shows "wp (install_trans pid recovering) (\<lambda>_ l'. \<exists>b. l' = l\<lparr>lbio := b\<rparr> \<and> bio_inv b \<and>
    bio_abs b = (c_through (map (\<lambda>t. (bs ! t, cview (bio_abs (lbio l)) (slot_no start t))) [0..<length bs])
      (bio_abs (lbio l)))\<lparr>crefs := \<lambda>_. 0\<rparr>) l"
proof -
  have loop: "for_each [0..<length bs] (\<lambda>t. install_block pid (ldev l) recovering (lstart l + of_nat t + 1) (lhblock l ! t)) =
      for_each [0..<length bs] (\<lambda>t. install_block pid ROOTDEV recovering (slot_no start t) (bs ! t))"
    using l log_at_nth [OF l] by (intro for_each_cong) (simp add: log_at_def slot_no_eq)
  have g: "nat (lhn l) = length bs" "length bs \<le> LOGSIZE" using l by (auto simp: log_at_def)
  show ?thesis
    using install_loop [OF inv rd order_refl, of pid]
    by (simp add: install_trans_def wp_bnd wp_andthen wp_gets wp_guard wp_zoom g loop)
qed

lemma put_hdr_cong: "take n bs = take n cs \<Longrightarrow> put_hdr (int n) bs d = put_hdr (int n) cs d"
proof -
  assume eq: "take n bs = take n cs"
  have "bs ! i = cs ! i" if "i < n" for i using eq that by (metis nth_take)
  then show ?thesis unfolding put_hdr_def by (intro fold_cong) auto
qed

lemma write_head_spec:
  assumes inv: "bio_inv (lbio l)" and l: "ldev l = ROOTDEV" "lhn l = int n" "n \<le> LOGSIZE"
    and rm: "room NBUF (bio_abs (lbio l)) (lstart l)"
  shows "wp (write_head pid) (\<lambda>_ l'. \<exists>b. l' = l\<lparr>lbio := b\<rparr> \<and> bio_inv b \<and>
    bio_abs b = c_through [(lstart l, put_hdr (int n) (lhblock l) (cview (bio_abs (lbio l)) (lstart l)))]
      (bio_abs (lbio l))) l"
proof -
  have len: "length (put_hdr (int n) (lhblock l) x) = BSIZE" if "length x = BSIZE" for x
    using put_hdr_length [OF that] l(3) by simp
  show ?thesis
    using bc.rewrite_round [OF inv rm, of "put_hdr (int n) (lhblock l)" pid] len l
    by (simp add: write_head_def wp_bnd wp_andthen wp_gets wp_guard wp_zoom c_write_through)
qed

lemma ready_room:
  assumes "ready recovering start m bs c" and "in_use c' \<subseteq> set bs" and "crefs c' b \<le> 1" and "cowner c' b = None"
  shows "room NBUF c' b"
proof -
  have "card (in_use c') \<le> card (set bs)" using assms(2) by (intro card_mono) auto
  also have "\<dots> \<le> length bs" by (rule card_length)
  also have "\<dots> < NBUF" using assms(1) by (simp add: ready_def)
  finally show ?thesis using assms(3,4) le_less_trans [OF assms(3), of "2 ^ 32 - 1"] by (simp add: room_def)
qed

lemma c_through_refs: "c_through ws (c\<lparr>crefs := r\<rparr>) = (c_through ws c)\<lparr>crefs := r\<rparr>"
  by (simp add: c_through_def)

lemma ready_through: "ready recovering start m bs c \<Longrightarrow> ready recovering start m bs (c_through ws c)"
  unfolding ready_def by (auto intro: c_through_clean)

lemma log_part_outside: "m \<le> LOGSIZE \<Longrightarrow> length bs \<le> m \<Longrightarrow> start \<notin> fst ` set (log_part start bs v)"
proof
  assume m: "m \<le> LOGSIZE" "length bs \<le> m" and "start \<in> fst ` set (log_part start bs v)"
  then obtain t where "t < length bs" "start = slot_no start t" by (auto simp: log_part_def)
  then show False using slot_no_start [of t start] m by simp
qed

lemma slot_view:
  assumes "t < length bs" and "length bs \<le> LOGSIZE"
  shows "apply_writes (log_part start bs v @ [(start, h)]) d (slot_no start t) = v (bs ! t)"
proof -
  have "apply_writes (log_part start bs v) d (slot_no start t) = v (bs ! t)"
    unfolding log_part_def using assms slot_no_inj by (intro apply_writes_map) auto
  then show ?thesis using slot_no_start [of t start] assms by (simp add: apply_writes_append)
qed

lemma commit_spec:
  assumes inv: "bio_inv (lbio l)" and l: "log_at l start bs" and rd: "ready False start m bs (bio_abs (lbio l))" and "bs \<noteq> []"
  shows "wp (commit pid) (\<lambda>_ l'. \<exists>b. l' = l\<lparr>lbio := b, lhn := 0\<rparr> \<and> bio_inv b \<and>
    bio_abs b = (c_through (commit_writes start bs (cview (bio_abs (lbio l))) (cview (bio_abs (lbio l)) start))
      (bio_abs (lbio l)))\<lparr>crefs := \<lambda>_. 0\<rparr>) l"
    (is "wp _ ?Q l")
proof -
  let ?c0 = "bio_abs (lbio l)" and ?n = "length bs"
  let ?v = "cview ?c0"
  let ?h1 = "put_hdr (int ?n) bs (?v start)"
  let ?L = "log_part start bs ?v" and ?H = "home_part bs ?v"
  have n: "?n \<le> LOGSIZE" "0 < lhn l" using l \<open>bs \<noteq> []\<close> by (auto simp: log_at_def)
  have m: "m \<le> LOGSIZE" "?n \<le> m" using rd by (auto simp: ready_def const_defs)
  have lf: "ldev l = ROOTDEV" "lhn l = int ?n" "lstart l = start" using l by (simp_all add: log_at_def)
  have sb: "start \<notin> set bs" using rd by (auto simp: ready_def region_def)
  have tk: "put_hdr (int ?n) (lhblock l) x = put_hdr (int ?n) bs x" for x
    using l by (intro put_hdr_cong) (simp add: log_at_def)
  have z: "put_hdr 0 x y = put_hdr 0 [] y" for x y by (simp add: put_hdr_def)
  have use: "in_use ?c0 = set bs" using rd by (auto simp: ready_def in_use_def split: if_splits)
  have rf: "crefs ?c0 start = 0" "\<And>b. cowner ?c0 b = None" using rd sb by (simp_all add: ready_def)
  have s3: "wp (write_head pid) ?Q (l\<lparr>lbio := b, lhn := 0\<rparr>)"
    if b: "bio_inv b" "bio_abs b = (c_through (?L @ [(start, ?h1)] @ ?H) ?c0)\<lparr>crefs := \<lambda>_. 0\<rparr>" for b
  proof -
    have "start \<notin> fst ` set ?H" using sb by (auto simp: home_part_def)
    then have v: "cview (bio_abs b) start = ?h1"
      unfolding b(2) by (simp add: c_through_def apply_writes_other apply_writes_append)
    have "room NBUF (bio_abs b) start"
      using rf by (intro ready_room [OF rd]) (simp_all add: b(2) in_use_def c_through_def)
    then have "wp (write_head pid) (\<lambda>_ l'. \<exists>b'. l' = (l\<lparr>lbio := b, lhn := 0\<rparr>)\<lparr>lbio := b'\<rparr> \<and> bio_inv b' \<and>
        bio_abs b' = c_through [(start, put_hdr (int 0) (lhblock l) (cview (bio_abs b) start))] (bio_abs b))
        (l\<lparr>lbio := b, lhn := 0\<rparr>)"
      using write_head_spec [of "l\<lparr>lbio := b, lhn := 0\<rparr>" 0 pid] b(1) lf by simp
    moreover have "c_through [(start, put_hdr (int 0) (lhblock l) (cview (bio_abs b) start))] (bio_abs b) =
        (c_through (commit_writes start bs ?v (?v start)) ?c0)\<lparr>crefs := \<lambda>_. 0\<rparr>"
      unfolding v unfolding b(2) c_through_refs c_through_append [symmetric] of_nat_0 z [of "lhblock l"]
      by (simp add: commit_writes_def Let_def z [of "lhblock l"])
    ultimately show ?thesis by (elim wp_mono) (auto simp: log_upd_order)
  qed
  have s2: "wp (andthen (install_trans pid False) (andthen (modify (lhn_update (\<lambda>_. 0))) (write_head pid))) ?Q (l\<lparr>lbio := b\<rparr>)"
    if b: "bio_inv b" "bio_abs b = c_through (?L @ [(start, ?h1)]) ?c0" for b
  proof -
    have sl: "cview (bio_abs b) (slot_no start t) = ?v (bs ! t)" if "t < ?n" for t
      unfolding b(2) using slot_view [OF that n(1), of start ?v ?h1 ?v] by (simp add: c_through_def)
    have Hm: "map (\<lambda>t. (bs ! t, cview (bio_abs b) (slot_no start t))) [0..<?n] = ?H"
      unfolding home_part_def using sl by (intro map_cong) auto
    have "log_at (l\<lparr>lbio := b\<rparr>) start bs" using l by (simp add: log_at_def)
    moreover have "ready False start m bs (bio_abs b)" unfolding b(2) by (rule ready_through [OF rd])
    ultimately have "wp (install_trans pid False) (\<lambda>_ l'. \<exists>b'. l' = (l\<lparr>lbio := b\<rparr>)\<lparr>lbio := b'\<rparr> \<and> bio_inv b' \<and>
        bio_abs b' = (c_through ?H (bio_abs b))\<lparr>crefs := \<lambda>_. 0\<rparr>) (l\<lparr>lbio := b\<rparr>)"
      using install_spec [of "l\<lparr>lbio := b\<rparr>" start bs False m pid] b(1) Hm by simp
    moreover have "c_through ?H (bio_abs b) = c_through (?L @ [(start, ?h1)] @ ?H) ?c0"
      unfolding b(2) c_through_append [symmetric] by simp
    ultimately show ?thesis
      unfolding wp_andthen wp_modify by (elim wp_mono) (auto intro!: s3)
  qed
  have s1: "wp (andthen (write_head pid) (andthen (install_trans pid False)
      (andthen (modify (lhn_update (\<lambda>_. 0))) (write_head pid)))) ?Q (l\<lparr>lbio := b\<rparr>)"
    if b: "bio_inv b" "bio_abs b = c_through ?L ?c0" for b
  proof -
    have v: "cview (bio_abs b) start = ?v start"
      unfolding b(2) by (rule cview_through_other [OF log_part_outside [OF m]])
    have "room NBUF (bio_abs b) start" using b(2) rf use by (intro ready_room [OF rd]) simp_all
    then have "wp (write_head pid) (\<lambda>_ l'. \<exists>b'. l' = (l\<lparr>lbio := b\<rparr>)\<lparr>lbio := b'\<rparr> \<and> bio_inv b' \<and>
        bio_abs b' = c_through [(start, put_hdr (int ?n) (lhblock l) (cview (bio_abs b) start))] (bio_abs b)) (l\<lparr>lbio := b\<rparr>)"
      using write_head_spec [of "l\<lparr>lbio := b\<rparr>" ?n pid] b(1) lf n by simp
    moreover have "c_through [(start, put_hdr (int ?n) (lhblock l) (cview (bio_abs b) start))] (bio_abs b) =
        c_through (?L @ [(start, ?h1)]) ?c0"
      unfolding v tk unfolding b(2) c_through_append [symmetric] ..
    ultimately show ?thesis
      unfolding wp_andthen [of "write_head pid"] by (elim wp_mono) (auto intro!: s2)
  qed
  have "wp (write_log pid) (\<lambda>_. wp (andthen (write_head pid) (andthen (install_trans pid False)
      (andthen (modify (lhn_update (\<lambda>_. 0))) (write_head pid)))) ?Q) l"
    by (rule wp_mono [OF write_log_spec [OF inv l rd]]) (use s1 in blast)
  then show ?thesis using n(2) by (simp add: commit_def wp_bnd wp_gets wp_andthen)
qed

text \<open>Reading the header.\<close>

lemma fill_blocks:
  fixes l :: log
  assumes "n \<le> length (lhblock l)"
  shows "for_each [0..<n] (\<lambda>i. modify (lhblock_update (\<lambda>bs. bs[i := f i]))) l =
    Ok () (l\<lparr>lhblock := map f [0..<n] @ drop n (lhblock l)\<rparr>)"
proof -
  have a: "for_each is (\<lambda>i. modify (lhblock_update (\<lambda>bs. bs[i := f i]))) l =
      Ok () (l\<lparr>lhblock := fold (\<lambda>i bs. bs[i := f i]) is (lhblock l)\<rparr>)" for "is" and l :: log
    by (induction "is" arbitrary: l) (simp_all add: run_simps)
  have b: "fold (\<lambda>i bs. bs[i := f i]) [0..<k] xs = map f [0..<k] @ drop k xs" if "k \<le> length xs" for k and xs :: "u32 list"
    using that
  proof (induction k)
    case (Suc k)
    then show ?case by (auto simp: list_update_append Cons_nth_drop_Suc [symmetric] split: nat.split)
  qed simp
  show ?thesis unfolding a b [OF assms] ..
qed

definition fresh_cache :: "disk \<Rightarrow> cache \<Rightarrow> bool" where
  "fresh_cache d c \<longleftrightarrow> cview c = d \<and> cstore c = d \<and> (\<forall>b. crefs c b = 0) \<and> (\<forall>b. cowner c b = None)"

lemma fresh_room: "fresh_cache d c \<Longrightarrow> room NBUF c b"
  by (simp add: fresh_cache_def room_def in_use_def const_defs)

lemma read_head_spec:
  assumes inv: "bio_inv (lbio l)" and l: "ldev l = ROOTDEV" "length (lhblock l) = LOGSIZE"
    and fr: "fresh_cache d (bio_abs (lbio l))" and n: "hdr_n (d (lstart l)) = int n" "n \<le> LOGSIZE"
  shows "wp (read_head pid) (\<lambda>_ l'. \<exists>b. l' = l\<lparr>lbio := b, lhn := int n,
      lhblock := map (hdr_block (d (lstart l))) [0..<n] @ drop n (lhblock l)\<rparr> \<and> bio_inv b \<and>
      bio_abs b = bio_abs (lbio l)) l"
proof -
  let ?c = "bio_abs (lbio l)" and ?s = "lstart l"
  show ?thesis
    unfolding read_head_def wp_bnd wp_gets wp_zoom l(1) id_apply
  proof (rule wp_mono [OF bc.read_ok [OF inv fresh_room [OF fr]]], elim conjE)
    fix i b
    assume b: "bio_inv b" "holds b i ?s" "bio_abs b = c_read pid ?s ?c"
    have ow: "cowner (bio_abs b) ?s = Some pid" using b(3) by (simp add: c_read_def)
    have vw: "cview (bio_abs b) ?s = d ?s" using b(3) fr by (simp add: c_read_def fresh_cache_def)
    have cl: "cview (bio_abs b) ?s = cstore (bio_abs b) ?s" using b(3) fr by (simp add: c_read_def fresh_cache_def)
    let ?l1 = "l\<lparr>lbio := b, lhn := int n, lhblock := map (hdr_block (d ?s)) [0..<n] @ drop n (lhblock l)\<rparr>"
    have loop: "for_each [0..<n] (\<lambda>i. modify (lhblock_update (\<lambda>bs. bs[i := hdr_block (d ?s) i]))) (l\<lparr>lbio := b, lhn := int n\<rparr>) =
        Ok () ?l1"
      using fill_blocks [of n "l\<lparr>lbio := b, lhn := int n\<rparr>"] l(2) n(2) by simp
    have "wp (brelse pid i) (\<lambda>_ t. bio_inv t \<and> holds t = holds b \<and> bio_abs t = c_relse ?s (bio_abs b)) b"
      by (rule bc.relse_ok [OF b(1,2) ow cl])
    moreover have "c_relse ?s (bio_abs b) = ?c"
      unfolding b(3) by (rule c_read_relse) (use fr in \<open>simp add: fresh_cache_def\<close>)
    ultimately have rel: "wp (brelse pid i) (\<lambda>_ t. bio_inv t \<and> bio_abs t = ?c) b" by (elim wp_mono) simp
    then have fin: "wp (in_bio (brelse pid i)) (\<lambda>_ l'. \<exists>b. l' = l\<lparr>lbio := b, lhn := int n,
        lhblock := map (hdr_block (d ?s)) [0..<n] @ drop n (lhblock l)\<rparr> \<and> bio_inv b \<and> bio_abs b = ?c) ?l1"
      unfolding wp_zoom by (simp, elim wp_mono) (auto simp: log_upd_order)
    show "wp (bdata i) (\<lambda>lh t. wp (andthen (modify (lhn_update (\<lambda>_. hdr_n lh)))
        (andthen (guard (nat (hdr_n lh) \<le> LOGSIZE) (Fault ''read_head: lh.block''))
        (andthen (for_each [0..<nat (hdr_n lh)] (\<lambda>i. modify (lhblock_update (\<lambda>bs. bs[i := hdr_block lh i]))))
        (in_bio (brelse pid i))))) (\<lambda>_ l'. \<exists>b. l' = l\<lparr>lbio := b, lhn := int n,
          lhblock := map (hdr_block (d ?s)) [0..<n] @ drop n (lhblock l)\<rparr> \<and> bio_inv b \<and> bio_abs b = ?c)
        (lbio_update (\<lambda>_. t) (lbio_update (\<lambda>_. b) l))) (lbio (lbio_update (\<lambda>_. b) l))"
      using bc.get_ok [OF b(1,2) ow] vw n fin loop
      by (simp add: wp_def [of "bdata i"] wp_andthen wp_modify wp_guard wp_def [of "for_each _ _"])
  qed
qed

lemma install_as_writes:
  assumes "distinct bs" and "\<And>t. t < length bs \<Longrightarrow> home t = bs ! t"
    and "\<And>t u. t < length bs \<Longrightarrow> u < length bs \<Longrightarrow> bs ! t \<noteq> slot_no start u"
  shows "apply_writes (map (\<lambda>t. (bs ! t, d (slot_no start t))) [0..<length bs]) d = install start home (length bs) d"
proof
  fix x
  show "apply_writes (map (\<lambda>t. (bs ! t, d (slot_no start t))) [0..<length bs]) d x = install start home (length bs) d x"
  proof (cases "x \<in> set bs")
    case True
    then obtain t where t: "t < length bs" "x = bs ! t" by (auto simp: in_set_conv_nth)
    have "inj_on ((!) bs) {..<length bs}" using assms(1) by (auto simp: inj_on_def nth_eq_iff_index_eq)
    then have "apply_writes (map (\<lambda>t. (bs ! t, d (slot_no start t))) [0..<length bs]) d (bs ! t) = d (slot_no start t)"
      using t(1) by (rule apply_writes_map)
    moreover have "install start home (length bs) d (home t) = d (slot_no start t)"
      using assms t(1) by (intro install_home) (auto simp: inj_on_def nth_eq_iff_index_eq)
    ultimately show ?thesis using assms(2) t by simp
  next
    case False
    then have "x \<notin> fst ` set (map (\<lambda>t. (bs ! t, d (slot_no start t))) [0..<length bs])" by auto
    moreover have "install start home (length bs) d x = d x"
      using False assms(2) by (intro install_other) (metis nth_mem)
    ultimately show ?thesis by (simp add: apply_writes_other)
  qed
qed

text \<open>
  Recovery at boot: from a cache that agrees with the disk \<open>d\<close> and a header that names distinct blocks
  outside the log, \<^verbatim>\<open>initlog\<close> leaves the disk as \<open>recover\<close> describes it, and the cache agreeing with it.
\<close>

lemma initlog_spec:
  assumes inv: "bio_inv (lbio l)" and len: "length (lhblock l) = LOGSIZE" and fr: "fresh_cache d (bio_abs (lbio l))"
    and start: "start = sb_logstart sb" and n: "hdr_n (d start) = int n"
    and bs: "bs = map (hdr_block (d start)) [0..<n]" "distinct bs" "set bs \<inter> region start m = {}" "n \<le> m" "m < NBUF"
  shows "wp (initlog pid ROOTDEV sb) (\<lambda>_ l'. bio_inv (lbio l') \<and> fresh_cache (recover start d) (bio_abs (lbio l')) \<and>
    lhn l' = 0 \<and> lstart l' = start \<and> ldev l' = ROOTDEV \<and> outstanding l' = outstanding l \<and> committing l' = committing l) l"
    (is "wp _ ?Q l")
proof -
  let ?l0 = "l\<lparr>lstart := sb_logstart sb, lsize := sint (sb_nlog sb), ldev := ROOTDEV\<rparr>"
  let ?hb = "bs @ drop n (lhblock l)" and ?c = "bio_abs (lbio l)"
  have nL: "n \<le> LOGSIZE" and lb: "length bs = n" using bs by (simp_all add: const_defs)
  have rd: "ready True start m bs c" if "fresh_cache d c" for c
    using that bs lb by (simp add: ready_def fresh_cache_def)
  have sb: "start \<notin> set bs" using bs(3) by (auto simp: region_def)
  have ns: "bs ! t \<noteq> slot_no start u" if "t < length bs" "u < length bs" for t u
    using bs(3,4) lb that nth_mem [OF that(1)] by (force simp: region_def)
  let ?ws = "map (\<lambda>t. (bs ! t, d (slot_no start t))) [0..<length bs]"
  have ws: "apply_writes ?ws d = install start (hdr_block (d start)) n d"
    using install_as_writes [OF bs(2) _ ns, of "hdr_block (d start)" d] bs(1) lb by simp
  have s3: "wp (write_head pid) ?Q (?l0\<lparr>lbio := b, lhn := 0, lhblock := ?hb\<rparr>)"
    if b: "bio_inv b" "bio_abs b = (c_through ?ws c)\<lparr>crefs := \<lambda>_. 0\<rparr>" "fresh_cache d c" for b c
  proof -
    have f: "fresh_cache (apply_writes ?ws d) (bio_abs b)" using b(2,3) by (simp add: fresh_cache_def c_through_def)
    have z: "put_hdr 0 x y = put_hdr 0 [] y" for x y by (simp add: put_hdr_def)
    have "wp (write_head pid) (\<lambda>_ l'. \<exists>b'. l' = (?l0\<lparr>lbio := b, lhn := 0, lhblock := ?hb\<rparr>)\<lparr>lbio := b'\<rparr> \<and> bio_inv b' \<and>
        bio_abs b' = c_through [(start, put_hdr (int 0) ?hb (cview (bio_abs b) start))] (bio_abs b))
        (?l0\<lparr>lbio := b, lhn := 0, lhblock := ?hb\<rparr>)"
      using write_head_spec [of "?l0\<lparr>lbio := b, lhn := 0, lhblock := ?hb\<rparr>" 0 pid] b(1) fresh_room [OF f] start by simp
    moreover have "fresh_cache (recover start d) (c_through [(start, put_hdr (int 0) ?hb (cview (bio_abs b) start))] (bio_abs b))"
      using f n z [of ?hb] ws unfolding fresh_cache_def by (simp add: c_through_def recover_def Let_def)
    ultimately show ?thesis by (elim wp_mono) (auto simp: start)
  qed
  have s2: "wp (andthen (install_trans pid True) (andthen (modify (lhn_update (\<lambda>_. 0))) (write_head pid))) ?Q
      (?l0\<lparr>lbio := b, lhn := int n, lhblock := ?hb\<rparr>)" if b: "bio_inv b" "bio_abs b = ?c" for b
  proof -
    let ?l1 = "?l0\<lparr>lbio := b, lhn := int n, lhblock := ?hb\<rparr>"
    have at: "log_at ?l1 start bs" using start lb len nL by (simp add: log_at_def)
    have "cview (bio_abs b) = d" using b(2) fr by (simp add: fresh_cache_def)
    then have "wp (install_trans pid True) (\<lambda>_ l'. \<exists>b'. l' = ?l1\<lparr>lbio := b'\<rparr> \<and> bio_inv b' \<and>
        bio_abs b' = (c_through ?ws (bio_abs b))\<lparr>crefs := \<lambda>_. 0\<rparr>) ?l1"
      using install_spec [of ?l1 start bs True m pid] b fr rd [of "bio_abs b"] at by simp
    then show ?thesis
      unfolding wp_andthen wp_modify
    proof (rule wp_mono, elim exE conjE)
      fix l' b'
      assume l': "l' = ?l1\<lparr>lbio := b'\<rparr>" and b': "bio_inv b'" "bio_abs b' = (c_through ?ws (bio_abs b))\<lparr>crefs := \<lambda>_. 0\<rparr>"
      have "lhn_update (\<lambda>_. 0) l' = ?l0\<lparr>lbio := b', lhn := 0, lhblock := ?hb\<rparr>" unfolding l' by (cases l) simp
      then show "wp (write_head pid) ?Q (lhn_update (\<lambda>_. 0) l')"
        using s3 [OF b'] b(2) fr by simp
    qed
  qed
  have "wp (read_head pid) (\<lambda>_ l'. \<exists>b. l' = ?l0\<lparr>lbio := b, lhn := int n,
      lhblock := map (hdr_block (d start)) [0..<n] @ drop n (lhblock l)\<rparr> \<and> bio_inv b \<and> bio_abs b = ?c) ?l0"
    using read_head_spec [of ?l0 d n pid] inv len fr start n nL by simp
  then have "wp (recover_from_log pid) ?Q ?l0"
    unfolding recover_from_log_def wp_andthen [of "read_head pid"] bs(1) [symmetric]
    by (elim wp_mono) (use s2 in blast)
  then show ?thesis
    by (simp add: initlog_def const_defs wp_andthen wp_modify)
qed

subsection \<open>Crash atomicity\<close>

text \<open>The header that a crash during a commit leaves behind.\<close>

lemma crash_header:
  fixes k :: nat and v d :: disk
  assumes bs: "set bs \<inter> region start m = {}" "length bs \<le> m" "m \<le> LOGSIZE"
    and h: "length (d start) = BSIZE" "hdr_n (d start) = 0"
  defines "D \<equiv> apply_writes (take k (commit_writes start bs v (d start))) d"
  obtains "hdr_n (D start) = int 0" | "hdr_n (D start) = int (length bs)" "map (hdr_block (D start)) [0..<length bs] = bs"
proof -
  let ?n = "length bs" and ?h1 = "put_hdr (int (length bs)) bs (d start)"
  let ?L = "log_part start bs v" and ?H = "home_part bs v"
  have n: "?n \<le> LOGSIZE" using bs by simp
  have lens: "length ?L = ?n" "length ?H = ?n" by (simp_all add: log_part_def home_part_def)
  have sL: "start \<notin> fst ` set ?L" by (rule log_part_outside [OF bs(3,2)])
  have sH: "start \<notin> fst ` set ?H" using bs(1) by (auto simp: home_part_def region_def)
  have h1: "length ?h1 = BSIZE" using put_hdr_length [OF h(1)] n by simp
  have one: "hdr_n ?h1 = int ?n" "map (hdr_block ?h1) [0..<?n] = bs"
    using hdr_n_put [OF h(1) n] hdr_block_put [OF h(1) n] by (auto intro!: nth_equalityI)
  consider "k \<le> ?n" | j where "k = ?n + Suc j" "j \<le> ?n" | "k \<ge> Suc (Suc (?n + ?n))"
  proof -
    have "k \<le> ?n \<or> (\<exists>j. k = ?n + Suc j \<and> j \<le> ?n) \<or> k \<ge> Suc (Suc (?n + ?n))" by presburger
    then show ?thesis using that by blast
  qed
  then show ?thesis
  proof cases
    case 1
    then have "take k (commit_writes start bs v (d start)) = take k ?L" using lens by (simp add: commit_writes_def Let_def)
    moreover have "start \<notin> fst ` set (take k ?L)" using sL set_take_subset [of k ?L] by blast
    ultimately have "D start = d start" by (simp add: D_def apply_writes_other)
    then show ?thesis using that(1) h(2) by simp
  next
    case (2 j)
    then have "take k (commit_writes start bs v (d start)) = ?L @ [(start, ?h1)] @ take j ?H"
      using lens by (simp add: commit_writes_def Let_def)
    moreover have "start \<notin> fst ` set (take j ?H)" using sH set_take_subset [of j ?H] by blast
    ultimately have "D start = ?h1" by (simp add: D_def apply_writes_append apply_writes_other)
    then show ?thesis using that(2) one by simp
  next
    case 3
    then have "take k (commit_writes start bs v (d start)) = ?L @ [(start, ?h1)] @ ?H @ [(start, put_hdr 0 [] ?h1)]"
      using lens by (simp add: commit_writes_def Let_def)
    then have "D start = put_hdr 0 [] ?h1" by (simp add: D_def apply_writes_append)
    then show ?thesis using that(1) hdr_n_put [OF h1, of 0] by simp
  qed
qed

text \<open>A machine that has just booted from the disk \<open>D\<close>: the cache is empty.\<close>

definition booted :: "log \<Rightarrow> disk \<Rightarrow> bool" where
  "booted l D \<longleftrightarrow> bio_inv (lbio l) \<and> fresh_cache D (bio_abs (lbio l)) \<and> length (lhblock l) = LOGSIZE"

lemma recovery_after_crash:
  assumes bs: "distinct bs" "set bs \<inter> region start m = {}" "length bs \<le> m" "m < NBUF"
    and h: "length (d start) = BSIZE" "hdr_n (d start) = 0" and st: "sb_logstart sb = start"
    and boot: "booted l (apply_writes (take k (commit_writes start bs v (d start))) d)"
  shows "wp (initlog pid ROOTDEV sb) (\<lambda>_ u. \<forall>b. b \<notin> region start m \<longrightarrow> disk (lbio u) b =
    (if k \<le> length bs then d b else if b \<in> set bs then v b else d b)) l"
proof -
  let ?D = "apply_writes (take k (commit_writes start bs v (d start))) d"
  have b: "bio_inv (lbio l)" "fresh_cache ?D (bio_abs (lbio l))" "length (lhblock l) = LOGSIZE"
    using boot by (simp_all add: booted_def)
  have m: "m \<le> LOGSIZE" using bs(4) by (simp add: const_defs)
  have "wp (initlog pid ROOTDEV sb) (\<lambda>_ u. fresh_cache (recover start ?D) (bio_abs (lbio u))) l"
  proof (rule crash_header [where bs = bs and m = m and k = k and v = v and d = d, OF bs(2,3) m h])
    assume "hdr_n (?D start) = int 0"
    then show ?thesis
      by (rule wp_mono [OF initlog_spec [OF b(1,3,2) st [symmetric], where n = 0 and m = m and pid = pid and bs = "[]"]])
        (use bs(4) in auto)
  next
    assume "hdr_n (?D start) = int (length bs)" "map (hdr_block (?D start)) [0..<length bs] = bs"
    then show ?thesis
      by (rule_tac wp_mono [OF initlog_spec [OF b(1,3,2) st [symmetric], where n = "length bs" and m = m and pid = pid and bs = bs]])
        (use bs in auto)
  qed
  then show ?thesis
    by (elim wp_mono) (use crash_recovery [where d = d and v = v and k = k, OF bs(1-3) m h] in
      \<open>auto simp: fresh_cache_def bio_abs_def\<close>)
qed

text \<open>
  C1: a commit is atomic with respect to crashes. Running \<^verbatim>\<open>commit()\<close> on a transaction of blocks \<open>bs\<close> issues
  some sequence of block writes. If the machine stops after any number of them and boots again,
  \<^verbatim>\<open>initlog()\<close> returns with a disk on which, outside the log area, either every block has the contents it
  had before the commit, or every block has the contents of the committed transaction.
\<close>

theorem commit_crash_atomic:
  assumes inv: "bio_inv (lbio l)" and l: "log_at l start bs" "bs \<noteq> []"
    and rd: "ready False start m bs (bio_abs (lbio l))" and h: "hdr_n (disk (lbio l) start) = 0"
    and st: "sb_logstart sb = start"
  shows "wp (commit pid) (\<lambda>_ l'. \<exists>ws. written (lbio l') = written (lbio l) @ ws \<and>
      disk (lbio l') = apply_writes ws (disk (lbio l)) \<and>
      (\<forall>k boot. booted boot (apply_writes (take k ws) (disk (lbio l))) \<longrightarrow>
        wp (initlog pid' ROOTDEV sb) (\<lambda>_ u.
          (\<forall>b. b \<notin> region start m \<longrightarrow> disk (lbio u) b = disk (lbio l) b) \<or>
          (\<forall>b. b \<notin> region start m \<longrightarrow> disk (lbio u) b = cview (bio_abs (lbio l)) b)) boot)) l"
proof -
  let ?c = "bio_abs (lbio l)" and ?d = "disk (lbio l)"
  let ?v = "cview ?c"
  have cs: "cstore ?c = ?d" "ctrace ?c = written (lbio l)" by (simp_all add: bio_abs_def)
  have bs: "distinct bs" "set bs \<inter> region start m = {}" "length bs \<le> m" "m < NBUF" using rd by (simp_all add: ready_def)
  have clean: "?v b = ?d b" if "b \<notin> set bs" for b using rd that cs by (simp add: ready_def)
  have sb: "start \<notin> set bs" using bs(2) by (auto simp: region_def)
  have len: "length (?d start) = BSIZE" using bc.view_length [OF inv, of start] clean [OF sb] by simp
  let ?ws = "commit_writes start bs ?v (?d start)"
  have atomic: "wp (initlog pid' ROOTDEV sb) (\<lambda>_ u.
          (\<forall>b. b \<notin> region start m \<longrightarrow> disk (lbio u) b = ?d b) \<or>
          (\<forall>b. b \<notin> region start m \<longrightarrow> disk (lbio u) b = ?v b)) boot"
    if "booted boot (apply_writes (take k ?ws) ?d)" for k boot
    by (rule wp_mono [OF recovery_after_crash [OF bs len h st that]]) (use clean in \<open>auto split: if_splits\<close>)
  have "wp (commit pid) (\<lambda>_ l'. \<exists>b. l' = l\<lparr>lbio := b, lhn := 0\<rparr> \<and> bio_inv b \<and>
      bio_abs b = (c_through ?ws ?c)\<lparr>crefs := \<lambda>_. 0\<rparr>) l"
    using commit_spec [OF inv l(1) rd l(2)] clean [OF sb] by simp
  then show ?thesis
  proof (rule wp_mono, elim exE conjE)
    fix l' b assume b: "l' = l\<lparr>lbio := b, lhn := 0\<rparr>" "bio_abs b = (c_through ?ws ?c)\<lparr>crefs := \<lambda>_. 0\<rparr>"
    have "ctrace (bio_abs b) = ctrace ?c @ ?ws" "cstore (bio_abs b) = apply_writes ?ws (cstore ?c)"
      using b(2) by (simp_all add: c_through_def)
    then have "written (lbio l') = written (lbio l) @ ?ws" "disk (lbio l') = apply_writes ?ws ?d"
      using b(1) by (simp_all add: bio_abs_def)
    then show "\<exists>ws. written (lbio l') = written (lbio l) @ ws \<and> disk (lbio l') = apply_writes ws ?d \<and>
      (\<forall>k boot. booted boot (apply_writes (take k ws) ?d) \<longrightarrow>
        wp (initlog pid' ROOTDEV sb) (\<lambda>_ u.
          (\<forall>b. b \<notin> region start m \<longrightarrow> disk (lbio u) b = ?d b) \<or>
          (\<forall>b. b \<notin> region start m \<longrightarrow> disk (lbio u) b = ?v b)) boot)"
      using atomic by blast
  qed
qed

text \<open>A log with one modified, pinned block, reached from the zeroed cache by the operations of \<^verbatim>\<open>bio.c\<close>.\<close>

lemma one_logged_block:
  "\<exists>b. bio_inv b \<and> ready False 2 29 [100] (bio_abs b) \<and> disk b = (\<lambda>_. replicate 1024 0)"
proof -
  let ?init = "\<lparr>cview = disk boot_bio, cstore = disk boot_bio, crefs = \<lambda>_. 0, cowner = \<lambda>_. None, ctrace = written boot_bio\<rparr>"
  let ?x = "replicate 1024 (7 :: u8)"
  let ?c = "c_relse 100 (c_pin 100 (c_put 100 ?x (c_read 1 100 ?init)))"
  obtain b0 where b0: "bio_inv b0" "bio_abs b0 = ?init"
    using binit_spec [OF boot_bio_zeroed] by (auto elim: wpE)
  have "room NBUF (bio_abs b0) 100" by (simp add: b0(2) room_def in_use_def const_defs)
  from bc.read_ok [OF b0(1) this, of 1] obtain i b1
    where b1: "bio_inv b1" "holds b1 i 100" "bio_abs b1 = c_read 1 100 ?init"
    unfolding b0(2) by (auto elim: wpE)
  have "wp (bset i ?x) (\<lambda>_ t. bio_inv t \<and> holds t = holds b1 \<and> bio_abs t = c_put 100 ?x (bio_abs b1)) b1"
    by (rule bc.put_ok [OF b1(1,2), where pid = 1]) (simp_all add: b1(3) c_read_def BSIZE_def)
  then obtain b2 where b2: "bio_inv b2" "holds b2 i 100" "bio_abs b2 = c_put 100 ?x (c_read 1 100 ?init)"
    using b1(2,3) by (auto elim: wpE)
  have "wp (bpin i) (\<lambda>_ t. bio_inv t \<and> holds t = holds b2 \<and> bio_abs t = c_pin 100 (bio_abs b2)) b2"
    by (rule bc.pin_ok [OF b2(1,2)]) (simp_all add: b2(3) c_defs)
  then obtain b3 where b3: "bio_inv b3" "holds b3 i 100" "bio_abs b3 = c_pin 100 (c_put 100 ?x (c_read 1 100 ?init))"
    using b2(2,3) by (auto elim: wpE)
  have "wp (brelse 1 i) (\<lambda>_ t. bio_inv t \<and> holds t = holds b3 \<and> bio_abs t = c_relse 100 (bio_abs b3)) b3"
    by (rule bc.relse_ok [OF b3(1,2)]) (simp_all add: b3(3) c_defs)
  then obtain b4 where b4: "bio_inv b4" "bio_abs b4 = ?c" using b3(3) by (auto elim: wpE)
  have "cstore (bio_abs b4) = (\<lambda>_. replicate 1024 0)" by (simp add: b4(2) c_defs boot_bio_def)
  then have d: "disk b4 = (\<lambda>_. replicate 1024 0)" by (simp add: bio_abs_def)
  have "(100 :: u32) \<notin> region 2 29"
  proof
    assume "(100 :: u32) \<in> region 2 29"
    then obtain t :: nat where t: "t < 29" and e: "(100 :: u32) = 2 + of_nat t + 1" by (auto simp: region_def slot_no_def)
    have "unat (2 + of_nat t + 1 :: u32) = t + 3" using t by (simp add: unat_plus_if' unat_of_nat_small)
    then have "unat (100 :: u32) = t + 3" unfolding e .
    then show False using t by simp
  qed
  then have "ready False 2 29 [100] (bio_abs b4)" by (simp add: ready_def b4(2) c_defs const_defs)
  then show ?thesis using b4(1) d by blast
qed

lemma hdr_n_zero: "hdr_n (replicate 1024 0) = 0"
  by (simp add: hdr_n_def get32_def le32_of_def numeral_eq_Suc)

theorem commit_crash_atomic_witness:
  "\<exists>l :: log. bio_inv (lbio l) \<and> log_at l 2 [100] \<and>
    wp (commit 1) (\<lambda>_ l'. \<exists>ws. written (lbio l') = written (lbio l) @ ws \<and>
      disk (lbio l') = apply_writes ws (disk (lbio l)) \<and>
      (\<forall>k boot. booted boot (apply_writes (take k ws) (disk (lbio l))) \<longrightarrow>
        wp (initlog 1 ROOTDEV \<lparr>sb_magic = 0x10203040, sb_size = 2000, sb_nblocks = 1954, sb_ninodes = 200, sb_nlog = 30,
            sb_logstart = 2, sb_inodestart = 32, sb_bmapstart = 45\<rparr>) (\<lambda>_ u.
          (\<forall>b. b \<notin> region 2 29 \<longrightarrow> disk (lbio u) b = disk (lbio l) b) \<or>
          (\<forall>b. b \<notin> region 2 29 \<longrightarrow> disk (lbio u) b = cview (bio_abs (lbio l)) b)) boot)) l"
proof -
  obtain b where b: "bio_inv b" "ready False 2 29 [100] (bio_abs b)" "disk b = (\<lambda>_. replicate 1024 0)"
    using one_logged_block by blast
  let ?l = "\<lparr>lbio = b, lstart = 2, lsize = 30, outstanding = 0, committing = True, ldev = ROOTDEV, lhn = 1,
    lhblock = 100 # replicate 29 0\<rparr> :: log"
  have l: "log_at ?l 2 [100]" by (simp add: log_at_def LOGSIZE_def)
  have h: "hdr_n (disk (lbio ?l) 2) = 0" using b(3) hdr_n_zero by simp
  have inv: "bio_inv (lbio ?l)" and rd: "ready False 2 29 [100] (bio_abs (lbio ?l))" using b by simp_all
  show ?thesis
    by (intro exI [of _ ?l] conjI inv l commit_crash_atomic [OF inv l _ rd h]) simp_all
qed

subsection \<open>What a transaction does\<close>

text \<open>
  C2: \<^verbatim>\<open>commit()\<close> returns with every logged block installed: outside the log area the disk now has what the
  cache had, the on-disk header and the in-memory log are empty, and no buffer is pinned.
\<close>

theorem commit_installs:
  assumes inv: "bio_inv (lbio l)" and l: "log_at l start bs" "bs \<noteq> []"
    and rd: "ready False start m bs (bio_abs (lbio l))"
  shows "wp (commit pid) (\<lambda>_ l'. bio_inv (lbio l') \<and> lhn l' = 0 \<and> hdr_n (disk (lbio l') start) = 0 \<and>
      (\<forall>b. crefs (bio_abs (lbio l')) b = 0) \<and>
      (\<forall>b. b \<notin> region start m \<longrightarrow> disk (lbio l') b = cview (bio_abs (lbio l)) b \<and>
         cview (bio_abs (lbio l')) b = cview (bio_abs (lbio l)) b)) l"
proof -
  let ?c = "bio_abs (lbio l)" and ?n = "length bs"
  let ?v = "cview ?c"
  let ?h1 = "put_hdr (int ?n) bs (?v start)"
  let ?W = "commit_writes start bs ?v (?v start)"
  have bs: "distinct bs" "set bs \<inter> region start m = {}" "?n \<le> m" "m < NBUF" using rd by (simp_all add: ready_def)
  have m: "m \<le> LOGSIZE" "?n \<le> LOGSIZE" using bs by (simp_all add: const_defs)
  have h1: "length ?h1 = BSIZE" using put_hdr_length [OF bc.view_length [OF inv], of "int ?n" bs start] m(2) by simp
  have hz: "hdr_n (put_hdr 0 [] ?h1) = 0" using hdr_n_put [OF h1, of 0] by simp
  have st: "apply_writes ?W d start = put_hdr 0 [] ?h1" for d by (simp add: commit_writes_def Let_def apply_writes_append)
  have out: "apply_writes ?W d b = (if b \<in> set bs then ?v b else d b)" if b: "b \<notin> region start m" for d b
  proof -
    let ?L = "log_part start bs ?v" and ?H = "home_part bs ?v"
    have nb: "b \<noteq> start" "b \<notin> fst ` set ?L" using b bs(3) by (auto simp: region_def log_part_def)
    have e: "apply_writes ?W d b = apply_writes ?H ((apply_writes ?L d)(start := ?h1)) b"
      using nb(1) by (simp add: commit_writes_def Let_def apply_writes_append)
    show ?thesis
    proof (cases "b \<in> set bs")
      case True
      then obtain t where t: "t < ?n" "b = bs ! t" by (auto simp: in_set_conv_nth)
      have "inj_on ((!) bs) {..<?n}" using bs(1) by (auto simp: inj_on_def nth_eq_iff_index_eq)
      then show ?thesis using e t True apply_writes_map [of "(!) bs" ?n t "\<lambda>t. ?v (bs ! t)"] by (simp add: home_part_def)
    next
      case False
      then have "b \<notin> fst ` set ?H" by (auto simp: home_part_def)
      then show ?thesis using e False nb by (simp add: apply_writes_other)
    qed
  qed
  have clean: "cstore ?c b = ?v b" if "b \<notin> set bs" for b using rd that by (simp add: ready_def)
  have "wp (commit pid) (\<lambda>_ l'. \<exists>b. l' = l\<lparr>lbio := b, lhn := 0\<rparr> \<and> bio_inv b \<and>
      bio_abs b = (c_through ?W ?c)\<lparr>crefs := \<lambda>_. 0\<rparr>) l"
    by (rule commit_spec [OF inv l(1) rd l(2)])
  then show ?thesis
  proof (rule wp_mono, elim exE conjE)
    fix l' b assume b: "l' = l\<lparr>lbio := b, lhn := 0\<rparr>" "bio_inv b" and a: "bio_abs b = (c_through ?W ?c)\<lparr>crefs := \<lambda>_. 0\<rparr>"
    have d: "disk b = apply_writes ?W (cstore ?c)" using arg_cong [OF a, of cstore] by (simp add: c_through_def bio_abs_def)
    show "bio_inv (lbio l') \<and> lhn l' = 0 \<and> hdr_n (disk (lbio l') start) = 0 \<and>
      (\<forall>b. crefs (bio_abs (lbio l')) b = 0) \<and>
      (\<forall>b. b \<notin> region start m \<longrightarrow> disk (lbio l') b = ?v b \<and> cview (bio_abs (lbio l')) b = ?v b)"
      using b a hz st out clean by (simp add: d c_through_def)
  qed
qed

theorem commit_installs_witness:
  "\<exists>l :: log. log_at l 2 [100] \<and>
    wp (commit 1) (\<lambda>_ l'. bio_inv (lbio l') \<and> lhn l' = 0 \<and> hdr_n (disk (lbio l') 2) = 0 \<and>
      (\<forall>b. crefs (bio_abs (lbio l')) b = 0) \<and>
      (\<forall>b. b \<notin> region 2 29 \<longrightarrow> disk (lbio l') b = cview (bio_abs (lbio l)) b \<and>
         cview (bio_abs (lbio l')) b = cview (bio_abs (lbio l)) b)) l"
proof -
  obtain b where b: "bio_inv b" "ready False 2 29 [100] (bio_abs b)"
    using one_logged_block by blast
  let ?l = "\<lparr>lbio = b, lstart = 2, lsize = 30, outstanding = 0, committing = True, ldev = ROOTDEV, lhn = 1,
    lhblock = 100 # replicate 29 0\<rparr> :: log"
  have l: "log_at ?l 2 [100]" by (simp add: log_at_def LOGSIZE_def)
  have inv: "bio_inv (lbio ?l)" and rd: "ready False 2 29 [100] (bio_abs (lbio ?l))" using b by simp_all
  show ?thesis by (intro exI [of _ ?l] conjI l commit_installs [OF inv l _ rd]) simp_all
qed

text \<open>The search of \<^verbatim>\<open>log_write\<close>.\<close>

lemma find_logged_absent: "bn \<notin> set bs \<Longrightarrow> find_logged bs bn i = i + length bs"
  by (induction bs arbitrary: i) auto

lemma find_logged_present:
  "bn \<in> set bs \<Longrightarrow> \<exists>k<length bs. find_logged bs bn i = i + k \<and> bs ! k = bn"
proof (induction bs arbitrary: i)
  case (Cons b bs)
  show ?case
  proof (cases "b = bn")
    case True
    then show ?thesis by (intro exI [of _ 0]) simp
  next
    case False
    then obtain k where "k < length bs" "find_logged bs bn (Suc i) = Suc i + k" "bs ! k = bn"
      using Cons.IH [of "Suc i"] Cons.prems by auto
    then show ?thesis using False by (intro exI [of _ "Suc k"]) simp
  qed
qed simp

lemma log_write_spec:
  assumes inv: "bio_inv (lbio l)" and l: "log_at l start bs" and h: "holds (lbio l) i bn"
    and n: "0 < crefs (bio_abs (lbio l)) bn" "crefs (bio_abs (lbio l)) bn < 2 ^ 32 - 1"
    and room: "length bs < LOGSIZE" "int (length bs) < lsize l - 1" and out: "0 < outstanding l"
  shows "wp (log_write i) (\<lambda>_ l'. bio_inv (lbio l') \<and>
    (if bn \<in> set bs then l' = l
     else log_at l' start (bs @ [bn]) \<and> bio_abs (lbio l') = c_pin bn (bio_abs (lbio l)) \<and>
       holds (lbio l') = holds (lbio l) \<and> lsize l' = lsize l \<and> outstanding l' = outstanding l)) l"
proof -
  have f: "lhn l = int (length bs)" "take (length bs) (lhblock l) = bs" "length (lhblock l) = LOGSIZE"
    using l by (simp_all add: log_at_def)
  have bn: "blockno (buf_at (lbio l) i) = bn" using h by (simp add: holds_def for_block_def)
  show ?thesis
  proof (cases "bn \<in> set bs")
    case True
    then obtain k where k: "k < length bs" "find_logged bs bn 0 = k" "bs ! k = bn"
      using find_logged_present [of bn bs 0] by auto
    have "(lhblock l)[k := bn] = lhblock l"
      using k f(2) by (metis list_update_id nth_take)
    then have "lhblock_update (\<lambda>bs. bs[k := bn]) l = l" by (cases l) simp
    then show ?thesis
      using True inv f room out bn k by (simp add: wp_def log_write_def run_simps Let_def)
  next
    case False
    have "wp (bpin i) (\<lambda>_ t. bio_inv t \<and> holds t = holds (lbio l) \<and> bio_abs t = c_pin bn (bio_abs (lbio l))) (lbio l)"
      by (rule bc.pin_ok [OF inv h n])
    moreover have "log_at (lhn_update (\<lambda>n. n + 1) ((lhblock_update (\<lambda>x. x[length bs := bn]) l)\<lparr>lbio := b\<rparr>)) start (bs @ [bn])" for b
    proof -
      have "take (Suc (length bs)) ((lhblock l)[length bs := bn]) = bs @ [bn]"
        using f room(1) by (simp add: take_Suc_conv_app_nth)
      then show ?thesis using l room(1) by (simp add: log_at_def)
    qed
    ultimately have "wp (bpin i) (\<lambda>_ t. bio_inv t \<and> holds t = holds (lbio l) \<and> bio_abs t = c_pin bn (bio_abs (lbio l)) \<and>
        log_at (lhn_update (\<lambda>n. n + 1) ((lhblock_update (\<lambda>x. x[length bs := bn]) l)\<lparr>lbio := t\<rparr>)) start (bs @ [bn])) (lbio l)"
      by (elim wp_mono) simp
    then show ?thesis
      using False f room out bn
      by (simp add: log_write_def wp_bnd wp_andthen wp_gets wp_modify wp_zoom Let_def find_logged_absent)
        (elim wp_mono, simp)
  qed
qed

text \<open>
  C3: \<^verbatim>\<open>log_write\<close> of a buffer inside a transaction with room in the log records the buffer's block exactly
  once: a block already in the log is absorbed and nothing changes; a new block is appended and its
  buffer gets one more reference, so that it stays cached until the commit.
\<close>

theorem log_write_records:
  assumes inv: "bio_inv (lbio l)" and l: "log_at l start bs" and h: "holds (lbio l) i bn"
    and n: "0 < crefs (bio_abs (lbio l)) bn" "crefs (bio_abs (lbio l)) bn < 2 ^ 32 - 1"
    and room: "length bs < LOGSIZE" "int (length bs) < lsize l - 1" and out: "0 < outstanding l"
  shows "wp (log_write i) (\<lambda>_ l'. bio_inv (lbio l') \<and>
    (if bn \<in> set bs then l' = l
     else log_at l' start (bs @ [bn]) \<and> bio_abs (lbio l') = c_pin bn (bio_abs (lbio l)))) l"
  by (rule wp_mono [OF log_write_spec [OF assms]]) (auto split: if_splits)

lemma one_held_block:
  "\<exists>b i. bio_inv b \<and> holds b i 100 \<and> crefs (bio_abs b) 100 = 1"
proof -
  let ?init = "\<lparr>cview = disk boot_bio, cstore = disk boot_bio, crefs = \<lambda>_. 0, cowner = \<lambda>_. None, ctrace = written boot_bio\<rparr>"
  obtain b0 where b0: "bio_inv b0" "bio_abs b0 = ?init"
    using binit_spec [OF boot_bio_zeroed] by (auto elim: wpE)
  have "room NBUF (bio_abs b0) 100" by (simp add: b0(2) room_def in_use_def const_defs)
  from bc.read_ok [OF b0(1) this, of 1] obtain i b1
    where "bio_inv b1" "holds b1 i 100" "bio_abs b1 = c_read 1 100 ?init"
    unfolding b0(2) by (auto elim: wpE)
  then show ?thesis by (auto simp: c_read_def)
qed

theorem log_write_records_witness:
  "\<exists>(l :: log) i. log_at l 2 [] \<and> holds (lbio l) i 100 \<and>
    wp (log_write i) (\<lambda>_ l'. bio_inv (lbio l') \<and>
      (if 100 \<in> set ([] :: u32 list) then l' = l
       else log_at l' 2 ([] @ [100]) \<and> bio_abs (lbio l') = c_pin 100 (bio_abs (lbio l)))) l"
proof -
  obtain b i where b: "bio_inv b" "holds b i 100" "crefs (bio_abs b) 100 = 1" using one_held_block by blast
  let ?l = "\<lparr>lbio = b, lstart = 2, lsize = 30, outstanding = 1, committing = False, ldev = ROOTDEV, lhn = 0,
    lhblock = replicate 30 0\<rparr> :: log"
  have l: "log_at ?l 2 []" by (simp add: log_at_def LOGSIZE_def)
  have h: "bio_inv (lbio ?l)" "holds (lbio ?l) i 100" using b by simp_all
  show ?thesis
    by (intro exI [of _ ?l] exI [of _ i] conjI l h(2) log_write_records [OF h(1) l h(2)]) (simp_all add: b LOGSIZE_def)
qed

end
