(* ===== verification/Kstring.thy ===== *)
theory Kstring
  imports Prelude
begin

text \<open>
  \<^verbatim>\<open>kernel/string.c\<close>. The block operations \<^verbatim>\<open>memset\<close>, \<^verbatim>\<open>memmove\<close>, \<^verbatim>\<open>memcpy\<close> and \<^verbatim>\<open>memcmp\<close> work on
  a byte-addressed memory, so that overlapping arguments mean what they mean in C. The string
  operations read their sources through a function from offsets to bytes (the bytes at \<^verbatim>\<open>s[0]\<close>,
  \<^verbatim>\<open>s[1]\<close>, ...) and write to a byte array, a list that is updated by index.
\<close>

type_synonym memory = "u64 \<Rightarrow> u8"
type_synonym cstring = "nat \<Rightarrow> u8"

subsection \<open>Definitions\<close>

text \<open>\<open>for(i = 0; i < n; i++) cdst[i] = c\<close>; the \<^verbatim>\<open>int\<close> argument \<open>c\<close> is cut to a \<^verbatim>\<open>char\<close>.\<close>

definition memset :: "memory \<Rightarrow> u64 \<Rightarrow> u32 \<Rightarrow> u32 \<Rightarrow> memory" where
  "memset m dst c n = fold (\<lambda>i m. m(dst + of_nat i := ucast c)) [0..<unat n] m"

primrec memcmp_loop :: "memory \<Rightarrow> u64 \<Rightarrow> u64 \<Rightarrow> nat \<Rightarrow> int" where
  "memcmp_loop m s1 s2 0 = 0"
| "memcmp_loop m s1 s2 (Suc n) =
     (if m s1 \<noteq> m s2 then uint (m s1) - uint (m s2)
      else memcmp_loop m (s1 + 1) (s2 + 1) n)"

definition memcmp :: "memory \<Rightarrow> u64 \<Rightarrow> u64 \<Rightarrow> u32 \<Rightarrow> int" where
  "memcmp m v1 v2 n = memcmp_loop m v1 v2 (unat n)"

text \<open>The two loops of \<^verbatim>\<open>memmove\<close>: \<open>*--d = *--s\<close> from the ends, \<open>*d++ = *s++\<close> from the starts.\<close>

primrec copy_backward :: "memory \<Rightarrow> u64 \<Rightarrow> u64 \<Rightarrow> nat \<Rightarrow> memory" where
  "copy_backward m d s 0 = m"
| "copy_backward m d s (Suc n) = copy_backward (m(d - 1 := m (s - 1))) (d - 1) (s - 1) n"

primrec copy_forward :: "memory \<Rightarrow> u64 \<Rightarrow> u64 \<Rightarrow> nat \<Rightarrow> memory" where
  "copy_forward m d s 0 = m"
| "copy_forward m d s (Suc n) = copy_forward (m(d := m s)) (d + 1) (s + 1) n"

definition memmove :: "memory \<Rightarrow> u64 \<Rightarrow> u64 \<Rightarrow> u32 \<Rightarrow> memory" where
  "memmove m dst src n =
     (if n = 0 then m
      else if src < dst \<and> src + ucast n > dst
      then copy_backward m (dst + ucast n) (src + ucast n) (unat n)
      else copy_forward m dst src (unat n))"

definition memcpy :: "memory \<Rightarrow> u64 \<Rightarrow> u64 \<Rightarrow> u32 \<Rightarrow> memory" where
  "memcpy m dst src n = memmove m dst src n"

text \<open>\<open>strncmp\<close>: the loop moves both pointers together, so one offset is enough.\<close>

primrec strncmp_loop :: "cstring \<Rightarrow> cstring \<Rightarrow> nat \<Rightarrow> nat \<Rightarrow> int" where
  "strncmp_loop p q i 0 = 0"
| "strncmp_loop p q i (Suc n) =
     (if p i \<noteq> 0 \<and> p i = q i then strncmp_loop p q (Suc i) n
      else uint (p i) - uint (q i))"

definition strncmp :: "cstring \<Rightarrow> cstring \<Rightarrow> u32 \<Rightarrow> int" where
  "strncmp p q n = strncmp_loop p q 0 (unat n)"

text \<open>
  \<open>strncpy\<close>: \<open>while(n-- > 0 && (*s++ = *t++) != 0); while(n-- > 0) *s++ = 0;\<close>.
  The counter is the C \<^verbatim>\<open>int\<close>; the first loop leaves it one lower than it tested.
\<close>

function strncpy_pad :: "u8 list \<Rightarrow> nat \<Rightarrow> int \<Rightarrow> u8 list" where
  "strncpy_pad s i n = (if n > 0 then strncpy_pad (s[i := 0]) (Suc i) (n - 1) else s)"
  by pat_completeness auto
termination
  by (relation "measure (\<lambda>(s, i, n). nat n)") auto

function strncpy_loop :: "u8 list \<Rightarrow> cstring \<Rightarrow> nat \<Rightarrow> int \<Rightarrow> u8 list" where
  "strncpy_loop s t i n =
     (if n > 0 then
        if t i \<noteq> 0 then strncpy_loop (s[i := t i]) t (Suc i) (n - 1)
        else strncpy_pad (s[i := t i]) (Suc i) (n - 1)
      else strncpy_pad s i (n - 1))"
  by pat_completeness auto
termination
  by (relation "measure (\<lambda>(s, t, i, n). nat n)") auto

definition strncpy :: "u8 list \<Rightarrow> cstring \<Rightarrow> int \<Rightarrow> u8 list" where
  "strncpy s t n = strncpy_loop s t 0 n"

text \<open>\<open>safestrcpy\<close>: \<open>while(--n > 0 && (*s++ = *t++) != 0); *s = 0;\<close>.\<close>

function safestrcpy_loop :: "u8 list \<Rightarrow> cstring \<Rightarrow> nat \<Rightarrow> int \<Rightarrow> u8 list" where
  "safestrcpy_loop s t i n =
     (if n - 1 > 0 then
        if t i \<noteq> 0 then safestrcpy_loop (s[i := t i]) t (Suc i) (n - 1)
        else (s[i := t i])[Suc i := 0]
      else s[i := 0])"
  by pat_completeness auto
termination
  by (relation "measure (\<lambda>(s, t, i, n). nat n)") auto

definition safestrcpy :: "u8 list \<Rightarrow> cstring \<Rightarrow> int \<Rightarrow> u8 list" where
  "safestrcpy s t n = (if n \<le> 0 then s else safestrcpy_loop s t 0 n)"

text \<open>\<open>strlen\<close> does not return when there is no NUL byte; \<open>None\<close> stands for that.\<close>

partial_function (option) strlen_loop :: "cstring \<Rightarrow> nat \<Rightarrow> nat option" where
  "strlen_loop s n = (if s n \<noteq> 0 then strlen_loop s (Suc n) else Some n)"

definition strlen :: "cstring \<Rightarrow> nat option" where
  "strlen s = strlen_loop s 0"

text \<open>A byte array as a C string: what lies past its end is read as NUL.\<close>

definition str_of :: "u8 list \<Rightarrow> cstring" where
  "str_of xs i = (if i < length xs then xs ! i else 0)"

declare strncpy_pad.simps [simp del] strncpy_loop.simps [simp del] safestrcpy_loop.simps [simp del]

subsection \<open>Block operations\<close>

lemma memset_apply:
  "memset m dst c n a = (if unat (a - dst) < unat n then ucast c else m a)"
proof -
  have "fold (\<lambda>i m. m(dst + of_nat i := v)) [0..<k] m a = (if unat (a - dst) < k then v else m a)"
    if "k \<le> 2 ^ 64" for k and v :: u8
    using that
  proof (induction k)
    case (Suc k)
    then have "a = dst + of_nat k \<longleftrightarrow> unat (a - dst) = k"
      using offset_eq_iff [of k a dst] by simp
    with Suc show ?case by (auto simp: less_Suc_eq)
  qed simp
  from this [of "unat n"] show ?thesis
    using unat_bound [of n] by (simp add: memset_def)
qed

lemma copy_forward_apply:
  assumes "d = s \<or> n \<le> unat (d - s)" and "n \<le> 2 ^ 64"
  shows "copy_forward m d s n a = (if unat (a - d) < n then m (s + (a - d)) else m a)"
  using assms
proof (induction n arbitrary: m d s)
  case (Suc n)
  have IH: "copy_forward (m(d := m s)) (d + 1) (s + 1) n a =
      (if unat (a - (d + 1)) < n then (m(d := m s)) (s + 1 + (a - (d + 1))) else (m(d := m s)) a)"
    using Suc.prems by (intro Suc.IH) auto
  show ?case
  proof (cases "unat (a - d)")
    case 0
    then have "a = d" by (simp add: unat_eq_0)
    moreover have "\<not> unat (d - (d + 1)) < n"
      using Suc.prems by (simp add: unat_minus_1)
    ultimately show ?thesis using IH by simp
  next
    case (Suc k)
    then have k: "unat (a - (d + 1)) = k" and ne: "a \<noteq> d"
      by (auto dest: offset_Suc)
    have "s + (a - d) \<noteq> d \<or> s = d" if "k < n"
    proof -
      have "unat (d - s) \<noteq> Suc k \<or> d = s" using Suc.prems(1) that by auto
      moreover have "d - s = a - d" if "s + (a - d) = d"
        using that by (simp add: diff_eq_eq add.commute)
      ultimately show ?thesis using Suc by metis
    qed
    then show ?thesis using IH k ne Suc by (auto simp: algebra_simps)
  qed
qed simp

lemma copy_backward_apply:
  assumes "s = d \<or> n \<le> unat (s - d)" and "n \<le> 2 ^ 64"
  shows "copy_backward m (d + of_nat n) (s + of_nat n) n a =
    (if unat (a - d) < n then m (s + (a - d)) else m a)"
  using assms
proof (induction n arbitrary: m)
  case (Suc n)
  let ?m = "m(d + of_nat n := m (s + of_nat n))"
  have IH: "copy_backward ?m (d + of_nat n) (s + of_nat n) n a =
      (if unat (a - d) < n then ?m (s + (a - d)) else ?m a)"
    using Suc.prems by (intro Suc.IH) auto
  have at: "a = d + of_nat n \<longleftrightarrow> unat (a - d) = n"
    using Suc.prems(2) by (intro offset_eq_iff) simp
  have "s + (a - d) \<noteq> d + of_nat n" if "unat (a - d) < n"
  proof
    assume eq: "s + (a - d) = d + of_nat n"
    have "unat (s - d) = n - unat (a - d)"
    proof -
      have "s - d = of_nat n - (a - d)" using eq by (simp add: diff_eq_eq algebra_simps)
      also have "\<dots> = of_nat (n - unat (a - d))" using that by (simp add: of_nat_diff)
      finally show ?thesis using Suc.prems(2) by (simp add: unat_of_nat_small)
    qed
    with Suc.prems(1) eq that show False by (auto simp: at)
  qed
  then show ?case using IH at by (auto simp: less_Suc_eq algebra_simps)
qed simp

text \<open>
  \<^verbatim>\<open>memmove\<close> copies the old contents of the source even when the two ranges overlap, and changes
  nothing else, as long as neither range wraps around the address space.
\<close>

lemma memmove_apply:
  assumes src: "unat src + unat n < 2 ^ 64" and dst: "unat dst + unat n < 2 ^ 64"
  shows "memmove m dst src n a = (if unat (a - dst) < unat n then m (src + (a - dst)) else m a)"
proof (cases "n = 0")
  case False
  have n: "unat (ucast n :: u64) = unat n"
    by (simp add: unat_ucast_up)
  have "unat (src + ucast n) = unat src + unat n"
    using src n by (simp add: unat_plus_if')
  then have gt: "src + ucast n > dst \<longleftrightarrow> unat dst < unat src + unat n"
    by (simp add: word_less_nat_alt)
  show ?thesis
  proof (cases "src < dst \<and> src + ucast n > dst")
    case True
    then have "unat n \<le> unat (src - dst)"
      using src dst gt by (simp add: unat_sub_if' word_less_nat_alt)
    then have "copy_backward m (dst + of_nat (unat n)) (src + of_nat (unat n)) (unat n) a =
        (if unat (a - dst) < unat n then m (src + (a - dst)) else m a)"
      using src by (intro copy_backward_apply) auto
    then show ?thesis using True False by (simp add: memmove_def)
  next
    case no: False
    then have "dst = src \<or> unat n \<le> unat (dst - src)"
      using src dst gt by (auto simp: unat_sub_if' word_less_nat_alt word_unat_eq_iff)
    then have "copy_forward m dst src (unat n) a =
        (if unat (a - dst) < unat n then m (src + (a - dst)) else m a)"
      using src by (intro copy_forward_apply) auto
    then show ?thesis using no False by (auto simp: memmove_def)
  qed
qed (simp add: memmove_def)

lemma memcmp_eq_0_iff: "memcmp m v1 v2 n = 0 \<longleftrightarrow> (\<forall>i < unat n. m (v1 + of_nat i) = m (v2 + of_nat i))"
proof -
  have "memcmp_loop m v1 v2 k = 0 \<longleftrightarrow> (\<forall>i < k. m (v1 + of_nat i) = m (v2 + of_nat i))" for k
    by (induction k arbitrary: v1 v2) (auto simp: less_Suc_eq_0_disj algebra_simps uint_eq_iff)
  then show ?thesis by (simp add: memcmp_def)
qed

subsection \<open>Strings\<close>

text \<open>The contents of a C string, read up to its NUL byte and no further than \<open>n\<close> bytes.\<close>

definition cstr :: "nat \<Rightarrow> cstring \<Rightarrow> u8 list" where
  "cstr n p = takeWhile (\<lambda>c. c \<noteq> 0) (map p [0..<n])"

lemma map_upt_Suc_shift: "map p [i..<i + Suc n] = p i # map p [Suc i..<Suc i + n]"
  by (simp add: upt_rec)

lemma strncmp_eq_0_iff: "strncmp p q n = 0 \<longleftrightarrow> cstr (unat n) p = cstr (unat n) q"
proof -
  have "strncmp_loop p q i k = 0 \<longleftrightarrow>
      takeWhile (\<lambda>c. c \<noteq> 0) (map p [i..<i + k]) = takeWhile (\<lambda>c. c \<noteq> 0) (map q [i..<i + k])" for i k
  proof (induction k arbitrary: i)
    case (Suc k)
    show ?case
      unfolding strncmp_loop.simps map_upt_Suc_shift using Suc [of "Suc i"] by (auto simp: uint_eq_iff uint_0_iff simp del: upt_Suc)
  qed simp
  from this [of 0 "unat n"] show ?thesis by (simp add: strncmp_def cstr_def)
qed

lemma cstr_shift:
  "takeWhile (\<lambda>c. c \<noteq> 0) (map t [i..<i + n]) = cstr n (\<lambda>j. t (i + j))"
proof -
  have "map t [i..<i + n] = map (\<lambda>j. t (i + j)) [0..<n]"
    by (rule nth_equalityI) auto
  then show ?thesis by (simp add: cstr_def)
qed

lemma cstr_Suc: "cstr (Suc n) t = (if t 0 = 0 then [] else t 0 # cstr n (\<lambda>j. t (Suc j)))"
  unfolding cstr_def upt_conv_Cons [OF zero_less_Suc] map_Suc_upt [symmetric] by (simp add: comp_def)

lemma length_cstr: "length (cstr n p) \<le> n"
  unfolding cstr_def by (metis length_map length_takeWhile_le length_upt minus_nat.diff_0)

lemma strncpy_pad_eq:
  "i + nat n \<le> length s \<Longrightarrow> strncpy_pad s i n = take i s @ replicate (nat n) 0 @ drop (i + nat n) s"
proof (induction s i n rule: strncpy_pad.induct)
  case (1 s i n)
  show ?case
  proof (cases "n > 0")
    case True
    then have n: "nat n = Suc (nat (n - 1))" by simp
    have "strncpy_pad s i n = strncpy_pad (s[i := 0]) (Suc i) (n - 1)"
      using True by (subst strncpy_pad.simps) simp
    also have "\<dots> = take (Suc i) (s[i := 0]) @ replicate (nat (n - 1)) 0 @ drop (Suc i + nat (n - 1)) (s[i := 0])"
      using True "1.prems" by (intro "1.IH") auto
    also have "take (Suc i) (s[i := 0]) = take i s @ [0]"
      using "1.prems" n by (simp add: take_Suc_conv_app_nth)
    finally show ?thesis using n "1.prems" by simp
  next
    case False
    then show ?thesis by (subst strncpy_pad.simps) simp
  qed
qed

lemma strncpy_loop_eq:
  "i + nat n \<le> length s \<Longrightarrow> c = cstr (nat n) (\<lambda>j. t (i + j)) \<Longrightarrow>
   strncpy_loop s t i n = take i s @ c @ replicate (nat n - length c) 0 @ drop (i + nat n) s"
proof (induction s t i n arbitrary: c rule: strncpy_loop.induct)
  case (1 s t i n)
  show ?case
  proof (cases "n > 0")
    case True
    then have n: "nat n = Suc (nat (n - 1))" by simp
    have i: "take (Suc i) (s[i := x]) = take i s @ [x]" for x
      using "1.prems"(1) n by (simp add: take_Suc_conv_app_nth)
    show ?thesis
    proof (cases "t i = 0")
      case z: True
      have "strncpy_loop s t i n = strncpy_pad (s[i := 0]) (Suc i) (n - 1)"
        using True z by (subst strncpy_loop.simps) simp
      then show ?thesis
        using z n "1.prems" i by (simp add: strncpy_pad_eq cstr_Suc)
    next
      case nz: False
      have "strncpy_loop s t i n = strncpy_loop (s[i := t i]) t (Suc i) (n - 1)"
        using True nz by (subst strncpy_loop.simps) simp
      then show ?thesis
        using "1.IH"(1) [OF True nz _ refl] nz n "1.prems" i by (simp add: cstr_Suc)
    qed
  next
    case False
    then show ?thesis using "1.prems"
      by (subst strncpy_loop.simps) (simp add: strncpy_pad_eq cstr_def)
  qed
qed

text \<open>\<^verbatim>\<open>strncpy\<close> writes exactly \<open>n\<close> bytes: the string, cut at \<open>n\<close>, padded with NUL bytes.\<close>

lemma strncpy_eq:
  assumes "nat n \<le> length s"
  shows "strncpy s t n =
    cstr (nat n) t @ replicate (nat n - length (cstr (nat n) t)) 0 @ drop (nat n) s"
  using strncpy_loop_eq [of 0 n s "cstr (nat n) t" t] assms by (simp add: strncpy_def)

lemma cstr_str_of_strncpy:
  assumes "nat n \<le> length s"
  shows "cstr (nat n) (str_of (strncpy s t n)) = cstr (nat n) t"
proof -
  let ?c = "cstr (nat n) t" and ?r = "strncpy s t n"
  have "length ?r = length s" using assms length_cstr [of "nat n" t] by (simp add: strncpy_eq)
  then have "map (str_of ?r) [0..<nat n] = take (nat n) ?r"
    using assms by (intro nth_equalityI) (auto simp: str_of_def)
  also have "\<dots> = ?c @ replicate (nat n - length ?c) 0"
    using assms length_cstr [of "nat n" t] by (simp add: strncpy_eq)
  finally have r: "cstr (nat n) (str_of ?r) =
      takeWhile (\<lambda>c. c \<noteq> 0) (?c @ replicate (nat n - length ?c) 0)"
    by (simp only: cstr_def)
  have "\<forall>c \<in> set ?c. c \<noteq> 0" unfolding cstr_def by (auto dest: set_takeWhileD)
  then have "takeWhile (\<lambda>c. c \<noteq> 0) (?c @ replicate k 0) = ?c" for k
    by (cases k) (simp_all add: takeWhile_append2)
  with r show ?thesis by simp
qed

lemma safestrcpy_loop_prefix:
  assumes "i + nat n \<le> length s" and "0 < n"
  shows "length (safestrcpy_loop s t i n) = length s \<and>
    take (i + length (cstr (nat n - 1) (\<lambda>j. t (i + j))) + 1) (safestrcpy_loop s t i n) =
      take i s @ cstr (nat n - 1) (\<lambda>j. t (i + j)) @ [0] \<and>
    drop (i + nat n) (safestrcpy_loop s t i n) = drop (i + nat n) s"
  using assms
proof (induction s t i n rule: safestrcpy_loop.induct)
  case (1 s t i n)
  have i: "take (Suc i) (s[i := x]) = take i s @ [x]" for x
    using "1.prems" by (simp add: take_Suc_conv_app_nth)
  show ?case
  proof (cases "n - 1 > 0")
    case True
    then obtain k where k: "nat n = Suc (Suc k)" "nat (n - 1) = Suc k"
      by (metis Suc_nat_eq_nat_zadd1 diff_add_cancel gr0_implies_Suc order_less_imp_le zero_less_nat_eq
          add.commute)
    show ?thesis
    proof (cases "t i = 0")
      case z: True
      have "safestrcpy_loop s t i n = (s[i := 0])[Suc i := 0]"
        using True z by (subst safestrcpy_loop.simps) simp
      then show ?thesis using z k i by (simp add: cstr_Suc)
    next
      case nz: False
      have "safestrcpy_loop s t i n = safestrcpy_loop (s[i := t i]) t (Suc i) (n - 1)"
        using True nz by (subst safestrcpy_loop.simps) simp
      then show ?thesis
        using "1.IH" [OF True nz] nz k "1.prems" i by (simp add: cstr_Suc)
    qed
  next
    case False
    then have "nat n - 1 = 0" by simp
    then show ?thesis using False "1.prems" i
      by (subst safestrcpy_loop.simps, simp) (simp add: safestrcpy_loop.simps cstr_def)
  qed
qed

text \<open>\<^verbatim>\<open>strlen\<close> returns the position of the first NUL byte, and returns whenever there is one.\<close>

lemma strlen_eq:
  assumes "s k = 0" and "\<And>i. i < k \<Longrightarrow> s i \<noteq> 0"
  shows "strlen s = Some k"
proof -
  have "strlen_loop s (k - d) = Some k" if "d \<le> k" for d
    using that
  proof (induction d)
    case 0
    then show ?case using assms(1) by (simp add: strlen_loop.simps)
  next
    case (Suc d)
    then have "s (k - Suc d) \<noteq> 0" and "Suc (k - Suc d) = k - d" using assms(2) by auto
    with Suc show ?case by (subst strlen_loop.simps) simp
  qed
  from this [of k] show ?thesis by (simp add: strlen_def)
qed

text \<open>
  C14: \<^verbatim>\<open>memmove\<close> copies correctly when source and destination overlap: every destination byte gets the
  byte that the source range held before the call, and every other byte of memory is unchanged.
\<close>

theorem memmove_overlap:
  assumes "unat src + unat n < 2 ^ 64" and "unat dst + unat n < 2 ^ 64"
  shows "memmove m dst src n a = (if unat (a - dst) < unat n then m (src + (a - dst)) else m a)"
  by (rule memmove_apply [OF assms])

theorem memmove_overlap_witness:
  "memmove (\<lambda>x. ucast x) 0x1002 0x1000 4 0x1003 = 1"
  using memmove_overlap [of "0x1000" 4 "0x1002" "\<lambda>x. ucast x" "0x1003"] by simp

text \<open>
  a name that \<^verbatim>\<open>strncpy\<close> stored in a fixed-size field compares equal, under \<^verbatim>\<open>strncmp\<close> with the
  same bound, to exactly the names that agree with the original up to its NUL or the bound.
\<close>

theorem strncpy_then_strncmp:
  assumes "unat n \<le> length s"
  shows "strncmp u (str_of (strncpy s t (int (unat n)))) n = 0 \<longleftrightarrow> cstr (unat n) u = cstr (unat n) t"
  using cstr_str_of_strncpy [of "int (unat n)" s t] assms by (simp add: strncmp_eq_0_iff)

theorem strncpy_then_strncmp_witness:
  "strncmp (str_of [104, 105, 0, 7]) (str_of (strncpy [9, 9, 9, 9] (str_of [104, 105]) (int (unat (4 :: u32))))) 4 = 0
   \<longleftrightarrow> cstr (unat (4 :: u32)) (str_of [104, 105, 0, 7]) = cstr (unat (4 :: u32)) (str_of [104, 105])"
  by (rule strncpy_then_strncmp) simp

end
