(* ===== verification/Memory.thy ===== *)
theory Memory
  imports Kstring
begin

text \<open>
  Physical memory and the page arithmetic of \<^verbatim>\<open>kernel/riscv.h\<close>: 64-bit loads and stores on the
  byte memory of \<^verbatim>\<open>Kstring\<close>, page rounding, and the facts about aligned addresses and disjoint
  pages that the page allocator and the page-table code rest on.
\<close>

subsection \<open>Constants of riscv.h and memlayout.h\<close>

definition PGSIZE :: u64 where [const_defs]: "PGSIZE = 4096"
definition KERNBASE :: u64 where [const_defs]: "KERNBASE = 0x80000000"
definition PHYSTOP :: u64 where [const_defs]: "PHYSTOP = KERNBASE + 128 * 1024 * 1024"

definition PGROUNDUP :: "u64 \<Rightarrow> u64" where
  "PGROUNDUP sz = (sz + PGSIZE - 1) AND NOT (PGSIZE - 1)"

definition PGROUNDDOWN :: "u64 \<Rightarrow> u64" where
  "PGROUNDDOWN a = a AND NOT (PGSIZE - 1)"

subsection \<open>64-bit loads and stores, little-endian\<close>

definition load64 :: "memory \<Rightarrow> u64 \<Rightarrow> u64" where
  "load64 m a = foldr (\<lambda>i acc. (ucast (m (a + of_nat i)) :: u64) OR push_bit 8 acc) [0..<8] 0"

definition store64 :: "memory \<Rightarrow> u64 \<Rightarrow> u64 \<Rightarrow> memory" where
  "store64 m a v = fold (\<lambda>i m. m(a + of_nat i := ucast (drop_bit (8 * i) v))) [0..<8] m"

lemma store64_apply:
  "store64 m a v x = (if unat (x - a) < 8 then ucast (drop_bit (8 * unat (x - a)) v) else m x)"
proof -
  have "fold (\<lambda>i m. m(a + of_nat i := ucast (drop_bit (8 * i) v))) [0..<k] m x =
      (if unat (x - a) < k then ucast (drop_bit (8 * unat (x - a)) v) else m x)"
    if "k \<le> 8" for k
    using that
  proof (induction k)
    case (Suc k)
    then have "x = a + of_nat k \<longleftrightarrow> unat (x - a) = k"
      by (intro offset_eq_iff) simp
    with Suc show ?case by (auto simp: less_Suc_eq)
  qed simp
  then show ?thesis by (simp add: store64_def)
qed

lemma load64_cong:
  assumes "\<And>i. i < 8 \<Longrightarrow> m (a + of_nat i) = m' (a + of_nat i)"
  shows "load64 m a = load64 m' a"
  unfolding load64_def by (rule foldr_cong) (use assms in auto)

lemma load64_store64_same [simp]: "load64 (store64 m a v) a = v"
proof -
  have "store64 m a v (a + of_nat i) = ucast (drop_bit (8 * i) v)" if "i < 8" for i
    using that by (simp add: store64_apply unat_of_nat_small)
  then have "load64 (store64 m a v) a =
      foldr (\<lambda>i acc. (ucast (ucast (drop_bit (8 * i) v) :: u8) :: u64) OR push_bit 8 acc) [0..<8] 0"
    unfolding load64_def by (intro foldr_cong) auto
  then show ?thesis using take_bit_length_eq [of v] by (simp add: foldr_le_bytes)
qed

lemma load64_store64_other:
  assumes "\<And>i. i < 8 \<Longrightarrow> \<not> unat (a + of_nat i - b) < 8"
  shows "load64 (store64 m b v) a = load64 m a"
  using assms by (intro load64_cong) (simp add: store64_apply)

subsection \<open>Pages\<close>

definition aligned :: "u64 \<Rightarrow> bool" where
  "aligned a \<longleftrightarrow> a mod PGSIZE = 0"

definition in_page :: "u64 \<Rightarrow> u64 \<Rightarrow> bool" where
  "in_page p a \<longleftrightarrow> unat (a - p) < 4096"

lemma PGROUNDDOWN_eq: "PGROUNDDOWN a = a - a mod PGSIZE"
proof -
  have "PGSIZE - 1 = (mask 12 :: u64)" by (simp add: PGSIZE_def mask_eq_exp_minus_1)
  moreover have "a AND NOT (mask 12) = push_bit 12 (drop_bit 12 a)"
    by (rule bit_word_eqI) (auto simp: bit_simps)
  moreover have "push_bit 12 (drop_bit 12 a) = a - a mod 2 ^ 12"
    using bits_ident [of 12 a] by (simp add: take_bit_eq_mod eq_diff_eq)
  ultimately show ?thesis by (simp add: PGROUNDDOWN_def PGSIZE_def)
qed

lemma unat_PGSIZE [simp]: "unat PGSIZE = 4096"
  by (simp add: PGSIZE_def)

lemma aligned_iff: "aligned a \<longleftrightarrow> 4096 dvd unat a"
  by (simp add: aligned_def word_unat_eq_iff unat_mod dvd_eq_mod_eq_0)

lemma unat_PGROUNDDOWN: "unat (PGROUNDDOWN a) = unat a - unat a mod 4096"
proof -
  have "a mod PGSIZE \<le> a" by (simp add: word_le_nat_alt unat_mod)
  then show ?thesis by (simp add: PGROUNDDOWN_eq unat_sub unat_mod)
qed

lemma aligned_PGROUNDDOWN [simp]: "aligned (PGROUNDDOWN a)"
  by (simp add: aligned_iff unat_PGROUNDDOWN)

lemma in_page_iff:
  assumes "aligned p"
  shows "in_page p a \<longleftrightarrow> PGROUNDDOWN a = p"
proof -
  obtain k where p: "unat p = 4096 * k" using assms by (auto simp: aligned_iff)
  have a: "unat a = 4096 * (unat a div 4096) + unat a mod 4096" by simp
  have "4096 * k < 2 ^ 64" using unat_bound [of p] p by simp
  then have "k < 2 ^ 52" by simp
  then have "4096 * k + 4096 \<le> 2 ^ 64" by simp
  then have "in_page p a \<longleftrightarrow> 4096 * k \<le> unat a \<and> unat a < 4096 * k + 4096"
    using p by (auto simp: in_page_def unat_sub_if')
  also have "\<dots> \<longleftrightarrow> unat a div 4096 = k"
    by (auto simp: div_nat_eqI)
  also have "\<dots> \<longleftrightarrow> unat (PGROUNDDOWN a) = unat p"
    using a p by (simp add: unat_PGROUNDDOWN minus_mod_eq_mult_div)
  finally show ?thesis by (simp add: word_unat_eq_iff)
qed

lemma in_page_self [simp]: "in_page p p"
  by (simp add: in_page_def)

lemma pages_disjoint: "aligned p \<Longrightarrow> aligned q \<Longrightarrow> in_page p a \<Longrightarrow> in_page q a \<Longrightarrow> p = q"
  by (simp add: in_page_iff)

lemma in_page_offset: "k < 4096 \<Longrightarrow> in_page p (p + of_nat k)"
  by (simp add: in_page_def unat_of_nat_small)

lemma aligned_add: "aligned a \<Longrightarrow> aligned b \<Longrightarrow> aligned (a + b)"
  by (simp add: aligned_iff unat_word_ariths dvd_mod)

lemma aligned_PGSIZE [simp]: "aligned PGSIZE"
  by (simp add: aligned_iff)

lemma aligned_0 [simp]: "aligned 0"
  by (simp add: aligned_iff)

lemma unat_PGROUNDUP:
  assumes "unat a \<le> 2 ^ 64 - 4096"
  shows "unat (PGROUNDUP a) = (unat a + 4095) div 4096 * 4096"
proof -
  have "PGROUNDUP a = PGROUNDDOWN (a + 4095)" by (simp add: PGROUNDUP_def PGROUNDDOWN_def PGSIZE_def add.commute)
  moreover have "unat (a + 4095) = unat a + 4095" using assms by (simp add: unat_plus_if')
  ultimately show ?thesis by (simp add: unat_PGROUNDDOWN minus_mod_eq_div_mult)
qed

lemma aligned_PGROUNDUP [simp]: "aligned (PGROUNDUP a)"
proof -
  have "PGROUNDUP a = PGROUNDDOWN (a + 4095)" by (simp add: PGROUNDUP_def PGROUNDDOWN_def PGSIZE_def add.commute)
  then show ?thesis by simp
qed

lemma PGROUNDUP_le_iff:
  assumes "unat a \<le> 2 ^ 64 - 4096" and "aligned q"
  shows "PGROUNDUP a \<le> q \<longleftrightarrow> a \<le> q"
proof -
  obtain k where "unat q = 4096 * k" using assms(2) by (auto simp: aligned_iff)
  moreover have "(unat a + 4095) div 4096 \<le> k \<longleftrightarrow> unat a \<le> 4096 * k" by auto
  ultimately show ?thesis
    by (simp add: word_le_nat_alt unat_PGROUNDUP [OF assms(1)])
qed

lemma aligned_step:
  assumes "aligned p" and "aligned q" and "p < q"
  shows "unat p + 4096 \<le> unat q"
proof -
  obtain i j where "unat p = 4096 * i" "unat q = 4096 * j" using assms unfolding aligned_iff by (elim dvdE) auto
  moreover then have "i < j" using assms(3) by (simp add: word_less_nat_alt)
  ultimately show ?thesis by simp
qed

text \<open>An 8-byte cell of a page: a page-table entry, or the link of the free list.\<close>

definition cell :: "u64 \<Rightarrow> nat \<Rightarrow> u64" where
  "cell p i = p + of_nat (8 * i)"

lemma cell_bytes_in_page:
  assumes "i < 512" and "k < 8"
  shows "in_page p (cell p i + of_nat k)"
proof -
  have "cell p i + of_nat k = p + of_nat (8 * i + k)" by (simp add: cell_def)
  then show ?thesis using assms in_page_offset [of "8 * i + k" p] by (simp only:)
qed

subsection \<open>Runs of bytes\<close>

text \<open>Reading and writing a run of bytes, as a \<^verbatim>\<open>memmove\<close> between memory and a kernel buffer does.\<close>

definition read_bytes :: "memory \<Rightarrow> u64 \<Rightarrow> nat \<Rightarrow> u8 list" where
  "read_bytes m a n = map (\<lambda>i. m (a + of_nat i)) [0..<n]"

primrec write_bytes :: "memory \<Rightarrow> u64 \<Rightarrow> u8 list \<Rightarrow> memory" where
  "write_bytes m a [] = m"
| "write_bytes m a (b # bs) = write_bytes (m(a := b)) (a + 1) bs"

lemma length_read_bytes [simp]: "length (read_bytes m a n) = n"
  by (simp add: read_bytes_def)

lemma write_bytes_apply:
  assumes "length bs \<le> 2 ^ 64"
  shows "write_bytes m a bs x = (if unat (x - a) < length bs then bs ! unat (x - a) else m x)"
  using assms
proof (induction bs arbitrary: m a)
  case (Cons b bs)
  have IH: "write_bytes (m(a := b)) (a + 1) bs x =
      (if unat (x - (a + 1)) < length bs then bs ! unat (x - (a + 1)) else (m(a := b)) x)"
    using Cons.prems by (intro Cons.IH) auto
  show ?case
  proof (cases "unat (x - a)")
    case 0
    then have "x = a" by (simp add: unat_eq_0)
    moreover have "\<not> unat (a - (a + 1)) < length bs"
      using Cons.prems by (simp add: unat_minus_1)
    ultimately show ?thesis using IH by simp
  next
    case (Suc k)
    then have "unat (x - (a + 1)) = k" "x \<noteq> a" by (auto dest: offset_Suc)
    then show ?thesis using IH Suc by simp
  qed
qed simp

end
