(* ===== verification/Kalloc.thy ===== *)
theory Kalloc
  imports Memory
begin

text \<open>
  \<^verbatim>\<open>kernel/kalloc.c\<close>, the physical page allocator. The free list is threaded through the free pages
  themselves: the first eight bytes of a free page hold the address of the next one. The state is
  physical memory, the head \<^verbatim>\<open>kmem.freelist\<close> and the address of the linker symbol \<^verbatim>\<open>end\<close>, which
  no code changes. The locale \<open>page_allocator\<close> is what the allocator promises to its clients.
\<close>

record kmem =
  mem :: memory
  freelist :: u64
  kend :: u64

definition kfree :: "u64 \<Rightarrow> (kmem, unit) prog" where
  "kfree pa =
     bnd (gets kend) (\<lambda>end_addr.
     if pa mod PGSIZE \<noteq> 0 \<or> pa < end_addr \<or> pa \<ge> PHYSTOP then panic ''kfree''
     else
       andthen (modify (\<lambda>s. s\<lparr>mem := memset (mem s) pa 1 (ucast PGSIZE)\<rparr>))
       (andthen (modify (\<lambda>s. s\<lparr>mem := store64 (mem s) pa (freelist s)\<rparr>))
       (modify (\<lambda>s. s\<lparr>freelist := pa\<rparr>))))"

definition kalloc :: "(kmem, u64) prog" where
  "kalloc =
     bnd (gets freelist) (\<lambda>r.
     andthen
       (if r \<noteq> 0 then modify (\<lambda>s. s\<lparr>freelist := load64 (mem s) r\<rparr>) else ret ())
     (andthen
       (if r \<noteq> 0 then modify (\<lambda>s. s\<lparr>mem := memset (mem s) r 5 (ucast PGSIZE)\<rparr>) else ret ())
     (ret r)))"

text \<open>
  The loop of \<^verbatim>\<open>freerange\<close>, with fuel: it ends after at most \<open>pa_end div PGSIZE\<close> rounds unless
  \<open>p + PGSIZE\<close> wraps around.
\<close>

primrec freerange_loop :: "nat \<Rightarrow> u64 \<Rightarrow> u64 \<Rightarrow> (kmem, unit) prog" where
  "freerange_loop 0 p pa_end = fails (Fault ''freerange: out of fuel'')"
| "freerange_loop (Suc fuel) p pa_end =
     (if p + PGSIZE \<le> pa_end then andthen (kfree p) (freerange_loop fuel (p + PGSIZE) pa_end)
      else ret ())"

definition freerange :: "u64 \<Rightarrow> u64 \<Rightarrow> (kmem, unit) prog" where
  "freerange pa_start pa_end =
     freerange_loop (Suc (unat pa_end div 4096)) (PGROUNDUP pa_start) pa_end"

definition kinit :: "(kmem, unit) prog" where
  "kinit = bnd (gets kend) (\<lambda>end_addr. freerange end_addr PHYSTOP)"

subsection \<open>The contract of a page allocator\<close>

text \<open>
  \<open>free s\<close> is the set of free pages, \<open>content s\<close> the memory, \<open>usable s p\<close> says that \<open>p\<close> is a page
  the allocator manages, and \<open>store f s\<close> is the state after a client's write. The laws: \<open>alloc\<close> takes
  some free page out of the set or returns 0, \<open>release\<close> puts a page back, both leave other pages'
  bytes alone, and a client that writes outside the free pages disturbs nothing.
\<close>

locale page_allocator =
  fixes inv :: "'s \<Rightarrow> bool"
    and free :: "'s \<Rightarrow> u64 set"
    and content :: "'s \<Rightarrow> memory"
    and usable :: "'s \<Rightarrow> u64 \<Rightarrow> bool"
    and store :: "(memory \<Rightarrow> memory) \<Rightarrow> 's \<Rightarrow> 's"
    and alloc :: "('s, u64) prog"
    and release :: "u64 \<Rightarrow> ('s, unit) prog"
  assumes alloc_some:
      "inv s \<Longrightarrow> free s \<noteq> {} \<Longrightarrow>
       wp alloc (\<lambda>p t. inv t \<and> p \<in> free s \<and> free t = free s - {p} \<and> usable t = usable s \<and>
         (\<forall>a. \<not> in_page p a \<longrightarrow> content t a = content s a)) s"
    and alloc_none: "inv s \<Longrightarrow> free s = {} \<Longrightarrow> alloc s = Ok 0 s"
    and release_ok:
      "inv s \<Longrightarrow> usable s p \<Longrightarrow> p \<notin> free s \<Longrightarrow>
       wp (release p) (\<lambda>_ t. inv t \<and> free t = insert p (free s) \<and> usable t = usable s \<and>
         (\<forall>a. \<not> in_page p a \<longrightarrow> content t a = content s a)) s"
    and store_ok:
      "inv s \<Longrightarrow> (\<And>p a. p \<in> free s \<Longrightarrow> in_page p a \<Longrightarrow> f (content s) a = content s a) \<Longrightarrow>
       inv (store f s) \<and> free (store f s) = free s \<and> usable (store f s) = usable s \<and>
       content (store f s) = f (content s)"
    and free_usable: "inv s \<Longrightarrow> p \<in> free s \<Longrightarrow> usable s p"
    and usable_page: "inv s \<Longrightarrow> usable s p \<Longrightarrow> aligned p \<and> p \<noteq> 0"
begin

text \<open>Allocation either hands out a page that was free, or returns 0 and changes nothing.\<close>

lemma alloc_cases:
  assumes "inv s"
  shows "wp alloc (\<lambda>p t. inv t \<and> usable t = usable s \<and>
     (if p = 0 then t = s \<and> free s = {}
      else p \<in> free s \<and> free t = free s - {p} \<and>
        (\<forall>a. \<not> in_page p a \<longrightarrow> content t a = content s a))) s"
proof (cases "free s = {}")
  case True
  then show ?thesis using assms by (simp add: wp_def alloc_none)
next
  case False
  from alloc_some [OF assms False] show ?thesis
    by (rule wp_mono) (use assms free_usable usable_page in auto)
qed

text \<open>Allocating a page and giving it back restores the free set.\<close>

lemma alloc_release:
  assumes "inv s" and "free s \<noteq> {}"
  shows "wp (bnd alloc release) (\<lambda>_ t. inv t \<and> free t = free s) s"
  unfolding wp_bnd
proof (rule wp_mono [OF alloc_some [OF assms]], elim conjE)
  fix p t
  assume t: "inv t" "p \<in> free s" "free t = free s - {p}" "usable t = usable s"
  then have p: "usable t p" "p \<notin> free t" using assms(1) free_usable by simp_all
  show "wp (release p) (\<lambda>_ u. inv u \<and> free u = free s) t"
    by (rule wp_mono [OF release_ok [OF t(1) p]]) (use t in auto)
qed

text \<open>Two allocations in a row never return the same page.\<close>

lemma alloc_distinct:
  assumes "inv s"
  shows "wp (bnd alloc (\<lambda>p. bnd alloc (\<lambda>q. ret (p, q)))) (\<lambda>(p, q) _. p \<noteq> 0 \<longrightarrow> p \<noteq> q) s"
  unfolding wp_bnd
proof (rule wp_mono [OF alloc_cases [OF assms]], elim conjE)
  fix p t
  assume t: "inv t" "usable t = usable s"
    "if p = 0 then t = s \<and> free s = {}
     else p \<in> free s \<and> free t = free s - {p} \<and> (\<forall>a. \<not> in_page p a \<longrightarrow> content t a = content s a)"
  from alloc_cases [OF t(1)]
  show "wp alloc (\<lambda>q. wp (ret (p, q)) (\<lambda>(p, q) _. p \<noteq> 0 \<longrightarrow> p \<noteq> q)) t"
    by (rule wp_mono) (use t in \<open>auto simp: wp_ret split: if_splits\<close>)
qed

end

subsection \<open>The free list\<close>

text \<open>\<open>chain m h ps\<close>: following the links from \<open>h\<close> visits exactly the pages \<open>ps\<close> and ends at 0.\<close>

primrec chain :: "memory \<Rightarrow> u64 \<Rightarrow> u64 list \<Rightarrow> bool" where
  "chain m h [] \<longleftrightarrow> h = 0"
| "chain m h (p # ps) \<longleftrightarrow> h = p \<and> p \<noteq> 0 \<and> chain m (load64 m p) ps"

definition page_ok :: "kmem \<Rightarrow> u64 \<Rightarrow> bool" where
  "page_ok s p \<longleftrightarrow> aligned p \<and> kend s \<le> p \<and> p < PHYSTOP"

definition free_is :: "kmem \<Rightarrow> u64 list \<Rightarrow> bool" where
  "free_is s ps \<longleftrightarrow> chain (mem s) (freelist s) ps \<and> distinct ps \<and> (\<forall>p \<in> set ps. page_ok s p) \<and> 0 < kend s"

definition kmem_inv :: "kmem \<Rightarrow> bool" where
  "kmem_inv s \<longleftrightarrow> (\<exists>ps. free_is s ps)"

definition free_pages :: "kmem \<Rightarrow> u64 set" where
  "free_pages s = {p. \<exists>ps. free_is s ps \<and> p \<in> set ps}"

lemma chain_unique: "chain m h ps \<Longrightarrow> chain m h qs \<Longrightarrow> ps = qs"
proof (induction ps arbitrary: h qs)
  case Nil
  then show ?case by (cases qs) auto
next
  case (Cons p ps)
  then show ?case by (cases qs) auto
qed

lemma free_pages_eq: "free_is s ps \<Longrightarrow> free_pages s = set ps"
  unfolding free_pages_def free_is_def using chain_unique by blast

lemma load64_page_cong:
  assumes "\<And>a. in_page p a \<Longrightarrow> m a = m' a"
  shows "load64 m p = load64 m' p"
proof (rule load64_cong)
  fix i :: nat assume "i < 8"
  then show "m (p + of_nat i) = m' (p + of_nat i)"
    using assms in_page_offset [of i p] by simp
qed

lemma chain_cong:
  assumes "\<And>p a. p \<in> set ps \<Longrightarrow> in_page p a \<Longrightarrow> m a = m' a"
  shows "chain m h ps \<longleftrightarrow> chain m' h ps"
  using assms
proof (induction ps arbitrary: h)
  case (Cons p ps)
  have "load64 m p = load64 m' p"
    by (rule load64_page_cong) (use Cons.prems in auto)
  moreover have "chain m (load64 m' p) ps \<longleftrightarrow> chain m' (load64 m' p) ps"
    by (rule Cons.IH) (use Cons.prems in auto)
  ultimately show ?case by simp
qed simp

lemma memset_page: "memset m p c (ucast PGSIZE) a = (if in_page p a then ucast c else m a)"
  by (simp add: memset_apply in_page_def PGSIZE_def)

lemma store64_outside: "\<not> in_page p a \<Longrightarrow> store64 m p v a = m a"
  by (simp add: store64_apply in_page_def)

subsection \<open>What kfree and kalloc do\<close>

lemma kfree_panics: "\<not> page_ok s pa \<Longrightarrow> kfree pa s = Err (Panic ''kfree'') s"
  unfolding page_ok_def aligned_def by (simp add: kfree_def run_simps) (metis not_le)

lemma kfree_run:
  assumes "page_ok s pa"
  shows "kfree pa s = Ok () (s\<lparr>mem := store64 (memset (mem s) pa 1 (ucast PGSIZE)) pa (freelist s), freelist := pa\<rparr>)"
  using assms by (simp add: kfree_def run_simps page_ok_def aligned_def not_less not_le)

lemma kfree_free_is:
  assumes "free_is s ps" and "page_ok s pa" and "pa \<notin> set ps"
  shows "wp (kfree pa) (\<lambda>_ t. free_is t (pa # ps) \<and> kend t = kend s \<and>
     (\<forall>a. \<not> in_page pa a \<longrightarrow> mem t a = mem s a)) s"
proof -
  let ?m = "store64 (memset (mem s) pa 1 (ucast PGSIZE)) pa (freelist s)"
  let ?t = "s\<lparr>mem := ?m, freelist := pa\<rparr>"
  have frame: "?m a = mem s a" if "\<not> in_page pa a" for a
    using that by (simp add: store64_outside memset_page)
  have "aligned pa" and ok: "\<forall>p \<in> set ps. aligned p"
    using assms by (auto simp: page_ok_def free_is_def)
  then have "?m a = mem s a" if "p \<in> set ps" "in_page p a" for p a
    using that assms(3) by (intro frame) (metis pages_disjoint)
  then have "chain ?m (freelist s) ps"
    using assms(1) chain_cong [of ps ?m "mem s"] by (simp add: free_is_def)
  moreover have "pa \<noteq> 0" using assms by (auto simp: free_is_def page_ok_def)
  ultimately have "free_is ?t (pa # ps)"
    using assms by (auto simp: free_is_def page_ok_def)
  then show ?thesis using frame by (simp add: wp_def kfree_run [OF assms(2)])
qed

lemma kalloc_empty: "free_is s [] \<Longrightarrow> kalloc s = Ok 0 s"
  by (simp add: kalloc_def run_simps free_is_def)

lemma kalloc_run:
  assumes "freelist s \<noteq> 0"
  shows "kalloc s = Ok (freelist s)
    (s\<lparr>freelist := load64 (mem s) (freelist s), mem := memset (mem s) (freelist s) 5 (ucast PGSIZE)\<rparr>)"
  using assms by (simp add: kalloc_def run_simps)

lemma kalloc_free_is:
  assumes "free_is s (p # ps)"
  shows "wp kalloc (\<lambda>r t. r = p \<and> free_is t ps \<and> kend t = kend s \<and>
     (\<forall>a. mem t a = (if in_page p a then 5 else mem s a))) s"
proof -
  have h: "freelist s = p" "p \<noteq> 0" using assms by (auto simp: free_is_def)
  let ?m = "memset (mem s) p 5 (ucast PGSIZE)"
  have "?m a = mem s a" if "q \<in> set ps" "in_page q a" for q a
  proof -
    have "q \<noteq> p" "aligned p" "aligned q" using that assms by (auto simp: free_is_def page_ok_def)
    then have "\<not> in_page p a" using that(2) pages_disjoint by blast
    then show ?thesis by (simp add: memset_page)
  qed
  then have "chain ?m (load64 (mem s) p) ps"
    using assms chain_cong [of ps ?m "mem s"] by (simp add: free_is_def)
  then have "free_is (s\<lparr>freelist := load64 (mem s) p, mem := ?m\<rparr>) ps"
    using assms by (auto simp: free_is_def page_ok_def)
  then show ?thesis
    using h by (auto simp: wp_def kalloc_run memset_page)
qed

definition mem_store :: "(memory \<Rightarrow> memory) \<Rightarrow> kmem \<Rightarrow> kmem" where
  "mem_store f s = s\<lparr>mem := f (mem s)\<rparr>"

lemma mem_store_free_is:
  assumes "free_is s ps" and "\<And>p a. p \<in> set ps \<Longrightarrow> in_page p a \<Longrightarrow> f (mem s) a = mem s a"
  shows "free_is (mem_store f s) ps"
  using assms chain_cong [of ps "f (mem s)" "mem s"]
  by (auto simp: free_is_def page_ok_def mem_store_def)

text \<open>The code keeps the contract.\<close>

interpretation ka: page_allocator kmem_inv free_pages mem page_ok mem_store kalloc kfree
proof unfold_locales
  fix s :: kmem assume "kmem_inv s" and ne: "free_pages s \<noteq> {}"
  then obtain p ps where ps: "free_is s (p # ps)"
    by (metis free_pages_eq kmem_inv_def list.exhaust list.set(1))
  then have fp: "free_pages s = insert p (set ps)" "p \<notin> set ps"
    using free_pages_eq [OF ps] by (auto simp: free_is_def)
  show "wp kalloc (\<lambda>p t. kmem_inv t \<and> p \<in> free_pages s \<and> free_pages t = free_pages s - {p} \<and>
      page_ok t = page_ok s \<and> (\<forall>a. \<not> in_page p a \<longrightarrow> mem t a = mem s a)) s"
    by (rule wp_mono [OF kalloc_free_is [OF ps]])
      (use fp in \<open>auto simp: kmem_inv_def free_pages_eq page_ok_def fun_eq_iff\<close>)
next
  fix s :: kmem assume "kmem_inv s" and "free_pages s = {}"
  then have "free_is s []" by (metis free_pages_eq kmem_inv_def set_empty)
  then show "kalloc s = Ok 0 s" by (rule kalloc_empty)
next
  fix s p assume "kmem_inv s" and p: "page_ok s p" "p \<notin> free_pages s"
  then obtain ps where ps: "free_is s ps" by (auto simp: kmem_inv_def)
  with p have "p \<notin> set ps" by (simp add: free_pages_eq)
  then show "wp (kfree p) (\<lambda>_ t. kmem_inv t \<and> free_pages t = insert p (free_pages s) \<and>
      page_ok t = page_ok s \<and> (\<forall>a. \<not> in_page p a \<longrightarrow> mem t a = mem s a)) s"
    by (rule_tac wp_mono [OF kfree_free_is [OF ps p(1)]])
      (use ps in \<open>auto simp: kmem_inv_def free_pages_eq page_ok_def fun_eq_iff\<close>)
next
  fix s :: kmem and f
  assume "kmem_inv s" and f: "\<And>p a. p \<in> free_pages s \<Longrightarrow> in_page p a \<Longrightarrow> f (mem s) a = mem s a"
  then obtain ps where ps: "free_is s ps" by (auto simp: kmem_inv_def)
  then have "free_is (mem_store f s) ps" using f by (intro mem_store_free_is) (auto simp: free_pages_eq)
  with ps show "kmem_inv (mem_store f s) \<and> free_pages (mem_store f s) = free_pages s \<and>
      page_ok (mem_store f s) = page_ok s \<and> mem (mem_store f s) = f (mem s)"
    by (auto simp: kmem_inv_def free_pages_eq page_ok_def fun_eq_iff mem_store_def)
next
  fix s p assume "kmem_inv s" and "p \<in> free_pages s"
  then show "page_ok s p" by (auto simp: kmem_inv_def free_pages_eq) (auto simp: free_is_def)
next
  fix s p assume "kmem_inv s" and "page_ok s p"
  then show "aligned p \<and> p \<noteq> 0" by (auto simp: kmem_inv_def free_is_def page_ok_def)
qed

subsection \<open>Initialisation\<close>

lemma freerange_loop_spec:
  assumes "free_is s ps" and "aligned p" and "kend s \<le> p" and "pa_end \<le> PHYSTOP"
    and "\<forall>q \<in> set ps. q < p" and "unat pa_end < unat p + 4096 * fuel" and "p \<le> pa_end"
  shows "wp (freerange_loop fuel p pa_end) (\<lambda>_ t. \<exists>qs. free_is t qs \<and> kend t = kend s \<and>
     set qs = set ps \<union> {q. aligned q \<and> p \<le> q \<and> unat q + 4096 \<le> unat pa_end}) s"
  using assms
proof (induction fuel arbitrary: s ps p)
  case 0
  then show ?case by (simp add: word_le_nat_alt)
next
  case (Suc fuel)
  have top: "unat pa_end \<le> unat PHYSTOP" using Suc.prems(4) by (simp add: word_le_nat_alt)
  then have pa_end: "unat pa_end \<le> 2 ^ 63" by (simp add: const_defs)
  then have p: "unat p \<le> 2 ^ 63" using Suc.prems(7) by (simp add: word_le_nat_alt)
  then have p': "unat (p + PGSIZE) = unat p + 4096" by (simp add: unat_plus_if')
  have le: "p + PGSIZE \<le> pa_end \<longleftrightarrow> unat p + 4096 \<le> unat pa_end"
    by (simp add: word_le_nat_alt p')
  have split: "{q. aligned q \<and> p \<le> q \<and> unat q + 4096 \<le> unat pa_end} =
      (if unat p + 4096 \<le> unat pa_end then insert p {q. aligned q \<and> p + PGSIZE \<le> q \<and> unat q + 4096 \<le> unat pa_end}
       else {})"
  proof -
    have "p \<le> q \<longleftrightarrow> q = p \<or> p + PGSIZE \<le> q" if "aligned q" for q
    proof (cases "p < q")
      case True
      then show ?thesis using aligned_step [OF Suc.prems(2) that] p' by (simp add: word_le_nat_alt)
    next
      case False
      then show ?thesis using p' by (auto simp: word_le_nat_alt word_less_nat_alt word_unat_eq_iff)
    qed
    then show ?thesis using Suc.prems(2) by (auto simp: word_le_nat_alt)
  qed
  show ?case
  proof (cases "p + PGSIZE \<le> pa_end")
    case True
    have ok: "page_ok s p"
      using Suc.prems True le top by (simp add: page_ok_def word_less_nat_alt)
    have "p \<notin> set ps" using Suc.prems(5) by auto
    from kfree_free_is [OF Suc.prems(1) ok this]
    show ?thesis
    proof (simp add: True wp_andthen, elim wp_mono conjE)
      fix t assume t: "free_is t (p # ps)" "kend t = kend s"
      have lt: "p < p + PGSIZE" by (simp add: word_less_nat_alt p')
      have "wp (freerange_loop fuel (p + PGSIZE) pa_end) (\<lambda>_ u. \<exists>qs. free_is u qs \<and> kend u = kend t \<and>
         set qs = set (p # ps) \<union> {q. aligned q \<and> p + PGSIZE \<le> q \<and> unat q + 4096 \<le> unat pa_end}) t"
        using Suc.prems t True lt p' by (intro Suc.IH) (auto intro: aligned_add)
      then show "wp (freerange_loop fuel (p + PGSIZE) pa_end) (\<lambda>_ u. \<exists>qs. free_is u qs \<and> kend u = kend s \<and>
         set qs = set ps \<union> {q. aligned q \<and> p \<le> q \<and> unat q + 4096 \<le> unat pa_end}) t"
        using True le t(2) by (simp add: split)
    qed
  next
    case False
    then show ?thesis using Suc.prems(1) le by (auto simp: wp_ret split)
  qed
qed

text \<open>
  C11: starting from an empty free list, \<^verbatim>\<open>kinit()\<close> returns (no \<^verbatim>\<open>kfree\<close> panics) with a well-formed
  free list that holds exactly the aligned pages from \<^verbatim>\<open>end\<close> to \<^verbatim>\<open>PHYSTOP\<close>, each of them once.
\<close>

theorem kinit_frees_all:
  assumes "freelist s = 0" and "0 < kend s" and "kend s \<le> PHYSTOP"
  shows "wp kinit (\<lambda>_ t. \<exists>ps. free_is t ps \<and> set ps = {p. page_ok s p}) s"
proof -
  have e: "unat (kend s) \<le> 2 ^ 64 - 4096" "unat (kend s) \<le> unat PHYSTOP"
    using assms(3) by (simp_all add: word_le_nat_alt const_defs)
  have top: "aligned PHYSTOP" by (simp add: aligned_iff const_defs)
  then have up: "PGROUNDUP (kend s) \<le> PHYSTOP" using assms(3) PGROUNDUP_le_iff [OF e(1)] by simp
  have "free_is s []" using assms by (simp add: free_is_def)
  then have "wp (freerange_loop (Suc (unat PHYSTOP div 4096)) (PGROUNDUP (kend s)) PHYSTOP)
     (\<lambda>_ t. \<exists>qs. free_is t qs \<and> kend t = kend s \<and> set qs = set [] \<union>
       {q. aligned q \<and> PGROUNDUP (kend s) \<le> q \<and> unat q + 4096 \<le> unat PHYSTOP}) s"
    using up e PGROUNDUP_le_iff [OF e(1) aligned_PGROUNDUP, of "kend s"]
    by (intro freerange_loop_spec) auto
  moreover have "aligned q \<Longrightarrow> unat q + 4096 \<le> unat PHYSTOP \<longleftrightarrow> q < PHYSTOP" for q
    using aligned_step [OF _ top, of q] by (auto simp: word_less_nat_alt)
  ultimately show ?thesis
    unfolding kinit_def wp_bnd wp_gets freerange_def page_ok_def
    by (elim wp_mono) (auto simp: PGROUNDUP_le_iff [OF e(1)] cong: conj_cong)
qed

theorem kinit_frees_all_witness:
  "wp kinit (\<lambda>_ t. \<exists>ps. free_is t ps \<and>
     set ps = {p. page_ok \<lparr>mem = \<lambda>_. 0, freelist = 0, kend = 0x80021000\<rparr> p})
   \<lparr>mem = \<lambda>_. 0, freelist = 0, kend = 0x80021000\<rparr>"
  by (rule kinit_frees_all) (simp_all add: const_defs)

text \<open>
  from any well-formed allocator state, a page that \<^verbatim>\<open>kalloc\<close> hands out is different from the next
  one it hands out: no page is given to two owners.
\<close>

theorem kalloc_never_shares:
  assumes "kmem_inv s"
  shows "wp (bnd kalloc (\<lambda>p. bnd kalloc (\<lambda>q. ret (p, q)))) (\<lambda>(p, q) _. p \<noteq> 0 \<longrightarrow> p \<noteq> q) s"
  by (rule ka.alloc_distinct [OF assms])

theorem kalloc_never_shares_witness:
  "wp (bnd kalloc (\<lambda>p. bnd kalloc (\<lambda>q. ret (p, q)))) (\<lambda>(p, q) _. p \<noteq> 0 \<longrightarrow> p \<noteq> q)
   \<lparr>mem = \<lambda>_. 0, freelist = 0x80022000, kend = 0x80021000\<rparr>"
proof (rule kalloc_never_shares)
  have "load64 (\<lambda>_. 0) 0x80022000 = 0" by (simp add: load64_def upt_rec)
  then have "free_is \<lparr>mem = \<lambda>_. 0, freelist = 0x80022000, kend = 0x80021000\<rparr> [0x80022000]"
    by (simp add: free_is_def page_ok_def aligned_def const_defs)
  then show "kmem_inv \<lparr>mem = \<lambda>_. 0, freelist = 0x80022000, kend = 0x80021000\<rparr>"
    unfolding kmem_inv_def ..
qed

end
