(* ===== verification/Vm.thy ===== *)
theory Vm
  imports Kalloc
begin

text \<open>
  \<^verbatim>\<open>kernel/vm.c\<close>: the Sv39 page tables. A page table lives in physical memory, three levels of
  4096-byte pages of 512 entries each; \<^verbatim>\<open>pagetable_t\<close> is the address of the root page and \<^verbatim>\<open>pte_t *\<close>
  the address of an entry, with 0 for the null pointer, as in the code. All operations work on the
  memory of the page allocator.
\<close>

subsection \<open>Page-table entries (riscv.h)\<close>

definition PTE_V :: u64 where [const_defs]: "PTE_V = 1"
definition PTE_R :: u64 where [const_defs]: "PTE_R = 2"
definition PTE_W :: u64 where [const_defs]: "PTE_W = 4"
definition PTE_X :: u64 where [const_defs]: "PTE_X = 8"
definition PTE_U :: u64 where [const_defs]: "PTE_U = 16"

definition PA2PTE :: "u64 \<Rightarrow> u64" where
  "PA2PTE pa = push_bit 10 (drop_bit 12 pa)"

definition PTE2PA :: "u64 \<Rightarrow> u64" where
  "PTE2PA pte = push_bit 12 (drop_bit 10 pte)"

definition PTE_FLAGS :: "u64 \<Rightarrow> u64" where
  "PTE_FLAGS pte = pte AND 0x3FF"

definition PX :: "nat \<Rightarrow> u64 \<Rightarrow> u64" where
  "PX level va = drop_bit (12 + 9 * level) va AND 0x1FF"

definition MAXVA :: u64 where [const_defs]: "MAXVA = push_bit (9 + 9 + 9 + 12 - 1) 1"
definition TRAMPOLINE :: u64 where [const_defs]: "TRAMPOLINE = MAXVA - PGSIZE"
definition TRAPFRAME :: u64 where [const_defs]: "TRAPFRAME = TRAMPOLINE - PGSIZE"

abbreviation load_pte :: "u64 \<Rightarrow> (kmem, u64) prog" where
  "load_pte a \<equiv> gets (\<lambda>s. load64 (mem s) a)"

abbreviation store_pte :: "u64 \<Rightarrow> u64 \<Rightarrow> (kmem, unit) prog" where
  "store_pte a v \<equiv> modify (mem_store (\<lambda>m. store64 m a v))"

abbreviation zero_page :: "u64 \<Rightarrow> (kmem, unit) prog" where
  "zero_page p \<equiv> modify (mem_store (\<lambda>m. memset m p 0 (ucast PGSIZE)))"

subsection \<open>Walking and mapping\<close>

text \<open>\<open>walk_loop (Suc l)\<close> is the round of the \<^verbatim>\<open>for\<close> loop with \<open>level = Suc l\<close>.\<close>

fun walk_loop :: "nat \<Rightarrow> u64 \<Rightarrow> u64 \<Rightarrow> bool \<Rightarrow> (kmem, u64) prog" where
  "walk_loop 0 pagetable va alloc = ret (pagetable + 8 * PX 0 va)"
| "walk_loop (Suc l) pagetable va alloc =
     (let pte = pagetable + 8 * PX (Suc l) va in
      bnd (load_pte pte) (\<lambda>v.
      if v AND PTE_V \<noteq> 0 then walk_loop l (PTE2PA v) va alloc
      else if \<not> alloc then ret 0
      else bnd kalloc (\<lambda>pagetable'.
        if pagetable' = 0 then ret 0
        else andthen (zero_page pagetable')
          (andthen (store_pte pte (PA2PTE pagetable' OR PTE_V))
          (walk_loop l pagetable' va alloc)))))"

definition walk :: "u64 \<Rightarrow> u64 \<Rightarrow> bool \<Rightarrow> (kmem, u64) prog" where
  "walk pagetable va alloc =
     (if va \<ge> MAXVA then panic ''walk'' else walk_loop 2 pagetable va alloc)"

definition walkaddr :: "u64 \<Rightarrow> u64 \<Rightarrow> (kmem, u64) prog" where
  "walkaddr pagetable va =
     (if va \<ge> MAXVA then ret 0
      else bnd (walk pagetable va False) (\<lambda>pte.
        if pte = 0 then ret 0
        else bnd (load_pte pte) (\<lambda>v.
          if v AND PTE_V = 0 then ret 0
          else if v AND PTE_U = 0 then ret 0
          else ret (PTE2PA v))))"

text \<open>
  The \<^verbatim>\<open>for(;;)\<close> loop of \<^verbatim>\<open>mappages\<close> ends when \<open>a = last\<close>; since \<open>last\<close> lies \<open>size - PGSIZE\<close> bytes
  above \<open>va\<close> and both are page aligned, \<open>size div PGSIZE\<close> rounds are enough fuel.
\<close>

primrec mappages_loop :: "nat \<Rightarrow> u64 \<Rightarrow> u64 \<Rightarrow> u64 \<Rightarrow> u64 \<Rightarrow> u64 \<Rightarrow> (kmem, int) prog" where
  "mappages_loop 0 pagetable a last' pa perm = fails (Fault ''mappages: out of fuel'')"
| "mappages_loop (Suc fuel) pagetable a last' pa perm =
     bnd (walk pagetable a True) (\<lambda>pte.
     if pte = 0 then ret (- 1)
     else bnd (load_pte pte) (\<lambda>v.
       if v AND PTE_V \<noteq> 0 then panic ''mappages: remap''
       else andthen (store_pte pte (PA2PTE pa OR perm OR PTE_V))
         (if a = last' then ret 0
          else mappages_loop fuel pagetable (a + PGSIZE) last' (pa + PGSIZE) perm)))"

definition mappages :: "u64 \<Rightarrow> u64 \<Rightarrow> u64 \<Rightarrow> u64 \<Rightarrow> u64 \<Rightarrow> (kmem, int) prog" where
  "mappages pagetable va size' pa perm =
     (if va mod PGSIZE \<noteq> 0 then panic ''mappages: va not aligned''
      else if size' mod PGSIZE \<noteq> 0 then panic ''mappages: size not aligned''
      else if size' = 0 then panic ''mappages: size''
      else mappages_loop (unat size' div 4096) pagetable va (va + size' - PGSIZE) pa perm)"

definition kvmmap :: "u64 \<Rightarrow> u64 \<Rightarrow> u64 \<Rightarrow> u64 \<Rightarrow> u64 \<Rightarrow> (kmem, unit) prog" where
  "kvmmap kpgtbl va pa sz perm =
     bnd (mappages kpgtbl va sz pa perm) (\<lambda>r. if r \<noteq> 0 then panic ''kvmmap'' else ret ())"

text \<open>\<open>for(a = va; a < va + npages*PGSIZE; a += PGSIZE)\<close>: at most \<open>npages\<close> rounds.\<close>

primrec uvmunmap_loop :: "nat \<Rightarrow> u64 \<Rightarrow> u64 \<Rightarrow> u64 \<Rightarrow> bool \<Rightarrow> (kmem, unit) prog" where
  "uvmunmap_loop 0 pagetable a stop do_free = fails (Fault ''uvmunmap: out of fuel'')"
| "uvmunmap_loop (Suc fuel) pagetable a stop do_free =
     (if a < stop then
        bnd (walk pagetable a False) (\<lambda>pte.
        if pte = 0 then panic ''uvmunmap: walk''
        else bnd (load_pte pte) (\<lambda>v.
          if v AND PTE_V = 0 then panic ''uvmunmap: not mapped''
          else if PTE_FLAGS v = PTE_V then panic ''uvmunmap: not a leaf''
          else andthen (if do_free then kfree (PTE2PA v) else ret ())
            (andthen (store_pte pte 0)
            (uvmunmap_loop fuel pagetable (a + PGSIZE) stop do_free))))
      else ret ())"

definition uvmunmap :: "u64 \<Rightarrow> u64 \<Rightarrow> u64 \<Rightarrow> bool \<Rightarrow> (kmem, unit) prog" where
  "uvmunmap pagetable va npages do_free =
     (if va mod PGSIZE \<noteq> 0 then panic ''uvmunmap: not aligned''
      else uvmunmap_loop (Suc (unat npages)) pagetable va (va + npages * PGSIZE) do_free)"

definition uvmcreate :: "(kmem, u64) prog" where
  "uvmcreate = bnd kalloc (\<lambda>pagetable.
     if pagetable = 0 then ret 0 else andthen (zero_page pagetable) (ret pagetable))"

definition uvmfirst :: "u64 \<Rightarrow> u8 list \<Rightarrow> u32 \<Rightarrow> (kmem, unit) prog" where
  "uvmfirst pagetable src sz =
     (if ucast sz \<ge> PGSIZE then panic ''uvmfirst: more than a page''
      else bnd kalloc (\<lambda>mem'.
        andthen (zero_page mem')
        (bnd (mappages pagetable 0 PGSIZE mem' (PTE_W OR PTE_R OR PTE_X OR PTE_U)) (\<lambda>_.
        modify (mem_store (\<lambda>m. write_bytes m mem' (take (unat sz) src)))))))"

subsection \<open>Growing, shrinking, freeing\<close>

definition uvmdealloc :: "u64 \<Rightarrow> u64 \<Rightarrow> u64 \<Rightarrow> (kmem, u64) prog" where
  "uvmdealloc pagetable oldsz newsz =
     (if newsz \<ge> oldsz then ret oldsz
      else andthen
        (if PGROUNDUP newsz < PGROUNDUP oldsz
         then uvmunmap pagetable (PGROUNDUP newsz)
           (scast (ucast ((PGROUNDUP oldsz - PGROUNDUP newsz) div PGSIZE) :: u32)) True
         else ret ())
        (ret newsz))"

primrec uvmalloc_loop :: "nat \<Rightarrow> u64 \<Rightarrow> u64 \<Rightarrow> u64 \<Rightarrow> u64 \<Rightarrow> u64 \<Rightarrow> (kmem, u64) prog" where
  "uvmalloc_loop 0 pagetable a oldsz newsz xperm = fails (Fault ''uvmalloc: out of fuel'')"
| "uvmalloc_loop (Suc fuel) pagetable a oldsz newsz xperm =
     (if a < newsz then
        bnd kalloc (\<lambda>mem'.
        if mem' = 0 then andthen (uvmdealloc pagetable a oldsz) (ret 0)
        else andthen (zero_page mem')
          (bnd (mappages pagetable a PGSIZE mem' (PTE_R OR PTE_U OR xperm)) (\<lambda>r.
          if r \<noteq> 0 then
            andthen (kfree mem') (andthen (uvmdealloc pagetable a oldsz) (ret 0))
          else uvmalloc_loop fuel pagetable (a + PGSIZE) oldsz newsz xperm)))
      else ret newsz)"

definition uvmalloc :: "u64 \<Rightarrow> u64 \<Rightarrow> u64 \<Rightarrow> u64 \<Rightarrow> (kmem, u64) prog" where
  "uvmalloc pagetable oldsz newsz xperm =
     (if newsz < oldsz then ret oldsz
      else uvmalloc_loop (Suc (unat newsz div 4096 + 1)) pagetable (PGROUNDUP oldsz)
        (PGROUNDUP oldsz) newsz xperm)"

text \<open>
  \<^verbatim>\<open>freewalk\<close> recurses into every valid entry without permission bits. The depth argument bounds
  the recursion; a table of three levels needs 3.
\<close>

fun freewalk :: "nat \<Rightarrow> u64 \<Rightarrow> (kmem, unit) prog" where
  "freewalk 0 pagetable = fails (Fault ''freewalk: too deep'')"
| "freewalk (Suc depth) pagetable =
     andthen
       (for_each [0..<512] (\<lambda>i.
          let slot = pagetable + 8 * of_nat i in
          bnd (load_pte slot) (\<lambda>pte.
          if pte AND PTE_V \<noteq> 0 \<and> pte AND (PTE_R OR PTE_W OR PTE_X) = 0
          then andthen (freewalk depth (PTE2PA pte)) (store_pte slot 0)
          else if pte AND PTE_V \<noteq> 0 then panic ''freewalk: leaf''
          else ret ())))
     (kfree pagetable)"

definition uvmfree :: "u64 \<Rightarrow> u64 \<Rightarrow> (kmem, unit) prog" where
  "uvmfree pagetable sz =
     andthen (if sz > 0 then uvmunmap pagetable 0 (PGROUNDUP sz div PGSIZE) True else ret ())
     (freewalk 3 pagetable)"

primrec uvmcopy_loop :: "nat \<Rightarrow> u64 \<Rightarrow> u64 \<Rightarrow> u64 \<Rightarrow> u64 \<Rightarrow> (kmem, int) prog" where
  "uvmcopy_loop 0 old new i sz = fails (Fault ''uvmcopy: out of fuel'')"
| "uvmcopy_loop (Suc fuel) old new i sz =
     (if i < sz then
        bnd (walk old i False) (\<lambda>pte.
        if pte = 0 then panic ''uvmcopy: pte should exist''
        else bnd (load_pte pte) (\<lambda>v.
          if v AND PTE_V = 0 then panic ''uvmcopy: page not present''
          else bnd kalloc (\<lambda>mem'.
            if mem' = 0 then andthen (uvmunmap new 0 (i div PGSIZE) True) (ret (- 1))
            else andthen (modify (mem_store (\<lambda>m. memmove m mem' (PTE2PA v) (ucast PGSIZE))))
              (bnd (mappages new i PGSIZE mem' (PTE_FLAGS v)) (\<lambda>r.
              if r \<noteq> 0 then
                andthen (kfree mem') (andthen (uvmunmap new 0 (i div PGSIZE) True) (ret (- 1)))
              else uvmcopy_loop fuel old new (i + PGSIZE) sz)))))
      else ret 0)"

definition uvmcopy :: "u64 \<Rightarrow> u64 \<Rightarrow> u64 \<Rightarrow> (kmem, int) prog" where
  "uvmcopy old new sz = uvmcopy_loop (Suc (unat sz div 4096 + 1)) old new 0 sz"

definition uvmclear :: "u64 \<Rightarrow> u64 \<Rightarrow> (kmem, unit) prog" where
  "uvmclear pagetable va =
     bnd (walk pagetable va False) (\<lambda>pte.
     if pte = 0 then panic ''uvmclear''
     else bnd (load_pte pte) (\<lambda>v. store_pte pte (v AND NOT PTE_U)))"

subsection \<open>Copying between kernel and user memory\<close>

text \<open>
  The loops of \<^verbatim>\<open>copyout\<close>, \<^verbatim>\<open>copyin\<close> and \<^verbatim>\<open>copyinstr\<close> handle one page per round. The kernel buffer
  is a byte list; \<^verbatim>\<open>copyin\<close> and \<^verbatim>\<open>copyinstr\<close> return, with the C result, the bytes they stored at
  \<^verbatim>\<open>dst\<close>. \<open>chunk\<close> is the length of one round: \<open>n = PGSIZE - (va - va0); if(n > len) n = len;\<close>.
\<close>

definition chunk :: "u64 \<Rightarrow> u64 \<Rightarrow> u64" where
  "chunk va len = (let n = PGSIZE - (va - PGROUNDDOWN va) in if n > len then len else n)"

lemma chunk_bounds:
  assumes "len \<noteq> 0"
  shows "0 < unat (chunk va len)" and "unat (chunk va len) \<le> unat len"
    and "unat (chunk va len) \<le> 4096" and "unat (va - PGROUNDDOWN va) + unat (chunk va len) \<le> 4096"
proof -
  have "unat (va - PGROUNDDOWN va) < 4096"
    using in_page_iff [of "PGROUNDDOWN va" va] by (simp add: in_page_def)
  moreover then have "unat (PGSIZE - (va - PGROUNDDOWN va)) = 4096 - unat (va - PGROUNDDOWN va)"
    by (simp add: unat_sub_if')
  moreover have "0 < unat len" using assms by (simp add: unat_gt_0)
  ultimately show "0 < unat (chunk va len)" "unat (chunk va len) \<le> unat len"
      "unat (chunk va len) \<le> 4096" "unat (va - PGROUNDDOWN va) + unat (chunk va len) \<le> 4096"
    by (auto simp: chunk_def Let_def word_less_nat_alt)
qed

lemma chunk_decreases: "len \<noteq> 0 \<Longrightarrow> unat (len - chunk va len) < unat len"
  using chunk_bounds(1,2) [of len va] by (simp add: unat_sub word_le_nat_alt)

function copyout :: "u64 \<Rightarrow> u64 \<Rightarrow> u8 list \<Rightarrow> u64 \<Rightarrow> (kmem, int) prog" where
  "copyout pagetable dstva src len =
     (if len = 0 then ret 0
      else
        let va0 = PGROUNDDOWN dstva; n = chunk dstva len in
        if va0 \<ge> MAXVA then ret (- 1)
        else bnd (walk pagetable va0 False) (\<lambda>pte.
          if pte = 0 then ret (- 1)
          else bnd (load_pte pte) (\<lambda>v.
            if v AND PTE_V = 0 \<or> v AND PTE_U = 0 \<or> v AND PTE_W = 0 then ret (- 1)
            else
              andthen (modify (mem_store (\<lambda>m.
                write_bytes m (PTE2PA v + (dstva - va0)) (take (unat n) src))))
              (copyout pagetable (va0 + PGSIZE) (drop (unat n) src) (len - n)))))"
  by pat_completeness auto
termination
  by (relation "measure (\<lambda>(_, _, _, len). unat len)") (auto simp: chunk_decreases)

function copyin :: "u64 \<Rightarrow> u64 \<Rightarrow> u64 \<Rightarrow> (kmem, int \<times> u8 list) prog" where
  "copyin pagetable srcva len =
     (if len = 0 then ret (0, [])
      else
        let va0 = PGROUNDDOWN srcva; n = chunk srcva len in
        bnd (walkaddr pagetable va0) (\<lambda>pa0.
        if pa0 = 0 then ret (- 1, [])
        else bnd (gets (\<lambda>s. read_bytes (mem s) (pa0 + (srcva - va0)) (unat n))) (\<lambda>bs.
          bnd (copyin pagetable (va0 + PGSIZE) (len - n)) (\<lambda>(r, rest).
          ret (r, bs @ rest)))))"
  by pat_completeness auto
termination
  by (relation "measure (\<lambda>(_, _, len). unat len)") (auto simp: chunk_decreases)

text \<open>
  The inner loop of \<^verbatim>\<open>copyinstr\<close> copies bytes of one page up to a NUL byte: \<open>upto_nul\<close> is what it
  stores, the NUL included.
\<close>

primrec upto_nul :: "u8 list \<Rightarrow> u8 list" where
  "upto_nul [] = []"
| "upto_nul (b # bs) = (if b = 0 then [0] else b # upto_nul bs)"

function copyinstr :: "u64 \<Rightarrow> u64 \<Rightarrow> u64 \<Rightarrow> (kmem, int \<times> u8 list) prog" where
  "copyinstr pagetable srcva max' =
     (if max' = 0 then ret (- 1, [])
      else
        let va0 = PGROUNDDOWN srcva; n = chunk srcva max' in
        bnd (walkaddr pagetable va0) (\<lambda>pa0.
        if pa0 = 0 then ret (- 1, [])
        else bnd (gets (\<lambda>s. read_bytes (mem s) (pa0 + (srcva - va0)) (unat n))) (\<lambda>bs.
          if 0 \<in> set bs then ret (0, upto_nul bs)
          else bnd (copyinstr pagetable (va0 + PGSIZE) (max' - n)) (\<lambda>(r, rest).
            ret (r, bs @ rest)))))"
  by pat_completeness auto
termination
  by (relation "measure (\<lambda>(_, _, max'). unat max')") (auto simp: chunk_decreases)

declare copyout.simps [simp del] copyin.simps [simp del] copyinstr.simps [simp del]

end
