(* ===== verification/Fs.thy ===== *)
theory Fs
  imports Crash Vm
begin

text \<open>
  \<^verbatim>\<open>kernel/fs.c\<close>: the block bitmap, inodes, file contents, directories and path names, on top of the log and
  the buffer cache. The state holds the log (with the cache and the disk below it), the superblock, the
  inode table and the physical memory that user copies go to. A pointer to a table entry is its index;
  \<open>nullip\<close> is the null pointer. A local variable whose address is passed to \<^verbatim>\<open>readi\<close> or \<^verbatim>\<open>writei\<close> lives in
  the byte array \<open>stk\<close>.
\<close>

subsection \<open>Constants and data\<close>

definition NINODE :: nat where [const_defs]: "NINODE = 50"
definition FSMAGIC :: u32 where [const_defs]: "FSMAGIC = 0x10203040"
definition ROOTINO :: u32 where [const_defs]: "ROOTINO = 1"
definition NDIRECT :: nat where [const_defs]: "NDIRECT = 12"
definition NINDIRECT :: nat where [const_defs]: "NINDIRECT = BSIZE div 4"
definition MAXFILE :: nat where [const_defs]: "MAXFILE = NDIRECT + NINDIRECT"
definition DIRSIZ :: nat where [const_defs]: "DIRSIZ = 14"
definition BPB :: nat where [const_defs]: "BPB = BSIZE * 8"
definition IPB :: nat where [const_defs]: "IPB = BSIZE div 64"
definition T_DIR :: u16 where [const_defs]: "T_DIR = 1"
definition T_FILE :: u16 where [const_defs]: "T_FILE = 2"
definition T_DEVICE :: u16 where [const_defs]: "T_DEVICE = 3"

text \<open>The on-disk inode (64 bytes) and the in-memory inode.\<close>

record dinode =
  d_type :: u16
  d_major :: u16
  d_minor :: u16
  d_nlink :: u16
  d_size :: u32
  d_addrs :: "u32 list"

record inode =
  i_dev :: u32
  i_num :: u32
  i_ref :: int
  i_lock :: sleeplock
  i_valid :: bool
  i_type :: u16
  i_major :: u16
  i_minor :: u16
  i_nlink :: u16
  i_size :: u32
  i_addrs :: "u32 list"

record stat =
  st_dev :: u32
  st_ino :: u32
  st_type :: u16
  st_nlink :: u16
  st_size :: u64

record fsys =
  flog :: log
  sb :: superblock
  itable :: "inode list"
  fmem :: kmem
  stk :: "u8 list"

text \<open>The fields of the calling process (\<^verbatim>\<open>myproc()\<close>) that the file system reads.\<close>

record cur =
  cpid :: int
  cpagetable :: u64
  ccwd :: nat

abbreviation nullip :: nat where
  "nullip \<equiv> NINODE"

abbreviation inode_at :: "fsys \<Rightarrow> nat \<Rightarrow> inode" where
  "inode_at s ip \<equiv> itable s ! ip"

definition upd_inode :: "nat \<Rightarrow> (inode \<Rightarrow> inode) \<Rightarrow> fsys \<Rightarrow> fsys" where
  "upd_inode ip f s = s\<lparr>itable := (itable s)[ip := f (itable s ! ip)]\<rparr>"

definition inode_lock :: "nat \<Rightarrow> (sleeplock, 'a) prog \<Rightarrow> (fsys, 'a) prog" where
  "inode_lock ip = zoom (\<lambda>s. i_lock (inode_at s ip)) (\<lambda>f. upd_inode ip (i_lock_update f))"

abbreviation in_log :: "(log, 'a) prog \<Rightarrow> (fsys, 'a) prog" where
  "in_log \<equiv> zoom flog flog_update"

abbreviation in_mem :: "(kmem, 'a) prog \<Rightarrow> (fsys, 'a) prog" where
  "in_mem \<equiv> zoom fmem fmem_update"

text \<open>Buffer operations at this level.\<close>

definition fbread :: "cur \<Rightarrow> u32 \<Rightarrow> u32 \<Rightarrow> (fsys, nat) prog" where
  "fbread p d bn = in_log (in_bio (bread (cpid p) d bn))"

definition fbdata :: "nat \<Rightarrow> (fsys, block) prog" where
  "fbdata b = in_log (in_bio (bdata b))"

definition fbset :: "nat \<Rightarrow> block \<Rightarrow> (fsys, unit) prog" where
  "fbset b d = in_log (in_bio (bset b d))"

definition fbrelse :: "cur \<Rightarrow> nat \<Rightarrow> (fsys, unit) prog" where
  "fbrelse p b = in_log (in_bio (brelse (cpid p) b))"

definition flog_write :: "nat \<Rightarrow> (fsys, unit) prog" where
  "flog_write b = in_log (log_write b)"

subsection \<open>Structures inside blocks\<close>

definition get16 :: "u8 list \<Rightarrow> nat \<Rightarrow> u16" where
  "get16 bs off = ucast (bs ! off) OR push_bit 8 (ucast (bs ! Suc off))"

definition put16 :: "u8 list \<Rightarrow> nat \<Rightarrow> u16 \<Rightarrow> u8 list" where
  "put16 bs off w = splice_at bs off [ucast w, ucast (drop_bit 8 w)]"

text \<open>\<^verbatim>\<open>(struct dinode*)bp->data + k\<close> read and written field by field.\<close>

definition get_dinode :: "block \<Rightarrow> nat \<Rightarrow> dinode" where
  "get_dinode d k =
     (let o' = 64 * k in
      \<lparr>d_type = get16 d o', d_major = get16 d (o' + 2), d_minor = get16 d (o' + 4), d_nlink = get16 d (o' + 6),
       d_size = get32 d (o' + 8), d_addrs = map (\<lambda>i. get32 d (o' + 12 + 4 * i)) [0..<Suc NDIRECT]\<rparr>)"

definition put_dinode :: "dinode \<Rightarrow> nat \<Rightarrow> block \<Rightarrow> block" where
  "put_dinode di k d =
     (let o' = 64 * k in
      fold (\<lambda>i d. put32 d (o' + 12 + 4 * i) (d_addrs di ! i)) [0..<Suc NDIRECT]
       (put32 (put16 (put16 (put16 (put16 d o' (d_type di)) (o' + 2) (d_major di)) (o' + 4) (d_minor di))
         (o' + 6) (d_nlink di)) (o' + 8) (d_size di)))"

definition get_superblock :: "block \<Rightarrow> superblock" where
  "get_superblock d =
     \<lparr>sb_magic = get32 d 0, sb_size = get32 d 4, sb_nblocks = get32 d 8, sb_ninodes = get32 d 12,
      sb_nlog = get32 d 16, sb_logstart = get32 d 20, sb_inodestart = get32 d 24, sb_bmapstart = get32 d 28\<rparr>"

text \<open>\<^verbatim>\<open>IBLOCK\<close> and \<^verbatim>\<open>BBLOCK\<close>.\<close>

definition IBLOCK :: "u32 \<Rightarrow> superblock \<Rightarrow> u32" where
  "IBLOCK i s = i div of_nat IPB + sb_inodestart s"

definition BBLOCK :: "u32 \<Rightarrow> superblock \<Rightarrow> u32" where
  "BBLOCK b s = b div of_nat BPB + sb_bmapstart s"

text \<open>Bit \<open>bi\<close> of a bitmap block: \<^verbatim>\<open>data[bi/8] & (1 << (bi % 8))\<close>, and setting and clearing it.\<close>

definition bit_used :: "block \<Rightarrow> nat \<Rightarrow> bool" where
  "bit_used d bi \<longleftrightarrow> d ! (bi div 8) AND push_bit (bi mod 8) 1 \<noteq> 0"

definition mark_bit :: "nat \<Rightarrow> block \<Rightarrow> block" where
  "mark_bit bi d = d[bi div 8 := d ! (bi div 8) OR push_bit (bi mod 8) 1]"

definition clear_bit :: "nat \<Rightarrow> block \<Rightarrow> block" where
  "clear_bit bi d = d[bi div 8 := d ! (bi div 8) AND NOT (push_bit (bi mod 8) 1)]"

subsection \<open>Superblock and blocks\<close>

definition readsb :: "cur \<Rightarrow> u32 \<Rightarrow> (fsys, unit) prog" where
  "readsb p d =
     bnd (fbread p d 1) (\<lambda>bp.
     bnd (fbdata bp) (\<lambda>x.
     andthen (modify (sb_update (\<lambda>_. get_superblock x)))
     (fbrelse p bp)))"

definition fsinit :: "cur \<Rightarrow> u32 \<Rightarrow> (fsys, unit) prog" where
  "fsinit p d =
     andthen (readsb p d)
     (bnd (gets sb) (\<lambda>s.
      if sb_magic s \<noteq> FSMAGIC then panic ''invalid file system''
      else in_log (initlog (cpid p) d s)))"

definition bzero :: "cur \<Rightarrow> u32 \<Rightarrow> u32 \<Rightarrow> (fsys, unit) prog" where
  "bzero p d bno =
     bnd (fbread p d bno) (\<lambda>bp.
     andthen (fbset bp (replicate BSIZE 0))
     (andthen (flog_write bp)
     (fbrelse p bp)))"

text \<open>
  \<^verbatim>\<open>balloc\<close>: \<open>balloc_from\<close> is the loop over bitmap blocks, entered with the block number \<open>b\<close> and the number
  of rounds still possible; the inner loop is the search \<open>first_free\<close> for a clear bit. The message that \<^verbatim>\<open>balloc\<close> prints
  before it returns 0, like that of \<^verbatim>\<open>ialloc\<close>, is left out: the console is no part of the state of the file system.
\<close>

definition first_free :: "block \<Rightarrow> nat \<Rightarrow> nat option" where
  "first_free d n = List.find (\<lambda>bi. \<not> bit_used d bi) [0..<n]"

primrec balloc_from :: "nat \<Rightarrow> cur \<Rightarrow> u32 \<Rightarrow> u32 \<Rightarrow> (fsys, u32) prog" where
  "balloc_from 0 p d b = fails (Fault ''balloc: out of fuel'')"
| "balloc_from (Suc fuel) p d b =
     bnd (gets sb) (\<lambda>s.
     if b < sb_size s then
       bnd (fbread p d (BBLOCK b s)) (\<lambda>bp.
       bnd (fbdata bp) (\<lambda>x.
       case first_free x (min BPB (unat (sb_size s) - unat b)) of
         Some bi \<Rightarrow>
           andthen (fbset bp (mark_bit bi x))
           (andthen (flog_write bp)
           (andthen (fbrelse p bp)
           (andthen (bzero p d (b + of_nat bi))
           (ret (b + of_nat bi)))))
       | None \<Rightarrow> andthen (fbrelse p bp) (balloc_from fuel p d (b + of_nat BPB))))
     else ret 0)"

definition balloc :: "cur \<Rightarrow> u32 \<Rightarrow> (fsys, u32) prog" where
  "balloc p d = bnd (gets sb) (\<lambda>s. balloc_from (unat (sb_size s) div BPB + 2) p d 0)"

definition bfree :: "cur \<Rightarrow> u32 \<Rightarrow> u32 \<Rightarrow> (fsys, unit) prog" where
  "bfree p d b =
     bnd (gets sb) (\<lambda>s.
     bnd (fbread p d (BBLOCK b s)) (\<lambda>bp.
     bnd (fbdata bp) (\<lambda>x.
     let bi = unat (b mod of_nat BPB) in
     if \<not> bit_used x bi then panic ''freeing free block''
     else andthen (fbset bp (clear_bit bi x))
       (andthen (flog_write bp)
       (fbrelse p bp)))))"

subsection \<open>Inodes\<close>

definition iinit :: "(fsys, unit) prog" where
  "iinit = for_each [0..<NINODE] (\<lambda>i. inode_lock i initsleeplock)"

text \<open>
  The scan of \<^verbatim>\<open>iget\<close>: the entry of the inode (\<open>Inl\<close>), or the first empty entry (\<open>Inr\<close>, null if there is none).
\<close>

primrec iget_scan :: "inode list \<Rightarrow> nat \<Rightarrow> nat \<Rightarrow> u32 \<Rightarrow> u32 \<Rightarrow> nat + nat" where
  "iget_scan [] i e d inum = Inr e"
| "iget_scan (x # xs) i e d inum =
     (if i_ref x > 0 \<and> i_dev x = d \<and> i_num x = inum then Inl i
      else iget_scan xs (Suc i) (if e = nullip \<and> i_ref x = 0 then i else e) d inum)"

definition iget :: "u32 \<Rightarrow> u32 \<Rightarrow> (fsys, nat) prog" where
  "iget d inum =
     bnd (gets (\<lambda>s. iget_scan (itable s) 0 nullip d inum)) (\<lambda>r.
     case r of
       Inl ip \<Rightarrow> andthen (modify (upd_inode ip (i_ref_update (\<lambda>n. n + 1)))) (ret ip)
     | Inr ip \<Rightarrow>
         if ip = nullip then panic ''iget: no inodes''
         else andthen (modify (upd_inode ip (\<lambda>x. x\<lparr>i_dev := d, i_num := inum, i_ref := 1, i_valid := False\<rparr>))) (ret ip))"

text \<open>\<^verbatim>\<open>ialloc\<close>: the loop over inode numbers, from 1 up to \<^verbatim>\<open>sb.ninodes\<close>.\<close>

primrec ialloc_from :: "nat \<Rightarrow> cur \<Rightarrow> u32 \<Rightarrow> u16 \<Rightarrow> u32 \<Rightarrow> (fsys, nat) prog" where
  "ialloc_from 0 p d ty inum = fails (Fault ''ialloc: out of fuel'')"
| "ialloc_from (Suc fuel) p d ty inum =
     bnd (gets sb) (\<lambda>s.
     if inum < sb_ninodes s then
       bnd (fbread p d (IBLOCK inum s)) (\<lambda>bp.
       bnd (fbdata bp) (\<lambda>x.
       let k = unat (inum mod of_nat IPB) in
       if d_type (get_dinode x k) = 0 then
         andthen (fbset bp (put16 (splice_at x (64 * k) (replicate 64 0)) (64 * k) ty))
         (andthen (flog_write bp)
         (andthen (fbrelse p bp)
         (iget d inum)))
       else andthen (fbrelse p bp) (ialloc_from fuel p d ty (inum + 1))))
     else ret nullip)"

definition ialloc :: "cur \<Rightarrow> u32 \<Rightarrow> u16 \<Rightarrow> (fsys, nat) prog" where
  "ialloc p d ty = bnd (gets sb) (\<lambda>s. ialloc_from (Suc (unat (sb_ninodes s))) p d ty 1)"

definition dinode_of :: "inode \<Rightarrow> dinode" where
  "dinode_of x = \<lparr>d_type = i_type x, d_major = i_major x, d_minor = i_minor x, d_nlink = i_nlink x,
     d_size = i_size x, d_addrs = i_addrs x\<rparr>"

definition iupdate :: "cur \<Rightarrow> nat \<Rightarrow> (fsys, unit) prog" where
  "iupdate p ip =
     bnd (gets id) (\<lambda>s.
     let x = inode_at s ip in
     bnd (fbread p (i_dev x) (IBLOCK (i_num x) (sb s))) (\<lambda>bp.
     bnd (fbdata bp) (\<lambda>d.
     andthen (fbset bp (put_dinode (dinode_of x) (unat (i_num x mod of_nat IPB)) d))
     (andthen (flog_write bp)
     (fbrelse p bp)))))"

definition idup :: "nat \<Rightarrow> (fsys, nat) prog" where
  "idup ip = andthen (modify (upd_inode ip (i_ref_update (\<lambda>n. n + 1)))) (ret ip)"

definition fill_inode :: "dinode \<Rightarrow> inode \<Rightarrow> inode" where
  "fill_inode di x = x\<lparr>i_type := d_type di, i_major := d_major di, i_minor := d_minor di, i_nlink := d_nlink di,
     i_size := d_size di, i_addrs := d_addrs di\<rparr>"

definition ilock :: "cur \<Rightarrow> nat \<Rightarrow> (fsys, unit) prog" where
  "ilock p ip =
     bnd (gets id) (\<lambda>s.
     if ip = nullip \<or> i_ref (inode_at s ip) < 1 then panic ''ilock''
     else andthen (inode_lock ip (acquiresleep (cpid p)))
       (if \<not> i_valid (inode_at s ip) then
          bnd (fbread p (i_dev (inode_at s ip)) (IBLOCK (i_num (inode_at s ip)) (sb s))) (\<lambda>bp.
          bnd (fbdata bp) (\<lambda>d.
          let di = get_dinode d (unat (i_num (inode_at s ip) mod of_nat IPB)) in
          andthen (modify (upd_inode ip (fill_inode di)))
          (andthen (fbrelse p bp)
          (andthen (modify (upd_inode ip (i_valid_update (\<lambda>_. True))))
          (if d_type di = 0 then panic ''ilock: no type'' else ret ())))))
        else ret ()))"

definition iunlock :: "cur \<Rightarrow> nat \<Rightarrow> (fsys, unit) prog" where
  "iunlock p ip =
     (if ip = nullip then panic ''iunlock''
      else bnd (inode_lock ip (holdingsleep (cpid p))) (\<lambda>h.
        bnd (gets (\<lambda>s. i_ref (inode_at s ip))) (\<lambda>r.
        if \<not> h \<or> r < 1 then panic ''iunlock''
        else inode_lock ip releasesleep)))"

subsection \<open>Inode content\<close>

text \<open>\<^verbatim>\<open>bmap\<close>. Entry \<open>bn\<close> of an indirect block is its \<open>bn\<close>-th 32-bit integer.\<close>

definition bmap :: "cur \<Rightarrow> nat \<Rightarrow> u32 \<Rightarrow> (fsys, u32) prog" where
  "bmap p ip bn =
     bnd (gets (\<lambda>s. inode_at s ip)) (\<lambda>x.
     if unat bn < NDIRECT then
       if i_addrs x ! unat bn = 0 then
         bnd (balloc p (i_dev x)) (\<lambda>addr.
         if addr = 0 then ret 0
         else andthen (modify (upd_inode ip (i_addrs_update (\<lambda>a. a[unat bn := addr])))) (ret addr))
       else ret (i_addrs x ! unat bn)
     else
       let bn' = unat bn - NDIRECT in
       if bn' < NINDIRECT then
         bnd (if i_addrs x ! NDIRECT = 0 then
                bnd (balloc p (i_dev x)) (\<lambda>addr.
                if addr = 0 then ret 0
                else andthen (modify (upd_inode ip (i_addrs_update (\<lambda>a. a[NDIRECT := addr])))) (ret addr))
              else ret (i_addrs x ! NDIRECT)) (\<lambda>ind.
         if ind = 0 then ret 0
         else
           bnd (fbread p (i_dev x) ind) (\<lambda>bp.
           bnd (fbdata bp) (\<lambda>a.
           bnd (if get32 a (4 * bn') = 0 then
                  bnd (balloc p (i_dev x)) (\<lambda>addr.
                  if addr \<noteq> 0 then
                    andthen (fbset bp (put32 a (4 * bn') addr)) (andthen (flog_write bp) (ret addr))
                  else ret addr)
                else ret (get32 a (4 * bn'))) (\<lambda>addr.
           andthen (fbrelse p bp) (ret addr)))))
       else panic ''bmap: out of range'')"

definition itrunc :: "cur \<Rightarrow> nat \<Rightarrow> (fsys, unit) prog" where
  "itrunc p ip =
     andthen (for_each [0..<NDIRECT] (\<lambda>i.
        bnd (gets (\<lambda>s. inode_at s ip)) (\<lambda>x.
        if i_addrs x ! i \<noteq> 0 then
          andthen (bfree p (i_dev x) (i_addrs x ! i))
          (modify (upd_inode ip (i_addrs_update (\<lambda>a. a[i := 0]))))
        else ret ())))
     (andthen (bnd (gets (\<lambda>s. inode_at s ip)) (\<lambda>x.
        if i_addrs x ! NDIRECT \<noteq> 0 then
          bnd (fbread p (i_dev x) (i_addrs x ! NDIRECT)) (\<lambda>bp.
          andthen (for_each [0..<NINDIRECT] (\<lambda>j.
             bnd (fbdata bp) (\<lambda>a.
             if get32 a (4 * j) \<noteq> 0 then bfree p (i_dev x) (get32 a (4 * j)) else ret ())))
          (andthen (fbrelse p bp)
          (andthen (bfree p (i_dev x) (i_addrs x ! NDIRECT))
          (modify (upd_inode ip (i_addrs_update (\<lambda>a. a[NDIRECT := 0])))))))
        else ret ()))
     (andthen (modify (upd_inode ip (i_size_update (\<lambda>_. 0))))
     (iupdate p ip)))"

definition iput :: "cur \<Rightarrow> nat \<Rightarrow> (fsys, unit) prog" where
  "iput p ip =
     bnd (gets (\<lambda>s. inode_at s ip)) (\<lambda>x.
     andthen
       (if i_ref x = 1 \<and> i_valid x \<and> i_nlink x = 0 then
          andthen (inode_lock ip (acquiresleep (cpid p)))
          (andthen (itrunc p ip)
          (andthen (modify (upd_inode ip (i_type_update (\<lambda>_. 0))))
          (andthen (iupdate p ip)
          (andthen (modify (upd_inode ip (i_valid_update (\<lambda>_. False))))
          (inode_lock ip releasesleep)))))
        else ret ())
     (modify (upd_inode ip (i_ref_update (\<lambda>n. n - 1)))))"

definition iunlockput :: "cur \<Rightarrow> nat \<Rightarrow> (fsys, unit) prog" where
  "iunlockput p ip = andthen (iunlock p ip) (iput p ip)"

definition stati :: "nat \<Rightarrow> (fsys, stat) prog" where
  "stati ip = gets (\<lambda>s. let x = inode_at s ip in
     \<lparr>st_dev = i_dev x, st_ino = i_num x, st_type = i_type x, st_nlink = i_nlink x, st_size = ucast (i_size x)\<rparr>)"

text \<open>
  Where \<^verbatim>\<open>readi\<close> puts and \<^verbatim>\<open>writei\<close> takes its bytes: a user virtual address (\<^verbatim>\<open>user_dst = 1\<close>), or a kernel
  address, which is either physical memory or a local variable of the caller.
\<close>

datatype place = User u64 | Phys u64 | Local nat

fun advance :: "place \<Rightarrow> u32 \<Rightarrow> place" where
  "advance (User a) m = User (a + ucast m)"
| "advance (Phys a) m = Phys (a + ucast m)"
| "advance (Local k) m = Local (k + unat m)"

fun either_copyout :: "cur \<Rightarrow> place \<Rightarrow> u8 list \<Rightarrow> (fsys, int) prog" where
  "either_copyout p (User a) src = in_mem (copyout (cpagetable p) a src (of_nat (length src)))"
| "either_copyout p (Phys a) src = andthen (in_mem (modify (mem_store (\<lambda>m. write_bytes m a src)))) (ret 0)"
| "either_copyout p (Local k) src =
     bnd (gets stk) (\<lambda>v.
     andthen (guard (k + length src \<le> length v) (Fault ''either_copyout''))
     (andthen (modify (stk_update (\<lambda>v. splice_at v k src))) (ret 0)))"

fun either_copyin :: "cur \<Rightarrow> place \<Rightarrow> u32 \<Rightarrow> (fsys, int \<times> u8 list) prog" where
  "either_copyin p (User a) len = in_mem (copyin (cpagetable p) a (ucast len))"
| "either_copyin p (Phys a) len = in_mem (gets (\<lambda>s. (0, read_bytes (mem s) a (unat len))))"
| "either_copyin p (Local k) len =
     bnd (gets stk) (\<lambda>v.
     andthen (guard (k + unat len \<le> length v) (Fault ''either_copyin''))
     (ret (0, take (unat len) (drop k v))))"

text \<open>The bytes of one round: \<^verbatim>\<open>m = min(n - tot, BSIZE - off%BSIZE)\<close>.\<close>

definition portion :: "u32 \<Rightarrow> u32 \<Rightarrow> u32 \<Rightarrow> u32" where
  "portion n tot off = min (n - tot) (of_nat BSIZE - off mod of_nat BSIZE)"

primrec readi_loop :: "nat \<Rightarrow> cur \<Rightarrow> nat \<Rightarrow> place \<Rightarrow> u32 \<Rightarrow> u32 \<Rightarrow> u32 \<Rightarrow> (fsys, u32) prog" where
  "readi_loop 0 p ip dst off n tot = fails (Fault ''readi: out of fuel'')"
| "readi_loop (Suc fuel) p ip dst off n tot =
     (if tot < n then
        bnd (bmap p ip (off div of_nat BSIZE)) (\<lambda>addr.
        if addr = 0 then ret tot
        else
          bnd (gets (\<lambda>s. i_dev (inode_at s ip))) (\<lambda>d.
          bnd (fbread p d addr) (\<lambda>bp.
          bnd (fbdata bp) (\<lambda>x.
          let m = portion n tot off in
          bnd (either_copyout p dst (take (unat m) (drop (unat (off mod of_nat BSIZE)) x))) (\<lambda>r.
          if r = - 1 then andthen (fbrelse p bp) (ret (- 1))
          else andthen (fbrelse p bp) (readi_loop fuel p ip (advance dst m) (off + m) n (tot + m)))))))
      else ret tot)"

definition readi :: "cur \<Rightarrow> nat \<Rightarrow> place \<Rightarrow> u32 \<Rightarrow> u32 \<Rightarrow> (fsys, int) prog" where
  "readi p ip dst off n =
     bnd (gets (\<lambda>s. i_size (inode_at s ip))) (\<lambda>size.
     if off > size \<or> off + n < off then ret 0
     else
       let n = (if off + n > size then size - off else n) in
       bnd (readi_loop (Suc (unat n)) p ip dst off n 0) (\<lambda>tot. ret (sint tot)))"

text \<open>The loop of \<^verbatim>\<open>writei\<close> returns \<^verbatim>\<open>tot\<close> and \<^verbatim>\<open>off\<close>.\<close>

primrec writei_loop :: "nat \<Rightarrow> cur \<Rightarrow> nat \<Rightarrow> place \<Rightarrow> u32 \<Rightarrow> u32 \<Rightarrow> u32 \<Rightarrow> (fsys, u32 \<times> u32) prog" where
  "writei_loop 0 p ip src off n tot = fails (Fault ''writei: out of fuel'')"
| "writei_loop (Suc fuel) p ip src off n tot =
     (if tot < n then
        bnd (bmap p ip (off div of_nat BSIZE)) (\<lambda>addr.
        if addr = 0 then ret (tot, off)
        else
          bnd (gets (\<lambda>s. i_dev (inode_at s ip))) (\<lambda>d.
          bnd (fbread p d addr) (\<lambda>bp.
          bnd (fbdata bp) (\<lambda>x.
          let m = portion n tot off in
          bnd (either_copyin p src m) (\<lambda>(r, bs).
          andthen (fbset bp (splice_at x (unat (off mod of_nat BSIZE)) bs))
          (if r = - 1 then andthen (fbrelse p bp) (ret (tot, off))
           else andthen (flog_write bp)
             (andthen (fbrelse p bp)
             (writei_loop fuel p ip (advance src m) (off + m) n (tot + m)))))))))
      else ret (tot, off))"

definition writei :: "cur \<Rightarrow> nat \<Rightarrow> place \<Rightarrow> u32 \<Rightarrow> u32 \<Rightarrow> (fsys, int) prog" where
  "writei p ip src off n =
     bnd (gets (\<lambda>s. i_size (inode_at s ip))) (\<lambda>size.
     if off > size \<or> off + n < off then ret (- 1)
     else if unat (off + n) > MAXFILE * BSIZE then ret (- 1)
     else
       bnd (writei_loop (Suc (unat n)) p ip src off n 0) (\<lambda>(tot, off).
       andthen (modify (upd_inode ip (\<lambda>x. if off > i_size x then x\<lparr>i_size := off\<rparr> else x)))
       (andthen (iupdate p ip)
       (ret (sint tot)))))"

subsection \<open>Directories\<close>

definition namecmp :: "u8 list \<Rightarrow> u8 list \<Rightarrow> int" where
  "namecmp s t = strncmp (str_of s) (str_of t) (of_nat DIRSIZ)"

text \<open>A directory entry is 16 bytes: \<^verbatim>\<open>ushort inum\<close> and \<^verbatim>\<open>char name[DIRSIZ]\<close>.\<close>

definition dirent_size :: u32 where [const_defs]: "dirent_size = 16"

abbreviation de_inum :: "u8 list \<Rightarrow> u16" where "de_inum de \<equiv> get16 de 0"
abbreviation de_name :: "u8 list \<Rightarrow> u8 list" where "de_name de \<equiv> take DIRSIZ (drop 2 de)"

text \<open>
  Reading the directory entry at \<open>off\<close> into the local variable \<^verbatim>\<open>de\<close>, which holds unspecified bytes
  before; a short read panics with the caller's message.
\<close>

definition read_dirent :: "cur \<Rightarrow> nat \<Rightarrow> string \<Rightarrow> u32 \<Rightarrow> (fsys, u8 list) prog" where
  "read_dirent p dp msg off =
     bnd (readi p dp (Local 0) off dirent_size) (\<lambda>r.
     if r \<noteq> 16 then panic msg else gets (\<lambda>s. take 16 (stk s)))"

primrec dirlookup_loop :: "nat \<Rightarrow> cur \<Rightarrow> nat \<Rightarrow> u8 list \<Rightarrow> u32 \<Rightarrow> (fsys, nat \<times> u32) prog" where
  "dirlookup_loop 0 p dp name off = fails (Fault ''dirlookup: out of fuel'')"
| "dirlookup_loop (Suc fuel) p dp name off =
     bnd (gets (\<lambda>s. inode_at s dp)) (\<lambda>x.
     if off < i_size x then
       bnd (read_dirent p dp ''dirlookup read'' off) (\<lambda>de.
       if de_inum de = 0 then dirlookup_loop fuel p dp name (off + dirent_size)
       else if namecmp name (de_name de) = 0 then
         bnd (iget (i_dev x) (ucast (de_inum de))) (\<lambda>ip. ret (ip, off))
       else dirlookup_loop fuel p dp name (off + dirent_size))
     else ret (nullip, off))"

definition dirlookup :: "cur \<Rightarrow> nat \<Rightarrow> u8 list \<Rightarrow> (fsys, nat \<times> u32) prog" where
  "dirlookup p dp name =
     bnd (gets (\<lambda>s. inode_at s dp)) (\<lambda>x.
     if i_type x \<noteq> T_DIR then panic ''dirlookup not DIR''
     else dirlookup_loop (unat (i_size x) div 16 + 2) p dp name 0)"

text \<open>The search of \<^verbatim>\<open>dirlink\<close> for an unused entry: its offset, or the size of the directory.\<close>

primrec empty_dirent :: "nat \<Rightarrow> cur \<Rightarrow> nat \<Rightarrow> u32 \<Rightarrow> (fsys, u32) prog" where
  "empty_dirent 0 p dp off = fails (Fault ''dirlink: out of fuel'')"
| "empty_dirent (Suc fuel) p dp off =
     bnd (gets (\<lambda>s. i_size (inode_at s dp))) (\<lambda>size.
     if off < size then
       bnd (read_dirent p dp ''dirlink read'' off) (\<lambda>de.
       if de_inum de = 0 then ret off else empty_dirent fuel p dp (off + dirent_size))
     else ret off)"

definition dirlink :: "cur \<Rightarrow> nat \<Rightarrow> u8 list \<Rightarrow> u32 \<Rightarrow> (fsys, int) prog" where
  "dirlink p dp name inum =
     bnd (dirlookup p dp name) (\<lambda>(ip, _).
     if ip \<noteq> nullip then andthen (iput p ip) (ret (- 1))
     else
       bnd (gets (\<lambda>s. i_size (inode_at s dp))) (\<lambda>size.
       bnd (empty_dirent (unat size div 16 + 2) p dp 0) (\<lambda>off.
       andthen (modify (stk_update (\<lambda>v.
          put16 (splice_at v 2 (strncpy (take DIRSIZ (drop 2 v)) (str_of name) (int DIRSIZ))) 0 (ucast inum))))
       (bnd (writei p dp (Local 0) off dirent_size) (\<lambda>r.
        if r \<noteq> 16 then ret (- 1) else ret 0)))))"

subsection \<open>Paths\<close>

text \<open>
  A path is the byte list before the terminating NUL. \<^verbatim>\<open>skipelem\<close> returns the rest of the path and the
  buffer \<^verbatim>\<open>name\<close> of \<open>DIRSIZ\<close> bytes; an element shorter than that is followed by NUL, a longer one is cut.
\<close>

abbreviation slash :: u8 where "slash \<equiv> 47"

definition skipelem :: "u8 list \<Rightarrow> u8 list \<Rightarrow> (u8 list \<times> u8 list) option" where
  "skipelem path name =
     (let path = dropWhile (\<lambda>c. c = slash) path in
      if path = [] then None
      else
        let s = takeWhile (\<lambda>c. c \<noteq> slash) path;
            path = dropWhile (\<lambda>c. c \<noteq> slash) path;
            len = length s;
            name = (if len \<ge> DIRSIZ then splice_at name 0 (take DIRSIZ s) else splice_at name 0 (s @ [0]))
        in Some (dropWhile (\<lambda>c. c = slash) path, name))"

lemma skipelem_shorter: "skipelem path name = Some (rest, name') \<Longrightarrow> length rest < length path"
proof -
  assume a: "skipelem path name = Some (rest, name')"
  let ?p = "dropWhile (\<lambda>c. c = slash) path"
  have ne: "?p \<noteq> []" and r: "rest = dropWhile (\<lambda>c. c = slash) (dropWhile (\<lambda>c. c \<noteq> slash) ?p)"
    using a by (auto simp: skipelem_def Let_def split: if_splits)
  have "hd ?p \<noteq> slash" using hd_dropWhile [OF ne] by simp
  then have "length (dropWhile (\<lambda>c. c \<noteq> slash) ?p) < length ?p"
    using ne by (cases ?p) (auto simp: le_imp_less_Suc length_dropWhile_le)
  moreover have "length rest \<le> length (dropWhile (\<lambda>c. c \<noteq> slash) ?p)" "length ?p \<le> length path"
    using r by (auto simp: length_dropWhile_le)
  ultimately show ?thesis by simp
qed

function namex_loop :: "cur \<Rightarrow> bool \<Rightarrow> nat \<Rightarrow> u8 list \<Rightarrow> u8 list \<Rightarrow> (fsys, nat \<times> u8 list) prog" where
  "namex_loop p parent ip path name =
     (case skipelem path name of
        None \<Rightarrow>
          if parent then andthen (iput p ip) (ret (nullip, name)) else ret (ip, name)
      | Some (path', name') \<Rightarrow>
          andthen (ilock p ip)
          (bnd (gets (\<lambda>s. i_type (inode_at s ip))) (\<lambda>ty.
           if ty \<noteq> T_DIR then andthen (iunlockput p ip) (ret (nullip, name'))
           else if parent \<and> path' = [] then andthen (iunlock p ip) (ret (ip, name'))
           else
             bnd (dirlookup p ip name') (\<lambda>(next, _).
             if next = nullip then andthen (iunlockput p ip) (ret (nullip, name'))
             else andthen (iunlockput p ip) (namex_loop p parent next path' name')))))"
  by pat_completeness auto
termination
  by (relation "measure (\<lambda>(_, _, _, path, _). length path)") (auto dest: skipelem_shorter)

definition namex :: "cur \<Rightarrow> u8 list \<Rightarrow> bool \<Rightarrow> u8 list \<Rightarrow> (fsys, nat \<times> u8 list) prog" where
  "namex p path parent name =
     bnd (if path \<noteq> [] \<and> hd path = slash then iget ROOTDEV ROOTINO else idup (ccwd p)) (\<lambda>ip.
     namex_loop p parent ip path name)"

text \<open>The local \<^verbatim>\<open>name\<close> of \<^verbatim>\<open>namei\<close> starts with unspecified bytes, given as an argument.\<close>

definition namei :: "cur \<Rightarrow> u8 list \<Rightarrow> u8 list \<Rightarrow> (fsys, nat) prog" where
  "namei p garbage path = bnd (namex p path False garbage) (\<lambda>(ip, _). ret ip)"

definition nameiparent :: "cur \<Rightarrow> u8 list \<Rightarrow> u8 list \<Rightarrow> (fsys, nat \<times> u8 list) prog" where
  "nameiparent p path name = namex p path True name"

declare namex_loop.simps [simp del]

end
