(* ===== verification/Txn.thy ===== *)
theory Txn
  imports Fs
begin

text \<open>
  The interface between the file system and the layers below it: inside a transaction, a block can be read,
  changed, logged and released, and the file system sees one array of blocks. The locale \<open>txn\<close> states what
  these operations promise and proves the usual sequences of them; the interpretation shows that
  \<^verbatim>\<open>bread\<close>, \<^verbatim>\<open>log_write\<close> and \<^verbatim>\<open>brelse\<close> keep the promise.
\<close>

subsection \<open>The interface\<close>

text \<open>
  \<open>tx p s H D n\<close>: process \<open>p\<close> holds the blocks \<open>H\<close>, has changed the blocks \<open>D\<close> of them since it last logged
  them, and may log \<open>n\<close> more blocks, for which it is inside a transaction if \<open>n\<close> is positive. \<open>vw s\<close> is the array of blocks, \<open>at s i b\<close> says that buffer
  \<open>i\<close> is for block \<open>b\<close>, and \<open>fr s t\<close> that \<open>t\<close> differs from \<open>s\<close> in the block layer only.
\<close>

locale txn =
  fixes tx :: "'p \<Rightarrow> 's \<Rightarrow> u32 set \<Rightarrow> u32 set \<Rightarrow> nat \<Rightarrow> bool"
    and vw :: "'s \<Rightarrow> u32 \<Rightarrow> block"
    and at :: "'s \<Rightarrow> nat \<Rightarrow> u32 \<Rightarrow> bool"
    and fr :: "'s \<Rightarrow> 's \<Rightarrow> bool"
    and rd :: "'p \<Rightarrow> u32 \<Rightarrow> ('s, nat) prog"
    and gt :: "nat \<Rightarrow> ('s, block) prog"
    and pt :: "nat \<Rightarrow> block \<Rightarrow> ('s, unit) prog"
    and lw :: "nat \<Rightarrow> ('s, unit) prog"
    and rel :: "'p \<Rightarrow> nat \<Rightarrow> ('s, unit) prog"
  assumes rd_ok: "tx p s H D n \<Longrightarrow> b \<notin> H \<Longrightarrow> card H \<le> 2 \<Longrightarrow>
      wp (rd p b) (\<lambda>i t. tx p t (insert b H) D n \<and> at t i b \<and> vw t = vw s \<and> fr s t \<and>
        (\<forall>j c. c \<in> H \<longrightarrow> at s j c \<longrightarrow> at t j c)) s"
    and gt_ok: "tx p s H D n \<Longrightarrow> at s i b \<Longrightarrow> b \<in> H \<Longrightarrow> gt i s = Ok (vw s b) s"
    and pt_ok: "tx p s H D n \<Longrightarrow> at s i b \<Longrightarrow> b \<in> H \<Longrightarrow> length d = BSIZE \<Longrightarrow>
      wp (pt i d) (\<lambda>_ t. tx p t H (insert b D) n \<and> at t = at s \<and> vw t = (vw s)(b := d) \<and> fr s t) s"
    and lw_ok: "tx p s H D (Suc n) \<Longrightarrow> at s i b \<Longrightarrow> b \<in> H \<Longrightarrow>
      wp (lw i) (\<lambda>_ t. tx p t H (D - {b}) n \<and> at t = at s \<and> vw t = vw s \<and> fr s t) s"
    and rel_ok: "tx p s H D n \<Longrightarrow> at s i b \<Longrightarrow> b \<in> H \<Longrightarrow> b \<notin> D \<Longrightarrow>
      wp (rel p i) (\<lambda>_ t. tx p t (H - {b}) D n \<and> at t = at s \<and> vw t = vw s \<and> fr s t) s"
    and vw_length: "tx p s H D n \<Longrightarrow> length (vw s b) = BSIZE"
    and fr_trans: "fr s t \<Longrightarrow> fr t u \<Longrightarrow> fr s u"
begin

text \<open>Reading a block and looking at its contents.\<close>

lemma open_block:
  assumes "tx p s H {} n" and "b \<notin> H" and "card H \<le> 2"
    and "\<And>i t. tx p t (insert b H) {} n \<Longrightarrow> at t i b \<Longrightarrow> vw t = vw s \<Longrightarrow> fr s t \<Longrightarrow>
      (\<And>j c. c \<in> H \<Longrightarrow> at s j c \<Longrightarrow> at t j c) \<Longrightarrow> length (vw s b) = BSIZE \<Longrightarrow> wp (K i (vw s b)) Q t"
  shows "wp (bnd (rd p b) (\<lambda>i. bnd (gt i) (K i))) Q s"
  unfolding wp_bnd
proof (rule wp_mono [OF rd_ok [OF assms(1-3)]], elim conjE)
  fix i t
  assume t: "tx p t (insert b H) {} n" "at t i b" "vw t = vw s" "fr s t" "\<forall>j c. c \<in> H \<longrightarrow> at s j c \<longrightarrow> at t j c"
  have "wp (K i (vw s b)) Q t" by (rule assms(4)) (use t vw_length [OF assms(1)] in auto)
  then show "wp (gt i) (\<lambda>a. wp (K i a) Q) t" using t gt_ok [OF t(1,2)] by (simp add: wp_def [of "gt i"])
qed

text \<open>Giving a clean block back.\<close>

lemma close_block:
  assumes "tx p s (insert b H) {} n" and "at s i b" and "b \<notin> H"
    and "\<And>t. tx p t H {} n \<Longrightarrow> at t = at s \<Longrightarrow> vw t = vw s \<Longrightarrow> fr s t \<Longrightarrow> wp K Q t"
  shows "wp (andthen (rel p i) K) Q s"
  unfolding wp_andthen
  by (rule wp_mono [OF rel_ok [OF assms(1,2)]]) (use assms(3) in \<open>auto intro!: assms(4)\<close>)

text \<open>Storing new contents, logging them and giving the block back.\<close>

lemma save_block:
  assumes s: "tx p s (insert b H) {} (Suc n)" "at s i b" and d: "length d = BSIZE"
    and K: "\<And>t. tx p t (insert b H) {} n \<Longrightarrow> at t = at s \<Longrightarrow> vw t = (vw s)(b := d) \<Longrightarrow> fr s t \<Longrightarrow> wp K Q t"
  shows "wp (andthen (pt i d) (andthen (lw i) K)) Q s"
  unfolding wp_andthen
proof (rule wp_mono [OF pt_ok [OF s _ d]], simp, elim conjE)
  fix t assume t: "tx p t (insert b H) (insert b {}) (Suc n)" "at t = at s" "vw t = (vw s)(b := d)" "fr s t"
  have "at t i b" using t(2) s(2) by simp
  then show "wp (lw i) (\<lambda>_. wp K Q) t"
    by (rule wp_mono [OF lw_ok [OF t(1)]]) (use t fr_trans [OF t(4)] in \<open>auto intro!: K\<close>)
qed

text \<open>The sequence that changes one block.\<close>

lemma change_block:
  assumes s: "tx p s H {} (Suc n)" and b: "b \<notin> H" and H: "card H \<le> 2"
    and f: "\<And>x. length x = BSIZE \<Longrightarrow> length (f x) = BSIZE"
    and K: "\<And>t. tx p t H {} n \<Longrightarrow> vw t = (vw s)(b := f (vw s b)) \<Longrightarrow> fr s t \<Longrightarrow>
      (\<And>j c. c \<in> H \<Longrightarrow> at s j c \<Longrightarrow> at t j c) \<Longrightarrow> wp K Q t"
  shows "wp (bnd (rd p b) (\<lambda>i. bnd (gt i) (\<lambda>x. andthen (pt i (f x)) (andthen (lw i) (andthen (rel p i) K))))) Q s"
proof (rule open_block [OF s b H])
  fix i t
  assume t: "tx p t (insert b H) {} (Suc n)" "at t i b" "vw t = vw s" "fr s t" "length (vw s b) = BSIZE"
    and k: "\<And>j c. c \<in> H \<Longrightarrow> at s j c \<Longrightarrow> at t j c"
  show "wp (andthen (pt i (f (vw s b))) (andthen (lw i) (andthen (rel p i) K))) Q t"
  proof (rule save_block [OF t(1,2) f [OF t(5)]])
    fix u assume u: "tx p u (insert b H) {} n" "at u = at t" "vw u = (vw t)(b := f (vw s b))" "fr t u"
    have "at u i b" using u(2) t(2) by simp
    then show "wp (andthen (rel p i) K) Q u"
    proof (rule close_block [OF u(1) _ b])
      fix w assume w: "tx p w H {} n" "at w = at u" "vw w = vw u" "fr u w"
      show "wp K Q w"
        by (rule K) (use w u t k fr_trans [OF fr_trans [OF t(4) u(4)] w(4)] in auto)
    qed
  qed
qed

end

subsection \<open>The implementation\<close>

definition tx :: "cur \<Rightarrow> fsys \<Rightarrow> u32 set \<Rightarrow> u32 set \<Rightarrow> nat \<Rightarrow> bool" where
  "tx p s H D n \<longleftrightarrow> (let l = flog s; c = bio_abs (lbio l) in
     bio_inv (lbio l) \<and> (0 < n \<longrightarrow> 1 \<le> outstanding l) \<and> lsize l = int LOGSIZE \<and> finite H \<and> D \<subseteq> H \<and>
     (\<exists>start bs. log_at l start bs \<and> length bs + n \<le> 27 \<and>
       (\<forall>b. crefs c b = of_bool (b \<in> set bs) + of_bool (b \<in> H) \<and>
            cowner c b = (if b \<in> H then Some (cpid p) else None) \<and>
            (b \<notin> set bs \<longrightarrow> b \<notin> D \<longrightarrow> cview c b = cstore c b))))"

definition vw :: "fsys \<Rightarrow> u32 \<Rightarrow> block" where
  "vw s = cview (bio_abs (lbio (flog s)))"

definition fbuf :: "fsys \<Rightarrow> nat \<Rightarrow> u32 \<Rightarrow> bool" where
  "fbuf s = holds (lbio (flog s))"

definition only_log :: "fsys \<Rightarrow> fsys \<Rightarrow> bool" where
  "only_log s t \<longleftrightarrow> t = s\<lparr>flog := flog t\<rparr>"

lemma only_log_simps:
  "only_log s t \<Longrightarrow> sb t = sb s" "only_log s t \<Longrightarrow> itable t = itable s" "only_log s t \<Longrightarrow> fmem t = fmem s" "only_log s t \<Longrightarrow> stk t = stk s"
  by (cases s, cases t, simp add: only_log_def)+

lemma only_log_upd [simp]: "only_log s (s\<lparr>flog := l\<rparr>)"
  by (cases s) (simp add: only_log_def)

lemma only_log_trans: "only_log s t \<Longrightarrow> only_log t u \<Longrightarrow> only_log s u"
  by (cases s, cases t, cases u) (simp add: only_log_def)

text \<open>A state with another buffer cache below the same log.\<close>

lemma log_at_lbio: "log_at (l\<lparr>lbio := b\<rparr>) start bs \<longleftrightarrow> log_at l start bs"
  by (simp add: log_at_def)

lemma txE:
  assumes "tx p s H D n"
  obtains start bs where "bio_inv (lbio (flog s))" "0 < n \<longrightarrow> 1 \<le> outstanding (flog s)" "lsize (flog s) = int LOGSIZE" "finite H" "D \<subseteq> H"
    "log_at (flog s) start bs" "length bs + n \<le> 27"
    "\<And>b. crefs (bio_abs (lbio (flog s))) b = of_bool (b \<in> set bs) + of_bool (b \<in> H)"
    "\<And>b. cowner (bio_abs (lbio (flog s))) b = (if b \<in> H then Some (cpid p) else None)"
    "\<And>b. b \<notin> set bs \<Longrightarrow> b \<notin> D \<Longrightarrow> cview (bio_abs (lbio (flog s))) b = cstore (bio_abs (lbio (flog s))) b"
  using assms unfolding tx_def Let_def by blast

text \<open>\<open>tx\<close> after a change of the cache alone.\<close>

lemma tx_lbio:
  assumes "bio_inv b" "0 < n \<longrightarrow> 1 \<le> outstanding (flog s)" "lsize (flog s) = int LOGSIZE" "finite H" "D \<subseteq> H"
    "log_at (flog s) start bs" "length bs + n \<le> 27"
    "\<And>x. crefs (bio_abs b) x = of_bool (x \<in> set bs) + of_bool (x \<in> H)"
    "\<And>x. cowner (bio_abs b) x = (if x \<in> H then Some (cpid p) else None)"
    "\<And>x. x \<notin> set bs \<Longrightarrow> x \<notin> D \<Longrightarrow> cview (bio_abs b) x = cstore (bio_abs b) x"
  shows "tx p (s\<lparr>flog := (flog s)\<lparr>lbio := b\<rparr>\<rparr>) H D n"
  unfolding tx_def Let_def using assms by (auto simp: log_at_lbio intro!: exI [of _ start] exI [of _ bs])

lemma tx_room:
  assumes "tx p s H D n" and "b \<notin> H" and "card H \<le> 2"
  shows "room NBUF (bio_abs (lbio (flog s))) b"
proof -
  obtain start bs where s: "finite H" "length bs + n \<le> 27"
    "\<And>b. crefs (bio_abs (lbio (flog s))) b = of_bool (b \<in> set bs) + of_bool (b \<in> H)"
    "\<And>b. cowner (bio_abs (lbio (flog s))) b = (if b \<in> H then Some (cpid p) else None)"
    using assms(1) by (rule txE) blast
  have "in_use (bio_abs (lbio (flog s))) = set bs \<union> H" by (auto simp: in_use_def s(3))
  moreover have "card (set bs \<union> H) \<le> length bs + 2"
    using card_Un_le [of "set bs" H] card_length [of bs] assms(3) by linarith
  ultimately have "card (in_use (bio_abs (lbio (flog s)))) < NBUF" using s(2) by (simp add: NBUF_def)
  then show ?thesis using assms(2) s(3,4) by (simp add: room_def)
qed

text \<open>The five operations of the buffer layer keep the contract.\<close>

lemma fbread_tx:
  assumes "tx p s H D n" and "b \<notin> H" and "card H \<le> 2"
  shows "wp (fbread p ROOTDEV b) (\<lambda>i t. tx p t (insert b H) D n \<and> fbuf t i b \<and> vw t = vw s \<and> only_log s t \<and>
    (\<forall>j c. c \<in> H \<longrightarrow> fbuf s j c \<longrightarrow> fbuf t j c)) s"
proof -
  from assms(1) obtain start bs where s: "bio_inv (lbio (flog s))" "0 < n \<longrightarrow> 1 \<le> outstanding (flog s)" "lsize (flog s) = int LOGSIZE"
    "finite H" "D \<subseteq> H" "log_at (flog s) start bs" "length bs + n \<le> 27"
    "\<And>b. crefs (bio_abs (lbio (flog s))) b = of_bool (b \<in> set bs) + of_bool (b \<in> H)"
    "\<And>b. cowner (bio_abs (lbio (flog s))) b = (if b \<in> H then Some (cpid p) else None)"
    "\<And>b. b \<notin> set bs \<Longrightarrow> b \<notin> D \<Longrightarrow> cview (bio_abs (lbio (flog s))) b = cstore (bio_abs (lbio (flog s))) b"
    by (rule txE) blast
  show ?thesis
    unfolding fbread_def wp_zoom
  proof (rule wp_mono [OF bc.read_ok [OF s(1) tx_room [OF assms]]], elim conjE)
    fix i t
    assume t: "bio_inv t" "holds t i b" "bio_abs t = c_read (cpid p) b (bio_abs (lbio (flog s)))"
      and k: "\<forall>j c. holds (lbio (flog s)) j c \<longrightarrow> 0 < crefs (bio_abs (lbio (flog s))) c \<longrightarrow> holds t j c"
    have "tx p (s\<lparr>flog := (flog s)\<lparr>lbio := t\<rparr>\<rparr>) (insert b H) D n"
      by (rule tx_lbio [OF t(1) s(2,3) _ _ s(6,7)]) (use s t(3) assms(2) in \<open>auto simp: c_read_def\<close>)
    then show "tx p (flog_update (\<lambda>_. (flog s)\<lparr>lbio := t\<rparr>) s) (insert b H) D n \<and> fbuf (flog_update (\<lambda>_. (flog s)\<lparr>lbio := t\<rparr>) s) i b \<and>
        vw (flog_update (\<lambda>_. (flog s)\<lparr>lbio := t\<rparr>) s) = vw s \<and> only_log s (flog_update (\<lambda>_. (flog s)\<lparr>lbio := t\<rparr>) s) \<and>
        (\<forall>j c. c \<in> H \<longrightarrow> fbuf s j c \<longrightarrow> fbuf (flog_update (\<lambda>_. (flog s)\<lparr>lbio := t\<rparr>) s) j c)"
      using t k s(8) by (simp add: fbuf_def vw_def c_read_def)
  qed
qed

lemma fbset_tx:
  assumes "tx p s H D n" and "fbuf s i b" and "b \<in> H" and "length d = BSIZE"
  shows "wp (fbset i d) (\<lambda>_ t. tx p t H (insert b D) n \<and> fbuf t = fbuf s \<and> vw t = (vw s)(b := d) \<and> only_log s t) s"
proof -
  from assms(1) obtain start bs where s: "bio_inv (lbio (flog s))" "0 < n \<longrightarrow> 1 \<le> outstanding (flog s)" "lsize (flog s) = int LOGSIZE"
    "finite H" "D \<subseteq> H" "log_at (flog s) start bs" "length bs + n \<le> 27"
    "\<And>b. crefs (bio_abs (lbio (flog s))) b = of_bool (b \<in> set bs) + of_bool (b \<in> H)"
    "\<And>b. cowner (bio_abs (lbio (flog s))) b = (if b \<in> H then Some (cpid p) else None)"
    "\<And>b. b \<notin> set bs \<Longrightarrow> b \<notin> D \<Longrightarrow> cview (bio_abs (lbio (flog s))) b = cstore (bio_abs (lbio (flog s))) b"
    by (rule txE) blast
  have h: "holds (lbio (flog s)) i b" "cowner (bio_abs (lbio (flog s))) b = Some (cpid p)" using assms(2,3) s(9) by (simp_all add: fbuf_def)
  show ?thesis
    unfolding fbset_def wp_zoom
  proof (rule wp_mono [OF bc.put_ok [OF s(1) h assms(4)]], elim conjE)
    fix t assume t: "bio_inv t" "holds t = holds (lbio (flog s))" "bio_abs t = c_put b d (bio_abs (lbio (flog s)))"
    have "tx p (s\<lparr>flog := (flog s)\<lparr>lbio := t\<rparr>\<rparr>) H (insert b D) n"
      by (rule tx_lbio [OF t(1) s(2,3,4) _ s(6,7)]) (use s t(3) assms(3) in \<open>auto simp: c_put_def\<close>)
    then show "tx p (flog_update (\<lambda>_. (flog s)\<lparr>lbio := t\<rparr>) s) H (insert b D) n \<and> fbuf (flog_update (\<lambda>_. (flog s)\<lparr>lbio := t\<rparr>) s) = fbuf s \<and>
        vw (flog_update (\<lambda>_. (flog s)\<lparr>lbio := t\<rparr>) s) = (vw s)(b := d) \<and> only_log s (flog_update (\<lambda>_. (flog s)\<lparr>lbio := t\<rparr>) s)"
      using t by (simp add: fbuf_def vw_def c_put_def)
  qed
qed

lemma fbrelse_tx:
  assumes "tx p s H D n" and "fbuf s i b" and "b \<in> H" and "b \<notin> D"
  shows "wp (fbrelse p i) (\<lambda>_ t. tx p t (H - {b}) D n \<and> fbuf t = fbuf s \<and> vw t = vw s \<and> only_log s t) s"
proof -
  from assms(1) obtain start bs where s: "bio_inv (lbio (flog s))" "0 < n \<longrightarrow> 1 \<le> outstanding (flog s)" "lsize (flog s) = int LOGSIZE"
    "finite H" "D \<subseteq> H" "log_at (flog s) start bs" "length bs + n \<le> 27"
    "\<And>b. crefs (bio_abs (lbio (flog s))) b = of_bool (b \<in> set bs) + of_bool (b \<in> H)"
    "\<And>b. cowner (bio_abs (lbio (flog s))) b = (if b \<in> H then Some (cpid p) else None)"
    "\<And>b. b \<notin> set bs \<Longrightarrow> b \<notin> D \<Longrightarrow> cview (bio_abs (lbio (flog s))) b = cstore (bio_abs (lbio (flog s))) b"
    by (rule txE) blast
  have h: "holds (lbio (flog s)) i b" "cowner (bio_abs (lbio (flog s))) b = Some (cpid p)" using assms(2,3) s(9) by (simp_all add: fbuf_def)
  have c: "crefs (bio_abs (lbio (flog s))) b = 1 \<Longrightarrow> cview (bio_abs (lbio (flog s))) b = cstore (bio_abs (lbio (flog s))) b"
    using s(8,10) assms(3,4) by (auto split: if_splits)
  show ?thesis
    unfolding fbrelse_def wp_zoom
  proof (rule wp_mono [OF bc.relse_ok [OF s(1) h c]], assumption, elim conjE)
    fix t assume t: "bio_inv t" "holds t = holds (lbio (flog s))" "bio_abs t = c_relse b (bio_abs (lbio (flog s)))"
    have "tx p (s\<lparr>flog := (flog s)\<lparr>lbio := t\<rparr>\<rparr>) (H - {b}) D n"
      by (rule tx_lbio [OF t(1) s(2,3) _ _ s(6,7)]) (use s t(3) assms(3,4) in \<open>auto simp: c_relse_def\<close>)
    then show "tx p (flog_update (\<lambda>_. (flog s)\<lparr>lbio := t\<rparr>) s) (H - {b}) D n \<and> fbuf (flog_update (\<lambda>_. (flog s)\<lparr>lbio := t\<rparr>) s) = fbuf s \<and>
        vw (flog_update (\<lambda>_. (flog s)\<lparr>lbio := t\<rparr>) s) = vw s \<and> only_log s (flog_update (\<lambda>_. (flog s)\<lparr>lbio := t\<rparr>) s)"
      using t by (simp add: fbuf_def vw_def c_relse_def)
  qed
qed

lemma flog_write_tx:
  assumes "tx p s H D (Suc n)" and "fbuf s i b" and "b \<in> H"
  shows "wp (flog_write i) (\<lambda>_ t. tx p t H (D - {b}) n \<and> fbuf t = fbuf s \<and> vw t = vw s \<and> only_log s t) s"
proof -
  from assms(1) obtain start bs where s: "bio_inv (lbio (flog s))" "1 \<le> outstanding (flog s)" "lsize (flog s) = int LOGSIZE"
    "finite H" "D \<subseteq> H" "log_at (flog s) start bs" "length bs + Suc n \<le> 27"
    "\<And>b. crefs (bio_abs (lbio (flog s))) b = of_bool (b \<in> set bs) + of_bool (b \<in> H)"
    "\<And>b. cowner (bio_abs (lbio (flog s))) b = (if b \<in> H then Some (cpid p) else None)"
    "\<And>b. b \<notin> set bs \<Longrightarrow> b \<notin> D \<Longrightarrow> cview (bio_abs (lbio (flog s))) b = cstore (bio_abs (lbio (flog s))) b"
    by (rule txE) simp
  have r: "0 < crefs (bio_abs (lbio (flog s))) b" "crefs (bio_abs (lbio (flog s))) b < 2 ^ 32 - 1"
    using s(8) assms(3) by (simp_all add: of_bool_def)
  have room: "length bs < LOGSIZE" "int (length bs) < lsize (flog s) - 1" "0 < outstanding (flog s)"
    using s(2,3,7) by (simp_all add: LOGSIZE_def)
  show ?thesis
    unfolding flog_write_def wp_zoom
  proof (rule wp_mono [OF log_write_spec [OF s(1,6) assms(2) [unfolded fbuf_def] r room]], elim conjE)
    fix l
    assume l: "bio_inv (lbio l)" "if b \<in> set bs then l = flog s else log_at l start (bs @ [b]) \<and>
      bio_abs (lbio l) = c_pin b (bio_abs (lbio (flog s))) \<and> holds (lbio l) = holds (lbio (flog s)) \<and> lsize l = lsize (flog s) \<and>
      outstanding l = outstanding (flog s)"
    have "tx p (s\<lparr>flog := l\<rparr>) H (D - {b}) n"
    proof (cases "b \<in> set bs")
      case True
      then show ?thesis
        using l s unfolding tx_def Let_def by (auto intro!: exI [of _ start] exI [of _ bs])
    next
      case False
      have "log_at l start (bs @ [b])" using l(2) False by simp
      moreover have "length (bs @ [b]) + n \<le> 27" using s(7) by simp
      moreover have "crefs (bio_abs (lbio l)) x = of_bool (x \<in> set (bs @ [b])) + of_bool (x \<in> H)"
          "cowner (bio_abs (lbio l)) x = (if x \<in> H then Some (cpid p) else None)"
          "x \<notin> set (bs @ [b]) \<Longrightarrow> x \<notin> D - {b} \<Longrightarrow> cview (bio_abs (lbio l)) x = cstore (bio_abs (lbio l)) x" for x
        using l(2) False s(8-10) by (auto simp: c_pin_def)
      ultimately show ?thesis
        unfolding tx_def Let_def using l False s(2-5) by (auto intro!: exI [of _ start] exI [of _ "bs @ [b]"])
    qed
    then show "tx p (flog_update (\<lambda>_. l) s) H (D - {b}) n \<and> fbuf (flog_update (\<lambda>_. l) s) = fbuf s \<and>
        vw (flog_update (\<lambda>_. l) s) = vw s \<and> only_log s (flog_update (\<lambda>_. l) s)"
      using l(2) by (auto simp: fbuf_def vw_def c_pin_def split: if_splits)
  qed
qed

interpretation ft: txn tx vw fbuf only_log "\<lambda>p. fbread p ROOTDEV" fbdata fbset flog_write fbrelse
proof unfold_locales
  fix p s H D n i b
  assume t: "tx p s H D n"
  show "length (vw s b) = BSIZE" using t by (elim txE) (simp add: vw_def bc.view_length)
  assume "fbuf s i b" "b \<in> H"
  then show "fbdata i s = Ok (vw s b) s"
    using t by (elim txE) (simp add: fbdata_def zoom_def vw_def fbuf_def bc.get_ok [of _ _ _ "cpid p"])
qed (erule fbread_tx fbset_tx flog_write_tx fbrelse_tx only_log_trans; assumption)+

subsection \<open>The start of a transaction\<close>

text \<open>There is such a state for every contents of the disk: after \<^verbatim>\<open>binit\<close> and the first \<^verbatim>\<open>begin_op\<close>.\<close>

lemma tx_start:
  assumes "\<And>b. length (d b) = BSIZE"
  shows "\<exists>s. tx p s {} {} 27 \<and> vw s = d \<and> sb s = S \<and> itable s = it \<and> fmem s = m \<and> stk s = k"
proof -
  have "zeroed (boot_bio\<lparr>disk := d\<rparr>)" using boot_bio_zeroed assms by (simp add: zeroed_def)
  then obtain b where b: "bio_inv b"
    "bio_abs b = \<lparr>cview = d, cstore = d, crefs = \<lambda>_. 0, cowner = \<lambda>_. None, ctrace = written (boot_bio\<lparr>disk := d\<rparr>)\<rparr>"
    using binit_spec [of "boot_bio\<lparr>disk := d\<rparr>"] by (auto elim!: wpE)
  let ?l = "\<lparr>lbio = b, lstart = 2, lsize = 30, outstanding = 1, committing = False, ldev = ROOTDEV, lhn = 0, lhblock = replicate 30 0\<rparr> :: log"
  let ?s = "\<lparr>flog = ?l, sb = S, itable = it, fmem = m, stk = k\<rparr> :: fsys"
  have "log_at ?l 2 []" by (simp add: log_at_def LOGSIZE_def)
  then have "tx p ?s {} {} 27" unfolding tx_def Let_def using b by (auto simp: LOGSIZE_def intro!: exI [of _ 2] exI [of _ "[]"])
  then show ?thesis using b(2) by (intro exI [of _ ?s]) (simp add: vw_def)
qed

end
