(* ===== verification/Balloc.thy ===== *)
theory Balloc
  imports Txn
begin

text \<open>
  The block allocator of \<^verbatim>\<open>fs.c\<close>: what \<^verbatim>\<open>balloc\<close>, \<^verbatim>\<open>bfree\<close> and \<^verbatim>\<open>bzero\<close> do to the array of blocks, in terms
  of the set of blocks that the bitmap says are in use.
\<close>

subsection \<open>Bits of a bitmap block\<close>

lemma bit_used_bit: "bit_used d bi \<longleftrightarrow> bit (d ! (bi div 8)) (bi mod 8)"
  by (simp add: bit_used_def push_bit_of_1 and_exp_eq_0_iff_not_bit)

lemma bit_used_mark:
  assumes "length d = BSIZE" and "bi < BPB"
  shows "bit_used (mark_bit bi d) bj \<longleftrightarrow> bj = bi \<or> bit_used d bj"
proof -
  have l: "bi div 8 < length d" using assms by (simp add: BPB_def BSIZE_def)
  have e: "bj = bi \<longleftrightarrow> bj div 8 = bi div 8 \<and> bj mod 8 = bi mod 8" by (metis div_mod_decomp)
  show ?thesis
    using l by (cases "bj div 8 = bi div 8") (auto simp: bit_used_bit mark_bit_def bit_simps e)
qed

lemma bit_used_clear:
  assumes "length d = BSIZE" and "bi < BPB"
  shows "bit_used (clear_bit bi d) bj \<longleftrightarrow> bj \<noteq> bi \<and> bit_used d bj"
proof -
  have l: "bi div 8 < length d" using assms by (simp add: BPB_def BSIZE_def)
  have e: "bj = bi \<longleftrightarrow> bj div 8 = bi div 8 \<and> bj mod 8 = bi mod 8" by (metis div_mod_decomp)
  show ?thesis
    using l by (cases "bj div 8 = bi div 8") (auto simp: bit_used_bit clear_bit_def bit_simps e)
qed

lemma first_free_Some: "first_free d n = Some bi \<Longrightarrow> bi < n \<and> \<not> bit_used d bi"
  by (auto simp: first_free_def find_Some_iff)

lemma first_free_None: "first_free d n = None \<Longrightarrow> bi < n \<Longrightarrow> bit_used d bi"
  by (auto simp: first_free_def find_None_iff)

subsection \<open>Blocks in use\<close>

definition used :: "fsys \<Rightarrow> u32 \<Rightarrow> bool" where
  "used s b \<longleftrightarrow> bit_used (vw s (BBLOCK b (sb s))) (unat (b mod of_nat BPB))"

lemma bpb: "unat (of_nat BPB :: u32) = 8192" "BPB = 8192" by (simp_all add: BPB_def BSIZE_def)

lemma unat_mod_bpb: "unat (b mod of_nat BPB :: u32) = unat b mod BPB"
  by (simp add: unat_mod bpb)

lemma bit_index_less: "unat (b mod of_nat BPB :: u32) < BPB"
  unfolding unat_mod_bpb by (simp add: bpb)

text \<open>Block \<open>b + i\<close> of the group that starts at a multiple \<open>b\<close> of \<open>BPB\<close> has bit \<open>i\<close> of the same bitmap block.\<close>

lemma group_member:
  assumes "BPB dvd unat b" and "i < BPB" and "unat b + i < 2 ^ 32"
  shows "unat (b + of_nat i) = unat b + i" and "BBLOCK (b + of_nat i) S = BBLOCK b S" and "unat ((b + of_nat i) mod of_nat BPB) = i"
proof -
  have u: "unat (of_nat i :: u32) = i" using assms(2) by (simp add: unat_of_nat_small bpb)
  show s: "unat (b + of_nat i) = unat b + i" using assms(3) u by (simp add: unat_word_ariths)
  have "(unat b + i) div BPB = unat b div BPB" "(unat b + i) mod BPB = i"
    using assms(1,2) by (auto elim!: dvdE simp: bpb)
  then have "(b + of_nat i) div of_nat BPB = b div of_nat BPB" "unat ((b + of_nat i) mod of_nat BPB) = i"
    using s by (simp_all add: word_unat_eq_iff unat_div unat_mod bpb)
  then show "BBLOCK (b + of_nat i) S = BBLOCK b S" "unat ((b + of_nat i) mod of_nat BPB) = i"
    by (simp_all add: BBLOCK_def)
qed

lemma used_group:
  assumes "BPB dvd unat b" and "i < BPB" and "unat b + i < 2 ^ 32"
  shows "used s (b + of_nat i) \<longleftrightarrow> bit_used (vw s (BBLOCK b (sb s))) i"
  using group_member [OF assms] by (simp add: used_def)

text \<open>The blocks that a process may hold while it allocates: blocks in use, and not the bitmap.\<close>

definition held_ok :: "fsys \<Rightarrow> u32 set \<Rightarrow> bool" where
  "held_ok s H \<longleftrightarrow> card H \<le> 2 \<and> (\<forall>h \<in> H. h < sb_size (sb s) \<longrightarrow> used s h) \<and> (\<forall>x. x < sb_size (sb s) \<longrightarrow> BBLOCK x (sb s) \<notin> H)"

text \<open>What an allocation of block \<open>r\<close> makes of the blocks.\<close>

definition allocated :: "superblock \<Rightarrow> u32 \<Rightarrow> (u32 \<Rightarrow> block) \<Rightarrow> u32 \<Rightarrow> block" where
  "allocated S r v = v(BBLOCK r S := mark_bit (unat (r mod of_nat BPB)) (v (BBLOCK r S)), r := replicate BSIZE 0)"

subsection \<open>Clearing a block\<close>

lemma bzero_tx:
  assumes "tx p s H {} (Suc n)" and "b \<notin> H" and "card H \<le> 2"
    and "\<And>t. tx p t H {} n \<Longrightarrow> vw t = (vw s)(b := replicate BSIZE 0) \<Longrightarrow> only_log s t \<Longrightarrow>
      (\<And>j c. c \<in> H \<Longrightarrow> fbuf s j c \<Longrightarrow> fbuf t j c) \<Longrightarrow> wp K Q t"
  shows "wp (andthen (bzero p ROOTDEV b) K) Q s"
proof -
  have "wp (fbread p ROOTDEV b) (\<lambda>i. wp (andthen (fbset i (replicate BSIZE 0)) (andthen (flog_write i) (andthen (fbrelse p i) K))) Q) s"
  proof (rule wp_mono [OF ft.rd_ok [OF assms(1-3)]], elim conjE)
    fix i t
    assume t: "tx p t (insert b H) {} (Suc n)" "fbuf t i b" "vw t = vw s" "only_log s t"
      and k: "\<forall>j c. c \<in> H \<longrightarrow> fbuf s j c \<longrightarrow> fbuf t j c"
    show "wp (andthen (fbset i (replicate BSIZE 0)) (andthen (flog_write i) (andthen (fbrelse p i) K))) Q t"
    proof (rule ft.save_block [OF t(1,2)])
      fix u assume u: "tx p u (insert b H) {} n" "fbuf u = fbuf t" "vw u = (vw t)(b := replicate BSIZE 0)" "only_log t u"
      have "fbuf u i b" using u(2) t(2) by simp
      then show "wp (andthen (fbrelse p i) K) Q u"
        by (rule ft.close_block [OF u(1) _ assms(2)])
          (use u t k only_log_trans [OF only_log_trans [OF t(4) u(4)]] in \<open>auto intro!: assms(4)\<close>)
    qed simp
  qed
  then show ?thesis by (simp add: bzero_def wp_bnd wp_andthen)
qed

subsection \<open>Allocation\<close>

text \<open>
  The loop of \<^verbatim>\<open>balloc\<close> from block \<open>b\<close> on, the first of a bitmap block: it takes the first free block, or finds that
  there is none.
\<close>

definition balloc_result :: "cur \<Rightarrow> u32 set \<Rightarrow> nat \<Rightarrow> fsys \<Rightarrow> nat \<Rightarrow> u32 \<Rightarrow> fsys \<Rightarrow> bool" where
  "balloc_result p H n s low r t \<longleftrightarrow> only_log s t \<and> (\<forall>j c. c \<in> H \<longrightarrow> fbuf s j c \<longrightarrow> fbuf t j c) \<and>
     ((r = 0 \<and> tx p t H {} (Suc (Suc n)) \<and> vw t = vw s \<and> (\<forall>x. low \<le> unat x \<longrightarrow> x < sb_size (sb s) \<longrightarrow> used s x)) \<or>
      (r < sb_size (sb s) \<and> \<not> used s r \<and> tx p t H {} n \<and> vw t = allocated (sb s) r (vw s)))"

lemma balloc_result_later:
  assumes "balloc_result p H n t (low + BPB) r u" and "vw t = vw s" "only_log s t" "\<And>j c. c \<in> H \<Longrightarrow> fbuf s j c \<Longrightarrow> fbuf t j c"
    and "\<And>x. low \<le> unat x \<Longrightarrow> unat x < low + BPB \<Longrightarrow> x < sb_size (sb s) \<Longrightarrow> used s x"
  shows "balloc_result p H n s low r u"
proof -
  have sb: "sb t = sb s" using assms(3) by (rule only_log_simps)
  then have us: "used t x = used s x" for x using assms(2) by (simp add: used_def)
  have "used s x" if "low \<le> unat x" "x < sb_size (sb s)" "\<forall>x. low + BPB \<le> unat x \<longrightarrow> x < sb_size (sb s) \<longrightarrow> used s x" for x
    using that assms(5) by (meson not_le)
  then show ?thesis
    using assms(1-4) only_log_trans [OF assms(3)] unfolding balloc_result_def sb us assms(2) by blast
qed

lemma balloc_from_result:
  assumes "tx p s H {} (Suc (Suc n))" and "held_ok s H" and "BPB dvd unat b" and "unat (sb_size (sb s)) < 2 ^ 31"
    and "unat b < unat (sb_size (sb s)) + BPB" and "unat (sb_size (sb s)) + BPB \<le> unat b + fuel * BPB"
  shows "wp (balloc_from fuel p ROOTDEV b) (balloc_result p H n s (unat b)) s"
  using assms
proof (induction fuel arbitrary: s b)
  case 0
  then show ?case by simp
next
  case (Suc fuel)
  let ?z = "sb_size (sb s)" let ?bb = "BBLOCK b (sb s)"
  show ?case
  proof (cases "b < ?z")
    case False
    have "\<not> (unat b \<le> unat x \<and> x < ?z)" for x using False by (auto simp: word_less_nat_alt)
    then have "balloc_result p H n s (unat b) 0 s"
      using Suc.prems(1) by (auto simp: balloc_result_def only_log_def)
    then show ?thesis using False by (simp add: wp_bnd wp_gets wp_ret)
  next
    case True
    have H: "card H \<le> 2" "?bb \<notin> H" using Suc.prems(2) True by (auto simp: held_ok_def)
    let ?n = "min BPB (unat ?z - unat b)"
    have u32: "unat b + i < 2 ^ 32" if "i < BPB" for i using that Suc.prems(4,5) by (simp add: bpb)
    note mem = group_member [OF Suc.prems(3) _ u32]
    have "wp (bnd (fbread p ROOTDEV ?bb) (\<lambda>bp. bnd (fbdata bp) (\<lambda>x. case first_free x ?n of
         Some bi \<Rightarrow> andthen (fbset bp (mark_bit bi x)) (andthen (flog_write bp) (andthen (fbrelse p bp)
           (andthen (bzero p ROOTDEV (b + of_nat bi)) (ret (b + of_nat bi)))))
       | None \<Rightarrow> andthen (fbrelse p bp) (balloc_from fuel p ROOTDEV (b + of_nat BPB)))))
      (balloc_result p H n s (unat b)) s"
    proof (rule ft.open_block [OF Suc.prems(1) H(2,1)])
      fix i t
      assume t: "tx p t (insert ?bb H) {} (Suc (Suc n))" "fbuf t i ?bb" "vw t = vw s" "only_log s t" "length (vw s ?bb) = BSIZE"
        and k: "\<And>j c. c \<in> H \<Longrightarrow> fbuf s j c \<Longrightarrow> fbuf t j c"
      show "wp (case first_free (vw s ?bb) ?n of
           Some bi \<Rightarrow> andthen (fbset i (mark_bit bi (vw s ?bb))) (andthen (flog_write i) (andthen (fbrelse p i)
             (andthen (bzero p ROOTDEV (b + of_nat bi)) (ret (b + of_nat bi)))))
         | None \<Rightarrow> andthen (fbrelse p i) (balloc_from fuel p ROOTDEV (b + of_nat BPB)))
        (balloc_result p H n s (unat b)) t"
      proof (cases "first_free (vw s ?bb) ?n")
        case None
        have low: "used s x" if "unat b \<le> unat x" "unat x < unat b + BPB" "x < ?z" for x
        proof -
          let ?i = "unat x - unat b"
          have "?i < ?n" using that unfolding word_less_nat_alt min_less_iff_conj by linarith
          moreover have "x = b + of_nat ?i" using that mem(1) [of ?i] by (simp add: word_unat_eq_iff)
          ultimately show ?thesis
            using first_free_None [OF None, of ?i] used_group [OF Suc.prems(3), of ?i s] u32 [of ?i] by simp
        qed
        have "wp (andthen (fbrelse p i) (balloc_from fuel p ROOTDEV (b + of_nat BPB))) (balloc_result p H n s (unat b)) t"
        proof (rule ft.close_block [OF t(1,2) H(2)])
          fix u assume u: "tx p u H {} (Suc (Suc n))" "fbuf u = fbuf t" "vw u = vw t" "only_log t u"
          have su: "only_log s u" by (rule only_log_trans [OF t(4) u(4)])
          have sb: "sb u = sb s" by (rule only_log_simps(1) [OF su])
          have v: "vw u = vw s" using u(3) t(3) by simp
          have nb: "unat (b + of_nat BPB) = unat b + BPB"
            using Suc.prems(4,5) by (simp add: unat_word_ariths bpb)
          have "wp (balloc_from fuel p ROOTDEV (b + of_nat BPB)) (balloc_result p H n u (unat b + BPB)) u"
            unfolding nb [symmetric] using Suc.prems True u(1) sb v nb
            by (intro Suc.IH) (auto simp: held_ok_def used_def word_less_nat_alt bpb)
          then show "wp (balloc_from fuel p ROOTDEV (b + of_nat BPB)) (balloc_result p H n s (unat b)) u"
            by (rule wp_mono) (erule balloc_result_later, use v su u(2) k low in auto)
        qed
        then show ?thesis using None by simp
      next
        case (Some bi)
        have bi: "bi < BPB" "unat b + bi < unat ?z" "\<not> bit_used (vw s ?bb) bi"
          using first_free_Some [OF Some] by auto
        let ?r = "b + of_nat bi"
        have r: "unat ?r = unat b + bi" "BBLOCK ?r (sb s) = ?bb" "unat (?r mod of_nat BPB) = bi" using mem [OF bi(1) bi(1)] by simp_all
        have fr: "\<not> used s ?r" "?r < ?z" using bi r by (simp_all add: used_def word_less_nat_alt)
        then have rH: "?r \<notin> H" using Suc.prems(2) by (auto simp: held_ok_def)
        have len: "length (mark_bit bi (vw s ?bb)) = BSIZE" using t(5) by (simp add: mark_bit_def)
        have "wp (andthen (fbset i (mark_bit bi (vw s ?bb))) (andthen (flog_write i) (andthen (fbrelse p i)
            (andthen (bzero p ROOTDEV ?r) (ret ?r))))) (balloc_result p H n s (unat b)) t"
        proof (rule ft.save_block [OF t(1,2) len])
          fix u assume u: "tx p u (insert ?bb H) {} (Suc n)" "fbuf u = fbuf t" "vw u = (vw t)(?bb := mark_bit bi (vw s ?bb))" "only_log t u"
          have "fbuf u i ?bb" using u(2) t(2) by simp
          then show "wp (andthen (fbrelse p i) (andthen (bzero p ROOTDEV ?r) (ret ?r))) (balloc_result p H n s (unat b)) u"
          proof (rule ft.close_block [OF u(1) _ H(2)])
            fix w assume w: "tx p w H {} (Suc n)" "fbuf w = fbuf u" "vw w = vw u" "only_log u w"
            show "wp (andthen (bzero p ROOTDEV ?r) (ret ?r)) (balloc_result p H n s (unat b)) w"
            proof (rule bzero_tx [OF w(1) rH H(1)])
              fix x assume x: "tx p x H {} n" "vw x = (vw w)(?r := replicate BSIZE 0)" "only_log w x"
                "\<And>j c. c \<in> H \<Longrightarrow> fbuf w j c \<Longrightarrow> fbuf x j c"
              have "only_log s x" using t(4) u(4) w(4) x(3) by (meson only_log_trans)
              moreover have "vw x = allocated (sb s) ?r (vw s)" using x(2) w(3) u(3) t(3) r by (simp add: allocated_def)
              ultimately show "wp (ret ?r) (balloc_result p H n s (unat b)) x"
                using x(1,4) w(2) u(2) k fr by (simp add: wp_ret balloc_result_def)
            qed
          qed
        qed
        then show ?thesis using Some by simp
      qed
    qed
    then show ?thesis using True by (simp add: wp_bnd wp_gets)
  qed
qed

lemma balloc_tx:
  assumes "tx p s H {} (Suc (Suc n))" and "held_ok s H" and "unat (sb_size (sb s)) < 2 ^ 31"
  shows "wp (balloc p ROOTDEV) (balloc_result p H n s 0) s"
proof -
  have "unat (sb_size (sb s)) + BPB \<le> unat (0 :: u32) + (unat (sb_size (sb s)) div BPB + 2) * BPB" by (simp add: bpb)
  then have "wp (balloc_from (unat (sb_size (sb s)) div BPB + 2) p ROOTDEV 0) (balloc_result p H n s (unat (0 :: u32))) s"
    using assms by (intro balloc_from_result) (simp_all add: bpb)
  then show ?thesis by (simp add: balloc_def wp_bnd wp_gets)
qed

lemma bblock_inj:
  assumes "BBLOCK x S = BBLOCK y S" and "unat (x mod of_nat BPB) = unat (y mod of_nat BPB)"
  shows "x = y"
proof -
  have "x div of_nat BPB = y div of_nat BPB" using assms(1) by (simp add: BBLOCK_def)
  then have "unat x div BPB = unat y div BPB" by (metis unat_div bpb)
  moreover have "unat x mod BPB = unat y mod BPB" using assms(2) by (simp add: unat_mod_bpb)
  ultimately show ?thesis by (metis div_mod_decomp word_unat_eq_iff)
qed

text \<open>Block 0 and the blocks of the bitmap itself are in use, as \<^verbatim>\<open>mkfs\<close> leaves them.\<close>

definition bitmap_ok :: "fsys \<Rightarrow> bool" where
  "bitmap_ok s \<longleftrightarrow> used s 0 \<and> (\<forall>x. x < sb_size (sb s) \<longrightarrow> used s (BBLOCK x (sb s)))"

lemma used_allocated:
  assumes "vw t = allocated (sb s) r (vw s)" and "sb t = sb s" and "\<not> used s r" and "bitmap_ok s" and "x < sb_size (sb s)"
    and "\<And>b. length (vw s b) = BSIZE"
  shows "used t x \<longleftrightarrow> x = r \<or> used s x"
proof -
  have nr: "BBLOCK x (sb s) \<noteq> r" using assms(3-5) by (auto simp: bitmap_ok_def)
  have m: "unat (r mod of_nat BPB) < BPB" by (rule bit_index_less)
  show ?thesis
  proof (cases "BBLOCK x (sb s) = BBLOCK r (sb s)")
    case True
    then show ?thesis
      using nr bit_used_mark [OF assms(6) m] bblock_inj [OF True] assms(1,2) by (auto simp: used_def allocated_def)
  next
    case False
    then show ?thesis using nr assms(1,2) by (auto simp: used_def allocated_def)
  qed
qed

text \<open>
  C27: inside a transaction \<^verbatim>\<open>balloc\<close> returns a block that was free, marks exactly that block as used, fills it with
  zeros and changes no other block but its bitmap block; it returns 0 without changing a block only if every block
  of the file system is in use.
\<close>

theorem balloc_allocates:
  assumes "tx p s {} {} (Suc (Suc n))" and "bitmap_ok s" and "unat (sb_size (sb s)) < 2 ^ 31"
  shows "wp (balloc p ROOTDEV) (\<lambda>r t. only_log s t \<and>
    (if r = 0 then vw t = vw s \<and> (\<forall>x. x < sb_size (sb s) \<longrightarrow> used s x)
     else r < sb_size (sb s) \<and> \<not> used s r \<and> vw t r = replicate BSIZE 0 \<and>
       (\<forall>x. x < sb_size (sb s) \<longrightarrow> used t x = (x = r \<or> used s x)) \<and>
       (\<forall>b. b \<noteq> r \<longrightarrow> b \<noteq> BBLOCK r (sb s) \<longrightarrow> vw t b = vw s b) \<and> tx p t {} {} n)) s"
proof -
  have "held_ok s {}" by (simp add: held_ok_def)
  then have "wp (balloc p ROOTDEV) (balloc_result p {} n s 0) s" using assms by (intro balloc_tx) simp_all
  then show ?thesis
  proof (rule wp_mono)
    fix r t assume b: "balloc_result p {} n s 0 r t"
    have l: "only_log s t" and sb: "sb t = sb s" using b only_log_simps(1) by (auto simp: balloc_result_def)
    have nz: "\<not> used s r \<Longrightarrow> r \<noteq> 0" using assms(2) by (auto simp: bitmap_ok_def)
    show "only_log s t \<and> (if r = 0 then vw t = vw s \<and> (\<forall>x. x < sb_size (sb s) \<longrightarrow> used s x)
     else r < sb_size (sb s) \<and> \<not> used s r \<and> vw t r = replicate BSIZE 0 \<and>
       (\<forall>x. x < sb_size (sb s) \<longrightarrow> used t x = (x = r \<or> used s x)) \<and>
       (\<forall>b. b \<noteq> r \<longrightarrow> b \<noteq> BBLOCK r (sb s) \<longrightarrow> vw t b = vw s b) \<and> tx p t {} {} n)"
      using b l nz used_allocated [OF _ sb _ assms(2) _ ft.vw_length [OF assms(1)]]
      by (auto simp: balloc_result_def) (auto simp: allocated_def)
  qed
qed

subsection \<open>Freeing\<close>

text \<open>
  C28: inside a transaction \<^verbatim>\<open>bfree\<close> of a block in use marks exactly that block as free and changes no block but the
  bitmap block; \<^verbatim>\<open>bfree\<close> of a free block panics.
\<close>

theorem bfree_frees:
  assumes "tx p s {} {} (Suc n)"
  shows "if used s b
    then wp (bfree p ROOTDEV b) (\<lambda>_ t. only_log s t \<and> tx p t {} {} n \<and> (\<forall>x. used t x = (x \<noteq> b \<and> used s x)) \<and>
      (\<forall>x. x \<noteq> BBLOCK b (sb s) \<longrightarrow> vw t x = vw s x)) s
    else \<exists>t. bfree p ROOTDEV b s = Err (Panic ''freeing free block'') t"
proof -
  let ?bb = "BBLOCK b (sb s)" let ?bi = "unat (b mod of_nat BPB)"
  have bi: "?bi < BPB" by (rule bit_index_less)
  have len: "length (vw s x) = BSIZE" for x by (rule ft.vw_length [OF assms])
  show ?thesis
  proof (cases "used s b")
    case True
    have "wp (bnd (fbread p ROOTDEV ?bb) (\<lambda>bp. bnd (fbdata bp) (\<lambda>x.
        if \<not> bit_used x ?bi then panic ''freeing free block''
        else andthen (fbset bp (clear_bit ?bi x)) (andthen (flog_write bp) (fbrelse p bp)))))
      (\<lambda>_ t. only_log s t \<and> tx p t {} {} n \<and> vw t = (vw s)(?bb := clear_bit ?bi (vw s ?bb))) s"
    proof (rule ft.open_block [OF assms])
      fix i t
      assume t: "tx p t (insert ?bb {}) {} (Suc n)" "fbuf t i ?bb" "vw t = vw s" "only_log s t"
      have "wp (andthen (fbset i (clear_bit ?bi (vw s ?bb))) (andthen (flog_write i) (andthen (fbrelse p i) (ret ()))))
        (\<lambda>_ t. only_log s t \<and> tx p t {} {} n \<and> vw t = (vw s)(?bb := clear_bit ?bi (vw s ?bb))) t"
      proof (rule ft.save_block [OF t(1,2)])
        show "length (clear_bit ?bi (vw s ?bb)) = BSIZE" using len by (simp add: clear_bit_def)
        fix u assume u: "tx p u (insert ?bb {}) {} n" "fbuf u = fbuf t" "vw u = (vw t)(?bb := clear_bit ?bi (vw s ?bb))" "only_log t u"
        have "fbuf u i ?bb" using u(2) t(2) by simp
        then show "wp (andthen (fbrelse p i) (ret ())) (\<lambda>_ t. only_log s t \<and> tx p t {} {} n \<and> vw t = (vw s)(?bb := clear_bit ?bi (vw s ?bb))) u"
          by (rule ft.close_block [OF u(1)])
            (use u t only_log_trans [OF only_log_trans [OF t(4) u(4)]] in \<open>auto simp: wp_ret\<close>)
      qed
      then show "wp (if \<not> bit_used (vw s ?bb) ?bi then panic ''freeing free block''
          else andthen (fbset i (clear_bit ?bi (vw s ?bb))) (andthen (flog_write i) (fbrelse p i)))
        (\<lambda>_ t. only_log s t \<and> tx p t {} {} n \<and> vw t = (vw s)(?bb := clear_bit ?bi (vw s ?bb))) t"
        using True by (simp add: used_def wp_andthen wp_ret_fun)
    qed simp_all
    then have "wp (bfree p ROOTDEV b) (\<lambda>_ t. only_log s t \<and> tx p t {} {} n \<and> vw t = (vw s)(?bb := clear_bit ?bi (vw s ?bb))) s"
      by (simp add: bfree_def wp_bnd wp_gets Let_def)
    then have "wp (bfree p ROOTDEV b) (\<lambda>_ t. only_log s t \<and> tx p t {} {} n \<and> (\<forall>x. used t x = (x \<noteq> b \<and> used s x)) \<and>
      (\<forall>x. x \<noteq> BBLOCK b (sb s) \<longrightarrow> vw t x = vw s x)) s"
    proof (rule wp_mono)
      fix u t assume t: "only_log s t \<and> tx p t {} {} n \<and> vw t = (vw s)(?bb := clear_bit ?bi (vw s ?bb))"
      have sb: "sb t = sb s" using t only_log_simps(1) by blast
      have "used t x = (x \<noteq> b \<and> used s x)" for x
        using t sb bit_used_clear [OF len bi] bblock_inj [of x "sb s" b] by (auto simp: used_def)
      then show "only_log s t \<and> tx p t {} {} n \<and> (\<forall>x. used t x = (x \<noteq> b \<and> used s x)) \<and>
        (\<forall>x. x \<noteq> BBLOCK b (sb s) \<longrightarrow> vw t x = vw s x)" using t by simp
    qed
    then show ?thesis using True by simp
  next
    case False
    obtain i t where "fbread p ROOTDEV ?bb s = Ok i t" "tx p t {?bb} {} (Suc n)" "fbuf t i ?bb" "vw t = vw s"
      using ft.rd_ok [OF assms, of ?bb] by (auto elim!: wpE)
    then have "bfree p ROOTDEV b s = Err (Panic ''freeing free block'') t"
      using False ft.gt_ok [of p t "{?bb}" "{}" "Suc n" i ?bb] by (simp add: bfree_def run_simps used_def Let_def)
    then show ?thesis using False by simp
  qed
qed

subsection \<open>An example\<close>

text \<open>A file system of 2000 blocks whose bitmap, block 45, marks the blocks 0 to 46 as used.\<close>

definition sample_disk :: "u32 \<Rightarrow> block" where
  "sample_disk b = (if b = 45 then [0xFF, 0xFF, 0xFF, 0xFF, 0xFF, 0x7F] @ replicate 1018 0 else replicate 1024 0)"

definition sample_sb :: superblock where
  "sample_sb = \<lparr>sb_magic = FSMAGIC, sb_size = 2000, sb_nblocks = 1953, sb_ninodes = 200, sb_nlog = 30, sb_logstart = 2,
     sb_inodestart = 32, sb_bmapstart = 45\<rparr>"

lemma sample_bblock:
  assumes "x < 2000"
  shows "BBLOCK x sample_sb = 45"
proof -
  have "unat x < 2000" using assms by (simp add: word_less_nat_alt)
  then have "unat x div BPB = 0" by (simp add: bpb)
  then have "x div of_nat BPB = 0" by (simp add: word_unat_eq_iff unat_div bpb)
  then show ?thesis by (simp add: BBLOCK_def sample_sb_def)
qed

lemma sample_bitmap_ok:
  assumes "vw s = sample_disk" and "sb s = sample_sb"
  shows "bitmap_ok s" and "used s 0" and "\<not> used s 50"
proof -
  have b: "BBLOCK 0 sample_sb = 45" "BBLOCK 45 sample_sb = 45" "BBLOCK 50 sample_sb = 45" by (simp_all add: sample_bblock)
  have u: "used s 0" "used s 45" "\<not> used s 50"
    using assms b by (simp_all add: used_def sample_disk_def bit_used_def bpb)
  moreover have "sb_size sample_sb = 2000" by (simp add: sample_sb_def)
  ultimately show "bitmap_ok s" and "used s 0" and "\<not> used s 50"
    using assms by (auto simp: bitmap_ok_def sample_bblock)
qed

lemma sample_tx:
  "\<exists>s. tx p s {} {} 27 \<and> vw s = sample_disk \<and> sb s = sample_sb"
proof -
  have "length (sample_disk b) = BSIZE" for b by (simp add: sample_disk_def BSIZE_def)
  from tx_start [of sample_disk p sample_sb, OF this] show ?thesis by blast
qed

theorem balloc_allocates_witness:
  "\<exists>s. bitmap_ok s \<and> wp (balloc \<lparr>cpid = 1, cpagetable = 0, ccwd = 0\<rparr> ROOTDEV) (\<lambda>r t. only_log s t \<and>
    (if r = 0 then vw t = vw s \<and> (\<forall>x. x < sb_size (sb s) \<longrightarrow> used s x)
     else r < sb_size (sb s) \<and> \<not> used s r \<and> vw t r = replicate BSIZE 0 \<and>
       (\<forall>x. x < sb_size (sb s) \<longrightarrow> used t x = (x = r \<or> used s x)) \<and>
       (\<forall>b. b \<noteq> r \<longrightarrow> b \<noteq> BBLOCK r (sb s) \<longrightarrow> vw t b = vw s b) \<and> tx \<lparr>cpid = 1, cpagetable = 0, ccwd = 0\<rparr> t {} {} 25)) s"
proof -
  obtain s where s: "tx \<lparr>cpid = 1, cpagetable = 0, ccwd = 0\<rparr> s {} {} 27" "vw s = sample_disk" "sb s = sample_sb"
    using sample_tx by blast
  have "tx \<lparr>cpid = 1, cpagetable = 0, ccwd = 0\<rparr> s {} {} (Suc (Suc 25))" using s(1) by simp
  then show ?thesis
    using balloc_allocates [of _ s 25] sample_bitmap_ok(1) [OF s(2,3)] s(3) by (intro exI [of _ s]) (simp add: sample_sb_def)
qed

theorem bfree_frees_witness:
  "\<exists>s. used s 0 \<and> \<not> used s 50 \<and> wp (bfree \<lparr>cpid = 1, cpagetable = 0, ccwd = 0\<rparr> ROOTDEV 0) (\<lambda>_ t. \<not> used t 0) s \<and>
     (\<exists>t. bfree \<lparr>cpid = 1, cpagetable = 0, ccwd = 0\<rparr> ROOTDEV 50 s = Err (Panic ''freeing free block'') t)"
proof -
  let ?p = "\<lparr>cpid = 1, cpagetable = 0, ccwd = 0\<rparr> :: cur"
  obtain s where s: "tx ?p s {} {} 27" "vw s = sample_disk" "sb s = sample_sb" using sample_tx by blast
  have t: "tx ?p s {} {} (Suc 26)" using s(1) by simp
  note u = sample_bitmap_ok(2,3) [OF s(2,3)]
  have "wp (bfree ?p ROOTDEV 0) (\<lambda>_ t. \<not> used t 0) s"
    using bfree_frees [OF t, of 0] u by (auto elim: wp_mono)
  moreover have "\<exists>t. bfree ?p ROOTDEV 50 s = Err (Panic ''freeing free block'') t"
    using bfree_frees [OF t, of 50] u by simp
  ultimately show ?thesis using u by blast
qed

end
