(* ===== verification/Pagetable.thy ===== *)
theory Pagetable
  imports Vm
begin

text \<open>
  What the page-table code means. A page table of \<open>l + 1\<close> levels is a tree of pages in memory; \<open>tabs\<close>
  is its set of table pages, \<open>tree\<close> says that no page is shared, and \<open>pteval\<close> is the function from
  virtual addresses to leaf entries that the tree represents (0 where there is none). The operations
  of \<^verbatim>\<open>vm.c\<close> are shown to update that function.
\<close>

subsection \<open>The tree of table pages\<close>

definition slot :: "u64 \<Rightarrow> nat \<Rightarrow> u64" where
  "slot pt i = pt + 8 * of_nat i"

definition idx :: "nat \<Rightarrow> u64 \<Rightarrow> nat" where
  "idx l va = unat (PX l va)"

definition child :: "memory \<Rightarrow> u64 \<Rightarrow> nat \<Rightarrow> u64 option" where
  "child m pt i = (let v = load64 m (slot pt i) in if v AND PTE_V \<noteq> 0 then Some (PTE2PA v) else None)"

fun tabs :: "memory \<Rightarrow> nat \<Rightarrow> u64 \<Rightarrow> u64 set" where
  "tabs m 0 pt = {pt}"
| "tabs m (Suc l) pt = insert pt (\<Union>i<512. case child m pt i of None \<Rightarrow> {} | Some c \<Rightarrow> tabs m l c)"

fun tree :: "memory \<Rightarrow> nat \<Rightarrow> u64 \<Rightarrow> bool" where
  "tree m 0 pt \<longleftrightarrow> True"
| "tree m (Suc l) pt \<longleftrightarrow>
     (\<forall>i<512. \<forall>c. child m pt i = Some c \<longrightarrow> tree m l c \<and> pt \<notin> tabs m l c) \<and>
     (\<forall>i<512. \<forall>j<512. \<forall>c d. i \<noteq> j \<longrightarrow> child m pt i = Some c \<longrightarrow> child m pt j = Some d \<longrightarrow>
        tabs m l c \<inter> tabs m l d = {})"

fun leaf :: "memory \<Rightarrow> nat \<Rightarrow> u64 \<Rightarrow> u64 \<Rightarrow> u64 option" where
  "leaf m 0 pt va = Some (slot pt (idx 0 va))"
| "leaf m (Suc l) pt va = (case child m pt (idx (Suc l) va) of None \<Rightarrow> None | Some c \<Rightarrow> leaf m l c va)"

definition pteval :: "memory \<Rightarrow> nat \<Rightarrow> u64 \<Rightarrow> u64 \<Rightarrow> u64" where
  "pteval m l pt va = (case leaf m l pt va of None \<Rightarrow> 0 | Some a \<Rightarrow> load64 m a)"

text \<open>Two addresses that a table of \<open>l + 1\<close> levels cannot tell apart.\<close>

definition same_index :: "nat \<Rightarrow> u64 \<Rightarrow> u64 \<Rightarrow> bool" where
  "same_index l va va' \<longleftrightarrow> (\<forall>k\<le>l. idx k va = idx k va')"

lemma idx_bound [simp]: "idx l va < 512"
proof -
  have "PX l va \<le> 0x1FF" unfolding PX_def by (rule word_and_le1)
  then show ?thesis by (simp add: idx_def word_le_nat_alt)
qed

lemma slot_idx: "pt + 8 * PX l va = slot pt (idx l va)"
  by (simp add: slot_def idx_def)

lemma slot_cell: "slot pt i = cell pt i"
  by (simp add: slot_def cell_def)

lemma slot_bytes: "i < 512 \<Longrightarrow> k < 8 \<Longrightarrow> in_page pt (slot pt i + of_nat k)"
  by (simp only: slot_cell cell_bytes_in_page)

lemma slot_in_page: "i < 512 \<Longrightarrow> in_page pt (slot pt i)"
  using slot_bytes [of i 0 pt] by simp

lemma load_slot_cong:
  assumes "\<And>a. in_page pt a \<Longrightarrow> m' a = m a" and "i < 512"
  shows "load64 m' (slot pt i) = load64 m (slot pt i)"
  by (rule load64_cong) (use assms slot_bytes in auto)

lemma child_cong:
  assumes "\<And>a. in_page pt a \<Longrightarrow> m' a = m a" and "i < 512"
  shows "child m' pt i = child m pt i"
  unfolding child_def using load_slot_cong [OF assms] by simp

lemma root_in_tabs [simp]: "pt \<in> tabs m l pt"
  by (cases l) auto

lemma tabs_child: "i < 512 \<Longrightarrow> child m pt i = Some c \<Longrightarrow> tabs m l c \<subseteq> tabs m (Suc l) pt"
  using UN_upper [of i "{..<512}" "\<lambda>i. case child m pt i of None \<Rightarrow> {} | Some c \<Rightarrow> tabs m l c"]
  by (auto simp del: UN_iff)

lemma tree_child:
  "tree m (Suc l) pt \<Longrightarrow> i < 512 \<Longrightarrow> child m pt i = Some c \<Longrightarrow> tree m l c \<and> pt \<notin> tabs m l c"
  by simp

text \<open>Everything depends on the table pages only.\<close>

lemma tabs_cong:
  assumes "\<And>p a. p \<in> tabs m l pt \<Longrightarrow> in_page p a \<Longrightarrow> m' a = m a"
  shows "tabs m' l pt = tabs m l pt"
  using assms
proof (induction l arbitrary: pt)
  case (Suc l)
  have c: "child m' pt i = child m pt i" if "i < 512" for i
    using Suc.prems that by (intro child_cong) auto
  have "tabs m' l c = tabs m l c" if "i < 512" "child m pt i = Some c" for i c
    using Suc.prems tabs_child [OF that] by (intro Suc.IH) blast
  with c show ?case by (auto split: option.splits)
qed simp

lemma tree_cong:
  assumes "\<And>p a. p \<in> tabs m l pt \<Longrightarrow> in_page p a \<Longrightarrow> m' a = m a"
  shows "tree m' l pt \<longleftrightarrow> tree m l pt"
  using assms
proof (induction l arbitrary: pt)
  case (Suc l)
  have c: "child m' pt i = child m pt i" if "i < 512" for i
    using Suc.prems that by (intro child_cong) auto
  have sub: "tabs m' l c = tabs m l c" "tree m' l c \<longleftrightarrow> tree m l c"
    if "i < 512" "child m pt i = Some c" for i c
    using Suc.prems tabs_child [OF that] by (intro tabs_cong Suc.IH; blast)+
  show ?case unfolding tree.simps using c sub by (auto; blast)
qed simp

lemma leaf_cong:
  assumes "\<And>p a. p \<in> tabs m l pt \<Longrightarrow> in_page p a \<Longrightarrow> m' a = m a"
  shows "leaf m' l pt va = leaf m l pt va"
  using assms
proof (induction l arbitrary: pt)
  case (Suc l)
  have c: "child m' pt (idx (Suc l) va) = child m pt (idx (Suc l) va)"
    using Suc.prems by (intro child_cong) auto
  have "leaf m' l c va = leaf m l c va" if "child m pt (idx (Suc l) va) = Some c" for c
    using Suc.prems tabs_child [OF idx_bound that] by (intro Suc.IH) blast
  with c show ?case by (auto split: option.splits)
qed simp

lemma leaf_in_tabs:
  "leaf m l pt va = Some a \<Longrightarrow> \<exists>p \<in> tabs m l pt. a = slot p (idx 0 va)"
proof (induction l arbitrary: pt)
  case (Suc l)
  then obtain c where c: "child m pt (idx (Suc l) va) = Some c" "leaf m l c va = Some a"
    by (auto split: option.splits)
  from Suc.IH [OF c(2)] tabs_child [OF idx_bound c(1)] show ?case by blast
qed simp

lemma pteval_cong:
  assumes "\<And>p a. p \<in> tabs m l pt \<Longrightarrow> in_page p a \<Longrightarrow> m' a = m a"
  shows "pteval m' l pt va = pteval m l pt va"
proof -
  have "load64 m' a = load64 m a" if "leaf m l pt va = Some a" for a
    using leaf_in_tabs [OF that] assms load_slot_cong idx_bound by metis
  then show ?thesis using leaf_cong [OF assms] by (auto simp: pteval_def split: option.splits)
qed

lemma pteval_child:
  "pteval m (Suc l) pt va =
   (case child m pt (idx (Suc l) va) of None \<Rightarrow> 0 | Some c \<Rightarrow> pteval m l c va)"
  by (simp add: pteval_def split: option.split)

subsection \<open>Changing one subtree\<close>

text \<open>
  \<open>confined m m' P\<close>: the memories differ only inside the pages \<open>P\<close>.
\<close>

definition confined :: "memory \<Rightarrow> memory \<Rightarrow> u64 set \<Rightarrow> bool" where
  "confined m m' P \<longleftrightarrow> (\<forall>a. m' a \<noteq> m a \<longrightarrow> (\<exists>p \<in> P. in_page p a))"

lemma confinedD:
  assumes "confined m m' P" and "\<forall>q \<in> P. aligned q" and "aligned p" and "p \<notin> P" and "in_page p a"
  shows "m' a = m a"
  using assms unfolding confined_def by (metis pages_disjoint)

lemma confined_mono: "confined m m' P \<Longrightarrow> P \<subseteq> Q \<Longrightarrow> confined m m' Q"
  unfolding confined_def by blast

lemma confined_trans: "confined m m1 P \<Longrightarrow> confined m1 m2 P \<Longrightarrow> confined m m2 P"
  unfolding confined_def by metis

lemma confined_refl [simp]: "confined m m P"
  by (simp add: confined_def)

lemma subtree_change:
  assumes tr: "tree m (Suc l) pt" and i: "i < 512" and c: "child m pt i = Some c"
    and tr': "tree m' l c" and conf: "confined m m' (tabs m' l c)"
    and new: "tabs m' l c \<subseteq> tabs m l c \<union> F" and F: "F \<inter> tabs m (Suc l) pt = {}"
    and al: "\<forall>p \<in> tabs m (Suc l) pt \<union> F. aligned p"
  shows "\<And>j. j < 512 \<Longrightarrow> child m' pt j = child m pt j"
    and "\<And>j d. j < 512 \<Longrightarrow> j \<noteq> i \<Longrightarrow> child m pt j = Some d \<Longrightarrow>
      (\<forall>p \<in> tabs m l d. \<forall>a. in_page p a \<longrightarrow> m' a = m a)"
    and "tree m' (Suc l) pt"
    and "tabs m' (Suc l) pt = (tabs m (Suc l) pt - tabs m l c) \<union> tabs m' l c"
    and "tabs m' l c \<subseteq> tabs m' (Suc l) pt"
proof -
  have cs: "tabs m l c \<subseteq> tabs m (Suc l) pt" by (rule tabs_child [OF i c])
  have al': "\<forall>q \<in> tabs m' l c. aligned q" using new cs al by blast
  have untouched: "m' a = m a" if "p \<in> tabs m (Suc l) pt" "p \<notin> tabs m l c" "in_page p a" for p a
    using confinedD [OF conf al' _ _ that(3)] that new F al by blast
  have pt: "pt \<notin> tabs m l c" using tr i c by auto
  show ch: "child m' pt j = child m pt j" if "j < 512" for j
    using untouched [OF _ pt] that by (intro child_cong) auto
  show other: "\<forall>p \<in> tabs m l d. \<forall>a. in_page p a \<longrightarrow> m' a = m a"
    if "j < 512" "j \<noteq> i" "child m pt j = Some d" for j d
  proof (intro ballI allI impI)
    fix p a assume p: "p \<in> tabs m l d" "in_page p a"
    have "tabs m l d \<inter> tabs m l c = {}" using tr that i c by auto
    then show "m' a = m a" using untouched p tabs_child [OF that(1,3)] by blast
  qed
  have same: "tabs m' l d = tabs m l d" "tree m' l d \<longleftrightarrow> tree m l d"
    if "j < 512" "j \<noteq> i" "child m pt j = Some d" for j d
    using other [OF that] by (intro tabs_cong tree_cong; blast)+
  have disj: "tabs m' l c \<inter> tabs m l d = {}" if "j < 512" "j \<noteq> i" "child m pt j = Some d" for j d
  proof -
    have "tabs m l d \<inter> tabs m l c = {}" using tr that i c by auto
    then show ?thesis using new F tabs_child [OF that(1,3)] by blast
  qed
  have pt': "pt \<notin> tabs m' l c" using pt new F by auto
  show "tree m' (Suc l) pt"
    unfolding tree.simps
  proof (intro conjI allI impI)
    fix j d assume j: "j < 512" "child m' pt j = Some d"
    show "tree m' l d" "pt \<notin> tabs m' l d"
      using j ch tr tr' pt' c i same by (cases "j = i"; auto)+
  next
    fix j k d e
    assume jk: "j < 512" "k < 512" "j \<noteq> k" and "child m' pt j = Some d" "child m' pt k = Some e"
    then have de: "child m pt j = Some d" "child m pt k = Some e" using ch by auto
    consider "j = i" "k \<noteq> i" | "j \<noteq> i" "k = i" | "j \<noteq> i" "k \<noteq> i" using jk(3) by blast
    then show "tabs m' l d \<inter> tabs m' l e = {}"
    proof cases
      case 1
      then show ?thesis using de c disj [OF jk(2) _ de(2)] same [OF jk(2) _ de(2)] by simp
    next
      case 2
      then show ?thesis
        using de c disj [OF jk(1) _ de(1)] same [OF jk(1) _ de(1)] by (simp add: Int_commute)
    next
      case 3
      then show ?thesis
        using tr jk de same [OF jk(1) _ de(1)] same [OF jk(2) _ de(2)] by simp
    qed
  qed
  show "tabs m' (Suc l) pt = (tabs m (Suc l) pt - tabs m l c) \<union> tabs m' l c" (is "?L = ?R")
  proof (intro set_eqI iffI)
    fix p assume "p \<in> ?L"
    then consider "p = pt" | j d where "j < 512" "child m' pt j = Some d" "p \<in> tabs m' l d"
      by (auto split: option.splits)
    then show "p \<in> ?R"
    proof cases
      case 1
      then show ?thesis using pt by simp
    next
      case 2
      then have d: "child m pt j = Some d" using ch by simp
      show ?thesis
      proof (cases "j = i")
        case True
        then show ?thesis using 2 c d by simp
      next
        case False
        then have "tabs m l d \<inter> tabs m l c = {}" using tr 2(1) d i c by auto
        then show ?thesis using 2 same [OF 2(1) False d] tabs_child [OF 2(1) d] by blast
      qed
    qed
  next
    fix p assume "p \<in> ?R"
    then consider "p = pt" | "p \<in> tabs m' l c"
      | j d where "j < 512" "j \<noteq> i" "child m pt j = Some d" "p \<in> tabs m l d"
      using c by (auto split: option.splits)
    then show "p \<in> ?L"
    proof cases
      case 2
      then show ?thesis using tabs_child [of i m' pt c l] i c ch by auto
    next
      case 3
      then show ?thesis using same [OF 3(1-3)] ch [OF 3(1)] tabs_child [of j m' pt d l] by auto
    qed simp
  qed
  show "tabs m' l c \<subseteq> tabs m' (Suc l) pt" by (rule tabs_child) (use i c ch in auto)
qed

subsection \<open>Entries\<close>

lemma bit_aligned: "aligned q \<Longrightarrow> n < 12 \<Longrightarrow> \<not> bit q n"
proof -
  assume "aligned q" "n < 12"
  then have "take_bit 12 q = 0" by (simp add: aligned_def take_bit_eq_mod PGSIZE_def)
  then have "\<not> bit (take_bit 12 q) n" by simp
  with \<open>n < 12\<close> show "\<not> bit q n" by (simp add: bit_take_bit_iff)
qed

lemma PTE2PA_PA2PTE:
  assumes "aligned q" and "\<And>n. bit f n \<Longrightarrow> n < 10"
  shows "PTE2PA (PA2PTE q OR f) = q"
proof (rule bit_word_eqI)
  fix n assume n: "n < LENGTH(64)"
  have "\<not> bit f (n - 12 + 10)" if "12 \<le> n" using assms(2) [of "n - 12 + 10"] by auto
  then show "bit (PTE2PA (PA2PTE q OR f)) n \<longleftrightarrow> bit q n"
    using n bit_aligned [OF assms(1), of n]
    by (cases "n < 12") (auto simp: PTE2PA_def PA2PTE_def bit_simps algebra_simps)
qed

lemma PTE_FLAGS_PA2PTE:
  assumes "\<And>n. bit f n \<Longrightarrow> n < 10"
  shows "PTE_FLAGS (PA2PTE q OR f) = f"
proof (rule bit_word_eqI)
  fix n assume "n < LENGTH(64)"
  have "(x :: u64) AND 0x3FF = take_bit 10 x" for x
    by (simp add: take_bit_eq_mask mask_eq_exp_minus_1)
  then show "bit (PTE_FLAGS (PA2PTE q OR f)) n \<longleftrightarrow> bit f n"
    using assms [of n] by (auto simp: PTE_FLAGS_def PA2PTE_def bit_simps)
qed

lemma small_bits: "bit f n \<Longrightarrow> f < 1024 \<Longrightarrow> n < 10" for f :: u64
proof (rule ccontr)
  assume b: "bit f n" and "f < 1024" "\<not> n < 10"
  then have "f = take_bit 10 f" by (simp add: take_bit_eq_mod word_unat_eq_iff unat_mod word_less_nat_alt)
  then have "bit (take_bit 10 f) n" using b by simp
  with \<open>\<not> n < 10\<close> show False by (simp add: bit_take_bit_iff)
qed

lemma valid_or: "(x OR PTE_V) AND PTE_V \<noteq> 0"
proof -
  have "(x OR PTE_V) AND PTE_V = PTE_V" by (rule bit_word_eqI) (auto simp: bit_simps)
  then show ?thesis by (simp add: PTE_V_def)
qed

lemma slot_store:
  assumes "i < 512" and "j < 512"
  shows "load64 (store64 m (slot pt i) v) (slot pt j) = (if i = j then v else load64 m (slot pt j))"
proof (cases "i = j")
  case False
  have "\<not> unat (slot pt j + of_nat k - slot pt i) < 8" if "k < 8" for k
  proof -
    have "slot pt j + of_nat k - slot pt i = (of_nat (8 * j + k) :: u64) - of_nat (8 * i)"
      by (simp add: slot_def)
    moreover have "unat ((of_nat (8 * j + k) :: u64) - of_nat (8 * i)) =
        (if 8 * i \<le> 8 * j + k then 8 * j + k - 8 * i else 8 * j + k + 2 ^ 64 - 8 * i)"
      using assms that unat_of_nat_small [where 'a = 64, of "8 * j + k"] unat_of_nat_small [where 'a = 64, of "8 * i"]
      by (simp add: unat_sub_if' del: of_nat_add of_nat_mult)
    ultimately have "unat (slot pt j + of_nat k - slot pt i) =
        (if 8 * i \<le> 8 * j + k then 8 * j + k - 8 * i else 8 * j + k + 2 ^ 64 - 8 * i)"
      by (simp only:)
    then show ?thesis using False assms that by auto
  qed
  then show ?thesis using False by (simp add: load64_store64_other)
qed simp

lemma store_slot_confined:
  assumes "i < 512"
  shows "confined m (store64 m (slot pt i) v) {pt}"
  unfolding confined_def
proof (intro allI impI)
  fix a assume "store64 m (slot pt i) v a \<noteq> m a"
  then have "unat (a - slot pt i) < 8" by (simp add: store64_apply split: if_splits)
  then have "in_page pt (slot pt i + of_nat (unat (a - slot pt i)))"
    using assms by (intro slot_bytes)
  then show "\<exists>p \<in> {pt}. in_page p a" by simp
qed

subsection \<open>Storing a leaf entry\<close>

lemma store_leaf:
  assumes "tree m l pt" and "\<forall>p \<in> tabs m l pt. aligned p" and "leaf m l pt va = Some a"
  shows "tree (store64 m a v) l pt" and "tabs (store64 m a v) l pt = tabs m l pt"
    and "confined m (store64 m a v) (tabs m l pt)"
    and "leaf (store64 m a v) l pt va' = leaf m l pt va'"
    and "pteval (store64 m a v) l pt va' = (if same_index l va va' then v else pteval m l pt va')"
proof -
  have "tree (store64 m a v) l pt \<and> tabs (store64 m a v) l pt = tabs m l pt \<and>
    confined m (store64 m a v) (tabs m l pt) \<and>
    (\<forall>va'. leaf (store64 m a v) l pt va' = leaf m l pt va' \<and>
      pteval (store64 m a v) l pt va' = (if same_index l va va' then v else pteval m l pt va'))"
    using assms
  proof (induction l arbitrary: pt)
    case 0
    then have "a = slot pt (idx 0 va)" by simp
    then show ?case
      by (auto simp: pteval_def same_index_def slot_store store_slot_confined)
  next
    case (Suc l)
    let ?m = "store64 m a v" and ?i = "idx (Suc l) va"
    obtain c where c: "child m pt ?i = Some c" "leaf m l c va = Some a"
      using Suc.prems(3) by (auto split: option.splits)
    note sub = tabs_child [OF idx_bound c(1)]
    have sub': "tree m l c" "\<forall>p \<in> tabs m l c. aligned p"
      using tree_child [OF Suc.prems(1) idx_bound c(1)] Suc.prems(2) sub by blast+
    have IH: "tree ?m l c" "tabs ?m l c = tabs m l c" "confined m ?m (tabs m l c)"
      "\<And>va'. leaf ?m l c va' = leaf m l c va'"
      "\<And>va'. pteval ?m l c va' = (if same_index l va va' then v else pteval m l c va')"
      using Suc.IH [OF sub' c(2)] by blast+
    have conf: "confined m ?m (tabs ?m l c)" using IH by simp
    note ch = subtree_change [OF Suc.prems(1) idx_bound c(1) IH(1) conf, of "{}"]
    have child: "child ?m pt j = child m pt j" if "j < 512" for j
      using ch(1) that IH(2) Suc.prems(2) by auto
    have other: "\<forall>p \<in> tabs m l d. \<forall>a. in_page p a \<longrightarrow> ?m a = m a"
      if "j < 512" "j \<noteq> ?i" "child m pt j = Some d" for j d
      using ch(2) that IH(2) Suc.prems(2) by auto
    have "tree ?m (Suc l) pt" using ch(3) IH(2) Suc.prems(2) by auto
    moreover have "tabs ?m (Suc l) pt = tabs m (Suc l) pt"
      using ch(4) IH(2) Suc.prems(2) sub by auto
    moreover have "confined m ?m (tabs m (Suc l) pt)" using IH(3) sub by (rule confined_mono)
    moreover have "leaf ?m (Suc l) pt va' = leaf m (Suc l) pt va' \<and>
        pteval ?m (Suc l) pt va' = (if same_index (Suc l) va va' then v else pteval m (Suc l) pt va')" for va'
    proof (cases "idx (Suc l) va' = ?i")
      case True
      then show ?thesis
        using child c IH(4,5) by (auto simp: pteval_child same_index_def le_Suc_eq)
    next
      case False
      have "leaf ?m l d va' = leaf m l d va' \<and> pteval ?m l d va' = pteval m l d va'"
        if "child m pt (idx (Suc l) va') = Some d" for d
        using other [OF idx_bound False that] by (intro conjI leaf_cong pteval_cong) auto
      then show ?thesis using False child [OF idx_bound]
        by (auto simp: pteval_child same_index_def split: option.splits)
    qed
    ultimately show ?case by blast
  qed
  then show "tree (store64 m a v) l pt" and "tabs (store64 m a v) l pt = tabs m l pt"
    and "confined m (store64 m a v) (tabs m l pt)"
    and "leaf (store64 m a v) l pt va' = leaf m l pt va'"
    and "pteval (store64 m a v) l pt va' = (if same_index l va va' then v else pteval m l pt va')"
    by blast+
qed

subsection \<open>Adding a table page\<close>

lemma zero_table:
  assumes "\<And>a. in_page q a \<Longrightarrow> m a = 0"
  shows "load64 m (slot q i) = 0 \<or> 512 \<le> i" and "tabs m l q = {q}" and "tree m l q" and "pteval m l q va = 0"
proof -
  have z: "load64 m (slot q i) = 0" if "i < 512" for i
  proof -
    have "load64 m (slot q i) = load64 (\<lambda>_. 0) (slot q i)"
      by (rule load64_cong) (use assms that slot_bytes in auto)
    then show ?thesis by (simp add: load64_def upt_rec)
  qed
  then show "load64 m (slot q i) = 0 \<or> 512 \<le> i" by (meson not_le)
  have c: "child m q i = None" if "i < 512" for i using z [OF that] by (simp add: child_def)
  show "tabs m l q = {q}" and "tree m l q" using c by (cases l; simp)+
  show "pteval m l q va = 0"
    using c [OF idx_bound] z [OF idx_bound] by (cases l) (simp_all add: pteval_def)
qed

definition link_page :: "memory \<Rightarrow> u64 \<Rightarrow> u64 \<Rightarrow> memory" where
  "link_page m a q = store64 (memset m q 0 (ucast PGSIZE)) a (PA2PTE q OR PTE_V)"

lemma add_table:
  assumes tr: "tree m (Suc l) pt" and i: "i < 512" and no: "child m pt i = None"
    and q: "aligned q" "q \<notin> tabs m (Suc l) pt" and al: "\<forall>p \<in> tabs m (Suc l) pt. aligned p"
  defines "m' \<equiv> link_page m (slot pt i) q"
  shows "child m' pt i = Some q" and "tree m' (Suc l) pt"
    and "tabs m' (Suc l) pt = insert q (tabs m (Suc l) pt)"
    and "confined m m' {pt, q}" and "pteval m' (Suc l) pt va = pteval m (Suc l) pt va"
proof -
  let ?m1 = "memset m q 0 (ucast PGSIZE)"
  have pt: "aligned pt" "pt \<noteq> q" using al q(2) by auto
  have m1: "?m1 a = m a" if "\<not> in_page q a" for a using that by (simp add: memset_page)
  have m': "m' a = ?m1 a" if "\<not> in_page pt a" for a
    using store_slot_confined [OF i, of ?m1 pt] that unfolding m'_def link_page_def confined_def by blast
  show conf: "confined m m' {pt, q}" unfolding confined_def using m1 m' by (metis insertI1 insertI2)
  have z: "m' a = 0" if "in_page q a" for a
    using m' [of a] that pages_disjoint [OF q(1) pt(1) that] pt(2) by (auto simp: memset_page)
  note zq = zero_table(2-4) [OF z]
  have l1: "load64 ?m1 (slot pt j) = load64 m (slot pt j)" if "j < 512" for j
    using m1 pages_disjoint [OF pt(1) q(1)] pt(2) that by (intro load_slot_cong) metis+
  have "load64 m' (slot pt j) = (if i = j then PA2PTE q OR PTE_V else load64 m (slot pt j))" if "j < 512" for j
    using slot_store [OF i that, of ?m1 pt "PA2PTE q OR PTE_V"] l1 [OF that] by (simp add: m'_def link_page_def)
  moreover have "PTE2PA (PA2PTE q OR PTE_V) = q"
    by (rule PTE2PA_PA2PTE [OF q(1)]) (rule small_bits, auto simp: PTE_V_def)
  moreover have "(PA2PTE q OR PTE_V) AND PTE_V \<noteq> 0"
    by (rule valid_or)
  ultimately have ch: "child m' pt j = (if j = i then Some q else child m pt j)" if "j < 512" for j
    using that by (auto simp: child_def)
  then show "child m' pt i = Some q" using i by simp
  have other: "m' a = m a" if "p \<in> tabs m l d" "j < 512" "child m pt j = Some d" "in_page p a" for p j d a
  proof -
    have "p \<in> tabs m (Suc l) pt" "p \<noteq> pt"
      using tabs_child [OF that(2,3)] that(1) tree_child [OF tr that(2,3)] by auto
    then have "\<not> in_page pt a" "\<not> in_page q a"
      using that(4) al pt q pages_disjoint by metis+
    then show ?thesis using m1 m' by simp
  qed
  have same: "tabs m' l d = tabs m l d" "tree m' l d \<longleftrightarrow> tree m l d" "pteval m' l d va = pteval m l d va"
    if "j < 512" "child m pt j = Some d" for j d
    using other [OF _ that] by (intro tabs_cong tree_cong pteval_cong; blast)+
  have ji: "j \<noteq> i" if "child m pt j = Some d" for j d using no that by auto
  show "tree m' (Suc l) pt"
    unfolding tree.simps
  proof (intro conjI allI impI)
    fix j d assume "j < 512" "child m' pt j = Some d"
    then show "tree m' l d" "pt \<notin> tabs m' l d"
      using ch zq pt tr same by (cases "j = i"; simp)+
  next
    fix j k d e
    assume jk: "j < 512" "k < 512" "j \<noteq> k" and "child m' pt j = Some d" "child m' pt k = Some e"
    moreover have "q \<notin> tabs m l d'" if "j' < 512" "child m pt j' = Some d'" for j' d'
      using tabs_child [OF that] q(2) by blast
    ultimately show "tabs m' l d \<inter> tabs m' l e = {}"
      using ch [OF jk(1)] ch [OF jk(2)] zq(1) same(1) [OF jk(1)] same(1) [OF jk(2)] tr
      by (auto split: if_splits)
  qed
  show "tabs m' (Suc l) pt = insert q (tabs m (Suc l) pt)"
  proof -
    have "(case child m' pt j of None \<Rightarrow> {} | Some c \<Rightarrow> tabs m' l c) =
      (if j = i then {q} else case child m pt j of None \<Rightarrow> {} | Some c \<Rightarrow> tabs m l c)" if "j < 512" for j
      using ch [OF that] zq(1) same(1) [OF that] by (auto split: option.splits)
    then show ?thesis using i no by (auto split: if_splits)
  qed
  show "pteval m' (Suc l) pt va = pteval m (Suc l) pt va"
    using ch [OF idx_bound] zq(3) same(3) [OF idx_bound] no
    by (auto simp: pteval_child split: option.splits)
qed

subsection \<open>What walk does\<close>

text \<open>
  \<open>pt_inv s l pt\<close>: a well-formed table of \<open>l + 1\<close> levels whose pages are allocated. \<open>grows s t l pt\<close>:
  between \<open>s\<close> and \<open>t\<close> the table at \<open>pt\<close> may have taken free pages as new table pages, the entries it
  represents are unchanged, and memory changed inside its table pages only.
\<close>

definition pt_inv :: "kmem \<Rightarrow> nat \<Rightarrow> u64 \<Rightarrow> bool" where
  "pt_inv s l pt \<longleftrightarrow> kmem_inv s \<and> tree (mem s) l pt \<and>
     (\<forall>p \<in> tabs (mem s) l pt. page_ok s p \<and> p \<notin> free_pages s)"

definition grows :: "kmem \<Rightarrow> kmem \<Rightarrow> nat \<Rightarrow> u64 \<Rightarrow> bool" where
  "grows s t l pt \<longleftrightarrow> pt_inv t l pt \<and> page_ok t = page_ok s \<and> free_pages t \<subseteq> free_pages s \<and>
     tabs (mem s) l pt \<subseteq> tabs (mem t) l pt \<and>
     tabs (mem t) l pt \<subseteq> tabs (mem s) l pt \<union> (free_pages s - free_pages t) \<and>
     confined (mem s) (mem t) (tabs (mem t) l pt) \<and>
     (\<forall>va. pteval (mem t) l pt va = pteval (mem s) l pt va)"

lemma grows_refl: "pt_inv s l pt \<Longrightarrow> grows s s l pt"
  by (simp add: grows_def)

lemma grows_trans:
  assumes "grows s t l pt" and "grows t u l pt"
  shows "grows s u l pt"
proof -
  have "confined (mem s) (mem t) (tabs (mem u) l pt)" "confined (mem t) (mem u) (tabs (mem u) l pt)"
    using assms confined_mono unfolding grows_def by blast+
  then have "confined (mem s) (mem u) (tabs (mem u) l pt)" by (rule confined_trans)
  then show ?thesis using assms unfolding grows_def by auto
qed

lemma page_ok_aligned: "kmem_inv s \<Longrightarrow> page_ok s p \<Longrightarrow> aligned p \<and> p \<noteq> 0"
  by (rule ka.usable_page)

lemma pt_inv_aligned: "pt_inv s l pt \<Longrightarrow> \<forall>p \<in> tabs (mem s) l pt. aligned p"
  by (auto simp: pt_inv_def page_ok_aligned)

lemma pt_inv_child:
  assumes "pt_inv s (Suc l) pt" and "i < 512" and "child (mem s) pt i = Some c"
  shows "pt_inv s l c"
  using assms tree_child [OF _ assms(2,3)] tabs_child [OF assms(2,3)] unfolding pt_inv_def by blast

lemma grows_child:
  assumes inv: "pt_inv s (Suc l) pt" and i: "i < 512" and c: "child (mem s) pt i = Some c"
    and g: "grows s t l c"
  shows "grows s t (Suc l) pt" and "child (mem t) pt i = Some c"
proof -
  let ?F = "free_pages s - free_pages t"
  have tr: "tree (mem s) (Suc l) pt" and ok: "\<forall>p \<in> tabs (mem s) (Suc l) pt. page_ok s p \<and> p \<notin> free_pages s"
    and ki: "kmem_inv s" using inv by (auto simp: pt_inv_def)
  have tr': "tree (mem t) l c" and conf: "confined (mem s) (mem t) (tabs (mem t) l c)"
    and new: "tabs (mem t) l c \<subseteq> tabs (mem s) l c \<union> ?F" and ti: "pt_inv t l c"
    and okt: "page_ok t = page_ok s" and fr: "free_pages t \<subseteq> free_pages s"
    and old: "tabs (mem s) l c \<subseteq> tabs (mem t) l c"
    and pv: "\<And>va. pteval (mem t) l c va = pteval (mem s) l c va"
    using g by (auto simp: grows_def pt_inv_def)
  have F: "?F \<inter> tabs (mem s) (Suc l) pt = {}" using ok by blast
  have al: "\<forall>p \<in> tabs (mem s) (Suc l) pt \<union> ?F. aligned p"
    using ok ki page_ok_aligned ka.free_usable by blast
  note ch = subtree_change [OF tr i c tr' conf new F al]
  show "child (mem t) pt i = Some c" using ch(1) i c by simp
  have "page_ok t p \<and> p \<notin> free_pages t" if "p \<in> tabs (mem t) (Suc l) pt" for p
  proof (cases "p \<in> tabs (mem t) l c")
    case True
    then show ?thesis using ti by (simp add: pt_inv_def)
  next
    case False
    then have "p \<in> tabs (mem s) (Suc l) pt" using that ch(4) by blast
    then show ?thesis using ok okt fr by (metis subsetD)
  qed
  then have "pt_inv t (Suc l) pt" using ch(3) ti by (simp add: pt_inv_def)
  moreover have "tabs (mem s) (Suc l) pt \<subseteq> tabs (mem t) (Suc l) pt"
    "tabs (mem t) (Suc l) pt \<subseteq> tabs (mem s) (Suc l) pt \<union> ?F"
    using ch(4) old new tabs_child [OF i c, of l] by blast+
  moreover have "confined (mem s) (mem t) (tabs (mem t) (Suc l) pt)"
    using conf ch(5) by (rule confined_mono)
  moreover have "pteval (mem t) (Suc l) pt va = pteval (mem s) (Suc l) pt va" for va
  proof (cases "idx (Suc l) va = i")
    case True
    then show ?thesis using ch(1) [OF i] c pv by (simp add: pteval_child)
  next
    case False
    have "pteval (mem t) l d va = pteval (mem s) l d va" if "child (mem s) pt (idx (Suc l) va) = Some d" for d
      using ch(2) [OF idx_bound False that] by (intro pteval_cong) blast
    then show ?thesis using ch(1) [OF idx_bound] by (auto simp: pteval_child split: option.splits)
  qed
  ultimately show "grows s t (Suc l) pt" using okt fr by (simp add: grows_def)
qed

lemma slot_nonzero:
  assumes "aligned p" and "p \<noteq> 0" and "i < 512"
  shows "slot p i \<noteq> 0"
proof
  assume "slot p i = 0"
  then have "in_page p 0" using slot_in_page [OF assms(3), of p] by simp
  then have "PGROUNDDOWN 0 = p" using in_page_iff assms(1) by blast
  then show False using assms(2) by (simp add: PGROUNDDOWN_def)
qed

lemma leaf_nonzero:
  assumes "pt_inv s l pt" and "leaf (mem s) l pt va = Some a"
  shows "a \<noteq> 0"
proof -
  obtain p where "p \<in> tabs (mem s) l pt" "a = slot p (idx 0 va)"
    using leaf_in_tabs [OF assms(2)] by blast
  then show ?thesis
    using assms(1) slot_nonzero [OF _ _ idx_bound] page_ok_aligned by (auto simp: pt_inv_def)
qed

text \<open>Without \<^verbatim>\<open>alloc\<close>, \<^verbatim>\<open>walk\<close> changes nothing and returns the address of the leaf entry or 0.\<close>

lemma walk_loop_lookup:
  "walk_loop l pt va False s = Ok (case leaf (mem s) l pt va of None \<Rightarrow> 0 | Some a \<Rightarrow> a) s"
proof (induction l arbitrary: pt)
  case (Suc l)
  then show ?case
    by (auto simp: run_simps Let_def slot_idx child_def split: option.splits)
qed (simp add: run_simps slot_idx)

lemma walk_lookup:
  "va < MAXVA \<Longrightarrow> walk pt va False s = Ok (case leaf (mem s) 2 pt va of None \<Rightarrow> 0 | Some a \<Rightarrow> a) s"
  by (auto simp: walk_def walk_loop_lookup dest: leD)

lemma wp_walk_lookup [wp_simps]:
  "va < MAXVA \<Longrightarrow> wp (walk pt va False) Q s \<longleftrightarrow>
     Q (case leaf (mem s) 2 pt va of None \<Rightarrow> 0 | Some a \<Rightarrow> a) s"
  by (simp add: wp_def walk_lookup)

text \<open>The step that adds a table page, as the allocator's contract allows it.\<close>

lemma link_page_grows:
  assumes inv: "pt_inv s (Suc l) pt" and i: "i < 512" and no: "child (mem s) pt i = None"
    and t: "kmem_inv t" "page_ok t = page_ok s" "q \<in> free_pages s" "free_pages t = free_pages s - {q}"
      "\<And>a. \<not> in_page q a \<Longrightarrow> mem t a = mem s a"
  defines "u \<equiv> mem_store (\<lambda>m. store64 m (slot pt i) (PA2PTE q OR PTE_V))
    (mem_store (\<lambda>m. memset m q 0 (ucast PGSIZE)) t)"
  shows "grows s u (Suc l) pt" and "child (mem u) pt i = Some q"
proof -
  have tr: "tree (mem s) (Suc l) pt" and ok: "\<forall>p \<in> tabs (mem s) (Suc l) pt. page_ok s p \<and> p \<notin> free_pages s"
    and ki: "kmem_inv s" using inv by (auto simp: pt_inv_def)
  have q: "page_ok s q" "aligned q" "q \<notin> tabs (mem s) (Suc l) pt"
    using t(3) ki ka.free_usable page_ok_aligned ok by blast+
  have al: "\<forall>p \<in> tabs (mem s) (Suc l) pt. aligned p" by (rule pt_inv_aligned [OF inv])
  have mu: "mem u = link_page (mem s) (slot pt i) q"
  proof -
    have "memset (mem t) q 0 (ucast PGSIZE) = memset (mem s) q 0 (ucast PGSIZE)"
      using t(5) by (auto simp: memset_page)
    then show ?thesis by (simp add: u_def mem_store_def link_page_def)
  qed
  note ad = add_table [OF tr i no q(2,3) al, folded mu]
  show "child (mem u) pt i = Some q" by (rule ad(1))
  let ?t1 = "mem_store (\<lambda>m. memset m q 0 (ucast PGSIZE)) t"
  have fq: "memset (mem t) q 0 (ucast PGSIZE) a = mem t a" if "p \<in> free_pages t" "in_page p a" for p a
  proof -
    have "aligned p" "p \<noteq> q" using that t(1,4) page_ok_aligned ka.free_usable by auto
    then have "\<not> in_page q a" using that(2) q(2) pages_disjoint by blast
    then show ?thesis by (simp add: memset_page)
  qed
  have t1: "kmem_inv ?t1" "free_pages ?t1 = free_pages t" "page_ok ?t1 = page_ok t"
    using ka.store_ok [OF t(1), of "\<lambda>m. memset m q 0 (ucast PGSIZE)"] fq by simp_all
  have pt: "pt \<notin> free_pages t" using ok t(4) by auto
  have "store64 (mem ?t1) (slot pt i) (PA2PTE q OR PTE_V) a = mem ?t1 a"
    if "p \<in> free_pages ?t1" "in_page p a" for p a
  proof -
    have "p \<in> free_pages t" using that(1) t1(2) by simp
    then have "aligned p" "p \<noteq> pt" "aligned pt"
      using t(1) pt page_ok_aligned ka.free_usable al by (blast, blast, simp)
    then have "\<not> in_page pt a" using that(2) pages_disjoint by blast
    then show ?thesis using store_slot_confined [OF i] unfolding confined_def by blast
  qed
  then have u: "kmem_inv u" "free_pages u = free_pages t" "page_ok u = page_ok t"
    unfolding u_def using ka.store_ok [OF t1(1), of "\<lambda>m. store64 m (slot pt i) (PA2PTE q OR PTE_V)"] t1 by auto
  have "pt_inv u (Suc l) pt"
    unfolding pt_inv_def ad(3) using ad(2) u t(2,4) ok q(1) by auto
  moreover have "confined (mem s) (mem u) (tabs (mem u) (Suc l) pt)"
    using ad(4) by (rule confined_mono) (use ad(3) in \<open>simp del: tabs.simps\<close>)
  ultimately show "grows s u (Suc l) pt"
    using u t(2,4) ad(3,5) t(3) unfolding grows_def by auto
qed

lemma walk_loop_alloc:
  assumes "pt_inv s l pt"
  shows "wp (walk_loop l pt va True) (\<lambda>a t. grows s t l pt \<and>
     (if a = 0 then free_pages t = {} else leaf (mem t) l pt va = Some a)) s"
  using assms
proof (induction l arbitrary: pt s)
  case 0
  then show ?case
    using leaf_nonzero [OF 0, of va] by (simp add: wp_ret slot_idx grows_refl)
next
  case (Suc l)
  let ?i = "idx (Suc l) va"
  have step: "wp (walk_loop l c va True) (\<lambda>a t. grows s t (Suc l) pt \<and>
     (if a = 0 then free_pages t = {} else leaf (mem t) (Suc l) pt va = Some a)) u"
    if g: "grows s u (Suc l) pt" and c: "child (mem u) pt ?i = Some c" for u c
  proof -
    have inv: "pt_inv u (Suc l) pt" using g by (simp add: grows_def)
    show ?thesis
    proof (rule wp_mono [OF Suc.IH [OF pt_inv_child [OF inv idx_bound c]]], elim conjE)
      fix a t
      assume t: "grows u t l c" and a: "if a = 0 then free_pages t = {} else leaf (mem t) l c va = Some a"
      note gc = grows_child [OF inv idx_bound c t]
      show "grows s t (Suc l) pt \<and> (if a = 0 then free_pages t = {} else leaf (mem t) (Suc l) pt va = Some a)"
        using grows_trans [OF g gc(1)] gc(2) a by auto
    qed
  qed
  show ?case
  proof (cases "child (mem s) pt ?i")
    case (Some c)
    then have "load64 (mem s) (slot pt ?i) AND PTE_V \<noteq> 0" "PTE2PA (load64 (mem s) (slot pt ?i)) = c"
      by (auto simp: child_def Let_def split: if_splits)
    then show ?thesis
      using step [OF grows_refl [OF Suc.prems] Some] by (simp add: Let_def wp_bnd wp_gets slot_idx)
  next
    case None
    then have v: "load64 (mem s) (slot pt ?i) AND PTE_V = 0"
      by (auto simp: child_def Let_def split: if_splits)
    have ki: "kmem_inv s" using Suc.prems by (simp add: pt_inv_def)
    have "wp kalloc (\<lambda>q. wp (if q = 0 then ret 0
        else andthen (zero_page q) (andthen (store_pte (slot pt ?i) (PA2PTE q OR PTE_V)) (walk_loop l q va True)))
      (\<lambda>a t. grows s t (Suc l) pt \<and>
        (if a = 0 then free_pages t = {} else leaf (mem t) (Suc l) pt va = Some a))) s"
    proof (rule wp_mono [OF ka.alloc_cases [OF ki]], elim conjE)
      fix q t
      assume t: "kmem_inv t" "page_ok t = page_ok s"
        and q: "if q = 0 then t = s \<and> free_pages s = {}
          else q \<in> free_pages s \<and> free_pages t = free_pages s - {q} \<and>
            (\<forall>a. \<not> in_page q a \<longrightarrow> mem t a = mem s a)"
      show "wp (if q = 0 then ret 0
        else andthen (zero_page q) (andthen (store_pte (slot pt ?i) (PA2PTE q OR PTE_V)) (walk_loop l q va True)))
      (\<lambda>a t. grows s t (Suc l) pt \<and>
        (if a = 0 then free_pages t = {} else leaf (mem t) (Suc l) pt va = Some a)) t"
      proof (cases "q = 0")
        case True
        then show ?thesis using q grows_refl [OF Suc.prems] by (simp add: wp_ret)
      next
        case False
        with q have q': "q \<in> free_pages s" "free_pages t = free_pages s - {q}"
          "\<And>a. \<not> in_page q a \<Longrightarrow> mem t a = mem s a" by simp_all
        note g = link_page_grows [OF Suc.prems idx_bound None t q']
        show ?thesis
          unfolding if_not_P [OF False] wp_andthen wp_modify by (rule step [OF g])
      qed
    qed
    then show ?thesis using v by (simp add: Let_def wp_bnd wp_gets slot_idx)
  qed
qed

subsection \<open>Translations as a function of the page number\<close>

lemma PX_take_bit: "PX l va = take_bit 9 (drop_bit (12 + 9 * l) va)"
proof -
  have "(x :: u64) AND 0x1FF = take_bit 9 x" for x
    by (simp add: take_bit_eq_mask mask_eq_exp_minus_1)
  then show ?thesis by (simp add: PX_def)
qed

lemma bit_below_MAXVA: "va < MAXVA \<Longrightarrow> bit va n \<Longrightarrow> n < 38" for va :: u64
proof (rule ccontr)
  assume "va < MAXVA" and b: "bit va n" and n: "\<not> n < 38"
  then have "unat va < 2 ^ 38" by (simp add: word_less_nat_alt MAXVA_def push_bit_eq_mult)
  then have "take_bit 38 va = va" by (simp add: take_bit_eq_mod word_unat_eq_iff unat_mod)
  then have "bit (take_bit 38 va) n" using b by simp
  with n show False by (simp add: bit_take_bit_iff)
qed

lemma same_index_iff:
  assumes "va < MAXVA" and "va' < MAXVA"
  shows "same_index 2 va va' \<longleftrightarrow> PGROUNDDOWN va = PGROUNDDOWN va'"
proof -
  have rd: "PGROUNDDOWN x = push_bit 12 (drop_bit 12 x)" for x
  proof -
    have "PGSIZE - 1 = (mask 12 :: u64)" by (simp add: PGSIZE_def mask_eq_exp_minus_1)
    then show ?thesis unfolding PGROUNDDOWN_def by (simp, intro bit_word_eqI) (auto simp: bit_simps)
  qed
  have px: "idx k va = idx k va' \<longleftrightarrow> PX k va = PX k va'" for k
    by (simp add: idx_def word_unat_eq_iff)
  show ?thesis
  proof
    assume "same_index 2 va va'"
    then have eq: "PX k va = PX k va'" if "k \<le> 2" for k using that px by (simp add: same_index_def)
    have "bit va (12 + n) = bit va' (12 + n)" for n
    proof (cases "n < 27")
      case True
      then have "n div 9 \<le> 2" "n mod 9 < 9" by auto
      then have "bit (PX (n div 9) va) (n mod 9) = bit (PX (n div 9) va') (n mod 9)" using eq by simp
      then show ?thesis
        using \<open>n mod 9 < 9\<close> by (simp add: PX_take_bit bit_simps algebra_simps)
    next
      case False
      then show ?thesis using bit_below_MAXVA [OF assms(1), of "12 + n"] bit_below_MAXVA [OF assms(2), of "12 + n"]
        by auto
    qed
    then have "drop_bit 12 va = drop_bit 12 va'"
      by (intro bit_word_eqI) (simp add: bit_drop_bit_eq)
    then show "PGROUNDDOWN va = PGROUNDDOWN va'" by (simp add: rd)
  next
    assume eq: "PGROUNDDOWN va = PGROUNDDOWN va'"
    have rd_drop: "drop_bit 12 x = drop_bit 12 (PGROUNDDOWN x)" for x
      unfolding rd by (rule bit_word_eqI) (auto simp: bit_drop_bit_eq bit_push_bit_iff dest: bit_imp_le_length)
    have "drop_bit 12 va = drop_bit 12 va'" unfolding rd_drop [of va] rd_drop [of "va'"] eq ..
    moreover have "drop_bit (12 + 9 * k) x = drop_bit (9 * k) (drop_bit 12 x)" for k and x :: u64
      by (simp add: drop_bit_drop_bit add.commute)
    ultimately have "drop_bit (12 + 9 * k) va = drop_bit (12 + 9 * k) va'" for k by (simp only:)
    then show "same_index 2 va va'" by (simp add: same_index_def px PX_take_bit)
  qed
qed

subsection \<open>mappages\<close>

text \<open>
  \<open>entries s t pt f\<close>: from \<open>s\<close> to \<open>t\<close> the table at \<open>pt\<close> stayed well-formed, may have taken free pages
  for new table pages, changed memory inside its own table pages only, and now represents \<open>f\<close>.
\<close>

definition entries :: "kmem \<Rightarrow> kmem \<Rightarrow> u64 \<Rightarrow> (u64 \<Rightarrow> u64) \<Rightarrow> bool" where
  "entries s t pt f \<longleftrightarrow> pt_inv t 2 pt \<and> page_ok t = page_ok s \<and> free_pages t \<subseteq> free_pages s \<and>
     tabs (mem s) 2 pt \<subseteq> tabs (mem t) 2 pt \<and>
     tabs (mem t) 2 pt \<subseteq> tabs (mem s) 2 pt \<union> (free_pages s - free_pages t) \<and>
     confined (mem s) (mem t) (tabs (mem t) 2 pt) \<and>
     (\<forall>va < MAXVA. pteval (mem t) 2 pt va = f va)"

lemma grows_entries: "grows s t 2 pt \<Longrightarrow> entries s t pt (pteval (mem s) 2 pt)"
  by (simp add: grows_def entries_def)

lemma entries_trans:
  assumes "entries s t pt f" and "entries t u pt g"
  shows "entries s u pt g"
proof -
  have "confined (mem s) (mem t) (tabs (mem u) 2 pt)" "confined (mem t) (mem u) (tabs (mem u) 2 pt)"
    using assms confined_mono unfolding entries_def by blast+
  then have "confined (mem s) (mem u) (tabs (mem u) 2 pt)" by (rule confined_trans)
  then show ?thesis using assms unfolding entries_def by auto
qed

lemma entries_cong:
  assumes "entries s t pt f" and "\<And>va. va < MAXVA \<Longrightarrow> f va = g va"
  shows "entries s t pt g"
  using assms by (simp add: entries_def)

lemma walk_alloc:
  assumes "pt_inv s 2 pt" and "va < MAXVA"
  shows "wp (walk pt va True) (\<lambda>a t. grows s t 2 pt \<and>
     (if a = 0 then free_pages t = {} else leaf (mem t) 2 pt va = Some a)) s"
proof -
  have "\<not> va \<ge> MAXVA" using assms(2) by simp
  then show ?thesis using walk_loop_alloc [OF assms(1), of va] by (simp add: walk_def)
qed

text \<open>Storing a leaf entry of a table whose pages are allocated.\<close>

lemma store_pte_entries:
  assumes inv: "pt_inv s 2 pt" and a: "leaf (mem s) 2 pt va = Some a" and va: "va < MAXVA"
  shows "entries s (mem_store (\<lambda>m. store64 m a v) s) pt
    (\<lambda>x. if PGROUNDDOWN x = PGROUNDDOWN va then v else pteval (mem s) 2 pt x)"
    and "free_pages (mem_store (\<lambda>m. store64 m a v) s) = free_pages s"
    and "leaf (mem (mem_store (\<lambda>m. store64 m a v) s)) 2 pt va' = leaf (mem s) 2 pt va'"
proof -
  let ?t = "mem_store (\<lambda>m. store64 m a v) s"
  have ki: "kmem_inv s" and tr: "tree (mem s) 2 pt"
    and ok: "\<forall>p \<in> tabs (mem s) 2 pt. page_ok s p \<and> p \<notin> free_pages s" using inv by (auto simp: pt_inv_def)
  have al: "\<forall>p \<in> tabs (mem s) 2 pt. aligned p" by (rule pt_inv_aligned [OF inv])
  note st = store_leaf [OF tr al a, where v = v]
  have "store64 (mem s) a v x = mem s x" if p: "p \<in> free_pages s" "in_page p x" for p x
    using confinedD [OF st(3) al _ _ p(2)] p(1) ok ki page_ok_aligned ka.free_usable by blast
  then have t: "kmem_inv ?t" "free_pages ?t = free_pages s" "page_ok ?t = page_ok s" "mem ?t = store64 (mem s) a v"
    using ka.store_ok [OF ki, of "\<lambda>m. store64 m a v"] by simp_all
  then have "pt_inv ?t 2 pt" using ok st(1,2) by (simp add: pt_inv_def)
  moreover have "pteval (mem ?t) 2 pt x = (if PGROUNDDOWN x = PGROUNDDOWN va then v else pteval (mem s) 2 pt x)"
    if "x < MAXVA" for x
    using same_index_iff [OF va that] t(4) st(5) by auto
  ultimately show "entries s ?t pt (\<lambda>x. if PGROUNDDOWN x = PGROUNDDOWN va then v else pteval (mem s) 2 pt x)"
    using t st(2,3) by (simp add: entries_def)
  show "free_pages ?t = free_pages s" by (rule t(2))
  show "leaf (mem ?t) 2 pt va' = leaf (mem s) 2 pt va'" using t(4) st(4) by simp
qed

text \<open>The entry that maps page \<open>a + i\<close> to \<open>pa + i\<close>, and a table in which \<open>k\<close> pages are so mapped.\<close>

definition with_run :: "(u64 \<Rightarrow> u64) \<Rightarrow> u64 \<Rightarrow> u64 \<Rightarrow> u64 \<Rightarrow> nat \<Rightarrow> u64 \<Rightarrow> u64" where
  "with_run f a pa perm k va =
     (if unat (va - a) < 4096 * k then PA2PTE (pa + PGROUNDDOWN (va - a)) OR perm OR PTE_V else f va)"

lemma page_shift:
  assumes "aligned a"
  shows "PGROUNDDOWN va = a \<longleftrightarrow> unat (va - a) < 4096"
  using in_page_iff [OF assms] by (simp add: in_page_def)

lemma PGROUNDDOWN_0: "unat d < 4096 \<Longrightarrow> PGROUNDDOWN d = 0"
  using page_shift [OF aligned_0, of d] by simp

lemma PGROUNDDOWN_sub: "PGROUNDDOWN (d - PGSIZE) = PGROUNDDOWN d - PGSIZE"
proof -
  have "(unat d + 2 ^ 64 - 4096) mod 4096 = unat d mod 4096"
  proof -
    have "unat d + 2 ^ 64 - 4096 = unat d + 4503599627370495 * 4096" by simp
    then show ?thesis by (simp only: mod_mult_self1)
  qed
  moreover have "(unat d - 4096) mod 4096 = unat d mod 4096" if "4096 \<le> unat d"
    using le_mod_geq [OF that] by simp
  moreover have "unat (d - PGSIZE) = (if 4096 \<le> unat d then unat d - 4096 else unat d + 2 ^ 64 - 4096)"
    by (simp add: unat_sub_if')
  ultimately have "unat (d - PGSIZE) mod 4096 = unat d mod 4096" by presburger
  then have "(d - PGSIZE) mod PGSIZE = d mod PGSIZE" by (simp add: word_unat_eq_iff unat_mod)
  then show ?thesis by (simp add: PGROUNDDOWN_eq)
qed

lemma with_run_Suc:
  assumes "aligned a" and "k < 2 ^ 50"
  shows "with_run (\<lambda>x. if PGROUNDDOWN x = a then PA2PTE pa OR perm OR PTE_V else f x)
      (a + PGSIZE) (pa + PGSIZE) perm k va = with_run f a pa perm (Suc k) va"
proof -
  let ?d = "va - a"
  have d: "va - (a + PGSIZE) = ?d - PGSIZE" by simp
  show ?thesis
  proof (cases "unat ?d < 4096")
    case True
    then have "PGROUNDDOWN va = a" using page_shift [OF assms(1)] by simp
    moreover have "\<not> unat (?d - PGSIZE) < 4096 * k"
      using True assms(2) by (simp add: unat_sub_if')
    ultimately show ?thesis using True by (simp add: with_run_def d PGROUNDDOWN_0)
  next
    case False
    then have "PGROUNDDOWN va \<noteq> a" "unat (?d - PGSIZE) = unat ?d - 4096"
      using page_shift [OF assms(1)] by (simp_all add: unat_sub_if')
    then show ?thesis using False
      by (auto simp: with_run_def d PGROUNDDOWN_sub)
  qed
qed

lemma wp_map_page:
  assumes inv: "pt_inv s 2 pt" and a: "a < MAXVA" and free: "pteval (mem s) 2 pt a AND PTE_V = 0"
    and ok: "\<And>t. entries s t pt (\<lambda>x. if PGROUNDDOWN x = PGROUNDDOWN a then v else pteval (mem s) 2 pt x) \<Longrightarrow> wp M Q t"
    and no: "\<And>t. entries s t pt (pteval (mem s) 2 pt) \<Longrightarrow> free_pages t = {} \<Longrightarrow> Q (- 1) t"
  shows "wp (bnd (walk pt a True) (\<lambda>pte. if pte = 0 then ret (- 1)
      else bnd (load_pte pte) (\<lambda>w. if w AND PTE_V \<noteq> 0 then panic msg else andthen (store_pte pte v) M))) Q s"
  unfolding wp_bnd
proof (rule wp_mono [OF walk_alloc [OF inv a]], elim conjE)
  fix pte t
  assume g: "grows s t 2 pt" and p: "if pte = 0 then free_pages t = {} else leaf (mem t) 2 pt a = Some pte"
  have st: "entries s t pt (pteval (mem s) 2 pt)" by (rule grows_entries [OF g])
  have it: "pt_inv t 2 pt" using g by (simp add: grows_def)
  show "wp (if pte = 0 then ret (- 1)
      else bnd (load_pte pte) (\<lambda>w. if w AND PTE_V \<noteq> 0 then panic msg else andthen (store_pte pte v) M)) Q t"
  proof (cases "pte = 0")
    case True
    then show ?thesis using p no [OF st] by (simp add: wp_ret)
  next
    case False
    then have lf: "leaf (mem t) 2 pt a = Some pte" using p by simp
    moreover have "pteval (mem t) 2 pt a = pteval (mem s) 2 pt a" using g by (simp add: grows_def)
    ultimately have "load64 (mem t) pte = pteval (mem s) 2 pt a" by (simp add: pteval_def [of "mem t"])
    moreover have "wp M Q (mem_store (\<lambda>m. store64 m pte v) t)"
    proof (rule ok [OF entries_cong [OF entries_trans [OF st store_pte_entries(1) [OF it lf a]]]])
      fix va show "(if PGROUNDDOWN va = PGROUNDDOWN a then v else pteval (mem t) 2 pt va) =
        (if PGROUNDDOWN va = PGROUNDDOWN a then v else pteval (mem s) 2 pt va)"
        using g by (simp add: grows_def)
    qed
    ultimately show ?thesis using False free by (simp add: wp_bnd wp_gets wp_andthen wp_modify)
  qed
qed

lemma PGROUNDDOWN_aligned: "aligned a \<Longrightarrow> PGROUNDDOWN a = a"
  using page_shift [of a a] by simp

lemma below_MAXVA: "unat a < 2 ^ 38 \<Longrightarrow> a < MAXVA"
  by (simp add: word_less_nat_alt MAXVA_def push_bit_eq_mult)

lemma unat_pages: "k < 2 ^ 50 \<Longrightarrow> unat (of_nat k * PGSIZE) = 4096 * k"
proof -
  assume "k < 2 ^ 50"
  moreover have "of_nat k * PGSIZE = (of_nat (k * 4096) :: u64)" by (simp add: PGSIZE_def)
  ultimately show ?thesis by (simp add: unat_of_nat_small del: of_nat_mult)
qed

lemma mappages_loop_spec:
  assumes "pt_inv s 2 pt" and "aligned a" and "unat a + 4096 * Suc n \<le> 2 ^ 38"
    and "\<forall>k \<le> n. pteval (mem s) 2 pt (a + of_nat k * PGSIZE) AND PTE_V = 0"
  shows "wp (mappages_loop (Suc n) pt a (a + of_nat n * PGSIZE) pa perm)
     (\<lambda>r t. \<exists>k. entries s t pt (with_run (pteval (mem s) 2 pt) a pa perm k) \<and>
        (r = 0 \<and> k = Suc n \<or> r = - 1 \<and> k \<le> n \<and> free_pages t = {})) s"
  using assms
proof (induction n arbitrary: s a pa)
  case (0 s a pa)
  have a: "a < MAXVA" "pteval (mem s) 2 pt a AND PTE_V = 0" using 0 below_MAXVA by auto
  show ?case
    unfolding mappages_loop.simps
  proof (rule wp_map_page [OF 0(1) a])
    fix t assume "entries s t pt (\<lambda>x. if PGROUNDDOWN x = PGROUNDDOWN a then PA2PTE pa OR perm OR PTE_V else pteval (mem s) 2 pt x)"
    then have "entries s t pt (with_run (pteval (mem s) 2 pt) a pa perm (Suc 0))"
      by (rule entries_cong) (auto simp: with_run_def PGROUNDDOWN_aligned [OF 0(2)] page_shift [OF 0(2)] PGROUNDDOWN_0)
    then show "wp (if a = a + of_nat 0 * PGSIZE then ret 0 else fails (Fault ''mappages: out of fuel''))
       (\<lambda>r t. \<exists>k. entries s t pt (with_run (pteval (mem s) 2 pt) a pa perm k) \<and>
        (r = 0 \<and> k = Suc 0 \<or> r = - 1 \<and> k \<le> 0 \<and> free_pages t = {})) t"
      by (auto simp: wp_ret)
  next
    fix t assume "entries s t pt (pteval (mem s) 2 pt)" "free_pages t = {}"
    then show "\<exists>k. entries s t pt (with_run (pteval (mem s) 2 pt) a pa perm k) \<and>
        ((- 1 :: int) = 0 \<and> k = Suc 0 \<or> - 1 = (- 1 :: int) \<and> k \<le> 0 \<and> free_pages t = {})"
      by (intro exI [of _ 0]) (simp add: with_run_def [abs_def])
  qed
next
  case (Suc n s a pa)
  let ?v = "PA2PTE pa OR perm OR PTE_V" and ?f = "pteval (mem s) 2 pt"
  let ?g = "\<lambda>x. if PGROUNDDOWN x = a then ?v else ?f x"
  have n: "n < 2 ^ 30" and un: "unat (a + PGSIZE) = unat a + 4096"
    using Suc.prems(3) by (simp_all add: unat_plus_if')
  have pk: "unat (of_nat k * PGSIZE) = 4096 * k" if "k \<le> Suc n" for k
    using that n by (intro unat_pages) simp
  have ak: "unat (a + of_nat k * PGSIZE) = unat a + 4096 * k" if "k \<le> Suc n" for k
    using that Suc.prems(3) pk [OF that] by (simp add: unat_plus_if')
  have a: "a < MAXVA" "?f a AND PTE_V = 0" using Suc.prems(3) spec [OF Suc.prems(4), of 0] below_MAXVA by auto
  have ne: "a \<noteq> a + of_nat (Suc n) * PGSIZE" using ak [of "Suc n"] by auto
  have lst: "a + of_nat (Suc n) * PGSIZE = (a + PGSIZE) + of_nat n * PGSIZE" by (simp add: algebra_simps)
  show ?case
    unfolding mappages_loop.simps(2) [of "Suc n"] if_not_P [OF ne]
  proof (rule wp_map_page [OF Suc.prems(1) a])
    fix t assume "entries s t pt (\<lambda>x. if PGROUNDDOWN x = PGROUNDDOWN a then ?v else ?f x)"
    then have t: "entries s t pt ?g" by (simp add: PGROUNDDOWN_aligned [OF Suc.prems(2)])
    have g: "pteval (mem t) 2 pt va = ?g va" if "va < MAXVA" for va using t that by (simp add: entries_def)
    have inv: "pteval (mem t) 2 pt (a + PGSIZE + of_nat k * PGSIZE) AND PTE_V = 0" if "k \<le> n" for k
    proof -
      let ?x = "a + of_nat (Suc k) * PGSIZE"
      have x: "unat ?x = unat a + 4096 * Suc k" using ak [of "Suc k"] that by simp
      have "\<not> unat (?x - a) < 4096" using pk [of "Suc k"] that by simp
      then have "PGROUNDDOWN ?x \<noteq> a" using page_shift [OF Suc.prems(2)] by simp
      moreover have "?x < MAXVA" using x Suc.prems(3) that by (intro below_MAXVA) simp
      moreover have "?f ?x AND PTE_V = 0" using Suc.prems(4) that by blast
      ultimately show ?thesis using g [of ?x] by (simp add: algebra_simps)
    qed
    have "wp (mappages_loop (Suc n) pt (a + PGSIZE) (a + PGSIZE + of_nat n * PGSIZE) (pa + PGSIZE) perm)
     (\<lambda>r u. \<exists>k. entries t u pt (with_run (pteval (mem t) 2 pt) (a + PGSIZE) (pa + PGSIZE) perm k) \<and>
        (r = 0 \<and> k = Suc n \<or> r = - 1 \<and> k \<le> n \<and> free_pages u = {})) t"
      using t un Suc.prems(2,3) inv by (intro Suc.IH) (auto simp: entries_def aligned_add)
    then show "wp (mappages_loop (Suc n) pt (a + PGSIZE) (a + of_nat (Suc n) * PGSIZE) (pa + PGSIZE) perm)
     (\<lambda>r u. \<exists>k. entries s u pt (with_run ?f a pa perm k) \<and>
        (r = 0 \<and> k = Suc (Suc n) \<or> r = - 1 \<and> k \<le> Suc n \<and> free_pages u = {})) t"
      unfolding lst
    proof (rule wp_mono, elim exE conjE)
      fix r u k
      assume u: "entries t u pt (with_run (pteval (mem t) 2 pt) (a + PGSIZE) (pa + PGSIZE) perm k)"
        and r: "r = 0 \<and> k = Suc n \<or> r = - 1 \<and> k \<le> n \<and> free_pages u = {}"
      have k: "k < 2 ^ 50" using r n by auto
      have "entries s u pt (with_run ?f a pa perm (Suc k))"
        by (rule entries_cong [OF entries_trans [OF t u]])
          (simp add: with_run_def [of "pteval _ _ _"] g flip: with_run_Suc [OF Suc.prems(2) k], simp add: with_run_def)
      then show "\<exists>k. entries s u pt (with_run ?f a pa perm k) \<and>
        (r = 0 \<and> k = Suc (Suc n) \<or> r = - 1 \<and> k \<le> Suc n \<and> free_pages u = {})"
        using r by auto
    qed
  next
    fix t assume "entries s t pt ?f" "free_pages t = {}"
    then show "\<exists>k. entries s t pt (with_run ?f a pa perm k) \<and>
        ((- 1 :: int) = 0 \<and> k = Suc (Suc n) \<or> - 1 = (- 1 :: int) \<and> k \<le> Suc n \<and> free_pages t = {})"
      by (intro exI [of _ 0]) (simp add: with_run_def [abs_def])
  qed
qed

subsection \<open>Changes outside the table\<close>

lemma outside_table:
  assumes inv: "pt_inv s 2 pt" and t: "kmem_inv t" "page_ok t = page_ok s"
    and conf: "confined (mem s) (mem t) P" and P: "\<forall>p \<in> P. aligned p" "P \<inter> tabs (mem s) 2 pt = {}"
    and free: "free_pages t \<inter> tabs (mem s) 2 pt = {}"
  shows "pt_inv t 2 pt" and "tabs (mem t) 2 pt = tabs (mem s) 2 pt"
    and "leaf (mem t) 2 pt va = leaf (mem s) 2 pt va" and "pteval (mem t) 2 pt va = pteval (mem s) 2 pt va"
proof -
  have same: "mem t a = mem s a" if "p \<in> tabs (mem s) 2 pt" "in_page p a" for p a
    using confinedD [OF conf P(1) _ _ that(2)] that(1) P(2) pt_inv_aligned [OF inv] by blast
  show tb: "tabs (mem t) 2 pt = tabs (mem s) 2 pt" by (rule tabs_cong) (rule same)
  show "leaf (mem t) 2 pt va = leaf (mem s) 2 pt va" by (rule leaf_cong) (rule same)
  show "pteval (mem t) 2 pt va = pteval (mem s) 2 pt va" by (rule pteval_cong) (rule same)
  have "tree (mem t) 2 pt = tree (mem s) 2 pt" by (rule tree_cong) (rule same)
  then show "pt_inv t 2 pt" using inv t free tb by (auto simp: pt_inv_def)
qed

lemma kfree_outside_table:
  assumes inv: "pt_inv s 2 pt" and p: "page_ok s p" "p \<notin> free_pages s" "p \<notin> tabs (mem s) 2 pt"
  shows "wp (kfree p) (\<lambda>_ t. pt_inv t 2 pt \<and> page_ok t = page_ok s \<and> free_pages t = insert p (free_pages s) \<and>
     tabs (mem t) 2 pt = tabs (mem s) 2 pt \<and> confined (mem s) (mem t) {p} \<and>
     (\<forall>va. leaf (mem t) 2 pt va = leaf (mem s) 2 pt va) \<and>
     (\<forall>va. pteval (mem t) 2 pt va = pteval (mem s) 2 pt va)) s"
proof -
  have ki: "kmem_inv s" using inv by (simp add: pt_inv_def)
  have al: "aligned p" using page_ok_aligned [OF ki p(1)] by simp
  show ?thesis
  proof (rule wp_mono [OF ka.release_ok [OF ki p(1,2)]], elim conjE)
    fix t
    assume t: "kmem_inv t" "free_pages t = insert p (free_pages s)" "page_ok t = page_ok s"
      and fr: "\<forall>a. \<not> in_page p a \<longrightarrow> mem t a = mem s a"
    have conf: "confined (mem s) (mem t) {p}" using fr by (auto simp: confined_def)
    have P: "\<forall>q \<in> {p}. aligned q" "{p} \<inter> tabs (mem s) 2 pt = {}" using al p(3) by auto
    have fp: "free_pages t \<inter> tabs (mem s) 2 pt = {}" using t(2) p(3) inv by (auto simp: pt_inv_def)
    note o = outside_table [OF inv t(1,3) conf P fp]
    show "pt_inv t 2 pt \<and> page_ok t = page_ok s \<and> free_pages t = insert p (free_pages s) \<and>
     tabs (mem t) 2 pt = tabs (mem s) 2 pt \<and> confined (mem s) (mem t) {p} \<and>
     (\<forall>va. leaf (mem t) 2 pt va = leaf (mem s) 2 pt va) \<and>
     (\<forall>va. pteval (mem t) 2 pt va = pteval (mem s) 2 pt va)"
      using o t conf by blast
  qed
qed

subsection \<open>uvmunmap\<close>

text \<open>
  \<open>unmapped s t pt a n F\<close>: from \<open>s\<close> to \<open>t\<close> the \<open>n\<close> pages from \<open>a\<close> lost their entries, the frames \<open>F\<close>
  went back to the allocator, and nothing else changed.
\<close>

definition unmapped :: "kmem \<Rightarrow> kmem \<Rightarrow> u64 \<Rightarrow> u64 \<Rightarrow> nat \<Rightarrow> u64 set \<Rightarrow> bool" where
  "unmapped s t pt a n F \<longleftrightarrow> pt_inv t 2 pt \<and> page_ok t = page_ok s \<and> free_pages t = F \<union> free_pages s \<and>
     tabs (mem t) 2 pt = tabs (mem s) 2 pt \<and> confined (mem s) (mem t) (F \<union> tabs (mem s) 2 pt) \<and>
     (\<forall>va < MAXVA. pteval (mem t) 2 pt va = (if unat (va - a) < 4096 * n then 0 else pteval (mem s) 2 pt va))"

definition frame :: "kmem \<Rightarrow> u64 \<Rightarrow> u64 \<Rightarrow> nat \<Rightarrow> u64" where
  "frame s pt a k = PTE2PA (pteval (mem s) 2 pt (a + of_nat k * PGSIZE))"

text \<open>The pages may be unmapped: each has a leaf entry, and a frame to be freed is a page of its own.\<close>

definition unmappable :: "kmem \<Rightarrow> u64 \<Rightarrow> u64 \<Rightarrow> nat \<Rightarrow> bool \<Rightarrow> bool" where
  "unmappable s pt a n do_free \<longleftrightarrow>
     (\<forall>k<n. let e = pteval (mem s) 2 pt (a + of_nat k * PGSIZE) in e AND PTE_V \<noteq> 0 \<and> PTE_FLAGS e \<noteq> PTE_V) \<and>
     (do_free \<longrightarrow> inj_on (frame s pt a) {..<n} \<and>
       (\<forall>k<n. page_ok s (frame s pt a k) \<and> frame s pt a k \<notin> free_pages s \<union> tabs (mem s) 2 pt))"

lemma unmapped_trans:
  assumes "unmapped s t pt a (Suc 0) F" and "unmapped t u pt (a + PGSIZE) n G"
    and "aligned a" and "n < 2 ^ 50"
  shows "unmapped s u pt a (Suc n) (F \<union> G)"
proof -
  have c: "confined (mem s) (mem t) (F \<union> tabs (mem s) 2 pt)" "confined (mem t) (mem u) (G \<union> tabs (mem s) 2 pt)"
    using assms(1,2) by (simp_all add: unmapped_def)
  have "confined (mem s) (mem t) (F \<union> G \<union> tabs (mem s) 2 pt)" by (rule confined_mono [OF c(1)]) auto
  moreover have "confined (mem t) (mem u) (F \<union> G \<union> tabs (mem s) 2 pt)" by (rule confined_mono [OF c(2)]) auto
  ultimately have "confined (mem s) (mem u) (F \<union> G \<union> tabs (mem s) 2 pt)" by (rule confined_trans)
  moreover have "pteval (mem u) 2 pt va = (if unat (va - a) < 4096 * Suc n then 0 else pteval (mem s) 2 pt va)"
    if "va < MAXVA" for va
  proof -
    have "unat (va - (a + PGSIZE)) < 4096 * n \<or> unat (va - a) < 4096 \<longleftrightarrow> unat (va - a) < 4096 * Suc n"
    proof -
      have "unat (va - (a + PGSIZE)) = (if 4096 \<le> unat (va - a) then unat (va - a) - 4096
          else unat (va - a) + 2 ^ 64 - 4096)"
        using unat_sub_if' [of "va - a" PGSIZE] by (simp add: diff_diff_add)
      then show ?thesis using assms(4) by (cases "4096 \<le> unat (va - a)") auto
    qed
    then show ?thesis using assms(1,2) that by (auto simp: unmapped_def)
  qed
  ultimately show ?thesis using assms(1,2) by (auto simp: unmapped_def)
qed

lemma wp_unmap_page:
  assumes inv: "pt_inv s 2 pt" and al: "aligned a" and a: "a < MAXVA"
    and e: "pteval (mem s) 2 pt a AND PTE_V \<noteq> 0" "PTE_FLAGS (pteval (mem s) 2 pt a) \<noteq> PTE_V"
    and f: "do_free \<Longrightarrow> page_ok s (PTE2PA (pteval (mem s) 2 pt a)) \<and>
        PTE2PA (pteval (mem s) 2 pt a) \<notin> free_pages s \<union> tabs (mem s) 2 pt"
    and ok: "\<And>t. unmapped s t pt a (Suc 0) (if do_free then {PTE2PA (pteval (mem s) 2 pt a)} else {}) \<Longrightarrow> wp M Q t"
  shows "wp (bnd (walk pt a False) (\<lambda>pte. if pte = 0 then panic m1
      else bnd (load_pte pte) (\<lambda>v. if v AND PTE_V = 0 then panic m2
        else if PTE_FLAGS v = PTE_V then panic m3
        else andthen (if do_free then kfree (PTE2PA v) else ret ()) (andthen (store_pte pte 0) M)))) Q s"
proof -
  let ?e = "pteval (mem s) 2 pt a" and ?F = "if do_free then {PTE2PA (pteval (mem s) 2 pt a)} else {}"
  obtain pte where lf: "leaf (mem s) 2 pt a = Some pte" and ld: "load64 (mem s) pte = ?e"
    using e(1) by (auto simp: pteval_def split: option.splits)
  have nz: "pte \<noteq> 0" by (rule leaf_nonzero [OF inv lf])
  have fin: "wp (andthen (store_pte pte 0) M) Q t"
    if t: "pt_inv t 2 pt" "page_ok t = page_ok s" "free_pages t = ?F \<union> free_pages s"
      "tabs (mem t) 2 pt = tabs (mem s) 2 pt" "confined (mem s) (mem t) ?F"
      "\<forall>va. leaf (mem t) 2 pt va = leaf (mem s) 2 pt va" "\<forall>va. pteval (mem t) 2 pt va = pteval (mem s) 2 pt va" for t
  proof -
    let ?u = "mem_store (\<lambda>m. store64 m pte 0) t"
    have lt: "leaf (mem t) 2 pt a = Some pte" using t(6) lf by simp
    note st = store_pte_entries [OF t(1) lt a, of 0]
    have tu: "tabs (mem ?u) 2 pt = tabs (mem t) 2 pt"
      using st(1,2) unfolding entries_def by auto
    then have "confined (mem t) (mem ?u) (?F \<union> tabs (mem s) 2 pt)" "confined (mem s) (mem t) (?F \<union> tabs (mem s) 2 pt)"
      using st(1) t(4,5) confined_mono unfolding entries_def by (metis sup_ge2, blast)
    then have "confined (mem s) (mem ?u) (?F \<union> tabs (mem s) 2 pt)" using confined_trans by blast
    moreover have "pteval (mem ?u) 2 pt va = (if unat (va - a) < 4096 * Suc 0 then 0 else pteval (mem s) 2 pt va)"
      if "va < MAXVA" for va
      using st(1) that t(7) page_shift [OF al, of va] by (simp add: entries_def PGROUNDDOWN_aligned [OF al])
    ultimately have "unmapped s ?u pt a (Suc 0) ?F"
      using st(1,2) t tu unfolding unmapped_def entries_def by auto
    then show ?thesis by (simp add: wp_andthen wp_modify ok)
  qed
  have "wp (if do_free then kfree (PTE2PA ?e) else ret ()) (\<lambda>_. wp (andthen (store_pte pte 0) M) Q) s"
  proof (cases do_free)
    case True
    then have p: "page_ok s (PTE2PA ?e)" "PTE2PA ?e \<notin> free_pages s" "PTE2PA ?e \<notin> tabs (mem s) 2 pt"
      using f by auto
    show ?thesis unfolding if_P [OF True]
      by (rule wp_mono [OF kfree_outside_table [OF inv p]]) (rule fin, use True in auto)
  next
    case False
    then show ?thesis using fin [OF inv] by (simp add: wp_ret)
  qed
  then show ?thesis
    using e lf ld nz by (cases do_free) (simp_all add: wp_bnd wp_gets wp_andthen wp_walk_lookup [OF a])
qed

lemma unmappable_Suc:
  assumes un: "unmappable s pt a (Suc n) do_free" and t: "unmapped s t pt a (Suc 0) F"
    and F: "F = (if do_free then {frame s pt a 0} else {})"
    and a: "aligned a" "unat a + 4096 * Suc n \<le> 2 ^ 38"
  shows "unmappable t pt (a + PGSIZE) n do_free"
    and "\<And>k. k < n \<Longrightarrow> frame t pt (a + PGSIZE) k = frame s pt a (Suc k)"
proof -
  have e: "pteval (mem t) 2 pt (a + PGSIZE + of_nat k * PGSIZE) = pteval (mem s) 2 pt (a + of_nat (Suc k) * PGSIZE)"
    if k: "k < n" for k
  proof -
    let ?x = "a + of_nat (Suc k) * PGSIZE"
    have d: "unat (of_nat (Suc k) * PGSIZE :: u64) = 4096 * Suc k" using a(2) k by (intro unat_pages) simp
    then have "unat ?x = unat a + 4096 * Suc k" using a(2) k by (simp add: unat_plus_if')
    then have "?x < MAXVA" using a(2) k by (intro below_MAXVA) simp
    moreover have "\<not> unat (?x - a) < 4096 * Suc 0" using d by simp
    moreover have "a + PGSIZE + of_nat k * PGSIZE = ?x" by (simp add: algebra_simps)
    ultimately show ?thesis using t by (simp only: unmapped_def if_False)
  qed
  show fr: "frame t pt (a + PGSIZE) k = frame s pt a (Suc k)" if "k < n" for k
    using e [OF that] by (simp only: frame_def)
  have inj: "inj_on (frame t pt (a + PGSIZE)) {..<n}" if "do_free"
  proof (rule inj_onI)
    fix i j assume "i \<in> {..<n}" "j \<in> {..<n}" "frame t pt (a + PGSIZE) i = frame t pt (a + PGSIZE) j"
    then show "i = j" using un that fr by (auto simp: unmappable_def dest: inj_onD [of _ _ "Suc i" "Suc j"])
  qed
  have "page_ok t (frame t pt (a + PGSIZE) k) \<and> frame t pt (a + PGSIZE) k \<notin> free_pages t \<union> tabs (mem t) 2 pt"
    if k: "do_free" "k < n" for k
  proof -
    have "frame s pt a (Suc k) \<noteq> frame s pt a 0"
      using un k by (auto simp: unmappable_def dest: inj_onD [of _ _ "Suc k" 0])
    moreover have "page_ok s (frame s pt a (Suc k))" "frame s pt a (Suc k) \<notin> free_pages s \<union> tabs (mem s) 2 pt"
      using un k by (auto simp: unmappable_def)
    ultimately show ?thesis unfolding fr [OF k(2)] using t F k(1) by (simp add: unmapped_def)
  qed
  moreover have "let e = pteval (mem t) 2 pt (a + PGSIZE + of_nat k * PGSIZE) in e AND PTE_V \<noteq> 0 \<and> PTE_FLAGS e \<noteq> PTE_V"
    if "k < n" for k
    using un that unfolding unmappable_def e [OF that] by blast
  ultimately show "unmappable t pt (a + PGSIZE) n do_free" using inj unfolding unmappable_def by blast
qed

lemma uvmunmap_loop_spec:
  assumes "pt_inv s 2 pt" and "aligned a" and "unat a + 4096 * n \<le> 2 ^ 38"
    and "unmappable s pt a n do_free"
  shows "wp (uvmunmap_loop (Suc n) pt a (a + of_nat n * PGSIZE) do_free)
    (\<lambda>_ t. unmapped s t pt a n (if do_free then frame s pt a ` {..<n} else {})) s"
  using assms
proof (induction n arbitrary: s a)
  case 0
  then show ?case by (simp add: wp_ret unmapped_def)
next
  case (Suc n)
  let ?F = "if do_free then {frame s pt a 0} else {}"
  have n: "n < 2 ^ 30" and un: "unat (a + PGSIZE) = unat a + 4096"
    using Suc.prems(3) by (simp_all add: unat_plus_if')
  have "unat (of_nat (Suc n) * PGSIZE :: u64) = 4096 * Suc n" using n by (intro unat_pages) simp
  then have lt: "a < a + of_nat (Suc n) * PGSIZE"
    using Suc.prems(3) by (simp add: word_less_nat_alt unat_plus_if')
  have a: "a < MAXVA" using Suc.prems(3) by (intro below_MAXVA) simp
  have f0: "PTE2PA (pteval (mem s) 2 pt a) = frame s pt a 0" by (simp add: frame_def)
  have stop: "a + of_nat (Suc n) * PGSIZE = (a + PGSIZE) + of_nat n * PGSIZE" by (simp add: algebra_simps)
  have e: "pteval (mem s) 2 pt a AND PTE_V \<noteq> 0" "PTE_FLAGS (pteval (mem s) 2 pt a) \<noteq> PTE_V"
    and fr: "do_free \<Longrightarrow> page_ok s (frame s pt a 0) \<and> frame s pt a 0 \<notin> free_pages s \<union> tabs (mem s) 2 pt"
    using Suc.prems(4) by (auto simp: unmappable_def Let_def dest: spec [of _ 0])
  show ?case
    unfolding uvmunmap_loop.simps(2) [of "Suc n"] if_P [OF lt]
  proof (rule wp_unmap_page [OF Suc.prems(1,2) a e, unfolded f0], erule fr)
    fix t assume t: "unmapped s t pt a (Suc 0) ?F"
    note nx = unmappable_Suc [OF Suc.prems(4) t refl Suc.prems(2,3)]
    have "wp (uvmunmap_loop (Suc n) pt (a + PGSIZE) (a + PGSIZE + of_nat n * PGSIZE) do_free)
      (\<lambda>_ u. unmapped t u pt (a + PGSIZE) n (if do_free then frame t pt (a + PGSIZE) ` {..<n} else {})) t"
      using t nx(1) un Suc.prems(2,3) by (intro Suc.IH) (auto simp: unmapped_def aligned_add)
    moreover have "(if do_free then frame s pt a ` {..<Suc n} else {}) =
        ?F \<union> (if do_free then frame t pt (a + PGSIZE) ` {..<n} else {})"
      using nx(2) by (auto simp: lessThan_Suc_eq_insert_0)
    ultimately show "wp (uvmunmap_loop (Suc n) pt (a + PGSIZE) (a + of_nat (Suc n) * PGSIZE) do_free)
      (\<lambda>_ u. unmapped s u pt a (Suc n) (if do_free then frame s pt a ` {..<Suc n} else {})) t"
      unfolding stop by (elim wp_mono) (simp only:, rule unmapped_trans [OF t _ Suc.prems(2)], use n in simp_all)
  qed
qed

subsection \<open>The operations as functions on translations\<close>

text \<open>
  C9: \<^verbatim>\<open>mappages\<close> on a well-formed table and a page-aligned range below \<^verbatim>\<open>MAXVA\<close> that is not mapped
  yet returns 0 with every page of the range mapped to consecutive frames with the requested
  permissions, or returns -1, with a part of the range mapped, when the allocator has no page left.
  All other translations, and all memory outside the table's own pages, are unchanged; new table
  pages come from the free pages.
\<close>

theorem mappages_maps:
  assumes "pt_inv s 2 pt" and "aligned va" and "aligned size'" and "size' \<noteq> 0"
    and "unat va + unat size' \<le> 2 ^ 38"
    and "\<forall>k < unat size' div 4096. pteval (mem s) 2 pt (va + of_nat k * PGSIZE) AND PTE_V = 0"
  shows "wp (mappages pt va size' pa perm)
     (\<lambda>r t. \<exists>k. entries s t pt (with_run (pteval (mem s) 2 pt) va pa perm k) \<and>
        (r = 0 \<and> 4096 * k = unat size' \<or> r = - 1 \<and> 4096 * k < unat size' \<and> free_pages t = {})) s"
proof -
  obtain j where j: "unat size' = 4096 * j" using assms(3) by (auto simp: aligned_iff)
  then obtain n where n: "j = Suc n" using assms(4) by (cases j) (auto simp: unat_eq_0)
  have "n < 2 ^ 50" using assms(5) j n by simp
  then have "size' = of_nat n * PGSIZE + PGSIZE"
    using j n assms(5) by (simp add: word_unat_eq_iff unat_plus_if' unat_pages)
  then have lst: "va + size' - PGSIZE = va + of_nat n * PGSIZE" by simp
  have "wp (mappages_loop (Suc n) pt va (va + of_nat n * PGSIZE) pa perm)
     (\<lambda>r t. \<exists>k. entries s t pt (with_run (pteval (mem s) 2 pt) va pa perm k) \<and>
        (r = 0 \<and> k = Suc n \<or> r = - 1 \<and> k \<le> n \<and> free_pages t = {})) s"
    using assms j n by (intro mappages_loop_spec) auto
  then show ?thesis
    unfolding mappages_def lst using assms(2-4) j n
    by (simp add: aligned_def del: mappages_loop.simps) (elim wp_mono, auto)
qed

text \<open>
  C10: \<^verbatim>\<open>uvmunmap\<close> on a range of mapped leaf pages removes exactly those translations and, with
  \<^verbatim>\<open>do_free\<close>, gives exactly their frames back to the allocator; it never panics.
\<close>

theorem uvmunmap_unmaps:
  assumes "pt_inv s 2 pt" and "aligned va" and "unat va + 4096 * unat npages \<le> 2 ^ 38"
    and "unmappable s pt va (unat npages) do_free"
  shows "wp (uvmunmap pt va npages do_free)
    (\<lambda>_ t. unmapped s t pt va (unat npages) (if do_free then frame s pt va ` {..<unat npages} else {})) s"
  using uvmunmap_loop_spec [OF assms] assms(2) by (simp add: uvmunmap_def aligned_def del: uvmunmap_loop.simps)

text \<open>A machine state with one empty page table, on which the properties are instantiated.\<close>

definition empty_table :: kmem where
  "empty_table = \<lparr>mem = (\<lambda>_. 0), freelist = 0, kend = 0x80021000\<rparr>"

lemma empty_table_inv: "pt_inv empty_table 2 0x80030000"
proof -
  have "free_is empty_table []" by (simp add: free_is_def empty_table_def)
  then have "kmem_inv empty_table" "free_pages empty_table = {}"
    by (auto simp: kmem_inv_def free_pages_eq)
  moreover have "tabs (mem empty_table) 2 0x80030000 = {0x80030000}" "tree (mem empty_table) 2 0x80030000"
    by (simp_all add: zero_table empty_table_def)
  moreover have "page_ok empty_table 0x80030000"
    by (simp add: page_ok_def aligned_def empty_table_def const_defs)
  ultimately show ?thesis by (simp add: pt_inv_def)
qed

lemma empty_table_pteval: "pteval (mem empty_table) l p va = 0"
  by (simp add: zero_table empty_table_def)

theorem mappages_maps_witness:
  "wp (mappages 0x80030000 0x4000 0x2000 0x80100000 6)
     (\<lambda>r t. \<exists>k. entries empty_table t 0x80030000
         (with_run (pteval (mem empty_table) 2 0x80030000) 0x4000 0x80100000 6 k) \<and>
        (r = 0 \<and> 4096 * k = unat (0x2000 :: u64) \<or>
         r = - 1 \<and> 4096 * k < unat (0x2000 :: u64) \<and> free_pages t = {})) empty_table"
  by (rule mappages_maps [OF empty_table_inv]) (simp_all add: aligned_def const_defs empty_table_pteval)

text \<open>
  The same state with a table filled in by hand: the root, one table of each lower level, and the
  user page 0x4000 mapped readable and writable to the frame 0x80033000.
\<close>

definition one_page :: kmem where
  "one_page = \<lparr>mem = store64 (store64 (store64 (\<lambda>_. 0)
       (slot 0x80030000 0) (PA2PTE 0x80031000 OR PTE_V))
       (slot 0x80031000 0) (PA2PTE 0x80032000 OR PTE_V))
       (slot 0x80032000 4) (PA2PTE 0x80033000 OR (PTE_R OR PTE_W OR PTE_U OR PTE_V)),
     freelist = 0, kend = 0x80021000\<rparr>"

lemma slot_store_other:
  assumes "aligned p" and "aligned q" and "p \<noteq> q" and "i < 512" and "j < 512"
  shows "load64 (store64 m (slot p i) v) (slot q j) = load64 m (slot q j)"
proof (rule load_slot_cong [OF _ assms(5)])
  fix a assume "in_page q a"
  then have "\<not> in_page p a" using assms(1-3) pages_disjoint by blast
  then show "store64 m (slot p i) v a = m a"
    using store_slot_confined [OF assms(4), of m p v] by (auto simp: confined_def)
qed

lemma one_page_loads:
  assumes "i < 512"
  shows "load64 (mem one_page) (slot 0x80030000 i) = (if i = 0 then PA2PTE 0x80031000 OR PTE_V else 0)"
    and "load64 (mem one_page) (slot 0x80031000 i) = (if i = 0 then PA2PTE 0x80032000 OR PTE_V else 0)"
    and "load64 (mem one_page) (slot 0x80032000 i) =
      (if i = 4 then PA2PTE 0x80033000 OR (PTE_R OR PTE_W OR PTE_U OR PTE_V) else 0)"
proof -
  have z: "load64 (\<lambda>_. 0) a = 0" for a by (simp add: load64_def upt_rec)
  show "load64 (mem one_page) (slot 0x80030000 i) = (if i = 0 then PA2PTE 0x80031000 OR PTE_V else 0)"
    "load64 (mem one_page) (slot 0x80031000 i) = (if i = 0 then PA2PTE 0x80032000 OR PTE_V else 0)"
    "load64 (mem one_page) (slot 0x80032000 i) =
      (if i = 4 then PA2PTE 0x80033000 OR (PTE_R OR PTE_W OR PTE_U OR PTE_V) else 0)"
    using assms by (simp_all add: one_page_def slot_store slot_store_other aligned_def PGSIZE_def z)
qed

lemma one_page_children:
  assumes "i < 512"
  shows "child (mem one_page) 0x80030000 i = (if i = 0 then Some 0x80031000 else None)"
    and "child (mem one_page) 0x80031000 i = (if i = 0 then Some 0x80032000 else None)"
  using one_page_loads(1,2) [OF assms] by (simp_all add: child_def PA2PTE_def PTE2PA_def PTE_V_def)

lemma UN_first: "(\<Union>i<512::nat. if i = 0 then A else {}) = A"
proof -
  have "(\<Union>i<Suc n. if i = 0 then A else {}) = A" for n by (induction n) (auto simp: lessThan_Suc)
  from this [of 511] show ?thesis by simp
qed

lemma one_page_tabs: "tabs (mem one_page) 2 0x80030000 = {0x80030000, 0x80031000, 0x80032000}"
  and one_page_tree: "tree (mem one_page) 2 0x80030000"
proof -
  have step: "tabs (mem one_page) (Suc l) p = insert p (tabs (mem one_page) l q)"
    if "\<And>i. i < 512 \<Longrightarrow> child (mem one_page) p i = (if i = 0 then Some q else None)" for l p q
  proof -
    have "(\<Union>i<512. case child (mem one_page) p i of None \<Rightarrow> {} | Some c \<Rightarrow> tabs (mem one_page) l c) =
        (\<Union>i<512::nat. if i = 0 then tabs (mem one_page) l q else {})"
      by (rule SUP_cong) (simp_all add: that)
    then show ?thesis by (simp only: tabs.simps UN_first)
  qed
  have one: "tabs (mem one_page) (Suc 0) 0x80031000 = {0x80031000, 0x80032000}"
    using step [OF one_page_children(2), of 0] by (simp only: tabs.simps(1))
  then show "tabs (mem one_page) 2 0x80030000 = {0x80030000, 0x80031000, 0x80032000}"
    using step [OF one_page_children(1), of "Suc 0"] by (simp only: numeral_2_eq_2)
  have "tree (mem one_page) (Suc 0) 0x80031000" using one_page_children(2) by simp
  then have "tree (mem one_page) (Suc (Suc 0)) 0x80030000"
    unfolding tree.simps(2) [of _ "Suc 0"] using one_page_children(1) one by (simp del: tabs.simps tree.simps split: if_splits)
  then show "tree (mem one_page) 2 0x80030000" by (simp only: numeral_2_eq_2)
qed

lemma one_page_inv: "pt_inv one_page 2 0x80030000" and one_page_free: "free_pages one_page = {}"
proof -
  have "free_is one_page []" by (simp add: free_is_def one_page_def)
  then show "free_pages one_page = {}" by (auto simp: free_pages_eq)
  moreover from \<open>free_is one_page []\<close> have "kmem_inv one_page" by (auto simp: kmem_inv_def)
  ultimately show "pt_inv one_page 2 0x80030000"
    using one_page_tree one_page_tabs
    by (simp add: pt_inv_def page_ok_def aligned_def one_page_def const_defs)
qed

lemma one_page_entry:
  "pteval (mem one_page) 2 0x80030000 0x4000 = PA2PTE 0x80033000 OR (PTE_R OR PTE_W OR PTE_U OR PTE_V)"
proof -
  have "idx 0 0x4000 = 4" "idx (Suc 0) 0x4000 = 0" "idx (Suc (Suc 0)) 0x4000 = 0"
    by (simp_all add: idx_def PX_def)
  then show ?thesis
    using one_page_children [of 0] one_page_loads(3) [of 4] by (simp add: pteval_def numeral_2_eq_2)
qed

lemma one_page_frame: "page_ok one_page 0x80033000"
  by (simp add: page_ok_def aligned_def one_page_def const_defs)

theorem uvmunmap_unmaps_witness:
  "wp (uvmunmap 0x80030000 0x4000 1 True)
    (\<lambda>_ t. unmapped one_page t 0x80030000 0x4000 (unat (1 :: u64))
      (if True then frame one_page 0x80030000 0x4000 ` {..<unat (1 :: u64)} else {})) one_page"
proof (rule uvmunmap_unmaps [OF one_page_inv])
  have e: "pteval (mem one_page) 2 0x80030000 0x4000 = 0x2000CC17"
    unfolding one_page_entry by (simp add: PA2PTE_def const_defs)
  then have "frame one_page 0x80030000 0x4000 0 = 0x80033000" by (simp add: frame_def PTE2PA_def)
  then show "unmappable one_page 0x80030000 0x4000 (unat (1 :: u64)) True"
    using e one_page_tabs one_page_free one_page_frame
    by (simp add: unmappable_def PTE_FLAGS_def PTE_V_def lessThan_Suc)
qed (simp_all add: aligned_def const_defs)

end
