(* ===== verification/Usermem.thy ===== *)
theory Usermem
  imports Pagetable
begin

text \<open>
  What \<^verbatim>\<open>walkaddr\<close>, \<^verbatim>\<open>copyin\<close>, \<^verbatim>\<open>copyout\<close> and \<^verbatim>\<open>copyinstr\<close> of \<^verbatim>\<open>kernel/vm.c\<close> do in terms of user memory: the
  partial function from user virtual addresses to bytes that a page table defines.
\<close>

subsection \<open>User memory\<close>

text \<open>
  \<open>uaddr s pt va\<close> is the physical address behind a user virtual address, if the page is mapped and
  accessible to user code.
\<close>

definition uaddr :: "kmem \<Rightarrow> u64 \<Rightarrow> u64 \<Rightarrow> u64 option" where
  "uaddr s pt va =
     (let e = pteval (mem s) 2 pt va in
      if va < MAXVA \<and> e AND PTE_V \<noteq> 0 \<and> e AND PTE_U \<noteq> 0 \<and> PTE2PA e \<noteq> 0
      then Some (PTE2PA e + (va - PGROUNDDOWN va)) else None)"

definition ubyte :: "kmem \<Rightarrow> u64 \<Rightarrow> u64 \<Rightarrow> u8 option" where
  "ubyte s pt va = map_option (mem s) (uaddr s pt va)"

lemma walkaddr_run:
  "walkaddr pt va s =
   Ok (let e = pteval (mem s) 2 pt va in
       if va < MAXVA \<and> e AND PTE_V \<noteq> 0 \<and> e AND PTE_U \<noteq> 0 then PTE2PA e else 0) s"
  if "pt_inv s 2 pt"
proof (cases "va < MAXVA")
  case True
  then have "\<not> va \<ge> MAXVA" by simp
  then show ?thesis
    using True leaf_nonzero [OF that, of va]
    by (auto simp: walkaddr_def run_simps walk_lookup pteval_def Let_def split: option.splits)
next
  case False
  then have "va \<ge> MAXVA" by simp
  then show ?thesis using False by (simp add: walkaddr_def run_simps Let_def)
qed

lemma PGROUNDDOWN_same_page:
  assumes "unat (va - PGROUNDDOWN va) + k < 4096"
  shows "PGROUNDDOWN (va + of_nat k) = PGROUNDDOWN va"
proof -
  let ?p = "PGROUNDDOWN va"
  have "unat (va + of_nat k - ?p) = unat ((va - ?p) + of_nat k)" by (simp add: algebra_simps)
  also have "\<dots> = unat (va - ?p) + k" using assms by (simp add: unat_plus_if' unat_of_nat_small)
  finally have "in_page ?p (va + of_nat k)" using assms by (simp add: in_page_def)
  then show ?thesis by (simp add: in_page_iff)
qed

lemma pteval_page: "pteval m 2 pt (PGROUNDDOWN va) = pteval m 2 pt va" if "va < MAXVA"
proof -
  have "PGROUNDDOWN va \<le> va" by (simp add: word_le_nat_alt unat_PGROUNDDOWN)
  then have "PGROUNDDOWN va < MAXVA" using that by (rule le_less_trans)
  moreover have "PGROUNDDOWN (PGROUNDDOWN va) = PGROUNDDOWN va" by (rule PGROUNDDOWN_aligned) simp
  ultimately have si: "same_index 2 (PGROUNDDOWN va) va" using same_index_iff that by simp
  have "leaf m l pt (PGROUNDDOWN va) = leaf m l pt va" if "l \<le> 2" for l pt
    using that
  proof (induction l arbitrary: pt)
    case 0
    then show ?case using si by (simp add: same_index_def)
  next
    case (Suc l)
    then have "idx (Suc l) (PGROUNDDOWN va) = idx (Suc l) va" using si by (simp add: same_index_def)
    then show ?case using Suc by (simp split: option.split)
  qed
  then show ?thesis by (simp add: pteval_def)
qed

lemma PGROUNDDOWN_less_MAXVA: "PGROUNDDOWN va < MAXVA \<longleftrightarrow> va < MAXVA"
proof -
  have "unat MAXVA = 2 ^ 26 * 4096" by (simp add: MAXVA_def push_bit_eq_mult)
  moreover have "unat va - unat va mod 4096 < k * 4096 \<longleftrightarrow> unat va < k * 4096" for k
    by (simp add: minus_mod_eq_div_mult div_less_iff_less_mult)
  ultimately show ?thesis by (simp only: word_less_nat_alt unat_PGROUNDDOWN)
qed

lemma uaddr_same_page:
  assumes "unat (va - PGROUNDDOWN va) + k < 4096"
  shows "uaddr s pt (va + of_nat k) = map_option (\<lambda>a. a + of_nat k) (uaddr s pt va)"
proof -
  note pg = PGROUNDDOWN_same_page [OF assms]
  have "va + of_nat k < MAXVA \<longleftrightarrow> va < MAXVA"
    using PGROUNDDOWN_less_MAXVA [of "va + of_nat k"] PGROUNDDOWN_less_MAXVA [of va] pg by simp
  moreover have "pteval (mem s) 2 pt (va + of_nat k) = pteval (mem s) 2 pt va" if "va < MAXVA" "va + of_nat k < MAXVA"
    using pteval_page [OF that(1), of "mem s" pt] pteval_page [OF that(2), of "mem s" pt] pg by simp
  ultimately show ?thesis using pg by (auto simp: uaddr_def Let_def algebra_simps)
qed

text \<open>What one round of the copying loops covers.\<close>

lemma chunk_next:
  assumes "len \<noteq> 0" and "len - chunk va len \<noteq> 0"
  shows "PGROUNDDOWN va + PGSIZE = va + of_nat (unat (chunk va len))"
  using assms by (auto simp: chunk_def Let_def split: if_splits)

lemma chunk_same_page:
  assumes "len \<noteq> 0" and "i < unat (chunk va len)"
  shows "unat (va - PGROUNDDOWN va) + i < 4096"
  using chunk_bounds(4) [OF assms(1), of va] assms(2) by simp

lemma read_chunk:
  assumes "len \<noteq> 0" and "uaddr s pt va = Some a"
  shows "map (\<lambda>i. ubyte s pt (va + of_nat i)) [0..<unat (chunk va len)] =
    map Some (read_bytes (mem s) a (unat (chunk va len)))"
  using chunk_same_page [OF assms(1)] assms(2)
  by (auto simp: read_bytes_def ubyte_def uaddr_same_page intro!: map_cong)

lemma uaddr_walkaddr:
  assumes "pt_inv s 2 pt"
  obtains "uaddr s pt va = None" "walkaddr pt (PGROUNDDOWN va) s = Ok 0 s"
  | pa where "uaddr s pt va = Some (pa + (va - PGROUNDDOWN va))" "walkaddr pt (PGROUNDDOWN va) s = Ok pa s" "pa \<noteq> 0"
proof -
  have "walkaddr pt (PGROUNDDOWN va) s = Ok (let e = pteval (mem s) 2 pt va in
       if va < MAXVA \<and> e AND PTE_V \<noteq> 0 \<and> e AND PTE_U \<noteq> 0 then PTE2PA e else 0) s"
    using pteval_page [of va "mem s" pt] by (auto simp: walkaddr_run [OF assms] PGROUNDDOWN_less_MAXVA Let_def)
  then show ?thesis using that by (cases "uaddr s pt va") (auto simp: uaddr_def Let_def split: if_splits)
qed

text \<open>The bytes of a user range: all of them, or \<open>None\<close> when one address is not accessible.\<close>

definition ubytes :: "kmem \<Rightarrow> u64 \<Rightarrow> u64 \<Rightarrow> nat \<Rightarrow> u8 list option" where
  "ubytes s pt va n = those (map (\<lambda>i. ubyte s pt (va + of_nat i)) [0..<n])"

lemma those_append: "those (xs @ ys) =
    (case those xs of None \<Rightarrow> None | Some as \<Rightarrow> map_option (append as) (those ys))"
proof (induction xs)
  case Nil
  then show ?case by (cases "those ys") auto
next
  case (Cons x xs)
  then show ?case by (cases x; cases "those ys") (auto split: option.splits)
qed

lemma those_map_Some [simp]: "those (map Some xs) = Some xs"
  by (induction xs) auto

lemma ubytes_add: "ubytes s pt va (n + m) =
    (case ubytes s pt va n of None \<Rightarrow> None | Some as \<Rightarrow> map_option (append as) (ubytes s pt (va + of_nat n) m))"
proof -
  have "[0..<n + m] = [0..<n] @ [n..<m + n]" using upt_add_eq_append [of 0 n m] by (simp add: add.commute)
  also have "[n..<m + n] = map (\<lambda>i. i + n) [0..<m]" by (simp only: map_add_upt)
  finally have "[0..<n + m] = [0..<n] @ map (\<lambda>i. i + n) [0..<m]" .
  then show ?thesis by (simp add: ubytes_def those_append comp_def algebra_simps split: option.split)
qed

lemma ubytes_0 [simp]: "ubytes s pt va 0 = Some []"
  by (simp add: ubytes_def)

lemma ubytes_chunk:
  assumes "len \<noteq> 0"
  shows "ubytes s pt va (unat len) =
    (case uaddr s pt va of None \<Rightarrow> None
     | Some a \<Rightarrow> map_option (append (read_bytes (mem s) a (unat (chunk va len))))
         (ubytes s pt (PGROUNDDOWN va + PGSIZE) (unat (len - chunk va len))))"
proof -
  let ?n = "unat (chunk va len)"
  note b = chunk_bounds [OF assms, of va]
  have len: "unat len = ?n + unat (len - chunk va len)"
    using b(2) by (simp add: unat_sub word_le_nat_alt)
  have nxt: "ubytes s pt (va + of_nat ?n) (unat (len - chunk va len)) =
      ubytes s pt (PGROUNDDOWN va + PGSIZE) (unat (len - chunk va len))"
    using chunk_next [OF assms, of va] by (cases "len - chunk va len = 0") simp_all
  show ?thesis
  proof (cases "uaddr s pt va")
    case None
    have "[0..<unat len] = 0 # [1..<unat len]" using b by (simp add: upt_conv_Cons)
    then show ?thesis using None by (simp add: ubytes_def ubyte_def)
  next
    case (Some a)
    have "ubytes s pt va ?n = Some (read_bytes (mem s) a ?n)"
      using read_chunk [OF assms Some] by (simp add: ubytes_def)
    then show ?thesis using Some nxt ubytes_add [of s pt va ?n] by (simp only: len option.case)
  qed
qed

text \<open>
  \<^verbatim>\<open>copyin\<close> succeeds exactly when every byte of the source range is mapped user memory, and then
  delivers exactly those bytes, in order, across page boundaries; otherwise it returns -1. It never
  panics and changes nothing.
\<close>

lemma copyin_run:
  assumes "pt_inv s 2 pt"
  shows "case ubytes s pt srcva (unat len) of
      Some bs \<Rightarrow> copyin pt srcva len s = Ok (0, bs) s
    | None \<Rightarrow> \<exists>bs. copyin pt srcva len s = Ok (- 1, bs) s"
  using assms
proof (induction pt srcva len rule: copyin.induct)
  case (1 pt va len)
  show ?case
  proof (cases "len = 0")
    case True
    then show ?thesis by (simp add: copyin.simps run_simps)
  next
    case False
    note IH = "1.IH" [OF False refl refl _ "1.prems"]
    from "1.prems" show ?thesis
    proof (cases rule: uaddr_walkaddr [where va = va])
      case 1
      then show ?thesis by (simp add: ubytes_chunk [OF False] copyin.simps [of pt va] False run_simps Let_def)
    next
      case (2 pa)
      have "copyin pt va len s = (case copyin pt (PGROUNDDOWN va + PGSIZE) (len - chunk va len) s of
          Ok (r, rest) t \<Rightarrow> Ok (r, read_bytes (mem s) (pa + (va - PGROUNDDOWN va)) (unat (chunk va len)) @ rest) t
        | Err e t \<Rightarrow> Err e t)"
        using 2 False by (simp add: copyin.simps [of pt va] run_simps Let_def split: res.split prod.split)
      then show ?thesis
        using IH [OF 2(3)] 2(1) by (auto simp: ubytes_chunk [OF False] split: option.splits)
    qed
  qed
qed

subsection \<open>Writing user memory\<close>

text \<open>
  \<open>user_ok s pt\<close>: no physical byte is shared by two user addresses, and user memory lies neither in
  table pages nor in free pages.
\<close>

definition user_ok :: "kmem \<Rightarrow> u64 \<Rightarrow> bool" where
  "user_ok s pt \<longleftrightarrow>
     (\<forall>va va' a. uaddr s pt va = Some a \<longrightarrow> uaddr s pt va' = Some a \<longrightarrow> va = va') \<and>
     (\<forall>va a. uaddr s pt va = Some a \<longrightarrow> PGROUNDDOWN a \<notin> tabs (mem s) 2 pt \<union> free_pages s)"

lemma PTE2PA_aligned: "aligned (PTE2PA e)"
proof -
  have "take_bit 12 (PTE2PA e) = 0" by (rule bit_word_eqI) (auto simp: PTE2PA_def bit_simps)
  then show ?thesis by (simp add: aligned_def take_bit_eq_mod PGSIZE_def)
qed

lemma uaddr_page:
  assumes "uaddr s pt va = Some a"
  shows "PGROUNDDOWN a + (va - PGROUNDDOWN va) = a"
proof -
  let ?off = "va - PGROUNDDOWN va"
  obtain p where p: "a = p + ?off" "aligned p"
    using assms PTE2PA_aligned by (auto simp: uaddr_def Let_def split: if_splits)
  have "unat ?off < 4096" using in_page_iff [of "PGROUNDDOWN va" va] by (simp add: in_page_def)
  then have "in_page p a" using p(1) by (simp add: in_page_def)
  then have "PGROUNDDOWN a = p" using in_page_iff [OF p(2)] by simp
  then show ?thesis using p(1) by simp
qed

lemma write_user:
  assumes inv: "pt_inv s 2 pt" and ok: "user_ok s pt" and a: "uaddr s pt va = Some a"
    and len: "unat (va - PGROUNDDOWN va) + length bs \<le> 4096"
  defines "t \<equiv> mem_store (\<lambda>m. write_bytes m a bs) s"
  shows "pt_inv t 2 pt" and "user_ok t pt" and "\<And>v. uaddr t pt v = uaddr s pt v"
    and "\<And>v. pteval (mem t) 2 pt v = pteval (mem s) 2 pt v"
    and "\<And>v. ubyte t pt v = (if unat (v - va) < length bs then Some (bs ! unat (v - va)) else ubyte s pt v)"
proof -
  let ?p = "PGROUNDDOWN a"
  have ki: "kmem_inv s" using inv by (simp add: pt_inv_def)
  have p: "?p \<notin> tabs (mem s) 2 pt" "?p \<notin> free_pages s" using ok a by (auto simp: user_ok_def)
  have wr: "write_bytes (mem s) a bs x = (if unat (x - a) < length bs then bs ! unat (x - a) else mem s x)" for x
    using len by (intro write_bytes_apply) simp
  have "in_page ?p x" if "unat (x - a) < length bs" for x
  proof -
    have "x - ?p = (va - PGROUNDDOWN va) + (x - (?p + (va - PGROUNDDOWN va)))" by simp
    then have "x - ?p = (va - PGROUNDDOWN va) + (x - a)" by (simp only: uaddr_page [OF a])
    moreover have "unat ((va - PGROUNDDOWN va) + (x - a)) < 4096"
      using that len by (simp add: unat_plus_if')
    ultimately show ?thesis by (simp only: in_page_def)
  qed
  then have conf: "confined (mem s) (write_bytes (mem s) a bs) {?p}" by (auto simp: confined_def wr)
  have "write_bytes (mem s) a bs x = mem s x" if "q \<in> free_pages s" "in_page q x" for q x
    using confinedD [OF conf _ _ _ that(2)] that(1) p(2) ki page_ok_aligned ka.free_usable by auto
  then have t: "kmem_inv t" "free_pages t = free_pages s" "page_ok t = page_ok s" "mem t = write_bytes (mem s) a bs"
    unfolding t_def using ka.store_ok [OF ki, of "\<lambda>m. write_bytes m a bs"] by simp_all
  have fr: "free_pages t \<inter> tabs (mem s) 2 pt = {}" using inv t(2) by (auto simp: pt_inv_def)
  have P: "\<forall>q \<in> {?p}. aligned q" "{?p} \<inter> tabs (mem s) 2 pt = {}" using p(1) by auto
  note o = outside_table [OF inv t(1,3) conf [folded t(4)] P fr]
  show "pt_inv t 2 pt" by (rule o(1))
  show pv: "pteval (mem t) 2 pt v = pteval (mem s) 2 pt v" for v by (rule o(4))
  then show ua: "uaddr t pt v = uaddr s pt v" for v by (simp add: uaddr_def)
  show "user_ok t pt" using ok unfolding user_ok_def ua o(2) t(2) .
  fix v
  have fwd: "b - a = v - va" if "uaddr s pt v = Some b" "unat (v - va) < length bs" for b
    using uaddr_same_page [of va "unat (v - va)" s pt] that len a by simp
  have bwd: "v - va = b - a" if b: "uaddr s pt v = Some b" "unat (b - a) < length bs" for b
  proof -
    have "uaddr s pt (va + of_nat (unat (b - a))) = Some b"
      using uaddr_same_page [of va "unat (b - a)" s pt] b len a by simp
    then have "v = va + of_nat (unat (b - a))" using ok b(1) unfolding user_ok_def by blast
    then show ?thesis by simp
  qed
  have acc: "uaddr s pt v \<noteq> None" if "unat (v - va) < length bs"
    using uaddr_same_page [of va "unat (v - va)" s pt] that len a by simp
  show "ubyte t pt v = (if unat (v - va) < length bs then Some (bs ! unat (v - va)) else ubyte s pt v)"
  proof (cases "uaddr s pt v")
    case None
    then show ?thesis using acc ua by (auto simp: ubyte_def)
  next
    case (Some b)
    have "unat (b - a) < length bs \<longleftrightarrow> unat (v - va) < length bs" using fwd [OF Some] bwd [OF Some] by auto
    then show ?thesis using Some fwd [OF Some] by (auto simp: ubyte_def ua t(4) wr)
  qed
qed

text \<open>The user range can be written: every address is accessible and its entry has \<^verbatim>\<open>PTE_W\<close>.\<close>

definition writable :: "kmem \<Rightarrow> u64 \<Rightarrow> u64 \<Rightarrow> nat \<Rightarrow> bool" where
  "writable s pt va n \<longleftrightarrow>
     (\<forall>i<n. uaddr s pt (va + of_nat i) \<noteq> None \<and> pteval (mem s) 2 pt (va + of_nat i) AND PTE_W \<noteq> 0)"

lemma writable_cong:
  assumes "\<And>v. uaddr t pt v = uaddr s pt v" and "\<And>v. pteval (mem t) 2 pt v = pteval (mem s) 2 pt v"
  shows "writable t pt va n = writable s pt va n"
  by (simp add: writable_def assms)

lemma writable_rest:
  assumes "writable s pt va (unat len)" and "len \<noteq> 0"
  shows "writable s pt (PGROUNDDOWN va + PGSIZE) (unat (len - chunk va len))"
proof (cases "len - chunk va len = 0")
  case False
  let ?n = "unat (chunk va len)"
  have len: "unat len = ?n + unat (len - chunk va len)"
    using chunk_bounds(2) [OF assms(2), of va] by (simp add: unat_sub word_le_nat_alt)
  have "uaddr s pt (va + of_nat (?n + i)) \<noteq> None \<and> pteval (mem s) 2 pt (va + of_nat (?n + i)) AND PTE_W \<noteq> 0"
    if "i < unat (len - chunk va len)" for i
  proof -
    have "?n + i < unat len" using that len by simp
    then show ?thesis using assms(1) unfolding writable_def by blast
  qed
  then show ?thesis
    unfolding writable_def chunk_next [OF assms(2) False] by (simp add: add.assoc)
qed (simp add: writable_def)

lemma wp_copyout_step:
  assumes inv: "pt_inv s 2 pt" and ok: "writable s pt va (unat len)" and "len \<noteq> 0"
    and next': "\<And>a. uaddr s pt va = Some a \<Longrightarrow>
       wp (copyout pt (PGROUNDDOWN va + PGSIZE) (drop (unat (chunk va len)) src) (len - chunk va len)) Q
         (mem_store (\<lambda>m. write_bytes m a (take (unat (chunk va len)) src)) s)"
  shows "wp (copyout pt va src len) Q s"
proof -
  let ?e = "pteval (mem s) 2 pt va"
  have "0 < unat len" using assms(3) by (simp add: unat_gt_0)
  then obtain a where a: "uaddr s pt va = Some a" and w: "?e AND PTE_W \<noteq> 0"
    using ok by (auto simp: writable_def dest!: spec [of _ 0])
  then have e: "va < MAXVA" "?e AND PTE_V \<noteq> 0" "?e AND PTE_U \<noteq> 0" "a = PTE2PA ?e + (va - PGROUNDDOWN va)"
    by (auto simp: uaddr_def Let_def split: if_splits)
  have va0: "PGROUNDDOWN va < MAXVA" "\<not> PGROUNDDOWN va \<ge> MAXVA"
    using e(1) PGROUNDDOWN_less_MAXVA [of va] by (simp_all add: not_le)
  have pv: "pteval (mem s) 2 pt (PGROUNDDOWN va) = ?e" by (rule pteval_page [OF e(1)])
  then obtain pte where lf: "leaf (mem s) 2 pt (PGROUNDDOWN va) = Some pte" and "load64 (mem s) pte = ?e"
    using e(2) by (auto simp: pteval_def split: option.splits)
  moreover have "pte \<noteq> 0" by (rule leaf_nonzero [OF inv lf])
  ultimately show ?thesis
    using next' [OF a] assms(3) va0 e w
    by (simp add: copyout.simps [of pt va] Let_def wp_bnd wp_gets wp_andthen wp_modify wp_walk_lookup)
qed

text \<open>
  When the destination range is mapped, writable user memory, \<^verbatim>\<open>copyout\<close> returns 0, afterwards
  user code sees exactly the source bytes in that range, and no other user byte, no translation and
  no page-table invariant has changed.
\<close>

lemma wp_copyout_full:
  assumes "pt_inv s 2 pt" and "user_ok s pt" and "writable s pt dstva (unat len)" and "length src = unat len"
  shows "wp (copyout pt dstva src len) (\<lambda>r t. r = 0 \<and> pt_inv t 2 pt \<and> user_ok t pt \<and>
     (\<forall>v. uaddr t pt v = uaddr s pt v) \<and> (\<forall>v. pteval (mem t) 2 pt v = pteval (mem s) 2 pt v) \<and>
     (\<forall>v. ubyte t pt v = (if unat (v - dstva) < unat len then Some (src ! unat (v - dstva)) else ubyte s pt v))) s"
  using assms
proof (induction "unat len" arbitrary: s dstva src len rule: less_induct)
  case less
  show ?case
  proof (cases "len = 0")
    case True
    then show ?thesis using less.prems by (simp add: copyout.simps wp_ret)
  next
    case False
    let ?n = "unat (chunk dstva len)" and ?va' = "PGROUNDDOWN dstva + PGSIZE" and ?len' = "len - chunk dstva len"
    note b = chunk_bounds [OF False, of dstva]
    have len': "unat ?len' = unat len - ?n" using b(2) by (simp add: unat_sub word_le_nat_alt)
    show ?thesis
    proof (rule wp_copyout_step [OF less.prems(1,3) False])
      fix a assume a: "uaddr s pt dstva = Some a"
      let ?bs = "take ?n src" and ?t = "mem_store (\<lambda>m. write_bytes m a (take ?n src)) s"
      have lb: "length ?bs = ?n" using less.prems(4) b(2) by simp
      then have fit: "unat (dstva - PGROUNDDOWN dstva) + length ?bs \<le> 4096" using b(4) by simp
      note w = write_user [OF less.prems(1,2) a fit]
      have "writable ?t pt ?va' (unat ?len')"
        using writable_cong [OF w(3,4)] writable_rest [OF less.prems(3) False] by simp
      then have IH: "wp (copyout pt ?va' (drop ?n src) ?len') (\<lambda>r t. r = 0 \<and> pt_inv t 2 pt \<and> user_ok t pt \<and>
         (\<forall>v. uaddr t pt v = uaddr ?t pt v) \<and> (\<forall>v. pteval (mem t) 2 pt v = pteval (mem ?t) 2 pt v) \<and> (\<forall>v. ubyte t pt v =
            (if unat (v - ?va') < unat ?len' then Some (drop ?n src ! unat (v - ?va')) else ubyte ?t pt v))) ?t"
        using w(1,2) b len' less.prems(4) by (intro less.hyps) simp_all
      have rest: "unat (v - ?va') < unat ?len' \<longleftrightarrow> ?n \<le> unat (v - dstva) \<and> unat (v - dstva) < unat len"
        "unat (v - ?va') < unat ?len' \<Longrightarrow> unat (v - dstva) = ?n + unat (v - ?va')" for v
      proof -
        have eq: "v - ?va' = (v - dstva) - chunk dstva len" if "?len' \<noteq> 0"
          unfolding chunk_next [OF False that] by simp
        have u: "unat (v - ?va') = (if ?n \<le> unat (v - dstva) then unat (v - dstva) - ?n
            else unat (v - dstva) + 2 ^ 64 - ?n)" if "?len' \<noteq> 0"
          unfolding eq [OF that] using unat_sub_if' [of "v - dstva" "chunk dstva len"] by simp
        have bnd: "unat len < 2 ^ 64" using unat_bound [of len] by simp
        show "unat (v - ?va') < unat ?len' \<longleftrightarrow> ?n \<le> unat (v - dstva) \<and> unat (v - dstva) < unat len"
          using u len' b(2) bnd by (cases "?len' = 0") (auto split: if_splits)
        then show "unat (v - ?va') < unat ?len' \<Longrightarrow> unat (v - dstva) = ?n + unat (v - ?va')"
          using u by (cases "?len' = 0") auto
      qed
      show "wp (copyout pt ?va' (drop ?n src) ?len') (\<lambda>r t. r = 0 \<and> pt_inv t 2 pt \<and> user_ok t pt \<and>
         (\<forall>v. uaddr t pt v = uaddr s pt v) \<and> (\<forall>v. pteval (mem t) 2 pt v = pteval (mem s) 2 pt v) \<and> (\<forall>v. ubyte t pt v =
            (if unat (v - dstva) < unat len then Some (src ! unat (v - dstva)) else ubyte s pt v))) ?t"
        using IH
      proof (rule wp_mono, elim conjE, intro conjI allI)
        fix r u v
        assume "\<forall>v. ubyte u pt v =
            (if unat (v - ?va') < unat ?len' then Some (drop ?n src ! unat (v - ?va')) else ubyte ?t pt v)"
        then show "ubyte u pt v = (if unat (v - dstva) < unat len then Some (src ! unat (v - dstva)) else ubyte s pt v)"
          using rest [of v] less.prems(4) b(2) by (auto simp: w(5) lb)
      qed (simp_all add: w(3,4))
    qed
  qed
qed

lemma wp_copyout:
  assumes "pt_inv s 2 pt" and "user_ok s pt" and "writable s pt dstva (unat len)" and "length src = unat len"
  shows "wp (copyout pt dstva src len) (\<lambda>r t. r = 0 \<and> pt_inv t 2 pt \<and> user_ok t pt \<and>
     (\<forall>v. uaddr t pt v = uaddr s pt v) \<and>
     (\<forall>v. ubyte t pt v = (if unat (v - dstva) < unat len then Some (src ! unat (v - dstva)) else ubyte s pt v))) s"
  by (rule wp_mono [OF wp_copyout_full [OF assms]]) simp

lemma ubytes_of_ubyte:
  assumes "\<And>i. i < n \<Longrightarrow> ubyte s pt (va + of_nat i) = Some (bs ! i)" and "length bs = n"
  shows "ubytes s pt va n = Some bs"
proof -
  have "map (\<lambda>i. ubyte s pt (va + of_nat i)) [0..<n] = map Some bs"
    using assms by (intro nth_equalityI) auto
  then show ?thesis by (simp add: ubytes_def)
qed

lemma ubyte_range:
  assumes "\<forall>v. ubyte t pt v = (if unat (v - va) < n then Some (bs ! unat (v - va)) else ubyte s pt v)"
    and "length bs = n" and "n \<le> 2 ^ 64"
  shows "ubytes t pt va n = Some bs"
  by (rule ubytes_of_ubyte) (use assms in \<open>auto simp: unat_of_nat_small\<close>)

text \<open>
  C13: \<^verbatim>\<open>copyin\<close> succeeds exactly when every byte of the source range is mapped user memory, and then
  delivers exactly those bytes; otherwise it returns -1. It never panics and changes nothing.
\<close>

theorem copyin_reads:
  assumes "pt_inv s 2 pt"
  shows "case ubytes s pt srcva (unat len) of
      Some bs \<Rightarrow> copyin pt srcva len s = Ok (0, bs) s
    | None \<Rightarrow> \<exists>bs. copyin pt srcva len s = Ok (- 1, bs) s"
  by (rule copyin_run [OF assms])

text \<open>
  C12: when the destination range is mapped, writable user memory, \<^verbatim>\<open>copyout\<close> returns 0, afterwards
  user code sees exactly the source bytes in that range, and no other user byte, no translation and
  no page-table invariant has changed.
\<close>

theorem copyout_writes:
  assumes "pt_inv s 2 pt" and "user_ok s pt" and "writable s pt dstva (unat len)" and "length src = unat len"
  shows "wp (copyout pt dstva src len) (\<lambda>r t. r = 0 \<and> pt_inv t 2 pt \<and> user_ok t pt \<and>
     (\<forall>v. uaddr t pt v = uaddr s pt v) \<and>
     (\<forall>v. ubyte t pt v = (if unat (v - dstva) < unat len then Some (src ! unat (v - dstva)) else ubyte s pt v))) s"
  by (rule wp_copyout [OF assms])

text \<open>
  C8: what \<^verbatim>\<open>copyout\<close> wrote to user memory, \<^verbatim>\<open>copyin\<close> from the same address reads back, byte for byte,
  also when the range spans several pages.
\<close>

theorem copyout_copyin:
  assumes "pt_inv s 2 pt" and "user_ok s pt" and "writable s pt va (unat len)" and "length src = unat len"
  shows "wp (bnd (copyout pt va src len) (\<lambda>_. copyin pt va len)) (\<lambda>(r, bs) _. r = 0 \<and> bs = src) s"
  unfolding wp_bnd
proof (rule wp_mono [OF wp_copyout [OF assms]], elim conjE)
  fix r t
  assume t: "pt_inv t 2 pt" and b: "\<forall>v. ubyte t pt v =
      (if unat (v - va) < unat len then Some (src ! unat (v - va)) else ubyte s pt v)"
  have "ubytes t pt va (unat len) = Some src"
    using ubyte_range [OF b assms(4)] unat_bound [of len] by simp
  then show "wp (copyin pt va len) (\<lambda>(r, bs) _. r = 0 \<and> bs = src) t"
    using copyin_run [OF t, of va len] by (simp add: wp_def)
qed

subsection \<open>A concrete address space\<close>

lemma one_page_pteval:
  assumes "va < MAXVA"
  shows "pteval (mem one_page) 2 0x80030000 va = (if PGROUNDDOWN va = 0x4000 then 0x2000CC17 else 0)"
proof -
  have i4: "idx 0 0x4000 = 4" "idx (Suc 0) 0x4000 = 0" "idx (Suc (Suc 0)) 0x4000 = 0"
    by (simp_all add: idx_def PX_def)
  have v: "PA2PTE 0x80033000 OR (PTE_R OR PTE_W OR PTE_U OR PTE_V) = 0x2000CC17"
    by (simp add: PA2PTE_def const_defs)
  have "PGROUNDDOWN va = 0x4000 \<longleftrightarrow> same_index 2 va 0x4000"
    using same_index_iff [OF assms, where va' = "0x4000"] by (simp add: const_defs PGROUNDDOWN_def)
  also have "\<dots> \<longleftrightarrow> idx 0 va = 4 \<and> idx (Suc 0) va = 0 \<and> idx (Suc (Suc 0)) va = 0"
    by (auto simp: same_index_def i4 le_Suc_eq numeral_2_eq_2)
  finally show ?thesis
    using one_page_children [OF idx_bound] one_page_loads(3) [OF idx_bound] one_page_children [of 0] one_page_loads(3) [of 4]
      v by (auto simp: pteval_def numeral_2_eq_2)
qed

lemma one_page_uaddr:
  "uaddr one_page 0x80030000 va = (if PGROUNDDOWN va = 0x4000 then Some (0x80033000 + (va - 0x4000)) else None)"
proof (cases "va < MAXVA")
  case True
  then show ?thesis by (simp add: uaddr_def one_page_pteval Let_def PTE2PA_def const_defs)
next
  case False
  moreover have "(0x4000 :: u64) < MAXVA" by (simp add: const_defs)
  ultimately have "PGROUNDDOWN va \<noteq> 0x4000" using PGROUNDDOWN_less_MAXVA [of va] by auto
  then show ?thesis using False by (simp add: uaddr_def)
qed

lemma one_page_user_ok: "user_ok one_page 0x80030000"
proof -
  have "PGROUNDDOWN (0x80033000 + (va - 0x4000)) = 0x80033000" if "PGROUNDDOWN va = 0x4000" for va :: u64
  proof -
    have "unat (va - 0x4000) < 4096" using page_shift [of "0x4000" va] that by (simp add: aligned_def PGSIZE_def)
    then show ?thesis using page_shift [of "0x80033000" "0x80033000 + (va - 0x4000)"]
      by (simp add: aligned_def PGSIZE_def)
  qed
  then show ?thesis using one_page_tabs one_page_free
    by (auto simp: user_ok_def one_page_uaddr split: if_splits)
qed

lemma one_page_writable: "writable one_page 0x80030000 0x4FF0 (unat (3 :: u64))"
proof -
  have "PGROUNDDOWN (0x4FF0 + of_nat i) = 0x4000" if "i < 3" for i
    using that by (auto simp: less_Suc_eq numeral_3_eq_3 PGROUNDDOWN_def PGSIZE_def)
  moreover have "0x4FF0 + of_nat i < MAXVA" if "i < 3" for i
    using that by (auto simp: less_Suc_eq numeral_3_eq_3 const_defs)
  ultimately show ?thesis by (simp add: writable_def one_page_uaddr one_page_pteval PTE_W_def)
qed

theorem copyin_reads_witness:
  "case ubytes one_page 0x80030000 0x4FF0 (unat (3 :: u64)) of
      Some bs \<Rightarrow> copyin 0x80030000 0x4FF0 3 one_page = Ok (0, bs) one_page
    | None \<Rightarrow> \<exists>bs. copyin 0x80030000 0x4FF0 3 one_page = Ok (- 1, bs) one_page"
  by (rule copyin_reads [OF one_page_inv])

theorem copyout_writes_witness:
  "wp (copyout 0x80030000 0x4FF0 [1, 2, 3] 3) (\<lambda>r t. r = 0 \<and> pt_inv t 2 0x80030000 \<and> user_ok t 0x80030000 \<and>
     (\<forall>v. uaddr t 0x80030000 v = uaddr one_page 0x80030000 v) \<and>
     (\<forall>v. ubyte t 0x80030000 v = (if unat (v - 0x4FF0) < unat (3 :: u64) then Some ([1, 2, 3] ! unat (v - 0x4FF0))
       else ubyte one_page 0x80030000 v))) one_page"
  by (rule copyout_writes [OF one_page_inv one_page_user_ok one_page_writable]) simp

theorem copyout_copyin_witness:
  "wp (bnd (copyout 0x80030000 0x4FF0 [1, 2, 3] 3) (\<lambda>_. copyin 0x80030000 0x4FF0 3))
     (\<lambda>(r, bs) _. r = 0 \<and> bs = [1, 2, 3]) one_page"
  by (rule copyout_copyin [OF one_page_inv one_page_user_ok one_page_writable]) simp

end
