(* ===== verification/Fread.thy ===== *)
theory Fread
  imports Balloc Usermem
begin

text \<open>
  Reading files: the contents of an inode as a list of bytes, the block map, and \<^verbatim>\<open>readi\<close>.
\<close>

subsection \<open>The contents of a file\<close>

text \<open>The address of block \<open>bn\<close> of a file, 0 if it has none, and byte \<open>k\<close> of the file.\<close>

definition baddr :: "(u32 \<Rightarrow> block) \<Rightarrow> inode \<Rightarrow> nat \<Rightarrow> u32" where
  "baddr v x bn =
     (if bn < NDIRECT then i_addrs x ! bn
      else if i_addrs x ! NDIRECT = 0 then 0
      else get32 (v (i_addrs x ! NDIRECT)) (4 * (bn - NDIRECT)))"

definition fbyte :: "(u32 \<Rightarrow> block) \<Rightarrow> inode \<Rightarrow> nat \<Rightarrow> u8" where
  "fbyte v x k = v (baddr v x (k div BSIZE)) ! (k mod BSIZE)"

definition fcontents :: "(u32 \<Rightarrow> block) \<Rightarrow> inode \<Rightarrow> u8 list" where
  "fcontents v x = map (fbyte v x) [0..<unat (i_size x)]"

lemma length_fcontents [simp]: "length (fcontents v x) = unat (i_size x)"
  by (simp add: fcontents_def)

text \<open>A file on the root device all of whose bytes have a block.\<close>

definition file_ok :: "(u32 \<Rightarrow> block) \<Rightarrow> inode \<Rightarrow> bool" where
  "file_ok v x \<longleftrightarrow> i_dev x = ROOTDEV \<and> unat (i_size x) \<le> MAXFILE * BSIZE \<and>
     (\<forall>bn. bn * BSIZE < unat (i_size x) \<longrightarrow> baddr v x bn \<noteq> 0)"

subsection \<open>The block map of an existing block\<close>

lemma bmap_found:
  assumes t: "tx p s {} {} n" and x: "inode_at s ip = x" "i_dev x = ROOTDEV"
    and bn: "unat bn < MAXFILE" and a: "baddr (vw s) x (unat bn) \<noteq> 0"
  shows "wp (bmap p ip bn) (\<lambda>r t. r = baddr (vw s) x (unat bn) \<and> tx p t {} {} n \<and> vw t = vw s \<and> only_log s t) s"
proof (cases "unat bn < NDIRECT")
  case True
  then show ?thesis
    using a t x by (simp add: bmap_def wp_bnd wp_gets wp_ret baddr_def only_log_def)
next
  case False
  let ?ind = "i_addrs x ! NDIRECT" let ?k = "4 * (unat bn - NDIRECT)"
  have i: "?ind \<noteq> 0" "get32 (vw s ?ind) ?k \<noteq> 0" "unat bn - NDIRECT < NINDIRECT" "baddr (vw s) x (unat bn) = get32 (vw s ?ind) ?k"
    using a False bn by (auto simp: baddr_def MAXFILE_def split: if_splits)
  have "wp (bnd (fbread p ROOTDEV ?ind) (\<lambda>bp. bnd (fbdata bp) (\<lambda>a.
       bnd (if get32 a ?k = 0 then bnd (balloc p ROOTDEV) (\<lambda>addr.
              if addr \<noteq> 0 then andthen (fbset bp (put32 a ?k addr)) (andthen (flog_write bp) (ret addr)) else ret addr)
            else ret (get32 a ?k)) (\<lambda>addr.
       andthen (fbrelse p bp) (ret addr)))))
     (\<lambda>r t. r = baddr (vw s) x (unat bn) \<and> tx p t {} {} n \<and> vw t = vw s \<and> only_log s t) s"
  proof (rule ft.open_block [OF t])
    fix b u
    assume u: "tx p u (insert ?ind {}) {} n" "fbuf u b ?ind" "vw u = vw s" "only_log s u"
    have "wp (andthen (fbrelse p b) (ret (get32 (vw s ?ind) ?k)))
      (\<lambda>r t. r = baddr (vw s) x (unat bn) \<and> tx p t {} {} n \<and> vw t = vw s \<and> only_log s t) u"
      by (rule ft.close_block [OF u(1,2)]) (use u i(4) only_log_trans [OF u(4)] in \<open>auto simp: wp_ret\<close>)
    then show "wp (bnd (if get32 (vw s ?ind) ?k = 0 then bnd (balloc p ROOTDEV) (\<lambda>addr.
              if addr \<noteq> 0 then andthen (fbset b (put32 (vw s ?ind) ?k addr)) (andthen (flog_write b) (ret addr)) else ret addr)
            else ret (get32 (vw s ?ind) ?k)) (\<lambda>addr. andthen (fbrelse p b) (ret addr)))
      (\<lambda>r t. r = baddr (vw s) x (unat bn) \<and> tx p t {} {} n \<and> vw t = vw s \<and> only_log s t) u"
      using i by (simp add: wp_bnd wp_ret)
  qed simp_all
  then show ?thesis
    using False i x by (simp add: bmap_def wp_bnd wp_gets wp_ret Let_def cong: if_cong)
qed

subsection \<open>Positions\<close>

fun shift :: "place \<Rightarrow> nat \<Rightarrow> place" where
  "shift (User a) m = User (a + of_nat m)"
| "shift (Phys a) m = Phys (a + of_nat m)"
| "shift (Local k) m = Local (k + m)"

lemma shift_0 [simp]: "shift d 0 = d"
  by (cases d) simp_all

lemma advance_shift: "advance (shift d m) w = shift d (m + unat w)"
  by (cases d) (simp_all add: add.assoc)

text \<open>The bytes of one round, inside one block.\<close>

lemma bsize: "BSIZE = 1024" "unat (of_nat BSIZE :: u32) = 1024"
  by (simp_all add: BSIZE_def)

lemma unat_portion:
  assumes "m < N" and "N < 2 ^ 32" and "off < 2 ^ 32"
  shows "unat (portion (of_nat N) (of_nat m) (of_nat off)) = min (N - m) (1024 - off mod 1024)"
proof -
  have d: "(of_nat N :: u32) - of_nat m = of_nat (N - m)" using assms(1) by (simp add: of_nat_diff)
  have a: "unat ((of_nat N :: u32) - of_nat m) = N - m" unfolding d by (rule unat_of_nat_small) (use assms in simp)
  have m: "unat (of_nat off mod of_nat BSIZE :: u32) = off mod 1024" using assms(3) by (simp add: unat_mod bsize unat_of_nat_small)
  have "off mod 1024 \<le> 1024" by simp
  then have "unat (of_nat BSIZE - of_nat off mod of_nat BSIZE :: u32) = 1024 - off mod 1024"
    using m by (simp add: unat_sub_if' bsize)
  then show ?thesis using a by (simp add: portion_def min_def word_le_nat_alt)
qed

lemma unat_block:
  "k < 2 ^ 32 \<Longrightarrow> unat (of_nat k div of_nat BSIZE :: u32) = k div 1024"
  "k < 2 ^ 32 \<Longrightarrow> unat (of_nat k mod of_nat BSIZE :: u32) = k mod 1024"
  by (simp_all add: unat_div unat_mod bsize unat_of_nat_small)

lemma within_block:
  fixes a b i :: nat
  assumes "a mod b + i < b"
  shows "(a + i) div b = a div b" and "(a + i) mod b = a mod b + i"
proof -
  have "(a + i) div b = (a div b * b + (a mod b + i)) div b" by (simp add: add.assoc [symmetric])
  also have "\<dots> = a div b" using assms by (subst div_mult_self3) auto
  finally show "(a + i) div b = a div b" .
  show "(a + i) mod b = a mod b + i" using assms by (metis mod_add_left_eq mod_less)
qed

lemma block_slice:
  assumes "off + c \<le> unat (i_size x)" and "off mod 1024 + c \<le> 1024" and "length (v (baddr v x (off div 1024))) = 1024"
  shows "take c (drop (off mod 1024) (v (baddr v x (off div 1024)))) = take c (drop off (fcontents v x))"
proof (rule nth_equalityI)
  show "length (take c (drop (off mod 1024) (v (baddr v x (off div 1024))))) = length (take c (drop off (fcontents v x)))"
    using assms by simp
  fix i assume "i < length (take c (drop (off mod 1024) (v (baddr v x (off div 1024)))))"
  then have i: "i < c" by simp
  have "off mod 1024 + i < 1024" using i assms(2) by simp
  note w = within_block [OF this]
  show "take c (drop (off mod 1024) (v (baddr v x (off div 1024)))) ! i = take c (drop off (fcontents v x)) ! i"
    using i assms w by (simp add: fcontents_def fbyte_def bsize)
qed

subsection \<open>Reading\<close>

text \<open>
  \<open>receives p dst data I\<close>: the bytes \<open>data\<close>, copied piece by piece to \<open>dst\<close>, arrive there; \<open>I m\<close> says that the first
  \<open>m\<close> have arrived.
\<close>

definition receives :: "cur \<Rightarrow> place \<Rightarrow> u8 list \<Rightarrow> (nat \<Rightarrow> fsys \<Rightarrow> bool) \<Rightarrow> bool" where
  "receives p dst bytes I \<longleftrightarrow>
     (\<forall>m c t. I m t \<longrightarrow> m + c \<le> length bytes \<longrightarrow>
        wp (either_copyout p (shift dst m) (take c (drop m bytes)))
          (\<lambda>r u. r = 0 \<and> I (m + c) u \<and> flog u = flog t \<and> itable u = itable t \<and> sb u = sb t) t) \<and>
     (\<forall>m t u. I m t \<longrightarrow> only_log t u \<longrightarrow> I m u)"

lemma tx_flog: "flog t = flog s \<Longrightarrow> tx p t H D n \<longleftrightarrow> tx p s H D n"
  "flog t = flog s \<Longrightarrow> vw t = vw s" "flog t = flog s \<Longrightarrow> fbuf t = fbuf s"
  by (simp_all add: tx_def vw_def fbuf_def)

lemma readi_loop_spec:
  assumes rec: "receives p dst bytes I" and x: "inode_at s ip = x" "file_ok v x"
    and bytes: "bytes = take N (drop off (fcontents v x))" and N: "off + N \<le> unat (i_size x)"
    and t: "tx p t {} {} n" "vw t = v" "itable t = itable s" "sb t = sb s" "I m t" and m: "m \<le> N" and fuel: "N - m < fuel"
  shows "wp (readi_loop fuel p ip (shift dst m) (of_nat (off + m)) (of_nat N) (of_nat m))
    (\<lambda>r u. r = of_nat N \<and> I N u \<and> tx p u {} {} n \<and> vw u = v \<and> itable u = itable s \<and> sb u = sb s) t"
  using t m fuel
proof (induction fuel arbitrary: t m)
  case (Suc fuel)
  have sz: "unat (i_size x) < 2 ^ 32" using unat_bound [of "i_size x"] by simp
  have mx: "unat (i_size x) \<le> MAXFILE * 1024" using x(2) by (simp add: file_ok_def bsize)
  have len: "length bytes = N" using bytes N by simp
  let ?Q = "\<lambda>r u. r = of_nat N \<and> I N u \<and> tx p u {} {} n \<and> vw u = v \<and> itable u = itable s \<and> sb u = sb s"
  show ?case
  proof (cases "m = N")
    case True
    then show ?thesis using Suc.prems by (simp add: wp_ret)
  next
    case False
    then have mN: "m < N" using Suc.prems(6) by simp
    let ?o = "off + m" let ?c = "min (N - m) (1024 - ?o mod 1024)"
    let ?bn = "of_nat ?o div of_nat BSIZE :: u32" let ?a = "baddr v x (?o div 1024)"
    have o32: "?o < 2 ^ 32" "N < 2 ^ 32" using mN N sz by simp_all
    have lt: "(of_nat m :: u32) < of_nat N" using mN o32 by (simp add: word_less_nat_alt unat_of_nat_small)
    have po: "unat (portion (of_nat N) (of_nat m) (of_nat ?o)) = ?c" by (rule unat_portion [OF mN o32(2,1)])
    have pw: "portion (of_nat N) (of_nat m) (of_nat ?o) = of_nat ?c"
      using po mN o32(2) by (simp add: word_unat_eq_iff unat_of_nat_small)
    have bn: "unat ?bn = ?o div 1024" "unat (of_nat ?o mod of_nat BSIZE :: u32) = ?o mod 1024"
      using unat_block [OF o32(1)] by blast+
    have om: "?o div 1024 * 1024 \<le> ?o" by simp
    then have "?o div 1024 * 1024 < unat (i_size x)" using mN N by linarith
    then have nz: "?a \<noteq> 0" and bm: "?o div 1024 < MAXFILE"
      using x(2) mx by (auto simp: file_ok_def bsize intro: mult_right_less_imp_less [of _ 1024])
    have c: "0 < ?c" "m + ?c \<le> N" "?o + ?c \<le> unat (i_size x)" "?o mod 1024 + ?c \<le> 1024" using mN N by simp_all
    have less: "N - (m + ?c) < fuel" using c(1,2) Suc.prems(7) by linarith
    have xt: "inode_at t ip = x" "i_dev x = ROOTDEV" using x Suc.prems(3) by (simp_all add: file_ok_def)
    have "wp (bmap p ip ?bn) (\<lambda>r u. r = ?a \<and> tx p u {} {} n \<and> vw u = v \<and> only_log t u) t"
      using bmap_found [OF Suc.prems(1) xt, of ?bn] Suc.prems(2) bn bm nz by simp
    then have "wp (bmap p ip ?bn) (\<lambda>addr. wp (if addr = 0 then ret (of_nat m) else
        bnd (gets (\<lambda>s. i_dev (inode_at s ip))) (\<lambda>d. bnd (fbread p d addr) (\<lambda>bp. bnd (fbdata bp) (\<lambda>y.
          bnd (either_copyout p (shift dst m) (take ?c (drop (?o mod 1024) y))) (\<lambda>r.
          if r = - 1 then andthen (fbrelse p bp) (ret (- 1))
          else andthen (fbrelse p bp) (readi_loop fuel p ip (advance (shift dst m) (of_nat ?c)) (of_nat ?o + of_nat ?c)
             (of_nat N) (of_nat m + of_nat ?c)))))))
      ?Q) t"
    proof (rule wp_mono, elim conjE)
      fix r u assume r: "r = ?a" and u: "tx p u {} {} n" "vw u = v" "only_log t u"
      note ou = only_log_simps [OF u(3)]
      have Iu: "I m u" using rec Suc.prems(5) u(3) by (auto simp: receives_def)
      have "wp (bnd (fbread p ROOTDEV ?a) (\<lambda>bp. bnd (fbdata bp) (\<lambda>y.
          bnd (either_copyout p (shift dst m) (take ?c (drop (?o mod 1024) y))) (\<lambda>r.
          if r = - 1 then andthen (fbrelse p bp) (ret (- 1))
          else andthen (fbrelse p bp) (readi_loop fuel p ip (shift dst (m + ?c)) (of_nat (off + (m + ?c)))
             (of_nat N) (of_nat (m + ?c)))))))
        ?Q u"
      proof (rule ft.open_block [OF u(1)])
        fix b w
        assume w: "tx p w (insert ?a {}) {} n" "fbuf w b ?a" "vw w = vw u" "only_log u w" "length (vw u ?a) = BSIZE"
        have Iw: "I m w" using rec Iu w(4) by (auto simp: receives_def)
        have sl: "take ?c (drop (?o mod 1024) (vw u ?a)) = take ?c (drop m bytes)"
        proof -
          have "take ?c (drop (?o mod 1024) (v ?a)) = take ?c (drop ?o (fcontents v x))"
            by (rule block_slice [OF c(3,4)]) (use w(5) u(2) bsize(1) in simp)
          also have "\<dots> = take ?c (drop m bytes)"
            unfolding bytes drop_take take_take drop_drop using c(2) by (metis (no_types, lifting) add.commute le_diff_conv2 min.absorb1 less_imp_le mN add_leD1)
          finally show ?thesis unfolding u(2) .
        qed
        have "wp (either_copyout p (shift dst m) (take ?c (drop m bytes)))
            (\<lambda>r y. r = 0 \<and> I (m + ?c) y \<and> flog y = flog w \<and> itable y = itable w \<and> sb y = sb w) w"
          using rec Iw c(2) len unfolding receives_def by blast
        then have "wp (either_copyout p (shift dst m) (take ?c (drop m bytes))) (\<lambda>r.
            wp (if r = - 1 then andthen (fbrelse p b) (ret (- 1))
              else andthen (fbrelse p b) (readi_loop fuel p ip (shift dst (m + ?c)) (of_nat (off + (m + ?c))) (of_nat N) (of_nat (m + ?c))))
            ?Q) w"
        proof (rule wp_mono, elim conjE)
          fix r :: int and y assume r: "r = 0" and y: "I (m + ?c) y" "flog y = flog w" "itable y = itable w" "sb y = sb w"
          have ty: "tx p y (insert ?a {}) {} n" "fbuf y b ?a" "vw y = vw w" using w tx_flog [OF y(2)] by simp_all
          have "wp (andthen (fbrelse p b) (readi_loop fuel p ip (shift dst (m + ?c)) (of_nat (off + (m + ?c))) (of_nat N) (of_nat (m + ?c))))
            ?Q y"
          proof (rule ft.close_block [OF ty(1,2)])
            fix z assume z: "tx p z {} {} n" "vw z = vw y" "only_log y z"
            have "I (m + ?c) z" using rec y(1) z(3) by (auto simp: receives_def)
            moreover have "vw z = v" using z(2) ty(3) w(3) u(2) by simp
            moreover have "itable z = itable s" "sb z = sb s"
              using only_log_simps(1,2) [OF z(3)] only_log_simps(1,2) [OF w(4)] y(3,4) ou(1,2) Suc.prems(3,4) by simp_all
            ultimately show "wp (readi_loop fuel p ip (shift dst (m + ?c)) (of_nat (off + (m + ?c))) (of_nat N) (of_nat (m + ?c)))
              ?Q z"
              using z(1) c(2) less by (intro Suc.IH)
          qed simp
          then show "wp (if r = - 1 then andthen (fbrelse p b) (ret (- 1))
              else andthen (fbrelse p b) (readi_loop fuel p ip (shift dst (m + ?c)) (of_nat (off + (m + ?c))) (of_nat N) (of_nat (m + ?c))))
            ?Q y"
            using r by simp
        qed
        then show "wp (bnd (either_copyout p (shift dst m) (take ?c (drop (?o mod 1024) (vw u ?a)))) (\<lambda>r.
            if r = - 1 then andthen (fbrelse p b) (ret (- 1))
            else andthen (fbrelse p b) (readi_loop fuel p ip (shift dst (m + ?c)) (of_nat (off + (m + ?c))) (of_nat N) (of_nat (m + ?c)))))
          ?Q w"
          unfolding sl wp_bnd .
      qed simp_all
      moreover have "unat (of_nat ?c :: u32) = ?c" using po pw by simp
      then have "advance (shift dst m) (of_nat ?c :: u32) = shift dst (m + ?c)" by (simp add: advance_shift)
      moreover have "(of_nat ?o + of_nat ?c :: u32) = of_nat (off + (m + ?c))" "(of_nat m + of_nat ?c :: u32) = of_nat (m + ?c)"
        by (simp_all only: of_nat_add add.assoc)
      ultimately show "wp (if r = 0 then ret (of_nat m) else
        bnd (gets (\<lambda>s. i_dev (inode_at s ip))) (\<lambda>d. bnd (fbread p d r) (\<lambda>bp. bnd (fbdata bp) (\<lambda>y.
          bnd (either_copyout p (shift dst m) (take ?c (drop (?o mod 1024) y))) (\<lambda>r.
          if r = - 1 then andthen (fbrelse p bp) (ret (- 1))
          else andthen (fbrelse p bp) (readi_loop fuel p ip (advance (shift dst m) (of_nat ?c)) (of_nat ?o + of_nat ?c)
             (of_nat N) (of_nat m + of_nat ?c)))))))
      ?Q u"
        using r nz xt ou(2) by (simp add: wp_bnd wp_gets cong: if_cong del: of_nat_add)
    qed
    then show ?thesis
      using lt by (simp add: wp_bnd Let_def pw [symmetric] po bn cong: if_cong del: of_nat_add)
  qed
qed simp

text \<open>The whole of \<^verbatim>\<open>readi\<close>, for any destination that receives the bytes.\<close>

definition fslice :: "(u32 \<Rightarrow> block) \<Rightarrow> inode \<Rightarrow> u32 \<Rightarrow> u32 \<Rightarrow> u8 list" where
  "fslice v x off n = take (unat n) (drop (unat off) (fcontents v x))"

lemma length_fslice: "length (fslice v x off n) = min (unat n) (unat (i_size x) - unat off)"
  by (simp add: fslice_def min.commute)

lemma sint_of_nat: "n < 2 ^ 31 \<Longrightarrow> sint (of_nat n :: u32) = int n"
  by (simp add: signed_of_nat signed_take_bit_int_eq_self)

lemma readi_spec:
  assumes rec: "receives p dst (fslice (vw s) x off cnt) I" and x: "inode_at s ip = x" "file_ok (vw s) x"
    and t: "tx p s {} {} n" and I0: "I 0 s" and nov: "off \<le> off + cnt"
  shows "wp (readi p ip dst off cnt) (\<lambda>r u. r = int (length (fslice (vw s) x off cnt)) \<and> I (length (fslice (vw s) x off cnt)) u \<and>
    tx p u {} {} n \<and> vw u = vw s \<and> itable u = itable s \<and> sb u = sb s) s"
proof (cases "off > i_size x")
  case True
  then have "unat (i_size x) \<le> unat off" by (simp add: word_less_nat_alt)
  then have "length (fslice (vw s) x off cnt) = 0" by (simp add: length_fslice)
  then show ?thesis using True x t I0 by (simp add: readi_def wp_bnd wp_gets wp_ret)
next
  case False
  let ?N = "length (fslice (vw s) x off cnt)" let ?w = "if off + cnt > i_size x then i_size x - off else cnt"
  have le: "unat off \<le> unat (i_size x)" using False by (simp add: word_less_nat_alt)
  have sum: "unat (off + cnt) = unat off + unat cnt" using nov by (simp add: unat_plus_simple)
  have w: "unat ?w = ?N"
    using le sum by (auto simp: length_fslice word_less_nat_alt unat_sub_if')
  then have wN: "?w = of_nat ?N" by (simp flip: w)
  have bytes: "fslice (vw s) x off cnt = take ?N (drop (unat off) (fcontents (vw s) x))" by (simp add: fslice_def min_def)
  have N: "unat off + ?N \<le> unat (i_size x)" using le by (simp add: length_fslice)
  have small: "?N < 2 ^ 31" using x(2) N by (simp add: file_ok_def MAXFILE_def NDIRECT_def NINDIRECT_def BSIZE_def)
  have "wp (readi_loop (Suc ?N) p ip (shift dst 0) (of_nat (unat off + 0)) (of_nat ?N) (of_nat 0))
    (\<lambda>r u. r = of_nat ?N \<and> I ?N u \<and> tx p u {} {} n \<and> vw u = vw s \<and> itable u = itable s \<and> sb u = sb s) s"
    by (rule readi_loop_spec [OF rec x bytes N t]) (use I0 in simp_all)
  then have "wp (readi_loop (Suc ?N) p ip dst off (of_nat ?N) 0)
    (\<lambda>r u. r = of_nat ?N \<and> I ?N u \<and> tx p u {} {} n \<and> vw u = vw s \<and> itable u = itable s \<and> sb u = sb s) s" by simp
  then have "wp (readi_loop (Suc (unat ?w)) p ip dst off ?w 0) (\<lambda>r. wp (ret (sint r))
      (\<lambda>r u. r = int ?N \<and> I ?N u \<and> tx p u {} {} n \<and> vw u = vw s \<and> itable u = itable s \<and> sb u = sb s)) s"
    unfolding w unfolding wN
    by (rule wp_mono) (use small in \<open>simp_all add: wp_ret sint_of_nat\<close>)
  then show ?thesis
    using False nov x
    by (cases "i_size x < off + cnt") (simp_all add: readi_def wp_bnd wp_gets Let_def linorder_not_less [THEN iffD2] del: readi_loop.simps)
qed

subsection \<open>Destinations\<close>

lemma splice_at_more:
  assumes "k + m + length ys \<le> length xs" and "length zs = m"
  shows "splice_at (splice_at xs k zs) (k + m) ys = splice_at xs k (zs @ ys)"
  using assms by (simp add: splice_at_def ac_simps)

text \<open>A local variable.\<close>

lemma receives_local:
  assumes "k + length bytes \<le> length (stk s)"
  shows "receives p (Local k) bytes (\<lambda>m t. stk t = splice_at (stk s) k (take m bytes) \<and> fmem t = fmem s)"
proof -
  have "take m bytes @ take c (drop m bytes) = take (m + c) bytes" for m c by (simp add: take_add)
  then show ?thesis
    using assms unfolding receives_def
    by (auto simp: wp_bnd wp_gets wp_andthen wp_guard wp_modify wp_ret splice_at_more only_log_simps)
qed

text \<open>User memory.\<close>

definition uwritten :: "kmem \<Rightarrow> kmem \<Rightarrow> u64 \<Rightarrow> u64 \<Rightarrow> u8 list \<Rightarrow> bool" where
  "uwritten s t pt va bs \<longleftrightarrow>
     (\<forall>v. ubyte t pt v = (if unat (v - va) < length bs then Some (bs ! unat (v - va)) else ubyte s pt v))"

definition ureceived :: "fsys \<Rightarrow> u64 \<Rightarrow> u64 \<Rightarrow> u8 list \<Rightarrow> nat \<Rightarrow> fsys \<Rightarrow> bool" where
  "ureceived s pt va bytes m t \<longleftrightarrow> pt_inv (fmem t) 2 pt \<and> user_ok (fmem t) pt \<and> stk t = stk s \<and>
     (\<forall>v. uaddr (fmem t) pt v = uaddr (fmem s) pt v) \<and> (\<forall>v. pteval (mem (fmem t)) 2 pt v = pteval (mem (fmem s)) 2 pt v) \<and>
     uwritten (fmem s) (fmem t) pt va (take m bytes)"

lemma uwritten_more:
  assumes "uwritten s t pt va (take m bytes)" and "m + c \<le> length bytes" and "length bytes < 2 ^ 64"
    and "uwritten t u pt (va + of_nat m) (take c (drop m bytes))"
  shows "uwritten s u pt va (take (m + c) bytes)"
  unfolding uwritten_def
proof
  fix v
  have d: "v - (va + of_nat m) = (v - va) - of_nat m" by simp
  have m: "unat (of_nat m :: u64) = m" using assms(2,3) by (simp add: unat_of_nat_small)
  have u: "unat (v - (va + of_nat m)) = (if m \<le> unat (v - va) then unat (v - va) - m else unat (v - va) + 2 ^ 64 - m)"
    unfolding d using unat_sub_if' [of "v - va" "of_nat m"] m by simp
  show "ubyte u pt v = (if unat (v - va) < length (take (m + c) bytes) then Some (take (m + c) bytes ! unat (v - va)) else ubyte s pt v)"
    using assms u by (auto simp: uwritten_def)
qed

lemma receives_user:
  assumes "writable (fmem s) (cpagetable p) va (length bytes)" and "length bytes < 2 ^ 32"
  shows "receives p (User va) bytes (ureceived s (cpagetable p) va bytes)"
  unfolding receives_def
proof (intro conjI allI impI)
  let ?pt = "cpagetable p"
  fix m c t assume I: "ureceived s ?pt va bytes m t" and mc: "m + c \<le> length bytes"
  have c: "unat (of_nat c :: u64) = c" using mc assms(2) by (simp add: unat_of_nat_small)
  have "writable (fmem s) ?pt (va + of_nat m) c"
    unfolding writable_def
  proof (intro allI impI)
    fix i assume "i < c"
    then have "m + i < length bytes" using mc by simp
    then show "uaddr (fmem s) ?pt (va + of_nat m + of_nat i) \<noteq> None \<and> pteval (mem (fmem s)) 2 ?pt (va + of_nat m + of_nat i) AND PTE_W \<noteq> 0"
      using assms(1) unfolding writable_def add.assoc of_nat_add [symmetric] by blast
  qed
  moreover have "writable (fmem t) ?pt w k = writable (fmem s) ?pt w k" for w k
    by (rule writable_cong) (use I in \<open>simp_all add: ureceived_def\<close>)
  ultimately have w: "writable (fmem t) ?pt (va + of_nat m) (unat (of_nat c :: u64))" using c by simp
  have l: "length (take c (drop m bytes)) = unat (of_nat c :: u64)" using mc c by simp
  have "wp (copyout ?pt (va + of_nat m) (take c (drop m bytes)) (of_nat c)) (\<lambda>r u. r = 0 \<and>
      ureceived s ?pt va bytes (m + c) (fmem_update (\<lambda>_. u) t)) (fmem t)"
  proof (rule wp_mono [OF wp_copyout_full [OF _ _ w l]])
    fix r u assume u: "r = 0 \<and> pt_inv u 2 ?pt \<and> user_ok u ?pt \<and> (\<forall>v. uaddr u ?pt v = uaddr (fmem t) ?pt v) \<and>
      (\<forall>v. pteval (mem u) 2 ?pt v = pteval (mem (fmem t)) 2 ?pt v) \<and> (\<forall>v. ubyte u ?pt v =
        (if unat (v - (va + of_nat m)) < unat (of_nat c :: u64) then Some (take c (drop m bytes) ! unat (v - (va + of_nat m))) else ubyte (fmem t) ?pt v))"
    then have "uwritten (fmem t) u ?pt (va + of_nat m) (take c (drop m bytes))" using l by (simp add: uwritten_def)
    then have "uwritten (fmem s) u ?pt va (take (m + c) bytes)"
      using I mc assms(2) by (intro uwritten_more) (auto simp: ureceived_def)
    then show "r = 0 \<and> ureceived s ?pt va bytes (m + c) (fmem_update (\<lambda>_. u) t)"
      using u I by (simp add: ureceived_def)
  qed (use I in \<open>simp_all add: ureceived_def\<close>)
  then have "wp (in_mem (copyout ?pt (va + of_nat m) (take c (drop m bytes)) (of_nat c)))
    (\<lambda>r u. r = 0 \<and> ureceived s ?pt va bytes (m + c) u \<and> flog u = flog t \<and> itable u = itable t \<and> sb u = sb t) t"
    unfolding wp_zoom by (rule wp_mono) simp
  then show "wp (either_copyout p (shift (User va) m) (take c (drop m bytes)))
    (\<lambda>r u. r = 0 \<and> ureceived s ?pt va bytes (m + c) u \<and> flog u = flog t \<and> itable u = itable t \<and> sb u = sb t) t"
    using mc by (simp add: min_absorb2)
next
  fix m t u assume "ureceived s (cpagetable p) va bytes m t" "only_log t u"
  then show "ureceived s (cpagetable p) va bytes m u" by (simp add: ureceived_def only_log_simps)
qed

subsection \<open>Reading a file into user memory\<close>

lemma readi_tx:
  assumes "tx p s {} {} n" and "file_ok (vw s) (inode_at s ip)" and "off \<le> off + cnt"
    and "pt_inv (fmem s) 2 (cpagetable p)" and "user_ok (fmem s) (cpagetable p)"
    and "writable (fmem s) (cpagetable p) va (length (fslice (vw s) (inode_at s ip) off cnt))"
  shows "wp (readi p ip (User va) off cnt) (\<lambda>r t. r = int (length (fslice (vw s) (inode_at s ip) off cnt)) \<and>
    uwritten (fmem s) (fmem t) (cpagetable p) va (fslice (vw s) (inode_at s ip) off cnt) \<and>
    pt_inv (fmem t) 2 (cpagetable p) \<and> user_ok (fmem t) (cpagetable p) \<and>
    tx p t {} {} n \<and> vw t = vw s \<and> itable t = itable s \<and> sb t = sb s) s"
proof -
  let ?b = "fslice (vw s) (inode_at s ip) off cnt"
  have "length ?b < 2 ^ 32" using unat_bound [of cnt] by (auto simp: length_fslice min_def)
  note r = receives_user [OF assms(6) this]
  have "ureceived s (cpagetable p) va ?b 0 s" using assms(4,5) by (simp add: ureceived_def uwritten_def)
  from readi_spec [where I = "ureceived s (cpagetable p) va ?b", OF r refl assms(2,1) this assms(3)]
  show ?thesis by (rule wp_mono) (simp add: ureceived_def)
qed

text \<open>
  C29: \<^verbatim>\<open>readi\<close> with a user destination delivers to user memory exactly the bytes of the file from \<open>off\<close> on, \<open>cnt\<close> of
  them or as many as there are before the end of the file, and returns their number; every other byte the user can
  see, the blocks of the file system and the inodes are as before. At or past the end of the file, it returns 0.
\<close>

theorem readi_reads:
  assumes "tx p s {} {} n" and "file_ok (vw s) (inode_at s ip)" and "off \<le> off + cnt"
    and "pt_inv (fmem s) 2 (cpagetable p)" and "user_ok (fmem s) (cpagetable p)"
    and "writable (fmem s) (cpagetable p) va (length (fslice (vw s) (inode_at s ip) off cnt))"
  shows "wp (readi p ip (User va) off cnt) (\<lambda>r t. r = int (length (fslice (vw s) (inode_at s ip) off cnt)) \<and>
    uwritten (fmem s) (fmem t) (cpagetable p) va (fslice (vw s) (inode_at s ip) off cnt) \<and>
    pt_inv (fmem t) 2 (cpagetable p) \<and> user_ok (fmem t) (cpagetable p) \<and>
    tx p t {} {} n \<and> vw t = vw s \<and> itable t = itable s \<and> sb t = sb s) s"
  by (rule readi_tx [OF assms])

definition sample_inode :: inode where
  "sample_inode = \<lparr>i_dev = ROOTDEV, i_num = 1, i_ref = 1, i_lock = \<lparr>slocked = 1, spid = 1\<rparr>, i_valid = True, i_type = 2, i_major = 0, i_minor = 0,
     i_nlink = 1, i_size = 10, i_addrs = 50 # replicate 12 0\<rparr>"

theorem readi_reads_witness:
  "\<exists>s. fcontents (vw s) (inode_at s 0) = [0, 1, 2, 3, 4, 5, 6, 7, 8, 9] \<and>
    wp (readi \<lparr>cpid = 1, cpagetable = 0x80030000, ccwd = 0\<rparr> 0 (User 0x4FF0) 2 3) (\<lambda>r t. r = 3 \<and>
      uwritten (fmem s) (fmem t) 0x80030000 0x4FF0 [2, 3, 4]) s"
proof -
  let ?p = "\<lparr>cpid = 1, cpagetable = 0x80030000, ccwd = 0\<rparr> :: cur"
  let ?d = "\<lambda>b. if b = 50 then map of_nat [0..<1024] else replicate 1024 0 :: block"
  have "length (?d b) = BSIZE" for b by (simp add: BSIZE_def)
  from tx_start [of ?d ?p sample_sb "[sample_inode]" one_page "[]", OF this]
  obtain s where s: "tx ?p s {} {} 27" "vw s = ?d" "itable s = [sample_inode]" "fmem s = one_page" by blast
  have f: "fcontents (vw s) (inode_at s 0) = [0, 1, 2, 3, 4, 5, 6, 7, 8, 9]"
    using s by (simp add: fcontents_def fbyte_def baddr_def sample_inode_def BSIZE_def NDIRECT_def upt_rec [of _ "10"])
  then have sl: "fslice (vw s) (inode_at s 0) 2 3 = [2, 3, 4]" by (simp add: fslice_def)
  have z: "bn * BSIZE < 10 \<longleftrightarrow> bn = 0" "10 \<le> MAXFILE * BSIZE" for bn :: nat
    by (auto simp: BSIZE_def MAXFILE_def NDIRECT_def NINDIRECT_def)
  have ok: "file_ok (vw s) (inode_at s 0)"
    using s z by (simp add: file_ok_def sample_inode_def baddr_def NDIRECT_def)
  have "writable one_page 0x80030000 0x4FF0 (length [2, 3, 4 :: u8])"
  proof -
    have "length [2, 3, 4 :: u8] = unat (3 :: u64)" by simp
    then show ?thesis using one_page_writable by (simp only:)
  qed
  then have "wp (readi ?p 0 (User 0x4FF0) 2 3) (\<lambda>r t. r = 3 \<and> uwritten (fmem s) (fmem t) 0x80030000 0x4FF0 [2, 3, 4]) s"
    using readi_reads [OF s(1) ok, of 2 3 "0x4FF0"] one_page_inv one_page_user_ok
    unfolding sl s(4) by (auto elim!: wp_mono)
  with f show ?thesis by blast
qed

end
