(* ===== verification/Fmap.thy ===== *)
theory Fmap
  imports Fread
begin

text \<open>
  The blocks of a file that grows: \<^verbatim>\<open>bmap\<close> of \<^verbatim>\<open>fs.c\<close> finds the block of a position or allocates it, and neither changes what the
  file holds nor touches a block that belongs to anything else.
\<close>

subsection \<open>The blocks of a file\<close>

text \<open>Block \<open>k\<close> of a file; a block that is not there counts as zeroes.\<close>

definition fblk :: "(u32 \<Rightarrow> block) \<Rightarrow> inode \<Rightarrow> nat \<Rightarrow> block" where
  "fblk v x k = (if baddr v x k = 0 then replicate BSIZE 0 else v (baddr v x k))"

definition fblocks :: "(u32 \<Rightarrow> block) \<Rightarrow> inode \<Rightarrow> u32 set" where
  "fblocks v x = {a. a \<noteq> 0 \<and> (a = i_addrs x ! NDIRECT \<or> (\<exists>k<MAXFILE. baddr v x k = a))}"

definition bitmap_blocks :: "fsys \<Rightarrow> u32 set" where
  "bitmap_blocks s = {BBLOCK b (sb s) | b. b < sb_size (sb s)}"

text \<open>The blocks of a file are in use, are no bitmap blocks, and have only one use.\<close>

definition layout :: "fsys \<Rightarrow> inode \<Rightarrow> bool" where
  "layout s x \<longleftrightarrow> i_dev x = ROOTDEV \<and> length (i_addrs x) = Suc NDIRECT \<and> bitmap_ok s \<and> unat (sb_size (sb s)) < 2 ^ 31 \<and>
     (\<forall>b \<in> bitmap_blocks s. b < sb_size (sb s)) \<and>
     (\<forall>a \<in> fblocks (vw s) x. a < sb_size (sb s) \<and> used s a \<and> a \<notin> bitmap_blocks s) \<and>
     (\<forall>k<MAXFILE. baddr (vw s) x k \<noteq> 0 \<longrightarrow> baddr (vw s) x k \<noteq> i_addrs x ! NDIRECT \<and>
        (\<forall>j<MAXFILE. baddr (vw s) x j = baddr (vw s) x k \<longrightarrow> j = k))"

lemma layoutD:
  assumes "layout s x"
  shows "i_dev x = ROOTDEV" "length (i_addrs x) = Suc NDIRECT" "bitmap_ok s" "unat (sb_size (sb s)) < 2 ^ 31"
    "a \<in> fblocks (vw s) x \<Longrightarrow> a < sb_size (sb s) \<and> used s a \<and> a \<notin> bitmap_blocks s"
    "k < MAXFILE \<Longrightarrow> baddr (vw s) x k \<noteq> 0 \<Longrightarrow> baddr (vw s) x k \<noteq> i_addrs x ! NDIRECT"
    "k < MAXFILE \<Longrightarrow> j < MAXFILE \<Longrightarrow> baddr (vw s) x k \<noteq> 0 \<Longrightarrow> baddr (vw s) x j = baddr (vw s) x k \<Longrightarrow> j = k"
    "b < sb_size (sb s) \<Longrightarrow> BBLOCK b (sb s) < sb_size (sb s)"
  using assms by (auto simp: layout_def bitmap_blocks_def)

lemma fblocks_data: "k < MAXFILE \<Longrightarrow> baddr v x k \<noteq> 0 \<Longrightarrow> baddr v x k \<in> fblocks v x"
  by (auto simp: fblocks_def)

lemma fblocks_indirect: "i_addrs x ! NDIRECT \<noteq> 0 \<Longrightarrow> i_addrs x ! NDIRECT \<in> fblocks v x"
  by (simp add: fblocks_def)

text \<open>
  \<open>evolves s x t y\<close>: the file keeps its contents and its blocks, and may get new ones; every other block in use that is
  not part of the bitmap is as before and still not part of the file.
\<close>

definition file_frame :: "fsys \<Rightarrow> inode \<Rightarrow> fsys \<Rightarrow> inode \<Rightarrow> bool" where
  "file_frame s x t y \<longleftrightarrow> (\<forall>b. b < sb_size (sb s) \<longrightarrow> used s b \<longrightarrow> b \<notin> bitmap_blocks s \<longrightarrow> b \<notin> fblocks (vw s) x \<longrightarrow>
     used t b \<and> vw t b = vw s b \<and> b \<notin> fblocks (vw t) y)"

definition evolves :: "fsys \<Rightarrow> inode \<Rightarrow> fsys \<Rightarrow> inode \<Rightarrow> bool" where
  "evolves s x t y \<longleftrightarrow> y = x\<lparr>i_addrs := i_addrs y\<rparr> \<and> layout t y \<and> sb t = sb s \<and> fmem t = fmem s \<and> stk t = stk s \<and>
     (\<forall>k<MAXFILE. fblk (vw t) y k = fblk (vw s) x k) \<and> (\<forall>k<MAXFILE. baddr (vw s) x k \<noteq> 0 \<longrightarrow> baddr (vw t) y k \<noteq> 0) \<and> file_frame s x t y"

lemma bitmap_blocks_cong: "sb t = sb s \<Longrightarrow> bitmap_blocks t = bitmap_blocks s"
  by (simp add: bitmap_blocks_def)

lemma file_frame_trans: "file_frame s x t y \<Longrightarrow> file_frame t y u z \<Longrightarrow> sb t = sb s \<Longrightarrow> file_frame s x u z"
  unfolding file_frame_def using bitmap_blocks_cong [of t s] by simp

lemma evolves_refl: "layout s x \<Longrightarrow> evolves s x s x"
  by (cases x) (simp add: evolves_def file_frame_def)

lemma evolves_trans: "evolves s x t y \<Longrightarrow> evolves t y u z \<Longrightarrow> evolves s x u z"
  by (cases x, cases y, cases z) (auto simp: evolves_def intro: file_frame_trans)

text \<open>\<open>evolves\<close> looks at the blocks, not at the state of the log and the cache.\<close>

lemma used_cong: "vw t = vw s \<Longrightarrow> sb t = sb s \<Longrightarrow> used t = used s"
  by (simp add: used_def fun_eq_iff)

lemma layout_cong: "layout t y \<Longrightarrow> vw u = vw t \<Longrightarrow> sb u = sb t \<Longrightarrow> layout u y"
  using used_cong [of u t] bitmap_blocks_cong [of u t] by (simp add: layout_def bitmap_ok_def)

lemma evolves_cong: "evolves s x t y \<Longrightarrow> vw u = vw t \<Longrightarrow> sb u = sb t \<Longrightarrow> fmem u = fmem t \<Longrightarrow> stk u = stk t \<Longrightarrow> evolves s x u y"
  using used_cong [of u t] layout_cong [of t y u] by (simp add: evolves_def file_frame_def)

subsection \<open>A new block\<close>

text \<open>A block taken from the bitmap becomes block \<open>k\<close> of a file, or its indirect block.\<close>

lemma evolves_new:
  assumes L: "layout s x" and t: "sb t = sb s" "fmem t = fmem s" "stk t = stk s"
    and r: "r < sb_size (sb s)" "\<not> used s r" "vw t r = replicate BSIZE 0"
    and v: "\<And>a. a \<noteq> r \<Longrightarrow> a \<notin> bitmap_blocks s \<Longrightarrow> a = 0 \<or> a \<noteq> i_addrs x ! NDIRECT \<Longrightarrow> vw t a = vw s a"
    and u: "\<And>a. a < sb_size (sb s) \<Longrightarrow> used t a \<longleftrightarrow> a = r \<or> used s a"
    and y: "y = x\<lparr>i_addrs := i_addrs y\<rparr>" "length (i_addrs y) = Suc NDIRECT"
    and b: "\<And>j. j < MAXFILE \<Longrightarrow> baddr (vw t) y j = (if k = Some j then r else baddr (vw s) x j)"
      "i_addrs y ! NDIRECT = (if k = None then r else i_addrs x ! NDIRECT)"
    and old: "case k of Some j \<Rightarrow> j < MAXFILE \<and> baddr (vw s) x j = 0 | None \<Rightarrow> i_addrs x ! NDIRECT = 0"
  shows "evolves s x t y"
proof -
  note D = layoutD [OF L]
  have z: "r \<noteq> 0" using r(2) D(3) by (auto simp: bitmap_ok_def)
  have nf: "r \<notin> fblocks (vw s) x" using D(5) r(2) by blast
  have nb: "r \<notin> bitmap_blocks s" using r(2) D(3) by (auto simp: bitmap_blocks_def bitmap_ok_def)
  have fb: "fblocks (vw t) y \<subseteq> insert r (fblocks (vw s) x)"
    using b by (auto simp: fblocks_def split: if_splits)
  have z0: "0 < sb_size (sb s)" using r(1) z by (metis word_not_simps(1) word_gt_0 less_trans)
  have ok: "bitmap_ok t" using u z0 D(3,8) t(1) by (auto simp: bitmap_ok_def)
  have bm: "bitmap_blocks t = bitmap_blocks s" by (rule bitmap_blocks_cong [OF t(1)])
  have fbs: "a < sb_size (sb s) \<and> used t a \<and> a \<notin> bitmap_blocks s" if "a \<in> fblocks (vw t) y" for a
    using that fb D(5) [of a] u [of a] r(1) nb by auto
  have data: "baddr (vw s) x j \<noteq> r" if "j < MAXFILE" for j using nf z fblocks_data [OF that, of "vw s" x] by auto
  have ind: "i_addrs x ! NDIRECT \<noteq> r" using nf z fblocks_indirect [of x "vw s"] by auto
  have single: "baddr (vw t) y j \<noteq> i_addrs y ! NDIRECT \<and> (\<forall>i<MAXFILE. baddr (vw t) y i = baddr (vw t) y j \<longrightarrow> i = j)"
    if j: "j < MAXFILE" "baddr (vw t) y j \<noteq> 0" for j
    using j b data [of j] data ind D(6,7) [of j] by (cases k) (auto split: if_splits)
  have lay: "layout t y"
    unfolding layout_def bm t(1)
    using ok D(1,4,8) y fbs single by (auto simp: bitmap_blocks_def) (metis inode.select_convs(1) inode.surjective inode.update_convs(11))
  have blk: "fblk (vw t) y j = fblk (vw s) x j" if j: "j < MAXFILE" for j
  proof (cases "k = Some j \<or> baddr (vw s) x j = 0")
    case True
    then show ?thesis using b(1) [OF j] r(3) z old by (auto simp: fblk_def split: option.splits)
  next
    case False
    have "vw t (baddr (vw s) x j) = vw s (baddr (vw s) x j)"
      by (rule v) (use data [OF j] D(5) [OF fblocks_data [OF j]] D(6) [OF j] False in auto)
    then show ?thesis using b(1) [OF j] False by (auto simp: fblk_def)
  qed
  have "file_frame s x t y"
    unfolding file_frame_def
  proof (intro allI impI)
    fix a assume a: "a < sb_size (sb s)" "used s a" "a \<notin> bitmap_blocks s" "a \<notin> fblocks (vw s) x"
    have ar: "a \<noteq> r" using a(2) r(2) by auto
    have "a = 0 \<or> a \<noteq> i_addrs x ! NDIRECT" using a(4) fblocks_indirect [of x "vw s"] by auto
    then show "used t a \<and> vw t a = vw s a \<and> a \<notin> fblocks (vw t) y" using ar a u [of a] fb v [OF ar a(3)] by auto
  qed
  then show ?thesis
    unfolding evolves_def using y(1) lay t blk b(1) z by auto
qed

text \<open>What an allocation does to the other blocks.\<close>

lemma used_marked:
  assumes "vw t (BBLOCK x (sb s)) = allocated (sb s) r (vw s) (BBLOCK x (sb s))" and "sb t = sb s" and "\<not> used s r" and "bitmap_ok s"
    and "x < sb_size (sb s)" and "\<And>b. length (vw s b) = BSIZE"
  shows "used t x \<longleftrightarrow> x = r \<or> used s x"
proof -
  have nr: "BBLOCK x (sb s) \<noteq> r" using assms(3-5) by (auto simp: bitmap_ok_def)
  have m: "unat (r mod of_nat BPB) < BPB" by (rule bit_index_less)
  show ?thesis
    using nr bit_used_mark [OF assms(6) m] bblock_inj [of x "sb s" r] assms(1,2)
    by (cases "BBLOCK x (sb s) = BBLOCK r (sb s)") (auto simp: used_def allocated_def)
qed

lemma allocated_same: "r < sb_size (sb s) \<Longrightarrow> a \<noteq> r \<Longrightarrow> a \<notin> bitmap_blocks s \<Longrightarrow> allocated (sb s) r v a = v a"
  by (auto simp: allocated_def bitmap_blocks_def)

lemma evolves_direct:
  assumes L: "layout s x" and k: "k < NDIRECT" "i_addrs x ! k = 0" and r: "r < sb_size (sb s)" "\<not> used s r"
    and t: "vw t = allocated (sb s) r (vw s)" "sb t = sb s" "fmem t = fmem s" "stk t = stk s" and len: "\<And>b. length (vw s b) = BSIZE"
  shows "evolves s x t (x\<lparr>i_addrs := (i_addrs x)[k := r]\<rparr>)"
proof (rule evolves_new [OF L t(2-4) r, where k = "Some k"])
  note D = layoutD [OF L]
  show "vw t r = replicate BSIZE 0" by (simp add: t(1) allocated_def)
  show "used t a \<longleftrightarrow> a = r \<or> used s a" if "a < sb_size (sb s)" for a by (rule used_allocated [OF t(1,2) r(2) D(3) that len])
  show "vw t a = vw s a" if "a \<noteq> r" "a \<notin> bitmap_blocks s" for a using that r(1) by (simp add: t(1) allocated_same)
  have ind: "vw t (i_addrs x ! NDIRECT) = vw s (i_addrs x ! NDIRECT)" if "i_addrs x ! NDIRECT \<noteq> 0"
    using D(5) [OF fblocks_indirect [OF that]] r unfolding t(1) by (intro allocated_same) auto
  show "baddr (vw t) (x\<lparr>i_addrs := (i_addrs x)[k := r]\<rparr>) j = (if Some k = Some j then r else baddr (vw s) x j)" if "j < MAXFILE" for j
    using k D(2) ind by (auto simp: baddr_def nth_list_update)
  show "i_addrs (x\<lparr>i_addrs := (i_addrs x)[k := r]\<rparr>) ! NDIRECT = (if Some k = None then r else i_addrs x ! NDIRECT)" using k by simp
qed (use layoutD(2) [OF L] k in \<open>simp_all add: baddr_def MAXFILE_def\<close>)

lemma zero_get32: "4 * j + 4 \<le> BSIZE \<Longrightarrow> get32 (replicate BSIZE 0) (4 * j) = 0"
proof -
  assume "4 * j + 4 \<le> BSIZE"
  then have "take 4 (drop (4 * j) (replicate BSIZE 0)) = replicate 4 (0 :: u8)" by simp
  then show ?thesis by (simp add: get32_def le32_of_def numeral_eq_Suc)
qed

lemma evolves_indirect:
  assumes L: "layout s x" and k: "i_addrs x ! NDIRECT = 0" and r: "r < sb_size (sb s)" "\<not> used s r"
    and t: "vw t = allocated (sb s) r (vw s)" "sb t = sb s" "fmem t = fmem s" "stk t = stk s" and len: "\<And>b. length (vw s b) = BSIZE"
  shows "evolves s x t (x\<lparr>i_addrs := (i_addrs x)[NDIRECT := r]\<rparr>)"
proof (rule evolves_new [OF L t(2-4) r, where k = None])
  note D = layoutD [OF L]
  show z: "vw t r = replicate BSIZE 0" by (simp add: t(1) allocated_def)
  show "used t a \<longleftrightarrow> a = r \<or> used s a" if "a < sb_size (sb s)" for a by (rule used_allocated [OF t(1,2) r(2) D(3) that len])
  show "vw t a = vw s a" if "a \<noteq> r" "a \<notin> bitmap_blocks s" for a using that r(1) by (simp add: t(1) allocated_same)
  show "baddr (vw t) (x\<lparr>i_addrs := (i_addrs x)[NDIRECT := r]\<rparr>) j = (if None = Some j then r else baddr (vw s) x j)" if "j < MAXFILE" for j
    using k D(2) z that zero_get32 [of "j - NDIRECT"] by (auto simp: baddr_def nth_list_update MAXFILE_def NINDIRECT_def BSIZE_def)
  show "i_addrs (x\<lparr>i_addrs := (i_addrs x)[NDIRECT := r]\<rparr>) ! NDIRECT = (if None = None then r else i_addrs x ! NDIRECT)" using D(2) by simp
qed (use layoutD(2) [OF L] k in simp_all)

lemma evolves_entry:
  assumes L: "layout s x" and k: "NDIRECT \<le> k" "k < MAXFILE" "i_addrs x ! NDIRECT = a" "a \<noteq> 0" "baddr (vw s) x k = 0" and r: "r < sb_size (sb s)" "\<not> used s r"
    and t: "vw t = (allocated (sb s) r (vw s))(a := put32 (vw s a) (4 * (k - NDIRECT)) r)" "sb t = sb s" "fmem t = fmem s" "stk t = stk s"
    and len: "\<And>b. length (vw s b) = BSIZE"
  shows "evolves s x t x"
proof (rule evolves_new [OF L t(2-4) r, where k = "Some k"])
  note D = layoutD [OF L]
  have A: "a < sb_size (sb s)" "used s a" "a \<notin> bitmap_blocks s" "a \<noteq> r"
    using D(5) [OF fblocks_indirect [of x "vw s"]] k(3,4) r(2) by auto
  show "vw t r = replicate BSIZE 0" using A by (simp add: t(1) allocated_def)
  show "vw t b = vw s b" if "b \<noteq> r" "b \<notin> bitmap_blocks s" "b = 0 \<or> b \<noteq> i_addrs x ! NDIRECT" for b
    using that r(1) k(3,4) by (auto simp: t(1) allocated_same)
  show "used t b \<longleftrightarrow> b = r \<or> used s b" if b: "b < sb_size (sb s)" for b
  proof (rule used_marked [OF _ t(2) r(2) D(3) b len])
    have "BBLOCK b (sb s) \<in> bitmap_blocks s" using b by (auto simp: bitmap_blocks_def)
    then show "vw t (BBLOCK b (sb s)) = allocated (sb s) r (vw s) (BBLOCK b (sb s))" using A(3) by (auto simp: t(1))
  qed
  show "baddr (vw t) x j = (if Some k = Some j then r else baddr (vw s) x j)" if j: "j < MAXFILE" for j
  proof (cases "j < NDIRECT")
    case True
    then show ?thesis using k(1) by (auto simp: baddr_def)
  next
    case False
    then obtain i m where e: "j = NDIRECT + i" "k = NDIRECT + m" using k(1) by (metis le_Suc_ex not_less)
    have "get32 (put32 (vw s a) (4 * m) r) (4 * i) = (if k = j then r else get32 (vw s a) (4 * i))"
      using j k(2) e len [of a] by (cases i m rule: linorder_cases) (auto simp: MAXFILE_def NINDIRECT_def BSIZE_def)
    then show ?thesis using e k(3,4) by (simp add: baddr_def t(1))
  qed
qed (use layoutD(2) [OF L] k in simp_all)

subsection \<open>The block map\<close>

definition full :: "fsys \<Rightarrow> bool" where
  "full s \<longleftrightarrow> (\<forall>b. b < sb_size (sb s) \<longrightarrow> used s b)"

lemma tx_less: "tx p s H D n \<Longrightarrow> m \<le> n \<Longrightarrow> tx p s H D m"
  unfolding tx_def Let_def by (elim conjE exE, intro conjI exI) (assumption | simp)+

text \<open>What a step on the file with inode \<open>ip\<close> may do.\<close>

definition moves :: "nat \<Rightarrow> fsys \<Rightarrow> fsys \<Rightarrow> bool" where
  "moves ip s t \<longleftrightarrow> evolves s (inode_at s ip) t (inode_at t ip) \<and> itable t = (itable s)[ip := inode_at t ip]"

lemma moves_refl: "layout s (inode_at s ip) \<Longrightarrow> moves ip s s"
  by (simp add: moves_def evolves_refl)

lemma moves_trans: "moves ip s t \<Longrightarrow> moves ip t u \<Longrightarrow> moves ip s u"
  unfolding moves_def by (metis evolves_trans list_update_overwrite)

lemma moves_log: "moves ip s t \<Longrightarrow> only_log t u \<Longrightarrow> vw u = vw t \<Longrightarrow> moves ip s u"
  using only_log_simps [of t u] evolves_cong [of s "inode_at s ip" t "inode_at t ip" u] by (simp add: moves_def)

lemma balloc_moves:
  assumes t: "tx p s H {} (Suc (Suc n))" "held_ok s H" and L: "layout s x"
  shows "wp (balloc p ROOTDEV) (\<lambda>r t. only_log s t \<and> (\<forall>j c. c \<in> H \<longrightarrow> fbuf s j c \<longrightarrow> fbuf t j c) \<and>
    (r = 0 \<and> tx p t H {} (Suc (Suc n)) \<and> vw t = vw s \<and> full t \<or>
     r \<noteq> 0 \<and> r < sb_size (sb s) \<and> \<not> used s r \<and> tx p t H {} n \<and> vw t = allocated (sb s) r (vw s))) s"
proof (rule wp_mono [OF balloc_tx [OF t layoutD(4) [OF L]]])
  fix r t assume b: "balloc_result p H n s 0 r t"
  have "sb t = sb s" using b only_log_simps(1) by (auto simp: balloc_result_def)
  moreover have "\<not> used s r \<Longrightarrow> r \<noteq> 0" using layoutD(3) [OF L] by (auto simp: bitmap_ok_def)
  ultimately show "only_log s t \<and> (\<forall>j c. c \<in> H \<longrightarrow> fbuf s j c \<longrightarrow> fbuf t j c) \<and>
    (r = 0 \<and> tx p t H {} (Suc (Suc n)) \<and> vw t = vw s \<and> full t \<or>
     r \<noteq> 0 \<and> r < sb_size (sb s) \<and> \<not> used s r \<and> tx p t H {} n \<and> vw t = allocated (sb s) r (vw s))"
    using b used_cong [of t s] by (auto simp: balloc_result_def full_def)
qed

text \<open>A block number kept in the inode.\<close>

lemma slot_moves:
  assumes t: "tx p s {} {} (Suc (Suc n))" and ip: "ip < length (itable s)" and x: "inode_at s ip = x" and L: "layout s x"
    and k: "k \<le> NDIRECT" "i_addrs x ! k = 0"
  shows "wp (bnd (balloc p ROOTDEV) (\<lambda>addr. if addr = 0 then ret 0
      else andthen (modify (upd_inode ip (i_addrs_update (\<lambda>a. a[k := addr])))) (ret addr)))
    (\<lambda>r t. r = i_addrs (inode_at t ip) ! k \<and> moves ip s t \<and> (r = 0 \<longrightarrow> full t) \<and> tx p t {} {} n) s"
  unfolding wp_bnd
proof (rule wp_mono [OF balloc_moves [OF t _ L]])
  show "held_ok s {}" by (simp add: held_ok_def)
  fix r t assume "only_log s t \<and> (\<forall>j c. c \<in> {} \<longrightarrow> fbuf s j c \<longrightarrow> fbuf t j c) \<and>
    (r = 0 \<and> tx p t {} {} (Suc (Suc n)) \<and> vw t = vw s \<and> full t \<or>
     r \<noteq> 0 \<and> r < sb_size (sb s) \<and> \<not> used s r \<and> tx p t {} {} n \<and> vw t = allocated (sb s) r (vw s))"
  then have l: "only_log s t" and c: "r = 0 \<and> tx p t {} {} (Suc (Suc n)) \<and> vw t = vw s \<and> full t \<or>
     r \<noteq> 0 \<and> r < sb_size (sb s) \<and> \<not> used s r \<and> tx p t {} {} n \<and> vw t = allocated (sb s) r (vw s)" by auto
  note o = only_log_simps [OF l]
  from c show "wp (if r = 0 then ret 0 else andthen (modify (upd_inode ip (i_addrs_update (\<lambda>a. a[k := r])))) (ret r))
    (\<lambda>r t. r = i_addrs (inode_at t ip) ! k \<and> moves ip s t \<and> (r = 0 \<longrightarrow> full t) \<and> tx p t {} {} n) t"
  proof (elim disjE conjE)
    assume "r = 0" "tx p t {} {} (Suc (Suc n))" "vw t = vw s" "full t"
    moreover have "moves ip s t" using moves_log [OF moves_refl l] L x \<open>vw t = vw s\<close> by simp
    ultimately show ?thesis using k(2) x o(2) tx_less [of p t "{}" "{}" "Suc (Suc n)" n] by (simp add: wp_ret)
  next
    assume r: "r \<noteq> 0" "r < sb_size (sb s)" "\<not> used s r" "tx p t {} {} n" "vw t = allocated (sb s) r (vw s)"
    let ?y = "x\<lparr>i_addrs := (i_addrs x)[k := r]\<rparr>" and ?t = "upd_inode ip (i_addrs_update (\<lambda>a. a[k := r])) t"
    have up: "i_addrs_update (\<lambda>a. a[k := r]) x = ?y" by (cases x) simp
    have "itable ?t = (itable s)[ip := ?y]" using o(2) x by (simp add: upd_inode_def) (simp only: up)
    then have f: "flog ?t = flog t" "itable ?t = (itable s)[ip := ?y]" "sb ?t = sb s" "fmem ?t = fmem s" "stk ?t = stk s"
      using o(1,3,4) by (simp_all add: upd_inode_def)
    note v = tx_flog [OF f(1)]
    have len: "length (vw s b) = BSIZE" for b by (rule ft.vw_length [OF t])
    have "evolves s x ?t ?y"
    proof (cases "k = NDIRECT")
      case True
      then show ?thesis using evolves_indirect [OF L _ r(2,3) _ f(3-5) len] k(2) v(2) r(5) by simp
    next
      case False
      then show ?thesis using evolves_direct [OF L _ k(2) r(2,3) _ f(3-5) len] k(1) v(2) r(5) by simp
    qed
    moreover have "inode_at ?t ip = ?y" using f(2) ip by simp
    ultimately have "moves ip s ?t" using f(2) x by (simp add: moves_def)
    moreover have "r = i_addrs (inode_at ?t ip) ! k" using \<open>inode_at ?t ip = ?y\<close> layoutD(2) [OF L] k(1) by simp
    ultimately show ?thesis using r(1,4) v(1) by (simp add: wp_andthen wp_modify wp_ret)
  qed
qed

text \<open>A block number kept in the indirect block.\<close>

lemma entry_moves:
  assumes t: "tx p s {} {} (n + 3)" and x: "inode_at s ip = x" and L: "layout s x"
    and k: "NDIRECT \<le> k" "k < MAXFILE" "i_addrs x ! NDIRECT = a" "a \<noteq> 0"
  shows "wp (bnd (fbread p ROOTDEV a) (\<lambda>bp. bnd (fbdata bp) (\<lambda>d.
       bnd (if get32 d (4 * (k - NDIRECT)) = 0 then bnd (balloc p ROOTDEV) (\<lambda>addr.
              if addr \<noteq> 0 then andthen (fbset bp (put32 d (4 * (k - NDIRECT)) addr)) (andthen (flog_write bp) (ret addr)) else ret addr)
            else ret (get32 d (4 * (k - NDIRECT)))) (\<lambda>addr.
       andthen (fbrelse p bp) (ret addr)))))
     (\<lambda>r t. r = baddr (vw t) (inode_at t ip) k \<and> moves ip s t \<and> (r = 0 \<longrightarrow> full t) \<and> tx p t {} {} n) s"
proof (rule ft.open_block [OF t])
  let ?k = "4 * (k - NDIRECT)" and ?Q = "\<lambda>r t. r = baddr (vw t) (inode_at t ip) k \<and> moves ip s t \<and> (r = 0 \<longrightarrow> full t) \<and> tx p t {} {} n"
  fix bp u assume u: "tx p u (insert a {}) {} (n + 3)" "fbuf u bp a" "vw u = vw s" "only_log s u" "length (vw s a) = BSIZE"
  have ba: "baddr (vw s) x k = get32 (vw s a) ?k" using k by (simp add: baddr_def)
  have A: "a < sb_size (sb s)" "used s a" "a \<notin> bitmap_blocks s" using layoutD(5) [OF L fblocks_indirect [of x "vw s"]] k(3,4) by auto
  note ou = only_log_simps [OF u(4)]
  have Lu: "layout u x" using layout_cong [OF L u(3) ou(1)] .
  have mu: "moves ip s u" using moves_log [OF moves_refl u(4,3)] L x by simp
  have xu: "inode_at u ip = x" using ou(2) x by simp
  have fin: "wp (andthen (fbrelse p bp) (ret r)) ?Q w"
    if w: "tx p w (insert a {}) {} m" "n \<le> m" "fbuf w bp a" "r = baddr (vw w) (inode_at w ip) k" "moves ip s w" "r = 0 \<longrightarrow> full w" for w r m
  proof (rule ft.close_block [OF w(1,3)])
    fix z assume z: "tx p z {} {} m" "fbuf z = fbuf w" "vw z = vw w" "only_log w z"
    note oz = only_log_simps [OF z(4)]
    have "full w \<Longrightarrow> full z" using used_cong [OF z(3) oz(1)] oz(1) by (simp add: full_def)
    then show "wp (ret r) ?Q z" using w moves_log [OF w(5) z(4,3)] z(3) oz(2) tx_less [OF z(1) w(2)] by (simp add: wp_ret)
  qed simp
  show "wp (bnd (if get32 (vw s a) ?k = 0 then bnd (balloc p ROOTDEV) (\<lambda>addr.
              if addr \<noteq> 0 then andthen (fbset bp (put32 (vw s a) ?k addr)) (andthen (flog_write bp) (ret addr)) else ret addr)
            else ret (get32 (vw s a) ?k)) (\<lambda>addr. andthen (fbrelse p bp) (ret addr))) ?Q u"
  proof (cases "get32 (vw s a) ?k = 0")
    case False
    then show ?thesis using fin [OF u(1) _ u(2), of "get32 (vw s a) ?k"] ba u(3) xu mu by (simp add: wp_bnd wp_ret)
  next
    case True
    have held: "held_ok u {a}" using A ou(1) used_cong [OF u(3) ou(1)] by (auto simp: held_ok_def bitmap_blocks_def)
    have tu: "tx p u {a} {} (Suc (Suc (Suc n)))" using u(1) by (simp add: numeral_3_eq_3)
    have "wp (balloc p ROOTDEV) (\<lambda>addr. wp (if addr \<noteq> 0 then andthen (fbset bp (put32 (vw s a) ?k addr)) (andthen (flog_write bp) (ret addr)) else ret addr)
        (\<lambda>addr. wp (andthen (fbrelse p bp) (ret addr)) ?Q)) u"
    proof (rule wp_mono [OF balloc_moves [OF tu held Lu]], elim conjE)
      fix r w assume lw: "only_log u w" "\<forall>j c. c \<in> {a} \<longrightarrow> fbuf u j c \<longrightarrow> fbuf w j c"
        and c: "r = 0 \<and> tx p w {a} {} (Suc (Suc (Suc n))) \<and> vw w = vw u \<and> full w \<or>
          r \<noteq> 0 \<and> r < sb_size (sb u) \<and> \<not> used u r \<and> tx p w {a} {} (Suc n) \<and> vw w = allocated (sb u) r (vw u)"
      note ow = only_log_simps [OF lw(1)]
      from c show "wp (if r \<noteq> 0 then andthen (fbset bp (put32 (vw s a) ?k r)) (andthen (flog_write bp) (ret r)) else ret r)
        (\<lambda>addr. wp (andthen (fbrelse p bp) (ret addr)) ?Q) w"
      proof (elim disjE conjE)
        assume w: "r = 0" "tx p w {a} {} (Suc (Suc (Suc n)))" "vw w = vw u" "full w"
        have "wp (andthen (fbrelse p bp) (ret r)) ?Q w"
          by (rule fin [OF w(2)]) (use w lw u(2,3) True ba moves_log [OF mu lw(1) w(3)] ow(2) xu in auto)
        then show ?thesis using w(1) by (simp add: wp_ret)
      next
        assume w: "r \<noteq> 0" "r < sb_size (sb u)" "\<not> used u r" "tx p w {a} {} (Suc n)" "vw w = allocated (sb u) r (vw u)"
        have len: "length (put32 (vw s a) ?k r) = BSIZE" using u(5) k by (simp add: MAXFILE_def NINDIRECT_def BSIZE_def)
        have "wp (andthen (fbset bp (put32 (vw s a) ?k r)) (andthen (flog_write bp) (ret r))) (\<lambda>addr. wp (andthen (fbrelse p bp) (ret addr)) ?Q) w"
        proof (rule ft.save_block [where H = "{}", OF w(4) _ len])
          show "fbuf w bp a" using lw(2) u(2) by simp
          fix z assume z: "tx p z {a} {} n" "fbuf z = fbuf w" "vw z = (vw w)(a := put32 (vw s a) ?k r)" "only_log w z"
          note oz = only_log_simps [OF z(4)]
          have ev: "evolves u x z x"
            by (rule evolves_entry [OF Lu k _ w(2,3)])
              (use z(3) w(5) u(3) ba True oz ow ft.vw_length [OF u(1)] in auto)
          have xz: "inode_at z ip = x" "itable z = itable u" using oz(2) ow(2) xu by simp_all
          then have mz: "moves ip s z" using moves_trans [OF mu, of z] ev xu list_update_id [of "itable u" ip] by (simp add: moves_def)
          have "r = baddr (vw z) (inode_at z ip) k" using xz(1) k z(3) u(5) by (simp add: baddr_def MAXFILE_def NINDIRECT_def BSIZE_def)
          then have "wp (andthen (fbrelse p bp) (ret r)) ?Q z"
            by (intro fin [OF z(1)]) (use z(2) lw(2) u(2) mz w(1) in auto)
          then show "wp (ret r) (\<lambda>addr. wp (andthen (fbrelse p bp) (ret addr)) ?Q) z" by (simp add: wp_ret)
        qed
        then show ?thesis using w(1) by simp
      qed
    qed
    then show ?thesis using True by (simp add: wp_bnd)
  qed
qed simp_all

lemma bmap_moves:
  assumes t: "tx p s {} {} (n + 5)" and ip: "ip < length (itable s)" and L: "layout s (inode_at s ip)" and bn: "unat bn < MAXFILE"
  shows "wp (bmap p ip bn) (\<lambda>r t. r = baddr (vw t) (inode_at t ip) (unat bn) \<and> moves ip s t \<and> (r = 0 \<longrightarrow> full t) \<and> tx p t {} {} n) s"
proof -
  let ?x = "inode_at s ip" and ?Q = "\<lambda>r t. r = baddr (vw t) (inode_at t ip) (unat bn) \<and> moves ip s t \<and> (r = 0 \<longrightarrow> full t) \<and> tx p t {} {} n"
  note dev = layoutD(1) [OF L]
  have here: "moves ip s s" "tx p s {} {} m" if "m \<le> n + 5" for m using moves_refl [OF L] tx_less [OF t that] by auto
  show ?thesis
  proof (cases "unat bn < NDIRECT")
    case d: True
    show ?thesis
    proof (cases "i_addrs ?x ! unat bn = 0")
      case True
      have t2: "tx p s {} {} (Suc (Suc n))" using here(2) [of "Suc (Suc n)"] by simp
      have "wp (bnd (balloc p ROOTDEV) (\<lambda>addr. if addr = 0 then ret 0
          else andthen (modify (upd_inode ip (i_addrs_update (\<lambda>a. a[unat bn := addr])))) (ret addr))) ?Q s"
        by (rule wp_mono [OF slot_moves [OF t2 ip refl L _ True]]) (use d in \<open>auto simp: baddr_def\<close>)
      then show ?thesis using d True dev by (simp add: bmap_def wp_bnd wp_gets cong: if_cong)
    next
      case False
      then show ?thesis using d here [of n] by (simp add: bmap_def wp_bnd wp_gets wp_ret baddr_def)
    qed
  next
    case nd: False
    then have k: "NDIRECT \<le> unat bn" "unat bn - NDIRECT < NINDIRECT" using bn by (simp_all add: MAXFILE_def)
    let ?k = "4 * (unat bn - NDIRECT)"
    let ?rest = "\<lambda>ind. if ind = 0 then ret 0 else
       bnd (fbread p ROOTDEV ind) (\<lambda>bp. bnd (fbdata bp) (\<lambda>d.
       bnd (if get32 d ?k = 0 then bnd (balloc p ROOTDEV) (\<lambda>addr.
              if addr \<noteq> 0 then andthen (fbset bp (put32 d ?k addr)) (andthen (flog_write bp) (ret addr)) else ret addr)
            else ret (get32 d ?k)) (\<lambda>addr. andthen (fbrelse p bp) (ret addr))))"
    have rest: "wp (?rest r) ?Q w" if w: "r = i_addrs (inode_at w ip) ! NDIRECT" "moves ip s w" "r = 0 \<longrightarrow> full w" "tx p w {} {} (n + 3)" for r w
    proof (cases "r = 0")
      case True
      then show ?thesis using w tx_less [OF w(4), of n] k(1) by (simp add: wp_ret baddr_def)
    next
      case False
      have Lw: "layout w (inode_at w ip)" using w(2) by (simp add: moves_def evolves_def)
      have "wp (?rest r) (\<lambda>r t. r = baddr (vw t) (inode_at t ip) (unat bn) \<and> moves ip w t \<and> (r = 0 \<longrightarrow> full t) \<and> tx p t {} {} n) w"
        using entry_moves [OF w(4) refl Lw k(1) bn w(1) [symmetric] False] False by simp
      then show ?thesis by (rule wp_mono) (use moves_trans [OF w(2)] in auto)
    qed
    have "wp (bnd (if i_addrs ?x ! NDIRECT = 0 then bnd (balloc p ROOTDEV) (\<lambda>addr. if addr = 0 then ret 0
            else andthen (modify (upd_inode ip (i_addrs_update (\<lambda>a. a[NDIRECT := addr])))) (ret addr))
          else ret (i_addrs ?x ! NDIRECT)) ?rest) ?Q s"
    proof (cases "i_addrs ?x ! NDIRECT = 0")
      case True
      have t2: "tx p s {} {} (Suc (Suc (n + 3)))" using t by (simp add: eval_nat_numeral)
      have "wp (bnd (balloc p ROOTDEV) (\<lambda>addr. if addr = 0 then ret 0
            else andthen (modify (upd_inode ip (i_addrs_update (\<lambda>a. a[NDIRECT := addr])))) (ret addr))) (\<lambda>ind. wp (?rest ind) ?Q) s"
        by (rule wp_mono [OF slot_moves [OF t2 ip refl L _ True]]) (use rest in auto)
      then show ?thesis using True by (simp add: wp_bnd)
    next
      case False
      then show ?thesis using rest [of "i_addrs ?x ! NDIRECT" s] here [of "n + 3"] by (simp add: wp_bnd wp_ret)
    qed
    then show ?thesis using nd k(2) dev by (simp add: bmap_def wp_bnd wp_gets Let_def cong: if_cong)
  qed
qed

subsection \<open>A concrete file\<close>

definition file_disk :: "u32 \<Rightarrow> block" where
  "file_disk b = (if b = 45 then [0xFF, 0xFF, 0xFF, 0xFF, 0xFF, 0xFF, 0x07] @ replicate 1017 0
     else if b = 50 then map of_nat [0..<1024] else replicate 1024 0)"

lemma sample_baddr: "baddr v sample_inode k = (if k = 0 then 50 else 0)" if "k < MAXFILE"
  using that by (auto simp: baddr_def sample_inode_def NDIRECT_def nth_Cons')

lemma sample_fblocks: "fblocks v sample_inode = {50}"
proof -
  have "i_addrs sample_inode ! NDIRECT = 0" by (simp add: sample_inode_def NDIRECT_def)
  moreover have "(0 :: nat) < MAXFILE" by (simp add: MAXFILE_def NDIRECT_def)
  ultimately show ?thesis by (auto simp: fblocks_def sample_baddr split: if_splits)
qed

lemma file_disk_used:
  assumes s: "vw s = file_disk" "sb s = sample_sb"
  shows "bitmap_blocks s = {45}" "used s 0" "used s 45" "used s 50" "used s 32"
  using s by (simp_all add: used_def sample_bblock file_disk_def bit_used_def bpb)
    (use sample_bblock in \<open>auto simp: bitmap_blocks_def sample_sb_def intro!: exI [of _ 0]\<close>)

lemma file_disk_layout:
  assumes s: "vw s = file_disk" "sb s = sample_sb"
  shows "layout s sample_inode"
proof -
  note u = file_disk_used [OF s]
  have sz: "sb_size sample_sb = 2000" by (simp add: sample_sb_def)
  have ok: "bitmap_ok s" using s sz u sample_bblock by (simp add: bitmap_ok_def)
  have "i_dev sample_inode = ROOTDEV" "length (i_addrs sample_inode) = Suc NDIRECT" "i_addrs sample_inode ! NDIRECT = 0"
    by (simp_all add: sample_inode_def NDIRECT_def)
  then show "layout s sample_inode"
    unfolding layout_def sample_fblocks u(1) using ok s sz u by (auto simp: sample_baddr split: if_splits)
qed

subsection \<open>Files stay well formed\<close>

text \<open>
  C32: \<^verbatim>\<open>bmap\<close> keeps a file well formed: all its blocks, the indirect block included, are blocks of the disk that the bitmap
  marks as used, none is a bitmap block, and no block has two uses. It returns the block of the position, and 0 only when the disk has no free block left. What
  the file holds does not change, and every other block in use keeps its contents and stays out of the file.
\<close>

theorem bmap_keeps_layout:
  assumes "tx p s {} {} (n + 5)" and "ip < length (itable s)" and "layout s (inode_at s ip)" and "unat bn < MAXFILE"
  shows "wp (bmap p ip bn) (\<lambda>r t. layout t (inode_at t ip) \<and> r = baddr (vw t) (inode_at t ip) (unat bn) \<and>
    (if r = 0 then full t else used t r) \<and> (\<forall>k<MAXFILE. fblk (vw t) (inode_at t ip) k = fblk (vw s) (inode_at s ip) k) \<and>
    file_frame s (inode_at s ip) t (inode_at t ip) \<and> tx p t {} {} n) s"
proof (rule wp_mono [OF bmap_moves [OF assms]], elim conjE)
  fix r t assume r: "r = baddr (vw t) (inode_at t ip) (unat bn)" "r = 0 \<longrightarrow> full t" and m: "moves ip s t" and t: "tx p t {} {} n"
  have e: "evolves s (inode_at s ip) t (inode_at t ip)" using m by (simp add: moves_def)
  then have L: "layout t (inode_at t ip)" by (simp add: evolves_def)
  have "r \<noteq> 0 \<Longrightarrow> used t r" using layoutD(5) [OF L] fblocks_data [OF assms(4)] r(1) by blast
  then show "layout t (inode_at t ip) \<and> r = baddr (vw t) (inode_at t ip) (unat bn) \<and>
    (if r = 0 then full t else used t r) \<and> (\<forall>k<MAXFILE. fblk (vw t) (inode_at t ip) k = fblk (vw s) (inode_at s ip) k) \<and>
    file_frame s (inode_at s ip) t (inode_at t ip) \<and> tx p t {} {} n"
    using e L r t unfolding evolves_def by metis
qed

theorem bmap_keeps_layout_witness:
  "\<exists>s. inode_at s 0 = sample_inode \<and> wp (bmap \<lparr>cpid = 1, cpagetable = 0, ccwd = 0\<rparr> 0 20) (\<lambda>r t. layout t (inode_at t 0) \<and>
    r = baddr (vw t) (inode_at t 0) 20 \<and> (if r = 0 then full t else used t r)) s"
proof -
  let ?p = "\<lparr>cpid = 1, cpagetable = 0, ccwd = 0\<rparr> :: cur"
  have "length (file_disk b) = BSIZE" for b by (simp add: BSIZE_def file_disk_def)
  from tx_start [of file_disk ?p sample_sb "[sample_inode]" one_page "[]", OF this]
  obtain s where s: "tx ?p s {} {} 27" "vw s = file_disk" "sb s = sample_sb" "itable s = [sample_inode]" by blast
  have "tx ?p s {} {} (22 + 5)" using s(1) by simp
  note k = bmap_keeps_layout [OF this, of 0 20]
  have "unat (20 :: u32) < MAXFILE" by (simp add: MAXFILE_def NDIRECT_def NINDIRECT_def BSIZE_def)
  then have "wp (bmap ?p 0 20) (\<lambda>r t. layout t (inode_at t 0) \<and> r = baddr (vw t) (inode_at t 0) 20 \<and> (if r = 0 then full t else used t r)) s"
    by (intro wp_mono [OF k]) (use file_disk_layout [OF s(2,3)] s(4) in auto)
  then show ?thesis using s(4) by (intro exI [of _ s]) simp
qed

end
