(* ===== verification/Dinode.thy ===== *)
theory Dinode
  imports Fs
begin

text \<open>
  The inodes packed in a block: writing one and reading it back, and that no other inode of the block changes.
\<close>

subsection \<open>Fields\<close>

lemma length_put16 [simp]: "off + 2 \<le> length bs \<Longrightarrow> length (put16 bs off w) = length bs"
  by (simp add: put16_def)

lemma get16_part: "off + 2 \<le> length bs \<Longrightarrow> get16 bs off = get16 (take 2 (drop off bs)) 0"
  by (simp add: get16_def)

lemma get16_bytes [simp]: "get16 [ucast w, ucast (drop_bit 8 w)] 0 = w"
proof -
  have "ucast (ucast w :: u8) OR push_bit 8 (ucast (ucast (drop_bit 8 w) :: u8)) = w"
    by (rule bit_word_eqI) (auto simp: bit_simps)
  then show ?thesis by (simp add: get16_def)
qed

lemma get16_put16 [simp]: "off + 2 \<le> length bs \<Longrightarrow> get16 (put16 bs off w) off = w"
  by (subst get16_part) (simp_all add: put16_def splice_at_read)

text \<open>A field keeps its value when the bytes around it change.\<close>

definition same_part :: "nat \<Rightarrow> nat \<Rightarrow> u8 list \<Rightarrow> u8 list \<Rightarrow> bool" where
  "same_part off n x y \<longleftrightarrow> length x = length y \<and> take n (drop off x) = take n (drop off y)"

lemma same_part_refl [simp]: "same_part off n x x"
  by (simp add: same_part_def)

lemma same_part_trans: "same_part off n x y \<Longrightarrow> same_part off n y z \<Longrightarrow> same_part off n x z"
  by (simp add: same_part_def)

lemma same_part_sub: "same_part off n x y \<Longrightarrow> off \<le> o' \<Longrightarrow> o' + m \<le> off + n \<Longrightarrow> same_part o' m x y"
proof -
  assume a: "same_part off n x y" "off \<le> o'" "o' + m \<le> off + n"
  have "take m (drop o' z) = take m (drop (o' - off) (take n (drop off z)))" for z :: "u8 list"
    using a(2,3) by (simp add: take_drop)
  then show ?thesis using a(1) by (simp add: same_part_def)
qed

lemma same_part_put16 [simp]:
  "off + 2 \<le> length x \<Longrightarrow> o' + n \<le> off \<or> off + 2 \<le> o' \<Longrightarrow> same_part o' n (put16 x off w) y \<longleftrightarrow> same_part o' n x y"
  by (simp add: same_part_def put16_def splice_at_read_other)

lemma same_part_put32 [simp]:
  "off + 4 \<le> length x \<Longrightarrow> o' + n \<le> off \<or> off + 4 \<le> o' \<Longrightarrow> same_part o' n (put32 x off w) y \<longleftrightarrow> same_part o' n x y"
  by (simp add: same_part_def put32_def splice_at_read_other)

lemma get16_same: "same_part off 2 x y \<Longrightarrow> off + 2 \<le> length y \<Longrightarrow> get16 x off = get16 y off"
  by (subst (1 2) get16_part) (auto simp: same_part_def)

lemma get32_same: "same_part off 4 x y \<Longrightarrow> get32 x off = get32 y off"
  by (simp add: same_part_def get32_def)

subsection \<open>Arrays of addresses\<close>

definition put_addrs :: "u32 list \<Rightarrow> nat \<Rightarrow> nat \<Rightarrow> u8 list \<Rightarrow> u8 list" where
  "put_addrs xs base n d = fold (\<lambda>i d. put32 d (base + 4 * i) (xs ! i)) [0..<n] d"

lemma put_addrs_simps:
  "put_addrs xs base 0 d = d"
  "put_addrs xs base (Suc n) d = put32 (put_addrs xs base n d) (base + 4 * n) (xs ! n)"
  by (simp_all add: put_addrs_def)

lemma put_addrs_outside: "base + 4 * n \<le> length d \<Longrightarrow> o' + m \<le> base \<or> base + 4 * n \<le> o' \<Longrightarrow> same_part o' m (put_addrs xs base n d) d"
proof (induction n)
  case (Suc n)
  then have IH: "same_part o' m (put_addrs xs base n d) d" by auto
  then have "length (put_addrs xs base n d) = length d" by (simp add: same_part_def)
  then show ?case unfolding put_addrs_simps using Suc.prems IH by (subst same_part_put32) auto
qed (simp add: put_addrs_simps)

lemma length_put_addrs: "base + 4 * n \<le> length d \<Longrightarrow> length (put_addrs xs base n d) = length d"
  using put_addrs_outside [of base n d 0 0] by (simp add: same_part_def)

lemma put_addrs_inside: "base + 4 * n \<le> length d \<Longrightarrow> i < n \<Longrightarrow> get32 (put_addrs xs base n d) (base + 4 * i) = xs ! i"
proof (induction n)
  case (Suc n)
  show ?case
  proof (cases "i = n")
    case True
    then show ?thesis using Suc.prems by (simp add: put_addrs_simps length_put_addrs)
  next
    case False
    then have "get32 (put_addrs xs base (Suc n) d) (base + 4 * i) = get32 (put_addrs xs base n d) (base + 4 * i)"
      unfolding put_addrs_simps using Suc.prems by (intro get32_put32_other) (auto simp: length_put_addrs)
    then show ?thesis using Suc False by simp
  qed
qed simp

subsection \<open>Inodes\<close>

text \<open>Everything before the array of addresses.\<close>

definition put_head :: "dinode \<Rightarrow> nat \<Rightarrow> block \<Rightarrow> block" where
  "put_head di off d = put32 (put16 (put16 (put16 (put16 d off (d_type di)) (off + 2) (d_major di)) (off + 4) (d_minor di))
     (off + 6) (d_nlink di)) (off + 8) (d_size di)"

lemma put_dinode_alt: "put_dinode di k d = put_addrs (d_addrs di) (64 * k + 12) (Suc NDIRECT) (put_head di (64 * k) d)"
  by (simp add: put_dinode_def put_addrs_def put_head_def Let_def)

lemma length_put_head [simp]: "off + 12 \<le> length d \<Longrightarrow> length (put_head di off d) = length d"
  by (simp add: put_head_def)

lemma put_head_outside: "off + 12 \<le> length d \<Longrightarrow> o' + m \<le> off \<or> off + 12 \<le> o' \<Longrightarrow> same_part o' m (put_head di off d) d"
  unfolding put_head_def by auto

lemma get16_put_other:
  "off + 2 \<le> length bs \<Longrightarrow> o' + 2 \<le> length bs \<Longrightarrow> o' + 2 \<le> off \<or> off + 2 \<le> o' \<Longrightarrow> get16 (put16 bs off w) o' = get16 bs o'"
  "off + 4 \<le> length bs \<Longrightarrow> o' + 2 \<le> length bs \<Longrightarrow> o' + 2 \<le> off \<or> off + 4 \<le> o' \<Longrightarrow> get16 (put32 bs off v) o' = get16 bs o'"
  by (intro get16_same; simp)+

lemma put_head_fields:
  assumes "off + 12 \<le> length d"
  shows "get16 (put_head di off d) off = d_type di" "get16 (put_head di off d) (off + 2) = d_major di"
    "get16 (put_head di off d) (off + 4) = d_minor di" "get16 (put_head di off d) (off + 6) = d_nlink di"
    "get32 (put_head di off d) (off + 8) = d_size di"
  using assms by (simp_all add: put_head_def get16_put_other)

lemma put_dinode_outside:
  assumes "64 * k + 64 \<le> length d" and "o' + m \<le> 64 * k \<or> 64 * k + 64 \<le> o'"
  shows "same_part o' m (put_dinode di k d) d"
  unfolding put_dinode_alt
  by (rule same_part_trans [OF put_addrs_outside put_head_outside]) (use assms in \<open>auto simp: NDIRECT_def\<close>)

lemma length_put_dinode [simp]: "64 * k + 64 \<le> length d \<Longrightarrow> length (put_dinode di k d) = length d"
  using put_dinode_outside [of k d 0 0] by (simp add: same_part_def)

lemma get_put_dinode:
  assumes "length d = BSIZE" and "k < IPB" and "j < IPB" and "length (d_addrs di) = Suc NDIRECT"
  shows "get_dinode (put_dinode di k d) j = (if j = k then di else get_dinode d j)"
proof -
  have k: "64 * k + 64 \<le> length d" "64 * j + 64 \<le> length d" using assms by (simp_all add: BSIZE_def IPB_def)
  show ?thesis
  proof (cases "j = k")
    case True
    let ?d = "put_dinode di k d"
    have head: "same_part o' m ?d (put_head di (64 * k) d)" if "64 * k \<le> o'" "o' + m \<le> 64 * k + 12" for o' m
      unfolding put_dinode_alt by (rule put_addrs_outside) (use that k in \<open>auto simp: NDIRECT_def\<close>)
    have f: "get16 ?d o' = get16 (put_head di (64 * k) d) o'" if "64 * k \<le> o'" "o' + 2 \<le> 64 * k + 12" for o'
      using that k by (intro get16_same head) simp_all
    have "get32 ?d (64 * k + 8) = d_size di" using get32_same [OF head [of "64 * k + 8" 4]] put_head_fields(5) [of "64 * k" d di] k by simp
    moreover have "map (\<lambda>i. get32 ?d (64 * k + 12 + 4 * i)) [0..<Suc NDIRECT] = d_addrs di"
      unfolding put_dinode_alt
      by (rule nth_equalityI) (use assms(4) k in \<open>auto simp: put_addrs_inside NDIRECT_def simp del: upt_Suc\<close>)
    ultimately show ?thesis
      using True f put_head_fields [of "64 * k" d di] k by (simp add: get_dinode_def Let_def)
  next
    case False
    have same: "same_part (64 * j) 64 (put_dinode di k d) d"
      by (rule put_dinode_outside) (use k False in auto)
    have "get16 (put_dinode di k d) o' = get16 d o'" if "64 * j \<le> o'" "o' + 2 \<le> 64 * j + 64" for o'
      using that k by (intro get16_same same_part_sub [OF same]) simp_all
    moreover have "get32 (put_dinode di k d) o' = get32 d o'" if "64 * j \<le> o'" "o' + 4 \<le> 64 * j + 64" for o'
      using that by (intro get32_same same_part_sub [OF same]) simp_all
    ultimately show ?thesis using False by (simp add: get_dinode_def Let_def NDIRECT_def)
  qed
qed

end
