(* ===== verification/Fwrite.thy ===== *)
theory Fwrite
  imports Fmap Dinode
begin

text \<open>
  Writing files: \<^verbatim>\<open>writei\<close> of \<^verbatim>\<open>fs.c\<close> overwrites and extends the contents of a file, and leaves every other block in use alone.
\<close>

subsection \<open>Changing a block of a file\<close>

lemma layout_same:
  assumes L: "layout s x" and sb: "sb t = sb s" "0 < sb_size (sb s)" and us: "\<And>b. b < sb_size (sb s) \<Longrightarrow> used t b = used s b"
    and ba: "\<And>j. baddr (vw t) y j = baddr (vw s) x j" and y: "i_addrs y = i_addrs x" "i_dev y = i_dev x"
  shows "layout t y"
proof -
  note D = layoutD [OF L]
  have fb: "fblocks (vw t) y = fblocks (vw s) x" by (simp add: fblocks_def ba y)
  have bm: "bitmap_blocks t = bitmap_blocks s" by (rule bitmap_blocks_cong [OF sb(1)])
  have ok: "bitmap_ok t"
    unfolding bitmap_ok_def sb(1) using D(3) us [OF sb(2)] us [OF D(8)] by (simp add: bitmap_ok_def)
  have fbs: "\<forall>a \<in> fblocks (vw s) x. a < sb_size (sb s) \<and> used t a \<and> a \<notin> bitmap_blocks s" using D(5) us by blast
  show ?thesis
    unfolding layout_def bm sb(1) fb ba y using ok fbs L unfolding layout_def by simp
qed

lemma put_block:
  assumes L: "layout s x" and k: "k < MAXFILE" "baddr (vw s) x k = a" "a \<noteq> 0"
    and t: "vw t = (vw s)(a := d)" "sb t = sb s"
  shows "layout t x" "\<And>j. baddr (vw t) x j = baddr (vw s) x j"
    "\<And>j. j < MAXFILE \<Longrightarrow> fblk (vw t) x j = (if j = k then d else fblk (vw s) x j)" "file_frame s x t x"
proof -
  note D = layoutD [OF L]
  have A: "a \<in> fblocks (vw s) x" "a \<notin> bitmap_blocks s" "a \<noteq> i_addrs x ! NDIRECT"
    using fblocks_data [OF k(1)] D(5) D(6) [OF k(1)] k by auto
  show ba: "baddr (vw t) x j = baddr (vw s) x j" for j using A(3) by (auto simp: baddr_def t(1))
  have fb: "fblocks (vw t) x = fblocks (vw s) x" by (simp add: fblocks_def ba)
  have us: "used t b = used s b" if "b < sb_size (sb s)" for b
  proof -
    have "BBLOCK b (sb s) \<noteq> a" using that A(2) by (auto simp: bitmap_blocks_def)
    then show ?thesis by (simp add: used_def t)
  qed
  have "a < sb_size (sb s)" using D(5) [OF A(1)] by blast
  then have "0 < sb_size (sb s)" unfolding word_less_nat_alt by simp
  then show "layout t x" by (rule layout_same [OF L t(2) _ us ba refl refl])
  show "fblk (vw t) x j = (if j = k then d else fblk (vw s) x j)" if "j < MAXFILE" for j
  proof -
    have "baddr (vw s) x j = a \<longleftrightarrow> j = k" using D(7) [OF k(1) that] k(2,3) by metis
    moreover have "vw t b = (if b = a then d else vw s b)" for b by (simp add: t(1))
    ultimately show ?thesis using k(2,3) unfolding fblk_def ba by simp
  qed
  show "file_frame s x t x" unfolding file_frame_def fb using us A(1) by (auto simp: t(1))
qed

subsection \<open>The loop\<close>

text \<open>The first \<open>m\<close> of \<open>bytes\<close> have been written from position \<open>off\<close> on.\<close>

definition fbyte0 :: "(u32 \<Rightarrow> block) \<Rightarrow> inode \<Rightarrow> nat \<Rightarrow> u8" where
  "fbyte0 v x j = fblk v x (j div BSIZE) ! (j mod BSIZE)"

definition overwritten :: "fsys \<Rightarrow> inode \<Rightarrow> nat \<Rightarrow> u8 list \<Rightarrow> nat \<Rightarrow> fsys \<Rightarrow> inode \<Rightarrow> bool" where
  "overwritten s x off bytes m t y \<longleftrightarrow> y = x\<lparr>i_addrs := i_addrs y\<rparr> \<and> layout t y \<and> sb t = sb s \<and> fmem t = fmem s \<and> stk t = stk s \<and>
     (\<forall>j<MAXFILE * BSIZE. fbyte0 (vw t) y j = (if off \<le> j \<and> j < off + m then bytes ! (j - off) else fbyte0 (vw s) x j)) \<and>
     (\<forall>k<MAXFILE. baddr (vw s) x k \<noteq> 0 \<longrightarrow> baddr (vw t) y k \<noteq> 0) \<and>
     (\<forall>j. off \<le> j \<longrightarrow> j < off + m \<longrightarrow> baddr (vw t) y (j div BSIZE) \<noteq> 0) \<and> file_frame s x t y"

lemma overwritten_start: "layout s x \<Longrightarrow> overwritten s x off bytes 0 s x"
  by (cases x) (auto simp: overwritten_def file_frame_def)

lemma block_of: "j < MAXFILE * BSIZE \<longleftrightarrow> j div BSIZE < MAXFILE"
  by (simp add: div_less_iff_less_mult BSIZE_def)

lemma overwritten_evolves:
  assumes w: "overwritten s x off bytes m t y" and e: "evolves t y u z" and l: "off + m \<le> MAXFILE * BSIZE"
  shows "overwritten s x off bytes m u z"
proof -
  have "file_frame s x u z" using w e file_frame_trans by (auto simp: overwritten_def evolves_def)
  moreover have "j < off + m \<Longrightarrow> j div BSIZE < MAXFILE" for j using l block_of [of j] by simp
  moreover have "z = x\<lparr>i_addrs := i_addrs z\<rparr>" using w e by (cases x, cases y, cases z) (simp add: overwritten_def evolves_def)
  ultimately show ?thesis using w e by (auto simp: overwritten_def evolves_def fbyte0_def block_of)
qed

lemma nth_splice_at: "o' + length bs \<le> length d \<Longrightarrow> i < length d \<Longrightarrow> splice_at d o' bs ! i = (if o' \<le> i \<and> i < o' + length bs then bs ! (i - o') else d ! i)"
  by (auto simp: splice_at_def nth_append)

text \<open>A round inside one block.\<close>

lemma overwritten_block:
  assumes w: "overwritten s x off bytes m t y" and a: "baddr (vw t) y ((off + m) div BSIZE) = a" "a \<noteq> 0"
    and c: "0 < c" "(off + m) mod BSIZE + c \<le> BSIZE" "off + m + c \<le> MAXFILE * BSIZE" "m + c \<le> length bytes"
    and u: "vw u = (vw t)(a := splice_at (vw t a) ((off + m) mod BSIZE) (take c (drop m bytes)))" "sb u = sb t" "fmem u = fmem t" "stk u = stk t"
    and len: "length (vw t a) = BSIZE"
  shows "overwritten s x off bytes (m + c) u y"
proof -
  let ?o = "off + m" let ?k = "?o div BSIZE"
  have k: "?k < MAXFILE" using c(1,3) block_of [of ?o] by simp
  have L: "layout t y" using w by (simp add: overwritten_def)
  note P = put_block [OF L k a u(1,2)]
  have fk: "fblk (vw t) y ?k = vw t a" using a by (simp add: fblk_def)
  have in_block: "j div BSIZE = ?k \<and> j mod BSIZE = ?o mod BSIZE + (j - ?o)" if "?o \<le> j" "j < ?o + c" for j
  proof -
    have "?o mod BSIZE + (j - ?o) < BSIZE" using that c(2) by simp
    from within_block [OF this] show ?thesis using that(1) by simp
  qed
  have bytes: "fbyte0 (vw u) y j = (if ?o \<le> j \<and> j < ?o + c then bytes ! (j - off) else fbyte0 (vw t) y j)" if j: "j < MAXFILE * BSIZE" for j
  proof (cases "j div BSIZE = ?k")
    case True
    have r: "j mod BSIZE < BSIZE" by (simp add: BSIZE_def)
    have e: "?o mod BSIZE \<le> j mod BSIZE \<and> j mod BSIZE < ?o mod BSIZE + c \<longleftrightarrow> ?o \<le> j \<and> j < ?o + c"
    proof -
      have "j = ?k * BSIZE + j mod BSIZE" "?o = ?k * BSIZE + ?o mod BSIZE" using True div_mult_mod_eq [of j BSIZE] div_mult_mod_eq [of ?o BSIZE] by simp_all
      then show ?thesis by linarith
    qed
    have "take c (drop m bytes) ! (j mod BSIZE - ?o mod BSIZE) = bytes ! (j - off)" if "?o \<le> j \<and> j < ?o + c"
    proof -
      have "j mod BSIZE - ?o mod BSIZE = j - ?o" "j - ?o < c" "m + (j - ?o) = j - off" using that in_block [of j] by auto
      then show ?thesis using c(4) by simp
    qed
    then show ?thesis
      using True P(3) [OF k] fk e c(2,4) r len
      by (auto simp: fbyte0_def nth_splice_at)
  next
    case False
    then have "\<not> (?o \<le> j \<and> j < ?o + c)" using in_block [of j] by auto
    then show ?thesis using False P(3) [of "j div BSIZE"] j block_of [of j] by (auto simp: fbyte0_def)
  qed
  have nz: "baddr (vw u) y (j div BSIZE) \<noteq> 0" if "off \<le> j" "j < off + (m + c)" for j
    using that w in_block [of j] a by (cases "j < ?o") (auto simp: P(2) overwritten_def)
  have "file_frame s x u y" using w P(4) file_frame_trans by (auto simp: overwritten_def)
  then show ?thesis using w P(1,2) u(2-4) bytes nz by (auto simp: overwritten_def)
qed

subsection \<open>Sources\<close>

text \<open>The bytes are where \<^verbatim>\<open>either_copyin\<close> looks for them.\<close>

definition provides :: "cur \<Rightarrow> place \<Rightarrow> u8 list \<Rightarrow> fsys \<Rightarrow> bool" where
  "provides p src bytes s \<longleftrightarrow> (\<forall>m c t. fmem t = fmem s \<longrightarrow> stk t = stk s \<longrightarrow> m + c \<le> length bytes \<longrightarrow>
     either_copyin p (shift src m) (of_nat c) t = Ok (0, take c (drop m bytes)) t)"

lemma provides_local:
  assumes "k + length bytes \<le> length (stk s)" and "take (length bytes) (drop k (stk s)) = bytes" and "length bytes < 2 ^ 32"
  shows "provides p (Local k) bytes s"
  unfolding provides_def
proof (intro allI impI)
  fix m c and t :: fsys assume "fmem t = fmem s" and t: "stk t = stk s" and mc: "m + c \<le> length bytes"
  have c: "unat (of_nat c :: u32) = c" using mc assms(3) by (simp add: unat_of_nat_small)
  have "take c (drop m bytes) = take c (drop m (take (length bytes) (drop k (stk s))))" by (simp only: assms(2))
  also have "\<dots> = take c (drop (k + m) (stk s))" using mc by (simp add: drop_take add.commute min_def)
  finally have d: "take c (drop (k + m) (stk s)) = take c (drop m bytes)" by simp
  show "either_copyin p (shift (Local k) m) (of_nat c) t = Ok (0, take c (drop m bytes)) t"
    using assms(1) mc t c d by (simp add: run_simps)
qed

lemma those_length: "those xs = Some ys \<Longrightarrow> length ys = length xs"
  by (induction xs arbitrary: ys) (auto split: option.splits)

lemma ubytes_length: "ubytes s pt va n = Some bs \<Longrightarrow> length bs = n"
  using those_length by (fastforce simp: ubytes_def)

lemma ubytes_part:
  assumes "ubytes s pt va n = Some bs" and "m + c \<le> n"
  shows "ubytes s pt (va + of_nat m) c = Some (take c (drop m bs))"
proof -
  obtain k where n: "n = m + (c + k)" using assms(2) by (metis add.assoc le_Suc_ex)
  obtain as cs where 1: "ubytes s pt va m = Some as" "ubytes s pt (va + of_nat m) (c + k) = Some cs" "bs = as @ cs"
    using assms(1) unfolding n ubytes_add [of s pt va m] by (auto split: option.splits)
  obtain ds es where 2: "ubytes s pt (va + of_nat m) c = Some ds" "cs = ds @ es"
    using 1(2) unfolding ubytes_add [of s pt _ c] by (auto split: option.splits)
  show ?thesis using 1 2 ubytes_length [OF 1(1)] ubytes_length [OF 2(1)] by simp
qed

lemma provides_user:
  assumes "pt_inv (fmem s) 2 (cpagetable p)" and "ubytes (fmem s) (cpagetable p) va (length bytes) = Some bytes" and "length bytes < 2 ^ 32"
  shows "provides p (User va) bytes s"
  unfolding provides_def
proof (intro allI impI)
  fix m c and t :: fsys assume t: "fmem t = fmem s" and "stk t = stk s" and mc: "m + c \<le> length bytes"
  have c: "unat (ucast (of_nat c :: u32) :: u64) = c" using mc assms(3) by (simp add: unat_of_nat_small unsigned_ucast_eq take_bit_nat_eq_self)
  have "copyin (cpagetable p) (va + of_nat m) (ucast (of_nat c :: u32)) (fmem s) = Ok (0, take c (drop m bytes)) (fmem s)"
    using copyin_run [OF assms(1), of "va + of_nat m" "ucast (of_nat c :: u32)"] ubytes_part [OF assms(2) mc] c by simp
  then show "either_copyin p (shift (User va) m) (of_nat c) t = Ok (0, take c (drop m bytes)) t"
    using t by (simp add: zoom_def)
qed

subsection \<open>The loop of \<^verbatim>\<open>writei\<close>\<close>

text \<open>The blocks that \<open>l\<close> bytes from position \<open>k\<close> on touch.\<close>

definition touched :: "nat \<Rightarrow> nat \<Rightarrow> nat" where
  "touched k l = (if l = 0 then 0 else Suc ((k + l - 1) div BSIZE - k div BSIZE))"

lemma touched_step:
  assumes "0 < l" and "c = min l (BSIZE - k mod BSIZE)"
  shows "Suc (touched (k + c) (l - c)) \<le> touched k l"
proof (cases "c = l")
  case True
  then show ?thesis using assms(1) by (simp add: touched_def)
next
  case False
  then have c: "c = BSIZE - k mod BSIZE" "c < l" using assms(2) by (auto simp: min_def split: if_splits)
  have "k mod BSIZE < BSIZE" by (simp add: BSIZE_def)
  then have "k + c = (k div BSIZE + 1) * BSIZE" 
    using c(1) div_mult_mod_eq [of k BSIZE] unfolding add_mult_distrib mult_1 by linarith
  then have q: "(k + c) div BSIZE = k div BSIZE + 1" by (simp add: BSIZE_def)
  have "(k + c) div BSIZE \<le> (k + l - 1) div BSIZE" using c(2) by (intro div_le_mono) simp
  then show ?thesis using c(2) assms(1) q by (simp add: touched_def)
qed

lemma overwritten_log: "overwritten s x off bytes m t y \<Longrightarrow> only_log t u \<Longrightarrow> vw u = vw t \<Longrightarrow> overwritten s x off bytes m u y"
  using only_log_simps [of t u] used_cong [of u t] layout_cong [of t y u] by (simp add: overwritten_def file_frame_def)

definition writing :: "cur \<Rightarrow> nat \<Rightarrow> fsys \<Rightarrow> nat \<Rightarrow> u8 list \<Rightarrow> nat \<Rightarrow> nat \<Rightarrow> fsys \<Rightarrow> bool" where
  "writing p ip s off bytes n m t \<longleftrightarrow> tx p t {} {} n \<and> overwritten s (inode_at s ip) off bytes m t (inode_at t ip) \<and>
     itable t = (itable s)[ip := inode_at t ip]"

lemma writei_loop_spec:
  assumes src: "provides p src bytes s" and ip: "ip < length (itable s)" and N: "off + length bytes \<le> MAXFILE * BSIZE"
    and t: "writing p ip s off bytes (n + 6 * touched (off + m) (length bytes - m)) m t" and m: "m \<le> length bytes" and fuel: "length bytes - m < fuel"
  shows "wp (writei_loop fuel p ip (shift src m) (of_nat (off + m)) (of_nat (length bytes)) (of_nat m))
    (\<lambda>r u. \<exists>k\<le>length bytes. r = (of_nat k, of_nat (off + k)) \<and> (k < length bytes \<longrightarrow> full u) \<and> writing p ip s off bytes n k u) t"
  using t m fuel
proof (induction fuel arbitrary: t m)
  case (Suc fuel)
  let ?N = "length bytes"
  let ?Q = "\<lambda>r u. \<exists>k\<le>?N. r = (of_nat k, of_nat (off + k)) \<and> (k < ?N \<longrightarrow> full u) \<and> writing p ip s off bytes n k u"
  show ?case
  proof (cases "m = ?N")
    case True
    then show ?thesis using Suc.prems by (auto simp: wp_ret touched_def)
  next
    case False
    then have mN: "m < ?N" using Suc.prems(2) by simp
    let ?o = "off + m" let ?c = "min (?N - m) (1024 - ?o mod 1024)" let ?bn = "of_nat ?o div of_nat BSIZE :: u32"
    have o32: "?o < 2 ^ 32" "?N < 2 ^ 32" using mN N by (simp_all add: MAXFILE_def NDIRECT_def NINDIRECT_def BSIZE_def)
    have lt: "(of_nat m :: u32) < of_nat ?N" using mN o32 by (simp add: word_less_nat_alt unat_of_nat_small)
    have po: "unat (portion (of_nat ?N) (of_nat m) (of_nat ?o)) = ?c" by (rule unat_portion [OF mN o32(2,1)])
    have pw: "portion (of_nat ?N) (of_nat m) (of_nat ?o) = of_nat ?c"
      using po mN o32(2) by (simp add: word_unat_eq_iff unat_of_nat_small)
    have bn: "unat ?bn = ?o div 1024" "unat (of_nat ?o mod of_nat BSIZE :: u32) = ?o mod 1024"
      using unat_block [OF o32(1)] by blast+
    have bm: "unat ?bn < MAXFILE" using mN N block_of [of ?o] bn(1) by (simp add: bsize)
    have c: "0 < ?c" "m + ?c \<le> ?N" "?o + ?c \<le> MAXFILE * BSIZE" "?o mod 1024 + ?c \<le> 1024" using mN N by simp_all
    have less: "?N - (m + ?c) < fuel" using c(1,2) Suc.prems(3) by linarith
    let ?n = "n + 6 * touched (off + (m + ?c)) (?N - (m + ?c))"
    have budget: "?n + 6 \<le> n + 6 * touched ?o (?N - m)"
      using touched_step [of "?N - m" ?c ?o] mN by (simp add: bsize add.assoc diff_diff_left)
    have t0: "tx p t {} {} (n + 6 * touched ?o (?N - m))" and wt: "overwritten s (inode_at s ip) off bytes m t (inode_at t ip)"
      and it: "itable t = (itable s)[ip := inode_at t ip]"
      using Suc.prems(1) unfolding writing_def by blast+
    have tt: "tx p t {} {} (Suc ?n + 5)" by (rule tx_less [OF t0]) (use budget in linarith)
    have Lt: "layout t (inode_at t ip)" using wt by (simp add: overwritten_def)
    have ipt: "ip < length (itable t)" using ip it by (metis length_list_update)
    let ?next = "writei_loop fuel p ip (shift src (m + ?c)) (of_nat (off + (m + ?c))) (of_nat ?N) (of_nat (m + ?c))"
    have "wp (bmap p ip ?bn) (\<lambda>addr. wp (if addr = 0 then ret (of_nat m, of_nat ?o) else
        bnd (gets (\<lambda>s. i_dev (inode_at s ip))) (\<lambda>d. bnd (fbread p d addr) (\<lambda>bp. bnd (fbdata bp) (\<lambda>y.
          bnd (either_copyin p (shift src m) (of_nat ?c)) (\<lambda>(r, bs).
          andthen (fbset bp (splice_at y (?o mod 1024) bs))
          (if r = - 1 then andthen (fbrelse p bp) (ret (of_nat m, of_nat ?o))
           else andthen (flog_write bp) (andthen (fbrelse p bp) ?next)))))))
      ?Q) t"
    proof (rule wp_mono [OF bmap_moves [OF tt ipt Lt bm]], elim conjE)
      fix r u assume r: "r = baddr (vw u) (inode_at u ip) (unat ?bn)" "r = 0 \<longrightarrow> full u" and u: "moves ip t u" "tx p u {} {} (Suc ?n)"
      have wu: "overwritten s (inode_at s ip) off bytes m u (inode_at u ip)"
        by (rule overwritten_evolves [OF wt]) (use u(1) N mN in \<open>simp_all add: moves_def\<close>)
      have iu: "itable u = (itable s)[ip := inode_at u ip]" using u(1) it by (metis moves_def list_update_overwrite)
      show "wp (if r = 0 then ret (of_nat m, of_nat ?o) else
        bnd (gets (\<lambda>s. i_dev (inode_at s ip))) (\<lambda>d. bnd (fbread p d r) (\<lambda>bp. bnd (fbdata bp) (\<lambda>y.
          bnd (either_copyin p (shift src m) (of_nat ?c)) (\<lambda>(r, bs).
          andthen (fbset bp (splice_at y (?o mod 1024) bs))
          (if r = - 1 then andthen (fbrelse p bp) (ret (of_nat m, of_nat ?o))
           else andthen (flog_write bp) (andthen (fbrelse p bp) ?next)))))))
      ?Q u"
      proof (cases "r = 0")
        case True
        then show ?thesis using r(2) tx_less [OF u(2), of n] wu iu mN by (auto simp: wp_ret writing_def intro!: exI [of _ m])
      next
        case r0: False
        have Lu: "layout u (inode_at u ip)" using wu by (simp add: overwritten_def)
        have "wp (bnd (fbread p ROOTDEV r) (\<lambda>bp. bnd (fbdata bp) (\<lambda>y.
          bnd (either_copyin p (shift src m) (of_nat ?c)) (\<lambda>(r, bs).
          andthen (fbset bp (splice_at y (?o mod 1024) bs))
          (if r = - 1 then andthen (fbrelse p bp) (ret (of_nat m, of_nat ?o))
           else andthen (flog_write bp) (andthen (fbrelse p bp) ?next)))))) ?Q u"
        proof (rule ft.open_block [OF u(2)])
          fix b w assume w: "tx p w (insert r {}) {} (Suc ?n)" "fbuf w b r" "vw w = vw u" "only_log u w" "length (vw u r) = BSIZE"
          let ?bs = "take ?c (drop m bytes)" let ?d = "splice_at (vw u r) (?o mod 1024) ?bs"
          note ow = only_log_simps [OF w(4)]
          have ww: "overwritten s (inode_at s ip) off bytes m w (inode_at u ip)" by (rule overwritten_log [OF wu w(4,3)])
          have copy: "either_copyin p (shift src m) (of_nat ?c) w = Ok (0, ?bs) w"
            using src ww c(2) by (simp add: provides_def overwritten_def)
          have "length ?bs = ?c" using c(2) by simp
          then have len: "length ?d = BSIZE" using w(5) c(4) by (simp add: splice_at_def bsize)
          have "wp (andthen (fbset b ?d) (andthen (flog_write b) (andthen (fbrelse p b) ?next))) ?Q w"
          proof (rule ft.save_block [OF w(1,2) len])
            fix z assume z: "tx p z (insert r {}) {} ?n" "fbuf z = fbuf w" "vw z = (vw w)(r := ?d)" "only_log w z"
            have "fbuf z b r" using z(2) w(2) by simp
            then show "wp (andthen (fbrelse p b) ?next) ?Q z"
            proof (rule ft.close_block [OF z(1)])
              fix v assume v: "tx p v {} {} ?n" "vw v = vw z" "only_log z v"
              note oz = only_log_simps [OF only_log_trans [OF z(4) v(3)]]
              have "overwritten s (inode_at s ip) off bytes (m + ?c) v (inode_at u ip)"
                by (rule overwritten_block [OF ww _ r0 c(1) _ c(3,2)])
                  (use r(1) bn(1) w(3,5) v(2) z(3) c(4) oz in \<open>simp_all add: bsize\<close>)
              then have "writing p ip s off bytes ?n (m + ?c) v"
                unfolding writing_def using v(1) oz(2) ow(2) iu by metis
              then show "wp ?next ?Q v" using c(2) less by (intro Suc.IH)
            qed simp
          qed
          then show "wp (bnd (either_copyin p (shift src m) (of_nat ?c)) (\<lambda>(e, bs).
              andthen (fbset b (splice_at (vw u r) (?o mod 1024) bs))
              (if e = - 1 then andthen (fbrelse p b) (ret (of_nat m, of_nat ?o))
               else andthen (flog_write b) (andthen (fbrelse p b) ?next)))) ?Q w"
            using copy by (simp add: wp_def bnd_def)
        qed simp_all
        then show ?thesis using r0 layoutD(1) [OF Lu] by (simp add: wp_bnd wp_gets)
      qed
    qed
    moreover have "unat (of_nat ?c :: u32) = ?c" using po pw by simp
    then have "advance (shift src m) (of_nat ?c :: u32) = shift src (m + ?c)" by (simp add: advance_shift)
    moreover have "(of_nat ?o + of_nat ?c :: u32) = of_nat (off + (m + ?c))" "(of_nat m + of_nat ?c :: u32) = of_nat (m + ?c)"
      by (simp_all only: of_nat_add add.assoc)
    ultimately show ?thesis
      using lt by (simp add: wp_bnd Let_def pw bn cong: if_cong del: of_nat_add)
  qed
qed simp

subsection \<open>The inode on the disk\<close>

definition inode_block :: "fsys \<Rightarrow> inode \<Rightarrow> u32" where
  "inode_block s x = IBLOCK (i_num x) (sb s)"

definition inode_slot :: "inode \<Rightarrow> nat" where
  "inode_slot x = unat (i_num x mod of_nat IPB)"

text \<open>The block that holds the inode is in use, and neither a bitmap block nor a block of the file.\<close>

definition own_block :: "fsys \<Rightarrow> inode \<Rightarrow> bool" where
  "own_block s x \<longleftrightarrow> inode_block s x < sb_size (sb s) \<and> used s (inode_block s x) \<and>
     inode_block s x \<notin> bitmap_blocks s \<and> inode_block s x \<notin> fblocks (vw s) x"

definition on_disk :: "fsys \<Rightarrow> inode \<Rightarrow> bool" where
  "on_disk s x \<longleftrightarrow> get_dinode (vw s (inode_block s x)) (inode_slot x) = dinode_of x"

text \<open>The blocks and the inodes that are not of the file keep what they hold.\<close>

definition others_kept :: "fsys \<Rightarrow> inode \<Rightarrow> fsys \<Rightarrow> bool" where
  "others_kept s x t \<longleftrightarrow> (\<forall>b. b < sb_size (sb s) \<longrightarrow> used s b \<longrightarrow> b \<notin> bitmap_blocks s \<longrightarrow> b \<notin> fblocks (vw s) x \<longrightarrow>
       used t b \<and> (b \<noteq> inode_block s x \<longrightarrow> vw t b = vw s b)) \<and>
     (\<forall>j<IPB. j \<noteq> inode_slot x \<longrightarrow> get_dinode (vw t (inode_block s x)) j = get_dinode (vw s (inode_block s x)) j)"

lemma inode_slot_less: "inode_slot x < IPB"
  by (simp add: inode_slot_def IPB_def BSIZE_def unat_mod)

lemma iupdate_tx:
  assumes t: "tx p s {} {} (Suc n)" and x: "inode_at s ip = x" "i_dev x = ROOTDEV"
  shows "wp (iupdate p ip) (\<lambda>_ t. tx p t {} {} n \<and> only_log s t \<and>
    vw t = (vw s)(inode_block s x := put_dinode (dinode_of x) (inode_slot x) (vw s (inode_block s x)))) s"
proof -
  let ?b = "inode_block s x" let ?d = "put_dinode (dinode_of x) (inode_slot x)"
  let ?Q = "\<lambda>_ t. tx p t {} {} n \<and> only_log s t \<and> vw t = (vw s)(?b := ?d (vw s ?b))"
  have "wp (bnd (fbread p ROOTDEV ?b) (\<lambda>bp. bnd (fbdata bp) (\<lambda>d. andthen (fbset bp (?d d)) (andthen (flog_write bp) (andthen (fbrelse p bp) (ret ())))))) ?Q s"
  proof (rule ft.open_block [OF t])
    fix i u assume u: "tx p u (insert ?b {}) {} (Suc n)" "fbuf u i ?b" "vw u = vw s" "only_log s u" "length (vw s ?b) = BSIZE"
    show "wp (andthen (fbset i (?d (vw s ?b))) (andthen (flog_write i) (andthen (fbrelse p i) (ret ())))) ?Q u"
    proof (rule ft.save_block [OF u(1,2)])
      show "length (?d (vw s ?b)) = BSIZE" using u(5) inode_slot_less [of x] by (simp add: IPB_def BSIZE_def)
      fix z assume z: "tx p z (insert ?b {}) {} n" "fbuf z = fbuf u" "vw z = (vw u)(?b := ?d (vw s ?b))" "only_log u z"
      have "fbuf z i ?b" using z(2) u(2) by simp
      then show "wp (andthen (fbrelse p i) (ret ())) ?Q z"
        by (rule ft.close_block [OF z(1)]) (use u z only_log_trans [OF only_log_trans [OF u(4) z(4)]] in \<open>auto simp: wp_ret\<close>)
    qed
  qed simp_all
  then show ?thesis using x by (simp add: iupdate_def wp_bnd wp_gets wp_andthen wp_ret_fun Let_def inode_block_def inode_slot_def)
qed

lemma file_ok_block:
  assumes "file_ok v x" and "j < unat (i_size x)"
  shows "j div BSIZE < MAXFILE" "baddr v x (j div BSIZE) \<noteq> 0"
proof -
  have "j < MAXFILE * BSIZE" using assms by (simp add: file_ok_def)
  then show "j div BSIZE < MAXFILE" using block_of by blast
  have "j div BSIZE * BSIZE \<le> j" by simp
  then have "j div BSIZE * BSIZE < unat (i_size x)" using assms(2) by linarith
  then show "baddr v x (j div BSIZE) \<noteq> 0" using assms(1) by (simp add: file_ok_def)
qed

text \<open>Storing the inode does not touch the file.\<close>

lemma store_inode:
  assumes L: "layout s x" and b: "own_block s x" and t: "vw t = (vw s)(inode_block s x := d)" "sb t = sb s"
  shows "layout t x" "\<And>j. baddr (vw t) x j = baddr (vw s) x j" "\<And>a. a < sb_size (sb s) \<Longrightarrow> used t a = used s a"
    "file_ok (vw s) x \<Longrightarrow> file_ok (vw t) x \<and> fcontents (vw t) x = fcontents (vw s) x" "own_block t x"
proof -
  let ?b = "inode_block s x"
  note B = b [unfolded own_block_def]
  have bt: "inode_block t x = ?b" "bitmap_blocks t = bitmap_blocks s" using t(2) by (simp_all add: inode_block_def bitmap_blocks_def)
  have ind: "i_addrs x ! NDIRECT \<noteq> 0 \<Longrightarrow> vw t (i_addrs x ! NDIRECT) = vw s (i_addrs x ! NDIRECT)"
    using B fblocks_indirect [of x "vw s"] by (auto simp: t(1))
  show ba: "baddr (vw t) x j = baddr (vw s) x j" for j using ind by (simp add: baddr_def)
  show us: "used t a = used s a" if "a < sb_size (sb s)" for a
  proof -
    have "BBLOCK a (sb s) \<noteq> ?b" using that B by (auto simp: bitmap_blocks_def)
    then show ?thesis by (simp add: used_def t)
  qed
  have "0 < sb_size (sb s)" using B unfolding word_less_nat_alt by simp
  then show "layout t x" by (rule layout_same [OF L t(2) _ us ba refl refl])
  show "file_ok (vw t) x \<and> fcontents (vw t) x = fcontents (vw s) x" if f: "file_ok (vw s) x"
  proof
    show "file_ok (vw t) x" using f by (simp add: file_ok_def ba)
    have "fbyte (vw t) x k = fbyte (vw s) x k" if k: "k < unat (i_size x)" for k
    proof -
      have "baddr (vw s) x (k div BSIZE) \<noteq> ?b" using fblocks_data [OF file_ok_block [OF f k]] B by auto
      then show ?thesis unfolding fbyte_def ba by (simp add: t(1))
    qed
    then show "fcontents (vw t) x = fcontents (vw s) x" by (simp add: fcontents_def)
  qed
  have "fblocks (vw t) x = fblocks (vw s) x" by (simp add: fblocks_def ba)
  then show "own_block t x" using B us by (simp add: own_block_def bt t(2))
qed

subsection \<open>The contents\<close>

lemma overwritten_contents:
  assumes w: "overwritten s x off bytes m t y" and f: "file_ok (vw s) x" and off: "off \<le> unat (i_size x)"
    and m: "off + m \<le> MAXFILE * BSIZE" "m \<le> length bytes" and z: "unat z = max (unat (i_size x)) (off + m)"
  shows "file_ok (vw t) (y\<lparr>i_size := z\<rparr>)"
    "fcontents (vw t) (y\<lparr>i_size := z\<rparr>) = take off (fcontents (vw s) x) @ take m bytes @ drop (off + m) (fcontents (vw s) x)"
proof -
  have ba: "baddr v (y\<lparr>i_size := z\<rparr>) = baddr v y" for v by (simp add: baddr_def fun_eq_iff)
  have nz: "baddr (vw t) y k \<noteq> 0" if k: "k * BSIZE < unat z" for k
  proof (cases "k * BSIZE < unat (i_size x)")
    case True
    then show ?thesis using w file_ok_block [OF f True] by (simp add: overwritten_def bsize)
  next
    case False
    then have "off \<le> k * BSIZE" "k * BSIZE < off + m" using k z off by auto
    then have "baddr (vw t) y (k * BSIZE div BSIZE) \<noteq> 0" using w unfolding overwritten_def by blast
    then show ?thesis by (simp add: BSIZE_def)
  qed
  have dev: "i_dev y = ROOTDEV" using w layoutD(1) [of t y] by (simp add: overwritten_def)
  have max: "unat z \<le> MAXFILE * BSIZE" using f m z by (simp add: file_ok_def)
  show "file_ok (vw t) (y\<lparr>i_size := z\<rparr>)" using nz dev max by (simp add: file_ok_def ba)
  have old: "fbyte0 (vw s) x j = fcontents (vw s) x ! j" if j: "j < unat (i_size x)" for j
  proof -
    show ?thesis using j file_ok_block(2) [OF f j] by (simp add: fcontents_def fbyte0_def fbyte_def fblk_def)
  qed
  have new: "fbyte (vw t) (y\<lparr>i_size := z\<rparr>) j = (if off \<le> j \<and> j < off + m then bytes ! (j - off) else fcontents (vw s) x ! j)"
    if j: "j < unat z" for j
  proof -
    have "j div BSIZE * BSIZE \<le> j" by simp
    then have "baddr (vw t) y (j div BSIZE) \<noteq> 0" using j by (intro nz) linarith
    then have "fbyte (vw t) (y\<lparr>i_size := z\<rparr>) j = fbyte0 (vw t) y j" by (simp add: fbyte_def fbyte0_def fblk_def ba)
    moreover have "fbyte0 (vw t) y j = (if off \<le> j \<and> j < off + m then bytes ! (j - off) else fbyte0 (vw s) x j)"
      using w j max by (simp add: overwritten_def)
    moreover have "j < unat (i_size x)" if "\<not> (off \<le> j \<and> j < off + m)" using that j z off by auto
    ultimately show ?thesis using old [of j] by auto
  qed
  show "fcontents (vw t) (y\<lparr>i_size := z\<rparr>) = take off (fcontents (vw s) x) @ take m bytes @ drop (off + m) (fcontents (vw s) x)"
    (is "?l = ?r")
  proof (rule nth_equalityI)
    show len: "length ?l = length ?r" using off m z by auto
    fix j assume "j < length ?l"
    then have j: "j < unat z" by simp
    have "?l ! j = fbyte (vw t) (y\<lparr>i_size := z\<rparr>) j" using j by (simp add: fcontents_def)
    also have "\<dots> = ?r ! j" unfolding new [OF j] using off m j z by (auto simp: nth_append)
    finally show "?l ! j = ?r ! j" .
  qed
qed

subsection \<open>The whole of \<^verbatim>\<open>writei\<close>\<close>

text \<open>What a write of \<open>bytes\<close> at position \<open>off\<close> does when \<open>m\<close> of them fit on the disk.\<close>

definition file_written :: "fsys \<Rightarrow> nat \<Rightarrow> nat \<Rightarrow> u8 list \<Rightarrow> nat \<Rightarrow> fsys \<Rightarrow> bool" where
  "file_written s ip off bytes m t \<longleftrightarrow> m \<le> length bytes \<and> (m < length bytes \<longrightarrow> full t) \<and>
     fcontents (vw t) (inode_at t ip) = take off (fcontents (vw s) (inode_at s ip)) @ take m bytes @ drop (off + m) (fcontents (vw s) (inode_at s ip)) \<and>
     file_ok (vw t) (inode_at t ip) \<and> layout t (inode_at t ip) \<and> own_block t (inode_at t ip) \<and> on_disk t (inode_at t ip) \<and>
     others_kept s (inode_at s ip) t \<and> itable t = (itable s)[ip := inode_at t ip] \<and> fmem t = fmem s \<and> stk t = stk s"

lemma same_inode: "y = x\<lparr>i_addrs := i_addrs y\<rparr> \<Longrightarrow> inode_block s (y\<lparr>i_size := z\<rparr>) = inode_block s x \<and> inode_slot (y\<lparr>i_size := z\<rparr>) = inode_slot x \<and>
    i_size y = i_size x \<and> i_dev y = i_dev x"
  by (cases x, cases y) (simp add: inode_block_def inode_slot_def)

lemma with_size: "baddr v (y\<lparr>i_size := z\<rparr>) = baddr v y" "fblocks v (y\<lparr>i_size := z\<rparr>) = fblocks v y"
  by (simp_all add: baddr_def fblocks_def fun_eq_iff)

lemma own_block_frame:
  assumes "own_block s x" and w: "overwritten s x off bytes m t y"
  shows "own_block t (y\<lparr>i_size := z\<rparr>)"
proof -
  have e: "y = x\<lparr>i_addrs := i_addrs y\<rparr>" "sb t = sb s" "file_frame s x t y" using w unfolding overwritten_def by blast+
  have i: "inode_block t (y\<lparr>i_size := z\<rparr>) = inode_block s x" using same_inode [OF e(1), of t z] e(2) by (simp add: inode_block_def)
  show ?thesis
    using assms(1) e(3) bitmap_blocks_cong [OF e(2)] unfolding own_block_def i e(2) with_size file_frame_def by simp
qed

lemma writei_finish:
  assumes w: "writing p ip s off bytes (Suc n) m t" and f: "file_ok (vw s) (inode_at s ip)" and o: "own_block s (inode_at s ip)"
    and off: "off \<le> unat (i_size (inode_at s ip))" and m: "off + m \<le> MAXFILE * BSIZE" "m \<le> length bytes" "m < length bytes \<longrightarrow> full t"
    and ip: "ip < length (itable s)"
  shows "wp (andthen (modify (upd_inode ip (\<lambda>x. if of_nat (off + m) > i_size x then x\<lparr>i_size := of_nat (off + m)\<rparr> else x))) (iupdate p ip))
    (\<lambda>_ u. tx p u {} {} n \<and> file_written s ip off bytes m u) t"
proof -
  let ?x = "inode_at s ip" and ?y = "inode_at t ip"
  have W: "tx p t {} {} (Suc n)" "overwritten s ?x off bytes m t ?y" "itable t = (itable s)[ip := ?y]" using w unfolding writing_def by blast+
  have ipt: "ip < length (itable t)" using ip W(3) by (metis length_list_update)
  have e: "?y = ?x\<lparr>i_addrs := i_addrs ?y\<rparr>" and L: "layout t ?y" and same: "sb t = sb s" "fmem t = fmem s" "stk t = stk s" "file_frame s ?x t ?y"
    using W(2) unfolding overwritten_def by blast+
  define z where "z = (if of_nat (off + m) > i_size ?y then of_nat (off + m) else i_size ?y)"
  define y where "y = ?y\<lparr>i_size := z\<rparr>"
  define u where "u = upd_inode ip (\<lambda>x. if of_nat (off + m) > i_size x then x\<lparr>i_size := of_nat (off + m)\<rparr> else x) t"
  have "unat (of_nat (off + m) :: u32) = off + m"
    using m(1) by (intro unat_of_nat_small) (simp add: MAXFILE_def NDIRECT_def NINDIRECT_def BSIZE_def)
  then have z: "unat z = max (unat (i_size ?x)) (off + m)" using same_inode [OF e] by (simp add: z_def word_less_nat_alt)
  note C = overwritten_contents [OF W(2) f off m(1,2) z, folded y_def]
  have uy: "(if of_nat (off + m) > i_size ?y then ?y\<lparr>i_size := of_nat (off + m)\<rparr> else ?y) = y" by (simp add: y_def z_def)
  have it: "(itable t)[ip := y] = (itable s)[ip := y]" by (metis W(3) list_update_overwrite)
  have u: "flog u = flog t" "inode_at u ip = y" "itable u = (itable s)[ip := y]" "sb u = sb t" "fmem u = fmem s" "stk u = stk s"
    using it uy ip ipt same by (simp_all add: u_def upd_inode_def)
  note fu = tx_flog [OF u(1)]
  have "0 < sb_size (sb t)" using o unfolding own_block_def same(1) word_less_nat_alt by simp
  then have Lu: "layout u y"
    by (rule layout_same [OF L u(4)]) (use fu(2) used_cong [OF fu(2) u(4)] in \<open>simp_all add: y_def with_size\<close>)
  have ib: "inode_block u y = inode_block s ?x" "inode_slot y = inode_slot ?x"
    using same_inode [OF e, of u z] u(4) same(1) by (simp_all add: y_def inode_block_def)
  have ou: "own_block u y"
    using own_block_frame [OF o W(2), of z] used_cong [OF fu(2) u(4)] bitmap_blocks_cong [OF u(4)]
    unfolding own_block_def y_def [symmetric] fu(2) u(4) by (simp add: inode_block_def u(4))
  have tu: "tx p u {} {} (Suc n)" using W(1) fu(1) by simp
  have dev: "i_dev y = ROOTDEV" using layoutD(1) [OF Lu] .
  have "wp (iupdate p ip) (\<lambda>_ u. tx p u {} {} n \<and> file_written s ip off bytes m u) u"
  proof (rule wp_mono [OF iupdate_tx [OF tu u(2) dev]], elim conjE)
    fix v
    assume v: "tx p v {} {} n" "only_log u v" "vw v = (vw u)(inode_block u y := put_dinode (dinode_of y) (inode_slot y) (vw u (inode_block u y)))"
    note ov = only_log_simps [OF v(2)]
    note S = store_inode [OF Lu ou v(3) ov(1)]
    have y: "inode_at v ip = y" "sb v = sb s" using ov(1,2) u(2,4) same(1) by simp_all
    have len: "length (vw u (inode_block u y)) = BSIZE" using ft.vw_length [OF W(1)] fu(2) by simp
    have di: "get_dinode (vw v (inode_block u y)) j = (if j = inode_slot y then dinode_of y else get_dinode (vw u (inode_block u y)) j)" if "j < IPB" for j
      using get_put_dinode [OF len inode_slot_less that, of "dinode_of y" y] layoutD(2) [OF Lu] by (simp add: v(3) dinode_of_def)
    have ul: "m < length bytes \<longrightarrow> full v"
      using m(3) S(3) used_cong [OF fu(2) u(4)] same(1) u(4) ov(1) by (simp add: full_def)
    have disk: "on_disk v y" using di [OF inode_slot_less] ov(1) by (simp add: on_disk_def inode_block_def)
    have fr: "used u b \<and> vw u b = vw s b" if "b < sb_size (sb s)" "used s b" "b \<notin> bitmap_blocks s" "b \<notin> fblocks (vw s) ?x" for b
      using same(4) that used_cong [OF fu(2) u(4)] fu(2) by (simp add: file_frame_def)
    have "vw u (inode_block s ?x) = vw s (inode_block s ?x)" using fr o by (simp add: own_block_def)
    then have keep: "others_kept s ?x v"
      unfolding others_kept_def using fr S(3) u(4) same(1) di ib v(3) by simp
    show "tx p v {} {} n \<and> file_written s ip off bytes m v"
      unfolding file_written_def y(1)
      using v(1) m(2) ul S(1,5) S(4) C fu(2) disk keep u(3,5,6) ov by simp
  qed
  then show ?thesis by (simp add: wp_andthen wp_modify u_def)
qed

lemma writei_tx:
  assumes "tx p s {} {} (Suc n + 6 * touched (unat off) (unat cnt))" and "ip < length (itable s)"
    and "layout s (inode_at s ip)" and "file_ok (vw s) (inode_at s ip)" and "own_block s (inode_at s ip)"
    and "pt_inv (fmem s) 2 (cpagetable p)" and "ubytes (fmem s) (cpagetable p) va (unat cnt) = Some bytes"
  shows "wp (writei p ip (User va) off cnt) (\<lambda>r t.
    if off > i_size (inode_at s ip) \<or> off + cnt < off \<or> unat (off + cnt) > MAXFILE * BSIZE then r = - 1 \<and> t = s
    else \<exists>m. r = int m \<and> file_written s ip (unat off) bytes m t \<and> tx p t {} {} n) s"
proof (cases "off > i_size (inode_at s ip) \<or> off + cnt < off \<or> unat (off + cnt) > MAXFILE * BSIZE")
  case True
  then show ?thesis by (auto simp: writei_def wp_bnd wp_gets wp_ret)
next
  case False
  let ?o = "unat off"
  have len: "length bytes = unat cnt" by (rule ubytes_length [OF assms(7)])
  have src: "provides p (User va) bytes s"
    using provides_user [OF assms(6)] assms(7) len unat_bound [of cnt] by simp
  have sum: "unat (off + cnt) = ?o + unat cnt" using False by (simp add: unat_plus_simple [symmetric] not_less)
  have lim: "?o + length bytes \<le> MAXFILE * BSIZE" "?o \<le> unat (i_size (inode_at s ip))" using False sum len by (auto simp: word_less_nat_alt)
  have "writing p ip s ?o bytes (Suc n + 6 * touched (?o + 0) (length bytes - 0)) 0 s"
    using assms(1) overwritten_start [OF assms(3)] len by (simp add: writing_def)
  from writei_loop_spec [OF src assms(2) lim(1) this, of "Suc (unat cnt)"]
  have loop: "wp (writei_loop (Suc (unat cnt)) p ip (User va) off cnt 0) (\<lambda>r u. \<exists>k\<le>length bytes. r = (of_nat k, of_nat (?o + k)) \<and>
      (k < length bytes \<longrightarrow> full u) \<and> writing p ip s ?o bytes (Suc n) k u) s" using len by simp
  let ?Q = "\<lambda>r t. \<exists>m. r = int m \<and> file_written s ip ?o bytes m t \<and> tx p t {} {} n"
  have "wp (writei_loop (Suc (unat cnt)) p ip (User va) off cnt 0) (\<lambda>(tot, off).
      wp (andthen (andthen (modify (upd_inode ip (\<lambda>x. if off > i_size x then x\<lparr>i_size := off\<rparr> else x))) (iupdate p ip)) (ret (sint tot))) ?Q) s"
  proof (rule wp_mono [OF loop], elim exE conjE)
    fix r :: "u32 \<times> u32" and u k assume k: "k \<le> length bytes" "r = (of_nat k, of_nat (?o + k))" "k < length bytes \<longrightarrow> full u" "writing p ip s ?o bytes (Suc n) k u"
    have "k < 2 ^ 31" using k(1) lim(1) by (simp add: MAXFILE_def NDIRECT_def NINDIRECT_def BSIZE_def)
    then have sk: "sint (of_nat k :: u32) = int k" by (rule sint_of_nat)
    have "?o + k \<le> MAXFILE * BSIZE" using k(1) lim(1) by simp
    from writei_finish [OF k(4) assms(4,5) lim(2) this k(1,3) assms(2)]
    show "(case r of (tot, off) \<Rightarrow> wp (andthen (andthen (modify (upd_inode ip (\<lambda>x. if off > i_size x then x\<lparr>i_size := off\<rparr> else x))) (iupdate p ip)) (ret (sint tot))) ?Q) u"
      unfolding k(2) wp_andthen prod.case by (elim wp_mono) (auto simp: wp_ret sk)
  qed
  then show ?thesis
    using False by (simp add: writei_def wp_bnd wp_gets wp_andthen case_prod_unfold del: writei_loop.simps)
qed

text \<open>
  C30: \<^verbatim>\<open>writei\<close> with a user source stores the \<open>cnt\<close> bytes found at the user address into the file from position \<open>off\<close> on,
  over old contents and past the end, and returns their number. It allocates the blocks it needs, direct and indirect; only when the
  disk has no free block left does it store and count a shorter prefix. The new size and block numbers are also in the inode on the
  disk; every other block in use and every other inode on the disk are as before. A position past the end of the file, an overflow, or a
  file that would be too large are refused with -1 and change nothing. Each block the bytes touch needs at most six blocks of the log,
  and the inode one.
\<close>

theorem writei_writes:
  assumes "tx p s {} {} (Suc n + 6 * touched (unat off) (unat cnt))" and "ip < length (itable s)"
    and "layout s (inode_at s ip)" and "file_ok (vw s) (inode_at s ip)" and "own_block s (inode_at s ip)"
    and "pt_inv (fmem s) 2 (cpagetable p)" and "ubytes (fmem s) (cpagetable p) va (unat cnt) = Some bytes"
  shows "wp (writei p ip (User va) off cnt) (\<lambda>r t.
    if off > i_size (inode_at s ip) \<or> off + cnt < off \<or> unat (off + cnt) > MAXFILE * BSIZE then r = - 1 \<and> t = s
    else \<exists>m. r = int m \<and> file_written s ip (unat off) bytes m t \<and> tx p t {} {} n) s"
  by (rule writei_tx [OF assms])

text \<open>
  C31: what \<^verbatim>\<open>writei\<close> stored in a file, \<^verbatim>\<open>readi\<close> at the same position reads back: after a write that is within the limits, reading as many bytes as were
  written delivers to user memory exactly the bytes written, all of them unless the disk is full.
\<close>

theorem write_then_read:
  assumes "tx p s {} {} (Suc n + 6 * touched (unat off) (unat cnt))" and "ip < length (itable s)"
    and "layout s (inode_at s ip)" and "file_ok (vw s) (inode_at s ip)" and "own_block s (inode_at s ip)"
    and "pt_inv (fmem s) 2 (cpagetable p)" and "ubytes (fmem s) (cpagetable p) va (unat cnt) = Some bytes"
    and "off \<le> i_size (inode_at s ip)" and "off \<le> off + cnt" and "unat (off + cnt) \<le> MAXFILE * BSIZE"
    and "user_ok (fmem s) (cpagetable p)" and "writable (fmem s) (cpagetable p) dst (unat cnt)"
  shows "wp (bnd (writei p ip (User va) off cnt) (\<lambda>r. readi p ip (User dst) off (word_of_int r))) (\<lambda>r t. \<exists>m\<le>unat cnt.
    r = int m \<and> (m < unat cnt \<longrightarrow> full t) \<and> uwritten (fmem s) (fmem t) (cpagetable p) dst (take m bytes)) s"
  unfolding wp_bnd
proof (rule wp_mono [OF writei_tx [OF assms(1-7)]])
  let ?pt = "cpagetable p" and ?c = "fcontents (vw s) (inode_at s ip)"
  have ok: "\<not> (off > i_size (inode_at s ip) \<or> off + cnt < off \<or> unat (off + cnt) > MAXFILE * BSIZE)" using assms(8-10) by (simp add: not_less)
  fix r u assume a: "if off > i_size (inode_at s ip) \<or> off + cnt < off \<or> unat (off + cnt) > MAXFILE * BSIZE then r = - 1 \<and> u = s
    else \<exists>m. r = int m \<and> file_written s ip (unat off) bytes m u \<and> tx p u {} {} n"
  obtain m where m: "r = int m" "file_written s ip (unat off) bytes m u" "tx p u {} {} n" using a unfolding if_not_P [OF ok] by blast
  note W = m(2) [unfolded file_written_def]
  have len: "length bytes = unat cnt" by (rule ubytes_length [OF assms(7)])
  have mc: "m \<le> unat cnt" using W len by simp
  have um: "unat (of_nat m :: u32) = m" using mc unat_bound [of cnt] by (intro unat_of_nat_small) simp
  have o: "unat off \<le> length ?c" using assms(8) by (simp add: word_le_nat_alt)
  have sl: "fslice (vw u) (inode_at u ip) off (of_nat m) = take m bytes" using W o um len mc by (simp add: fslice_def)
  have nov: "off \<le> off + of_nat m" using assms(9) mc um by (simp add: no_olen_add_nat)
  have wr: "writable (fmem u) ?pt dst (length (fslice (vw u) (inode_at u ip) off (of_nat m)))"
    using assms(12) W mc len unfolding sl writable_def by simp
  have "wp (readi p ip (User dst) off (of_nat m)) (\<lambda>r t. r = int m \<and> uwritten (fmem u) (fmem t) ?pt dst (take m bytes) \<and> vw t = vw u \<and> sb t = sb u) u"
    by (rule wp_mono [OF readi_tx [OF m(3) _ nov _ _ wr]]) (use W assms(6,11) sl len mc in auto)
  then show "wp (readi p ip (User dst) off (word_of_int r)) (\<lambda>r t. \<exists>m\<le>unat cnt.
    r = int m \<and> (m < unat cnt \<longrightarrow> full t) \<and> uwritten (fmem s) (fmem t) ?pt dst (take m bytes)) u"
    unfolding m(1) of_int_of_nat_eq
  proof (rule wp_mono, elim conjE)
    fix q and t :: fsys assume t: "q = int m" "uwritten (fmem u) (fmem t) ?pt dst (take m bytes)" "vw t = vw u" "sb t = sb u"
    have "full u \<Longrightarrow> full t" unfolding full_def t(4) used_cong [OF t(3,4)] .
    moreover have "m < unat cnt \<longrightarrow> full u" "fmem u = fmem s" using W len by simp_all
    ultimately show "\<exists>m\<le>unat cnt. q = int m \<and> (m < unat cnt \<longrightarrow> full t) \<and> uwritten (fmem s) (fmem t) ?pt dst (take m bytes)"
      using t(1,2) mc by auto
  qed
qed

subsection \<open>A concrete file\<close>

lemma file_disk_own:
  assumes s: "vw s = file_disk" "sb s = sample_sb"
  shows "own_block s sample_inode"
proof -
  have "inode_block s sample_inode = 32" using s by (simp add: inode_block_def IBLOCK_def sample_inode_def sample_sb_def IPB_def BSIZE_def)
  then show ?thesis using file_disk_used [OF s] s by (simp add: own_block_def sample_fblocks sample_sb_def)
qed

lemma sample_state:
  "\<exists>s. tx \<lparr>cpid = 1, cpagetable = 0x80030000, ccwd = 0\<rparr> s {} {} 27 \<and> itable s = [sample_inode] \<and>
     fcontents (vw s) sample_inode = [0, 1, 2, 3, 4, 5, 6, 7, 8, 9] \<and> layout s sample_inode \<and> file_ok (vw s) sample_inode \<and> own_block s sample_inode \<and>
     pt_inv (fmem s) 2 0x80030000 \<and> user_ok (fmem s) 0x80030000 \<and> ubytes (fmem s) 0x80030000 0x4FF0 3 = Some [1, 2, 3] \<and> writable (fmem s) 0x80030000 0x4FF0 3"
proof -
  let ?p = "\<lparr>cpid = 1, cpagetable = 0x80030000, ccwd = 0\<rparr> :: cur"
  have "wp (copyout 0x80030000 0x4FF0 [1, 2, 3] 3) (\<lambda>r t. pt_inv t 2 0x80030000 \<and> user_ok t 0x80030000 \<and>
      ubytes t 0x80030000 0x4FF0 3 = Some [1, 2, 3] \<and> writable t 0x80030000 0x4FF0 3) one_page"
  proof (rule wp_mono [OF wp_copyout_full [OF one_page_inv one_page_user_ok one_page_writable, of "[1, 2, 3]"]])
    fix r t assume t: "r = 0 \<and> pt_inv t 2 0x80030000 \<and> user_ok t 0x80030000 \<and> (\<forall>v. uaddr t 0x80030000 v = uaddr one_page 0x80030000 v) \<and>
      (\<forall>v. pteval (mem t) 2 0x80030000 v = pteval (mem one_page) 2 0x80030000 v) \<and>
      (\<forall>v. ubyte t 0x80030000 v = (if unat (v - 0x4FF0) < unat (3 :: u64) then Some ([1, 2, 3] ! unat (v - 0x4FF0)) else ubyte one_page 0x80030000 v))"
    then have "writable t 0x80030000 0x4FF0 (unat (3 :: u64))" using one_page_writable writable_cong [of t "0x80030000" one_page] by blast
    then show "pt_inv t 2 0x80030000 \<and> user_ok t 0x80030000 \<and> ubytes t 0x80030000 0x4FF0 3 = Some [1, 2, 3] \<and> writable t 0x80030000 0x4FF0 3"
      using t ubyte_range [of t "0x80030000" "0x4FF0" "unat (3 :: u64)" "[1, 2, 3]" one_page] by simp
  qed simp
  then obtain k where k: "pt_inv k 2 0x80030000" "user_ok k 0x80030000" "ubytes k 0x80030000 0x4FF0 3 = Some [1, 2, 3]" "writable k 0x80030000 0x4FF0 3"
    by (auto elim!: wpE)
  have "length (file_disk b) = BSIZE" for b by (simp add: BSIZE_def file_disk_def)
  from tx_start [of file_disk ?p sample_sb "[sample_inode]" k "[]", OF this]
  obtain s where s: "tx ?p s {} {} 27" "vw s = file_disk" "sb s = sample_sb" "itable s = [sample_inode]" "fmem s = k" by blast
  have f: "fcontents (vw s) sample_inode = [0, 1, 2, 3, 4, 5, 6, 7, 8, 9]"
    using s by (simp add: fcontents_def fbyte_def baddr_def sample_inode_def file_disk_def BSIZE_def NDIRECT_def upt_rec [of _ "10"])
  have "bn * BSIZE < 10 \<longleftrightarrow> bn = 0" "10 \<le> MAXFILE * BSIZE" for bn :: nat
    by (auto simp: BSIZE_def MAXFILE_def NDIRECT_def NINDIRECT_def)
  then have "file_ok (vw s) sample_inode" by (simp add: file_ok_def sample_inode_def baddr_def NDIRECT_def)
  then show ?thesis using s f k file_disk_layout [OF s(2,3)] file_disk_own [OF s(2,3)] by blast
qed

lemma sample_limits: "touched (unat (8 :: u32)) (unat (3 :: u32)) = 1" "i_size sample_inode = 10" "11 \<le> MAXFILE * BSIZE"
  by (simp_all add: touched_def sample_inode_def BSIZE_def MAXFILE_def NDIRECT_def NINDIRECT_def)

theorem writei_writes_witness:
  "\<exists>s. fcontents (vw s) (inode_at s 0) = [0, 1, 2, 3, 4, 5, 6, 7, 8, 9] \<and>
    wp (writei \<lparr>cpid = 1, cpagetable = 0x80030000, ccwd = 0\<rparr> 0 (User 0x4FF0) 8 3) (\<lambda>r t. \<exists>m. r = int m \<and>
      file_written s 0 8 [1, 2, 3] m t \<and> tx \<lparr>cpid = 1, cpagetable = 0x80030000, ccwd = 0\<rparr> t {} {} 20) s"
proof -
  let ?p = "\<lparr>cpid = 1, cpagetable = 0x80030000, ccwd = 0\<rparr> :: cur"
  obtain s where s: "tx ?p s {} {} 27" "itable s = [sample_inode]" "fcontents (vw s) sample_inode = [0, 1, 2, 3, 4, 5, 6, 7, 8, 9]"
    "layout s sample_inode" "file_ok (vw s) sample_inode" "own_block s sample_inode" "pt_inv (fmem s) 2 0x80030000"
    "ubytes (fmem s) 0x80030000 0x4FF0 3 = Some [1, 2, 3]" using sample_state by blast
  have "tx ?p s {} {} (Suc 20 + 6 * touched (unat (8 :: u32)) (unat (3 :: u32)))" using s(1) sample_limits(1) by simp
  from writei_writes [OF this, of 0 "0x4FF0" "[1, 2, 3]"] s
  have "wp (writei ?p 0 (User 0x4FF0) 8 3) (\<lambda>r t. \<exists>m. r = int m \<and> file_written s 0 8 [1, 2, 3] m t \<and> tx ?p t {} {} 20) s"
    using sample_limits(2,3) by simp
  then show ?thesis using s(2,3) by (intro exI [of _ s]) simp
qed

theorem write_then_read_witness:
  "\<exists>s. wp (bnd (writei \<lparr>cpid = 1, cpagetable = 0x80030000, ccwd = 0\<rparr> 0 (User 0x4FF0) 8 3)
      (\<lambda>r. readi \<lparr>cpid = 1, cpagetable = 0x80030000, ccwd = 0\<rparr> 0 (User 0x4FF0) 8 (word_of_int r)))
    (\<lambda>r t. \<exists>m\<le>3. r = int m \<and> (m < 3 \<longrightarrow> full t) \<and> uwritten (fmem s) (fmem t) 0x80030000 0x4FF0 (take m [1, 2, 3])) s"
proof -
  let ?p = "\<lparr>cpid = 1, cpagetable = 0x80030000, ccwd = 0\<rparr> :: cur"
  obtain s where s: "tx ?p s {} {} 27" "itable s = [sample_inode]" "layout s sample_inode" "file_ok (vw s) sample_inode"
    "own_block s sample_inode" "pt_inv (fmem s) 2 0x80030000" "user_ok (fmem s) 0x80030000" "ubytes (fmem s) 0x80030000 0x4FF0 3 = Some [1, 2, 3]"
    "writable (fmem s) 0x80030000 0x4FF0 3" using sample_state by blast
  have "tx ?p s {} {} (Suc 20 + 6 * touched (unat (8 :: u32)) (unat (3 :: u32)))" using s(1) sample_limits(1) by simp
  from write_then_read [OF this, of 0 "0x4FF0" "[1, 2, 3]" "0x4FF0"] s sample_limits(2,3)
  show ?thesis by (intro exI [of _ s]) simp
qed

end
