(* ===== verification/Spinlock.thy ===== *)
theory Spinlock
  imports Prelude
begin

text \<open>
  \<^verbatim>\<open>kernel/spinlock.c\<close>: spin locks and the nesting of disabled interrupts. The state holds, per CPU, the
  interrupt-enable bit and the two counters of \<^verbatim>\<open>struct cpu\<close>, and, per lock, the two fields of
  \<^verbatim>\<open>struct spinlock\<close>. The functions take the number of the CPU they run on, which the C code reads with
  \<^verbatim>\<open>mycpu()\<close>. Since several CPUs spin on the same lock, the file also gives a step relation in which
  the atomic actions of \<^verbatim>\<open>acquire\<close> and \<^verbatim>\<open>release\<close> on different CPUs interleave, and proves mutual
  exclusion for it.
\<close>

subsection \<open>State\<close>

record cpu =
  noff :: int
  warikomi :: bool
  intr :: bool

record spinlock =
  locked :: u32
  lk_cpu :: "nat option"

record machine =
  cpus :: "nat \<Rightarrow> cpu"
  locks :: "nat \<Rightarrow> spinlock"

definition upd_cpu :: "nat \<Rightarrow> (cpu \<Rightarrow> cpu) \<Rightarrow> machine \<Rightarrow> machine" where
  "upd_cpu c f s = s\<lparr>cpus := (cpus s)(c := f (cpus s c))\<rparr>"

definition upd_lock :: "nat \<Rightarrow> (spinlock \<Rightarrow> spinlock) \<Rightarrow> machine \<Rightarrow> machine" where
  "upd_lock l f s = s\<lparr>locks := (locks s)(l := f (locks s l))\<rparr>"

subsection \<open>Operations\<close>

definition initlock :: "nat \<Rightarrow> (machine, unit) prog" where
  "initlock l = modify (upd_lock l (\<lambda>_. \<lparr>locked = 0, lk_cpu = None\<rparr>))"

definition holding :: "nat \<Rightarrow> nat \<Rightarrow> machine \<Rightarrow> bool" where
  "holding c l s \<longleftrightarrow> locked (locks s l) \<noteq> 0 \<and> lk_cpu (locks s l) = Some c"

definition push_off :: "nat \<Rightarrow> (machine, unit) prog" where
  "push_off c =
     bnd (gets (\<lambda>s. intr (cpus s c))) (\<lambda>old.
     andthen (modify (upd_cpu c (\<lambda>p. p\<lparr>intr := False\<rparr>)))
     (bnd (gets (\<lambda>s. noff (cpus s c))) (\<lambda>n.
     andthen (if n = 0 then modify (upd_cpu c (\<lambda>p. p\<lparr>warikomi := old\<rparr>)) else ret ())
     (modify (upd_cpu c (\<lambda>p. p\<lparr>noff := noff p + 1\<rparr>))))))"

definition pop_off :: "nat \<Rightarrow> (machine, unit) prog" where
  "pop_off c =
     bnd (gets (\<lambda>s. cpus s c)) (\<lambda>p.
     if intr p then panic ''pop_off - interruptible''
     else if noff p < 1 then panic ''pop_off''
     else andthen (modify (upd_cpu c (\<lambda>p. p\<lparr>noff := noff p - 1\<rparr>)))
       (bnd (gets (\<lambda>s. cpus s c)) (\<lambda>p.
        if noff p = 0 \<and> warikomi p then modify (upd_cpu c (\<lambda>p. p\<lparr>intr := True\<rparr>)) else ret ())))"

text \<open>
  The atomic swap of \<^verbatim>\<open>__sync_lock_test_and_set\<close>. A round of the \<^verbatim>\<open>while\<close> loop that finds the lock
  taken changes nothing; only another CPU can end the loop, so \<open>acquire\<close> alone stops with \<open>Sleeps\<close>.
\<close>

definition test_and_set :: "nat \<Rightarrow> (machine, u32) prog" where
  "test_and_set l =
     bnd (gets (\<lambda>s. locked (locks s l))) (\<lambda>old.
     andthen (modify (upd_lock l (\<lambda>k. k\<lparr>locked := 1\<rparr>))) (ret old))"

definition acquire :: "nat \<Rightarrow> nat \<Rightarrow> (machine, unit) prog" where
  "acquire c l =
     andthen (push_off c)
     (bnd (gets (holding c l)) (\<lambda>h.
      if h then panic ''acquire''
      else bnd (test_and_set l) (\<lambda>old.
        if old \<noteq> 0 then fails (Sleeps ''spin'')
        else modify (upd_lock l (\<lambda>k. k\<lparr>lk_cpu := Some c\<rparr>)))))"

definition release :: "nat \<Rightarrow> nat \<Rightarrow> (machine, unit) prog" where
  "release c l =
     bnd (gets (holding c l)) (\<lambda>h.
     if \<not> h then panic ''release''
     else andthen (modify (upd_lock l (\<lambda>k. k\<lparr>lk_cpu := None\<rparr>)))
       (andthen (modify (upd_lock l (\<lambda>k. k\<lparr>locked := 0\<rparr>)))
       (pop_off c)))"

lemmas spin_defs = holding_def push_off_def pop_off_def test_and_set_def acquire_def release_def
  upd_cpu_def upd_lock_def

subsection \<open>Sequential behaviour\<close>

text \<open>\<open>cpu_ok\<close>: interrupts are off whenever the nesting count is positive.\<close>

definition cpu_ok :: "cpu \<Rightarrow> bool" where
  "cpu_ok p \<longleftrightarrow> 0 \<le> noff p \<and> (0 < noff p \<longrightarrow> \<not> intr p)"

lemma push_off_run:
  "push_off c s = Ok () (upd_cpu c (\<lambda>p. p\<lparr>intr := False, noff := noff p + 1,
     warikomi := if noff p = 0 then intr p else warikomi p\<rparr>) s)"
  by (cases "cpus s c") (auto simp: spin_defs run_simps)

lemma pop_off_run:
  assumes "\<not> intr (cpus s c)" and "1 \<le> noff (cpus s c)"
  shows "pop_off c s = Ok () (upd_cpu c (\<lambda>p. p\<lparr>noff := noff p - 1,
     intr := noff p = 1 \<and> warikomi p\<rparr>) s)"
  using assms by (cases "cpus s c") (auto simp: spin_defs run_simps)

text \<open>
  a critical section of a lock that is free leaves the locks as they were and the CPU's nesting
  count and interrupt state as they were; only the saved interrupt state may differ.
\<close>

theorem acquire_release_restores:
  assumes "cpu_ok (cpus s c)" and "locks s l = \<lparr>locked = 0, lk_cpu = None\<rparr>"
  shows "wp (andthen (acquire c l) (release c l)) (\<lambda>_ t. locks t = locks s \<and>
     (\<forall>d. noff (cpus t d) = noff (cpus s d) \<and> intr (cpus t d) = intr (cpus s d))) s"
  using assms
  by (auto simp: wp_def run_simps spin_defs cpu_ok_def fun_eq_iff)

theorem acquire_release_restores_witness:
  "wp (andthen (acquire 0 7) (release 0 7)) (\<lambda>_ t. locks t = (\<lambda>_. \<lparr>locked = 0, lk_cpu = None\<rparr>) \<and>
     (\<forall>d. noff (cpus t d) = 0 \<and> intr (cpus t d) = True))
   \<lparr>cpus = \<lambda>_. \<lparr>noff = 0, warikomi = False, intr = True\<rparr>, locks = \<lambda>_. \<lparr>locked = 0, lk_cpu = None\<rparr>\<rparr>"
  using acquire_release_restores [of "\<lparr>cpus = \<lambda>_. \<lparr>noff = 0, warikomi = False, intr = True\<rparr>,
     locks = \<lambda>_. \<lparr>locked = 0, lk_cpu = None\<rparr>\<rparr>" 0 7] by (simp add: cpu_ok_def)

text \<open>
  taking a spin lock twice on one CPU panics, and so does releasing one that is not held.
\<close>

theorem lock_misuse_panics:
  "(holding c l s \<longrightarrow> (\<exists>t. acquire c l s = Err (Panic ''acquire'') t)) \<and>
   (\<not> holding c l s \<longrightarrow> release c l s = Err (Panic ''release'') s)"
  by (simp add: run_simps spin_defs)

theorem lock_misuse_panics_witness:
  "release 0 7 \<lparr>cpus = \<lambda>_. \<lparr>noff = 0, warikomi = False, intr = True\<rparr>,
     locks = \<lambda>_. \<lparr>locked = 0, lk_cpu = None\<rparr>\<rparr> =
   Err (Panic ''release'') \<lparr>cpus = \<lambda>_. \<lparr>noff = 0, warikomi = False, intr = True\<rparr>,
     locks = \<lambda>_. \<lparr>locked = 0, lk_cpu = None\<rparr>\<rparr>"
  using lock_misuse_panics [of 0 7 "\<lparr>cpus = \<lambda>_. \<lparr>noff = 0, warikomi = False, intr = True\<rparr>,
     locks = \<lambda>_. \<lparr>locked = 0, lk_cpu = None\<rparr>\<rparr>"] by (simp add: holding_def)

subsection \<open>Interleaving\<close>

text \<open>
  Where a CPU is between two atomic actions: outside the lock code, spinning, after the swap that
  took the lock, after \<^verbatim>\<open>lk->cpu = 0\<close>, after the releasing store, or stopped by a panic. \<open>crit c\<close> is the
  set of locks whose critical sections CPU \<open>c\<close> is inside: \<^verbatim>\<open>acquire\<close> has returned, \<^verbatim>\<open>release\<close> has not
  been entered.
\<close>

datatype pc = Outside | Spinning nat | Taken nat | Releasing nat | Popping | Stopped

record spin_state =
  mach :: machine
  pcs :: "nat \<Rightarrow> pc"
  crit :: "nat \<Rightarrow> nat set"

definition set_pc :: "nat \<Rightarrow> pc \<Rightarrow> spin_state \<Rightarrow> spin_state" where
  "set_pc c p s = s\<lparr>pcs := (pcs s)(c := p)\<rparr>"

inductive spin_step :: "spin_state \<Rightarrow> spin_state \<Rightarrow> bool" where
  acquire_enter:
    "pcs s c = Outside \<Longrightarrow> push_off c (mach s) = Ok () m \<Longrightarrow>
     spin_step s (set_pc c (if holding c l m then Stopped else Spinning l) (s\<lparr>mach := m\<rparr>))"
| acquire_swap:
    "pcs s c = Spinning l \<Longrightarrow> test_and_set l (mach s) = Ok old m \<Longrightarrow>
     spin_step s (set_pc c (if old \<noteq> 0 then Spinning l else Taken l) (s\<lparr>mach := m\<rparr>))"
| acquire_record:
    "pcs s c = Taken l \<Longrightarrow>
     spin_step s (set_pc c Outside (s\<lparr>mach := upd_lock l (\<lambda>k. k\<lparr>lk_cpu := Some c\<rparr>) (mach s),
       crit := (crit s)(c := insert l (crit s c))\<rparr>))"
| release_enter:
    "pcs s c = Outside \<Longrightarrow> holding c l (mach s) \<Longrightarrow>
     spin_step s (set_pc c (Releasing l) (s\<lparr>mach := upd_lock l (\<lambda>k. k\<lparr>lk_cpu := None\<rparr>) (mach s),
       crit := (crit s)(c := crit s c - {l})\<rparr>))"
| release_panic:
    "pcs s c = Outside \<Longrightarrow> \<not> holding c l (mach s) \<Longrightarrow> spin_step s (set_pc c Stopped s)"
| release_store:
    "pcs s c = Releasing l \<Longrightarrow>
     spin_step s (set_pc c Popping (s\<lparr>mach := upd_lock l (\<lambda>k. k\<lparr>locked := 0\<rparr>) (mach s)\<rparr>))"
| release_pop:
    "pcs s c = Popping \<Longrightarrow> pop_off c (mach s) = Ok () m \<Longrightarrow>
     spin_step s (set_pc c Outside (s\<lparr>mach := m\<rparr>))"

text \<open>
  The steps are those of \<^const>\<open>acquire\<close> and \<^const>\<open>release\<close>: a call that returns is the sequence of its actions, with no action of another
  CPU in between.
\<close>

lemma acquire_steps:
  assumes "pcs s c = Outside" and "acquire c l (mach s) = Ok () m"
  shows "spin_step\<^sup>*\<^sup>* s (s\<lparr>mach := m, crit := (crit s)(c := insert l (crit s c))\<rparr>)"
proof -
  obtain m1 where m1: "push_off c (mach s) = Ok () m1" by (simp add: push_off_run)
  let ?m2 = "upd_lock l (\<lambda>k. k\<lparr>locked := 1\<rparr>) m1"
  have m: "\<not> holding c l m1" "locked (locks m1 l) = 0" "m = upd_lock l (\<lambda>k. k\<lparr>lk_cpu := Some c\<rparr>) ?m2"
    using assms(2) m1 by (auto simp: acquire_def test_and_set_def run_simps split: if_splits)
  have "spin_step s (set_pc c (Spinning l) (s\<lparr>mach := m1\<rparr>))" using spin_step.acquire_enter [OF assms(1) m1, of l] m(1) by simp
  moreover have "spin_step (set_pc c (Spinning l) (s\<lparr>mach := m1\<rparr>)) (set_pc c (Taken l) (s\<lparr>mach := ?m2\<rparr>))"
    using spin_step.acquire_swap [of "set_pc c (Spinning l) (s\<lparr>mach := m1\<rparr>)" c l 0 ?m2] m(2)
    by (simp add: set_pc_def test_and_set_def run_simps)
  moreover have "set_pc c Outside s = s" using assms(1) by (simp add: set_pc_def fun_upd_idem)
  then have "spin_step (set_pc c (Taken l) (s\<lparr>mach := ?m2\<rparr>)) (s\<lparr>mach := m, crit := (crit s)(c := insert l (crit s c))\<rparr>)"
    using spin_step.acquire_record [of "set_pc c (Taken l) (s\<lparr>mach := ?m2\<rparr>)" c l] m(3) assms(1)
    by (simp add: set_pc_def fun_upd_idem)
  ultimately show ?thesis by (meson rtranclp.rtrancl_into_rtrancl rtranclp.rtrancl_refl)
qed

lemma release_steps:
  assumes "pcs s c = Outside" and "release c l (mach s) = Ok () m"
  shows "spin_step\<^sup>*\<^sup>* s (s\<lparr>mach := m, crit := (crit s)(c := crit s c - {l})\<rparr>)"
proof -
  let ?m1 = "upd_lock l (\<lambda>k. k\<lparr>lk_cpu := None\<rparr>) (mach s)" let ?m2 = "upd_lock l (\<lambda>k. k\<lparr>locked := 0\<rparr>) ?m1"
  let ?s = "\<lambda>m. s\<lparr>mach := m, crit := (crit s)(c := crit s c - {l})\<rparr>"
  have m: "holding c l (mach s)" "pop_off c ?m2 = Ok () m"
    using assms(2) by (auto simp: release_def run_simps split: if_splits)
  have "spin_step s (set_pc c (Releasing l) (?s ?m1))" using spin_step.release_enter [OF assms(1) m(1)] by (simp add: set_pc_def)
  moreover have "spin_step (set_pc c (Releasing l) (?s ?m1)) (set_pc c Popping (?s ?m2))"
    using spin_step.release_store [of "set_pc c (Releasing l) (?s ?m1)" c l] by (cases s rule: spin_state.cases) (simp add: set_pc_def)
  moreover have "spin_step (set_pc c Popping (?s ?m2)) (s\<lparr>mach := m, crit := (crit s)(c := crit s c - {l})\<rparr>)"
    using spin_step.release_pop [of "set_pc c Popping (?s ?m2)" c m] m(2) assms(1) by (cases s rule: spin_state.cases) (simp add: set_pc_def fun_upd_idem)
  ultimately show ?thesis by (meson rtranclp.rtrancl_into_rtrancl rtranclp.rtrancl_refl)
qed

definition spin_init :: "spin_state \<Rightarrow> bool" where
  "spin_init s \<longleftrightarrow> (\<forall>c. pcs s c = Outside \<and> crit s c = {} \<and> noff (cpus (mach s) c) = 0) \<and>
     (\<forall>l. locks (mach s) l = \<lparr>locked = 0, lk_cpu = None\<rparr>)"

inductive spin_reachable :: "spin_state \<Rightarrow> bool" where
  init: "spin_init s \<Longrightarrow> spin_reachable s"
| step: "spin_reachable s \<Longrightarrow> spin_step s t \<Longrightarrow> spin_reachable t"

text \<open>A CPU owns a lock from the successful swap to the releasing store.\<close>

definition owns :: "spin_state \<Rightarrow> nat \<Rightarrow> nat \<Rightarrow> bool" where
  "owns s c l \<longleftrightarrow> l \<in> crit s c \<or> pcs s c = Taken l \<or> pcs s c = Releasing l"

definition lock_inv :: "spin_state \<Rightarrow> bool" where
  "lock_inv s \<longleftrightarrow>
     (\<forall>l. (locked (locks (mach s) l) \<noteq> 0) = (\<exists>c. owns s c l)) \<and>
     (\<forall>c d l. owns s c l \<longrightarrow> owns s d l \<longrightarrow> c = d) \<and>
     (\<forall>c l. lk_cpu (locks (mach s) l) = Some c \<longleftrightarrow> l \<in> crit s c) \<and>
     (\<forall>c l. pcs s c = Taken l \<or> pcs s c = Releasing l \<longrightarrow> l \<notin> crit s c)"

text \<open>The nesting count is the number of critical sections, plus one inside the lock code.\<close>

fun depth_ok :: "pc \<Rightarrow> nat set \<Rightarrow> int \<Rightarrow> bool" where
  "depth_ok Outside ls n \<longleftrightarrow> n = int (card ls)"
| "depth_ok Stopped ls n \<longleftrightarrow> int (card ls) \<le> n"
| "depth_ok _ ls n \<longleftrightarrow> n = int (card ls) + 1"

definition cpu_inv :: "spin_state \<Rightarrow> bool" where
  "cpu_inv s \<longleftrightarrow> (\<forall>c. finite (crit s c) \<and> cpu_ok (cpus (mach s) c) \<and>
     depth_ok (pcs s c) (crit s c) (noff (cpus (mach s) c)))"

lemma lock_inv_keep:
  assumes "lock_inv s" and "\<And>d k. owns t d k \<longleftrightarrow> owns s d k"
    and "\<And>k. locked (locks (mach t) k) \<noteq> 0 \<longleftrightarrow> locked (locks (mach s) k) \<noteq> 0"
    and "\<And>d k. lk_cpu (locks (mach t) k) = Some d \<longleftrightarrow> k \<in> crit t d"
    and "\<And>d k. pcs t d = Taken k \<or> pcs t d = Releasing k \<Longrightarrow> k \<notin> crit t d"
  shows "lock_inv t"
  using assms unfolding lock_inv_def by simp

lemma lock_inv_step:
  assumes "spin_step s t" and inv: "lock_inv s"
  shows "lock_inv t"
  using assms(1)
proof (cases rule: spin_step.cases)
  case (acquire_enter c m l)
  then have "locks m = locks (mach s)" by (auto simp: push_off_run upd_cpu_def)
  then show ?thesis using acquire_enter inv
    by (intro lock_inv_keep [OF inv]) (auto simp: lock_inv_def owns_def set_pc_def split: if_splits)
next
  case (acquire_swap c l old m)
  then have m: "m = upd_lock l (\<lambda>k. k\<lparr>locked := 1\<rparr>) (mach s)" "old = locked (locks (mach s) l)"
    by (auto simp: test_and_set_def run_simps)
  show ?thesis
  proof (cases "old = 0")
    case True
    then have no: "\<not> owns s d l" for d using inv m(2) by (auto simp: lock_inv_def)
    have own: "owns t d k \<longleftrightarrow> owns s d k \<or> d = c \<and> k = l" for d k
      using acquire_swap(1,2) True by (auto simp: owns_def set_pc_def)
    have "\<exists>d. owns t d l" using own by auto
    then show ?thesis
      using inv no own m acquire_swap(1,2) True unfolding lock_inv_def
      by (auto simp: set_pc_def upd_lock_def) (auto simp: owns_def)
  next
    case False
    then show ?thesis using acquire_swap(1,2) inv m
      by (intro lock_inv_keep [OF inv]) (auto simp: lock_inv_def owns_def set_pc_def upd_lock_def split: if_splits)
  qed
next
  case (acquire_record c l)
  then have "l \<in> crit s d \<longleftrightarrow> False" for d
    using inv unfolding lock_inv_def owns_def by metis
  then show ?thesis using acquire_record inv
    by (intro lock_inv_keep [OF inv])
      (auto simp: lock_inv_def owns_def set_pc_def upd_lock_def split: if_splits)
next
  case (release_enter c l)
  then have "l \<in> crit s d \<longleftrightarrow> d = c" for d
    using inv by (auto simp: lock_inv_def holding_def) (simp add: owns_def)
  then show ?thesis using release_enter inv
    by (intro lock_inv_keep [OF inv])
      (auto simp: lock_inv_def owns_def set_pc_def upd_lock_def split: if_splits)
next
  case (release_panic c l)
  then show ?thesis using inv
    by (intro lock_inv_keep [OF inv]) (auto simp: lock_inv_def owns_def set_pc_def split: if_splits)
next
  case (release_store c l)
  have l: "l \<notin> crit s c" "owns s c l" using inv release_store by (auto simp: lock_inv_def owns_def)
  then have own: "owns t d k \<longleftrightarrow> owns s d k \<and> k \<noteq> l" for d k
  proof -
    have "owns s d l \<longleftrightarrow> d = c" using l inv by (auto simp: lock_inv_def)
    then show ?thesis using release_store l by (auto simp: owns_def set_pc_def)
  qed
  then show ?thesis
    using inv release_store unfolding lock_inv_def own by (auto simp: set_pc_def upd_lock_def)
next
  case (release_pop c m)
  then have "locks m = locks (mach s)"
    by (auto simp: pop_off_def run_simps upd_cpu_def split: if_splits)
  then show ?thesis using release_pop inv
    by (intro lock_inv_keep [OF inv]) (auto simp: lock_inv_def owns_def set_pc_def split: if_splits)
qed

lemma depth_pos:
  assumes "depth_ok p ls n" and "finite ls" and "l \<in> ls"
  shows "0 < n"
proof -
  have "0 < card ls" using assms(2,3) by (auto simp: card_gt_0_iff)
  then show ?thesis using assms(1) by (cases p) auto
qed

lemma cpu_inv_change:
  assumes "cpu_inv s"
    and "\<And>d. d \<noteq> c \<Longrightarrow> pcs t d = pcs s d \<and> crit t d = crit s d \<and> cpus (mach t) d = cpus (mach s) d"
    and "finite (crit t c)" and "cpu_ok (cpus (mach t) c)"
    and "depth_ok (pcs t c) (crit t c) (noff (cpus (mach t) c))"
  shows "cpu_inv t"
  unfolding cpu_inv_def
proof
  fix d
  show "finite (crit t d) \<and> cpu_ok (cpus (mach t) d) \<and> depth_ok (pcs t d) (crit t d) (noff (cpus (mach t) d))"
    using assms by (cases "d = c") (auto simp: cpu_inv_def)
qed

lemma cpu_inv_step:
  assumes "spin_step s t" and lk: "lock_inv s" and inv: "cpu_inv s"
  shows "cpu_inv t"
proof -
  have at: "finite (crit s c)" "cpu_ok (cpus (mach s) c)" "depth_ok (pcs s c) (crit s c) (noff (cpus (mach s) c))" for c
    using inv by (simp_all add: cpu_inv_def)
  from assms(1) show ?thesis
  proof (cases rule: spin_step.cases)
    case (acquire_enter c m l)
    then show ?thesis using at [of c]
      by (intro cpu_inv_change [OF inv, of c]) (auto simp: cpu_ok_def push_off_run upd_cpu_def set_pc_def)
  next
    case (acquire_swap c l old m)
    then have "cpus m = cpus (mach s)" by (auto simp: test_and_set_def run_simps upd_lock_def)
    then show ?thesis using acquire_swap at [of c]
      by (intro cpu_inv_change [OF inv, of c]) (auto simp: set_pc_def)
  next
    case (acquire_record c l)
    then have "l \<notin> crit s c" using lk by (auto simp: lock_inv_def)
    then show ?thesis using acquire_record at [of c]
      by (intro cpu_inv_change [OF inv, of c]) (auto simp: set_pc_def upd_lock_def)
  next
    case (release_enter c l)
    then have "l \<in> crit s c" using lk by (auto simp: lock_inv_def holding_def)
    then have "Suc (card (crit s c - {l})) = card (crit s c)" by (rule card_Suc_Diff1 [OF at(1)])
    then show ?thesis using release_enter at [of c]
      by (intro cpu_inv_change [OF inv, of c]) (auto simp: set_pc_def upd_lock_def)
  next
    case (release_panic c l)
    then show ?thesis using at [of c] by (intro cpu_inv_change [OF inv, of c]) (auto simp: set_pc_def)
  next
    case (release_store c l)
    then show ?thesis using at [of c]
      by (intro cpu_inv_change [OF inv, of c]) (auto simp: set_pc_def upd_lock_def)
  next
    case (release_pop c m)
    then show ?thesis using at [of c]
      by (intro cpu_inv_change [OF inv, of c]) (auto simp: cpu_ok_def pop_off_run upd_cpu_def set_pc_def)
  qed
qed

lemma spin_invariant:
  assumes "spin_reachable s"
  shows "lock_inv s \<and> cpu_inv s"
  using assms
proof induction
  case (init s)
  then show ?case by (auto simp: spin_init_def lock_inv_def cpu_inv_def owns_def cpu_ok_def)
next
  case (step s t)
  then show ?case using lock_inv_step cpu_inv_step by blast
qed

text \<open>
  C5: in every interleaving of the atomic actions of \<^verbatim>\<open>acquire\<close> and \<^verbatim>\<open>release\<close> on any number of CPUs, two
  CPUs are never inside critical sections of the same lock, and a CPU inside a critical section has
  its interrupts off.
\<close>

theorem mutual_exclusion:
  assumes "spin_reachable s" and "l \<in> crit s c"
  shows "(l \<in> crit s d \<longrightarrow> d = c) \<and> \<not> intr (cpus (mach s) c)"
proof -
  have inv: "lock_inv s" "cpu_inv s" using spin_invariant [OF assms(1)] by simp_all
  then have "0 < noff (cpus (mach s) c)"
    using assms(2) depth_pos unfolding cpu_inv_def by blast
  then show ?thesis using inv assms(2) by (auto simp: lock_inv_def cpu_inv_def cpu_ok_def owns_def)
qed

theorem mutual_exclusion_witness:
  "\<exists>s. spin_reachable s \<and> (5 \<in> crit s 0) \<and> (5 \<in> crit s 1 \<longrightarrow> (1 :: nat) = 0) \<and> \<not> intr (cpus (mach s) 0)"
proof -
  let ?k = "\<lparr>locked = 0, lk_cpu = None\<rparr>" and ?p = "\<lparr>noff = 0, warikomi = False, intr = True\<rparr>"
  let ?s0 = "\<lparr>mach = \<lparr>cpus = \<lambda>_. ?p, locks = \<lambda>_. ?k\<rparr>, pcs = \<lambda>_. Outside, crit = \<lambda>_. {}\<rparr>"
  let ?m1 = "upd_cpu 0 (\<lambda>p. p\<lparr>intr := False, noff := noff p + 1,
     warikomi := if noff p = 0 then intr p else warikomi p\<rparr>) (mach ?s0)"
  let ?s1 = "set_pc 0 (if holding 0 5 ?m1 then Stopped else Spinning 5) (?s0\<lparr>mach := ?m1\<rparr>)"
  let ?m2 = "upd_lock 5 (\<lambda>k. k\<lparr>locked := 1\<rparr>) ?m1"
  let ?s2 = "set_pc 0 (if (0 :: u32) \<noteq> 0 then Spinning 5 else Taken 5) (?s1\<lparr>mach := ?m2\<rparr>)"
  let ?s3 = "set_pc 0 Outside (?s2\<lparr>mach := upd_lock 5 (\<lambda>k. k\<lparr>lk_cpu := Some 0\<rparr>) (mach ?s2),
     crit := (crit ?s2)(0 := insert 5 (crit ?s2 0))\<rparr>)"
  have "spin_reachable ?s0" by (rule spin_reachable.init) (simp add: spin_init_def)
  moreover have "spin_step ?s0 ?s1" by (rule acquire_enter) (simp_all add: push_off_run)
  moreover have "spin_step ?s1 ?s2"
    by (rule acquire_swap) (simp_all add: set_pc_def holding_def upd_cpu_def test_and_set_def run_simps)
  moreover have "spin_step ?s2 ?s3" by (rule acquire_record) (simp add: set_pc_def)
  ultimately have r: "spin_reachable ?s3" by (meson spin_reachable.step)
  have c: "5 \<in> crit ?s3 0" by (simp add: set_pc_def)
  show ?thesis using mutual_exclusion [OF r c, of 1] r c by blast
qed

end
