(* ===== verification/Loglimit.thy ===== *)
theory Loglimit
  imports Crash
begin

text \<open>
  How full the log may get: \<^verbatim>\<open>begin_op\<close> admits operations that together may log one block more than \<^verbatim>\<open>log_write\<close> accepts.
\<close>

text \<open>The use of the log that the comment above \<^verbatim>\<open>log_write\<close> describes: read a block, change it, log it, give it back.\<close>

definition update_block :: "int \<Rightarrow> (block \<Rightarrow> block) \<Rightarrow> u32 \<Rightarrow> (log, unit) prog" where
  "update_block pid f b =
     bnd (in_bio (bread pid ROOTDEV b)) (\<lambda>i.
     bnd (in_bio (bdata i)) (\<lambda>d.
     andthen (in_bio (bset i (f d)))
     (andthen (log_write i)
     (in_bio (brelse pid i)))))"

text \<open>The blocks \<open>bs\<close> are in the log and pinned, and no buffer is locked.\<close>

definition logged :: "u32 \<Rightarrow> u32 list \<Rightarrow> log \<Rightarrow> bool" where
  "logged start bs l \<longleftrightarrow> bio_inv (lbio l) \<and> log_at l start bs \<and> distinct bs \<and> lsize l = int LOGSIZE \<and> outstanding l = 3 \<and>
     (\<forall>b. crefs (bio_abs (lbio l)) b = (if b \<in> set bs then 1 else 0) \<and> cowner (bio_abs (lbio l)) b = None)"

lemma logged_room: "logged start bs l \<Longrightarrow> length bs < NBUF \<Longrightarrow> b \<notin> set bs \<Longrightarrow> room NBUF (bio_abs (lbio l)) b"
  by (auto simp: logged_def room_def in_use_def distinct_card)

text \<open>Up to \<^verbatim>\<open>log_write\<close> both cases are the same.\<close>

lemma update_block_open:
  assumes l: "logged start bs l" and b: "b \<notin> set bs" "length bs < NBUF" and f: "\<forall>d. length d = BSIZE \<longrightarrow> length (f d) = BSIZE"
  shows "\<exists>i t. update_block pid f b l = andthen (log_write i) (in_bio (brelse pid i)) (l\<lparr>lbio := t\<rparr>) \<and>
    bio_inv t \<and> holds t i b \<and> cowner (bio_abs t) b = Some pid \<and> crefs (bio_abs t) = (crefs (bio_abs (lbio l)))(b := 1) \<and>
    (\<forall>c. c \<noteq> b \<longrightarrow> cowner (bio_abs t) c = None)"
proof -
  note L = l [unfolded logged_def]
  have inv: "bio_inv (lbio l)" using L by blast
  obtain i s where s: "bread pid ROOTDEV b (lbio l) = Ok i s" "bio_inv s" "holds s i b" "bio_abs s = c_read pid b (bio_abs (lbio l))"
    using bc.read_ok [OF inv logged_room [OF l b(2,1)], of pid] by (auto elim!: wpE)
  have o: "cowner (bio_abs s) b = Some pid" by (simp add: s(4) c_read_def)
  let ?d = "cview (bio_abs s) b"
  have len: "length (f ?d) = BSIZE" using f bc.view_length [OF s(2)] by blast
  obtain t where t: "bset i (f ?d) s = Ok () t" "bio_inv t" "holds t = holds s" "bio_abs t = c_put b (f ?d) (bio_abs s)"
    using bc.put_ok [OF s(2,3) o len] by (auto elim!: wpE)
  show ?thesis
  proof (intro exI [of _ i] exI [of _ t] conjI)
    show "update_block pid f b l = andthen (log_write i) (in_bio (brelse pid i)) (l\<lparr>lbio := t\<rparr>)"
      using s(1) t(1) bc.get_ok [OF s(2,3) o] by (simp add: update_block_def run_simps)
  qed (use s t o L b in \<open>auto simp: c_defs\<close>)
qed

lemma update_block_logs:
  assumes l: "logged start bs l" and b: "b \<notin> set bs" "int (length bs) < int LOGSIZE - 1" and f: "\<forall>d. length d = BSIZE \<longrightarrow> length (f d) = BSIZE"
  shows "wp (update_block pid f b) (\<lambda>_. logged start (bs @ [b])) l"
proof -
  note L = l [unfolded logged_def]
  have nb: "length bs < NBUF" using b(2) by (simp add: const_defs)
  obtain i t where t: "update_block pid f b l = andthen (log_write i) (in_bio (brelse pid i)) (l\<lparr>lbio := t\<rparr>)"
    "bio_inv t" "holds t i b" "cowner (bio_abs t) b = Some pid" "crefs (bio_abs t) = (crefs (bio_abs (lbio l)))(b := 1)"
    "\<forall>c. c \<noteq> b \<longrightarrow> cowner (bio_abs t) c = None"
    using update_block_open [OF l b(1) nb f] by blast
  let ?l = "l\<lparr>lbio := t\<rparr>"
  have "log_at ?l start bs" using L by (simp add: log_at_def)
  then have "wp (log_write i) (\<lambda>_ l'. bio_inv (lbio l') \<and>
    (if b \<in> set bs then l' = ?l
     else log_at l' start (bs @ [b]) \<and> bio_abs (lbio l') = c_pin b (bio_abs (lbio ?l)) \<and>
       holds (lbio l') = holds (lbio ?l) \<and> lsize l' = lsize ?l \<and> outstanding l' = outstanding ?l)) ?l"
    by (intro log_write_spec) (use t L b(2) in \<open>simp_all\<close>)
  then have "wp (log_write i) (\<lambda>_. wp (in_bio (brelse pid i)) (\<lambda>_. logged start (bs @ [b]))) ?l"
  proof (rule wp_mono, elim conjE)
    fix u assume u: "bio_inv (lbio u)" and "if b \<in> set bs then u = ?l
     else log_at u start (bs @ [b]) \<and> bio_abs (lbio u) = c_pin b (bio_abs (lbio ?l)) \<and>
       holds (lbio u) = holds (lbio ?l) \<and> lsize u = lsize ?l \<and> outstanding u = outstanding ?l"
    then have U: "log_at u start (bs @ [b])" "bio_abs (lbio u) = c_pin b (bio_abs t)" "holds (lbio u) i b" "lsize u = lsize l" "outstanding u = outstanding l"
      using b(1) t(3) by simp_all
    have "wp (brelse pid i) (\<lambda>_ w. bio_inv w \<and> holds w = holds (lbio u) \<and> bio_abs w = c_relse b (bio_abs (lbio u))) (lbio u)"
      by (rule bc.relse_ok [OF u U(3)]) (use U(2) t(4,5) in \<open>simp_all add: c_pin_def\<close>)
    then show "wp (in_bio (brelse pid i)) (\<lambda>_. logged start (bs @ [b])) u"
      unfolding wp_zoom by (rule wp_mono) (use U L b(1) t(4-6) in \<open>auto simp: logged_def c_defs log_at_def\<close>)
  qed
  then have "wp (andthen (log_write i) (in_bio (brelse pid i))) (\<lambda>_. logged start (bs @ [b])) ?l" by (simp add: wp_andthen)
  then show ?thesis using t(1) by (simp add: wp_def)
qed

lemma update_blocks_log:
  assumes "logged start bs l" and "distinct (bs @ cs)" and "int (length (bs @ cs)) \<le> int LOGSIZE - 1" and f: "\<forall>d. length d = BSIZE \<longrightarrow> length (f d) = BSIZE"
  shows "wp (for_each cs (update_block pid f)) (\<lambda>_. logged start (bs @ cs)) l"
  using assms(1-3)
proof (induction cs arbitrary: bs l)
  case (Cons c cs)
  have "wp (update_block pid f c) (\<lambda>_. logged start (bs @ [c])) l"
    by (rule update_block_logs [OF Cons.prems(1) _ _ f]) (use Cons.prems in simp_all)
  then show ?case
    unfolding wp_for_each_Cons by (rule wp_mono) (use Cons.IH [of "bs @ [c]"] Cons.prems in simp)
qed (simp add: wp_ret)

lemma update_block_panics:
  assumes l: "logged start bs l" and b: "b \<notin> set bs" "int (length bs) = int LOGSIZE - 1" and f: "\<forall>d. length d = BSIZE \<longrightarrow> length (f d) = BSIZE"
  shows "\<exists>u. update_block pid f b l = Err (Panic ''too big a transaction'') u"
proof -
  have nb: "length bs < NBUF" using b(2) by (simp add: const_defs)
  obtain i t where t: "update_block pid f b l = andthen (log_write i) (in_bio (brelse pid i)) (l\<lparr>lbio := t\<rparr>)"
    using update_block_open [OF l b(1) nb f] by blast
  have "lhn l = int (length bs)" "lsize l = int LOGSIZE" using l by (simp_all add: logged_def log_at_def)
  then show ?thesis unfolding t using b(2) by (simp add: log_write_def run_simps)
qed

text \<open>
  C7: the reservations of \<^verbatim>\<open>begin_op\<close> and the limit of \<^verbatim>\<open>log_write\<close> disagree by one block. Into an empty log of the 30 blocks that
  \<^verbatim>\<open>mkfs\<close> makes, \<^verbatim>\<open>begin_op\<close> admits three operations, each of which may write \<open>MAXOPBLOCKS = 10\<close> blocks. When they
  update 30 different blocks between them, whichever these are and whatever is written, the first 29 go into the log, and the
  \<^verbatim>\<open>log_write\<close> of the last one panics.
\<close>

theorem log_reservation_gap:
  assumes "bio_inv (lbio l)" and "\<And>b. crefs (bio_abs (lbio l)) b = 0 \<and> cowner (bio_abs (lbio l)) b = None" and "log_at l start []"
    and "\<not> committing l" and "outstanding l = 0" and "lsize l = int LOGSIZE"
    and "distinct bs" and "int (length bs) = 3 * MAXOPBLOCKS" and "\<forall>d. length d = BSIZE \<longrightarrow> length (f d) = BSIZE"
  shows "wp (andthen begin_op (andthen begin_op (andthen begin_op (for_each (butlast bs) (update_block pid f)))))
    (\<lambda>_ t. outstanding t = 3 \<and> log_at t start (butlast bs) \<and> (\<exists>u. update_block pid f (last bs) t = Err (Panic ''too big a transaction'') u)) l"
proof -
  let ?l = "outstanding_update (\<lambda>n. n + 1) (outstanding_update (\<lambda>n. n + 1) (outstanding_update (\<lambda>n. n + 1) l))"
  have n: "lhn l = 0" using assms(3) by (simp add: log_at_def)
  have ne: "bs \<noteq> []" using assms(8) by (auto simp: const_defs)
  have len: "int (length (butlast bs)) = int LOGSIZE - 1" using assms(8) ne by (simp add: const_defs)
  have bs: "bs = butlast bs @ [last bs]" using ne by simp
  have "distinct (butlast bs @ [last bs])" using assms(7) bs by simp
  then have d: "last bs \<notin> set (butlast bs)" "distinct (butlast bs)" by simp_all
  have "logged start [] ?l" using assms by (simp add: logged_def log_at_def)
  from update_blocks_log [OF this, of "butlast bs"] d(2) len assms(9)
  have "wp (for_each (butlast bs) (update_block pid f)) (\<lambda>_. logged start (butlast bs)) ?l" by simp
  then have "wp (for_each (butlast bs) (update_block pid f)) (\<lambda>_ t. outstanding t = 3 \<and> log_at t start (butlast bs) \<and>
      (\<exists>u. update_block pid f (last bs) t = Err (Panic ''too big a transaction'') u)) ?l"
    by (rule wp_mono) (use update_block_panics [OF _ d(1) len assms(9)] in \<open>auto simp: logged_def\<close>)
  moreover have "andthen begin_op (andthen begin_op (andthen begin_op m)) l = m ?l" for m :: "(log, unit) prog"
    using assms(4,5) n by (simp add: begin_op_def run_simps const_defs)
  ultimately show ?thesis by (simp add: wp_def)
qed

theorem log_reservation_gap_witness:
  "\<exists>l :: log. wp (andthen begin_op (andthen begin_op (andthen begin_op (for_each (butlast (map of_nat [46..<76])) (update_block 1 (\<lambda>d. d))))))
    (\<lambda>_ t. outstanding t = 3 \<and> log_at t 2 (butlast (map of_nat [46..<76])) \<and>
      (\<exists>u. update_block 1 (\<lambda>d. d) (last (map of_nat [46..<76])) t = Err (Panic ''too big a transaction'') u)) l"
proof -
  let ?init = "\<lparr>cview = disk boot_bio, cstore = disk boot_bio, crefs = \<lambda>_. 0, cowner = \<lambda>_. None, ctrace = written boot_bio\<rparr>"
  obtain b where b: "bio_inv b" "bio_abs b = ?init" using binit_spec [OF boot_bio_zeroed] by (auto elim: wpE)
  let ?l = "\<lparr>lbio = b, lstart = 2, lsize = 30, outstanding = 0, committing = False, ldev = ROOTDEV, lhn = 0, lhblock = replicate 30 0\<rparr> :: log"
  have "unat (of_nat i :: u32) = i" if "i < 76" for i using that by (simp add: unat_of_nat_small)
  then have "inj_on (of_nat :: nat \<Rightarrow> u32) {46..<76}" by (intro inj_on_inverseI [of _ unat]) simp
  then have d: "distinct (map (of_nat :: nat \<Rightarrow> u32) [46..<76])" by (simp add: distinct_map)
  show ?thesis
    by (rule exI [of _ ?l], rule log_reservation_gap [OF _ _ _ _ _ _ d]) (simp_all add: b log_at_def const_defs)
qed

end
