(* ===== verification/Ulib.thy ===== *)
theory Ulib
  imports Kstring
begin

text \<open>
  \<^verbatim>\<open>user/ulib.c\<close>, the C library of user programs. A C string argument is the list of its bytes before the
  terminating NUL; memory functions work on the byte memory of \<open>Kstring\<close>. Standard input, as \<^verbatim>\<open>gets\<close> reads
  it with \<^verbatim>\<open>read(0, &c, 1)\<close>, is the list of the bytes still to come.
\<close>

subsection \<open>Strings\<close>

text \<open>\<^verbatim>\<open>strcpy\<close> into a buffer; \<open>None\<close> when the string with its NUL does not fit (undefined in C).\<close>

fun strcpy_loop :: "u8 list \<Rightarrow> nat \<Rightarrow> u8 list \<Rightarrow> u8 list option" where
  "strcpy_loop s i [] = (if i < length s then Some (s[i := 0]) else None)"
| "strcpy_loop s i (c # t) = (if i < length s then strcpy_loop (s[i := c]) (Suc i) t else None)"

definition strcpy :: "u8 list \<Rightarrow> u8 list \<Rightarrow> u8 list option" where
  "strcpy s t = strcpy_loop s 0 t"

fun strcmp :: "u8 list \<Rightarrow> u8 list \<Rightarrow> int" where
  "strcmp [] [] = 0"
| "strcmp [] (q # qs) = 0 - uint q"
| "strcmp (p # ps) [] = uint p - 0"
| "strcmp (p # ps) (q # qs) = (if p = q then strcmp ps qs else uint p - uint q)"

text \<open>\<^verbatim>\<open>strlen\<close> of the string at the start of an array; \<open>None\<close> when the array has no NUL.\<close>

fun ustrlen :: "u8 list \<Rightarrow> nat option" where
  "ustrlen [] = None"
| "ustrlen (c # s) = (if c = 0 then Some 0 else map_option Suc (ustrlen s))"

text \<open>\<^verbatim>\<open>strchr\<close> returns a pointer into \<^verbatim>\<open>s\<close>, here its offset, or null.\<close>

fun strchr_loop :: "u8 list \<Rightarrow> u8 \<Rightarrow> nat \<Rightarrow> nat option" where
  "strchr_loop [] c i = None"
| "strchr_loop (b # s) c i = (if b = c then Some i else strchr_loop s c (Suc i))"

definition strchr :: "u8 list \<Rightarrow> u8 \<Rightarrow> nat option" where
  "strchr s c = strchr_loop s c 0"

text \<open>\<^verbatim>\<open>gets\<close> returns the bytes stored before the NUL and the input that is left.\<close>

fun gets_loop :: "nat \<Rightarrow> int \<Rightarrow> u8 list \<Rightarrow> u8 list \<times> u8 list" where
  "gets_loop i max' inp =
     (if int i + 1 < max' then
        case inp of
          [] \<Rightarrow> ([], [])
        | c # inp' \<Rightarrow>
            if c = 10 \<or> c = 13 then ([c], inp')
            else let (line, left) = gets_loop (Suc i) max' inp' in (c # line, left)
      else ([], inp))"

definition ugets :: "int \<Rightarrow> u8 list \<Rightarrow> u8 list \<times> u8 list" where
  "ugets max' inp = gets_loop 0 max' inp"

text \<open>\<^verbatim>\<open>atoi\<close> computes in a 32-bit integer.\<close>

fun atoi_loop :: "u8 list \<Rightarrow> u32 \<Rightarrow> u32" where
  "atoi_loop [] n = n"
| "atoi_loop (c # s) n = (if 48 \<le> c \<and> c \<le> 57 then atoi_loop s (n * 10 + ucast c - 48) else n)"

definition atoi :: "u8 list \<Rightarrow> u32" where
  "atoi s = atoi_loop s 0"

declare gets_loop.simps [simp del]

subsection \<open>Memory\<close>

definition umemset :: "memory \<Rightarrow> u64 \<Rightarrow> u32 \<Rightarrow> u32 \<Rightarrow> memory" where
  "umemset m dst c n = fold (\<lambda>i m. m(dst + of_nat i := ucast c)) [0..<unat n] m"

definition umemmove :: "memory \<Rightarrow> u64 \<Rightarrow> u64 \<Rightarrow> int \<Rightarrow> memory" where
  "umemmove m dst src n =
     (if src > dst then copy_forward m dst src (nat n)
      else copy_backward m (dst + word_of_int n) (src + word_of_int n) (nat n))"

primrec umemcmp_loop :: "memory \<Rightarrow> u64 \<Rightarrow> u64 \<Rightarrow> nat \<Rightarrow> int" where
  "umemcmp_loop m p1 p2 0 = 0"
| "umemcmp_loop m p1 p2 (Suc n) =
     (if m p1 \<noteq> m p2 then uint (m p1) - uint (m p2) else umemcmp_loop m (p1 + 1) (p2 + 1) n)"

definition umemcmp :: "memory \<Rightarrow> u64 \<Rightarrow> u64 \<Rightarrow> u32 \<Rightarrow> int" where
  "umemcmp m s1 s2 n = umemcmp_loop m s1 s2 (unat n)"

definition umemcpy :: "memory \<Rightarrow> u64 \<Rightarrow> u64 \<Rightarrow> u32 \<Rightarrow> memory" where
  "umemcpy m dst src n = umemmove m dst src (sint n)"

subsection \<open>Facts\<close>

lemma umemmove_apply:
  assumes n: "0 \<le> n" "n < 2 ^ 31" and "unat src + nat n < 2 ^ 64" and "unat dst + nat n < 2 ^ 64"
  shows "umemmove m dst src n a = (if unat (a - dst) < nat n then m (src + (a - dst)) else m a)"
proof (cases "src > dst")
  case True
  have "nat n \<le> unat (dst - src)"
    using True assms(3) by (simp add: unat_sub_if' word_less_nat_alt)
  then show ?thesis using True n by (simp add: umemmove_def copy_forward_apply)
next
  case False
  have "src = dst \<or> nat n \<le> unat (src - dst)"
    using False assms(4) by (auto simp: unat_sub_if' word_less_nat_alt word_unat_eq_iff)
  then have "copy_backward m (dst + of_nat (nat n)) (src + of_nat (nat n)) (nat n) a =
      (if unat (a - dst) < nat n then m (src + (a - dst)) else m a)"
    using n by (intro copy_backward_apply) auto
  then show ?thesis using False n by (simp add: umemmove_def)
qed

text \<open>
  The \<^verbatim>\<open>memmove\<close> of user programs and the kernel's, which test for overlap differently, compute the
  same memory for all ranges that do not wrap around.
\<close>

theorem umemmove_same:
  assumes "0 \<le> n" and "n < 2 ^ 31" and "unat src + nat n < 2 ^ 64" and "unat dst + nat n < 2 ^ 64"
  shows "umemmove m dst src n = memmove m dst src (word_of_int n)"
proof
  fix a
  have w: "unat (word_of_int n :: u32) = nat n"
    using assms(1,2) by (simp add: unat_eq_nat_uint uint_word_of_int)
  show "umemmove m dst src n a = memmove m dst src (word_of_int n) a"
    using assms w by (simp add: umemmove_apply memmove_apply)
qed

theorem umemmove_same_witness:
  "umemmove (\<lambda>a. ucast a) 3 1 4 = memmove (\<lambda>a. ucast a) 3 1 (word_of_int 4)"
  by (rule umemmove_same) simp_all

end
