(* ===== verification/Grep.thy ===== *)
theory Grep
  imports Ulib
begin

text \<open>
  \<^verbatim>\<open>user/grep.c\<close>: the matcher for the operators \<open>^ . * $\<close> and the loop that reads a file in pieces and
  prints the matching lines. Patterns and texts are the bytes before the terminating NUL. The matcher is
  compared with a declarative meaning of patterns, the loop with a filter on lines.
\<close>

subsection \<open>The matcher\<close>

abbreviation caret :: u8 where "caret \<equiv> 94"
abbreviation dot :: u8 where "dot \<equiv> 46"
abbreviation star :: u8 where "star \<equiv> 42"
abbreviation dollar :: u8 where "dollar \<equiv> 36"
abbreviation newline :: u8 where "newline \<equiv> 10"

function (sequential) matchhere :: "u8 list \<Rightarrow> u8 list \<Rightarrow> bool"
and matchstar :: "u8 \<Rightarrow> u8 list \<Rightarrow> u8 list \<Rightarrow> bool" where
  "matchhere re tx =
     (case re of
        [] \<Rightarrow> True
      | c # re' \<Rightarrow>
          if re' \<noteq> [] \<and> hd re' = star then matchstar c (tl re') tx
          else if c = dollar \<and> re' = [] then tx = []
          else if tx \<noteq> [] \<and> (c = dot \<or> c = hd tx) then matchhere re' (tl tx)
          else False)"
| "matchstar c re tx =
     (if matchhere re tx then True
      else if tx \<noteq> [] \<and> (hd tx = c \<or> c = dot) then matchstar c re (tl tx)
      else False)"
  by pat_completeness auto
termination
  by (relation "measures [\<lambda>x. case x of Inl (re, _) \<Rightarrow> 2 * length re | Inr (_, re, _) \<Rightarrow> 2 * length re + 1,
      \<lambda>x. case x of Inl (_, tx) \<Rightarrow> length tx | Inr (_, _, tx) \<Rightarrow> length tx]") auto

declare matchhere.simps [simp del] matchstar.simps [simp del]

fun match_from :: "u8 list \<Rightarrow> u8 list \<Rightarrow> bool" where
  "match_from re tx = (if matchhere re tx then True else case tx of [] \<Rightarrow> False | _ # tx' \<Rightarrow> match_from re tx')"

definition match :: "u8 list \<Rightarrow> u8 list \<Rightarrow> bool" where
  "match re tx = (if re \<noteq> [] \<and> hd re = caret then matchhere (tl re) tx else match_from re tx)"

declare match_from.simps [simp del]

subsection \<open>The meaning of patterns\<close>

text \<open>
  A pattern is a sequence of items, each a character class with or without a star, and possibly an
  end anchor. \<open>split_anchor\<close> reads a pattern that way.
\<close>

datatype item = One u8 | Many u8

fun items :: "u8 list \<Rightarrow> item list" where
  "items [] = []"
| "items [c] = (if c = dollar then [] else [One c])"
| "items (c # d # re) = (if d = star then Many c # items re else One c # items (d # re))"

fun anchored :: "u8 list \<Rightarrow> bool" where
  "anchored [] = False"
| "anchored [c] = (c = dollar)"
| "anchored (c # d # re) = (if d = star then anchored re else anchored (d # re))"

definition char_ok :: "u8 \<Rightarrow> u8 \<Rightarrow> bool" where
  "char_ok c x \<longleftrightarrow> c = dot \<or> x = c"

fun lang :: "item list \<Rightarrow> u8 list set" where
  "lang [] = {[]}"
| "lang (One c # is) = {x # u | x u. char_ok c x \<and> u \<in> lang is}"
| "lang (Many c # is) = {s @ u | s u. (\<forall>x \<in> set s. char_ok c x) \<and> u \<in> lang is}"

text \<open>A pattern matches a text that has a part in its language, at the end of the text if it is anchored.\<close>

definition here_spec :: "u8 list \<Rightarrow> u8 list \<Rightarrow> bool" where
  "here_spec re tx \<longleftrightarrow> (\<exists>u v. tx = u @ v \<and> u \<in> lang (items re) \<and> (anchored re \<longrightarrow> v = []))"

definition match_spec :: "u8 list \<Rightarrow> u8 list \<Rightarrow> bool" where
  "match_spec re tx \<longleftrightarrow>
     (if re \<noteq> [] \<and> hd re = caret then here_spec (tl re) tx
      else \<exists>w tx'. tx = w @ tx' \<and> here_spec re tx')"

lemma here_spec_Nil: "here_spec [] tx"
  by (simp add: here_spec_def)

lemma here_spec_end: "here_spec [dollar] tx \<longleftrightarrow> tx = []"
  by (simp add: here_spec_def)

lemma here_spec_one:
  assumes "\<not> (re \<noteq> [] \<and> hd re = star)" and "\<not> (c = dollar \<and> re = [])"
  shows "here_spec (c # re) tx \<longleftrightarrow> tx \<noteq> [] \<and> (c = dot \<or> c = hd tx) \<and> here_spec re (tl tx)"
proof -
  have "items (c # re) = One c # items re \<and> anchored (c # re) = anchored re"
    using assms by (cases re) auto
  then show ?thesis
    by (cases tx) (auto simp: here_spec_def char_ok_def Cons_eq_append_conv)
qed

lemma here_spec_star:
  "here_spec (c # star # re) tx \<longleftrightarrow>
     (\<exists>s u v. tx = s @ u @ v \<and> (\<forall>x \<in> set s. char_ok c x) \<and> u \<in> lang (items re) \<and> (anchored re \<longrightarrow> v = []))"
  (is "?l \<longleftrightarrow> ?r")
proof
  assume ?l
  then show ?r unfolding here_spec_def by (auto, metis append_assoc, metis append_Nil2)
next
  assume ?r
  then obtain s u v where "tx = (s @ u) @ v" "\<forall>x \<in> set s. char_ok c x" "u \<in> lang (items re)" "anchored re \<longrightarrow> v = []"
    by auto
  then show ?l unfolding here_spec_def by (intro exI [of _ "s @ u"] exI [of _ v]) auto
qed

lemma here_spec_many:
  "here_spec (c # star # re) tx \<longleftrightarrow>
     here_spec re tx \<or> (tx \<noteq> [] \<and> (hd tx = c \<or> c = dot) \<and> here_spec (c # star # re) (tl tx))"
proof
  assume "here_spec (c # star # re) tx"
  then obtain s u v where t: "tx = s @ u @ v" "\<forall>x \<in> set s. char_ok c x" "u \<in> lang (items re)" "anchored re \<longrightarrow> v = []"
    unfolding here_spec_star by blast
  show "here_spec re tx \<or> (tx \<noteq> [] \<and> (hd tx = c \<or> c = dot) \<and> here_spec (c # star # re) (tl tx))"
  proof (cases s)
    case Nil
    then show ?thesis using t by (auto simp: here_spec_def)
  next
    case (Cons x s')
    then have "here_spec (c # star # re) (tl tx)"
      unfolding here_spec_star using t by (intro exI [of _ s'] exI [of _ u] exI [of _ v]) auto
    then show ?thesis using Cons t by (auto simp: char_ok_def)
  qed
next
  assume a: "here_spec re tx \<or> (tx \<noteq> [] \<and> (hd tx = c \<or> c = dot) \<and> here_spec (c # star # re) (tl tx))"
  then show "here_spec (c # star # re) tx"
  proof (elim disjE)
    assume "here_spec re tx"
    then show ?thesis unfolding here_spec_star here_spec_def [of re] by (metis append_Nil empty_iff list.set(1))
  next
    assume a: "tx \<noteq> [] \<and> (hd tx = c \<or> c = dot) \<and> here_spec (c # star # re) (tl tx)"
    then have x: "tx \<noteq> []" "hd tx = c \<or> c = dot" by simp_all
    from a obtain s u v where t: "tl tx = s @ u @ v" "\<forall>x \<in> set s. char_ok c x" "u \<in> lang (items re)"
        "anchored re \<longrightarrow> v = []"
      unfolding here_spec_star by blast
    have "tx = (hd tx # s) @ u @ v" using x(1) t(1) by (metis append_Cons list.collapse)
    moreover have "\<forall>y \<in> set (hd tx # s). char_ok c y" using t(2) x(2) by (auto simp: char_ok_def)
    ultimately show ?thesis unfolding here_spec_star using t(3,4) by blast
  qed
qed

lemma matchhere_matchstar_spec:
  "matchhere re tx = here_spec re tx"
  "matchstar c re tx = here_spec (c # star # re) tx"
proof (induction re tx and c re tx rule: matchhere_matchstar.induct)
  case (1 re tx)
  show ?case
  proof (cases re)
    case (Cons c re')
    consider "re' \<noteq> [] \<and> hd re' = star" | "\<not> (re' \<noteq> [] \<and> hd re' = star)" "c = dollar \<and> re' = []"
      | "\<not> (re' \<noteq> [] \<and> hd re' = star)" "\<not> (c = dollar \<and> re' = [])" by blast
    then show ?thesis
    proof cases
      case one: 1
      then have "re = c # star # tl re'" using Cons by (metis list.collapse)
      then show ?thesis using "1.IH"(1) [OF Cons one] Cons one by (simp add: matchhere.simps [of "c # re'"])
    next
      case 2
      then show ?thesis using Cons by (simp add: matchhere.simps [of "[dollar]"] here_spec_end)
    next
      case 3
      then show ?thesis using "1.IH"(2) [OF Cons] Cons
        by (auto simp: matchhere.simps [of "c # re'"] here_spec_one)
    qed
  qed (simp add: matchhere.simps here_spec_Nil)
next
  case (2 c re tx)
  then show ?case by (subst matchstar.simps, subst here_spec_many) auto
qed

lemma match_from_spec: "match_from re tx \<longleftrightarrow> (\<exists>w tx'. tx = w @ tx' \<and> matchhere re tx')"
proof (induction tx)
  case (Cons x tx)
  show ?case
  proof
    assume "match_from re (x # tx)"
    then consider "matchhere re (x # tx)" | w tx' where "tx = w @ tx'" "matchhere re tx'"
      using Cons by (subst (asm) match_from.simps) (auto split: if_splits)
    then show "\<exists>w tx'. x # tx = w @ tx' \<and> matchhere re tx'"
    proof cases
      case 1
      then show ?thesis by (metis append_Nil)
    next
      case (2 w tx')
      then show ?thesis by (metis append_Cons)
    qed
  next
    assume "\<exists>w tx'. x # tx = w @ tx' \<and> matchhere re tx'"
    then show "match_from re (x # tx)"
      using Cons by (subst match_from.simps) (auto simp: Cons_eq_append_conv)
  qed
qed (simp add: match_from.simps)

text \<open>
  C15: \<^verbatim>\<open>match\<close> accepts a text exactly when the text has a part in the language of the pattern: at its beginning
  for a pattern with \<open>^\<close>, at its end for one with \<open>$\<close>; \<open>.\<close> stands for any character and \<open>c*\<close> for any number
  of characters \<open>c\<close>.
\<close>

theorem match_correct: "match re tx \<longleftrightarrow> match_spec re tx"
  by (simp add: match_def match_spec_def match_from_spec matchhere_matchstar_spec)

subsection \<open>The loop\<close>

text \<open>
  \<open>grep_lines\<close> is the inner loop: it prints the matching lines of the buffer from \<^verbatim>\<open>p\<close> on and returns what
  is left after the last newline. \<^verbatim>\<open>strchr\<close> does not look past a NUL byte.
\<close>

lemma strchr_loop_less: "strchr_loop s c i = Some q \<Longrightarrow> i \<le> q \<and> q < i + length s"
  by (induction s arbitrary: i) (force split: if_splits)+

function grep_lines :: "u8 list \<Rightarrow> u8 list \<Rightarrow> u8 list \<times> u8 list" where
  "grep_lines pattern p =
     (case strchr (takeWhile (\<lambda>c. c \<noteq> 0) p) newline of
        None \<Rightarrow> ([], p)
      | Some q \<Rightarrow>
          let (out, left) = grep_lines pattern (drop (Suc q) p)
          in ((if match pattern (take q p) then take (Suc q) p else []) @ out, left))"
  by pat_completeness auto
termination
proof (relation "measure (\<lambda>(_, p). length p)", simp)
  fix pattern :: "u8 list" and p q
  assume "strchr (takeWhile (\<lambda>c. c \<noteq> 0) p) newline = Some q"
  then have "q < length (takeWhile (\<lambda>c. c \<noteq> 0) p)" using strchr_loop_less by (fastforce simp: strchr_def)
  then show "((pattern, drop (Suc q) p), pattern, p) \<in> measure (\<lambda>(_, p). length p)"
    using length_takeWhile_le [of "\<lambda>c. c \<noteq> 0" p] by simp
qed

declare grep_lines.simps [simp del]

text \<open>
  The outer loop. \<open>b\<close> is the beginning of a line kept in the buffer of 1024 bytes; \<open>inp\<close> is the rest of the
  file. The \<open>k\<close>-th \<^verbatim>\<open>read\<close> returns as many bytes as fit and the file still has, but may stop after
  \<open>want k + 1\<close> of them, as a pipe or the console does. The result is the output.
\<close>

function grep :: "u8 list \<Rightarrow> (nat \<Rightarrow> nat) \<Rightarrow> nat \<Rightarrow> u8 list \<Rightarrow> u8 list \<Rightarrow> u8 list" where
  "grep pattern want k b inp =
     (let n = min (Suc (want k)) (1024 - length b - 1); chunk = take n inp in
      if chunk = [] then []
      else let (out, left) = grep_lines pattern (b @ chunk)
           in out @ grep pattern want (Suc k) left (drop n inp))"
  by pat_completeness auto
termination
  by (relation "measure (\<lambda>(_, _, _, _, inp). length inp)") auto

declare grep.simps [simp del]

text \<open>
  \<^verbatim>\<open>main\<close>: the standard output, the standard error and the exit status. \<open>opened\<close> says which files can be opened, what they
  hold and where the reads of them stop.
\<close>

primrec grep_files :: "u8 list \<Rightarrow> (u8 list \<Rightarrow> ((nat \<Rightarrow> nat) \<times> u8 list) option) \<Rightarrow> u8 list list \<Rightarrow> u8 list \<times> u8 list \<times> int" where
  "grep_files pattern opened [] = ([], [], 0)"
| "grep_files pattern opened (a # as) =
     (case opened a of
        None \<Rightarrow> (map of_char ''grep: cannot open '' @ a @ [newline], [], 1)
      | Some (want, inp) \<Rightarrow>
          let (out, err, status) = grep_files pattern opened as
          in (grep pattern want 0 [] inp @ out, err, status))"

definition grep_main :: "u8 list list \<Rightarrow> (nat \<Rightarrow> nat) \<times> u8 list \<Rightarrow> (u8 list \<Rightarrow> ((nat \<Rightarrow> nat) \<times> u8 list) option) \<Rightarrow>
    u8 list \<times> u8 list \<times> int" where
  "grep_main argv stdin opened =
     (if length argv \<le> 1 then ([], map of_char ''usage: grep pattern [file ...]'' @ [newline], 1)
      else if length argv \<le> 2 then (grep (argv ! 1) (fst stdin) 0 [] (snd stdin), [], 0)
      else grep_files (argv ! 1) opened (drop 2 argv))"

subsection \<open>Lines\<close>

text \<open>The complete lines of a text, without their newlines, and what follows the last newline.\<close>

fun lines_of :: "u8 list \<Rightarrow> u8 list list \<times> u8 list" where
  "lines_of [] = ([], [])"
| "lines_of (c # s) =
     (let (ls, r) = lines_of s in
      if c = newline then ([] # ls, r)
      else case ls of [] \<Rightarrow> ([], c # r) | l # ls' \<Rightarrow> ((c # l) # ls', r))"

definition printed :: "u8 list \<Rightarrow> u8 list list \<Rightarrow> u8 list" where
  "printed pattern ls = concat (map (\<lambda>l. l @ [newline]) (filter (match pattern) ls))"

lemma lines_of_none: "newline \<notin> set s \<Longrightarrow> lines_of s = ([], s)"
  by (induction s) auto

lemma lines_of_line: "newline \<notin> set l \<Longrightarrow> lines_of (l @ newline # s) = (l # fst (lines_of s), snd (lines_of s))"
  by (induction l) (auto simp: split_beta)

lemma lines_of_append:
  "lines_of (a @ s) = (fst (lines_of a) @ fst (lines_of (snd (lines_of a) @ s)), snd (lines_of (snd (lines_of a) @ s)))"
  by (induction a) (auto simp: split_beta split: list.split)

lemma lines_of_left: "newline \<notin> set (snd (lines_of s))"
  by (induction s) (auto simp: split_beta split: list.split)

lemma strchr_none: "c \<notin> set s \<Longrightarrow> strchr_loop s c i = None"
  by (induction s arbitrary: i) auto

lemma strchr_split: "c \<notin> set l \<Longrightarrow> strchr_loop (l @ c # s) c i = Some (i + length l)"
  by (induction l arbitrary: i) auto

lemma no_nul: "0 \<notin> set (s :: u8 list) \<Longrightarrow> takeWhile (\<lambda>c. c \<noteq> 0) s = s"
  by (induction s) auto

lemma grep_lines_step:
  assumes "0 \<notin> set (l @ newline # s)" and "newline \<notin> set l"
  shows "grep_lines pattern (l @ newline # s) =
    ((if match pattern l then l @ [newline] else []) @ fst (grep_lines pattern s), snd (grep_lines pattern s))"
proof -
  have "takeWhile (\<lambda>c. c \<noteq> 0) (l @ newline # s) = l @ newline # s"
    by (rule no_nul [OF assms(1)])
  then have "strchr (takeWhile (\<lambda>c. c \<noteq> 0) (l @ newline # s)) newline = Some (length l)"
    using strchr_split [OF assms(2), of s 0] by (simp only: strchr_def add_0)
  then show ?thesis by (subst grep_lines.simps) (simp add: split_beta)
qed

lemma grep_lines_eq:
  assumes "0 \<notin> set p"
  shows "grep_lines pattern p = (printed pattern (fst (lines_of p)), snd (lines_of p))"
  using assms
proof (induction p rule: length_induct)
  case (1 p)
  have t: "takeWhile (\<lambda>c. c \<noteq> 0) p = p" by (rule no_nul [OF 1(2)])
  show ?case
  proof (cases "newline \<in> set p")
    case True
    then obtain l s where p: "p = l @ newline # s" "newline \<notin> set l" by (meson split_list_first)
    have "grep_lines pattern s = (printed pattern (fst (lines_of s)), snd (lines_of s))"
      using 1 p by simp
    moreover have "0 \<notin> set (l @ newline # s)" using 1(2) p(1) by simp
    ultimately show ?thesis
      unfolding p(1) using p(2) grep_lines_step [of l s pattern] lines_of_line [of l s] by (simp add: printed_def)
  next
    case False
    then have "strchr (takeWhile (\<lambda>c. c \<noteq> 0) p) newline = None" unfolding t by (simp add: strchr_def strchr_none)
    then show ?thesis using lines_of_none [OF False]
      by (subst grep_lines.simps) (simp add: printed_def)
  qed
qed

text \<open>The lines and the rest of a text that begins with a piece without newline: the piece is part of one of them.\<close>

definition short_lines :: "u8 list \<Rightarrow> bool" where
  "short_lines s \<longleftrightarrow> (\<forall>l \<in> set (snd (lines_of s) # fst (lines_of s)). length l < 1023)"

lemma short_prefix:
  assumes "short_lines (b @ s)" and "newline \<notin> set b"
  shows "length b < 1023"
proof (cases "newline \<in> set s")
  case True
  then obtain l t where s: "s = l @ newline # t" "newline \<notin> set l" by (meson split_list_first)
  then have "b @ l \<in> set (fst (lines_of (b @ s)))" using lines_of_line [of "b @ l" t] assms(2) by simp
  then show ?thesis using assms(1) by (fastforce simp: short_lines_def)
next
  case False
  then have "snd (lines_of (b @ s)) = b @ s" using assms(2) by (simp add: lines_of_none)
  then show ?thesis using assms(1) by (simp add: short_lines_def)
qed

lemma grep_from:
  assumes "0 \<notin> set (b @ inp)" and "short_lines (b @ inp)" and "newline \<notin> set b"
  shows "grep pattern want k b inp = printed pattern (fst (lines_of (b @ inp)))"
  using assms
proof (induction inp arbitrary: k b rule: length_induct)
  case (1 inp)
  define n where "n = min (Suc (want k)) (1024 - length b - 1)"
  have n: "0 < n" using short_prefix [OF 1(3,4)] by (simp add: n_def)
  show ?case
  proof (cases "inp = []")
    case True
    then show ?thesis using lines_of_none [OF 1(4)] by (simp add: grep.simps printed_def)
  next
    case False
    let ?c = "take n inp" and ?r = "drop n inp"
    let ?l = "snd (lines_of (b @ ?c))"
    have e: "lines_of (b @ inp) = (fst (lines_of (b @ ?c)) @ fst (lines_of (?l @ ?r)), snd (lines_of (?l @ ?r)))"
      using lines_of_append [of "b @ ?c" ?r] by simp
    have zc: "0 \<notin> set (b @ ?c)" using 1(2) by (auto dest: in_set_takeD)
    have sub: "set ?l \<subseteq> set s" if "?l = snd (lines_of s)" for s
    proof -
      have "set (snd (lines_of t)) \<subseteq> set t" for t
        by (induction t) (auto simp: split_beta split: list.split)
      then show ?thesis using that by simp
    qed
    have "grep pattern want (Suc k) ?l ?r = printed pattern (fst (lines_of (?l @ ?r)))"
    proof (rule 1(1) [rule_format])
      show "length ?r < length inp" using n False by simp
      show "0 \<notin> set (?l @ ?r)" using zc sub [OF refl] 1(2) by (auto dest: in_set_dropD)
      show "short_lines (?l @ ?r)" using 1(3) e by (auto simp: short_lines_def)
      show "newline \<notin> set ?l" by (rule lines_of_left)
    qed
    moreover have "grep_lines pattern (b @ ?c) = (printed pattern (fst (lines_of (b @ ?c))), ?l)"
      by (rule grep_lines_eq [OF zc])
    moreover have "?c \<noteq> []" using n False by simp
    ultimately show ?thesis using e
      by (simp add: grep.simps [of pattern want k b inp, folded n_def] Let_def printed_def)
  qed
qed

lemma grep_prints_matches:
  assumes "0 \<notin> set inp" and "short_lines inp"
  shows "grep pattern want 0 [] inp = printed pattern (fst (lines_of inp))"
  using grep_from [of "[]"] assms by simp

definition greppable :: "(u8 list \<Rightarrow> ((nat \<Rightarrow> nat) \<times> u8 list) option) \<Rightarrow> u8 list \<Rightarrow> bool" where
  "greppable opened a \<longleftrightarrow> (\<exists>want inp. opened a = Some (want, inp) \<and> 0 \<notin> set inp \<and> short_lines inp)"

lemma grep_files_print:
  "list_all (greppable opened) as \<Longrightarrow>
    grep_files pattern opened as = (concat (map (\<lambda>a. printed pattern (fst (lines_of (snd (the (opened a)))))) as), [], 0)"
  by (induction as) (auto simp: greppable_def grep_prints_matches)

text \<open>
  C16: on files without NUL bytes whose lines are shorter than 1023 bytes, \<^verbatim>\<open>grep\<close> prints exactly the lines that
  match, file after file, in order and each once, however \<^verbatim>\<open>read\<close> cuts the files into pieces, and exits with 0; a last line
  without newline is not printed.
\<close>

theorem grep_main_prints:
  assumes "as \<noteq> []" and "list_all (greppable opened) as"
  shows "grep_main (name # pattern # as) stdin opened =
    (concat (map (\<lambda>a. printed pattern (fst (lines_of (snd (the (opened a)))))) as), [], 0)"
  using grep_files_print [OF assms(2)] assms(1) by (simp add: grep_main_def)

theorem grep_main_prints_witness:
  "grep_main [[103], [97], [102], [102]] (\<lambda>k. 0, []) [[102] \<mapsto> (\<lambda>k. 2, [98, 97, 10, 98, 10, 97, 97, 10])] =
    ([98, 97, 10, 97, 97, 10, 98, 97, 10, 97, 97, 10], [], 0)"
proof -
  let ?o = "[[102] \<mapsto> (\<lambda>k. 2, [98, 97, 10, 98, 10, 97, 97, 10])] :: u8 list \<Rightarrow> ((nat \<Rightarrow> nat) \<times> u8 list) option"
  have "list_all (greppable ?o) [[102], [102]]" by (simp add: greppable_def short_lines_def)
  then show ?thesis using grep_main_prints [of "[[102], [102]]" ?o "[103]" "[97]"]
    by (simp add: printed_def match_def match_from.simps matchhere.simps)
qed

end
