(* ===== verification/Proc.thy ===== *)
theory Proc
  imports Fs
begin

text \<open>
  The kernel state and the parts of \<^verbatim>\<open>kernel/proc.c\<close> that need no files: the process table, process
  creation and destruction, sleeping, waking, killing and scheduling. The record \<open>kernel\<close> gathers the
  state of all components; a process, a file or a pipe is referred to by its table index or address, and
  the index past the end of a table is the null pointer. Functions that call \<^verbatim>\<open>myproc()\<close> take the index of
  the calling process as their first argument. Critical sections of \<^verbatim>\<open>p->lock\<close>, \<^verbatim>\<open>wait_lock\<close> and \<^verbatim>\<open>pid_lock\<close>
  run atomically.
\<close>

subsection \<open>Data\<close>

definition NPROC :: nat where [const_defs]: "NPROC = 64"
definition NCPU :: nat where [const_defs]: "NCPU = 8"
definition NOFILE :: nat where [const_defs]: "NOFILE = 16"
definition NFILE :: nat where [const_defs]: "NFILE = 100"
definition NDEV :: nat where [const_defs]: "NDEV = 10"

datatype procstate = UNUSED | USED | SLEEPING | RUNNABLE | RUNNING | ZOMBIE

text \<open>The addresses that \<^verbatim>\<open>sleep\<close> and \<^verbatim>\<open>wakeup\<close> are called with.\<close>

datatype chan = Ch_proc nat | Ch_nread u64 | Ch_nwrite u64 | Ch_ticks | Ch_cons_r | Ch_uart_tx_r

record kcontext =
  ctx_ra :: u64
  ctx_sp :: u64
  ctx_s :: "u64 list"

record proc =
  p_state :: procstate
  p_chan :: "chan option"
  p_killed :: bool
  p_xstate :: u32
  p_pid :: int
  p_parent :: nat
  p_kstack :: u64
  p_sz :: u64
  p_pagetable :: u64
  p_trapframe :: u64
  p_context :: kcontext
  p_ofile :: "nat list"
  p_cwd :: nat
  p_name :: "u8 list"

datatype ftype = FD_NONE | FD_PIPE | FD_INODE | FD_DEVICE

record file_obj =
  f_type :: ftype
  f_ref :: int
  f_readable :: bool
  f_writable :: bool
  f_pipe :: u64
  f_ip :: nat
  f_off :: u32
  f_major :: u16

record pipe =
  pdata :: "u8 list"
  nread :: u32
  nwrite :: u32
  readopen :: bool
  writeopen :: bool

record cons =
  c_buf :: "u8 list"
  c_r :: u32
  c_w :: u32
  c_e :: u32

text \<open>
  The UART: the driver's transmit buffer, and of the device the bytes received and not yet read, the
  number of bytes the transmit register accepts before it is busy, and the bytes sent so far.
\<close>

record uart =
  tx_buf :: "u8 list"
  tx_w :: u64
  tx_r :: u64
  rx :: "u8 list"
  tx_room :: nat
  sent :: "u8 list"

datatype device = Console

record kernel =
  kfs :: fsys
  ftable :: "file_obj list"
  devsw_read :: "device option list"
  devsw_write :: "device option list"
  pipes :: "u64 \<Rightarrow> pipe"
  procs :: "proc list"
  nextpid :: int
  initproc :: nat
  cpu_proc :: "nat list"
  kcons :: cons
  kuart :: uart
  panicked :: bool
  ticks :: u32
  first :: bool
  k_trampoline :: u64
  k_forkret :: u64

abbreviation nullproc :: nat where "nullproc \<equiv> NPROC"
abbreviation nullfile :: nat where "nullfile \<equiv> NFILE"

abbreviation proc_at :: "kernel \<Rightarrow> nat \<Rightarrow> proc" where
  "proc_at k p \<equiv> procs k ! p"

definition upd_proc :: "nat \<Rightarrow> (proc \<Rightarrow> proc) \<Rightarrow> kernel \<Rightarrow> kernel" where
  "upd_proc p f k = k\<lparr>procs := (procs k)[p := f (procs k ! p)]\<rparr>"

abbreviation in_fs :: "(fsys, 'a) prog \<Rightarrow> (kernel, 'a) prog" where
  "in_fs \<equiv> zoom kfs kfs_update"

abbreviation in_kmem :: "(kmem, 'a) prog \<Rightarrow> (kernel, 'a) prog" where
  "in_kmem m \<equiv> in_fs (in_mem m)"

definition cur_of :: "kernel \<Rightarrow> nat \<Rightarrow> cur" where
  "cur_of k p = \<lparr>cpid = p_pid (proc_at k p), cpagetable = p_pagetable (proc_at k p), ccwd = p_cwd (proc_at k p)\<rparr>"

text \<open>A call of a file-system function by process \<open>p\<close>.\<close>

definition fs_call :: "nat \<Rightarrow> (cur \<Rightarrow> (fsys, 'a) prog) \<Rightarrow> (kernel, 'a) prog" where
  "fs_call p f = bnd (gets (\<lambda>k. cur_of k p)) (\<lambda>c. in_fs (f c))"

subsection \<open>The trapframe page\<close>

text \<open>Offsets of the fields of \<^verbatim>\<open>struct trapframe\<close>, and access to them through \<^verbatim>\<open>p->trapframe\<close>.\<close>

definition tf_kernel_satp :: u64 where [const_defs]: "tf_kernel_satp = 0"
definition tf_kernel_sp :: u64 where [const_defs]: "tf_kernel_sp = 8"
definition tf_kernel_trap :: u64 where [const_defs]: "tf_kernel_trap = 16"
definition tf_epc :: u64 where [const_defs]: "tf_epc = 24"
definition tf_kernel_hartid :: u64 where [const_defs]: "tf_kernel_hartid = 32"
definition tf_sp :: u64 where [const_defs]: "tf_sp = 48"
definition tf_a0 :: u64 where [const_defs]: "tf_a0 = 112"
definition tf_a1 :: u64 where [const_defs]: "tf_a1 = 120"
definition tf_a7 :: u64 where [const_defs]: "tf_a7 = 168"
definition tf_bytes :: u32 where [const_defs]: "tf_bytes = 288"

definition tf_get :: "nat \<Rightarrow> u64 \<Rightarrow> (kernel, u64) prog" where
  "tf_get p off = bnd (gets (\<lambda>k. p_trapframe (proc_at k p))) (\<lambda>tf. in_kmem (load_pte (tf + off)))"

definition tf_set :: "nat \<Rightarrow> u64 \<Rightarrow> u64 \<Rightarrow> (kernel, unit) prog" where
  "tf_set p off v = bnd (gets (\<lambda>k. p_trapframe (proc_at k p))) (\<lambda>tf. in_kmem (store_pte (tf + off) v))"

subsection \<open>Initialisation\<close>

definition KSTACK :: "nat \<Rightarrow> u64" where
  "KSTACK p = TRAMPOLINE - (of_nat p + 1) * 2 * PGSIZE"

definition proc_mapstacks :: "u64 \<Rightarrow> (kernel, unit) prog" where
  "proc_mapstacks kpgtbl = for_each [0..<NPROC] (\<lambda>p.
     bnd (in_kmem kalloc) (\<lambda>pa.
     if pa = 0 then panic ''kalloc''
     else in_kmem (kvmmap kpgtbl (KSTACK p) pa PGSIZE (PTE_R OR PTE_W))))"

definition procinit :: "(kernel, unit) prog" where
  "procinit = for_each [0..<NPROC] (\<lambda>p. modify (upd_proc p (\<lambda>x. x\<lparr>p_state := UNUSED, p_kstack := KSTACK p\<rparr>)))"

text \<open>\<^verbatim>\<open>nextpid\<close> is a C \<^verbatim>\<open>int\<close>: after \<^verbatim>\<open>0x7FFFFFFF\<close> the identifiers wrap around to negative numbers.\<close>

definition allocpid :: "(kernel, int) prog" where
  "allocpid = bnd (gets nextpid) (\<lambda>pid. andthen (modify (nextpid_update (\<lambda>n. sint (word_of_int (n + 1) :: u32)))) (ret pid))"

subsection \<open>Page tables and process slots\<close>

definition proc_pagetable :: "nat \<Rightarrow> (kernel, u64) prog" where
  "proc_pagetable p =
     bnd (gets k_trampoline) (\<lambda>trampoline.
     bnd (gets (\<lambda>k. p_trapframe (proc_at k p))) (\<lambda>tf. in_kmem (
       bnd uvmcreate (\<lambda>pagetable.
       if pagetable = 0 then ret 0
       else bnd (mappages pagetable TRAMPOLINE PGSIZE trampoline (PTE_R OR PTE_X)) (\<lambda>r.
         if r < 0 then andthen (uvmfree pagetable 0) (ret 0)
         else bnd (mappages pagetable TRAPFRAME PGSIZE tf (PTE_R OR PTE_W)) (\<lambda>r.
           if r < 0 then
             andthen (uvmunmap pagetable TRAMPOLINE 1 False) (andthen (uvmfree pagetable 0) (ret 0))
           else ret pagetable))))))"

definition proc_freepagetable :: "u64 \<Rightarrow> u64 \<Rightarrow> (kmem, unit) prog" where
  "proc_freepagetable pagetable sz =
     andthen (uvmunmap pagetable TRAMPOLINE 1 False)
     (andthen (uvmunmap pagetable TRAPFRAME 1 False)
     (uvmfree pagetable sz))"

definition freeproc :: "nat \<Rightarrow> (kernel, unit) prog" where
  "freeproc p =
     bnd (gets (\<lambda>k. proc_at k p)) (\<lambda>x.
     andthen (if p_trapframe x \<noteq> 0 then in_kmem (kfree (p_trapframe x)) else ret ())
     (andthen (modify (upd_proc p (p_trapframe_update (\<lambda>_. 0))))
     (andthen (if p_pagetable x \<noteq> 0 then in_kmem (proc_freepagetable (p_pagetable x) (p_sz x)) else ret ())
     (modify (upd_proc p (\<lambda>x. x\<lparr>p_pagetable := 0, p_sz := 0, p_pid := 0, p_parent := nullproc,
        p_name := (p_name x)[0 := 0], p_chan := None, p_killed := False, p_xstate := 0, p_state := UNUSED\<rparr>))))))"

primrec unused_slot :: "proc list \<Rightarrow> nat \<Rightarrow> nat option" where
  "unused_slot [] i = None"
| "unused_slot (x # xs) i = (if p_state x = UNUSED then Some i else unused_slot xs (Suc i))"

definition allocproc :: "(kernel, nat) prog" where
  "allocproc =
     bnd (gets (\<lambda>k. unused_slot (procs k) 0)) (\<lambda>r.
     case r of
       None \<Rightarrow> ret nullproc
     | Some p \<Rightarrow>
         bnd allocpid (\<lambda>pid.
         andthen (modify (upd_proc p (\<lambda>x. x\<lparr>p_pid := pid, p_state := USED\<rparr>)))
         (bnd (in_kmem kalloc) (\<lambda>tf.
          andthen (modify (upd_proc p (p_trapframe_update (\<lambda>_. tf))))
          (if tf = 0 then andthen (freeproc p) (ret nullproc)
           else bnd (proc_pagetable p) (\<lambda>pt.
             andthen (modify (upd_proc p (p_pagetable_update (\<lambda>_. pt))))
             (if pt = 0 then andthen (freeproc p) (ret nullproc)
              else bnd (gets k_forkret) (\<lambda>fr.
                andthen (modify (upd_proc p (\<lambda>x. x\<lparr>p_context :=
                  \<lparr>ctx_ra = fr, ctx_sp = p_kstack x + PGSIZE, ctx_s = replicate 12 0\<rparr>\<rparr>)))
                (ret p)))))))))"

definition growproc :: "nat \<Rightarrow> int \<Rightarrow> (kernel, int) prog" where
  "growproc p n =
     bnd (gets (\<lambda>k. proc_at k p)) (\<lambda>x.
     if n > 0 then
       bnd (in_kmem (uvmalloc (p_pagetable x) (p_sz x) (p_sz x + word_of_int n) PTE_W)) (\<lambda>sz.
       if sz = 0 then ret (- 1) else andthen (modify (upd_proc p (p_sz_update (\<lambda>_. sz)))) (ret 0))
     else if n < 0 then
       bnd (in_kmem (uvmdealloc (p_pagetable x) (p_sz x) (p_sz x + word_of_int n))) (\<lambda>sz.
       andthen (modify (upd_proc p (p_sz_update (\<lambda>_. sz)))) (ret 0))
     else ret 0)"

subsection \<open>Waking, killing and scheduling\<close>

definition wake_proc :: "chan \<Rightarrow> proc \<Rightarrow> proc" where
  "wake_proc ch x = (if p_state x = SLEEPING \<and> p_chan x = Some ch then x\<lparr>p_state := RUNNABLE\<rparr> else x)"

definition wakeup :: "nat \<Rightarrow> chan \<Rightarrow> (kernel, unit) prog" where
  "wakeup p ch = for_each [0..<NPROC] (\<lambda>q. if q \<noteq> p then modify (upd_proc q (wake_proc ch)) else ret ())"

text \<open>
  \<^verbatim>\<open>sched\<close> gives the CPU back to the scheduler. The conditions it checks on \<^verbatim>\<open>p->lock\<close>, \<^verbatim>\<open>noff\<close> and the
  interrupt flag are those of the lock model; the process state is checked here.
\<close>

definition sched :: "nat \<Rightarrow> (kernel, 'a) prog" where
  "sched p =
     bnd (gets (\<lambda>k. p_state (proc_at k p))) (\<lambda>st.
     if st = RUNNING then panic ''sched running'' else fails (Sleeps ''sched''))"

definition yield :: "nat \<Rightarrow> (kernel, unit) prog" where
  "yield p = andthen (modify (upd_proc p (p_state_update (\<lambda>_. RUNNABLE)))) (sched p)"

text \<open>
  \<^verbatim>\<open>sleep\<close> up to the context switch. All callers sleep in a loop that tests its condition again, so the
  process continues at the head of that loop; \<open>awake\<close> is what \<^verbatim>\<open>sleep\<close> does after the switch back.
\<close>

definition sleep :: "nat \<Rightarrow> chan \<Rightarrow> (kernel, 'a) prog" where
  "sleep p ch =
     andthen (modify (upd_proc p (\<lambda>x. x\<lparr>p_chan := Some ch, p_state := SLEEPING\<rparr>)))
     (sched p)"

definition awake :: "nat \<Rightarrow> (kernel, unit) prog" where
  "awake p = modify (upd_proc p (p_chan_update (\<lambda>_. None)))"

definition kill_proc :: "proc \<Rightarrow> proc" where
  "kill_proc x = (if p_state x = SLEEPING then x\<lparr>p_killed := True, p_state := RUNNABLE\<rparr> else x\<lparr>p_killed := True\<rparr>)"

primrec pid_slot :: "proc list \<Rightarrow> int \<Rightarrow> nat \<Rightarrow> nat option" where
  "pid_slot [] pid i = None"
| "pid_slot (x # xs) pid i = (if p_pid x = pid then Some i else pid_slot xs pid (Suc i))"

definition kill :: "int \<Rightarrow> (kernel, int) prog" where
  "kill pid =
     bnd (gets (\<lambda>k. pid_slot (procs k) pid 0)) (\<lambda>r.
     case r of
       Some p \<Rightarrow> andthen (modify (upd_proc p kill_proc)) (ret 0)
     | None \<Rightarrow> ret (- 1))"

definition setkilled :: "nat \<Rightarrow> (kernel, unit) prog" where
  "setkilled p = modify (upd_proc p (p_killed_update (\<lambda>_. True)))"

definition killed :: "nat \<Rightarrow> (kernel, bool) prog" where
  "killed p = gets (\<lambda>k. p_killed (proc_at k p))"

text \<open>
  One pass of \<^verbatim>\<open>scheduler\<close> on CPU \<open>c\<close>. \<open>run p\<close> stands for \<^verbatim>\<open>swtch(&c->context, &p->context)\<close>: what
  process \<open>p\<close> does to the kernel until it switches back.
\<close>

definition scheduler_pass :: "nat \<Rightarrow> (nat \<Rightarrow> kernel \<Rightarrow> kernel) \<Rightarrow> (kernel, unit) prog" where
  "scheduler_pass c run = for_each [0..<NPROC] (\<lambda>p.
     bnd (gets (\<lambda>k. p_state (proc_at k p))) (\<lambda>st.
     if st = RUNNABLE then
       andthen (modify (upd_proc p (p_state_update (\<lambda>_. RUNNING))))
       (andthen (modify (cpu_proc_update (\<lambda>cs. cs[c := p])))
       (andthen (modify (run p))
       (modify (cpu_proc_update (\<lambda>cs. cs[c := nullproc])))))
     else ret ()))"

end
