(* ===== verification/Printf.thy ===== *)
theory Printf
  imports Ulib
begin

text \<open>
  \<^verbatim>\<open>kernel/printf.c\<close> and \<^verbatim>\<open>user/printf.c\<close>: both format integers into a buffer of 16 bytes and interpret the same
  conversions, the kernel by looking ahead in the format and the user library with a small state
  machine. The result is the list of bytes handed to \<^verbatim>\<open>consputc\<close> or \<^verbatim>\<open>putc\<close>; \<open>None\<close> stands for undefined
  behaviour (a write past the buffer, or an argument of the wrong type).
\<close>

subsection \<open>Integers\<close>

definition ascii :: "string \<Rightarrow> u8 list" where
  "ascii s = map of_char s"

definition kdigits :: "u8 list" where "kdigits = ascii ''0123456789abcdef''"
definition udigits :: "u8 list" where "udigits = ascii ''0123456789ABCDEF''"

text \<open>
  The \<^verbatim>\<open>do\<close> loop of \<^verbatim>\<open>printint\<close>: the digits of \<open>x\<close>, least significant first. The base is 10 or 16 in every
  call; the test \<open>base < 2\<close> only makes the function total.
\<close>

function put_digits :: "u8 list \<Rightarrow> nat \<Rightarrow> nat \<Rightarrow> u8 list" where
  "put_digits digits base x =
     digits ! (x mod base) # (if x div base = 0 \<or> base < 2 then [] else put_digits digits base (x div base))"
  by pat_completeness auto
termination
  by (relation "measure (\<lambda>(_, _, x). x)") (auto intro!: div_less_dividend gr0I)

declare put_digits.simps [simp del]

text \<open>The buffer \<^verbatim>\<open>char buf[16]\<close> is printed from its end.\<close>

definition print_buf :: "u8 list \<Rightarrow> bool \<Rightarrow> u8 list option" where
  "print_buf buf neg = (let buf = (if neg then buf @ ascii ''-'' else buf) in if length buf \<le> 16 then Some (rev buf) else None)"

definition printint :: "u64 \<Rightarrow> nat \<Rightarrow> bool \<Rightarrow> u8 list option" where
  "printint xx base sign =
     (let sign = (sign \<and> xx <s 0);
          x = (if sign then - xx else xx)
      in print_buf (put_digits kdigits base (unat x)) sign)"

definition uprintint :: "u32 \<Rightarrow> nat \<Rightarrow> bool \<Rightarrow> u8 list option" where
  "uprintint xx base sg =
     (let neg = (sg \<and> xx <s 0);
          x = (if neg then - xx else xx)
      in print_buf (put_digits udigits base (unat x)) neg)"

text \<open>\<^verbatim>\<open>printptr\<close>: sixteen hexadecimal digits, from the top; \<open>x <<= 4\<close> in each round.\<close>

primrec ptr_digits :: "u8 list \<Rightarrow> nat \<Rightarrow> u64 \<Rightarrow> u8 list" where
  "ptr_digits digits 0 x = []"
| "ptr_digits digits (Suc i) x = digits ! unat (drop_bit 60 x) # ptr_digits digits i (push_bit 4 x)"

definition printptr :: "u64 \<Rightarrow> u8 list" where
  "printptr x = ascii ''0x'' @ ptr_digits kdigits 16 x"

definition uprintptr :: "u64 \<Rightarrow> u8 list" where
  "uprintptr x = ascii ''0x'' @ ptr_digits udigits 16 x"

subsection \<open>Formats\<close>

text \<open>The arguments behind \<^verbatim>\<open>va_list\<close>: an \<^verbatim>\<open>int\<close>, a \<^verbatim>\<open>uint64\<close>, or a string (null is \<open>None\<close>).\<close>

datatype arg = AInt u32 | ALong u64 | AStr "u8 list option"

datatype conv = CInt nat bool | CLong nat bool | CPtr | CStr | CPercent | COther u8

text \<open>
  The chain of tests on \<^verbatim>\<open>c0\<close>, \<^verbatim>\<open>c1\<close> and \<^verbatim>\<open>c2\<close>, the characters after \<open>%\<close>, which both printers share: the
  conversion and the number of further characters it takes.
\<close>

definition peek :: "u8 list \<Rightarrow> nat \<Rightarrow> u8" where
  "peek s i = (if i < length s then s ! i else 0)"

definition conversion :: "u8 \<Rightarrow> u8 \<Rightarrow> u8 \<Rightarrow> conv \<times> nat" where
  "conversion c0 c1 c2 =
     (let d = of_char CHR ''d''; l = of_char CHR ''l''; u = of_char CHR ''u''; x = of_char CHR ''x'' in
      if c0 = d then (CInt 10 True, 0)
      else if c0 = l \<and> c1 = d then (CLong 10 True, 1)
      else if c0 = l \<and> c1 = l \<and> c2 = d then (CLong 10 True, 2)
      else if c0 = u then (CInt 10 False, 0)
      else if c0 = l \<and> c1 = u then (CLong 10 False, 1)
      else if c0 = l \<and> c1 = l \<and> c2 = u then (CLong 10 False, 2)
      else if c0 = x then (CInt 16 False, 0)
      else if c0 = l \<and> c1 = x then (CLong 16 False, 1)
      else if c0 = l \<and> c1 = l \<and> c2 = x then (CLong 16 False, 2)
      else if c0 = of_char CHR ''p'' then (CPtr, 0)
      else if c0 = of_char CHR ''s'' then (CStr, 0)
      else if c0 = of_char CHR ''%'' then (CPercent, 0)
      else (COther c0, 0))"

definition null_string :: "u8 list option \<Rightarrow> u8 list" where
  "null_string s = (case s of None \<Rightarrow> ascii ''(null)'' | Some t \<Rightarrow> t)"

text \<open>What a conversion prints and which arguments it leaves, in the kernel and in user programs.\<close>

fun kconvert :: "conv \<Rightarrow> arg list \<Rightarrow> (u8 list \<times> arg list) option" where
  "kconvert (CInt base sign) (AInt v # ap) = map_option (\<lambda>s. (s, ap)) (printint (scast v) base sign)"
| "kconvert (CLong base sign) (ALong v # ap) = map_option (\<lambda>s. (s, ap)) (printint v base sign)"
| "kconvert CPtr (ALong v # ap) = Some (printptr v, ap)"
| "kconvert CStr (AStr s # ap) = Some (null_string s, ap)"
| "kconvert CPercent ap = Some (ascii ''%'', ap)"
| "kconvert (COther c) ap = Some (ascii ''%'' @ [c], ap)"
| "kconvert _ _ = None"

fun uconvert :: "conv \<Rightarrow> arg list \<Rightarrow> (u8 list \<times> arg list) option" where
  "uconvert (CInt base sg) (AInt v # ap) = map_option (\<lambda>s. (s, ap)) (uprintint v base sg)"
| "uconvert (CLong base sg) (ALong v # ap) = map_option (\<lambda>s. (s, ap)) (uprintint (ucast v) base sg)"
| "uconvert CPtr (ALong v # ap) = Some (uprintptr v, ap)"
| "uconvert CStr (AStr s # ap) = Some (null_string s, ap)"
| "uconvert CPercent ap = Some (ascii ''%'', ap)"
| "uconvert (COther c) ap = Some (ascii ''%'' @ [c], ap)"
| "uconvert _ _ = None"

text \<open>The kernel's \<^verbatim>\<open>printf\<close>: on \<open>%\<close> it looks at the next characters; a format that ends there stops it.\<close>

function printf :: "u8 list \<Rightarrow> arg list \<Rightarrow> u8 list option" where
  "printf fmt ap =
     (case fmt of
        [] \<Rightarrow> Some []
      | cx # rest \<Rightarrow>
          if cx \<noteq> of_char CHR ''%'' then map_option (\<lambda>out. cx # out) (printf rest ap)
          else if rest = [] then Some []
          else
            let (c, extra) = conversion (peek rest 0) (peek rest 1) (peek rest 2) in
            case kconvert c ap of
              None \<Rightarrow> None
            | Some (s, ap') \<Rightarrow> map_option (\<lambda>out. s @ out) (printf (drop (Suc extra) rest) ap'))"
  by pat_completeness auto
termination
  by (relation "measure (\<lambda>(fmt, _). length fmt)") auto

text \<open>The user library's \<^verbatim>\<open>vprintf\<close>: \<open>pct\<close> is \<^verbatim>\<open>state == '%'\<close>; each round takes one character, plus the extra ones.\<close>

function vprintf :: "bool \<Rightarrow> u8 list \<Rightarrow> arg list \<Rightarrow> u8 list option" where
  "vprintf pct fmt ap =
     (case fmt of
        [] \<Rightarrow> Some []
      | c0 # rest \<Rightarrow>
          if \<not> pct then
            if c0 = of_char CHR ''%'' then vprintf True rest ap
            else map_option (\<lambda>out. c0 # out) (vprintf False rest ap)
          else
            let (c, extra) = conversion c0 (peek fmt 1) (peek fmt 2) in
            case uconvert c ap of
              None \<Rightarrow> None
            | Some (s, ap') \<Rightarrow> map_option (\<lambda>out. s @ out) (vprintf False (drop extra rest) ap'))"
  by pat_completeness auto
termination
  by (relation "measure (\<lambda>(_, fmt, _). length fmt)") auto

declare printf.simps [simp del] vprintf.simps [simp del]

text \<open>\<^verbatim>\<open>panic\<close> prints the message and stops.\<close>

definition panic_output :: "u8 list \<Rightarrow> u8 list option" where
  "panic_output s =
     (case (printf (ascii ''panic: '') [], printf (ascii ''%s'' @ [10]) [AStr (Some s)]) of
        (Some a, Some b) \<Rightarrow> Some (a @ b)
      | _ \<Rightarrow> None)"

subsection \<open>Decimal digits\<close>

text \<open>The number a string of decimal digits denotes, and a string with an optional minus sign.\<close>

definition dec_value :: "u8 list \<Rightarrow> nat" where
  "dec_value s = foldl (\<lambda>n c. n * 10 + (unat c - 48)) 0 s"

definition sdec_value :: "u8 list \<Rightarrow> int" where
  "sdec_value s = (if s \<noteq> [] \<and> hd s = 45 then - int (dec_value (tl s)) else int (dec_value s))"

lemma dec_value_snoc: "dec_value (s @ [c]) = dec_value s * 10 + (unat c - 48)"
  by (simp add: dec_value_def)

definition decimal :: "u8 list \<Rightarrow> bool" where
  "decimal digits \<longleftrightarrow> list_all (\<lambda>d. unat (digits ! d) = 48 + d) [0..<10]"

lemma decimal_tables: "decimal kdigits" "decimal udigits"
  by (simp_all add: decimal_def kdigits_def udigits_def ascii_def upt_rec)

lemma decimal_digit: "decimal digits \<Longrightarrow> d < 10 \<Longrightarrow> unat (digits ! d) = 48 + d"
  by (simp add: decimal_def list_all_iff)

lemma length_put_digits:
  assumes "2 \<le> base"
  shows "length (put_digits digits base x) \<le> Suc k \<longleftrightarrow> x < base ^ Suc k"
  using assms
proof (induction digits base x arbitrary: k rule: put_digits.induct)
  case (1 digits base x)
  show ?case
  proof (cases "x div base = 0")
    case True
    then have "x < base" using 1(2) by (simp add: div_eq_0_iff)
    moreover have "base ^ 1 \<le> base ^ Suc k" using 1(2) by (intro power_increasing) auto
    ultimately have "x < base ^ Suc k" by (simp del: power_Suc)
    then show ?thesis using True by (simp add: put_digits.simps [of digits base x])
  next
    case False
    then have ge: "base \<le> x" using 1(2) by (simp add: div_eq_0_iff)
    show ?thesis
    proof (cases k)
      case 0
      have "put_digits digits base (x div base) \<noteq> []" by (subst put_digits.simps) simp
      then show ?thesis using 0 False ge 1(2) by (simp add: put_digits.simps [of digits base x])
    next
      case (Suc j)
      have "length (put_digits digits base (x div base)) \<le> Suc j \<longleftrightarrow> x div base < base ^ Suc j"
        using False 1(2) by (intro 1(1)) auto
      also have "\<dots> \<longleftrightarrow> x < base ^ Suc k" using 1(2) Suc by (simp add: div_less_iff_less_mult mult.commute)
      finally show ?thesis using False Suc 1(2) by (simp add: put_digits.simps [of digits base x])
    qed
  qed
qed

lemma put_digits_decimal:
  assumes "decimal digits"
  shows "dec_value (rev (put_digits digits 10 x)) = x \<and> (\<forall>c \<in> set (put_digits digits 10 x). 48 \<le> c \<and> c \<le> 57)"
  using assms
proof (induction digits "10 :: nat" x rule: put_digits.induct)
  case (1 digits x)
  have d: "unat (digits ! (x mod 10)) = 48 + x mod 10" using decimal_digit [OF 1(2)] by simp
  then have r: "48 \<le> digits ! (x mod 10) \<and> digits ! (x mod 10) \<le> 57"
    by (simp add: word_le_nat_alt)
  show ?case
  proof (cases "x div 10 = 0")
    case True
    then show ?thesis using d r
      by (simp add: put_digits.simps [of digits 10 x] dec_value_def)
  next
    case False
    then show ?thesis using 1 d r
      by (simp add: put_digits.simps [of digits 10 x] dec_value_snoc)
  qed
qed

lemma put_digits_not_Nil [simp]: "put_digits digits base x \<noteq> []"
  by (subst put_digits.simps) simp

lemma print_buf_value:
  assumes "decimal digits" and "print_buf (put_digits digits 10 x) neg = Some s"
  shows "sdec_value s = (if neg then - int x else int x)"
proof -
  let ?d = "put_digits digits 10 x"
  have v: "dec_value (rev ?d) = x" and c: "\<forall>c \<in> set ?d. 48 \<le> c"
    using put_digits_decimal [OF assms(1), of x] by simp_all
  have s: "s = (if neg then ascii ''-'' @ rev ?d else rev ?d)"
    using assms(2) by (auto simp: print_buf_def Let_def ascii_def split: if_splits)
  have "hd (rev ?d) \<in> set ?d" by (metis hd_in_set put_digits_not_Nil rev_is_Nil_conv set_rev)
  then have "hd (rev ?d) \<noteq> 45" using c by (fastforce simp: word_le_nat_alt)
  then show ?thesis using s v by (auto simp: sdec_value_def ascii_def)
qed

text \<open>
  C18: the kernel's \<^verbatim>\<open>printint\<close> in base 10 stays within its buffer of 16 bytes exactly for unsigned values below
  $10^{16}$ and negative values above $-10^{15}$; every larger value, among them every negative \<^verbatim>\<open>int\<close>
  printed with \<open>%u\<close>, writes past the end of \<^verbatim>\<open>buf\<close>.
\<close>

theorem printint_overflows_iff:
  "printint xx 10 sign = None \<longleftrightarrow>
     (if sign \<and> xx <s 0 then 10 ^ 15 \<le> unat (- xx) else 10 ^ 16 \<le> unat xx)"
  using length_put_digits [of 10 kdigits "unat (- xx)" 14] length_put_digits [of 10 kdigits "unat xx" 15]
  by (auto simp: printint_def print_buf_def Let_def ascii_def not_less)

lemma print_buf_small:
  assumes "decimal digits" and "x < 10 ^ 15"
  shows "\<exists>s. print_buf (put_digits digits 10 x) neg = Some s"
  using length_put_digits [of 10 digits x 14] assms(2) by (auto simp: print_buf_def Let_def ascii_def)

text \<open>
  Whatever \<^verbatim>\<open>printint\<close> prints in base 10 as a signed number denotes the value it was given, the most
  negative one included (its magnitude is computed in an unsigned variable).
\<close>

lemma printint_value:
  assumes "printint xx 10 True = Some s"
  shows "sdec_value s = sint xx"
proof -
  let ?neg = "xx <s 0"
  have "sdec_value s = (if ?neg then - int (unat (- xx)) else int (unat xx))"
    using assms print_buf_value [OF decimal_tables(1), of "unat (if ?neg then - xx else xx)" ?neg s]
    by (auto simp: printint_def Let_def)
  then show ?thesis by (simp add: sint_sign)
qed

text \<open>\<^verbatim>\<open>atoi\<close> on a string of digits.\<close>

lemma atoi_digits:
  assumes "\<forall>c \<in> set s. 48 \<le> c \<and> c \<le> 57"
  shows "atoi_loop s (of_nat k) = of_nat (foldl (\<lambda>n c. n * 10 + (unat c - 48)) k s)"
  using assms
proof (induction s arbitrary: k)
  case (Cons c s)
  have "48 \<le> unat c" using Cons.prems by (simp add: word_le_nat_alt)
  then have "(of_nat (k * 10 + (unat c - 48)) :: u32) = of_nat k * 10 + ucast c - 48"
    by (simp add: of_nat_diff)
  then show ?case using Cons.prems Cons.IH [of "k * 10 + (unat c - 48)"] by (simp add: add_diff_eq)
qed simp

text \<open>
  C19: a user program that prints a non-negative \<^verbatim>\<open>int\<close> with \<open>%d\<close> and reads the digits back with \<^verbatim>\<open>atoi\<close> gets
  the same number.
\<close>

theorem atoi_uprintint:
  assumes "0 \<le> sint n"
  shows "map_option atoi (uprintint n 10 True) = Some n"
proof -
  have pos: "\<not> n <s 0" using assms by (simp add: word_sless_alt)
  have "unat n < 10 ^ 15" using unat_bound [of n] by simp
  then obtain s where s: "print_buf (put_digits udigits 10 (unat n)) False = Some s"
    using print_buf_small [OF decimal_tables(2)] by blast
  then have "s = rev (put_digits udigits 10 (unat n))" by (simp add: print_buf_def Let_def split: if_splits)
  then have "atoi s = n"
    using put_digits_decimal [OF decimal_tables(2), of "unat n"] atoi_digits [of s 0]
    by (simp add: atoi_def dec_value_def)
  then show ?thesis using s pos by (simp add: uprintint_def)
qed

theorem atoi_uprintint_witness:
  "0 \<le> sint (2024 :: u32) \<and> map_option atoi (uprintint 2024 10 True) = Some 2024"
  using atoi_uprintint [of 2024] by simp

subsection \<open>The two printers\<close>

text \<open>The conversions a format asks for.\<close>

function convs :: "u8 list \<Rightarrow> conv list" where
  "convs fmt =
     (case fmt of
        [] \<Rightarrow> []
      | cx # rest \<Rightarrow>
          if cx \<noteq> of_char CHR ''%'' then convs rest
          else if rest = [] then []
          else let (c, extra) = conversion (peek rest 0) (peek rest 1) (peek rest 2)
               in c # convs (drop (Suc extra) rest))"
  by pat_completeness auto
termination
  by (relation "measure length") auto

declare convs.simps [simp del]

fun shared :: "conv \<Rightarrow> bool" where
  "shared (CInt base sign) = (base = 10 \<and> sign)"
| "shared CStr = True"
| "shared CPercent = True"
| "shared (COther c) = True"
| "shared _ = False"

lemma put_digits_tables:
  "decimal ds \<Longrightarrow> decimal ds' \<Longrightarrow> put_digits ds 10 x = put_digits ds' 10 x"
proof (induction ds "10 :: nat" x rule: put_digits.induct)
  case (1 ds x)
  have "ds ! (x mod 10) = ds' ! (x mod 10)"
    using decimal_digit [OF 1(2), of "x mod 10"] decimal_digit [OF 1(3), of "x mod 10"] by (simp add: word_unat_eq_iff)
  then show ?case using 1 by (simp add: put_digits.simps [of ds 10 x] put_digits.simps [of ds' 10 x])
qed

lemma scast_magnitude:
  fixes v :: u32
  defines "w \<equiv> scast v :: u64"
  shows "w <s 0 \<longleftrightarrow> v <s 0" and "unat (if w <s 0 then - w else w) = unat (if v <s 0 then - v else v)"
proof -
  have "sint w = signed_take_bit 63 (sint v)" by (simp add: w_def signed_scast_eq)
  then have s: "sint w = sint v"
    using sint_ge [of v] sint_lt [of v] by (simp add: signed_take_bit_int_eq_self)
  then show n: "w <s 0 \<longleftrightarrow> v <s 0" by (simp add: word_sless_alt)
  have "int (unat (if w <s 0 then - w else w)) = int (unat (if v <s 0 then - v else v))"
    using sint_sign [of w] sint_sign [of v] s n by (simp split: if_splits)
  then show "unat (if w <s 0 then - w else w) = unat (if v <s 0 then - v else v)"
    by (simp only: of_nat_eq_iff)
qed

lemma shared_convert: "shared c \<Longrightarrow> uconvert c ap = kconvert c ap"
proof (cases "(c, ap)" rule: kconvert.cases)
  case (1 base sign v ap')
  moreover assume "shared c"
  ultimately show ?thesis
    using scast_magnitude [of v] put_digits_tables [OF decimal_tables]
    by (simp add: printint_def uprintint_def Let_def)
qed auto

lemma pct_unfold:
  assumes "rest \<noteq> []" and "conversion (peek rest 0) (peek rest 1) (peek rest 2) = (c, extra)"
  shows "convs (37 # rest) = c # convs (drop (Suc extra) rest)"
    and "printf (37 # rest) ap = (case kconvert c ap of None \<Rightarrow> None
      | Some (s, ap') \<Rightarrow> map_option (\<lambda>out. s @ out) (printf (drop (Suc extra) rest) ap'))"
    and "vprintf False (37 # rest) ap = (case uconvert c ap of None \<Rightarrow> None
      | Some (s, ap') \<Rightarrow> map_option (\<lambda>out. s @ out) (vprintf False (drop (Suc extra) rest) ap'))"
proof -
  obtain c0 r where r: "rest = c0 # r" using assms(1) by (cases rest) auto
  then have p: "peek rest 0 = c0" by (simp add: peek_def)
  show "convs (37 # rest) = c # convs (drop (Suc extra) rest)"
    using assms by (simp add: convs.simps [of "37 # rest"])
  show "printf (37 # rest) ap = (case kconvert c ap of None \<Rightarrow> None
      | Some (s, ap') \<Rightarrow> map_option (\<lambda>out. s @ out) (printf (drop (Suc extra) rest) ap'))"
    using assms by (simp add: printf.simps [of "37 # rest"])
  have "vprintf False (37 # rest) ap = vprintf True rest ap" by (simp add: vprintf.simps [of _ "37 # rest"])
  also have "\<dots> = (case uconvert c ap of None \<Rightarrow> None
      | Some (s, ap') \<Rightarrow> map_option (\<lambda>out. s @ out) (vprintf False (drop (Suc extra) rest) ap'))"
    using assms(2) p unfolding r by (subst vprintf.simps) (simp split: option.split)
  finally show "vprintf False (37 # rest) ap = (case uconvert c ap of None \<Rightarrow> None
      | Some (s, ap') \<Rightarrow> map_option (\<lambda>out. s @ out) (vprintf False (drop (Suc extra) rest) ap'))" .
qed

text \<open>
  C17: for formats that use \<open>%d\<close>, \<open>%s\<close>, \<open>%%\<close> and unknown conversions only, the state machine of the user
  library's \<^verbatim>\<open>vprintf\<close> prints the same bytes as the kernel's \<^verbatim>\<open>printf\<close>, with the same arguments.
\<close>

theorem vprintf_printf:
  assumes "list_all shared (convs fmt)"
  shows "vprintf False fmt ap = printf fmt ap"
  using assms
proof (induction fmt ap rule: printf.induct)
  case (1 fmt ap)
  show ?case
  proof (cases fmt)
    case (Cons cx rest)
    consider "cx \<noteq> 37" | "cx = 37" "rest = []" | "cx = 37" "rest \<noteq> []" by blast
    then show ?thesis
    proof cases
      case 1
      then show ?thesis using "1.IH"(1) [OF Cons] "1.prems" Cons
        by (simp add: printf.simps [of "cx # rest"] vprintf.simps [of _ "cx # rest"] convs.simps [of "cx # rest"])
    next
      case 2
      then show ?thesis using Cons
        by (simp add: printf.simps [of "[37]"] vprintf.simps [of _ "[37]"] vprintf.simps [of _ "[]"])
    next
      case 3
      obtain c extra where c: "conversion (peek rest 0) (peek rest 1) (peek rest 2) = (c, extra)" by fastforce
      have sh: "shared c" "list_all shared (convs (drop (Suc extra) rest))"
        using "1.prems" Cons 3 pct_unfold(1) [OF 3(2) c] by simp_all
      have "vprintf False (drop (Suc extra) rest) ap' = printf (drop (Suc extra) rest) ap'"
        if "kconvert c ap = Some (s, ap')" for s ap'
        using "1.IH"(2) [OF Cons _ 3(2) c [symmetric] refl that] 3(1) sh(2) by simp
      then show ?thesis using Cons 3 pct_unfold(2,3) [OF 3(2) c, of ap] shared_convert [OF sh(1), of ap]
        by (auto split: option.split)
    qed
  qed (simp add: printf.simps vprintf.simps)
qed

theorem vprintf_printf_witness:
  "vprintf False (ascii ''%d: %s%%'') [AInt 7, AStr None] = printf (ascii ''%d: %s%%'') [AInt 7, AStr None]"
  by (rule vprintf_printf) (simp add: convs.simps conversion_def peek_def ascii_def)

text \<open>
  The \<open>%ld\<close>, \<open>%lu\<close> and \<open>%lx\<close> conversions of the user library print only the low 32 bits of their 64-bit
  argument, because its \<^verbatim>\<open>printint\<close> takes an \<^verbatim>\<open>int\<close>.
\<close>

theorem vprintf_long_truncates:
  "vprintf False (ascii ''%lu'') [ALong v] = vprintf False (ascii ''%u'') [AInt (ucast v)]"
  by (cases "uprintint (ucast v) 10 False") (simp_all add: vprintf.simps ascii_def conversion_def peek_def)

end
