(* ===== verification/Console.thy ===== *)
theory Console
  imports Proc Printf
begin

text \<open>
  \<^verbatim>\<open>kernel/uart.c\<close> and \<^verbatim>\<open>kernel/console.c\<close>. Of the UART device the model has the received bytes not yet read
  (\<^verbatim>\<open>LSR_RX_READY\<close> is set while there are some), the number of bytes the transmit register still takes
  (\<^verbatim>\<open>LSR_TX_IDLE\<close> is set while it is positive) and the bytes written to \<^verbatim>\<open>THR\<close>. \<open>p\<close> is the process that runs
  on the CPU, null in the scheduler.
\<close>

definition UART_TX_BUF_SIZE :: nat where [const_defs]: "UART_TX_BUF_SIZE = 32"
definition INPUT_BUF_SIZE :: nat where [const_defs]: "INPUT_BUF_SIZE = 128"
definition BACKSPACE :: int where [const_defs]: "BACKSPACE = 256"
definition CONSOLE :: nat where [const_defs]: "CONSOLE = 1"

abbreviation upd_uart :: "(uart \<Rightarrow> uart) \<Rightarrow> (kernel, unit) prog" where
  "upd_uart f \<equiv> modify (kuart_update f)"

abbreviation upd_cons :: "(cons \<Rightarrow> cons) \<Rightarrow> (kernel, unit) prog" where
  "upd_cons f \<equiv> modify (kcons_update f)"

subsection \<open>UART\<close>

text \<open>The registers of the device are numbered; \<open>uartinit\<close> is the sequence of its register writes.\<close>

definition uartinit :: "(nat \<times> u8) list" where
  "uartinit =
     (let IER = 1; FCR = 2; LCR = 3; LCR_BAUD_LATCH = 128; LCR_EIGHT_BITS = 3; FCR_FIFO_ENABLE = 1; FCR_FIFO_CLEAR = 6;
          IER_TX_ENABLE = 2; IER_RX_ENABLE = 1
      in [(IER, 0), (LCR, LCR_BAUD_LATCH), (0, 3), (1, 0), (LCR, LCR_EIGHT_BITS), (FCR, FCR_FIFO_ENABLE OR FCR_FIFO_CLEAR),
          (IER, IER_TX_ENABLE OR IER_RX_ENABLE)])"

definition write_thr :: "u8 \<Rightarrow> uart \<Rightarrow> uart" where
  "write_thr c u = u\<lparr>sent := sent u @ [c], tx_room := tx_room u - 1\<rparr>"

text \<open>The wait of \<^verbatim>\<open>uartputc_sync\<close> for an idle transmitter ends when the device has sent a byte.\<close>

definition uartputc_sync :: "u8 \<Rightarrow> (kernel, unit) prog" where
  "uartputc_sync c =
     bnd (gets panicked) (\<lambda>b.
     if b then fails (Spins ''uartputc_sync'') else upd_uart (write_thr c))"

primrec uartstart_loop :: "nat \<Rightarrow> nat \<Rightarrow> (kernel, unit) prog" where
  "uartstart_loop 0 p = fails (Fault ''uartstart: out of fuel'')"
| "uartstart_loop (Suc fuel) p =
     bnd (gets kuart) (\<lambda>u.
     if tx_w u = tx_r u then ret ()
     else if tx_room u = 0 then ret ()
     else
       let c = tx_buf u ! (unat (tx_r u) mod UART_TX_BUF_SIZE) in
       andthen (upd_uart (tx_r_update (\<lambda>r. r + 1)))
       (andthen (wakeup p Ch_uart_tx_r)
       (andthen (upd_uart (write_thr c))
       (uartstart_loop fuel p))))"

definition uartstart :: "nat \<Rightarrow> (kernel, unit) prog" where
  "uartstart p = bnd (gets (\<lambda>k. tx_room (kuart k))) (\<lambda>n. uartstart_loop (Suc n) p)"

definition uartputc :: "nat \<Rightarrow> u8 \<Rightarrow> (kernel, unit) prog" where
  "uartputc p c =
     bnd (gets panicked) (\<lambda>b.
     if b then fails (Spins ''uartputc'')
     else bnd (gets kuart) (\<lambda>u.
       if tx_w u = tx_r u + of_nat UART_TX_BUF_SIZE then sleep p Ch_uart_tx_r
       else
         andthen (upd_uart (\<lambda>u. u\<lparr>tx_buf := (tx_buf u)[unat (tx_w u) mod UART_TX_BUF_SIZE := c]\<rparr>))
         (andthen (upd_uart (tx_w_update (\<lambda>w. w + 1)))
         (uartstart p))))"

definition uartgetc :: "(kernel, int) prog" where
  "uartgetc =
     bnd (gets (\<lambda>k. rx (kuart k))) (\<lambda>bs.
     case bs of
       [] \<Rightarrow> ret (- 1)
     | b # bs' \<Rightarrow> andthen (upd_uart (rx_update (\<lambda>_. bs'))) (ret (uint b)))"

subsection \<open>Console output\<close>

definition consputc :: "int \<Rightarrow> (kernel, unit) prog" where
  "consputc c =
     (if c = BACKSPACE then
        andthen (uartputc_sync 8) (andthen (uartputc_sync 32) (uartputc_sync 8))
      else uartputc_sync (word_of_int c))"

text \<open>Kernel messages: the bytes of \<^verbatim>\<open>printf\<close>, one by one through \<^verbatim>\<open>consputc\<close>.\<close>

definition kprintf :: "string \<Rightarrow> arg list \<Rightarrow> (kernel, unit) prog" where
  "kprintf fmt ap =
     (case printf (ascii fmt) ap of
        None \<Rightarrow> fails (Fault ''printf'')
      | Some out \<Rightarrow> for_each out (\<lambda>c. consputc (uint c)))"

fun state_name :: "procstate \<Rightarrow> string" where
  "state_name UNUSED = ''unused''"
| "state_name USED = ''used''"
| "state_name SLEEPING = ''sleep ''"
| "state_name RUNNABLE = ''runble''"
| "state_name RUNNING = ''run   ''"
| "state_name ZOMBIE = ''zombie''"

definition procdump :: "(kernel, unit) prog" where
  "procdump =
     andthen (for_each (ascii [CHR 0x0A]) (\<lambda>c. consputc (uint c)))
     (for_each [0..<NPROC] (\<lambda>q.
        bnd (gets (\<lambda>k. proc_at k q)) (\<lambda>x.
        if p_state x = UNUSED then ret ()
        else andthen
          (kprintf ''%d %s %s'' [AInt (word_of_int (p_pid x)), AStr (Some (ascii (state_name (p_state x)))),
             AStr (Some (takeWhile (\<lambda>c. c \<noteq> 0) (p_name x)))])
          (kprintf [CHR 0x0A] []))))"

text \<open>\<^verbatim>\<open>consolewrite\<close>: \<open>consolewrite_from i\<close> is its loop from byte \<open>i\<close> on.\<close>

primrec consolewrite_from :: "nat \<Rightarrow> nat \<Rightarrow> place \<Rightarrow> int \<Rightarrow> int \<Rightarrow> (kernel, int) prog" where
  "consolewrite_from 0 p src n i = fails (Fault ''consolewrite: out of fuel'')"
| "consolewrite_from (Suc fuel) p src n i =
     (if i < n then
        bnd (fs_call p (\<lambda>c. either_copyin c (advance src (word_of_int i)) 1)) (\<lambda>(r, bs).
        if r = - 1 then ret i
        else andthen (uartputc p (bs ! 0)) (consolewrite_from fuel p src n (i + 1)))
      else ret i)"

definition consolewrite :: "nat \<Rightarrow> place \<Rightarrow> int \<Rightarrow> (kernel, int) prog" where
  "consolewrite p src n = consolewrite_from (Suc (nat n)) p src n 0"

subsection \<open>Console input\<close>

text \<open>
  \<^verbatim>\<open>consoleread\<close>. \<open>target\<close> is the number of bytes asked for and \<open>n\<close> the number still missing; the inner
  \<^verbatim>\<open>while\<close> loop sleeps until there is input.
\<close>

primrec consoleread_loop :: "nat \<Rightarrow> nat \<Rightarrow> int \<Rightarrow> place \<Rightarrow> int \<Rightarrow> (kernel, int) prog" where
  "consoleread_loop 0 p target dst n = fails (Fault ''consoleread: out of fuel'')"
| "consoleread_loop (Suc fuel) p target dst n =
     (if n > 0 then
        bnd (gets kcons) (\<lambda>c.
        if c_r c = c_w c then
          bnd (killed p) (\<lambda>kl. if kl then ret (- 1) else sleep p Ch_cons_r)
        else
          let b = c_buf c ! (unat (c_r c) mod INPUT_BUF_SIZE) in
          andthen (upd_cons (c_r_update (\<lambda>r. r + 1)))
          (if b = 4 then
             andthen (if n < target then upd_cons (c_r_update (\<lambda>r. r - 1)) else ret ()) (ret (target - n))
           else
             bnd (fs_call p (\<lambda>cu. either_copyout cu dst [b])) (\<lambda>r.
             if r = - 1 then ret (target - n)
             else if b = 10 then ret (target - (n - 1))
             else consoleread_loop fuel p target (advance dst 1) (n - 1))))
      else ret (target - n))"

definition consoleread :: "nat \<Rightarrow> place \<Rightarrow> int \<Rightarrow> (kernel, int) prog" where
  "consoleread p dst n = consoleread_loop (Suc (nat n)) p n dst n"

text \<open>The loop of control-U: it goes back to the last newline or to the text already given to readers.\<close>

primrec kill_line :: "nat \<Rightarrow> (kernel, unit) prog" where
  "kill_line 0 = fails (Fault ''consoleintr: out of fuel'')"
| "kill_line (Suc fuel) =
     bnd (gets kcons) (\<lambda>c.
     if c_e c \<noteq> c_w c \<and> c_buf c ! (unat (c_e c - 1) mod INPUT_BUF_SIZE) \<noteq> 10 then
       andthen (upd_cons (c_e_update (\<lambda>e. e - 1)))
       (andthen (consputc BACKSPACE)
       (kill_line fuel))
     else ret ())"

definition consoleintr :: "nat \<Rightarrow> int \<Rightarrow> (kernel, unit) prog" where
  "consoleintr p c =
     (if c = 16 then procdump
      else if c = 21 then bnd (gets kcons) (\<lambda>s. kill_line (Suc (unat (c_e s - c_w s))))
      else if c = 8 \<or> c = 127 then
        bnd (gets kcons) (\<lambda>s.
        if c_e s \<noteq> c_w s then andthen (upd_cons (c_e_update (\<lambda>e. e - 1))) (consputc BACKSPACE) else ret ())
      else
        bnd (gets kcons) (\<lambda>s.
        if c \<noteq> 0 \<and> unat (c_e s - c_r s) < INPUT_BUF_SIZE then
          let c = (if c = 13 then 10 else c) in
          andthen (consputc c)
          (andthen (upd_cons (\<lambda>s. s\<lparr>c_buf := (c_buf s)[unat (c_e s) mod INPUT_BUF_SIZE := word_of_int c], c_e := c_e s + 1\<rparr>))
          (bnd (gets kcons) (\<lambda>s.
           if c = 10 \<or> c = 4 \<or> unat (c_e s - c_r s) = INPUT_BUF_SIZE then
             andthen (upd_cons (c_w_update (\<lambda>_. c_e s))) (wakeup p Ch_cons_r)
           else ret ())))
        else ret ()))"

definition consoleinit :: "(kernel, unit) prog" where
  "consoleinit = modify (\<lambda>k. k\<lparr>devsw_read := (devsw_read k)[CONSOLE := Some Console],
     devsw_write := (devsw_write k)[CONSOLE := Some Console]\<rparr>)"

text \<open>\<^verbatim>\<open>uartintr\<close>: received bytes go to the console, then the transmitter is fed.\<close>

primrec uartintr_loop :: "nat \<Rightarrow> nat \<Rightarrow> (kernel, unit) prog" where
  "uartintr_loop 0 p = fails (Fault ''uartintr: out of fuel'')"
| "uartintr_loop (Suc fuel) p =
     bnd uartgetc (\<lambda>c.
     if c = - 1 then ret ()
     else andthen (consoleintr p c) (uartintr_loop fuel p))"

definition uartintr :: "nat \<Rightarrow> (kernel, unit) prog" where
  "uartintr p =
     andthen (bnd (gets (\<lambda>k. rx (kuart k))) (\<lambda>bs. uartintr_loop (Suc (length bs)) p))
     (uartstart p)"

end
