(* ===== verification/Filetab.thy ===== *)
theory Filetab
  imports Console
begin

text \<open>
  \<^verbatim>\<open>kernel/file.c\<close> and \<^verbatim>\<open>kernel/pipe.c\<close>: open files, their reference counts, and the dispatch of \<^verbatim>\<open>read\<close> and
  \<^verbatim>\<open>write\<close> to pipes, devices and inodes. A pipe structure is kept under the address of the page it was
  allocated in. A call that would sleep ends with \<open>Sleeps\<close>; the loop it sleeps in is a definition of its
  own, so that it can be entered again.
\<close>

definition PIPESIZE :: nat where [const_defs]: "PIPESIZE = 512"

abbreviation file_at :: "kernel \<Rightarrow> nat \<Rightarrow> file_obj" where
  "file_at k f \<equiv> ftable k ! f"

definition upd_file :: "nat \<Rightarrow> (file_obj \<Rightarrow> file_obj) \<Rightarrow> kernel \<Rightarrow> kernel" where
  "upd_file f g k = k\<lparr>ftable := (ftable k)[f := g (ftable k ! f)]\<rparr>"

definition upd_pipe :: "u64 \<Rightarrow> (pipe \<Rightarrow> pipe) \<Rightarrow> kernel \<Rightarrow> kernel" where
  "upd_pipe pi g k = k\<lparr>pipes := (pipes k)(pi := g (pipes k pi))\<rparr>"

subsection \<open>Allocating and sharing files\<close>

primrec free_file :: "file_obj list \<Rightarrow> nat \<Rightarrow> nat option" where
  "free_file [] i = None"
| "free_file (x # xs) i = (if f_ref x = 0 then Some i else free_file xs (Suc i))"

definition filealloc :: "(kernel, nat) prog" where
  "filealloc =
     bnd (gets (\<lambda>k. free_file (ftable k) 0)) (\<lambda>r.
     case r of
       Some f \<Rightarrow> andthen (modify (upd_file f (f_ref_update (\<lambda>_. 1)))) (ret f)
     | None \<Rightarrow> ret nullfile)"

definition filedup :: "nat \<Rightarrow> (kernel, nat) prog" where
  "filedup f =
     bnd (gets (\<lambda>k. f_ref (file_at k f))) (\<lambda>r.
     if r < 1 then panic ''filedup''
     else andthen (modify (upd_file f (f_ref_update (\<lambda>n. n + 1)))) (ret f))"

subsection \<open>Closing\<close>

definition pipeclose :: "nat \<Rightarrow> u64 \<Rightarrow> bool \<Rightarrow> (kernel, unit) prog" where
  "pipeclose p pi writable =
     andthen
       (if writable then
          andthen (modify (upd_pipe pi (writeopen_update (\<lambda>_. False)))) (wakeup p (Ch_nread pi))
        else
          andthen (modify (upd_pipe pi (readopen_update (\<lambda>_. False)))) (wakeup p (Ch_nwrite pi)))
     (bnd (gets (\<lambda>k. pipes k pi)) (\<lambda>x.
      if \<not> readopen x \<and> \<not> writeopen x then in_kmem (kfree pi) else ret ()))"

text \<open>The transaction around \<^verbatim>\<open>iput\<close> that several callers use.\<close>

definition iput_op :: "nat \<Rightarrow> nat \<Rightarrow> (kernel, unit) prog" where
  "iput_op p ip =
     fs_call p (\<lambda>c. andthen (in_log begin_op) (andthen (iput c ip) (in_log (end_op (cpid c)))))"

definition fileclose :: "nat \<Rightarrow> nat \<Rightarrow> (kernel, unit) prog" where
  "fileclose p f =
     bnd (gets (\<lambda>k. file_at k f)) (\<lambda>x.
     if f_ref x < 1 then panic ''fileclose''
     else
       andthen (modify (upd_file f (f_ref_update (\<lambda>n. n - 1))))
       (if f_ref x - 1 > 0 then ret ()
        else
          andthen (modify (upd_file f (\<lambda>x. x\<lparr>f_ref := 0, f_type := FD_NONE\<rparr>)))
          (if f_type x = FD_PIPE then pipeclose p (f_pipe x) (f_writable x)
           else if f_type x = FD_INODE \<or> f_type x = FD_DEVICE then iput_op p (f_ip x)
           else ret ())))"

subsection \<open>Pipes\<close>

text \<open>\<^verbatim>\<open>pipealloc\<close> returns its result and the two file pointers \<^verbatim>\<open>*f0\<close> and \<^verbatim>\<open>*f1\<close>; \<open>pipe_bad\<close> is the code at \<^verbatim>\<open>bad\<close>.\<close>

definition pipe_bad :: "nat \<Rightarrow> u64 \<Rightarrow> nat \<Rightarrow> nat \<Rightarrow> (kernel, int \<times> nat \<times> nat) prog" where
  "pipe_bad p pi f0 f1 =
     andthen (if pi \<noteq> 0 then in_kmem (kfree pi) else ret ())
     (andthen (if f0 \<noteq> nullfile then fileclose p f0 else ret ())
     (andthen (if f1 \<noteq> nullfile then fileclose p f1 else ret ())
     (ret (- 1, f0, f1))))"

definition pipealloc :: "nat \<Rightarrow> (kernel, int \<times> nat \<times> nat) prog" where
  "pipealloc p =
     bnd filealloc (\<lambda>f0.
     if f0 = nullfile then pipe_bad p 0 f0 nullfile
     else bnd filealloc (\<lambda>f1.
     if f1 = nullfile then pipe_bad p 0 f0 f1
     else bnd (in_kmem kalloc) (\<lambda>pi.
     if pi = 0 then pipe_bad p pi f0 f1
     else
       andthen (modify (upd_pipe pi (\<lambda>x. x\<lparr>readopen := True, writeopen := True, nwrite := 0, nread := 0\<rparr>)))
       (andthen (modify (upd_file f0 (\<lambda>x. x\<lparr>f_type := FD_PIPE, f_readable := True, f_writable := False, f_pipe := pi\<rparr>)))
       (andthen (modify (upd_file f1 (\<lambda>x. x\<lparr>f_type := FD_PIPE, f_readable := False, f_writable := True, f_pipe := pi\<rparr>)))
       (ret (0, f0, f1)))))))"

text \<open>\<open>pipewrite_from\<close> is the loop of \<^verbatim>\<open>pipewrite\<close> with \<open>i\<close> bytes written; a round takes a byte, sleeps or returns.\<close>

definition pipe_put :: "u8 \<Rightarrow> pipe \<Rightarrow> pipe" where
  "pipe_put c x = x\<lparr>pdata := (pdata x)[unat (nwrite x) mod PIPESIZE := c], nwrite := nwrite x + 1\<rparr>"

primrec pipewrite_from :: "nat \<Rightarrow> nat \<Rightarrow> u64 \<Rightarrow> u64 \<Rightarrow> int \<Rightarrow> int \<Rightarrow> (kernel, int) prog" where
  "pipewrite_from 0 p pi addr n i = fails (Fault ''pipewrite: out of fuel'')"
| "pipewrite_from (Suc fuel) p pi addr n i =
     (if i < n then
        bnd (gets (\<lambda>k. pipes k pi)) (\<lambda>x.
        bnd (killed p) (\<lambda>kl.
        if \<not> readopen x \<or> kl then ret (- 1)
        else if nwrite x = nread x + of_nat PIPESIZE then
          andthen (wakeup p (Ch_nread pi)) (sleep p (Ch_nwrite pi))
        else
          bnd (gets (\<lambda>k. p_pagetable (proc_at k p))) (\<lambda>pt.
          bnd (in_kmem (copyin pt (addr + word_of_int i) 1)) (\<lambda>(r, bs).
          if r = - 1 then andthen (wakeup p (Ch_nread pi)) (ret i)
          else andthen (modify (upd_pipe pi (pipe_put (bs ! 0))))
            (pipewrite_from fuel p pi addr n (i + 1))))))
      else andthen (wakeup p (Ch_nread pi)) (ret i))"

definition pipewrite :: "nat \<Rightarrow> u64 \<Rightarrow> u64 \<Rightarrow> int \<Rightarrow> (kernel, int) prog" where
  "pipewrite p pi addr n = pipewrite_from (Suc (nat n)) p pi addr n 0"

primrec piperead_from :: "nat \<Rightarrow> nat \<Rightarrow> u64 \<Rightarrow> u64 \<Rightarrow> int \<Rightarrow> int \<Rightarrow> (kernel, int) prog" where
  "piperead_from 0 p pi addr n i = fails (Fault ''piperead: out of fuel'')"
| "piperead_from (Suc fuel) p pi addr n i =
     (if i < n then
        bnd (gets (\<lambda>k. pipes k pi)) (\<lambda>x.
        if nread x = nwrite x then ret i
        else
          let c = pdata x ! (unat (nread x) mod PIPESIZE) in
          andthen (modify (upd_pipe pi (nread_update (\<lambda>n. n + 1))))
          (bnd (gets (\<lambda>k. p_pagetable (proc_at k p))) (\<lambda>pt.
           bnd (in_kmem (copyout pt (addr + word_of_int i) [c] 1)) (\<lambda>r.
           if r = - 1 then ret i else piperead_from fuel p pi addr n (i + 1)))))
      else ret i)"

definition piperead :: "nat \<Rightarrow> u64 \<Rightarrow> u64 \<Rightarrow> int \<Rightarrow> (kernel, int) prog" where
  "piperead p pi addr n =
     bnd (gets (\<lambda>k. pipes k pi)) (\<lambda>x.
     if nread x = nwrite x \<and> writeopen x then
       bnd (killed p) (\<lambda>kl. if kl then ret (- 1) else sleep p (Ch_nread pi))
     else
       bnd (piperead_from (Suc (nat n)) p pi addr n 0) (\<lambda>i.
       andthen (wakeup p (Ch_nwrite pi)) (ret i)))"

subsection \<open>Reading and writing files\<close>

text \<open>
  \<^verbatim>\<open>struct stat\<close> as it is copied to user memory: 24 bytes, of which four are padding between \<^verbatim>\<open>nlink\<close> and
  \<^verbatim>\<open>size\<close> that keep whatever the stack held.
\<close>

definition le_bytes :: "nat \<Rightarrow> 'a :: len word \<Rightarrow> u8 list" where
  "le_bytes n w = map (\<lambda>i. ucast (drop_bit (8 * i) w)) [0..<n]"

definition stat_bytes :: "u8 list \<Rightarrow> stat \<Rightarrow> u8 list" where
  "stat_bytes pad st =
     le_bytes 4 (st_dev st) @ le_bytes 4 (st_ino st) @ le_bytes 2 (st_type st) @ le_bytes 2 (st_nlink st) @ pad @
     le_bytes 8 (st_size st)"

definition filestat :: "nat \<Rightarrow> u8 list \<Rightarrow> nat \<Rightarrow> u64 \<Rightarrow> (kernel, int) prog" where
  "filestat p pad f addr =
     bnd (gets (\<lambda>k. file_at k f)) (\<lambda>x.
     if f_type x = FD_INODE \<or> f_type x = FD_DEVICE then
       bnd (fs_call p (\<lambda>c. andthen (ilock c (f_ip x)) (bnd (stati (f_ip x)) (\<lambda>st. andthen (iunlock c (f_ip x)) (ret st))))) (\<lambda>st.
       bnd (gets (\<lambda>k. p_pagetable (proc_at k p))) (\<lambda>pt.
       bnd (in_kmem (copyout pt addr (stat_bytes pad st) 24)) (\<lambda>r.
       if r < 0 then ret (- 1) else ret 0)))
     else ret (- 1))"

definition fileread :: "nat \<Rightarrow> nat \<Rightarrow> u64 \<Rightarrow> int \<Rightarrow> (kernel, int) prog" where
  "fileread p f addr n =
     bnd (gets (\<lambda>k. file_at k f)) (\<lambda>x.
     if \<not> f_readable x then ret (- 1)
     else case f_type x of
       FD_PIPE \<Rightarrow> piperead p (f_pipe x) addr n
     | FD_DEVICE \<Rightarrow>
         bnd (gets devsw_read) (\<lambda>dv.
         if sint (f_major x) < 0 \<or> sint (f_major x) \<ge> int NDEV \<or> dv ! unat (f_major x) = None then ret (- 1)
         else consoleread p (User addr) n)
     | FD_INODE \<Rightarrow>
         andthen (fs_call p (\<lambda>c. ilock c (f_ip x)))
         (bnd (fs_call p (\<lambda>c. readi c (f_ip x) (User addr) (f_off x) (word_of_int n))) (\<lambda>r.
          andthen (if r > 0 then modify (upd_file f (f_off_update (\<lambda>off. off + word_of_int r))) else ret ())
          (andthen (fs_call p (\<lambda>c. iunlock c (f_ip x))) (ret r))))
     | FD_NONE \<Rightarrow> panic ''fileread'')"

text \<open>\<open>filewrite_from\<close> is the loop over pieces of at most \<open>max\<close> bytes, each in a transaction of its own.\<close>

definition filewrite_max :: int where [const_defs]: "filewrite_max = ((MAXOPBLOCKS - 1 - 1 - 2) div 2) * int BSIZE"

primrec filewrite_from :: "nat \<Rightarrow> nat \<Rightarrow> nat \<Rightarrow> u64 \<Rightarrow> int \<Rightarrow> int \<Rightarrow> (kernel, int) prog" where
  "filewrite_from 0 p f addr n i = fails (Fault ''filewrite: out of fuel'')"
| "filewrite_from (Suc fuel) p f addr n i =
     (if i < n then
        let n1 = (if n - i > filewrite_max then filewrite_max else n - i) in
        bnd (gets (\<lambda>k. file_at k f)) (\<lambda>x.
        andthen (in_fs (in_log begin_op))
        (andthen (fs_call p (\<lambda>c. ilock c (f_ip x)))
        (bnd (fs_call p (\<lambda>c. writei c (f_ip x) (User (addr + word_of_int i)) (f_off x) (word_of_int n1))) (\<lambda>r.
         andthen (if r > 0 then modify (upd_file f (f_off_update (\<lambda>off. off + word_of_int r))) else ret ())
         (andthen (fs_call p (\<lambda>c. iunlock c (f_ip x)))
         (andthen (fs_call p (\<lambda>c. in_log (end_op (cpid c))))
         (if r \<noteq> n1 then ret i else filewrite_from fuel p f addr n (i + r))))))))
      else ret i)"

definition filewrite :: "nat \<Rightarrow> nat \<Rightarrow> u64 \<Rightarrow> int \<Rightarrow> (kernel, int) prog" where
  "filewrite p f addr n =
     bnd (gets (\<lambda>k. file_at k f)) (\<lambda>x.
     if \<not> f_writable x then ret (- 1)
     else case f_type x of
       FD_PIPE \<Rightarrow> pipewrite p (f_pipe x) addr n
     | FD_DEVICE \<Rightarrow>
         bnd (gets devsw_write) (\<lambda>dv.
         if sint (f_major x) < 0 \<or> sint (f_major x) \<ge> int NDEV \<or> dv ! unat (f_major x) = None then ret (- 1)
         else consolewrite p (User addr) n)
     | FD_INODE \<Rightarrow>
         bnd (filewrite_from (Suc (nat n)) p f addr n 0) (\<lambda>i.
         ret (if i = n then n else - 1))
     | FD_NONE \<Rightarrow> panic ''filewrite'')"

end
