(* ===== verification/Ring.thy ===== *)
theory Ring
  imports Prelude
begin

text \<open>
  Ring buffers with free-running counters, as pipes, the console and the UART driver use them: the reader
  and the writer count bytes in a machine word that wraps around, and a byte lives at its count modulo the
  size of the buffer. The locale states when this is sound: the size divides the range of the counter.
\<close>

definition ring_bytes :: "nat \<Rightarrow> 'b list \<Rightarrow> 'a :: len word \<Rightarrow> 'a word \<Rightarrow> 'b list" where
  "ring_bytes n buf r w = map (\<lambda>i. buf ! (unat (r + of_nat i) mod n)) [0..<unat (w - r)]"

lemma length_ring_bytes [simp]: "length (ring_bytes n buf r w) = unat (w - r)"
  by (simp add: ring_bytes_def)

lemma ring_bytes_empty [simp]: "ring_bytes n buf r r = []"
  by (simp add: ring_bytes_def)

locale ring_buffer =
  fixes n :: nat and counter :: "'a :: len word itself"
  assumes pos: "0 < n" and divides: "n dvd 2 ^ LENGTH('a)" and smaller: "n < 2 ^ LENGTH('a)"
begin

lemma index_add: "unat (r + of_nat i :: 'a word) mod n = (unat r + i) mod n"
proof -
  have "unat (r + of_nat i :: 'a word) = (unat r + i) mod 2 ^ LENGTH('a)"
    by (simp add: unat_word_ariths unat_of_nat take_bit_eq_mod mod_add_right_eq)
  then show ?thesis by (simp add: mod_mod_cancel [OF divides])
qed

lemma count_add:
  assumes "unat (w - r :: 'a word) < 2 ^ LENGTH('a) - 1"
  shows "unat (w + 1 - r) = Suc (unat (w - r))"
proof -
  have "w + 1 - r = (w - r) + 1" by simp
  moreover have "(w - r) + 1 \<noteq> 0" using assms by (metis add_uminus_conv_diff eq_neg_iff_add_eq_0 less_irrefl unat_minus_1)
  ultimately show ?thesis by (metis unatSuc add.commute)
qed

text \<open>Writing the next byte, reading the next byte, and taking the last byte back.\<close>

lemma push:
  fixes r w :: "'a word"
  assumes "unat (w - r) < n" and "length buf = n"
  shows "ring_bytes n (buf[unat w mod n := c]) r (w + 1) = ring_bytes n buf r w @ [c]"
proof -
  let ?k = "unat (w - r)"
  have w: "w = r + of_nat ?k" by simp
  have k: "unat (w + 1 - r) = Suc ?k" using assms(1) smaller by (intro count_add) simp
  have last: "unat (r + of_nat ?k) mod n = unat w mod n" using w by simp
  have "unat (r + of_nat i) mod n \<noteq> unat w mod n" if "i < ?k" for i
  proof
    assume "unat (r + of_nat i) mod n = unat w mod n"
    then have "(unat r + i) mod n = (unat r + ?k) mod n"
      unfolding last [symmetric] by (simp only: index_add)
    then have "i mod n = ?k mod n" by (simp add: nat_mod_eq_iff add.assoc)
    then show False using that assms(1) by simp
  qed
  then have "buf[unat w mod n := c] ! (unat (r + of_nat i) mod n) = buf ! (unat (r + of_nat i) mod n)"
    if "i < ?k" for i using that by (metis nth_list_update_neq)
  then have "ring_bytes n (buf[unat w mod n := c]) r (w + 1) =
      map (\<lambda>i. buf ! (unat (r + of_nat i) mod n)) [0..<?k] @ [buf[unat w mod n := c] ! (unat w mod n)]"
    unfolding ring_bytes_def k using last by simp
  then show ?thesis using assms(2) pos by (simp add: ring_bytes_def)
qed

lemma pop:
  fixes r w :: "'a word"
  assumes "r \<noteq> w"
  shows "ring_bytes n buf r w = buf ! (unat r mod n) # ring_bytes n buf (r + 1) w"
proof -
  have nz: "w - r \<noteq> 0" using assms by simp
  then have k: "unat (w - r) = Suc (unat (w - (r + 1)))"
    by (metis Suc_pred' diff_diff_eq unat_gt_0 unat_minus_one)
  show ?thesis
    unfolding ring_bytes_def k by (simp add: upt_conv_Cons map_Suc_upt [symmetric] comp_def algebra_simps del: upt_Suc)
qed

lemma unpush:
  fixes r w :: "'a word"
  assumes "r \<noteq> w"
  shows "ring_bytes n buf r (w - 1) = butlast (ring_bytes n buf r w)"
proof -
  have nz: "w - r \<noteq> 0" using assms by simp
  then have k: "unat (w - r) = Suc (unat (w - 1 - r))"
    by (metis Suc_pred' diff_right_commute unat_gt_0 unat_minus_one)
  show ?thesis unfolding ring_bytes_def k by simp
qed

end

end
