(* ===== verification/Sample.thy ===== *)
theory Sample
  imports Proc
begin

text \<open>
  A small concrete kernel state on which theorems are applied: empty tables, an idle file system, and
  process 0 running with a given page table in a given memory.
\<close>

definition sample_log :: log where
  "sample_log = \<lparr>lbio = boot_bio, lstart = 2, lsize = 30, outstanding = 0, committing = False, ldev = ROOTDEV,
     lhn = 0, lhblock = replicate 30 0\<rparr>"

definition sample_inode :: inode where
  "sample_inode = \<lparr>i_dev = 0, i_num = 0, i_ref = 0, i_lock = \<lparr>slocked = 0, spid = 0\<rparr>, i_valid = False, i_type = 0,
     i_major = 0, i_minor = 0, i_nlink = 0, i_size = 0, i_addrs = replicate 13 0\<rparr>"

definition sample_fs :: "kmem \<Rightarrow> fsys" where
  "sample_fs m = \<lparr>flog = sample_log,
     sb = \<lparr>sb_magic = FSMAGIC, sb_size = 2000, sb_nblocks = 1954, sb_ninodes = 200, sb_nlog = 30, sb_logstart = 2,
       sb_inodestart = 32, sb_bmapstart = 45\<rparr>,
     itable = replicate NINODE sample_inode, fmem = m, stk = replicate 64 0\<rparr>"

definition sample_proc :: proc where
  "sample_proc = \<lparr>p_state = UNUSED, p_chan = None, p_killed = False, p_xstate = 0, p_pid = 0, p_parent = nullproc,
     p_kstack = 0, p_sz = 0, p_pagetable = 0, p_trapframe = 0, p_context = \<lparr>ctx_ra = 0, ctx_sp = 0, ctx_s = []\<rparr>,
     p_ofile = replicate NOFILE nullfile, p_cwd = nullip, p_name = replicate 16 0\<rparr>"

definition sample_kernel :: "kmem \<Rightarrow> u64 \<Rightarrow> kernel" where
  "sample_kernel m pt = \<lparr>kfs = sample_fs m,
     ftable = replicate NFILE \<lparr>f_type = FD_NONE, f_ref = 0, f_readable = False, f_writable = False, f_pipe = 0,
       f_ip = nullip, f_off = 0, f_major = 0\<rparr>,
     devsw_read = replicate NDEV None, devsw_write = replicate NDEV None,
     pipes = (\<lambda>_. \<lparr>pdata = replicate 512 7, nread = - 2, nwrite = 3, readopen = True, writeopen = True\<rparr>),
     procs = (replicate NPROC sample_proc)[0 := sample_proc\<lparr>p_state := RUNNING, p_pid := 1, p_pagetable := pt\<rparr>],
     nextpid = 2, initproc = 0, cpu_proc = replicate NCPU nullproc,
     kcons = \<lparr>c_buf = replicate 128 0, c_r = 0, c_w = 0, c_e = 0\<rparr>,
     kuart = \<lparr>tx_buf = replicate 32 0, tx_w = 0, tx_r = 0, rx = [], tx_room = 1, sent = []\<rparr>,
     panicked = False, ticks = 0, first = True, k_trampoline = 0x80007000, k_forkret = 0x80001000\<rparr>"

lemma sample_kernel_simps [simp]:
  "kfs (sample_kernel m pt) = sample_fs m" "fmem (sample_fs m) = m"
  "length (procs (sample_kernel m pt)) = NPROC"
  "p_pagetable (proc_at (sample_kernel m pt) 0) = pt" "\<not> p_killed (proc_at (sample_kernel m pt) 0)"
  "p_state (proc_at (sample_kernel m pt) 0) = RUNNING" "p_pid (proc_at (sample_kernel m pt) 0) = 1"
  "0 < q \<Longrightarrow> q < NPROC \<Longrightarrow> proc_at (sample_kernel m pt) q = sample_proc"
  "pipes (sample_kernel m pt) pi = \<lparr>pdata = replicate 512 7, nread = - 2, nwrite = 3, readopen = True, writeopen = True\<rparr>"
  "nextpid (sample_kernel m pt) = 2" "initproc (sample_kernel m pt) = 0"
  by (simp_all add: sample_kernel_def sample_fs_def sample_proc_def NPROC_def)

end
