(* ===== verification/Procfacts.thy ===== *)
theory Procfacts
  imports Proc
begin

text \<open>
  What the basic operations on processes do, in closed form: waking processes, and the fields of the trapframe
  page of a process.
\<close>

subsection \<open>Wakeups\<close>

text \<open>Waking other processes changes the process table only, and not the caller's entry.\<close>

lemma wp_wakeup:
  "wp (wakeup p ch) (\<lambda>_ t. \<exists>xs. t = k\<lparr>procs := xs\<rparr> \<and> length xs = length (procs k) \<and>
     (\<forall>q < length (procs k). xs ! q = (if q < NPROC \<and> q \<noteq> p then wake_proc ch (procs k ! q) else procs k ! q))) k"
proof -
  let ?I = "\<lambda>j t. \<exists>xs. t = k\<lparr>procs := xs\<rparr> \<and> length xs = length (procs k) \<and>
     (\<forall>q < length (procs k). xs ! q = (if q < j \<and> q \<noteq> p then wake_proc ch (procs k ! q) else procs k ! q))"
  show ?thesis
    unfolding wakeup_def
  proof (rule wp_for_each [where I = ?I])
    show "?I 0 k" by (intro exI [of _ "procs k"]) simp
  next
    fix j t assume j: "j < length [0..<NPROC]" and "?I j t"
    then obtain xs where t: "t = k\<lparr>procs := xs\<rparr>" "length xs = length (procs k)"
        "\<forall>q < length (procs k). xs ! q = (if q < j \<and> q \<noteq> p then wake_proc ch (procs k ! q) else procs k ! q)"
      by blast
    let ?ys = "if j = p then xs else xs[j := wake_proc ch (xs ! j)]"
    have "?I (Suc j) (k\<lparr>procs := ?ys\<rparr>)"
      by (intro exI [of _ ?ys] conjI) (use t in \<open>auto simp: less_Suc_eq nth_list_update\<close>)
    then show "wp (if [0..<NPROC] ! j \<noteq> p then modify (upd_proc ([0..<NPROC] ! j) (wake_proc ch)) else ret ()) (\<lambda>_. ?I (Suc j)) t"
      using j t(1) by (cases "j = p") (simp_all add: wp_modify wp_ret upd_proc_def)
  qed simp
qed

lemma wakeup_run:
  obtains xs where "wakeup p ch k = Ok () (k\<lparr>procs := xs\<rparr>)" and "length xs = length (procs k)"
    and "\<And>q. q < length (procs k) \<Longrightarrow> xs ! q = (if q < NPROC \<and> q \<noteq> p then wake_proc ch (procs k ! q) else procs k ! q)"
  using wp_wakeup [of p ch k] by (auto elim!: wpE)

text \<open>A memory operation that leaves memory alone leaves the kernel alone.\<close>

lemma in_kmem_same:
  "m (fmem (kfs k)) = Ok a (fmem (kfs k)) \<Longrightarrow> in_kmem m k = Ok a k"
  by (simp add: zoom_def)

subsection \<open>Trapframe fields\<close>

definition tfr :: "kernel \<Rightarrow> nat \<Rightarrow> u64 \<Rightarrow> u64" where
  "tfr k p off = load64 (mem (fmem (kfs k))) (p_trapframe (proc_at k p) + off)"

definition tf_store :: "nat \<Rightarrow> u64 \<Rightarrow> u64 \<Rightarrow> kernel \<Rightarrow> kernel" where
  "tf_store p off v k = kfs_update (fmem_update (mem_store (\<lambda>m. store64 m (p_trapframe (proc_at k p) + off) v))) k"

text \<open>The offsets of \<^verbatim>\<open>struct trapframe\<close>.\<close>

definition tf_field :: "u64 \<Rightarrow> bool" where
  "tf_field off \<longleftrightarrow> unat off mod 8 = 0 \<and> unat off < 288"

lemma tf_fields [simp]:
  "tf_field tf_kernel_satp" "tf_field tf_kernel_sp" "tf_field tf_kernel_trap" "tf_field tf_epc" "tf_field tf_kernel_hartid"
  "tf_field tf_sp" "tf_field tf_a0" "tf_field tf_a1" "tf_field tf_a7"
  by (simp_all add: tf_field_def const_defs)

lemma tf_get_run: "tf_get p off k = Ok (tfr k p off) k"
  by (simp add: tf_get_def tfr_def run_simps)

lemma tf_set_run: "tf_set p off v k = Ok () (tf_store p off v k)"
  by (simp add: tf_set_def tf_store_def run_simps)

lemma tf_store_simps [simp]:
  "procs (tf_store p off v k) = procs k" "k_trampoline (tf_store p off v k) = k_trampoline k" "ticks (tf_store p off v k) = ticks k"
  by (simp_all add: tf_store_def)

lemma offset_apart:
  fixes a b :: u64
  assumes "unat a + 8 \<le> unat b \<or> unat b + 8 \<le> unat a" and "unat a < 288" and "unat b < 288" and "i < 8"
  shows "\<not> unat (a + of_nat i - b) < 8"
proof -
  have ai: "unat (a + of_nat i) = unat a + i" using assms(2,4) by (simp add: unat_word_ariths unat_of_nat)
  show ?thesis
  proof (cases "unat b \<le> unat a + i")
    case True
    then have "unat (a + of_nat i - b) = unat a + i - unat b" by (simp add: unat_sub_if' ai)
    then show ?thesis using assms(1,4) True by linarith
  next
    case False
    then have "unat (a + of_nat i - b) = unat a + i + 2 ^ 64 - unat b" by (simp add: unat_sub_if' ai)
    then show ?thesis using assms(3) False by simp
  qed
qed

lemma tfr_tf_store:
  assumes "tf_field off" and "tf_field off'"
  shows "tfr (tf_store p off v k) p off' = (if off' = off then v else tfr k p off')"
proof (cases "off' = off")
  case False
  then have "unat off' \<noteq> unat off" by (simp add: word_unat_eq_iff)
  then have "unat off' + 8 \<le> unat off \<or> unat off + 8 \<le> unat off'"
    using assms unfolding tf_field_def by presburger
  then have "\<not> unat (p_trapframe (proc_at k p) + off' + of_nat i - (p_trapframe (proc_at k p) + off)) < 8" if "i < 8" for i
    using offset_apart [of off' off i] assms that by (simp add: tf_field_def algebra_simps)
  then show ?thesis using False by (simp add: tfr_def tf_store_def mem_store_def load64_store64_other)
qed (simp add: tfr_def tf_store_def mem_store_def)

end
