(* ===== verification/Pipe.thy ===== *)
theory Pipe
  imports Filetab Ring Usermem Sample Procfacts
begin

text \<open>
  Pipes deliver bytes in order. The bytes in a pipe are those between its two counters, which run freely
  and wrap around; \<^verbatim>\<open>pipewrite\<close> appends the bytes of user memory to them and \<^verbatim>\<open>piperead\<close> moves bytes from the
  front to user memory.
\<close>

interpretation pipe_ring: ring_buffer PIPESIZE "TYPE(u32)"
  by unfold_locales (simp_all add: PIPESIZE_def)

definition pipe_bytes :: "pipe \<Rightarrow> u8 list" where
  "pipe_bytes x = ring_bytes PIPESIZE (pdata x) (nread x) (nwrite x)"

definition pipe_ok :: "pipe \<Rightarrow> bool" where
  "pipe_ok x \<longleftrightarrow> length (pdata x) = PIPESIZE \<and> unat (nwrite x - nread x) \<le> PIPESIZE"

lemma pipe_ok_length: "pipe_ok x \<Longrightarrow> length (pipe_bytes x) \<le> PIPESIZE"
  by (simp add: pipe_ok_def pipe_bytes_def)

lemma pipe_full_iff: "pipe_ok x \<Longrightarrow> nwrite x = nread x + of_nat PIPESIZE \<longleftrightarrow> length (pipe_bytes x) = PIPESIZE"
  using offset_eq_iff [of PIPESIZE "nwrite x" "nread x"] by (simp add: pipe_bytes_def PIPESIZE_def)

lemma pipe_empty_iff: "nread x = nwrite x \<longleftrightarrow> pipe_bytes x = []"
proof -
  have "pipe_bytes x = [] \<longleftrightarrow> unat (nwrite x - nread x) = 0"
    by (simp add: pipe_bytes_def flip: length_0_conv)
  then show ?thesis by (auto simp: unat_eq_0)
qed

lemma pipe_put_ok:
  assumes "pipe_ok x" and "length (pipe_bytes x) < PIPESIZE"
  shows "pipe_ok (pipe_put c x)" and "pipe_bytes (pipe_put c x) = pipe_bytes x @ [c]"
proof -
  have l: "unat (nwrite x - nread x) < PIPESIZE" "length (pdata x) = PIPESIZE"
    using assms by (simp_all add: pipe_bytes_def pipe_ok_def)
  then show b: "pipe_bytes (pipe_put c x) = pipe_bytes x @ [c]"
    by (simp add: pipe_bytes_def pipe_put_def pipe_ring.push)
  have "unat (nwrite x + 1 - nread x) = Suc (unat (nwrite x - nread x))"
    using l(1) by (intro pipe_ring.count_add) (simp add: PIPESIZE_def)
  then show "pipe_ok (pipe_put c x)" using l by (simp add: pipe_ok_def pipe_put_def)
qed

lemma pipe_take_ok:
  assumes "pipe_ok x" and "pipe_bytes x \<noteq> []"
  shows "pipe_ok (nread_update (\<lambda>n. n + 1) x)"
    and "pipe_bytes x = pdata x ! (unat (nread x) mod PIPESIZE) # pipe_bytes (nread_update (\<lambda>n. n + 1) x)"
proof -
  have "nread x \<noteq> nwrite x" using assms(2) by (simp add: pipe_empty_iff)
  then show b: "pipe_bytes x = pdata x ! (unat (nread x) mod PIPESIZE) # pipe_bytes (nread_update (\<lambda>n. n + 1) x)"
    by (simp add: pipe_bytes_def pipe_ring.pop)
  have "length (pipe_bytes (nread_update (\<lambda>n. n + 1) x)) \<le> length (pipe_bytes x)" by (subst b) simp
  then show "pipe_ok (nread_update (\<lambda>n. n + 1) x)" using assms(1) by (simp add: pipe_ok_def pipe_bytes_def)
qed

subsection \<open>Writing\<close>

lemma ubytes_nth:
  assumes "ubytes s pt va n = Some bs" and "i < n"
  shows "length bs = n" and "ubyte s pt (va + of_nat i) = Some (bs ! i)"
proof -
  have those: "those xs = Some ys \<Longrightarrow> xs = map Some ys" for xs :: "u8 option list" and ys
    by (induction xs arbitrary: ys) (auto split: option.splits)
  have m: "map (\<lambda>i. ubyte s pt (va + of_nat i)) [0..<n] = map Some bs"
    using assms(1) those by (simp add: ubytes_def)
  show l: "length bs = n" using map_eq_imp_length_eq [OF m] by simp
  have "map (\<lambda>i. ubyte s pt (va + of_nat i)) [0..<n] ! i = map Some bs ! i" using m by simp
  then show "ubyte s pt (va + of_nat i) = Some (bs ! i)" using assms(2) l by simp
qed

lemma copyin_byte:
  assumes "pt_inv s 2 pt" and "ubytes s pt va n = Some bs" and "i < n"
  shows "copyin pt (va + of_nat i) 1 s = Ok (0, [bs ! i]) s"
proof -
  have "ubytes s pt (va + of_nat i) (unat (1 :: u64)) = Some [bs ! i]"
    using ubytes_nth(2) [OF assms(2,3)] by (simp add: ubytes_def)
  then show ?thesis using copyin_run [OF assms(1), of "va + of_nat i" 1] by simp
qed

text \<open>
  What \<^verbatim>\<open>pipewrite\<close> leaves behind when \<open>j\<close> of the bytes \<open>src\<close> have gone into the pipe, whose contents were \<open>old\<close>.
\<close>

definition wrote :: "nat \<Rightarrow> u64 \<Rightarrow> u8 list \<Rightarrow> u8 list \<Rightarrow> kernel \<Rightarrow> bool" where
  "wrote j pi old src k \<longleftrightarrow> pipe_ok (pipes k pi) \<and> pipe_bytes (pipes k pi) = old @ take j src"

text \<open>
  The outcome of a write of \<open>n\<close> bytes, of which \<open>src\<close> can be read from user memory: all of \<open>src\<close> is in the pipe, or the pipe is full
  and the process sleeps.
\<close>

definition write_outcome :: "nat \<Rightarrow> u64 \<Rightarrow> u8 list \<Rightarrow> u8 list \<Rightarrow> nat \<Rightarrow> (kernel, int) res \<Rightarrow> bool" where
  "write_outcome p pi old src n res \<longleftrightarrow>
     (case res of
        Ok r k \<Rightarrow> r = int (length src) \<and> wrote (length src) pi old src k
      | Err e k \<Rightarrow> e = Sleeps ''sched'' \<and> p_state (proc_at k p) = SLEEPING \<and> p_chan (proc_at k p) = Some (Ch_nwrite pi) \<and>
          (\<exists>j\<le>length src. j < n \<and> wrote j pi old src k \<and> length (pipe_bytes (pipes k pi)) = PIPESIZE))"

text \<open>\<open>src\<close> is what can be read of the \<open>n\<close> bytes at \<open>addr\<close>: all of them, or those before the first address that is not mapped.\<close>

definition readable_part :: "kmem \<Rightarrow> u64 \<Rightarrow> u64 \<Rightarrow> nat \<Rightarrow> u8 list \<Rightarrow> bool" where
  "readable_part s pt addr n src \<longleftrightarrow> length src \<le> n \<and> ubytes s pt addr (length src) = Some src \<and>
     (length src < n \<longrightarrow> ubyte s pt (addr + of_nat (length src)) = None)"

lemma copyin_no_byte:
  assumes "pt_inv s 2 pt" and "ubyte s pt va = None"
  shows "\<exists>bs. copyin pt va 1 s = Ok (- 1, bs) s"
proof -
  have "ubytes s pt va (unat (1 :: u64)) = None" using assms(2) by (simp add: ubytes_def)
  then show ?thesis using copyin_run [OF assms(1), of va 1] by simp
qed

lemma pipewrite_from_outcome:
  assumes "pt_inv (fmem (kfs k)) 2 pt" and "readable_part (fmem (kfs k)) pt addr n src"
    and "p_pagetable (proc_at k p) = pt" and "\<not> p_killed (proc_at k p)" and "p < length (procs k)"
    and "readopen (pipes k pi)" and "wrote i pi old src k" and "i \<le> length src" and "n < 2 ^ 63"
    and "n - i < fuel"
  shows "write_outcome p pi old src n (pipewrite_from fuel p pi addr (int n) (int i) k)"
  using assms
proof (induction fuel arbitrary: k i)
  case (Suc fuel)
  let ?x = "pipes k pi" and ?n = "int n"
  note R = Suc.prems(2) [unfolded readable_part_def]
  obtain xs where wk: "wakeup p (Ch_nread pi) k = Ok () (k\<lparr>procs := xs\<rparr>)" and lx: "length xs = length (procs k)"
      and px: "xs ! p = procs k ! p"
    using wakeup_run [of p "Ch_nread pi" k] Suc.prems(5) by metis
  have "pipe_ok ?x" using Suc.prems(7) by (simp add: wrote_def)
  then have "length (pipe_bytes ?x) \<le> PIPESIZE" by (rule pipe_ok_length)
  then consider "i = n" | "i < n" "length (pipe_bytes ?x) = PIPESIZE" | "i = length src" "i < n" "length (pipe_bytes ?x) < PIPESIZE"
    | "i < length src" "length (pipe_bytes ?x) < PIPESIZE"
    using Suc.prems(8) R by linarith
  then show ?case
  proof cases
    case 1
    then have "i = length src" using Suc.prems(8) R by simp
    then show ?thesis using Suc.prems wk 1 by (simp add: run_simps write_outcome_def wrote_def)
  next
    case 2
    then have full: "nwrite ?x = nread ?x + of_nat PIPESIZE"
      using pipe_full_iff Suc.prems(7) by (simp add: wrote_def)
    have "pipewrite_from (Suc fuel) p pi addr ?n (int i) k =
        sleep p (Ch_nwrite pi) (k\<lparr>procs := xs\<rparr>)"
      using 2 Suc.prems full wk by (simp add: run_simps killed_def)
    then show ?thesis using 2 Suc.prems lx
      by (auto simp: sleep_def sched_def run_simps upd_proc_def write_outcome_def wrote_def)
  next
    case 3
    have nf: "nwrite ?x \<noteq> nread ?x + of_nat PIPESIZE"
      using 3(3) pipe_full_iff Suc.prems(7) by (simp add: wrote_def)
    obtain bs where "copyin pt (addr + of_nat i) 1 (fmem (kfs k)) = Ok (- 1, bs) (fmem (kfs k))"
      using copyin_no_byte [OF Suc.prems(1)] 3 R by auto
    then have "in_kmem (copyin pt (addr + word_of_int (int i)) 1) k = Ok (- 1, bs) k" by (intro in_kmem_same) simp
    then show ?thesis
      using 3 Suc.prems nf wk by (simp add: run_simps killed_def write_outcome_def wrote_def)
  next
    case 4
    have nf: "nwrite ?x \<noteq> nread ?x + of_nat PIPESIZE"
      using 4(2) pipe_full_iff Suc.prems(7) by (simp add: wrote_def)
    let ?k = "upd_pipe pi (pipe_put (src ! i)) k"
    have ci: "in_kmem (copyin pt (addr + word_of_int (int i)) 1) k = Ok (0, [src ! i]) k"
      using copyin_byte [OF Suc.prems(1) _ 4(1)] R by (intro in_kmem_same) simp
    have step: "pipewrite_from (Suc fuel) p pi addr ?n (int i) k = pipewrite_from fuel p pi addr ?n (int (Suc i)) ?k"
      using 4 R Suc.prems nf ci by (simp add: run_simps killed_def add.commute)
    have "wrote (Suc i) pi old src ?k"
      using pipe_put_ok [of ?x "src ! i"] 4 Suc.prems(7) by (simp add: wrote_def upd_pipe_def take_Suc_conv_app_nth)
    moreover have "readopen (pipes ?k pi)" using Suc.prems(6) by (simp add: upd_pipe_def pipe_put_def)
    moreover have "length src \<le> n" using R by blast
    then have "n - Suc i < fuel" using Suc.prems(10) 4(1) by linarith
    ultimately show ?thesis
      unfolding step using Suc.prems 4 by (intro Suc.IH) (simp_all add: upd_pipe_def)
  qed
qed simp

text \<open>
  C20: a write of \<open>n\<close> bytes to a pipe. When the read end is closed or the writer has been killed, it returns -1 at once and changes
  nothing. Otherwise the bytes up to the first one that cannot be read from user memory go into the pipe in order: all of them, with
  their number returned, or as many as fit, which fills the pipe and leaves the process asleep on \<^verbatim>\<open>&pi->nwrite\<close>. No byte is lost,
  duplicated or reordered, also when the counters wrap around.
\<close>

theorem pipewrite_appends:
  assumes "pt_inv (fmem (kfs k)) 2 (p_pagetable (proc_at k p))"
    and "readable_part (fmem (kfs k)) (p_pagetable (proc_at k p)) addr n src"
    and "p < length (procs k)" and "pipe_ok (pipes k pi)" and "n < 2 ^ 31"
  shows "if 0 < n \<and> (\<not> readopen (pipes k pi) \<or> p_killed (proc_at k p)) then pipewrite p pi addr (int n) k = Ok (- 1) k
    else write_outcome p pi (pipe_bytes (pipes k pi)) src n (pipewrite p pi addr (int n) k)"
proof (cases "\<not> readopen (pipes k pi) \<or> p_killed (proc_at k p)")
  case True
  obtain xs where wk: "wakeup p (Ch_nread pi) k = Ok () (k\<lparr>procs := xs\<rparr>)"
    using wakeup_run [of p "Ch_nread pi" k] assms(3) by metis
  show ?thesis using True assms wk
    by (auto simp: pipewrite_def run_simps killed_def write_outcome_def wrote_def readable_part_def)
next
  case False
  then show ?thesis
    unfolding pipewrite_def using assms
      pipewrite_from_outcome [of k "p_pagetable (proc_at k p)" addr n src p pi 0 "pipe_bytes (pipes k pi)" "Suc n"]
    by (simp add: wrote_def)
qed

subsection \<open>Reading\<close>

lemma wp_copyout_byte:
  assumes "pt_inv s 2 pt" and "user_ok s pt" and "writable s pt va n" and "i < n"
  shows "wp (copyout pt (va + of_nat i) [c] 1) (\<lambda>r t. r = 0 \<and> pt_inv t 2 pt \<and> user_ok t pt \<and> writable t pt va n \<and>
     (\<forall>v. ubyte t pt v = (if v = va + of_nat i then Some c else ubyte s pt v))) s"
proof -
  let ?va = "va + of_nat i"
  have w: "writable s pt ?va (unat (1 :: u64))" using assms(3,4) by (simp add: writable_def)
  have ch: "chunk ?va 1 = 1" using chunk_bounds(1,2) [of 1 ?va] by (simp add: word_unat_eq_iff)
  show ?thesis
  proof (rule wp_copyout_step [OF assms(1) w])
    fix a assume a: "uaddr s pt ?va = Some a"
    let ?t = "mem_store (\<lambda>m. write_bytes m a (take (unat (chunk ?va 1)) [c])) s"
    have fit: "unat (?va - PGROUNDDOWN ?va) + length (take (unat (chunk ?va 1)) [c]) \<le> 4096"
      using chunk_bounds(4) [of 1 ?va] by (simp add: ch)
    note wu = write_user [OF assms(1,2) a fit]
    have "writable ?t pt va n" using writable_cong [OF wu(3,4)] assms(3) by simp
    moreover have "unat (v - ?va) < 1 \<longleftrightarrow> v = ?va" for v :: u64 by (simp add: unat_eq_0)
    ultimately show "wp (copyout pt (PGROUNDDOWN ?va + PGSIZE) (drop (unat (chunk ?va 1)) [c]) (1 - chunk ?va 1))
        (\<lambda>r t. r = 0 \<and> pt_inv t 2 pt \<and> user_ok t pt \<and> writable t pt va n \<and>
         (\<forall>v. ubyte t pt v = (if v = ?va then Some c else ubyte s pt v))) ?t"
      using wu(1,2,5) by (simp add: ch copyout.simps wp_ret)
  qed simp
qed

text \<open>After \<open>i\<close> bytes: they are in user memory, and the pipe holds the others.\<close>

definition took :: "nat \<Rightarrow> u64 \<Rightarrow> u64 \<Rightarrow> u64 \<Rightarrow> nat \<Rightarrow> u8 list \<Rightarrow> kernel \<Rightarrow> kernel \<Rightarrow> bool" where
  "took i pi pt addr n old k t \<longleftrightarrow>
     pipe_ok (pipes t pi) \<and> pipe_bytes (pipes t pi) = drop i old \<and>
     pt_inv (fmem (kfs t)) 2 pt \<and> user_ok (fmem (kfs t)) pt \<and> writable (fmem (kfs t)) pt addr n \<and>
     (\<forall>v. ubyte (fmem (kfs t)) pt v =
        (if unat (v - addr) < i then Some (old ! unat (v - addr)) else ubyte (fmem (kfs k)) pt v))"

lemma piperead_from_outcome:
  assumes "took i pi pt addr n old k t" and "p_pagetable (proc_at t p) = pt" and "i \<le> min n (length old)"
    and "n < 2 ^ 63" and "n - i < fuel"
  shows "wp (piperead_from fuel p pi addr (int n) (int i)) (\<lambda>r u. r = int (min n (length old)) \<and>
      took (min n (length old)) pi pt addr n old k u) t"
  using assms
proof (induction fuel arbitrary: t i)
  case (Suc fuel)
  let ?x = "pipes t pi"
  show ?case
  proof (cases "i < min n (length old)")
    case False
    then have i: "i = min n (length old)" using Suc.prems(3) by (meson le_antisym not_less)
    have "pipe_bytes ?x = [] " if "i < n" using that i Suc.prems(1) by (simp add: took_def)
    then have "nread ?x = nwrite ?x" if "i < n" using that by (simp add: pipe_empty_iff)
    then have "piperead_from (Suc fuel) p pi addr (int n) (int i) t = Ok (int i) t" by (auto simp: run_simps)
    then show ?thesis using Suc.prems(1) i by (simp add: wp_def)
  next
    case True
    then have lt: "i < n" "i < length old" by simp_all
    have ok: "pipe_ok ?x" and b: "pipe_bytes ?x = drop i old" using Suc.prems(1) by (simp_all add: took_def)
    have ne: "pipe_bytes ?x \<noteq> []" using b lt by simp
    note tk = pipe_take_ok [OF ok ne]
    have hd: "pdata ?x ! (unat (nread ?x) mod PIPESIZE) = old ! i"
      and tl: "pipe_bytes (nread_update (\<lambda>n. n + 1) ?x) = drop (Suc i) old"
      using tk(2) b lt by (simp_all add: Cons_nth_drop_Suc [symmetric])
    let ?t = "upd_pipe pi (nread_update (\<lambda>n. n + 1)) t"
    have nx: "nread ?x \<noteq> nwrite ?x" using ne by (simp add: pipe_empty_iff)
    have mem: "fmem (kfs ?t) = fmem (kfs t)" by (simp add: upd_pipe_def)
    have pg: "p_pagetable (proc_at ?t p) = pt" using Suc.prems(2) by (simp add: upd_pipe_def)
    have "wp (copyout pt (addr + of_nat i) [old ! i] 1) (\<lambda>r m. r = 0 \<and> pt_inv m 2 pt \<and> user_ok m pt \<and> writable m pt addr n \<and>
        (\<forall>v. ubyte m pt v = (if v = addr + of_nat i then Some (old ! i) else ubyte (fmem (kfs t)) pt v))) (fmem (kfs t))"
      using Suc.prems(1) lt(1) by (intro wp_copyout_byte) (simp_all add: took_def)
    then have "wp (in_kmem (copyout pt (addr + word_of_int (int i)) [old ! i] 1))
        (\<lambda>r u. r = 0 \<and> (\<exists>m. u = ?t\<lparr>kfs := (kfs ?t)\<lparr>fmem := m\<rparr>\<rparr> \<and> pt_inv m 2 pt \<and> user_ok m pt \<and> writable m pt addr n \<and>
        (\<forall>v. ubyte m pt v = (if v = addr + of_nat i then Some (old ! i) else ubyte (fmem (kfs t)) pt v)))) ?t"
      unfolding wp_zoom mem of_int_of_nat_eq by (rule wp_mono) auto
    then have "wp (in_kmem (copyout pt (addr + word_of_int (int i)) [old ! i] 1))
        (\<lambda>r. wp (if r = - 1 then ret (int i) else piperead_from fuel p pi addr (int n) (int (Suc i)))
          (\<lambda>r u. r = int (min n (length old)) \<and> took (min n (length old)) pi pt addr n old k u)) ?t"
    proof (rule wp_mono, elim conjE exE)
      fix r :: int and u m
      assume r: "r = 0" and u: "u = ?t\<lparr>kfs := (kfs ?t)\<lparr>fmem := m\<rparr>\<rparr>" and m: "pt_inv m 2 pt" "user_ok m pt" "writable m pt addr n"
        and v: "\<forall>v. ubyte m pt v = (if v = addr + of_nat i then Some (old ! i) else ubyte (fmem (kfs t)) pt v)"
      have i64: "i < 2 ^ 64" using lt(1) Suc.prems(4) by simp
      have "ubyte m pt w = (if unat (w - addr) < Suc i then Some (old ! unat (w - addr)) else ubyte (fmem (kfs k)) pt w)" for w
        using v Suc.prems(1) offset_eq_iff [of i w addr] i64 by (auto simp: took_def less_Suc_eq)
      then have "took (Suc i) pi pt addr n old k u"
        using u m tl tk(1) by (simp add: took_def upd_pipe_def)
      moreover have "p_pagetable (proc_at u p) = pt" using u pg by simp
      ultimately have "wp (piperead_from fuel p pi addr (int n) (int (Suc i)))
          (\<lambda>r u. r = int (min n (length old)) \<and> took (min n (length old)) pi pt addr n old k u) u"
        using lt Suc.prems(4,5) by (intro Suc.IH) simp_all
      then show "wp (if r = - 1 then ret (int i) else piperead_from fuel p pi addr (int n) (int (Suc i)))
          (\<lambda>r u. r = int (min n (length old)) \<and> took (min n (length old)) pi pt addr n old k u) u"
        using r by simp
    qed
    moreover have s1: "int (Suc i) = int i + 1" by simp
    ultimately show ?thesis
      unfolding s1 using lt nx hd pg
      by (simp add: wp_bnd wp_andthen wp_gets wp_modify Let_def)
  qed
qed simp

text \<open>
  C21: a read of \<open>n\<close> bytes into writable user memory from a pipe that holds bytes, or whose write end is closed,
  returns \<open>m = min n (length bytes)\<close>, stores the first \<open>m\<close> bytes of the pipe at the address, keeps the rest
  in the pipe in order, and changes no other user byte.
\<close>

theorem piperead_takes:
  assumes "pt_inv (fmem (kfs k)) 2 pt" and "user_ok (fmem (kfs k)) pt" and "writable (fmem (kfs k)) pt addr n"
    and "p_pagetable (proc_at k p) = pt" and "pipe_ok (pipes k pi)" and "n < 2 ^ 31"
    and "pipe_bytes (pipes k pi) \<noteq> [] \<or> \<not> writeopen (pipes k pi)"
  shows "wp (piperead p pi addr (int n)) (\<lambda>r t. r = int (min n (length (pipe_bytes (pipes k pi)))) \<and>
     took (min n (length (pipe_bytes (pipes k pi)))) pi pt addr n (pipe_bytes (pipes k pi)) k t) k"
proof -
  let ?b = "pipe_bytes (pipes k pi)"
  have "took 0 pi pt addr n ?b k k" using assms by (simp add: took_def)
  then have "wp (piperead_from (Suc n) p pi addr (int n) (int 0)) (\<lambda>r t. r = int (min n (length ?b)) \<and>
      took (min n (length ?b)) pi pt addr n ?b k t) k"
    using assms by (intro piperead_from_outcome) simp_all
  then have "wp (piperead_from (Suc n) p pi addr (int n) (int 0)) (\<lambda>i. wp (wakeup p (Ch_nwrite pi)) (\<lambda>_ t. i = int (min n (length ?b)) \<and>
      took (min n (length ?b)) pi pt addr n ?b k t)) k"
  proof (rule wp_mono)
    fix r t assume t: "r = int (min n (length ?b)) \<and> took (min n (length ?b)) pi pt addr n ?b k t"
    show "wp (wakeup p (Ch_nwrite pi)) (\<lambda>_ t. r = int (min n (length ?b)) \<and> took (min n (length ?b)) pi pt addr n ?b k t) t"
      using wp_wakeup by (rule wp_mono) (use t in \<open>auto simp: took_def\<close>)
  qed
  moreover have "\<not> (nread (pipes k pi) = nwrite (pipes k pi) \<and> writeopen (pipes k pi))"
    using assms(7) by (auto simp: pipe_empty_iff)
  ultimately show ?thesis
    by (auto simp add: piperead_def wp_bnd wp_andthen wp_gets wp_ret_fun simp del: piperead_from.simps)
qed

lemma sample_pipe_ok: "pipe_ok (pipes (sample_kernel m pt) pi)"
  by (simp add: pipe_ok_def PIPESIZE_def)

lemma sample_pipe_bytes: "pipe_bytes (pipes (sample_kernel m pt) pi) = replicate 5 7"
  by (simp add: pipe_bytes_def ring_bytes_def PIPESIZE_def map_replicate_const)

theorem pipewrite_appends_witness:
  "\<exists>src. length src = 3 \<and> write_outcome 0 0x80040000 (pipe_bytes (pipes (sample_kernel one_page 0x80030000) 0x80040000)) src 3
     (pipewrite 0 0x80040000 0x4FF0 (int 3) (sample_kernel one_page 0x80030000))"
proof -
  let ?src = "map (\<lambda>i. mem one_page (0x80033000 + (0x4FF0 + of_nat i - 0x4000))) [0..<3]"
  have "PGROUNDDOWN (0x4FF0 + of_nat i) = 0x4000" if "i < 3" for i
    using that by (auto simp: less_Suc_eq numeral_3_eq_3 PGROUNDDOWN_def PGSIZE_def)
  then have "ubytes one_page 0x80030000 0x4FF0 (length ?src) = Some ?src"
    by (intro ubytes_of_ubyte) (simp_all add: ubyte_def one_page_uaddr)
  then have r: "readable_part one_page 0x80030000 0x4FF0 3 ?src" by (simp add: readable_part_def)
  have "write_outcome 0 0x80040000 (pipe_bytes (pipes (sample_kernel one_page 0x80030000) 0x80040000)) ?src 3
     (pipewrite 0 0x80040000 0x4FF0 (int 3) (sample_kernel one_page 0x80030000))"
    using pipewrite_appends [of "sample_kernel one_page 0x80030000" 0 "0x4FF0" 3 ?src "0x80040000"] one_page_inv r sample_pipe_ok
    by (simp add: NPROC_def)
  then show ?thesis by (intro exI [of _ ?src]) simp
qed

theorem piperead_takes_witness:
  "wp (piperead 0 0x80040000 0x4FF0 (int 3)) (\<lambda>r t. r = int (min 3 (length (pipe_bytes (pipes (sample_kernel one_page 0x80030000) 0x80040000)))) \<and>
     took (min 3 (length (pipe_bytes (pipes (sample_kernel one_page 0x80030000) 0x80040000)))) 0x80040000 0x80030000 0x4FF0 3
       (pipe_bytes (pipes (sample_kernel one_page 0x80030000) 0x80040000)) (sample_kernel one_page 0x80030000) t)
    (sample_kernel one_page 0x80030000)"
  by (rule piperead_takes)
    (use one_page_inv one_page_user_ok one_page_writable sample_pipe_ok sample_pipe_bytes in \<open>simp_all del: sample_kernel_simps(9)\<close>)

end
