(* ===== verification/Process.thy ===== *)
theory Process
  imports Filetab
begin

text \<open>
  The operations of \<^verbatim>\<open>kernel/proc.c\<close> that also touch files: the first process, \<^verbatim>\<open>fork\<close>, \<^verbatim>\<open>exit\<close> and \<^verbatim>\<open>wait\<close>.
\<close>

subsection \<open>The first process\<close>

definition initcode :: "u8 list" where
  "initcode = [
     0x17, 0x05, 0x00, 0x00, 0x13, 0x05, 0x45, 0x02,
     0x97, 0x05, 0x00, 0x00, 0x93, 0x85, 0x35, 0x02,
     0x93, 0x08, 0x70, 0x00, 0x73, 0x00, 0x00, 0x00,
     0x93, 0x08, 0x20, 0x00, 0x73, 0x00, 0x00, 0x00,
     0xef, 0xf0, 0x9f, 0xff, 0x2f, 0x69, 0x6e, 0x69,
     0x74, 0x00, 0x00, 0x24, 0x00, 0x00, 0x00, 0x00,
     0x00, 0x00, 0x00, 0x00]"

text \<open>\<open>garbage\<close> is what the stack holds where \<^verbatim>\<open>namei\<close> puts its buffer for path elements.\<close>

definition userinit :: "nat \<Rightarrow> u8 list \<Rightarrow> (kernel, unit) prog" where
  "userinit me garbage =
     bnd allocproc (\<lambda>p.
     andthen (modify (initproc_update (\<lambda>_. p)))
     (andthen (guard (p \<noteq> nullproc) (Fault ''userinit: p''))
     (bnd (gets (\<lambda>k. p_pagetable (proc_at k p))) (\<lambda>pt.
      andthen (in_kmem (uvmfirst pt initcode (of_nat (length initcode))))
      (andthen (modify (upd_proc p (p_sz_update (\<lambda>_. PGSIZE))))
      (andthen (tf_set p tf_epc 0)
      (andthen (tf_set p tf_sp PGSIZE)
      (andthen (modify (upd_proc p (p_name_update (\<lambda>v. safestrcpy v (str_of (ascii ''initcode'')) 16))))
      (bnd (fs_call me (\<lambda>c. namei c garbage [slash])) (\<lambda>ip.
       modify (upd_proc p (\<lambda>x. x\<lparr>p_cwd := ip, p_state := RUNNABLE\<rparr>))))))))))))"

subsection \<open>fork\<close>

definition dup_ofile :: "nat \<Rightarrow> nat \<Rightarrow> (kernel, unit) prog" where
  "dup_ofile p np = for_each [0..<NOFILE] (\<lambda>i.
     bnd (gets (\<lambda>k. p_ofile (proc_at k p) ! i)) (\<lambda>f.
     if f \<noteq> nullfile then
       bnd (filedup f) (\<lambda>f'. modify (upd_proc np (p_ofile_update (\<lambda>fs. fs[i := f']))))
     else ret ()))"

definition fork :: "nat \<Rightarrow> (kernel, int) prog" where
  "fork p =
     bnd allocproc (\<lambda>np.
     if np = nullproc then ret (- 1)
     else
       bnd (gets (\<lambda>k. (proc_at k p, proc_at k np))) (\<lambda>(x, y).
       bnd (in_kmem (uvmcopy (p_pagetable x) (p_pagetable y) (p_sz x))) (\<lambda>r.
       if r < 0 then andthen (freeproc np) (ret (- 1))
       else
         andthen (modify (upd_proc np (p_sz_update (\<lambda>_. p_sz x))))
         (andthen (in_kmem (modify (mem_store (\<lambda>m. memmove m (p_trapframe y) (p_trapframe x) tf_bytes))))
         (andthen (tf_set np tf_a0 0)
         (andthen (dup_ofile p np)
         (bnd (in_fs (idup (p_cwd x))) (\<lambda>cwd.
          andthen (modify (upd_proc np (p_cwd_update (\<lambda>_. cwd))))
          (andthen (modify (upd_proc np (p_name_update (\<lambda>v. safestrcpy v (str_of (p_name x)) 16))))
          (andthen (modify (upd_proc np (p_parent_update (\<lambda>_. p))))
          (andthen (modify (upd_proc np (p_state_update (\<lambda>_. RUNNABLE))))
          (ret (p_pid y)))))))))))))"

subsection \<open>exit and wait\<close>

definition reparent :: "nat \<Rightarrow> (kernel, unit) prog" where
  "reparent p = for_each [0..<NPROC] (\<lambda>q.
     bnd (gets (\<lambda>k. (p_parent (proc_at k q), initproc k))) (\<lambda>(par, init).
     if par = p then
       andthen (modify (upd_proc q (p_parent_update (\<lambda>_. init)))) (wakeup p (Ch_proc init))
     else ret ()))"

definition close_ofile :: "nat \<Rightarrow> (kernel, unit) prog" where
  "close_ofile p = for_each [0..<NOFILE] (\<lambda>fd.
     bnd (gets (\<lambda>k. p_ofile (proc_at k p) ! fd)) (\<lambda>f.
     if f \<noteq> nullfile then
       andthen (fileclose p f) (modify (upd_proc p (p_ofile_update (\<lambda>fs. fs[fd := nullfile]))))
     else ret ()))"

text \<open>The part of \<^verbatim>\<open>exit\<close> under \<^verbatim>\<open>wait_lock\<close>.\<close>

definition become_zombie :: "nat \<Rightarrow> u32 \<Rightarrow> (kernel, unit) prog" where
  "become_zombie p status =
     andthen (reparent p)
     (bnd (gets (\<lambda>k. p_parent (proc_at k p))) (\<lambda>par.
      andthen (wakeup p (Ch_proc par))
      (modify (upd_proc p (\<lambda>x. x\<lparr>p_xstate := status, p_state := ZOMBIE\<rparr>)))))"

definition exit :: "nat \<Rightarrow> u32 \<Rightarrow> (kernel, 'a) prog" where
  "exit p status =
     bnd (gets initproc) (\<lambda>init.
     if p = init then panic ''init exiting''
     else
       andthen (close_ofile p)
       (bnd (gets (\<lambda>k. p_cwd (proc_at k p))) (\<lambda>cwd.
        andthen (iput_op p cwd)
        (andthen (modify (upd_proc p (p_cwd_update (\<lambda>_. nullip))))
        (andthen (become_zombie p status)
        (sched p))))))"

text \<open>The scan of \<^verbatim>\<open>wait\<close>: the first zombie child, and whether there is a child.\<close>

primrec zombie_child :: "proc list \<Rightarrow> nat \<Rightarrow> nat \<Rightarrow> nat option" where
  "zombie_child [] p i = None"
| "zombie_child (x # xs) p i =
     (if p_parent x = p \<and> p_state x = ZOMBIE then Some i else zombie_child xs p (Suc i))"

definition havekids :: "proc list \<Rightarrow> nat \<Rightarrow> bool" where
  "havekids xs p \<longleftrightarrow> list_ex (\<lambda>x. p_parent x = p) xs"

definition wait :: "nat \<Rightarrow> u64 \<Rightarrow> (kernel, int) prog" where
  "wait p addr =
     bnd (gets (\<lambda>k. zombie_child (procs k) p 0)) (\<lambda>z.
     case z of
       Some pp \<Rightarrow>
         bnd (gets (\<lambda>k. (proc_at k pp, p_pagetable (proc_at k p)))) (\<lambda>(x, pt).
         bnd (if addr \<noteq> 0 then in_kmem (copyout pt addr (le32_bytes (p_xstate x)) 4) else ret 0) (\<lambda>r.
         if r < 0 then ret (- 1)
         else andthen (freeproc pp) (ret (p_pid x))))
     | None \<Rightarrow>
         bnd (gets (\<lambda>k. havekids (procs k) p)) (\<lambda>h.
         bnd (killed p) (\<lambda>kl.
         if \<not> h \<or> kl then ret (- 1) else sleep p (Ch_proc p))))"

end
