(* ===== verification/Exec.thy ===== *)
theory Exec
  imports Process
begin

text \<open>
  System call arguments (\<^verbatim>\<open>kernel/syscall.c\<close>) and program loading (\<^verbatim>\<open>kernel/exec.c\<close>). A string fetched from user
  memory is returned with the C result, without its NUL.
\<close>

definition MAXARG :: nat where [const_defs]: "MAXARG = 32"
definition MAXPATH :: u64 where [const_defs]: "MAXPATH = 128"
definition ELF_MAGIC :: u32 where [const_defs]: "ELF_MAGIC = 0x464C457F"
definition ELF_PROG_LOAD :: u32 where [const_defs]: "ELF_PROG_LOAD = 1"

definition get64 :: "u8 list \<Rightarrow> nat \<Rightarrow> u64" where
  "get64 bs off = ucast (get32 bs off) OR push_bit 32 (ucast (get32 bs (off + 4)))"

subsection \<open>Arguments\<close>

definition fetchaddr :: "nat \<Rightarrow> u64 \<Rightarrow> (kernel, int \<times> u64) prog" where
  "fetchaddr p addr =
     bnd (gets (\<lambda>k. proc_at k p)) (\<lambda>x.
     if addr \<ge> p_sz x \<or> addr + 8 > p_sz x then ret (- 1, 0)
     else bnd (in_kmem (copyin (p_pagetable x) addr 8)) (\<lambda>(r, bs).
       if r \<noteq> 0 then ret (- 1, 0) else ret (0, get64 bs 0)))"

definition fetchstr :: "nat \<Rightarrow> u64 \<Rightarrow> u64 \<Rightarrow> (kernel, int \<times> u8 list) prog" where
  "fetchstr p addr max' =
     bnd (gets (\<lambda>k. p_pagetable (proc_at k p))) (\<lambda>pt.
     bnd (in_kmem (copyinstr pt addr max')) (\<lambda>(r, bs).
     if r < 0 then ret (- 1, bs)
     else let s = takeWhile (\<lambda>c. c \<noteq> 0) bs in ret (int (length s), s)))"

definition argraw :: "nat \<Rightarrow> nat \<Rightarrow> (kernel, u64) prog" where
  "argraw p n = (if n \<le> 5 then tf_get p (tf_a0 + 8 * of_nat n) else panic ''argraw'')"

definition argint :: "nat \<Rightarrow> nat \<Rightarrow> (kernel, int) prog" where
  "argint p n = bnd (argraw p n) (\<lambda>v. ret (sint (ucast v :: u32)))"

definition argaddr :: "nat \<Rightarrow> nat \<Rightarrow> (kernel, u64) prog" where
  "argaddr p n = argraw p n"

definition argstr :: "nat \<Rightarrow> nat \<Rightarrow> u64 \<Rightarrow> (kernel, int \<times> u8 list) prog" where
  "argstr p n max' = bnd (argaddr p n) (\<lambda>addr. fetchstr p addr max')"

subsection \<open>Loading segments\<close>

definition flags2perm :: "u32 \<Rightarrow> u64" where
  "flags2perm flags =
     (let perm = (if flags AND 1 \<noteq> 0 then PTE_X else 0) in if flags AND 2 \<noteq> 0 then perm OR PTE_W else perm)"

text \<open>One page per round, up to \<open>sz\<close>; \<^verbatim>\<open>i\<close> is a 32-bit counter.\<close>

primrec loadseg_loop :: "nat \<Rightarrow> nat \<Rightarrow> u64 \<Rightarrow> u64 \<Rightarrow> nat \<Rightarrow> u32 \<Rightarrow> u32 \<Rightarrow> u32 \<Rightarrow> (kernel, int) prog" where
  "loadseg_loop 0 p pagetable va ip offset sz i = fails (Fault ''loadseg: out of fuel'')"
| "loadseg_loop (Suc fuel) p pagetable va ip offset sz i =
     (if i < sz then
        bnd (in_kmem (walkaddr pagetable (va + ucast i))) (\<lambda>pa.
        if pa = 0 then panic ''loadseg: address should exist''
        else
          let n = (if sz - i < ucast PGSIZE then sz - i else ucast PGSIZE) in
          bnd (fs_call p (\<lambda>c. readi c ip (Phys pa) (offset + i) n)) (\<lambda>r.
          if r \<noteq> int (unat n) then ret (- 1)
          else loadseg_loop fuel p pagetable va ip offset sz (i + ucast PGSIZE)))
      else ret 0)"

definition loadseg :: "nat \<Rightarrow> u64 \<Rightarrow> u64 \<Rightarrow> nat \<Rightarrow> u32 \<Rightarrow> u32 \<Rightarrow> (kernel, int) prog" where
  "loadseg p pagetable va ip offset sz = loadseg_loop (unat sz div 4096 + 2) p pagetable va ip offset sz 0"

text \<open>
  The loop over program headers, \<open>n\<close> of which are left; it returns whether it succeeded and \<^verbatim>\<open>sz\<close>. A header
  is read into a local variable of 56 bytes.
\<close>

primrec load_program :: "nat \<Rightarrow> nat \<Rightarrow> nat \<Rightarrow> u64 \<Rightarrow> u32 \<Rightarrow> u64 \<Rightarrow> (kernel, bool \<times> u64) prog" where
  "load_program 0 p ip pagetable off sz = ret (True, sz)"
| "load_program (Suc n) p ip pagetable off sz =
     bnd (fs_call p (\<lambda>c. readi c ip (Local 0) off 56)) (\<lambda>r.
     if r \<noteq> 56 then ret (False, sz)
     else bnd (gets (\<lambda>k. take 56 (stk (kfs k)))) (\<lambda>ph.
       let ty = get32 ph 0; flags = get32 ph 4; poff = get64 ph 8; vaddr = get64 ph 16;
           filesz = get64 ph 32; memsz = get64 ph 40
       in if ty \<noteq> ELF_PROG_LOAD then load_program n p ip pagetable (off + 56) sz
          else if memsz < filesz then ret (False, sz)
          else if vaddr + memsz < vaddr then ret (False, sz)
          else if vaddr mod PGSIZE \<noteq> 0 then ret (False, sz)
          else bnd (in_kmem (uvmalloc pagetable sz (vaddr + memsz) (flags2perm flags))) (\<lambda>sz1.
            if sz1 = 0 then ret (False, sz)
            else bnd (loadseg p pagetable vaddr ip (ucast poff) (ucast filesz)) (\<lambda>r.
              if r < 0 then ret (False, sz1)
              else load_program n p ip pagetable (off + 56) sz1))))"

subsection \<open>The user stack\<close>

text \<open>A kernel string in physical memory, as \<^verbatim>\<open>strlen\<close> and \<^verbatim>\<open>copyout\<close> read it.\<close>

definition mem_string :: "kernel \<Rightarrow> u64 \<Rightarrow> cstring" where
  "mem_string k a = (\<lambda>i. mem (fmem (kfs k)) (a + of_nat i))"

text \<open>
  Pushing the argument strings: \<^verbatim>\<open>argv\<close> is the array of \<open>MAXARG\<close> pointers, \<^verbatim>\<open>ustack\<close> collects the user
  addresses. \<open>None\<close> is a jump to \<^verbatim>\<open>bad\<close>.
\<close>

primrec push_args :: "nat \<Rightarrow> u64 \<Rightarrow> u64 list \<Rightarrow> u64 \<Rightarrow> nat \<Rightarrow> u64 \<Rightarrow> u64 list \<Rightarrow> (kernel, (nat \<times> u64 \<times> u64 list) option) prog" where
  "push_args 0 pagetable argv stackbase argc sp ustack = fails (Fault ''exec: argv'')"
| "push_args (Suc fuel) pagetable argv stackbase argc sp ustack =
     andthen (guard (argc < length argv) (Fault ''exec: argv''))
     (if argv ! argc = 0 then ret (Some (argc, sp, ustack))
      else if argc \<ge> MAXARG then ret None
      else bnd (gets (\<lambda>k. mem_string k (argv ! argc))) (\<lambda>s.
        case strlen s of
          None \<Rightarrow> fails (Spins ''strlen'')
        | Some len \<Rightarrow>
            let sp1 = sp - (of_nat len + 1); sp2 = sp1 - sp1 mod 16 in
            if sp2 < stackbase then ret None
            else bnd (in_kmem (copyout pagetable sp2 (map s [0..<Suc len]) (of_nat len + 1))) (\<lambda>r.
              if r < 0 then ret None
              else push_args fuel pagetable argv stackbase (Suc argc) sp2 (ustack @ [sp2]))))"

definition path_last :: "u8 list \<Rightarrow> u8 list" where
  "path_last path = rev (takeWhile (\<lambda>c. c \<noteq> slash) (rev path))"

subsection \<open>exec\<close>

text \<open>The code at \<^verbatim>\<open>bad\<close>; \<open>ip\<close> is null once the inode has been released.\<close>

definition exec_bad :: "nat \<Rightarrow> u64 \<Rightarrow> u64 \<Rightarrow> nat \<Rightarrow> (kernel, int) prog" where
  "exec_bad p pagetable sz ip =
     andthen (if pagetable \<noteq> 0 then in_kmem (proc_freepagetable pagetable sz) else ret ())
     (andthen (if ip \<noteq> nullip then fs_call p (\<lambda>c. andthen (iunlockput c ip) (in_log (end_op (cpid c)))) else ret ())
     (ret (- 1)))"

text \<open>From the stack on, with the program loaded and the inode released.\<close>

definition exec_commit :: "nat \<Rightarrow> u8 list \<Rightarrow> u64 list \<Rightarrow> u8 list \<Rightarrow> u64 \<Rightarrow> u64 \<Rightarrow> (kernel, int) prog" where
  "exec_commit p path argv elf pagetable sz0 =
     bnd (gets (\<lambda>k. p_sz (proc_at k p))) (\<lambda>oldsz.
     let sz = PGROUNDUP sz0 in
     bnd (in_kmem (uvmalloc pagetable sz (sz + 2 * PGSIZE) PTE_W)) (\<lambda>sz1.
     if sz1 = 0 then exec_bad p pagetable sz nullip
     else
       andthen (in_kmem (uvmclear pagetable (sz1 - 2 * PGSIZE)))
       (bnd (push_args (Suc MAXARG) pagetable argv (sz1 - PGSIZE) 0 sz1 []) (\<lambda>r.
        case r of
          None \<Rightarrow> exec_bad p pagetable sz1 nullip
        | Some (argc, sp, ustack) \<Rightarrow>
            let sp1 = sp - (of_nat argc + 1) * 8; sp2 = sp1 - sp1 mod 16 in
            if sp2 < sz1 - PGSIZE then exec_bad p pagetable sz1 nullip
            else bnd (in_kmem (copyout pagetable sp2 (concat (map (le_bytes 8) (ustack @ [0]))) ((of_nat argc + 1) * 8))) (\<lambda>r.
              if r < 0 then exec_bad p pagetable sz1 nullip
              else
                andthen (tf_set p tf_a1 sp2)
                (andthen (modify (upd_proc p (p_name_update (\<lambda>v. safestrcpy v (str_of (path_last path)) 16))))
                (bnd (gets (\<lambda>k. p_pagetable (proc_at k p))) (\<lambda>oldpagetable.
                 andthen (modify (upd_proc p (\<lambda>x. x\<lparr>p_pagetable := pagetable, p_sz := sz1\<rparr>)))
                 (andthen (tf_set p tf_epc (get64 elf 24))
                 (andthen (tf_set p tf_sp sp2)
                 (andthen (in_kmem (proc_freepagetable oldpagetable oldsz))
                 (ret (int argc)))))))))))))"

definition exec :: "nat \<Rightarrow> u8 list \<Rightarrow> u8 list \<Rightarrow> u64 list \<Rightarrow> (kernel, int) prog" where
  "exec p garbage path argv =
     andthen (in_fs (in_log begin_op))
     (bnd (fs_call p (\<lambda>c. namei c garbage path)) (\<lambda>ip.
      if ip = nullip then andthen (fs_call p (\<lambda>c. in_log (end_op (cpid c)))) (ret (- 1))
      else
        andthen (fs_call p (\<lambda>c. ilock c ip))
        (bnd (fs_call p (\<lambda>c. readi c ip (Local 0) 0 64)) (\<lambda>r.
         if r \<noteq> 64 then exec_bad p 0 0 ip
         else bnd (gets (\<lambda>k. take 64 (stk (kfs k)))) (\<lambda>elf.
           if get32 elf 0 \<noteq> ELF_MAGIC then exec_bad p 0 0 ip
           else bnd (proc_pagetable p) (\<lambda>pagetable.
             if pagetable = 0 then exec_bad p 0 0 ip
             else bnd (load_program (unat (get16 elf 56)) p ip pagetable (ucast (get64 elf 32)) 0) (\<lambda>(ok, sz).
               if \<not> ok then exec_bad p pagetable sz ip
               else
                 andthen (fs_call p (\<lambda>c. andthen (iunlockput c ip) (in_log (end_op (cpid c)))))
                 (exec_commit p path argv elf pagetable sz))))))))"

end
