(* ===== verification/Sysfile.thy ===== *)
theory Sysfile
  imports Exec
begin

text \<open>
  \<^verbatim>\<open>kernel/sysfile.c\<close>: the system calls on files. The transactions of \<^verbatim>\<open>link\<close>, \<^verbatim>\<open>unlink\<close> and \<^verbatim>\<open>create\<close> run on the
  file-system state; the system calls around them fetch arguments from the trapframe and user memory.
  \<open>g\<close> stands for the initial contents of the local buffers \<^verbatim>\<open>name[DIRSIZ]\<close>.
\<close>

subsection \<open>File descriptors\<close>

text \<open>\<^verbatim>\<open>argfd\<close> returns its result, the descriptor and the file.\<close>

definition argfd :: "nat \<Rightarrow> nat \<Rightarrow> (kernel, int \<times> nat \<times> nat) prog" where
  "argfd p n =
     bnd (argint p n) (\<lambda>fd.
     bnd (gets (\<lambda>k. p_ofile (proc_at k p))) (\<lambda>fs.
     if fd < 0 \<or> fd \<ge> int NOFILE \<or> fs ! nat fd = nullfile then ret (- 1, 0, nullfile)
     else ret (0, nat fd, fs ! nat fd)))"

primrec free_fd :: "nat list \<Rightarrow> nat \<Rightarrow> nat option" where
  "free_fd [] fd = None"
| "free_fd (f # fs) fd = (if f = nullfile then Some fd else free_fd fs (Suc fd))"

definition fdalloc :: "nat \<Rightarrow> nat \<Rightarrow> (kernel, int) prog" where
  "fdalloc p f =
     bnd (gets (\<lambda>k. free_fd (p_ofile (proc_at k p)) 0)) (\<lambda>r.
     case r of
       Some fd \<Rightarrow> andthen (modify (upd_proc p (p_ofile_update (\<lambda>fs. fs[fd := f])))) (ret (int fd))
     | None \<Rightarrow> ret (- 1))"

definition sys_dup :: "nat \<Rightarrow> (kernel, int) prog" where
  "sys_dup p =
     bnd (argfd p 0) (\<lambda>(r, _, f).
     if r < 0 then ret (- 1)
     else bnd (fdalloc p f) (\<lambda>fd.
       if fd < 0 then ret (- 1) else andthen (filedup f) (ret fd)))"

definition sys_read :: "nat \<Rightarrow> (kernel, int) prog" where
  "sys_read p =
     bnd (argaddr p 1) (\<lambda>addr. bnd (argint p 2) (\<lambda>n. bnd (argfd p 0) (\<lambda>(r, _, f).
     if r < 0 then ret (- 1) else fileread p f addr n)))"

definition sys_write :: "nat \<Rightarrow> (kernel, int) prog" where
  "sys_write p =
     bnd (argaddr p 1) (\<lambda>addr. bnd (argint p 2) (\<lambda>n. bnd (argfd p 0) (\<lambda>(r, _, f).
     if r < 0 then ret (- 1) else filewrite p f addr n)))"

definition sys_close :: "nat \<Rightarrow> (kernel, int) prog" where
  "sys_close p =
     bnd (argfd p 0) (\<lambda>(r, fd, f).
     if r < 0 then ret (- 1)
     else andthen (modify (upd_proc p (p_ofile_update (\<lambda>fs. fs[fd := nullfile]))))
       (andthen (fileclose p f) (ret 0)))"

definition sys_fstat :: "nat \<Rightarrow> u8 list \<Rightarrow> (kernel, int) prog" where
  "sys_fstat p pad =
     bnd (argaddr p 1) (\<lambda>st. bnd (argfd p 0) (\<lambda>(r, _, f).
     if r < 0 then ret (- 1) else filestat p pad f st))"

subsection \<open>Links\<close>

abbreviation fs_end_op :: "cur \<Rightarrow> int \<Rightarrow> (fsys, int) prog" where
  "fs_end_op c r \<equiv> andthen (in_log (end_op (cpid c))) (ret r)"

definition add_nlink :: "nat \<Rightarrow> u16 \<Rightarrow> (fsys, unit) prog" where
  "add_nlink ip d = modify (upd_inode ip (i_nlink_update (\<lambda>n. n + d)))"

definition link_bad :: "cur \<Rightarrow> nat \<Rightarrow> (fsys, int) prog" where
  "link_bad c ip =
     andthen (ilock c ip) (andthen (add_nlink ip (- 1)) (andthen (iupdate c ip) (andthen (iunlockput c ip) (fs_end_op c (- 1)))))"

definition link_op :: "cur \<Rightarrow> u8 list \<Rightarrow> u8 list \<Rightarrow> u8 list \<Rightarrow> (fsys, int) prog" where
  "link_op c g old new =
     andthen (in_log begin_op)
     (bnd (namei c g old) (\<lambda>ip.
      if ip = nullip then fs_end_op c (- 1)
      else
        andthen (ilock c ip)
        (bnd (gets (\<lambda>s. inode_at s ip)) (\<lambda>x.
         if i_type x = T_DIR then andthen (iunlockput c ip) (fs_end_op c (- 1))
         else
           andthen (add_nlink ip 1) (andthen (iupdate c ip) (andthen (iunlock c ip)
           (bnd (nameiparent c new g) (\<lambda>(dp, name).
            if dp = nullip then link_bad c ip
            else
              andthen (ilock c dp)
              (bnd (gets (\<lambda>s. (i_dev (inode_at s dp), inode_at s ip))) (\<lambda>(d, x).
               bnd (if d \<noteq> i_dev x then ret (- 1) else dirlink c dp name (i_num x)) (\<lambda>r.
               if r < 0 then andthen (iunlockput c dp) (link_bad c ip)
               else andthen (iunlockput c dp) (andthen (iput c ip) (fs_end_op c 0)))))))))))))"

definition sys_link :: "nat \<Rightarrow> u8 list \<Rightarrow> (kernel, int) prog" where
  "sys_link p g =
     bnd (argstr p 0 MAXPATH) (\<lambda>(r, old).
     if r < 0 then ret (- 1)
     else bnd (argstr p 1 MAXPATH) (\<lambda>(r, new).
       if r < 0 then ret (- 1) else fs_call p (\<lambda>c. link_op c g old new)))"

text \<open>\<^verbatim>\<open>isdirempty\<close>: only the entries for \<open>.\<close> and \<open>..\<close> are in use.\<close>

primrec isdirempty_from :: "nat \<Rightarrow> cur \<Rightarrow> nat \<Rightarrow> u32 \<Rightarrow> (fsys, bool) prog" where
  "isdirempty_from 0 c dp off = fails (Fault ''isdirempty: out of fuel'')"
| "isdirempty_from (Suc fuel) c dp off =
     bnd (gets (\<lambda>s. i_size (inode_at s dp))) (\<lambda>size.
     if off < size then
       bnd (read_dirent c dp ''isdirempty: readi'' off) (\<lambda>de.
       if de_inum de \<noteq> 0 then ret False else isdirempty_from fuel c dp (off + dirent_size))
     else ret True)"

definition isdirempty :: "cur \<Rightarrow> nat \<Rightarrow> (fsys, bool) prog" where
  "isdirempty c dp =
     bnd (gets (\<lambda>s. i_size (inode_at s dp))) (\<lambda>size. isdirempty_from (unat size div 16 + 2) c dp (2 * dirent_size))"

definition unlink_op :: "cur \<Rightarrow> u8 list \<Rightarrow> u8 list \<Rightarrow> (fsys, int) prog" where
  "unlink_op c g path =
     andthen (in_log begin_op)
     (bnd (nameiparent c path g) (\<lambda>(dp, name).
      if dp = nullip then fs_end_op c (- 1)
      else
        let bad = andthen (iunlockput c dp) (fs_end_op c (- 1)) in
        andthen (ilock c dp)
        (if namecmp name [46] = 0 \<or> namecmp name [46, 46] = 0 then bad
         else bnd (dirlookup c dp name) (\<lambda>(ip, off).
           if ip = nullip then bad
           else
             andthen (ilock c ip)
             (bnd (gets (\<lambda>s. inode_at s ip)) (\<lambda>x.
              if sint (i_nlink x) < 1 then panic ''unlink: nlink < 1''
              else bnd (if i_type x = T_DIR then isdirempty c ip else ret True) (\<lambda>e.
                if \<not> e then andthen (iunlockput c ip) bad
                else
                  andthen (modify (stk_update (\<lambda>v. splice_at v 0 (replicate 16 0))))
                  (bnd (writei c dp (Local 0) off dirent_size) (\<lambda>r.
                   if r \<noteq> 16 then panic ''unlink: writei''
                   else
                     andthen (if i_type x = T_DIR then andthen (add_nlink dp (- 1)) (iupdate c dp) else ret ())
                     (andthen (iunlockput c dp)
                     (andthen (add_nlink ip (- 1))
                     (andthen (iupdate c ip)
                     (andthen (iunlockput c ip)
                     (fs_end_op c 0))))))))))))))"

definition sys_unlink :: "nat \<Rightarrow> u8 list \<Rightarrow> (kernel, int) prog" where
  "sys_unlink p g =
     bnd (argstr p 0 MAXPATH) (\<lambda>(r, path).
     if r < 0 then ret (- 1) else fs_call p (\<lambda>c. unlink_op c g path))"

subsection \<open>Creating\<close>

definition create_fail :: "cur \<Rightarrow> nat \<Rightarrow> nat \<Rightarrow> (fsys, nat) prog" where
  "create_fail c ip dp =
     andthen (modify (upd_inode ip (i_nlink_update (\<lambda>_. 0))))
     (andthen (iupdate c ip) (andthen (iunlockput c ip) (andthen (iunlockput c dp) (ret nullip))))"

definition create :: "cur \<Rightarrow> u8 list \<Rightarrow> u8 list \<Rightarrow> u16 \<Rightarrow> u16 \<Rightarrow> u16 \<Rightarrow> (fsys, nat) prog" where
  "create c g path ty major minor =
     bnd (nameiparent c path g) (\<lambda>(dp, name).
     if dp = nullip then ret nullip
     else
       andthen (ilock c dp)
       (bnd (dirlookup c dp name) (\<lambda>(ip, _).
        if ip \<noteq> nullip then
          andthen (iunlockput c dp) (andthen (ilock c ip)
          (bnd (gets (\<lambda>s. i_type (inode_at s ip))) (\<lambda>t.
           if ty = T_FILE \<and> (t = T_FILE \<or> t = T_DEVICE) then ret ip
           else andthen (iunlockput c ip) (ret nullip))))
        else
          bnd (gets (\<lambda>s. i_dev (inode_at s dp))) (\<lambda>d.
          bnd (ialloc c d ty) (\<lambda>ip.
          if ip = nullip then andthen (iunlockput c dp) (ret nullip)
          else
            andthen (ilock c ip)
            (andthen (modify (upd_inode ip (\<lambda>x. x\<lparr>i_major := major, i_minor := minor, i_nlink := 1\<rparr>)))
            (andthen (iupdate c ip)
            (bnd (gets (\<lambda>s. (i_num (inode_at s ip), i_num (inode_at s dp)))) (\<lambda>(inum, dinum).
             bnd (if ty = T_DIR then
                    bnd (dirlink c ip [46] inum) (\<lambda>r. if r < 0 then ret r else dirlink c ip [46, 46] dinum)
                  else ret 0) (\<lambda>r.
             if r < 0 then create_fail c ip dp
             else bnd (dirlink c dp name inum) (\<lambda>r.
               if r < 0 then create_fail c ip dp
               else
                 andthen (if ty = T_DIR then andthen (add_nlink dp 1) (iupdate c dp) else ret ())
                 (andthen (iunlockput c dp) (ret ip)))))))))))))"

text \<open>
  \<^verbatim>\<open>open\<close>: the lookup in the transaction, then the file and descriptor, which need the process.
\<close>

definition open_inode :: "cur \<Rightarrow> u8 list \<Rightarrow> u8 list \<Rightarrow> int \<Rightarrow> (fsys, nat) prog" where
  "open_inode c g path omode =
     andthen (in_log begin_op)
     (bnd (if omode AND O_CREATE \<noteq> 0 then create c g path T_FILE 0 0
           else
             bnd (namei c g path) (\<lambda>ip.
             if ip = nullip then ret nullip
             else andthen (ilock c ip)
               (bnd (gets (\<lambda>s. i_type (inode_at s ip))) (\<lambda>t.
                if t = T_DIR \<and> omode \<noteq> 0 then andthen (iunlockput c ip) (ret nullip) else ret ip)))) (\<lambda>ip.
      if ip = nullip then andthen (in_log (end_op (cpid c))) (ret nullip)
      else
        bnd (gets (\<lambda>s. inode_at s ip)) (\<lambda>x.
        if i_type x = T_DEVICE \<and> (sint (i_major x) < 0 \<or> sint (i_major x) \<ge> int NDEV) then
          andthen (iunlockput c ip) (andthen (in_log (end_op (cpid c))) (ret nullip))
        else ret ip)))"

definition sys_open :: "nat \<Rightarrow> u8 list \<Rightarrow> (kernel, int) prog" where
  "sys_open p g =
     bnd (argint p 1) (\<lambda>omode.
     bnd (argstr p 0 MAXPATH) (\<lambda>(n, path).
     if n < 0 then ret (- 1)
     else bnd (fs_call p (\<lambda>c. open_inode c g path omode)) (\<lambda>ip.
       if ip = nullip then ret (- 1)
       else bnd filealloc (\<lambda>f.
         bnd (if f = nullfile then ret (- 1) else fdalloc p f) (\<lambda>fd.
         if fd < 0 then
           andthen (if f \<noteq> nullfile then fileclose p f else ret ())
           (fs_call p (\<lambda>c. andthen (iunlockput c ip) (fs_end_op c (- 1))))
         else
           bnd (gets (\<lambda>k. inode_at (kfs k) ip)) (\<lambda>x.
           andthen (modify (upd_file f (\<lambda>y.
              if i_type x = T_DEVICE then y\<lparr>f_type := FD_DEVICE, f_major := i_major x\<rparr>
              else y\<lparr>f_type := FD_INODE, f_off := 0\<rparr>)))
           (andthen (modify (upd_file f (\<lambda>y. y\<lparr>f_ip := ip, f_readable := (omode AND O_WRONLY = 0),
              f_writable := (omode AND O_WRONLY \<noteq> 0 \<or> omode AND O_RDWR \<noteq> 0)\<rparr>)))
           (fs_call p (\<lambda>c.
              andthen (if omode AND O_TRUNC \<noteq> 0 \<and> i_type x = T_FILE then itrunc c ip else ret ())
              (andthen (iunlock c ip) (fs_end_op c fd)))))))))))"

definition sys_mkdir :: "nat \<Rightarrow> u8 list \<Rightarrow> (kernel, int) prog" where
  "sys_mkdir p g =
     andthen (in_fs (in_log begin_op))
     (bnd (argstr p 0 MAXPATH) (\<lambda>(r, path).
      fs_call p (\<lambda>c.
        bnd (if r < 0 then ret nullip else create c g path T_DIR 0 0) (\<lambda>ip.
        if ip = nullip then fs_end_op c (- 1)
        else andthen (iunlockput c ip) (fs_end_op c 0)))))"

definition sys_mknod :: "nat \<Rightarrow> u8 list \<Rightarrow> (kernel, int) prog" where
  "sys_mknod p g =
     andthen (in_fs (in_log begin_op))
     (bnd (argint p 1) (\<lambda>major. bnd (argint p 2) (\<lambda>minor. bnd (argstr p 0 MAXPATH) (\<lambda>(r, path).
      fs_call p (\<lambda>c.
        bnd (if r < 0 then ret nullip else create c g path T_DEVICE (word_of_int major) (word_of_int minor)) (\<lambda>ip.
        if ip = nullip then fs_end_op c (- 1)
        else andthen (iunlockput c ip) (fs_end_op c 0)))))))"

definition sys_chdir :: "nat \<Rightarrow> u8 list \<Rightarrow> (kernel, int) prog" where
  "sys_chdir p g =
     andthen (in_fs (in_log begin_op))
     (bnd (argstr p 0 MAXPATH) (\<lambda>(r, path).
      bnd (fs_call p (\<lambda>c.
        bnd (if r < 0 then ret nullip else namei c g path) (\<lambda>ip.
        if ip = nullip then andthen (in_log (end_op (cpid c))) (ret nullip)
        else
          andthen (ilock c ip)
          (bnd (gets (\<lambda>s. i_type (inode_at s ip))) (\<lambda>t.
           if t \<noteq> T_DIR then andthen (iunlockput c ip) (andthen (in_log (end_op (cpid c))) (ret nullip))
           else andthen (iunlock c ip) (andthen (iput c (ccwd c)) (andthen (in_log (end_op (cpid c))) (ret ip)))))))) (\<lambda>ip.
      if ip = nullip then ret (- 1)
      else andthen (modify (upd_proc p (p_cwd_update (\<lambda>_. ip)))) (ret 0))))"

subsection \<open>exec and pipe\<close>

text \<open>
  \<^verbatim>\<open>sys_exec\<close>: each argument string gets a page. \<open>fetch_args\<close> fills \<^verbatim>\<open>argv\<close> from entry \<open>i\<close> on and returns
  whether it succeeded.
\<close>

primrec fetch_args :: "nat \<Rightarrow> nat \<Rightarrow> u64 \<Rightarrow> nat \<Rightarrow> u64 list \<Rightarrow> (kernel, bool \<times> u64 list) prog" where
  "fetch_args 0 p uargv i argv = ret (False, argv)"
| "fetch_args (Suc fuel) p uargv i argv =
     (if i \<ge> MAXARG then ret (False, argv)
      else bnd (fetchaddr p (uargv + 8 * of_nat i)) (\<lambda>(r, uarg).
        if r < 0 then ret (False, argv)
        else if uarg = 0 then ret (True, argv[i := 0])
        else bnd (in_kmem kalloc) (\<lambda>a.
          if a = 0 then ret (False, argv[i := a])
          else bnd (gets (\<lambda>k. p_pagetable (proc_at k p))) (\<lambda>pt.
            bnd (in_kmem (copyinstr pt uarg PGSIZE)) (\<lambda>(r, bs).
            andthen (in_kmem (modify (mem_store (\<lambda>m. write_bytes m a bs))))
            (if r < 0 then ret (False, argv[i := a])
             else fetch_args fuel p uargv (Suc i) (argv[i := a])))))))"

primrec free_args :: "u64 list \<Rightarrow> (kernel, unit) prog" where
  "free_args [] = ret ()"
| "free_args (a # argv) = (if a \<noteq> 0 then andthen (in_kmem (kfree a)) (free_args argv) else ret ())"

definition sys_exec :: "nat \<Rightarrow> u8 list \<Rightarrow> (kernel, int) prog" where
  "sys_exec p g =
     bnd (argaddr p 1) (\<lambda>uargv.
     bnd (argstr p 0 MAXPATH) (\<lambda>(r, path).
     if r < 0 then ret (- 1)
     else bnd (fetch_args (Suc MAXARG) p uargv 0 (replicate MAXARG 0)) (\<lambda>(ok, argv).
       if \<not> ok then andthen (free_args argv) (ret (- 1))
       else bnd (exec p g path argv) (\<lambda>r. andthen (free_args argv) (ret r)))))"

definition sys_pipe :: "nat \<Rightarrow> (kernel, int) prog" where
  "sys_pipe p =
     bnd (argaddr p 0) (\<lambda>fdarray.
     bnd (pipealloc p) (\<lambda>(r, rf, wf).
     if r < 0 then ret (- 1)
     else
       let close = andthen (fileclose p rf) (andthen (fileclose p wf) (ret (- 1)));
           clear = (\<lambda>fd. modify (upd_proc p (p_ofile_update (\<lambda>fs. fs[nat fd := nullfile])))) in
       bnd (fdalloc p rf) (\<lambda>fd0.
       bnd (if fd0 < 0 then ret (- 1) else fdalloc p wf) (\<lambda>fd1.
       if fd1 < 0 then andthen (if fd0 \<ge> 0 then clear fd0 else ret ()) close
       else
         bnd (gets (\<lambda>k. p_pagetable (proc_at k p))) (\<lambda>pt.
         bnd (in_kmem (copyout pt fdarray (le_bytes 4 (word_of_int fd0 :: u32)) 4)) (\<lambda>r0.
         bnd (if r0 < 0 then ret (- 1) else in_kmem (copyout pt (fdarray + 4) (le_bytes 4 (word_of_int fd1 :: u32)) 4)) (\<lambda>r1.
         if r1 < 0 then andthen (clear fd0) (andthen (clear fd1) close) else ret 0)))))))"

end
