(* ===== verification/Virtio.thy ===== *)
theory Virtio
  imports Bio Ring
begin

text \<open>
  The disk driver, \<^verbatim>\<open>kernel/virtio_disk.c\<close>: the descriptor table, the ring of requests made available to the
  device, and the ring of requests the device has finished. A request is a chain of three descriptors (header,
  data, status byte). The state holds the driver's own variables, the memory it shares with the device, the
  buffers, and of the device its sectors, the number of available entries it has fetched and the requests it
  works on. The model splits \<^verbatim>\<open>virtio_disk_rw\<close> at the place where it waits for the interrupt: \<open>rw_submit\<close> and
  \<open>rw_finish\<close> each run in one critical section of \<^verbatim>\<open>vdisk_lock\<close>.
\<close>

subsection \<open>Data\<close>

definition NUM :: nat where [const_defs]: "NUM = 8"
definition VRING_DESC_F_NEXT :: u16 where [const_defs]: "VRING_DESC_F_NEXT = 1"
definition VRING_DESC_F_WRITE :: u16 where [const_defs]: "VRING_DESC_F_WRITE = 2"
definition VIRTIO_BLK_T_IN :: u32 where [const_defs]: "VIRTIO_BLK_T_IN = 0"
definition VIRTIO_BLK_T_OUT :: u32 where [const_defs]: "VIRTIO_BLK_T_OUT = 1"

text \<open>The addresses a descriptor can hold: null, \<^verbatim>\<open>&disk.ops[i]\<close>, \<^verbatim>\<open>b->data\<close> and \<^verbatim>\<open>&disk.info[i].status\<close>.\<close>

datatype dma = A_null | A_ops nat | A_data nat | A_status nat

record virtq_desc =
  vd_addr :: dma
  vd_len :: u32
  vd_flags :: u16
  vd_next :: u16

record virtio_blk_req =
  rq_type :: u32
  rq_reserved :: u32
  rq_sector :: u64

record vbuf =
  b_disk :: bool
  b_blockno :: u32
  b_data :: block

record vdisk =
  desc :: "virtq_desc list"
  avail_ring :: "u16 list"
  avail_idx :: u16
  used_ring :: "u32 list"
  dev_used_idx :: u16
  free_map :: "bool list"
  used_idx :: u16
  info_b :: "nat option list"
  info_status :: "u8 list"
  ops :: "virtio_blk_req list"
  vbufs :: "nat \<Rightarrow> vbuf"
  sectors :: "u64 \<Rightarrow> u8 list"
  dev_avail_idx :: u16
  dev_work :: "nat list"

subsection \<open>Descriptors\<close>

definition alloc_desc :: "(vdisk, int) prog" where
  "alloc_desc =
     bnd (gets (\<lambda>s. List.find (\<lambda>i. free_map s ! i) [0..<NUM])) (\<lambda>r.
     case r of
       Some i \<Rightarrow> andthen (modify (free_map_update (\<lambda>f. f[i := False]))) (ret (int i))
     | None \<Rightarrow> ret (- 1))"

definition free_desc :: "nat \<Rightarrow> (vdisk, unit) prog" where
  "free_desc i =
     bnd (gets (\<lambda>s. free_map s ! i)) (\<lambda>f.
     if i \<ge> NUM then panic ''free_desc 1''
     else if f then panic ''free_desc 2''
     else andthen (modify (desc_update (\<lambda>d. d[i := \<lparr>vd_addr = A_null, vd_len = 0, vd_flags = 0, vd_next = 0\<rparr>])))
       (modify (free_map_update (\<lambda>f. f[i := True]))))"

text \<open>
  Each round of \<^verbatim>\<open>free_chain\<close> frees one more descriptor, so \<open>NUM + 1\<close> rounds are enough. What a round reads through a link out of
  the table does not matter, because \<^verbatim>\<open>free_desc\<close> then panics.
\<close>

primrec free_chain_loop :: "nat \<Rightarrow> nat \<Rightarrow> (vdisk, unit) prog" where
  "free_chain_loop 0 i = fails (Fault ''free_chain: out of fuel'')"
| "free_chain_loop (Suc fuel) i =
     bnd (gets (\<lambda>s. desc s ! i)) (\<lambda>d.
     andthen (free_desc i)
     (if vd_flags d AND VRING_DESC_F_NEXT \<noteq> 0 then free_chain_loop fuel (unat (vd_next d)) else ret ()))"

definition free_chain :: "nat \<Rightarrow> (vdisk, unit) prog" where
  "free_chain i = free_chain_loop (Suc NUM) i"

text \<open>\<^verbatim>\<open>alloc3_desc\<close>; \<open>idx\<close> are the entries of the array filled so far.\<close>

primrec alloc_descs :: "nat \<Rightarrow> nat list \<Rightarrow> (vdisk, nat list option) prog" where
  "alloc_descs 0 idx = ret (Some idx)"
| "alloc_descs (Suc n) idx =
     bnd alloc_desc (\<lambda>i.
     if i < 0 then andthen (for_each idx free_desc) (ret None)
     else alloc_descs n (idx @ [nat i]))"

definition alloc3_desc :: "(vdisk, nat list option) prog" where
  "alloc3_desc = alloc_descs 3 []"

subsection \<open>Requests\<close>

definition set_desc :: "nat \<Rightarrow> dma \<Rightarrow> u32 \<Rightarrow> u16 \<Rightarrow> u16 \<Rightarrow> (vdisk, unit) prog" where
  "set_desc i a l f n = modify (desc_update (\<lambda>d. d[i := \<lparr>vd_addr = a, vd_len = l, vd_flags = f, vd_next = n\<rparr>]))"

text \<open>\<^verbatim>\<open>virtio_disk_rw\<close> up to the notification of the device; it returns \<^verbatim>\<open>idx[0]\<close>.\<close>

definition rw_submit :: "nat \<Rightarrow> bool \<Rightarrow> (vdisk, nat list) prog" where
  "rw_submit b write =
     bnd (gets (\<lambda>s. ucast (b_blockno (vbufs s b) * of_nat (BSIZE div 512)) :: u64)) (\<lambda>sector.
     bnd alloc3_desc (\<lambda>r.
     case r of
       None \<Rightarrow> fails (Sleeps ''virtio_disk_rw: free'')
     | Some idx \<Rightarrow>
         andthen (modify (ops_update (\<lambda>o'. o'[idx ! 0 :=
           \<lparr>rq_type = (if write then VIRTIO_BLK_T_OUT else VIRTIO_BLK_T_IN), rq_reserved = 0, rq_sector = sector\<rparr>])))
         (andthen (set_desc (idx ! 0) (A_ops (idx ! 0)) 16 VRING_DESC_F_NEXT (of_nat (idx ! 1)))
         (andthen (set_desc (idx ! 1) (A_data b) (of_nat BSIZE)
            ((if write then 0 else VRING_DESC_F_WRITE) OR VRING_DESC_F_NEXT) (of_nat (idx ! 2)))
         (andthen (modify (info_status_update (\<lambda>st. st[idx ! 0 := 0xff])))
         (andthen (set_desc (idx ! 2) (A_status (idx ! 0)) 1 VRING_DESC_F_WRITE 0)
         (andthen (modify (vbufs_update (\<lambda>bs. bs(b := (bs b)\<lparr>b_disk := True\<rparr>))))
         (andthen (modify (info_b_update (\<lambda>ib. ib[idx ! 0 := Some b])))
         (andthen (modify (\<lambda>s. s\<lparr>avail_ring := (avail_ring s)[unat (avail_idx s) mod NUM := of_nat (idx ! 0)]\<rparr>))
         (andthen (modify (avail_idx_update (\<lambda>i. i + 1)))
         (ret idx)))))))))))"

text \<open>The rest of \<^verbatim>\<open>virtio_disk_rw\<close>, entered again after each sleep.\<close>

definition rw_finish :: "nat \<Rightarrow> nat \<Rightarrow> (vdisk, unit) prog" where
  "rw_finish b i =
     bnd (gets (\<lambda>s. b_disk (vbufs s b))) (\<lambda>d.
     if d then fails (Sleeps ''virtio_disk_rw: b'')
     else andthen (modify (info_b_update (\<lambda>ib. ib[i := None]))) (free_chain i))"

primrec intr_loop :: "nat \<Rightarrow> (vdisk, unit) prog" where
  "intr_loop 0 = fails (Fault ''virtio_disk_intr: out of fuel'')"
| "intr_loop (Suc fuel) =
     bnd (gets (\<lambda>s. s)) (\<lambda>s.
     if used_idx s = dev_used_idx s then ret ()
     else
       let i = unat (used_ring s ! (unat (used_idx s) mod NUM)) in
       andthen (guard (i < NUM) (Fault ''virtio_disk_intr: info''))
       (if info_status s ! i \<noteq> 0 then panic ''virtio_disk_intr status''
        else case info_b s ! i of
          None \<Rightarrow> fails (Fault ''virtio_disk_intr: b'')
        | Some b \<Rightarrow>
            andthen (modify (vbufs_update (\<lambda>bs. bs(b := (bs b)\<lparr>b_disk := False\<rparr>))))
            (andthen (modify (used_idx_update (\<lambda>n. n + 1)))
            (intr_loop fuel))))"

definition virtio_disk_intr :: "(vdisk, unit) prog" where
  "virtio_disk_intr = bnd (gets (\<lambda>s. unat (dev_used_idx s - used_idx s))) (\<lambda>n. intr_loop (Suc n))"

subsection \<open>The device\<close>

text \<open>
  What the driver relies on (virtio specification, sections 2.6 and 5.2). The device fetches available entries
  in order and may finish them in any order. A chain is a block request if it consists of a header the device
  reads, a block of data that it reads for a write request and writes for a read request, and a status byte it
  writes. To finish it, the device transfers the sectors, stores status 0 and puts the head of the chain into
  the used ring. A failing device is not covered: the driver panics on another status.
\<close>

definition request_at :: "vdisk \<Rightarrow> nat \<Rightarrow> (bool \<times> u64 \<times> nat \<times> nat) option" where
  "request_at v h =
     (let d0 = desc v ! h; d1 = desc v ! unat (vd_next d0); d2 = desc v ! unat (vd_next d1) in
      case (vd_addr d0, vd_addr d1, vd_addr d2) of
        (A_ops i, A_data b, A_status j) \<Rightarrow>
          (let rq = ops v ! i; w = (rq_type rq = VIRTIO_BLK_T_OUT) in
           if vd_len d0 = 16 \<and> vd_flags d0 = VRING_DESC_F_NEXT \<and>
              (w \<or> rq_type rq = VIRTIO_BLK_T_IN) \<and>
              vd_len d1 = 1024 \<and> vd_flags d1 = (if w then VRING_DESC_F_NEXT else VRING_DESC_F_WRITE OR VRING_DESC_F_NEXT) \<and>
              vd_len d2 = 1 \<and> vd_flags d2 = VRING_DESC_F_WRITE
           then Some (w, rq_sector rq, b, j) else None)
      | _ \<Rightarrow> None)"

definition dev_fetch :: "vdisk \<Rightarrow> vdisk" where
  "dev_fetch v = v\<lparr>dev_work := dev_work v @ [unat (avail_ring v ! (unat (dev_avail_idx v) mod NUM))],
     dev_avail_idx := dev_avail_idx v + 1\<rparr>"

definition dev_transfer :: "bool \<Rightarrow> u64 \<Rightarrow> nat \<Rightarrow> vdisk \<Rightarrow> vdisk" where
  "dev_transfer w sec b v =
     (if w then v\<lparr>sectors := (sectors v)(sec := take 512 (b_data (vbufs v b)), sec + 1 := drop 512 (b_data (vbufs v b)))\<rparr>
      else v\<lparr>vbufs := (vbufs v)(b := (vbufs v b)\<lparr>b_data := sectors v sec @ sectors v (sec + 1)\<rparr>)\<rparr>)"

definition dev_finish :: "nat \<Rightarrow> nat \<Rightarrow> vdisk \<Rightarrow> vdisk" where
  "dev_finish h j v = v\<lparr>info_status := (info_status v)[j := 0],
     used_ring := (used_ring v)[unat (dev_used_idx v) mod NUM := of_nat h],
     dev_used_idx := dev_used_idx v + 1, dev_work := remove1 h (dev_work v)\<rparr>"

definition blk_device :: "(vdisk \<Rightarrow> vdisk \<Rightarrow> bool) \<Rightarrow> bool" where
  "blk_device D \<longleftrightarrow> (\<forall>v v'. D v v' \<longrightarrow>
     (dev_avail_idx v \<noteq> avail_idx v \<and> v' = dev_fetch v) \<or>
     (\<exists>h \<in> set (dev_work v). \<forall>w sec b j. request_at v h = Some (w, sec, b, j) \<longrightarrow> v' = dev_finish h j (dev_transfer w sec b v)))"

subsection \<open>Processes, device and interrupts together\<close>

text \<open>
  The requests in progress are recorded with their descriptors, buffer and direction, and with the block that is
  to be transferred: the contents of the buffer for a write, of the disk for a read, when the request was made.
  A process that calls \<^verbatim>\<open>virtio_disk_rw\<close> holds the lock of the buffer, and the cache has at most one buffer
  for a block; these are the conditions of \<open>submit\<close> and \<open>client\<close>.
\<close>

record req =
  r_idx :: "nat list"
  r_buf :: nat
  r_write :: bool
  r_val :: block

record vsys =
  vd :: vdisk
  active :: "req list"

definition blk :: "vdisk \<Rightarrow> u32 \<Rightarrow> block" where
  "blk v n = sectors v (2 * ucast n) @ sectors v (2 * ucast n + 1)"

definition idle :: "vsys \<Rightarrow> nat \<Rightarrow> bool" where
  "idle s b \<longleftrightarrow> (\<forall>r \<in> set (active s). r_buf r \<noteq> b \<and> b_blockno (vbufs (vd s) (r_buf r)) \<noteq> b_blockno (vbufs (vd s) b))"

inductive vstep :: "(vdisk \<Rightarrow> vdisk \<Rightarrow> bool) \<Rightarrow> vsys \<Rightarrow> vsys \<Rightarrow> bool" for D where
  submit: "vstep D s \<lparr>vd = v, active = active s @ [\<lparr>r_idx = idx, r_buf = b, r_write = w,
      r_val = (if w then b_data (vbufs (vd s) b) else blk (vd s) (b_blockno (vbufs (vd s) b)))\<rparr>]\<rparr>"
    if "idle s b" and "b_blockno (vbufs (vd s) b) < 2 ^ 31" and "rw_submit b w (vd s) = Ok idx v"
| no_descriptor: "vstep D s (s\<lparr>vd := v\<rparr>)"
    if "rw_submit b w (vd s) = Err (Sleeps m) v"
| device: "vstep D s (s\<lparr>vd := v\<rparr>)"
    if "D (vd s) v"
| intr: "vstep D s (s\<lparr>vd := v\<rparr>)"
    if "virtio_disk_intr (vd s) = Ok () v"
| finish: "vstep D s \<lparr>vd = v, active = remove1 r (active s)\<rparr>"
    if "r \<in> set (active s)" and "rw_finish (r_buf r) (r_idx r ! 0) (vd s) = Ok () v"
| client: "vstep D s (s\<lparr>vd := (vd s)\<lparr>vbufs := (vbufs (vd s))(b := \<lparr>b_disk = False, b_blockno = n, b_data = d\<rparr>)\<rparr>\<rparr>)"
    if "\<forall>r \<in> set (active s). r_buf r \<noteq> b" and "length d = 1024"

definition vinit :: "vdisk \<Rightarrow> bool" where
  "vinit v \<longleftrightarrow> length (desc v) = NUM \<and> length (avail_ring v) = NUM \<and> length (used_ring v) = NUM \<and>
     free_map v = replicate NUM True \<and> length (info_b v) = NUM \<and> length (info_status v) = NUM \<and> length (ops v) = NUM \<and>
     avail_idx v = 0 \<and> dev_avail_idx v = 0 \<and> used_idx v = 0 \<and> dev_used_idx v = 0 \<and> dev_work v = [] \<and>
     (\<forall>b. length (b_data (vbufs v b)) = 1024) \<and> (\<forall>n. length (sectors v n) = 512)"

inductive vreach :: "(vdisk \<Rightarrow> vdisk \<Rightarrow> bool) \<Rightarrow> vsys \<Rightarrow> bool" for D where
  start: "vinit v \<Longrightarrow> vreach D \<lparr>vd = v, active = []\<rparr>"
| step: "vreach D s \<Longrightarrow> vstep D s t \<Longrightarrow> vreach D t"

end
