(* ===== verification/Vdriver.thy ===== *)
theory Vdriver
  imports Virtio
begin

text \<open>
  The disk driver is correct for every interleaving of processes, device and interrupts: chains of descriptors
  never overlap, the rings never overflow, the driver does not panic, and when \<^verbatim>\<open>virtio_disk_rw\<close> returns, the
  block has been transferred.
\<close>

interpretation vring: ring_buffer NUM "TYPE(16 word)"
  by unfold_locales (simp_all add: NUM_def)

subsection \<open>The invariant\<close>

text \<open>The heads of the chains the device has not fetched, and of those whose interrupt has not been handled.\<close>

definition queued :: "vdisk \<Rightarrow> nat list" where
  "queued v = map unat (ring_bytes NUM (avail_ring v) (dev_avail_idx v) (avail_idx v))"

definition completed :: "vdisk \<Rightarrow> nat list" where
  "completed v = map unat (ring_bytes NUM (used_ring v) (used_idx v) (dev_used_idx v))"

definition waiting :: "vdisk \<Rightarrow> nat list" where
  "waiting v = queued v @ dev_work v"

definition in_flight :: "vdisk \<Rightarrow> nat list" where
  "in_flight v = waiting v @ completed v"

abbreviation r_head :: "req \<Rightarrow> nat" where
  "r_head r \<equiv> r_idx r ! 0"

text \<open>The chain of a request, as the driver set it up.\<close>

definition chain_ok :: "vdisk \<Rightarrow> req \<Rightarrow> bool" where
  "chain_ok v r \<longleftrightarrow>
     desc v ! (r_idx r ! 0) = \<lparr>vd_addr = A_ops (r_head r), vd_len = 16, vd_flags = VRING_DESC_F_NEXT, vd_next = of_nat (r_idx r ! 1)\<rparr> \<and>
     desc v ! (r_idx r ! 1) = \<lparr>vd_addr = A_data (r_buf r), vd_len = 1024,
       vd_flags = (if r_write r then 0 else VRING_DESC_F_WRITE) OR VRING_DESC_F_NEXT, vd_next = of_nat (r_idx r ! 2)\<rparr> \<and>
     desc v ! (r_idx r ! 2) = \<lparr>vd_addr = A_status (r_head r), vd_len = 1, vd_flags = VRING_DESC_F_WRITE, vd_next = 0\<rparr> \<and>
     ops v ! r_head r = \<lparr>rq_type = (if r_write r then VIRTIO_BLK_T_OUT else VIRTIO_BLK_T_IN), rq_reserved = 0,
       rq_sector = 2 * ucast (b_blockno (vbufs v (r_buf r)))\<rparr> \<and>
     info_b v ! r_head r = Some (r_buf r) \<and> b_blockno (vbufs v (r_buf r)) < 2 ^ 31"

text \<open>How far the transfer has come.\<close>

definition data_ok :: "vdisk \<Rightarrow> req \<Rightarrow> bool" where
  "data_ok v r \<longleftrightarrow>
     b_disk (vbufs v (r_buf r)) = (r_head r \<in> set (in_flight v)) \<and>
     (if r_head r \<in> set (waiting v)
      then (if r_write r then b_data (vbufs v (r_buf r)) else blk v (b_blockno (vbufs v (r_buf r)))) = r_val r
      else info_status v ! r_head r = 0 \<and> b_data (vbufs v (r_buf r)) = r_val r \<and>
        blk v (b_blockno (vbufs v (r_buf r))) = r_val r)"

definition sizes_ok :: "vdisk \<Rightarrow> bool" where
  "sizes_ok v \<longleftrightarrow> length (desc v) = NUM \<and> length (avail_ring v) = NUM \<and> length (used_ring v) = NUM \<and>
     length (free_map v) = NUM \<and> length (info_b v) = NUM \<and> length (info_status v) = NUM \<and> length (ops v) = NUM \<and>
     (\<forall>b. length (b_data (vbufs v b)) = 1024) \<and> (\<forall>n. length (sectors v n) = 512)"

text \<open>Descriptors in use are exactly those of the requests in progress, each used once.\<close>

definition descs :: "req list \<Rightarrow> nat list" where
  "descs rs = concat (map r_idx rs)"

definition table_ok :: "vdisk \<Rightarrow> req list \<Rightarrow> bool" where
  "table_ok v rs \<longleftrightarrow> distinct (descs rs) \<and> set (descs rs) \<subseteq> {..<NUM} \<and>
     (\<forall>i<NUM. free_map v ! i \<longleftrightarrow> i \<notin> set (descs rs)) \<and> (\<forall>r \<in> set rs. length (r_idx r) = 3)"

definition rings_ok :: "vdisk \<Rightarrow> req list \<Rightarrow> bool" where
  "rings_ok v rs \<longleftrightarrow> distinct (in_flight v) \<and> set (in_flight v) \<subseteq> r_head ` set rs"

definition bufs_ok :: "vdisk \<Rightarrow> req list \<Rightarrow> bool" where
  "bufs_ok v rs \<longleftrightarrow> distinct (map r_buf rs) \<and> distinct (map (\<lambda>r. b_blockno (vbufs v (r_buf r))) rs)"

definition vinv :: "vsys \<Rightarrow> bool" where
  "vinv s \<longleftrightarrow> sizes_ok (vd s) \<and> table_ok (vd s) (active s) \<and> rings_ok (vd s) (active s) \<and> bufs_ok (vd s) (active s) \<and>
     (\<forall>r \<in> set (active s). chain_ok (vd s) r \<and> data_ok (vd s) r)"

subsection \<open>Facts about the table\<close>

lemma idx3: "length (r_idx r) = 3 \<Longrightarrow> r_idx r = [r_idx r ! 0, r_idx r ! 1, r_idx r ! 2]"
  by (auto simp: numeral_3_eq_3 length_Suc_conv)

lemma descs_simps [simp]: "descs [] = []" "descs (rs @ qs) = descs rs @ descs qs" "descs [r] = r_idx r"
  by (simp_all add: descs_def)

lemma length_descs: "(\<forall>r \<in> set rs. length (r_idx r) = 3) \<Longrightarrow> length (descs rs) = 3 * length rs"
  by (induction rs) (simp_all add: descs_def)

lemma table_length:
  assumes "table_ok v rs"
  shows "length rs \<le> 2"
proof -
  have "length (descs rs) = card (set (descs rs))" using assms by (simp add: table_ok_def distinct_card)
  also have "\<dots> \<le> card {..<NUM}" using assms by (intro card_mono) (simp_all add: table_ok_def)
  finally show ?thesis using assms length_descs [of rs] by (simp add: table_ok_def NUM_def)
qed

lemma idx_in_descs: "r \<in> set rs \<Longrightarrow> i < length (r_idx r) \<Longrightarrow> r_idx r ! i \<in> set (descs rs)"
  unfolding descs_def by (auto intro: bexI [of _ r])

lemma table_idx:
  assumes "table_ok v rs" and "r \<in> set rs" and "i < 3"
  shows "r_idx r ! i < NUM" and "\<not> free_map v ! (r_idx r ! i)"
  using assms idx_in_descs [of r rs i] by (auto simp: table_ok_def)

text \<open>Different requests, and different positions of a request, have different descriptors.\<close>

lemma idx_inj:
  assumes "distinct (descs rs)" and "r \<in> set rs" and "q \<in> set rs" and "i < length (r_idx r)" and "j < length (r_idx q)"
    and "r_idx r ! i = r_idx q ! j"
  shows "r = q" and "i = j"
proof -
  have "r = q \<and> i = j" using assms
  proof (induction rs)
    case (Cons x rs)
    have d: "distinct (r_idx x)" "set (r_idx x) \<inter> set (descs rs) = {}" "distinct (descs rs)"
      using Cons.prems(1) by (simp_all add: descs_def)
    have no: False if "q' \<in> set rs" "k < length (r_idx q')" "l < length (r_idx x)" "r_idx q' ! k = r_idx x ! l" for q' k l
      using that d(2) idx_in_descs [OF that(1,2)] by (metis disjoint_iff nth_mem)
    show ?case
      using Cons.prems Cons.IH [OF d(3)] no d(1) by (auto simp: nth_eq_iff_index_eq) (metis no)+
  qed simp
  then show "r = q" and "i = j" by simp_all
qed

subsection \<open>Allocating descriptors\<close>

lemma alloc_desc_outcome:
  "(\<exists>i<NUM. free_map v ! i \<and> alloc_desc v = Ok (int i) (v\<lparr>free_map := (free_map v)[i := False]\<rparr>)) \<or> alloc_desc v = Ok (- 1) v"
proof (cases "List.find (\<lambda>i. free_map v ! i) [0..<NUM]")
  case None
  then show ?thesis by (simp add: alloc_desc_def run_simps)
next
  case (Some i)
  then have "i < NUM" "free_map v ! i" by (auto simp: find_Some_iff)
  with Some show ?thesis by (auto simp: alloc_desc_def run_simps)
qed

lemma free_desc_run:
  "i < NUM \<Longrightarrow> \<not> free_map v ! i \<Longrightarrow> free_desc i v =
   Ok () (v\<lparr>desc := (desc v)[i := \<lparr>vd_addr = A_null, vd_len = 0, vd_flags = 0, vd_next = 0\<rparr>], free_map := (free_map v)[i := True]\<rparr>)"
  by (simp add: free_desc_def run_simps)

lemma list_update_same: "xs ! i \<Longrightarrow> xs[i := True] = xs"
  by (metis (full_types) list_update_id)

lemma alloc3_outcome:
  assumes "length (free_map v) = NUM" and "length (desc v) = NUM"
  shows "(\<exists>i j k. distinct [i, j, k] \<and> {i, j, k} \<subseteq> {..<NUM} \<and> free_map v ! i \<and> free_map v ! j \<and> free_map v ! k \<and>
      alloc3_desc v = Ok (Some [i, j, k]) (v\<lparr>free_map := (free_map v)[i := False, j := False, k := False]\<rparr>)) \<or>
    (\<exists>d. length d = NUM \<and> (\<forall>i<NUM. \<not> free_map v ! i \<longrightarrow> d ! i = desc v ! i) \<and> alloc3_desc v = Ok None (v\<lparr>desc := d\<rparr>))"
    (is "?some \<or> ?none")
proof -
  note a = alloc3_desc_def numeral_3_eq_3 run_simps
  let ?z = "\<lparr>vd_addr = A_null, vd_len = 0, vd_flags = 0, vd_next = 0\<rparr>"
  consider "alloc_desc v = Ok (- 1) v"
    | i where "i < NUM" "free_map v ! i" "alloc_desc v = Ok (int i) (v\<lparr>free_map := (free_map v)[i := False]\<rparr>)"
    using alloc_desc_outcome [of v] by auto
  then show ?thesis
  proof cases
    case 1
    then have "alloc3_desc v = Ok None v" by (simp add: a)
    then show ?thesis using assms by (intro disjI2 exI [of _ "desc v"]) simp
  next
    case i: 2
    let ?v = "v\<lparr>free_map := (free_map v)[i := False]\<rparr>"
    consider "alloc_desc ?v = Ok (- 1) ?v"
      | j where "j < NUM" "free_map ?v ! j" "alloc_desc ?v = Ok (int j) (?v\<lparr>free_map := (free_map ?v)[j := False]\<rparr>)"
      using alloc_desc_outcome [of ?v] by auto
    then show ?thesis
    proof cases
      case 1
      then have "alloc3_desc v = Ok None (v\<lparr>desc := (desc v)[i := ?z]\<rparr>)"
        using i assms by (simp add: a free_desc_run list_update_same)
      moreover have "(desc v)[i := ?z] ! a = desc v ! a" if "\<not> free_map v ! a" for a
        using that i(2) by (metis nth_list_update_neq)
      ultimately show ?thesis using assms by (intro disjI2 exI [of _ "(desc v)[i := ?z]"]) simp
    next
      case j: 2
      let ?w = "?v\<lparr>free_map := (free_map ?v)[j := False]\<rparr>"
      have ij: "i \<noteq> j" and j': "free_map v ! j" using j(2) i(1) assms(1) by (auto simp: nth_list_update split: if_splits)
      consider "alloc_desc ?w = Ok (- 1) ?w"
        | k where "k < NUM" "free_map ?w ! k" "alloc_desc ?w = Ok (int k) (?w\<lparr>free_map := (free_map ?w)[k := False]\<rparr>)"
        using alloc_desc_outcome [of ?w] by auto
      then show ?thesis
      proof cases
        case 1
        have "(free_map v)[i := True, j := True] = free_map v"
          using i(2) j' by (simp add: list_update_same)
        then have "(free_map v)[i := False, j := False, i := True, j := True] = free_map v"
          using ij by (simp add: list_update_swap [of j i])
        then have "alloc3_desc v = Ok None (v\<lparr>desc := (desc v)[i := ?z, j := ?z]\<rparr>)"
          using i j 1 ij assms by (simp add: a free_desc_run)
        moreover have "(desc v)[i := ?z, j := ?z] ! a = desc v ! a" if "\<not> free_map v ! a" for a
          using that i(2) j' by (metis nth_list_update_neq)
        ultimately show ?thesis using assms by (intro disjI2 exI [of _ "(desc v)[i := ?z, j := ?z]"]) simp
      next
        case k: 2
        have "i \<noteq> k" "j \<noteq> k" "free_map v ! k"
          using k(2) i(1) j(1) ij assms(1) by (auto simp: nth_list_update split: if_splits)
        moreover have "alloc3_desc v = Ok (Some [i, j, k]) (v\<lparr>free_map := (free_map v)[i := False, j := False, k := False]\<rparr>)"
          using i j k by (simp add: a)
        ultimately show ?thesis using i j k ij j' by (intro disjI1 exI [of _ i] exI [of _ j] exI [of _ k]) simp
      qed
    qed
  qed
qed

text \<open>The state after a request has been made.\<close>

definition submitted :: "nat \<Rightarrow> bool \<Rightarrow> nat \<Rightarrow> nat \<Rightarrow> nat \<Rightarrow> vdisk \<Rightarrow> vdisk" where
  "submitted b w i j k v = v\<lparr>
     desc := (desc v)[i := \<lparr>vd_addr = A_ops i, vd_len = 16, vd_flags = VRING_DESC_F_NEXT, vd_next = of_nat j\<rparr>,
       j := \<lparr>vd_addr = A_data b, vd_len = 1024, vd_flags = (if w then 0 else VRING_DESC_F_WRITE) OR VRING_DESC_F_NEXT, vd_next = of_nat k\<rparr>,
       k := \<lparr>vd_addr = A_status i, vd_len = 1, vd_flags = VRING_DESC_F_WRITE, vd_next = 0\<rparr>],
     avail_ring := (avail_ring v)[unat (avail_idx v) mod NUM := of_nat i],
     avail_idx := avail_idx v + 1,
     free_map := (free_map v)[i := False, j := False, k := False],
     info_b := (info_b v)[i := Some b],
     info_status := (info_status v)[i := 0xff],
     ops := (ops v)[i := \<lparr>rq_type = (if w then VIRTIO_BLK_T_OUT else VIRTIO_BLK_T_IN), rq_reserved = 0,
       rq_sector = ucast (b_blockno (vbufs v b) * 2)\<rparr>],
     vbufs := (vbufs v)(b := (vbufs v b)\<lparr>b_disk := True\<rparr>)\<rparr>"

lemma rw_submit_outcome:
  assumes "length (free_map v) = NUM" and "length (desc v) = NUM"
  shows "(\<exists>i j k. distinct [i, j, k] \<and> {i, j, k} \<subseteq> {..<NUM} \<and> free_map v ! i \<and> free_map v ! j \<and> free_map v ! k \<and>
      rw_submit b w v = Ok [i, j, k] (submitted b w i j k v)) \<or>
    (\<exists>d. length d = NUM \<and> (\<forall>i<NUM. \<not> free_map v ! i \<longrightarrow> d ! i = desc v ! i) \<and>
      rw_submit b w v = Err (Sleeps ''virtio_disk_rw: free'') (v\<lparr>desc := d\<rparr>))"
  using alloc3_outcome [OF assms]
proof (elim disjE exE conjE)
  fix i j k
  assume d: "distinct [i, j, k]" "{i, j, k} \<subseteq> {..<NUM}" "free_map v ! i" "free_map v ! j" "free_map v ! k"
    and a: "alloc3_desc v = Ok (Some [i, j, k]) (v\<lparr>free_map := (free_map v)[i := False, j := False, k := False]\<rparr>)"
  have "rw_submit b w v = Ok [i, j, k] (submitted b w i j k v)"
    by (simp add: rw_submit_def a run_simps submitted_def set_desc_def BSIZE_def numeral_2_eq_2)
  then show ?thesis using d by blast
qed (auto simp: rw_submit_def run_simps)

subsection \<open>What each step keeps\<close>

lemma flight_length:
  assumes "table_ok v rs" and "rings_ok v rs"
  shows "length (in_flight v) \<le> 2"
proof -
  have "length (in_flight v) = card (set (in_flight v))" using assms(2) by (simp add: rings_ok_def distinct_card)
  also have "\<dots> \<le> card (r_head ` set rs)" using assms(2) by (intro card_mono) (auto simp: rings_ok_def)
  also have "\<dots> \<le> length rs" by (metis card_image_le card_length finite_set le_trans)
  finally show ?thesis using table_length [OF assms(1)] by simp
qed

lemma ring_lengths:
  assumes "length (in_flight v) \<le> 2"
  shows "unat (avail_idx v - dev_avail_idx v) < NUM" and "unat (dev_used_idx v - used_idx v) < NUM"
  using assms by (simp_all add: in_flight_def waiting_def queued_def completed_def NUM_def)

lemma chain_ok_cong:
  assumes "chain_ok v r" and "\<And>i. i < 3 \<Longrightarrow> desc v' ! (r_idx r ! i) = desc v ! (r_idx r ! i)"
    and "ops v' ! r_head r = ops v ! r_head r" and "info_b v' ! r_head r = info_b v ! r_head r"
    and "b_blockno (vbufs v' (r_buf r)) = b_blockno (vbufs v (r_buf r))"
  shows "chain_ok v' r"
  using assms by (simp add: chain_ok_def)

lemma data_ok_cong:
  assumes "data_ok v r" and "vbufs v' (r_buf r) = vbufs v (r_buf r)"
    and "blk v' (b_blockno (vbufs v (r_buf r))) = blk v (b_blockno (vbufs v (r_buf r)))"
    and "info_status v' ! r_head r = info_status v ! r_head r"
    and "r_head r \<in> set (in_flight v') \<longleftrightarrow> r_head r \<in> set (in_flight v)"
    and "r_head r \<in> set (waiting v') \<longleftrightarrow> r_head r \<in> set (waiting v)"
  shows "data_ok v' r"
  using assms by (auto simp: data_ok_def)

lemma small_idx: "i < NUM \<Longrightarrow> unat (of_nat i :: u16) = i" "i < NUM \<Longrightarrow> unat (of_nat i :: u32) = i"
  by (simp_all add: NUM_def unat_of_nat_small)

text \<open>Making a request.\<close>

lemma submit_keeps:
  assumes inv: "vinv s" and idle: "idle s b" and small: "b_blockno (vbufs (vd s) b) < 2 ^ 31"
    and d: "distinct [i, j, k]" "{i, j, k} \<subseteq> {..<NUM}"
    and f: "free_map (vd s) ! i" "free_map (vd s) ! j" "free_map (vd s) ! k"
  shows "vinv \<lparr>vd = submitted b w i j k (vd s), active = active s @ [\<lparr>r_idx = [i, j, k], r_buf = b, r_write = w,
      r_val = (if w then b_data (vbufs (vd s) b) else blk (vd s) (b_blockno (vbufs (vd s) b)))\<rparr>]\<rparr>"
proof -
  let ?v = "vd s" let ?v' = "submitted b w i j k (vd s)"
  have sz: "sizes_ok ?v" and tb: "table_ok ?v (active s)" and rg: "rings_ok ?v (active s)" and bf: "bufs_ok ?v (active s)"
    and rq: "\<forall>r \<in> set (active s). chain_ok ?v r \<and> data_ok ?v r" using inv by (simp_all add: vinv_def)
  have lt: "i < NUM" "j < NUM" "k < NUM" using d(2) by simp_all
  have new: "i \<notin> set (descs (active s))" "j \<notin> set (descs (active s))" "k \<notin> set (descs (active s))"
    using tb f lt by (auto simp: table_ok_def)
  have q: "queued ?v' = queued ?v @ [i]"
    using vring.push [OF ring_lengths(1) [OF flight_length [OF tb rg]], of "avail_ring ?v"] sz lt(1)
    by (simp add: queued_def submitted_def sizes_ok_def small_idx)
  have c: "completed ?v' = completed ?v" and wk: "dev_work ?v' = dev_work ?v" by (simp_all add: completed_def submitted_def)
  have fl: "set (in_flight ?v') = insert i (set (in_flight ?v))" "set (waiting ?v') = insert i (set (waiting ?v))"
    using q c wk by (auto simp: in_flight_def waiting_def)
  have idx: "i \<noteq> r_idx r ! n" "j \<noteq> r_idx r ! n" "k \<noteq> r_idx r ! n" if "r \<in> set (active s)" "n < 3" for r n
    using that tb new idx_in_descs [of r "active s" n] by (auto simp: table_ok_def)
  have hd: "i \<noteq> r_head r" if "r \<in> set (active s)" for r using idx(1) [OF that, of 0] by simp
  have nf: "i \<notin> set (in_flight ?v)" using rg hd by (auto simp: rings_ok_def)
  have "sizes_ok ?v'" using sz by (simp add: sizes_ok_def submitted_def)
  moreover have "table_ok ?v' (active s @ [\<lparr>r_idx = [i, j, k], r_buf = b, r_write = w, r_val = x\<rparr>])" for x
    using tb new d lt sz by (auto simp: table_ok_def submitted_def sizes_ok_def nth_list_update)
  moreover have "rings_ok ?v' (active s @ [\<lparr>r_idx = [i, j, k], r_buf = b, r_write = w, r_val = x\<rparr>])" for x
    using rg nf q c wk by (auto simp: rings_ok_def in_flight_def waiting_def)
  moreover have "bufs_ok ?v' (active s @ [\<lparr>r_idx = [i, j, k], r_buf = b, r_write = w, r_val = x\<rparr>])" for x
  proof -
    have "b_blockno (vbufs ?v' c) = b_blockno (vbufs ?v c)" for c by (simp add: submitted_def)
    then show ?thesis using bf idle by (auto simp: bufs_ok_def idle_def)
  qed
  moreover have "chain_ok ?v' r \<and> data_ok ?v' r" if r: "r \<in> set (active s)" for r
  proof
    have b: "r_buf r \<noteq> b" using idle r by (simp add: idle_def)
    show "chain_ok ?v' r"
      by (rule chain_ok_cong [of ?v]) (use rq r b hd [OF r] idx [OF r] in \<open>simp_all add: submitted_def\<close>)
    show "data_ok ?v' r"
      by (rule data_ok_cong [of ?v]) (use rq r b hd [OF r] fl in \<open>simp_all add: submitted_def blk_def\<close>)
  qed
  moreover have "chain_ok ?v' r \<and> data_ok ?v' r" if "r = \<lparr>r_idx = [i, j, k], r_buf = b, r_write = w,
      r_val = (if w then b_data (vbufs ?v b) else blk ?v (b_blockno (vbufs ?v b)))\<rparr>" for r
  proof
    have "unat (b_blockno (vbufs ?v b)) < 2 ^ 31" using small by (simp add: word_less_nat_alt)
    then have "ucast (b_blockno (vbufs ?v b) * 2) = (2 * ucast (b_blockno (vbufs ?v b)) :: u64)"
      by (simp add: word_unat_eq_iff unat_word_ariths unat_ucast_up)
    then show "chain_ok ?v' r"
      using that d lt sz small by (simp add: chain_ok_def submitted_def sizes_ok_def)
    show "data_ok ?v' r" using that fl by (simp add: data_ok_def) (simp add: submitted_def blk_def)
  qed
  ultimately show ?thesis unfolding vinv_def by auto
qed

lemma no_descriptor_keeps:
  assumes inv: "vinv s" and "length d = NUM" and "\<forall>i<NUM. \<not> free_map (vd s) ! i \<longrightarrow> d ! i = desc (vd s) ! i"
  shows "vinv (s\<lparr>vd := (vd s)\<lparr>desc := d\<rparr>\<rparr>)"
proof -
  let ?v = "vd s" let ?v' = "(vd s)\<lparr>desc := d\<rparr>"
  have fl: "in_flight ?v' = in_flight ?v" "waiting ?v' = waiting ?v"
    by (simp_all add: in_flight_def waiting_def queued_def completed_def)
  have "chain_ok ?v' r \<and> data_ok ?v' r" if "r \<in> set (active s)" for r
  proof
    have rq: "chain_ok ?v r" "data_ok ?v r" and tb: "table_ok ?v (active s)" using inv that by (simp_all add: vinv_def)
    have "d ! (r_idx r ! n) = desc ?v ! (r_idx r ! n)" if "n < 3" for n
      using assms(3) table_idx [OF tb \<open>r \<in> set (active s)\<close> that] by blast
    then show "chain_ok ?v' r" using rq(1) by - (rule chain_ok_cong [of ?v], simp_all)
    show "data_ok ?v' r" using rq(2) fl by - (rule data_ok_cong [of ?v], simp_all add: blk_def)
  qed
  then show ?thesis using inv assms(2) fl by (simp add: vinv_def sizes_ok_def table_ok_def rings_ok_def bufs_ok_def)
qed

text \<open>The device.\<close>

lemma fetch_keeps:
  assumes inv: "vinv s" and "dev_avail_idx (vd s) \<noteq> avail_idx (vd s)"
  shows "vinv (s\<lparr>vd := dev_fetch (vd s)\<rparr>)"
proof -
  let ?v = "vd s" let ?v' = "dev_fetch (vd s)"
  have "queued ?v = unat (avail_ring ?v ! (unat (dev_avail_idx ?v) mod NUM)) # queued ?v'"
    unfolding queued_def using vring.pop [OF assms(2), of "avail_ring ?v"] by (simp add: dev_fetch_def)
  moreover have "dev_work ?v' = dev_work ?v @ [unat (avail_ring ?v ! (unat (dev_avail_idx ?v) mod NUM))]"
    "completed ?v' = completed ?v"
    by (simp_all add: dev_fetch_def completed_def)
  ultimately have fl: "set (in_flight ?v') = set (in_flight ?v)" "set (waiting ?v') = set (waiting ?v)"
    "distinct (in_flight ?v') = distinct (in_flight ?v)"
    by (auto simp: in_flight_def waiting_def)
  have "chain_ok ?v' r \<and> data_ok ?v' r" if "r \<in> set (active s)" for r
    using inv that fl chain_ok_cong [of ?v r ?v'] data_ok_cong [of ?v r ?v'] by (simp add: vinv_def blk_def dev_fetch_def)
  then show ?thesis
    using inv fl by (simp add: vinv_def sizes_ok_def table_ok_def rings_ok_def bufs_ok_def) (simp add: dev_fetch_def)
qed

lemma request_found:
  assumes "table_ok v rs" and "r \<in> set rs" and "chain_ok v r"
  shows "request_at v (r_head r) = Some (r_write r, 2 * ucast (b_blockno (vbufs v (r_buf r))), r_buf r, r_head r)"
  using assms table_idx(1) [OF assms(1,2)]
  by (simp add: request_at_def chain_ok_def small_idx VIRTIO_BLK_T_OUT_def VIRTIO_BLK_T_IN_def)

lemma head_inj:
  assumes "table_ok v rs" and "r \<in> set rs" and "q \<in> set rs" and "r_head r = r_head q"
  shows "r = q"
  using assms idx_inj(1) [of rs r q 0 0] by (simp add: table_ok_def)

lemma sector_apart:
  fixes m n :: u32
  assumes "m \<noteq> n"
  shows "(2 * ucast m :: u64) \<noteq> 2 * ucast n" "(2 * ucast m :: u64) \<noteq> 2 * ucast n + 1" "(2 * ucast m + 1 :: u64) \<noteq> 2 * ucast n"
proof -
  have u: "unat (2 * ucast k :: u64) = 2 * unat k" "unat (2 * ucast k + 1 :: u64) = 2 * unat k + 1" for k :: u32
    using unat_bound [of k] by (simp_all add: unat_word_ariths unat_ucast_up)
  have "2 * unat m \<noteq> 2 * unat n" using assms by (simp add: word_unat_eq_iff)
  then show "(2 * ucast m :: u64) \<noteq> 2 * ucast n" by (metis u(1))
  have "2 * unat m \<noteq> 2 * unat n + 1" "2 * unat m + 1 \<noteq> 2 * unat n" by presburger+
  then show "(2 * ucast m :: u64) \<noteq> 2 * ucast n + 1" "(2 * ucast m + 1 :: u64) \<noteq> 2 * ucast n" by (metis u)+
qed

lemma block_apart:
  assumes "bufs_ok v rs" and "r \<in> set rs" and "q \<in> set rs" and "q \<noteq> r"
  shows "r_buf q \<noteq> r_buf r" and "b_blockno (vbufs v (r_buf q)) \<noteq> b_blockno (vbufs v (r_buf r))"
  using assms by (auto simp: bufs_ok_def distinct_map inj_on_def)

lemma complete_keeps:
  assumes inv: "vinv s" and h: "h \<in> set (dev_work (vd s))" and req: "request_at (vd s) h = Some (w, sec, b, j)"
  shows "vinv (s\<lparr>vd := dev_finish h j (dev_transfer w sec b (vd s))\<rparr>)"
proof -
  let ?v = "vd s" let ?v' = "dev_finish h j (dev_transfer w sec b (vd s))"
  have sz: "sizes_ok ?v" and tb: "table_ok ?v (active s)" and rg: "rings_ok ?v (active s)" and bf: "bufs_ok ?v (active s)"
    and rq: "\<forall>r \<in> set (active s). chain_ok ?v r \<and> data_ok ?v r" using inv by (simp_all add: vinv_def)
  have "h \<in> set (in_flight ?v)" using h by (simp add: in_flight_def waiting_def)
  then obtain r where r: "r \<in> set (active s)" "h = r_head r" using rg by (auto simp: rings_ok_def)
  have a: "w = r_write r" "sec = 2 * ucast (b_blockno (vbufs ?v (r_buf r)))" "b = r_buf r" "j = h"
    using request_found [OF tb r(1)] rq r req by auto
  have hN: "h < NUM" using table_idx(1) [OF tb r(1), of 0] r(2) by simp
  have c: "completed ?v' = completed ?v @ [h]"
    using vring.push [OF ring_lengths(2) [OF flight_length [OF tb rg]], of "used_ring ?v"] sz hN
    by (simp add: completed_def dev_finish_def dev_transfer_def sizes_ok_def small_idx)
  have q: "queued ?v' = queued ?v" and wk: "dev_work ?v' = remove1 h (dev_work ?v)"
    by (simp_all add: queued_def dev_finish_def dev_transfer_def)
  have dt: "distinct (in_flight ?v)" using rg by (simp add: rings_ok_def)
  have fl: "set (in_flight ?v') = set (in_flight ?v)" "distinct (in_flight ?v')" "set (waiting ?v') = set (waiting ?v) - {h}"
    using dt h by (auto simp: in_flight_def waiting_def q c wk set_remove1_eq)
  have bn: "b_blockno (vbufs ?v' c) = b_blockno (vbufs ?v c)" for c by (simp add: dev_finish_def dev_transfer_def)
  have len: "length (b_data (vbufs ?v b)) = 1024" "length (sectors ?v x) = 512" for x using sz by (simp_all add: sizes_ok_def)
  have "chain_ok ?v' p \<and> data_ok ?v' p" if p: "p \<in> set (active s)" for p
  proof
    show "chain_ok ?v' p"
      by (rule chain_ok_cong [of ?v]) (use rq p bn in \<open>simp_all add: dev_finish_def dev_transfer_def\<close>)
    show "data_ok ?v' p"
    proof (cases "p = r")
      case True
      have hf: "h \<in> set (in_flight ?v)" "h \<in> set (waiting ?v)" using h by (simp_all add: in_flight_def waiting_def)
      have "blk ?v' (b_blockno (vbufs ?v b)) = r_val r \<and> b_data (vbufs ?v' b) = r_val r \<and> b_disk (vbufs ?v' b)"
        using rq r a hf len by (auto simp: data_ok_def blk_def dev_finish_def dev_transfer_def)
      moreover have "info_status ?v' ! h = 0" using sz hN a(4) by (simp add: sizes_ok_def dev_finish_def dev_transfer_def)
      ultimately show ?thesis using True r a fl hf bn by (simp add: data_ok_def)
    next
      case False
      note ap = block_apart [OF bf r(1) p False]
      have hd: "h \<noteq> r_head p" using head_inj [OF tb p r(1)] False r(2) by auto
      show ?thesis
        by (rule data_ok_cong [of ?v])
          (use rq p a ap hd fl sector_apart [OF ap(2)] sector_apart [OF ap(2) [symmetric]] in
            \<open>simp_all add: blk_def dev_finish_def dev_transfer_def\<close>)
    qed
  qed
  moreover have "sizes_ok ?v'" using sz len by (auto simp: sizes_ok_def dev_finish_def dev_transfer_def)
  moreover have "table_ok ?v' (active s)" using tb by (simp add: table_ok_def dev_finish_def dev_transfer_def)
  moreover have "rings_ok ?v' (active s)" "bufs_ok ?v' (active s)"
    using rg bf fl bn by (simp_all add: rings_ok_def bufs_ok_def)
  ultimately show ?thesis by (simp add: vinv_def)
qed

text \<open>The interrupt handler.\<close>

definition acknowledged :: "nat \<Rightarrow> vdisk \<Rightarrow> vdisk" where
  "acknowledged b v = used_idx_update (\<lambda>n. n + 1) (vbufs_update (\<lambda>bs. bs(b := (bs b)\<lparr>b_disk := False\<rparr>)) v)"

lemma acknowledge_keeps:
  assumes inv: "vinv s" and "completed (vd s) = h # hs" and "completed (acknowledged (r_buf r) (vd s)) = hs"
    and r: "r \<in> set (active s)" "r_head r = h"
  shows "vinv (s\<lparr>vd := acknowledged (r_buf r) (vd s)\<rparr>)"
proof -
  let ?v = "vd s" let ?v' = "acknowledged (r_buf r) (vd s)"
  have tb: "table_ok ?v (active s)" and rg: "rings_ok ?v (active s)" and bf: "bufs_ok ?v (active s)"
    and rq: "\<forall>r \<in> set (active s). chain_ok ?v r \<and> data_ok ?v r" using inv by (simp_all add: vinv_def)
  have w: "waiting ?v' = waiting ?v" by (simp add: acknowledged_def waiting_def queued_def)
  have dt: "distinct (in_flight ?v)" using rg by (simp add: rings_ok_def)
  have fl: "set (in_flight ?v') = set (in_flight ?v) - {h}" "distinct (in_flight ?v')" "h \<notin> set (waiting ?v)" "h \<in> set (in_flight ?v)"
    using dt assms(2,3) w by (auto simp: in_flight_def)
  have "chain_ok ?v' p \<and> data_ok ?v' p" if p: "p \<in> set (active s)" for p
  proof
    show "chain_ok ?v' p"
      by (rule chain_ok_cong [of ?v]) (use rq p in \<open>simp_all add: acknowledged_def\<close>)
    show "data_ok ?v' p"
    proof (cases "p = r")
      case True
      have "info_status ?v ! h = 0 \<and> b_data (vbufs ?v (r_buf r)) = r_val r \<and> blk ?v (b_blockno (vbufs ?v (r_buf r))) = r_val r"
        using bspec [OF rq r(1)] r(2) fl by (simp add: data_ok_def)
      moreover have "info_status ?v' = info_status ?v" "blk ?v' = blk ?v" "vbufs ?v' (r_buf r) = (vbufs ?v (r_buf r))\<lparr>b_disk := False\<rparr>"
        by (simp_all add: acknowledged_def blk_def fun_eq_iff)
      ultimately show ?thesis using True r fl w by (simp add: data_ok_def)
    next
      case False
      have "r_head p \<noteq> h" using head_inj [OF tb p r(1)] False r(2) by auto
      then show ?thesis
        by - (rule data_ok_cong [of ?v], use rq p block_apart [OF bf r(1) p False] fl w in \<open>simp_all add: blk_def acknowledged_def\<close>)
    qed
  qed
  moreover have "b_blockno (vbufs ?v' c) = b_blockno (vbufs ?v c)" for c by (simp add: acknowledged_def)
  moreover have "sizes_ok ?v'" "table_ok ?v' (active s)"
    using inv by (auto simp: vinv_def acknowledged_def sizes_ok_def table_ok_def)
  moreover have "rings_ok ?v' (active s)" using rg fl by (auto simp: rings_ok_def)
  ultimately show ?thesis using bf by (simp add: vinv_def bufs_ok_def)
qed

lemma intr_loop_keeps:
  assumes "vinv s" and "length (completed (vd s)) < fuel"
  shows "wp (intr_loop fuel) (\<lambda>_ v. vinv (s\<lparr>vd := v\<rparr>)) (vd s)"
  using assms
proof (induction fuel arbitrary: s)
  case (Suc fuel)
  let ?v = "vd s"
  show ?case
  proof (cases "used_idx ?v = dev_used_idx ?v")
    case True
    then show ?thesis using Suc.prems by (simp add: wp_bnd wp_gets wp_ret)
  next
    case False
    let ?h = "unat (used_ring ?v ! (unat (used_idx ?v) mod NUM))"
    have c: "completed ?v = ?h # completed (acknowledged b ?v)" for b
      unfolding completed_def using vring.pop [OF False, of "used_ring ?v"] by (simp add: acknowledged_def)
    have rg: "rings_ok ?v (active s)" and tb: "table_ok ?v (active s)" using Suc.prems(1) by (simp_all add: vinv_def)
    have hf: "?h \<in> set (in_flight ?v)" "?h \<notin> set (waiting ?v)"
      using rg by (auto simp: in_flight_def c [of undefined] rings_ok_def)
    then obtain r where r: "r \<in> set (active s)" "r_head r = ?h" using rg by (auto simp: rings_ok_def)
    have ok: "chain_ok ?v r" "data_ok ?v r" using Suc.prems(1) r(1) by (simp_all add: vinv_def)
    have i: "?h < NUM" "info_status ?v ! ?h = 0" "info_b ?v ! ?h = Some (r_buf r)"
      using table_idx(1) [OF tb r(1), of 0] ok hf r(2) by (simp_all add: data_ok_def chain_ok_def)
    have "wp (intr_loop fuel) (\<lambda>_ v. vinv (s\<lparr>vd := v\<rparr>)) (acknowledged (r_buf r) ?v)"
      using Suc.IH [OF acknowledge_keeps [OF Suc.prems(1) c refl r]] Suc.prems(2) c [of "r_buf r"] by simp
    then show ?thesis
      using False i by (simp add: wp_bnd wp_andthen wp_gets wp_guard wp_modify Let_def acknowledged_def)
  qed
qed simp

lemma intr_keeps: "vinv s \<Longrightarrow> wp virtio_disk_intr (\<lambda>_ v. vinv (s\<lparr>vd := v\<rparr>)) (vd s)"
  unfolding virtio_disk_intr_def wp_bnd wp_gets by (rule intr_loop_keeps) (simp_all add: completed_def)

text \<open>The end of a request.\<close>

lemma descs_remove1:
  assumes "distinct (descs rs)" and "r \<in> set rs" and "\<forall>r \<in> set rs. length (r_idx r) = 3"
  shows "distinct (descs (remove1 r rs))" and "set (descs (remove1 r rs)) = set (descs rs) - set (r_idx r)"
    and "r \<notin> set (remove1 r rs)"
proof -
  have "distinct (descs (remove1 r rs)) \<and> set (descs (remove1 r rs)) = set (descs rs) - set (r_idx r) \<and> r \<notin> set (remove1 r rs)"
    using assms
  proof (induction rs)
    case (Cons x rs)
    have d: "distinct (r_idx x)" "set (r_idx x) \<inter> set (descs rs) = {}" "distinct (descs rs)"
      using Cons.prems(1) by (simp_all add: descs_def)
    show ?case
    proof (cases "x = r")
      case True
      have "r_idx r ! 0 \<in> set (descs rs)" if "r \<in> set rs" using idx_in_descs [OF that, of 0] Cons.prems(3) that by simp
      moreover have "r_idx r ! 0 \<in> set (r_idx r)" using Cons.prems(2,3) by (intro nth_mem) auto
      ultimately have "r \<notin> set rs" using d(2) True by auto
      then show ?thesis using True d by (auto simp: descs_def)
    next
      case False
      then have r: "r \<in> set rs" using Cons.prems(2) by simp
      then have "set (r_idx r) \<subseteq> set (descs rs)" by (auto simp: descs_def)
      then show ?thesis
        using False Cons.IH [OF d(3) r] Cons.prems(3) d by (auto simp: descs_def)
    qed
  qed simp
  then show "distinct (descs (remove1 r rs))" and "set (descs (remove1 r rs)) = set (descs rs) - set (r_idx r)"
    and "r \<notin> set (remove1 r rs)" by simp_all
qed

definition released :: "req \<Rightarrow> vdisk \<Rightarrow> vdisk" where
  "released r v = (let z = \<lparr>vd_addr = A_null, vd_len = 0, vd_flags = 0, vd_next = 0\<rparr> in
     v\<lparr>info_b := (info_b v)[r_head r := None], desc := (desc v)[r_idx r ! 0 := z, r_idx r ! 1 := z, r_idx r ! 2 := z],
       free_map := (free_map v)[r_idx r ! 0 := True, r_idx r ! 1 := True, r_idx r ! 2 := True]\<rparr>)"

lemma finish_run:
  assumes "sizes_ok v" and "table_ok v rs" and "r \<in> set rs" and "chain_ok v r" and "\<not> b_disk (vbufs v (r_buf r))"
  shows "rw_finish (r_buf r) (r_head r) v = Ok () (released r v)"
proof -
  have n: "r_idx r ! 0 < NUM" "r_idx r ! 1 < NUM" "r_idx r ! 2 < NUM"
    and f: "\<not> free_map v ! (r_idx r ! 0)" "\<not> free_map v ! (r_idx r ! 1)" "\<not> free_map v ! (r_idx r ! 2)"
    using table_idx [OF assms(2,3)] by simp_all
  have l: "length (r_idx r) = 3" and dt: "distinct (descs rs)" using assms(2,3) by (simp_all add: table_ok_def)
  have ne: "r_idx r ! 0 \<noteq> r_idx r ! 1" "r_idx r ! 0 \<noteq> r_idx r ! 2" "r_idx r ! 1 \<noteq> r_idx r ! 2"
    using idx_inj(2) [OF dt assms(3,3), of 0 1] idx_inj(2) [OF dt assms(3,3), of 0 2] idx_inj(2) [OF dt assms(3,3), of 1 2] l
    by auto
  have fl: "((if r_write r then 0 else VRING_DESC_F_WRITE) OR VRING_DESC_F_NEXT) AND VRING_DESC_F_NEXT \<noteq> 0"
    "VRING_DESC_F_NEXT \<noteq> 0" "VRING_DESC_F_WRITE AND VRING_DESC_F_NEXT = 0"
    by (simp_all add: VRING_DESC_F_NEXT_def VRING_DESC_F_WRITE_def)
  let ?v = "info_b_update (\<lambda>ib. ib[r_head r := None]) v"
  have "free_chain_loop (Suc (Suc (Suc m))) (r_head r) ?v = Ok () (released r v)" for m
    using assms(1,4) n f ne fl by (simp add: run_simps free_desc_run chain_ok_def small_idx released_def Let_def sizes_ok_def)
  moreover have "Suc NUM = Suc (Suc (Suc 6))" by (simp add: NUM_def)
  ultimately have "free_chain (r_head r) ?v = Ok () (released r v)" by (simp only: free_chain_def)
  then show ?thesis using assms(5) by (simp add: rw_finish_def run_simps)
qed

lemma distinct_map_remove1: "distinct (map f xs) \<Longrightarrow> distinct (map f (remove1 x xs))"
  by (auto simp: distinct_map intro: inj_on_subset)

lemma finish_keeps:
  assumes inv: "vinv s" and r: "r \<in> set (active s)" and fin: "\<not> b_disk (vbufs (vd s) (r_buf r))"
  shows "vinv \<lparr>vd = released r (vd s), active = remove1 r (active s)\<rparr>"
proof -
  let ?v = "vd s" let ?v' = "released r (vd s)" let ?rs = "remove1 r (active s)"
  have sz: "sizes_ok ?v" and tb: "table_ok ?v (active s)" and rg: "rings_ok ?v (active s)" and bf: "bufs_ok ?v (active s)"
    and rq: "\<forall>r \<in> set (active s). chain_ok ?v r \<and> data_ok ?v r" using inv by (simp_all add: vinv_def)
  have tb': "distinct (descs (active s))" "\<forall>r \<in> set (active s). length (r_idx r) = 3" using tb by (simp_all add: table_ok_def)
  note rm = descs_remove1 [OF tb'(1) r tb'(2)]
  have fl: "in_flight ?v' = in_flight ?v" "waiting ?v' = waiting ?v"
    by (simp_all add: in_flight_def waiting_def queued_def completed_def released_def Let_def)
  have hd: "r_head r \<notin> set (in_flight ?v)" using rq r fin by (simp add: data_ok_def)
  have sub: "set ?rs \<subseteq> set (active s)" by (rule set_remove1_subset)
  have ne: "r_idx r ! n \<noteq> r_idx p ! m" if "p \<in> set ?rs" "n < 3" "m < 3" for p n m
    using that rm(3) sub idx_inj(1) [OF tb'(1) r, of p n m] tb'(2) r by auto
  have "chain_ok ?v' p \<and> data_ok ?v' p" if p: "p \<in> set ?rs" for p
  proof
    have p': "p \<in> set (active s)" using p sub by auto
    show "chain_ok ?v' p"
      by (rule chain_ok_cong [of ?v]) (use rq p' ne [OF p] in \<open>simp_all add: released_def Let_def\<close>)
    show "data_ok ?v' p"
      by (rule data_ok_cong [of ?v]) (use rq p' fl in \<open>simp_all add: released_def Let_def blk_def\<close>)
  qed
  moreover have "sizes_ok ?v'" using sz by (simp add: sizes_ok_def released_def Let_def)
  moreover have "table_ok ?v' ?rs"
  proof -
    have s3: "set (r_idx r) = {r_idx r ! 0, r_idx r ! 1, r_idx r ! 2}" using idx3 [of r] tb'(2) r by (metis list.set(1) list.simps(15))
    have "free_map ?v' ! i \<longleftrightarrow> i \<in> set (r_idx r) \<or> free_map ?v ! i" for i
      using sz table_idx(1) [OF tb r] unfolding s3 by (auto simp: sizes_ok_def released_def Let_def nth_list_update)
    then have "free_map ?v' ! i \<longleftrightarrow> i \<notin> set (descs ?rs)" if "i < NUM" for i
      using that tb rm(2) by (auto simp: table_ok_def)
    then show ?thesis using tb rm(1,2) sub by (auto simp: table_ok_def)
  qed
  moreover have "rings_ok ?v' ?rs"
  proof -
    have "set (active s) \<subseteq> insert r (set ?rs)" by (metis insert_iff in_set_remove1 subsetI)
    then have "set (in_flight ?v) \<subseteq> r_head ` set ?rs" using rg hd unfolding rings_ok_def by blast
    then show ?thesis using rg fl by (simp add: rings_ok_def)
  qed
  moreover have "bufs_ok ?v' ?rs"
  proof -
    have "vbufs ?v' = vbufs ?v" by (simp add: released_def Let_def)
    then show ?thesis using bf by (simp add: bufs_ok_def distinct_map_remove1)
  qed
  ultimately show ?thesis by (simp add: vinv_def)
qed

lemma client_keeps:
  assumes inv: "vinv s" and "\<forall>r \<in> set (active s). r_buf r \<noteq> b" and "length d = 1024"
  shows "vinv (s\<lparr>vd := (vd s)\<lparr>vbufs := (vbufs (vd s))(b := \<lparr>b_disk = False, b_blockno = n, b_data = d\<rparr>)\<rparr>\<rparr>)"
proof -
  let ?v = "vd s" let ?v' = "(vd s)\<lparr>vbufs := (vbufs (vd s))(b := \<lparr>b_disk = False, b_blockno = n, b_data = d\<rparr>)\<rparr>"
  have fl: "in_flight ?v' = in_flight ?v" "waiting ?v' = waiting ?v"
    by (simp_all add: in_flight_def waiting_def queued_def completed_def)
  have "chain_ok ?v' r \<and> data_ok ?v' r" if "r \<in> set (active s)" for r
    using inv that assms(2) fl chain_ok_cong [of ?v r ?v'] data_ok_cong [of ?v r ?v'] by (simp add: vinv_def blk_def)
  moreover have "map (\<lambda>r. b_blockno (vbufs ?v' (r_buf r))) (active s) = map (\<lambda>r. b_blockno (vbufs ?v (r_buf r))) (active s)"
    using assms(2) by simp
  then have "bufs_ok ?v' (active s)" using inv by (simp only: vinv_def bufs_ok_def)
  ultimately show ?thesis
    using inv assms(3) fl by (simp add: vinv_def sizes_ok_def table_ok_def rings_ok_def)
qed

subsection \<open>Freeing any chain ends\<close>

definition used_count :: "vdisk \<Rightarrow> nat" where
  "used_count v = card {i. i < NUM \<and> \<not> free_map v ! i}"

lemma free_chain_loop_ends:
  assumes "used_count v < fuel" and "length (free_map v) = NUM"
  shows "(\<exists>v'. free_chain_loop fuel i v \<in> {Ok () v', Err (Panic ''free_desc 2'') v', Err (Panic ''free_desc 1'') v'})"
  using assms
proof (induction fuel arbitrary: i v)
  case (Suc fuel)
  let ?v = "v\<lparr>desc := (desc v)[i := \<lparr>vd_addr = A_null, vd_len = 0, vd_flags = 0, vd_next = 0\<rparr>], free_map := (free_map v)[i := True]\<rparr>"
  consider "\<not> i < NUM" | "i < NUM" "free_map v ! i" | "i < NUM" "\<not> free_map v ! i" by blast
  then show ?case
  proof cases
    case 3
    have "{a. a < NUM \<and> \<not> free_map ?v ! a} = {a. a < NUM \<and> \<not> free_map v ! a} - {i}"
      using 3 Suc.prems(2) by (auto simp: nth_list_update)
    moreover have "card ({a. a < NUM \<and> \<not> free_map v ! a} - {i}) < card {a. a < NUM \<and> \<not> free_map v ! a}"
      using 3 by (intro card_Diff1_less) simp_all
    ultimately have "used_count ?v < used_count v" by (simp only: used_count_def)
    then have ih: "\<exists>v'. free_chain_loop fuel n ?v \<in> {Ok () v', Err (Panic ''free_desc 2'') v', Err (Panic ''free_desc 1'') v'}" for n
      using Suc.prems by (intro Suc.IH) simp_all
    have "free_chain_loop (Suc fuel) i v = (if vd_flags (desc v ! i) AND VRING_DESC_F_NEXT \<noteq> 0
        then free_chain_loop fuel (unat (vd_next (desc v ! i))) ?v else Ok () ?v)"
      using 3 by (simp add: run_simps free_desc_run)
    then show ?thesis using ih by simp
  qed (auto simp: run_simps free_desc_def)
qed simp

text \<open>
  C24: \<^verbatim>\<open>free_chain\<close> ends on every descriptor table, a cyclic chain included: after at most \<open>NUM\<close> descriptors it
  returns, or it panics in \<^verbatim>\<open>free_desc\<close>, at a descriptor that is already free or at a link out of the table.
\<close>

theorem free_chain_ends:
  assumes "length (free_map v) = NUM"
  shows "\<exists>v'. free_chain i v \<in> {Ok () v', Err (Panic ''free_desc 2'') v', Err (Panic ''free_desc 1'') v'}"
proof -
  have "used_count v \<le> card {..<NUM}" unfolding used_count_def by (intro card_mono) auto
  then show ?thesis unfolding free_chain_def by (intro free_chain_loop_ends assms) simp
qed

subsection \<open>Every reachable state\<close>

lemma vstep_keeps:
  assumes "blk_device D" and "vstep D s t" and "vinv s"
  shows "vinv t"
  using assms(2)
proof cases
  case (submit b w idx v)
  have l: "length (free_map (vd s)) = NUM" "length (desc (vd s)) = NUM" using assms(3) by (simp_all add: vinv_def sizes_ok_def)
  obtain i j k where "distinct [i, j, k]" "{i, j, k} \<subseteq> {..<NUM}" "free_map (vd s) ! i" "free_map (vd s) ! j" "free_map (vd s) ! k"
    "idx = [i, j, k]" "v = submitted b w i j k (vd s)"
    using rw_submit_outcome [OF l, of b w] submit(4) by fastforce
  then show ?thesis using submit_keeps [OF assms(3) submit(2,3)] submit(1) by simp
next
  case (no_descriptor b w m v)
  have l: "length (free_map (vd s)) = NUM" "length (desc (vd s)) = NUM" using assms(3) by (simp_all add: vinv_def sizes_ok_def)
  obtain d where "length d = NUM" "\<forall>i<NUM. \<not> free_map (vd s) ! i \<longrightarrow> d ! i = desc (vd s) ! i" "v = (vd s)\<lparr>desc := d\<rparr>"
    using rw_submit_outcome [OF l, of b w] no_descriptor(2) by fastforce
  then show ?thesis using no_descriptor_keeps [OF assms(3)] no_descriptor(1) by simp
next
  case (device v)
  from assms(1) device(2) consider (fetch) "dev_avail_idx (vd s) \<noteq> avail_idx (vd s)" "v = dev_fetch (vd s)"
    | (complete) h where "h \<in> set (dev_work (vd s))"
        "\<forall>w sec b j. request_at (vd s) h = Some (w, sec, b, j) \<longrightarrow> v = dev_finish h j (dev_transfer w sec b (vd s))"
    unfolding blk_device_def by blast
  then show ?thesis
  proof cases
    case fetch
    then show ?thesis using fetch_keeps [OF assms(3)] device(1) by simp
  next
    case (complete h)
    have "h \<in> r_head ` set (active s)"
      using assms(3) complete(1) by (auto simp: vinv_def rings_ok_def in_flight_def waiting_def)
    then obtain r where "r \<in> set (active s)" "h = r_head r" by blast
    then have "request_at (vd s) h = Some (r_write r, 2 * ucast (b_blockno (vbufs (vd s) (r_buf r))), r_buf r, r_head r)"
      using assms(3) by (auto simp: vinv_def intro: request_found)
    then show ?thesis using complete_keeps [OF assms(3) complete(1)] complete(2) device(1) by simp
  qed
next
  case (intr v)
  then show ?thesis using intr_keeps [OF assms(3)] by (simp add: wp_def)
next
  case (finish r v)
  then have b: "\<not> b_disk (vbufs (vd s) (r_buf r))" by (auto simp: rw_finish_def run_simps split: if_splits)
  have "v = released r (vd s)" using finish_run [of "vd s" "active s" r] finish(2,3) b assms(3) by (simp add: vinv_def)
  then show ?thesis using finish_keeps [OF assms(3) finish(2) b] finish(1) by simp
next
  case (client b d n)
  then show ?thesis using client_keeps [OF assms(3)] by simp
qed

lemma vinit_inv: "vinit v \<Longrightarrow> vinv \<lparr>vd = v, active = []\<rparr>"
  by (simp add: vinit_def vinv_def sizes_ok_def table_ok_def rings_ok_def bufs_ok_def in_flight_def waiting_def queued_def completed_def)

lemma vreach_inv:
  assumes "vreach D s" and "blk_device D"
  shows "vinv s"
  using assms(1) by induction (auto intro: vinit_inv vstep_keeps [OF assms(2)])

text \<open>
  C22: however the calls of \<^verbatim>\<open>virtio_disk_rw\<close>, the device and the interrupts interleave, a request whose buffer the
  interrupt handler has released (\<^verbatim>\<open>b->disk == 0\<close>) has been carried out: buffer and disk hold the same block,
  which is what the buffer held when a write, and what the disk held when a read was requested.
\<close>

theorem disk_transfers:
  assumes "blk_device D" and "vreach D s" and "r \<in> set (active s)" and "\<not> b_disk (vbufs (vd s) (r_buf r))"
  shows "b_data (vbufs (vd s) (r_buf r)) = r_val r \<and> blk (vd s) (b_blockno (vbufs (vd s) (r_buf r))) = r_val r"
proof -
  have "data_ok (vd s) r" using vreach_inv [OF assms(2,1)] assms(3) by (simp add: vinv_def)
  then show ?thesis using assms(4) by (auto simp: data_ok_def in_flight_def split: if_splits)
qed

text \<open>
  C23: with a device that serves every request successfully, in every reachable state the interrupt handler returns without a panic, a finished request gives its three
  descriptors back without a panic, and a new request either gets three free descriptors or waits because fewer
  than three are free; no descriptor is ever lost: the free ones are those of no request in progress.
\<close>

theorem driver_safe:
  assumes "blk_device D" and "vreach D s"
  shows "(\<exists>v. virtio_disk_intr (vd s) = Ok () v) \<and>
    (\<forall>r \<in> set (active s). \<not> b_disk (vbufs (vd s) (r_buf r)) \<longrightarrow> (\<exists>v. rw_finish (r_buf r) (r_head r) (vd s) = Ok () v)) \<and>
    (\<forall>b w. (\<exists>idx v. rw_submit b w (vd s) = Ok idx v) \<or> (\<exists>m v. rw_submit b w (vd s) = Err (Sleeps m) v)) \<and>
    length (filter (\<lambda>i. free_map (vd s) ! i) [0..<NUM]) + 3 * length (active s) = NUM"
proof (intro conjI ballI allI impI)
  have inv: "vinv s" by (rule vreach_inv [OF assms(2,1)])
  have tb: "table_ok (vd s) (active s)" and sz: "sizes_ok (vd s)" using inv by (simp_all add: vinv_def)
  show "\<exists>v. virtio_disk_intr (vd s) = Ok () v" using intr_keeps [OF inv] by (auto simp: wp_iff)
  show "\<exists>v. rw_finish (r_buf r) (r_head r) (vd s) = Ok () v"
    if "r \<in> set (active s)" "\<not> b_disk (vbufs (vd s) (r_buf r))" for r
    using that finish_run [OF sz tb that(1)] inv by (simp add: vinv_def)
  show "(\<exists>idx v. rw_submit b w (vd s) = Ok idx v) \<or> (\<exists>m v. rw_submit b w (vd s) = Err (Sleeps m) v)" for b w
    using rw_submit_outcome [of "vd s" b w] sz by (auto simp: sizes_ok_def)
  have "set (filter (\<lambda>i. \<not> free_map (vd s) ! i) [0..<NUM]) = set (descs (active s))"
    using tb by (auto simp: table_ok_def)
  moreover have "length (descs (active s)) = card (set (descs (active s)))" using tb by (simp add: table_ok_def distinct_card)
  ultimately have "length (filter (\<lambda>i. \<not> free_map (vd s) ! i) [0..<NUM]) = 3 * length (active s)"
    using tb length_descs [of "active s"] distinct_card [of "filter (\<lambda>i. \<not> free_map (vd s) ! i) [0..<NUM]"]
    by (simp add: table_ok_def)
  then show "length (filter (\<lambda>i. free_map (vd s) ! i) [0..<NUM]) + 3 * length (active s) = NUM"
    using sum_length_filter_compl [of "\<lambda>i. free_map (vd s) ! i" "[0..<NUM]"] by simp
qed

subsection \<open>An instance\<close>

text \<open>A device that fetches all available entries and then finishes them in order, and one write request.\<close>

definition fifo_device :: "vdisk \<Rightarrow> vdisk \<Rightarrow> bool" where
  "fifo_device v v' \<longleftrightarrow>
     (if dev_avail_idx v \<noteq> avail_idx v then v' = dev_fetch v
      else case dev_work v of [] \<Rightarrow> False
        | h # _ \<Rightarrow> (case request_at v h of Some (w, sec, b, j) \<Rightarrow> v' = dev_finish h j (dev_transfer w sec b v) | None \<Rightarrow> False))"

lemma fifo_device_ok: "blk_device fifo_device"
  by (auto simp: blk_device_def fifo_device_def split: if_splits list.splits option.splits)

definition sample_vdisk :: vdisk where
  "sample_vdisk = \<lparr>desc = replicate 8 \<lparr>vd_addr = A_null, vd_len = 0, vd_flags = 0, vd_next = 0\<rparr>, avail_ring = replicate 8 0,
     avail_idx = 0, used_ring = replicate 8 0, dev_used_idx = 0, free_map = replicate 8 True, used_idx = 0,
     info_b = replicate 8 None, info_status = replicate 8 0,
     ops = replicate 8 \<lparr>rq_type = 0, rq_reserved = 0, rq_sector = 0\<rparr>,
     vbufs = (\<lambda>_. \<lparr>b_disk = False, b_blockno = 5, b_data = replicate 1024 7\<rparr>), sectors = (\<lambda>_. replicate 512 0),
     dev_avail_idx = 0, dev_work = []\<rparr>"

definition sample_req :: req where
  "sample_req = \<lparr>r_idx = [0, 1, 2], r_buf = 3, r_write = True, r_val = replicate 1024 7\<rparr>"

lemma sample_vbufs: "vbufs sample_vdisk b = \<lparr>b_disk = False, b_blockno = 5, b_data = replicate 1024 7\<rparr>"
  by (simp only: sample_vdisk_def vdisk.simps)

lemma sample_free_map: "free_map sample_vdisk = [True, True, True, True, True, True, True, True]"
  by (simp only: sample_vdisk_def vdisk.simps) (simp add: numeral_eq_Suc)

lemma sample_submit: "rw_submit 3 True sample_vdisk = Ok [0, 1, 2] (submitted 3 True 0 1 2 sample_vdisk)"
proof -
  have e: "[0..<NUM] = [0, 1, 2, 3, 4, 5, 6, 7]" by (simp add: NUM_def upt_conv_Cons)
  have a: "alloc3_desc sample_vdisk = Ok (Some [0, 1, 2]) (sample_vdisk\<lparr>free_map := (free_map sample_vdisk)[0 := False, 1 := False, 2 := False]\<rparr>)"
    by (simp add: alloc3_desc_def numeral_3_eq_3 alloc_desc_def e run_simps sample_free_map)
  show ?thesis
    by (simp add: rw_submit_def a run_simps submitted_def set_desc_def BSIZE_def numeral_2_eq_2)
qed

lemma sample_reach1: "vreach D \<lparr>vd = submitted 3 True 0 1 2 sample_vdisk, active = [sample_req]\<rparr>"
proof -
  have i: "vreach D \<lparr>vd = sample_vdisk, active = []\<rparr>"
    by (rule vreach.start) (simp add: vinit_def sample_vdisk_def NUM_def)
  have "vstep D \<lparr>vd = sample_vdisk, active = []\<rparr> \<lparr>vd = submitted 3 True 0 1 2 sample_vdisk, active = [sample_req]\<rparr>"
    using vstep.submit [of "\<lparr>vd = sample_vdisk, active = []\<rparr>" 3 True "[0, 1, 2]" "submitted 3 True 0 1 2 sample_vdisk" D]
    unfolding sample_req_def by (simp only: sample_submit idle_def sample_vbufs vsys.simps vbuf.simps) simp
  with i show ?thesis by (rule vreach.step)
qed

abbreviation sample_v2 :: vdisk where
  "sample_v2 \<equiv> dev_fetch (submitted 3 True 0 1 2 sample_vdisk)"

abbreviation sample_v3 :: vdisk where
  "sample_v3 \<equiv> dev_finish 0 0 (dev_transfer True 10 3 sample_v2)"

lemma sample_fields:
  "avail_idx sample_vdisk = 0" "dev_avail_idx sample_vdisk = 0" "dev_work sample_vdisk = []" "used_idx sample_vdisk = 0"
  "dev_used_idx sample_vdisk = 0" "avail_ring sample_vdisk = replicate 8 0" "used_ring sample_vdisk = replicate 8 0"
  "info_b sample_vdisk = replicate 8 None" "info_status sample_vdisk = replicate 8 0"
  by (simp_all only: sample_vdisk_def vdisk.simps)

lemma sample_reach2: "vreach fifo_device \<lparr>vd = sample_v2, active = [sample_req]\<rparr>"
proof (rule vreach.step [OF sample_reach1])
  have "fifo_device (submitted 3 True 0 1 2 sample_vdisk) sample_v2"
    by (simp add: fifo_device_def submitted_def sample_fields)
  then show "vstep fifo_device \<lparr>vd = submitted 3 True 0 1 2 sample_vdisk, active = [sample_req]\<rparr> \<lparr>vd = sample_v2, active = [sample_req]\<rparr>"
    using vstep.device [of fifo_device "\<lparr>vd = submitted 3 True 0 1 2 sample_vdisk, active = [sample_req]\<rparr>" sample_v2] by simp
qed

lemma sample_reach3: "vreach fifo_device \<lparr>vd = sample_v3, active = [sample_req]\<rparr>"
proof (rule vreach.step [OF sample_reach2])
  have inv: "vinv \<lparr>vd = sample_v2, active = [sample_req]\<rparr>" by (rule vreach_inv [OF sample_reach2 fifo_device_ok])
  have "request_at sample_v2 (r_head sample_req) = Some (r_write sample_req, 2 * ucast (b_blockno (vbufs sample_v2 (r_buf sample_req))), r_buf sample_req, r_head sample_req)"
    using inv by (intro request_found [of _ "[sample_req]"]) (simp_all add: vinv_def)
  then have "request_at sample_v2 0 = Some (True, 10, 3, 0)"
    by (simp add: sample_req_def dev_fetch_def submitted_def sample_vbufs)
  moreover have "dev_work sample_v2 = [0]" "dev_avail_idx sample_v2 = avail_idx sample_v2"
    by (simp_all add: dev_fetch_def submitted_def sample_fields NUM_def)
  ultimately have "fifo_device sample_v2 sample_v3" by (simp add: fifo_device_def)
  then show "vstep fifo_device \<lparr>vd = sample_v2, active = [sample_req]\<rparr> \<lparr>vd = sample_v3, active = [sample_req]\<rparr>"
    using vstep.device [of fifo_device "\<lparr>vd = sample_v2, active = [sample_req]\<rparr>" sample_v3] by simp
qed

lemma sample_reach4: "vreach fifo_device \<lparr>vd = acknowledged 3 sample_v3, active = [sample_req]\<rparr>"
proof (rule vreach.step [OF sample_reach3])
  have "used_idx sample_v3 = 0" "dev_used_idx sample_v3 = 1" "used_ring sample_v3 ! 0 = 0" "info_status sample_v3 ! 0 = 0"
    "info_b sample_v3 ! 0 = Some 3"
    by (simp_all add: dev_finish_def dev_transfer_def dev_fetch_def submitted_def sample_fields)
  then have "virtio_disk_intr sample_v3 = Ok () (acknowledged 3 sample_v3)"
    by (simp add: virtio_disk_intr_def run_simps acknowledged_def NUM_def Let_def)
  then show "vstep fifo_device \<lparr>vd = sample_v3, active = [sample_req]\<rparr> \<lparr>vd = acknowledged 3 sample_v3, active = [sample_req]\<rparr>"
    using vstep.intr [of "\<lparr>vd = sample_v3, active = [sample_req]\<rparr>" "acknowledged 3 sample_v3" fifo_device] by simp
qed

theorem disk_transfers_witness:
  "vreach fifo_device \<lparr>vd = acknowledged 3 sample_v3, active = [sample_req]\<rparr> \<and>
   b_data (vbufs (acknowledged 3 sample_v3) 3) = replicate 1024 7 \<and> blk (acknowledged 3 sample_v3) (b_blockno (vbufs (acknowledged 3 sample_v3) 3)) = replicate 1024 7"
  using disk_transfers [OF fifo_device_ok sample_reach4, of sample_req] sample_reach4
  by (simp add: sample_req_def acknowledged_def)

theorem driver_safe_witness:
  "blk_device fifo_device \<and> vreach fifo_device \<lparr>vd = sample_v3, active = [sample_req]\<rparr> \<and>
   (\<exists>v. virtio_disk_intr sample_v3 = Ok () v) \<and> length (filter (\<lambda>i. free_map sample_v3 ! i) [0..<NUM]) + 3 * 1 = NUM"
  using driver_safe [OF fifo_device_ok sample_reach3] fifo_device_ok sample_reach3 by simp

theorem free_chain_ends_witness:
  "\<exists>v'. free_chain 0 sample_v3 \<in> {Ok () v', Err (Panic ''free_desc 2'') v', Err (Panic ''free_desc 1'') v'}"
  by (rule free_chain_ends)
    (simp add: dev_finish_def dev_transfer_def dev_fetch_def submitted_def sample_free_map NUM_def)

end
