(* ===== verification/Vboot.thy ===== *)
theory Vboot
  imports Vdriver Kalloc
begin

text \<open>
  The initialisation of the disk driver, \<^verbatim>\<open>virtio_disk_init\<close>. What the device answers when a register is read
  is the parameter \<open>rd\<close>, a function of the register writes it has received so far; the state records them.
\<close>

definition MMIO_MAGIC_VALUE :: u32 where [const_defs]: "MMIO_MAGIC_VALUE = 0x000"
definition MMIO_VERSION :: u32 where [const_defs]: "MMIO_VERSION = 0x004"
definition MMIO_DEVICE_ID :: u32 where [const_defs]: "MMIO_DEVICE_ID = 0x008"
definition MMIO_VENDOR_ID :: u32 where [const_defs]: "MMIO_VENDOR_ID = 0x00c"
definition MMIO_DEVICE_FEATURES :: u32 where [const_defs]: "MMIO_DEVICE_FEATURES = 0x010"
definition MMIO_DRIVER_FEATURES :: u32 where [const_defs]: "MMIO_DRIVER_FEATURES = 0x020"
definition MMIO_QUEUE_SEL :: u32 where [const_defs]: "MMIO_QUEUE_SEL = 0x030"
definition MMIO_QUEUE_NUM_MAX :: u32 where [const_defs]: "MMIO_QUEUE_NUM_MAX = 0x034"
definition MMIO_QUEUE_NUM :: u32 where [const_defs]: "MMIO_QUEUE_NUM = 0x038"
definition MMIO_QUEUE_READY :: u32 where [const_defs]: "MMIO_QUEUE_READY = 0x044"
definition MMIO_STATUS :: u32 where [const_defs]: "MMIO_STATUS = 0x070"
definition MMIO_QUEUE_DESC_LOW :: u32 where [const_defs]: "MMIO_QUEUE_DESC_LOW = 0x080"
definition MMIO_QUEUE_DESC_HIGH :: u32 where [const_defs]: "MMIO_QUEUE_DESC_HIGH = 0x084"
definition MMIO_DRIVER_DESC_LOW :: u32 where [const_defs]: "MMIO_DRIVER_DESC_LOW = 0x090"
definition MMIO_DRIVER_DESC_HIGH :: u32 where [const_defs]: "MMIO_DRIVER_DESC_HIGH = 0x094"
definition MMIO_DEVICE_DESC_LOW :: u32 where [const_defs]: "MMIO_DEVICE_DESC_LOW = 0x0a0"
definition MMIO_DEVICE_DESC_HIGH :: u32 where [const_defs]: "MMIO_DEVICE_DESC_HIGH = 0x0a4"
definition S_ACKNOWLEDGE :: u32 where [const_defs]: "S_ACKNOWLEDGE = 1"
definition S_DRIVER :: u32 where [const_defs]: "S_DRIVER = 2"
definition S_DRIVER_OK :: u32 where [const_defs]: "S_DRIVER_OK = 4"
definition S_FEATURES_OK :: u32 where [const_defs]: "S_FEATURES_OK = 8"

record vboot =
  mmio :: "(u32 \<times> u32) list"
  vmem :: kmem
  vdrv :: vdisk

definition wr_reg :: "u32 \<Rightarrow> u32 \<Rightarrow> (vboot, unit) prog" where
  "wr_reg r x = modify (mmio_update (\<lambda>ws. ws @ [(r, x)]))"

definition rd_reg :: "((u32 \<times> u32) list \<Rightarrow> u32 \<Rightarrow> u32) \<Rightarrow> u32 \<Rightarrow> (vboot, u32) prog" where
  "rd_reg rd r = gets (\<lambda>s. rd (mmio s) r)"

text \<open>The features the driver refuses: RO, SCSI, CONFIG WCE, MQ, ANY LAYOUT, EVENT IDX and INDIRECT DESC.\<close>

definition driver_features :: "u64 \<Rightarrow> u64" where
  "driver_features f = fold (\<lambda>n f. f AND NOT (push_bit n 1)) [5, 7, 11, 12, 27, 29, 28] f"

definition put_address :: "u32 \<Rightarrow> u32 \<Rightarrow> u64 \<Rightarrow> (vboot, unit) prog" where
  "put_address low high a = andthen (wr_reg low (ucast a)) (wr_reg high (ucast (drop_bit 32 a)))"

definition zero_vpage :: "u64 \<Rightarrow> (vboot, unit) prog" where
  "zero_vpage pa = modify (vmem_update (\<lambda>m. m\<lparr>mem := memset (mem m) pa 0 (ucast PGSIZE)\<rparr>))"

text \<open>The three pages hold the descriptor table and the two rings; clearing them clears these.\<close>

definition clear_queue :: "(vboot, unit) prog" where
  "clear_queue = modify (vdrv_update (\<lambda>v. v\<lparr>
     desc := replicate NUM \<lparr>vd_addr = A_null, vd_len = 0, vd_flags = 0, vd_next = 0\<rparr>,
     avail_ring := replicate NUM 0, avail_idx := 0, used_ring := replicate NUM 0, dev_used_idx := 0\<rparr>))"

definition queue_setup :: "(vboot, unit) prog" where
  "queue_setup =
     bnd (zoom vmem vmem_update kalloc) (\<lambda>desc_pa.
     bnd (zoom vmem vmem_update kalloc) (\<lambda>avail_pa.
     bnd (zoom vmem vmem_update kalloc) (\<lambda>used_pa.
     if desc_pa = 0 \<or> avail_pa = 0 \<or> used_pa = 0 then panic ''virtio disk kalloc''
     else
       andthen (zero_vpage desc_pa) (andthen (zero_vpage avail_pa) (andthen (zero_vpage used_pa) (andthen clear_queue
       (andthen (wr_reg MMIO_QUEUE_NUM (of_nat NUM))
       (andthen (put_address MMIO_QUEUE_DESC_LOW MMIO_QUEUE_DESC_HIGH desc_pa)
       (andthen (put_address MMIO_DRIVER_DESC_LOW MMIO_DRIVER_DESC_HIGH avail_pa)
       (andthen (put_address MMIO_DEVICE_DESC_LOW MMIO_DEVICE_DESC_HIGH used_pa)
       (wr_reg MMIO_QUEUE_READY 1)))))))))))"

definition virtio_disk_init :: "((u32 \<times> u32) list \<Rightarrow> u32 \<Rightarrow> u32) \<Rightarrow> (vboot, unit) prog" where
  "virtio_disk_init rd =
     bnd (rd_reg rd MMIO_MAGIC_VALUE) (\<lambda>magic. bnd (rd_reg rd MMIO_VERSION) (\<lambda>version.
     bnd (rd_reg rd MMIO_DEVICE_ID) (\<lambda>device. bnd (rd_reg rd MMIO_VENDOR_ID) (\<lambda>vendor.
     if magic \<noteq> 0x74726976 \<or> version \<noteq> 2 \<or> device \<noteq> 2 \<or> vendor \<noteq> 0x554d4551 then panic ''could not find virtio disk''
     else
       andthen (wr_reg MMIO_STATUS 0)
       (andthen (wr_reg MMIO_STATUS S_ACKNOWLEDGE)
       (andthen (wr_reg MMIO_STATUS (S_ACKNOWLEDGE OR S_DRIVER))
       (bnd (rd_reg rd MMIO_DEVICE_FEATURES) (\<lambda>features.
        andthen (wr_reg MMIO_DRIVER_FEATURES (ucast (driver_features (ucast features))))
        (andthen (wr_reg MMIO_STATUS (S_ACKNOWLEDGE OR S_DRIVER OR S_FEATURES_OK))
        (bnd (rd_reg rd MMIO_STATUS) (\<lambda>status.
         if status AND S_FEATURES_OK = 0 then panic ''virtio disk FEATURES_OK unset''
         else
           andthen (wr_reg MMIO_QUEUE_SEL 0)
           (bnd (rd_reg rd MMIO_QUEUE_READY) (\<lambda>ready.
            if ready \<noteq> 0 then panic ''virtio disk should not be ready''
            else bnd (rd_reg rd MMIO_QUEUE_NUM_MAX) (\<lambda>qmax.
              if qmax = 0 then panic ''virtio disk has no queue 0''
              else if qmax < of_nat NUM then panic ''virtio disk max queue too short''
              else
                andthen queue_setup
                (andthen (modify (vdrv_update (free_map_update (\<lambda>_. replicate NUM True))))
                (wr_reg MMIO_STATUS (status OR S_DRIVER_OK)))))))))))))))))"

text \<open>
  If initialisation returns, the driver is in a start state of the model of requests, provided the C
  objects had their static initial values and the device was idle.
\<close>

definition vstatic :: "vdisk \<Rightarrow> bool" where
  "vstatic v \<longleftrightarrow> used_idx v = 0 \<and> dev_avail_idx v = 0 \<and> dev_work v = [] \<and> length (info_b v) = NUM \<and>
     length (info_status v) = NUM \<and> length (ops v) = NUM \<and>
     (\<forall>b. length (b_data (vbufs v b)) = 1024) \<and> (\<forall>n. length (sectors v n) = 512)"

lemma queue_setup_result:
  assumes "queue_setup s = Ok () t"
  shows "vdrv t = (vdrv s)\<lparr>
     desc := replicate NUM \<lparr>vd_addr = A_null, vd_len = 0, vd_flags = 0, vd_next = 0\<rparr>,
     avail_ring := replicate NUM 0, avail_idx := 0, used_ring := replicate NUM 0, dev_used_idx := 0\<rparr>"
  using assms
  by (auto simp: queue_setup_def zero_vpage_def clear_queue_def wr_reg_def put_address_def run_simps split: res.splits if_splits)

lemma virtio_disk_init_vinit:
  assumes "virtio_disk_init rd s = Ok () t" and "vstatic (vdrv s)"
  shows "vreach D \<lparr>vd = vdrv t, active = []\<rparr>"
proof (rule vreach.start)
  obtain u t' where "vdrv u = vdrv s" "queue_setup u = Ok () t'" "vdrv t = (vdrv t')\<lparr>free_map := replicate NUM True\<rparr>"
    using assms(1)
    by (auto simp: virtio_disk_init_def rd_reg_def wr_reg_def run_simps split: res.splits if_splits)
      (erule that [rotated], simp_all)
  then show "vinit (vdrv t)"
    using assms(2) by (simp add: queue_setup_result vstatic_def vinit_def)
qed

end
