(* ===== verification/Trap.thy ===== *)
theory Trap
  imports Sysfile Vboot
begin

text \<open>
  System calls without files (\<^verbatim>\<open>kernel/sysproc.c\<close>), the dispatch of system calls (\<^verbatim>\<open>kernel/syscall.c\<close>), traps
  and device interrupts (\<^verbatim>\<open>kernel/trap.c\<close>, \<^verbatim>\<open>kernel/plic.c\<close>), the kernel page table (\<^verbatim>\<open>kernel/vm.c\<close>), \<^verbatim>\<open>forkret\<close>
  and the start of the system on the first CPU (\<^verbatim>\<open>kernel/main.c\<close>). The state adds to the kernel the disk driver
  and the control registers of the CPU the code runs on. A function that yields ends there with \<open>Sleeps\<close>; what
  follows is a definition of its own, with which the process continues.
\<close>

subsection \<open>State\<close>

text \<open>
  \<open>claimable\<close> lists the interrupts the interrupt controller will hand out on this CPU, \<open>plic_writes\<close> what was
  written to its registers.
\<close>

record hart =
  h_id :: nat
  sstatus :: u64
  stvec :: u64
  sepc :: u64
  scause :: u64
  stval :: u64
  satp :: u64
  h_time :: u64
  stimecmp :: u64
  claimable :: "u32 list"
  plic_writes :: "(u64 \<times> u32) list"

text \<open>The last five fields are addresses fixed by the linker, and the global \<^verbatim>\<open>kernel_pagetable\<close>.\<close>

record system =
  tker :: kernel
  tdisk :: vdisk
  tmmio :: "(u32 \<times> u32) list"
  th :: hart
  started :: bool
  kernel_pagetable :: u64
  a_etext :: u64
  a_kernelvec :: u64
  a_usertrap :: u64
  a_uservec :: u64
  a_userret :: u64

abbreviation in_k :: "(kernel, 'a) prog \<Rightarrow> (system, 'a) prog" where
  "in_k \<equiv> zoom tker tker_update"

abbreviation upd_hart :: "(hart \<Rightarrow> hart) \<Rightarrow> (system, unit) prog" where
  "upd_hart f \<equiv> modify (th_update f)"

definition SSTATUS_SPP :: u64 where [const_defs]: "SSTATUS_SPP = 0x100"
definition SSTATUS_SPIE :: u64 where [const_defs]: "SSTATUS_SPIE = 0x20"
definition SSTATUS_SIE :: u64 where [const_defs]: "SSTATUS_SIE = 2"
definition UART0_IRQ :: u32 where [const_defs]: "UART0_IRQ = 10"
definition VIRTIO0_IRQ :: u32 where [const_defs]: "VIRTIO0_IRQ = 1"
definition UART0 :: u64 where [const_defs]: "UART0 = 0x10000000"
definition VIRTIO0 :: u64 where [const_defs]: "VIRTIO0 = 0x10001000"
definition PLIC :: u64 where [const_defs]: "PLIC = 0x0c000000"

definition PLIC_SENABLE :: "nat \<Rightarrow> u64" where "PLIC_SENABLE h = PLIC + 0x2080 + of_nat h * 0x100"
definition PLIC_SPRIORITY :: "nat \<Rightarrow> u64" where "PLIC_SPRIORITY h = PLIC + 0x201000 + of_nat h * 0x2000"
definition PLIC_SCLAIM :: "nat \<Rightarrow> u64" where "PLIC_SCLAIM h = PLIC + 0x201004 + of_nat h * 0x2000"

definition MAKE_SATP :: "u64 \<Rightarrow> u64" where
  "MAKE_SATP pagetable = push_bit 60 8 OR drop_bit 12 pagetable"

definition intr_on :: "(system, unit) prog" where
  "intr_on = upd_hart (sstatus_update (\<lambda>x. x OR SSTATUS_SIE))"

definition intr_off :: "(system, unit) prog" where
  "intr_off = upd_hart (sstatus_update (\<lambda>x. x AND NOT SSTATUS_SIE))"

definition intr_get :: "hart \<Rightarrow> bool" where
  "intr_get h \<longleftrightarrow> sstatus h AND SSTATUS_SIE \<noteq> 0"

subsection \<open>System calls on processes\<close>

definition sys_exit :: "nat \<Rightarrow> (kernel, int) prog" where
  "sys_exit p = bnd (argint p 0) (\<lambda>n. andthen (exit p (word_of_int n) :: (kernel, unit) prog) (ret 0))"

definition sys_getpid :: "nat \<Rightarrow> (kernel, int) prog" where
  "sys_getpid p = gets (\<lambda>k. p_pid (proc_at k p))"

definition sys_fork :: "nat \<Rightarrow> (kernel, int) prog" where
  "sys_fork p = fork p"

definition sys_wait :: "nat \<Rightarrow> (kernel, int) prog" where
  "sys_wait p = bnd (argaddr p 0) (wait p)"

definition sys_sbrk :: "nat \<Rightarrow> (kernel, int) prog" where
  "sys_sbrk p =
     bnd (argint p 0) (\<lambda>n.
     bnd (gets (\<lambda>k. p_sz (proc_at k p))) (\<lambda>addr.
     bnd (growproc p n) (\<lambda>r. if r < 0 then ret (- 1) else ret (uint addr))))"

text \<open>The loop of \<^verbatim>\<open>sys_sleep\<close>: the difference of the tick counts is unsigned, so it survives a wrap-around.\<close>

definition sys_sleep_loop :: "nat \<Rightarrow> int \<Rightarrow> u32 \<Rightarrow> (kernel, int) prog" where
  "sys_sleep_loop p n ticks0 =
     bnd (gets ticks) (\<lambda>t.
     if t - ticks0 < word_of_int n then
       bnd (killed p) (\<lambda>kl. if kl then ret (- 1) else sleep p Ch_ticks)
     else ret 0)"

definition sys_sleep :: "nat \<Rightarrow> (kernel, int) prog" where
  "sys_sleep p =
     bnd (argint p 0) (\<lambda>n.
     let n = (if n < 0 then 0 else n) in
     bnd (gets ticks) (\<lambda>ticks0. sys_sleep_loop p n ticks0))"

definition sys_kill :: "nat \<Rightarrow> (kernel, int) prog" where
  "sys_kill p = bnd (argint p 0) kill"

definition sys_uptime :: "(kernel, int) prog" where
  "sys_uptime = gets (\<lambda>k. uint (ticks k))"

subsection \<open>Dispatch\<close>

text \<open>
  The table \<^verbatim>\<open>syscalls\<close>, indexed by the numbers of \<^verbatim>\<open>syscall.h\<close>. \<open>g\<close> and \<open>pad\<close> are the unspecified stack bytes
  that some calls see.
\<close>

definition syscalls :: "u8 list \<Rightarrow> u8 list \<Rightarrow> nat \<Rightarrow> (kernel, int) prog option list" where
  "syscalls g pad p = [None, Some (sys_fork p), Some (sys_exit p), Some (sys_wait p), Some (sys_pipe p), Some (sys_read p),
     Some (sys_kill p), Some (sys_exec p g), Some (sys_fstat p pad), Some (sys_chdir p g), Some (sys_dup p), Some (sys_getpid p),
     Some (sys_sbrk p), Some (sys_sleep p), Some sys_uptime, Some (sys_open p g), Some (sys_write p), Some (sys_mknod p g),
     Some (sys_unlink p g), Some (sys_link p g), Some (sys_mkdir p g), Some (sys_close p)]"

definition newline :: string where
  "newline = [CHR 0x0A]"

definition syscall :: "u8 list \<Rightarrow> u8 list \<Rightarrow> nat \<Rightarrow> (kernel, unit) prog" where
  "syscall g pad p =
     bnd (tf_get p tf_a7) (\<lambda>a7.
     let num = sint (ucast a7 :: u32); table = syscalls g pad p in
     if num > 0 \<and> num < int (length table) \<and> table ! nat num \<noteq> None then
       bnd (the (table ! nat num)) (\<lambda>r. tf_set p tf_a0 (word_of_int r))
     else
       bnd (gets (\<lambda>k. proc_at k p)) (\<lambda>x.
       andthen (kprintf (''%d %s: unknown sys call %d'' @ newline)
         [AInt (word_of_int (p_pid x)), AStr (Some (takeWhile (\<lambda>c. c \<noteq> 0) (p_name x))), AInt (word_of_int num)])
       (tf_set p tf_a0 (- 1))))"

subsection \<open>The interrupt controller\<close>

definition plicinit :: "(system, unit) prog" where
  "plicinit = upd_hart (plic_writes_update (\<lambda>ws.
     ws @ [(PLIC + ucast UART0_IRQ * 4, 1), (PLIC + ucast VIRTIO0_IRQ * 4, 1)]))"

definition plicinithart :: "(system, unit) prog" where
  "plicinithart = upd_hart (\<lambda>h. h\<lparr>plic_writes := plic_writes h @
     [(PLIC_SENABLE (h_id h), push_bit (unat UART0_IRQ) 1 OR push_bit (unat VIRTIO0_IRQ) 1), (PLIC_SPRIORITY (h_id h), 0)]\<rparr>)"

text \<open>Reading the claim register hands out the next interrupt, 0 if there is none.\<close>

definition plic_claim :: "(system, u32) prog" where
  "plic_claim =
     bnd (gets (\<lambda>s. claimable (th s))) (\<lambda>cs.
     case cs of [] \<Rightarrow> ret 0 | irq # rest \<Rightarrow> andthen (upd_hart (claimable_update (\<lambda>_. rest))) (ret irq))"

definition plic_complete :: "u32 \<Rightarrow> (system, unit) prog" where
  "plic_complete irq = upd_hart (\<lambda>h. h\<lparr>plic_writes := plic_writes h @ [(PLIC_SCLAIM (h_id h), irq)]\<rparr>)"

subsection \<open>Interrupts\<close>

definition trapinithart :: "(system, unit) prog" where
  "trapinithart = bnd (gets a_kernelvec) (\<lambda>v. upd_hart (stvec_update (\<lambda>_. v)))"

definition clockintr :: "nat \<Rightarrow> (system, unit) prog" where
  "clockintr p =
     bnd (gets (\<lambda>s. h_id (th s))) (\<lambda>c.
     andthen (if c = 0 then in_k (andthen (modify (ticks_update (\<lambda>t. t + 1))) (wakeup p Ch_ticks)) else ret ())
     (upd_hart (\<lambda>h. h\<lparr>stimecmp := h_time h + 1000000\<rparr>)))"

definition devintr :: "nat \<Rightarrow> (system, int) prog" where
  "devintr p =
     bnd (gets (\<lambda>s. scause (th s))) (\<lambda>cause.
     if cause = 0x8000000000000009 then
       bnd plic_claim (\<lambda>irq.
       andthen
         (if irq = UART0_IRQ then in_k (uartintr p)
          else if irq = VIRTIO0_IRQ then zoom tdisk tdisk_update virtio_disk_intr
          else if irq \<noteq> 0 then in_k (kprintf (''unexpected interrupt irq=%d'' @ newline) [AInt irq])
          else ret ())
       (andthen (if irq \<noteq> 0 then plic_complete irq else ret ())
       (ret 1)))
     else if cause = 0x8000000000000005 then andthen (clockintr p) (ret 2)
     else ret 0)"

subsection \<open>Traps from user space\<close>

text \<open>
  \<^verbatim>\<open>usertrapret\<close> returns the argument and the target of the jump to \<^verbatim>\<open>userret\<close> in the trampoline page.
\<close>

definition usertrapret :: "nat \<Rightarrow> (system, u64 \<times> u64) prog" where
  "usertrapret p =
     andthen intr_off
     (bnd (gets (\<lambda>s. s)) (\<lambda>s.
      let tramp = k_trampoline (tker s); h = th s; x = proc_at (tker s) p in
      andthen (upd_hart (stvec_update (\<lambda>_. TRAMPOLINE + (a_uservec s - tramp))))
      (andthen (in_k (tf_set p tf_kernel_satp (satp h)))
      (andthen (in_k (tf_set p tf_kernel_sp (p_kstack x + PGSIZE)))
      (andthen (in_k (tf_set p tf_kernel_trap (a_usertrap s)))
      (andthen (in_k (tf_set p tf_kernel_hartid (of_nat (h_id h))))
      (andthen (upd_hart (sstatus_update (\<lambda>x. (x AND NOT SSTATUS_SPP) OR SSTATUS_SPIE)))
      (bnd (in_k (tf_get p tf_epc)) (\<lambda>epc.
       andthen (upd_hart (sepc_update (\<lambda>_. epc)))
       (ret (MAKE_SATP (p_pagetable x), TRAMPOLINE + (a_userret s - tramp))))))))))))"

text \<open>The end of \<^verbatim>\<open>usertrap\<close>; after \<^verbatim>\<open>yield\<close> the process goes on with \<open>usertrapret\<close>.\<close>

definition usertrap_end :: "nat \<Rightarrow> int \<Rightarrow> (system, u64 \<times> u64) prog" where
  "usertrap_end p which_dev =
     bnd (in_k (killed p)) (\<lambda>kl.
     andthen (if kl then in_k (exit p (- 1)) else ret ())
     (andthen (if which_dev = 2 then in_k (yield p) else ret ())
     (usertrapret p)))"

definition usertrap :: "u8 list \<Rightarrow> u8 list \<Rightarrow> nat \<Rightarrow> (system, u64 \<times> u64) prog" where
  "usertrap g pad p =
     bnd (gets th) (\<lambda>h.
     if sstatus h AND SSTATUS_SPP \<noteq> 0 then panic ''usertrap: not from user mode''
     else
       andthen trapinithart
       (andthen (in_k (tf_set p tf_epc (sepc h)))
       (if scause h = 8 then
          bnd (in_k (killed p)) (\<lambda>kl.
          andthen (if kl then in_k (exit p (- 1)) else ret ())
          (bnd (in_k (tf_get p tf_epc)) (\<lambda>epc.
           andthen (in_k (tf_set p tf_epc (epc + 4)))
           (andthen intr_on
           (andthen (in_k (syscall g pad p))
           (usertrap_end p 0))))))
        else
          bnd (devintr p) (\<lambda>which_dev.
          if which_dev \<noteq> 0 then usertrap_end p which_dev
          else
            bnd (gets (\<lambda>s. p_pid (proc_at (tker s) p))) (\<lambda>pid.
            andthen (in_k (kprintf (''usertrap(): unexpected scause 0x%lx pid=%d'' @ newline) [ALong (scause h), AInt (word_of_int pid)]))
            (andthen (in_k (kprintf (''            sepc=0x%lx stval=0x%lx'' @ newline) [ALong (sepc h), ALong (stval h)]))
            (andthen (in_k (setkilled p))
            (usertrap_end p 0))))))))"

subsection \<open>Traps from the kernel\<close>

text \<open>\<open>p\<close> is null when the scheduler runs. The end of the function restores the registers saved at its start.\<close>

definition kerneltrap_end :: "u64 \<Rightarrow> u64 \<Rightarrow> (system, unit) prog" where
  "kerneltrap_end epc status = upd_hart (\<lambda>h. h\<lparr>sepc := epc, sstatus := status\<rparr>)"

definition kerneltrap :: "nat \<Rightarrow> (system, unit) prog" where
  "kerneltrap p =
     bnd (gets th) (\<lambda>h.
     if sstatus h AND SSTATUS_SPP = 0 then panic ''kerneltrap: not from supervisor mode''
     else if intr_get h then panic ''kerneltrap: interrupts enabled''
     else bnd (devintr p) (\<lambda>which_dev.
       if which_dev = 0 then
         andthen (in_k (kprintf (''scause=0x%lx sepc=0x%lx stval=0x%lx'' @ newline) [ALong (scause h), ALong (sepc h), ALong (stval h)]))
         (panic ''kerneltrap'')
       else
         andthen (if which_dev = 2 \<and> p \<noteq> nullproc then in_k (yield p) else ret ())
         (kerneltrap_end (sepc h) (sstatus h))))"

subsection \<open>The first return of a process to user space\<close>

definition forkret :: "nat \<Rightarrow> (system, u64 \<times> u64) prog" where
  "forkret p =
     bnd (gets (\<lambda>s. first (tker s))) (\<lambda>fst'.
     andthen
       (if fst' then
          andthen (in_k (fs_call p (\<lambda>c. fsinit c ROOTDEV))) (in_k (modify (first_update (\<lambda>_. False))))
        else ret ())
     (usertrapret p))"

subsection \<open>Start of the system\<close>

text \<open>The kernel page table. A null pointer from \<^verbatim>\<open>kalloc\<close> is not checked; clearing page 0 is a fault.\<close>

definition kvmmake :: "u64 \<Rightarrow> (kernel, u64) prog" where
  "kvmmake etext =
     bnd (in_kmem kalloc) (\<lambda>kpgtbl.
     andthen (guard (kpgtbl \<noteq> 0) (Fault ''kvmmake: kalloc''))
     (andthen (in_kmem (modify (mem_store (\<lambda>m. memset m kpgtbl 0 (ucast PGSIZE)))))
     (andthen (in_kmem (kvmmap kpgtbl UART0 UART0 PGSIZE (PTE_R OR PTE_W)))
     (andthen (in_kmem (kvmmap kpgtbl VIRTIO0 VIRTIO0 PGSIZE (PTE_R OR PTE_W)))
     (andthen (in_kmem (kvmmap kpgtbl PLIC PLIC 0x400000 (PTE_R OR PTE_W)))
     (andthen (in_kmem (kvmmap kpgtbl KERNBASE KERNBASE (etext - KERNBASE) (PTE_R OR PTE_X)))
     (andthen (in_kmem (kvmmap kpgtbl etext etext (PHYSTOP - etext) (PTE_R OR PTE_W)))
     (bnd (gets k_trampoline) (\<lambda>tramp.
      andthen (in_kmem (kvmmap kpgtbl TRAMPOLINE tramp PGSIZE (PTE_R OR PTE_X)))
      (andthen (proc_mapstacks kpgtbl)
      (ret kpgtbl)))))))))))"

definition kvminit :: "(system, unit) prog" where
  "kvminit = bnd (gets a_etext) (\<lambda>e. bnd (in_k (kvmmake e)) (\<lambda>pt. modify (kernel_pagetable_update (\<lambda>_. pt))))"

definition kvminithart :: "(system, unit) prog" where
  "kvminithart = bnd (gets kernel_pagetable) (\<lambda>pt. upd_hart (satp_update (\<lambda>_. MAKE_SATP pt)))"

text \<open>The disk driver works on its own state and on the page allocator.\<close>

definition get_vboot :: "system \<Rightarrow> vboot" where
  "get_vboot s = \<lparr>mmio = tmmio s, vmem = fmem (kfs (tker s)), vdrv = tdisk s\<rparr>"

definition put_vboot :: "(vboot \<Rightarrow> vboot) \<Rightarrow> system \<Rightarrow> system" where
  "put_vboot f s = (let v = f (get_vboot s) in
     tker_update (kfs_update (fmem_update (\<lambda>_. vmem v))) (s\<lparr>tmmio := mmio v, tdisk := vdrv v\<rparr>))"

text \<open>
  \<^verbatim>\<open>main\<close> up to the call of the scheduler, on CPU 0 and on another CPU, which waits for \<^verbatim>\<open>started\<close>. \<open>rd\<close> is the
  disk device as in the driver.
\<close>

definition main_first :: "((u32 \<times> u32) list \<Rightarrow> u32 \<Rightarrow> u32) \<Rightarrow> u8 list \<Rightarrow> (system, unit) prog" where
  "main_first rd g =
     andthen (in_k consoleinit)
     (andthen (in_k (kprintf newline []))
     (andthen (in_k (kprintf (''xv6 kernel is booting'' @ newline) []))
     (andthen (in_k (kprintf newline []))
     (andthen (in_k (in_kmem kinit))
     (andthen kvminit
     (andthen kvminithart
     (andthen (in_k procinit)
     (andthen trapinithart
     (andthen plicinit
     (andthen plicinithart
     (andthen (in_k (in_fs (in_log (in_bio binit))))
     (andthen (in_k (in_fs iinit))
     (andthen (zoom get_vboot put_vboot (virtio_disk_init rd))
     (andthen (in_k (userinit nullproc g))
     (modify (started_update (\<lambda>_. True)))))))))))))))))"

definition main_other :: "(system, unit) prog" where
  "main_other =
     bnd (gets started) (\<lambda>st.
     if \<not> st then fails (Spins ''main'')
     else
       bnd (gets (\<lambda>s. h_id (th s))) (\<lambda>c.
       andthen (in_k (kprintf (''hart %d starting'' @ newline) [AInt (of_nat c)]))
       (andthen kvminithart
       (andthen trapinithart
       plicinithart))))"

subsection \<open>Machine mode\<close>

text \<open>
  \<^verbatim>\<open>kernel/start.c\<close>: the registers each CPU sets before it enters \<^verbatim>\<open>main\<close> in supervisor mode with \<^verbatim>\<open>mret\<close>.
\<close>

record mregs =
  mstatus :: u64
  mepc :: u64
  m_satp :: u64
  medeleg :: u64
  mideleg :: u64
  sie :: u64
  pmpaddr0 :: u64
  pmpcfg0 :: u64
  mie :: u64
  menvcfg :: u64
  mcounteren :: u64
  m_time :: u64
  m_stimecmp :: u64
  mhartid :: u64
  m_tp :: u64

definition MSTATUS_MPP_MASK :: u64 where [const_defs]: "MSTATUS_MPP_MASK = 0x1800"
definition MSTATUS_MPP_S :: u64 where [const_defs]: "MSTATUS_MPP_S = 0x800"
definition SIE_SEIE :: u64 where [const_defs]: "SIE_SEIE = 0x200"
definition SIE_STIE :: u64 where [const_defs]: "SIE_STIE = 0x20"
definition SIE_SSIE :: u64 where [const_defs]: "SIE_SSIE = 2"
definition MIE_STIE :: u64 where [const_defs]: "MIE_STIE = 0x20"

definition timerinit :: "mregs \<Rightarrow> mregs" where
  "timerinit m = m\<lparr>mie := mie m OR MIE_STIE, menvcfg := menvcfg m OR push_bit 63 1, mcounteren := mcounteren m OR 2,
     m_stimecmp := m_time m + 1000000\<rparr>"

text \<open>\<open>main\<close> is the address of the function; \<^verbatim>\<open>w_tp(id)\<close> stores the low 32 bits of the hart number, sign-extended.\<close>

definition start :: "u64 \<Rightarrow> mregs \<Rightarrow> mregs" where
  "start main m =
     (let m = m\<lparr>mstatus := (mstatus m AND NOT MSTATUS_MPP_MASK) OR MSTATUS_MPP_S\<rparr>;
          m = m\<lparr>mepc := main, m_satp := 0, medeleg := 0xffff, mideleg := 0xffff,
                sie := sie m OR SIE_SEIE OR SIE_STIE OR SIE_SSIE,
                pmpaddr0 := 0x3fffffffffffff, pmpcfg0 := 0xf\<rparr>;
          m = timerinit m
      in m\<lparr>m_tp := scast (ucast (mhartid m) :: u32)\<rparr>)"

text \<open>\<^verbatim>\<open>mret\<close> goes to the mode in the two bits of \<^verbatim>\<open>MPP\<close>, 1 for supervisor.\<close>

lemma start_supervisor: "drop_bit 11 (mstatus (start main m)) AND 3 = 1" "mepc (start main m) = main"
proof -
  have c: "drop_bit 11 (NOT MSTATUS_MPP_MASK) AND 3 = 0" "drop_bit 11 MSTATUS_MPP_S AND 3 = 1" by (simp_all add: const_defs)
  have "drop_bit 11 ((x AND NOT MSTATUS_MPP_MASK) OR MSTATUS_MPP_S) AND 3 = 1" for x :: u64
    unfolding drop_bit_or drop_bit_and bit.conj_disj_distrib2 and.assoc c by simp
  then show "drop_bit 11 (mstatus (start main m)) AND 3 = 1" by (simp add: start_def timerinit_def Let_def)
qed (simp add: start_def timerinit_def Let_def)

end
