(* ===== verification/Quiet.thy ===== *)
theory Quiet
  imports Trap
begin

text \<open>
  What an operation of the kernel leaves alone in the process table: most operations change neither the
  process identifiers and parents nor which slots are free, alive or dead. \<open>quiet\<close> states that, whatever the outcome of
  the operation, and the rules of the collection \<open>quiet\<close> establish it for every function above the process table.
\<close>

named_theorems quiet \<open>operations that leave the process tree alone\<close>

subsection \<open>The process tree as the table shows it\<close>

datatype life = Free | Embryo | Alive | Dead

fun life_of :: "procstate \<Rightarrow> life" where
  "life_of UNUSED = Free"
| "life_of USED = Embryo"
| "life_of ZOMBIE = Dead"
| "life_of _ = Alive"

record pview =
  v_life :: life
  v_pid :: int
  v_parent :: nat

definition view :: "proc \<Rightarrow> pview" where
  "view x = \<lparr>v_life = life_of (p_state x), v_pid = p_pid x, v_parent = p_parent x\<rparr>"

text \<open>The slots, the next process identifier and the slot of \<^verbatim>\<open>init\<close>.\<close>

definition tbl :: "kernel \<Rightarrow> pview list \<times> int \<times> nat" where
  "tbl k = (map view (procs k), nextpid k, initproc k)"

text \<open>Process \<open>p\<close> is alive, or there is no process, as in an interrupt of the scheduler.\<close>

definition alive :: "nat \<Rightarrow> kernel \<Rightarrow> bool" where
  "alive p k \<longleftrightarrow> (p < length (procs k) \<longrightarrow> v_life (view (proc_at k p)) = Alive)"

lemma tbl_cong: "procs k = procs k' \<Longrightarrow> nextpid k = nextpid k' \<Longrightarrow> initproc k = initproc k' \<Longrightarrow> tbl k = tbl k'"
  by (simp add: tbl_def)

lemma alive_tbl: "tbl k = tbl k' \<Longrightarrow> alive p k = alive p k'"
proof -
  assume "tbl k = tbl k'"
  then have m: "map view (procs k) = map view (procs k')" by (simp add: tbl_def)
  then have "length (procs k) = length (procs k')" by (metis length_map)
  then show ?thesis using m by (metis alive_def nth_map)
qed

lemma tbl_upd_proc: "view (f (proc_at k q)) = view (proc_at k q) \<Longrightarrow> tbl (upd_proc q f k) = tbl k"
proof (cases "q < length (procs k)")
  case True
  assume "view (f (proc_at k q)) = view (proc_at k q)"
  then have "(map view (procs k))[q := view (f (proc_at k q))] = map view (procs k)" using True by (simp add: list_update_same_conv)
  then show ?thesis by (simp add: tbl_def upd_proc_def map_update)
qed (simp add: tbl_def upd_proc_def list_update_beyond)

lemma tbl_simps [simp]:
  "tbl (kfs_update f k) = tbl k" "tbl (ftable_update g k) = tbl k" "tbl (pipes_update h k) = tbl k" "tbl (kcons_update i k) = tbl k"
  "tbl (kuart_update j k) = tbl k" "tbl (ticks_update l k) = tbl k" "tbl (cpu_proc_update m k) = tbl k" "tbl (first_update n k) = tbl k"
  "tbl (panicked_update n k) = tbl k"
  by (simp_all add: tbl_def)

subsection \<open>Quiet programs\<close>

definition quiet :: "nat \<Rightarrow> (kernel, 'a) prog \<Rightarrow> bool" where
  "quiet p m \<longleftrightarrow> (\<forall>k. alive p k \<longrightarrow> (case m k of Ok _ t \<Rightarrow> tbl t = tbl k | Err _ t \<Rightarrow> tbl t = tbl k))"

lemma quiet_ret [quiet]: "quiet p (ret a)" by (simp add: quiet_def ret_def)
lemma quiet_fails [quiet]: "quiet p (fails e)" by (simp add: quiet_def fails_def)
lemma quiet_gets [quiet]: "quiet p (gets f)" by (simp add: quiet_def gets_def)
lemma quiet_guard [quiet]: "quiet p (guard b e)" by (simp add: quiet_def guard_def ret_def fails_def)

lemma quiet_bnd [quiet]: "quiet p m \<Longrightarrow> (\<And>a. quiet p (f a)) \<Longrightarrow> quiet p (bnd m f)"
proof -
  assume m: "quiet p m" and f: "\<And>a. quiet p (f a)"
  show ?thesis
    unfolding quiet_def
  proof (intro allI impI)
    fix k assume k: "alive p k"
    show "case bnd m f k of Ok _ t \<Rightarrow> tbl t = tbl k | Err _ t \<Rightarrow> tbl t = tbl k"
    proof (cases "m k")
      case (Ok a t)
      then have t: "tbl t = tbl k" using m k by (auto simp: quiet_def)
      then have "alive p t" using alive_tbl k by blast
      then have "case f a t of Ok _ u \<Rightarrow> tbl u = tbl t | Err _ u \<Rightarrow> tbl u = tbl t" using f [of a] by (simp add: quiet_def)
      then show ?thesis using Ok t by (simp add: bnd_def split: res.splits)
    next
      case (Err e t)
      then show ?thesis using m k by (auto simp: quiet_def bnd_def)
    qed
  qed
qed

lemma quiet_andthen [quiet]: "quiet p m \<Longrightarrow> quiet p n \<Longrightarrow> quiet p (andthen m n)"
  unfolding andthen_def by (rule quiet_bnd)

lemma quiet_if [quiet]: "(b \<Longrightarrow> quiet p m) \<Longrightarrow> (\<not> b \<Longrightarrow> quiet p n) \<Longrightarrow> quiet p (if b then m else n)"
  by simp

lemma quiet_option [quiet]: "quiet p m \<Longrightarrow> (\<And>x. quiet p (f x)) \<Longrightarrow> quiet p (case o' of None \<Rightarrow> m | Some x \<Rightarrow> f x)"
  by (cases o') simp_all

lemma quiet_list [quiet]: "quiet p m \<Longrightarrow> (\<And>x xs. quiet p (f x xs)) \<Longrightarrow> quiet p (case l of [] \<Rightarrow> m | x # xs \<Rightarrow> f x xs)"
  by (cases l) simp_all

lemma quiet_ftype [quiet]:
  "quiet p m1 \<Longrightarrow> quiet p m2 \<Longrightarrow> quiet p m3 \<Longrightarrow> quiet p m4 \<Longrightarrow>
   quiet p (case t of FD_NONE \<Rightarrow> m1 | FD_PIPE \<Rightarrow> m2 | FD_INODE \<Rightarrow> m3 | FD_DEVICE \<Rightarrow> m4)"
  by (cases t) simp_all

lemma quiet_prod [quiet]: "(\<And>a b. quiet p (f a b)) \<Longrightarrow> quiet p (case x of (a, b) \<Rightarrow> f a b)"
  by (cases x) simp

lemma quiet_for_each [quiet]: "(\<And>i. quiet p (f i)) \<Longrightarrow> quiet p (for_each is f)"
  by (induction "is") (simp_all add: quiet_ret quiet_andthen)

lemma quiet_modify: "(\<And>k. tbl (f k) = tbl k) \<Longrightarrow> quiet p (modify f)"
  by (simp add: quiet_def modify_def)

lemma quiet_fs [quiet]: "quiet p (in_fs m)"
  by (simp add: quiet_def zoom_def split: res.split)

lemma quiet_updates [quiet]:
  "quiet p (modify (kcons_update g))" "quiet p (modify (kuart_update h))" "quiet p (modify (ticks_update l))" "quiet p (modify (upd_file f i))"
  "quiet p (modify (upd_pipe pi j))" "quiet p (modify (first_update n))"
  by (rule quiet_modify, simp add: upd_file_def upd_pipe_def)+

lemma quiet_upd_proc: "(\<And>x. view (f x) = view x) \<Longrightarrow> quiet p (modify (upd_proc q f))"
  by (rule quiet_modify) (simp add: tbl_upd_proc)

lemma view_updates [simp]:
  "view (p_trapframe_update a x) = view x" "view (p_pagetable_update a x) = view x" "view (p_sz_update a x) = view x"
  "view (p_name_update b x) = view x" "view (p_cwd_update c x) = view x" "view (p_ofile_update d x) = view x"
  "view (p_killed_update e x) = view x" "view (p_chan_update g x) = view x" "view (p_context_update h x) = view x"
  "view (p_xstate_update i x) = view x"
  by (simp_all add: view_def)

lemma quiet_proc_updates [quiet]:
  "quiet p (modify (upd_proc q (p_trapframe_update a)))" "quiet p (modify (upd_proc q (p_pagetable_update a)))"
  "quiet p (modify (upd_proc q (p_sz_update a)))" "quiet p (modify (upd_proc q (p_name_update b)))"
  "quiet p (modify (upd_proc q (p_cwd_update c)))" "quiet p (modify (upd_proc q (p_ofile_update d)))"
  "quiet p (modify (upd_proc q (p_killed_update e)))" "quiet p (modify (upd_proc q (p_chan_update g)))"
  "quiet p (modify (upd_proc q (\<lambda>x. x\<lparr>p_pagetable := pt, p_sz := sz\<rparr>)))"
  "quiet p (modify (upd_proc q (wake_proc ch)))" "quiet p (modify (upd_proc q kill_proc))"
  by (rule quiet_upd_proc, simp add: wake_proc_def kill_proc_def view_def)+

lemma quiet_own:
  assumes "\<And>x. v_life (view x) = Alive \<Longrightarrow> view (f x) = view x"
  shows "quiet p (modify (upd_proc p f))"
proof -
  have "tbl (upd_proc p f k) = tbl k" if "alive p k" for k
    using that assms by (cases "p < length (procs k)") (simp_all add: alive_def tbl_upd_proc, simp add: upd_proc_def list_update_beyond)
  then show ?thesis by (simp add: quiet_def modify_def)
qed

subsection \<open>The process table\<close>

lemma quiet_sched [quiet]: "quiet p (sched p)"
  unfolding sched_def by (intro quiet)

lemma quiet_yield [quiet]: "quiet p (yield p)"
  unfolding yield_def by (intro quiet quiet_own) (simp add: view_def)

lemma quiet_sleep [quiet]: "quiet p (sleep p ch)"
  unfolding sleep_def by (intro quiet quiet_own) (simp add: view_def)

lemma quiet_proc [quiet]:
  "quiet p (wakeup q ch)" "quiet p (kill pid)" "quiet p (setkilled q)" "quiet p (killed q)" "quiet p (awake q)"
  "quiet p (tf_get q off)" "quiet p (tf_set q off v)" "quiet p (growproc q n)" "quiet p (fs_call q g)" "quiet p (proc_pagetable q)"
  unfolding wakeup_def kill_def setkilled_def killed_def awake_def tf_get_def tf_set_def growproc_def fs_call_def proc_pagetable_def
  by (intro quiet)+

subsection \<open>Console and UART\<close>

lemma quiet_uart [quiet]: "quiet p (uartputc_sync c)" "quiet p (uartstart_loop n q)" "quiet p (uartstart q)" "quiet p (uartgetc)"
proof -
  show "quiet p (uartstart_loop n q)" for n
    by (induction n) (auto simp only: uartstart_loop.simps Let_def intro!: quiet)
  then show "quiet p (uartstart q)" unfolding uartstart_def by (intro quiet)
qed (unfold uartputc_sync_def uartgetc_def, (intro quiet)+)

lemma quiet_uartputc [quiet]: "quiet p (uartputc p c)"
  unfolding uartputc_def by (intro quiet)

lemma quiet_console [quiet]: "quiet p (consputc c)" "quiet p (kprintf fmt ap)" "quiet p procdump"
proof -
  show c: "quiet p (consputc c)" for c unfolding consputc_def by (intro quiet)
  then show k: "quiet p (kprintf fmt ap)" for fmt ap unfolding kprintf_def by (intro quiet)
  show "quiet p procdump" unfolding procdump_def by (intro quiet c k)
qed

lemma quiet_consolewrite [quiet]: "quiet p (consolewrite_from fuel p src n i)" "quiet p (consolewrite p src n)"
proof -
  show "quiet p (consolewrite_from fuel p src n i)" for fuel i
    by (induction fuel arbitrary: i) (auto simp only: consolewrite_from.simps intro!: quiet)
  then show "quiet p (consolewrite p src n)" unfolding consolewrite_def .
qed

lemma quiet_consoleread [quiet]: "quiet p (consoleread_loop fuel p target dst n)" "quiet p (consoleread p dst n)"
proof -
  show "quiet p (consoleread_loop fuel p target dst n)" for fuel dst n target
    by (induction fuel arbitrary: dst n) (auto simp only: consoleread_loop.simps Let_def intro!: quiet)
  then show "quiet p (consoleread p dst n)" unfolding consoleread_def .
qed

lemma quiet_intr [quiet]: "quiet p (kill_line fuel)" "quiet p (consoleintr q c)" "quiet p (uartintr_loop fuel q)" "quiet p (uartintr q)"
proof -
  show k: "quiet p (kill_line fuel)" for fuel
    by (induction fuel) (auto simp only: kill_line.simps intro!: quiet)
  show c: "quiet p (consoleintr q c)" for c
    unfolding consoleintr_def Let_def by (intro quiet k)
  show l: "quiet p (uartintr_loop fuel q)" for fuel
    by (induction fuel) (auto simp only: uartintr_loop.simps intro!: quiet c)
  show "quiet p (uartintr q)" unfolding uartintr_def by (intro quiet l)
qed

subsection \<open>Files, pipes and programs\<close>

lemma quiet_files [quiet]:
  "quiet p filealloc" "quiet p (filedup f)" "quiet p (pipeclose q pi w)" "quiet p (iput_op q ip)"
  unfolding filealloc_def filedup_def pipeclose_def iput_op_def by (intro quiet)+

lemma quiet_fileclose [quiet]: "quiet p (fileclose q f)"
  unfolding fileclose_def by (intro quiet)

lemma quiet_pipealloc [quiet]: "quiet p (pipe_bad q pi f0 f1)" "quiet p (pipealloc q)"
proof -
  show b: "quiet p (pipe_bad q pi f0 f1)" for pi f0 f1 unfolding pipe_bad_def by (intro quiet)
  show "quiet p (pipealloc q)" unfolding pipealloc_def by (intro quiet b)
qed

lemma quiet_pipewrite [quiet]: "quiet p (pipewrite_from fuel p pi addr n i)" "quiet p (pipewrite p pi addr n)"
proof -
  show "quiet p (pipewrite_from fuel p pi addr n i)" for fuel i
    by (induction fuel arbitrary: i) (auto simp only: pipewrite_from.simps intro!: quiet)
  then show "quiet p (pipewrite p pi addr n)" unfolding pipewrite_def .
qed

lemma quiet_piperead [quiet]: "quiet p (piperead_from fuel p pi addr n i)" "quiet p (piperead p pi addr n)"
proof -
  show f: "quiet p (piperead_from fuel p pi addr n i)" for fuel i
    by (induction fuel arbitrary: i) (auto simp only: piperead_from.simps Let_def intro!: quiet)
  show "quiet p (piperead p pi addr n)" unfolding piperead_def by (intro quiet f)
qed

lemma quiet_fileio [quiet]: "quiet p (filestat p pad f addr)" "quiet p (fileread p f addr n)" "quiet p (filewrite_from fuel p f addr n i)"
  "quiet p (filewrite p f addr n)"
proof -
  show w: "quiet p (filewrite_from fuel p f addr n i)" for fuel i
    by (induction fuel arbitrary: i) (auto simp only: filewrite_from.simps Let_def intro!: quiet)
  show "quiet p (filestat p pad f addr)" unfolding filestat_def Let_def by (intro quiet)
  show "quiet p (fileread p f addr n)" unfolding fileread_def Let_def by (intro quiet)
  show "quiet p (filewrite p f addr n)" unfolding filewrite_def Let_def by (intro quiet w)
qed

lemma quiet_args [quiet]: "quiet p (fetchaddr q a)" "quiet p (fetchstr q a n)" "quiet p (argraw q i)" "quiet p (argint q i)" "quiet p (argaddr q i)"
  "quiet p (argstr q i n)"
proof -
  show r: "quiet p (argraw q i)" for i unfolding argraw_def by (intro quiet)
  show f: "quiet p (fetchaddr q a)" for a unfolding fetchaddr_def Let_def by (intro quiet)
  show s: "quiet p (fetchstr q a n)" for a n unfolding fetchstr_def Let_def by (intro quiet)
  show a: "quiet p (argaddr q i)" for i unfolding argaddr_def by (intro quiet r)
  show "quiet p (argint q i)" unfolding argint_def by (intro quiet r)
  show "quiet p (argstr q i n)" unfolding argstr_def by (intro quiet a s)
qed

lemma quiet_load [quiet]: "quiet p (loadseg_loop fuel q pt va ip offset sz i)" "quiet p (loadseg q pt va ip offset sz)"
  "quiet p (load_program n q ip pt off sz0)"
proof -
  show "quiet p (loadseg_loop fuel q pt va ip offset sz i)" for fuel va offset sz i
    by (induction fuel arbitrary: i) (auto simp only: loadseg_loop.simps Let_def intro!: quiet)
  then show l: "quiet p (loadseg q pt va ip offset sz)" for va offset sz unfolding loadseg_def .
  show "quiet p (load_program n q ip pt off sz0)" for n off sz0
    by (induction n arbitrary: off sz0) (auto simp only: load_program.simps Let_def intro!: quiet l)
qed

lemma quiet_push_args [quiet]: "quiet p (push_args fuel pt argv base argc sp ustack)"
  by (induction fuel arbitrary: argc sp ustack) (auto simp only: push_args.simps Let_def intro!: quiet)

lemma quiet_exec [quiet]: "quiet p (exec_bad q pt sz ip)" "quiet p (exec_commit q path argv elf pt sz)" "quiet p (exec q g path argv)"
proof -
  show b: "quiet p (exec_bad q pt sz ip)" for pt sz ip unfolding exec_bad_def by (intro quiet)
  show c: "quiet p (exec_commit q path argv elf pt sz)" for elf pt sz unfolding exec_commit_def Let_def by (intro quiet b)
  show "quiet p (exec q g path argv)" unfolding exec_def by (intro quiet b c)
qed

subsection \<open>System calls\<close>

lemma quiet_fd [quiet]: "quiet p (argfd q i)" "quiet p (fdalloc q f)"
  unfolding argfd_def fdalloc_def by (intro quiet)+

lemma quiet_sysargs [quiet]: "quiet p (fetch_args fuel q uargv i acc)" "quiet p (free_args xs)"
proof -
  show "quiet p (fetch_args fuel q uargv i acc)"
    by (induction fuel arbitrary: i acc) (auto simp only: fetch_args.simps Let_def intro!: quiet)
  show "quiet p (free_args xs)"
    by (induction xs) (auto simp only: free_args.simps intro!: quiet)
qed

lemma quiet_sysfile [quiet]:
  "quiet p (sys_dup p)" "quiet p (sys_read p)" "quiet p (sys_write p)" "quiet p (sys_close p)" "quiet p (sys_fstat p pad)" "quiet p (sys_link p g)"
  "quiet p (sys_unlink p g)" "quiet p (sys_open p g)" "quiet p (sys_mkdir p g)" "quiet p (sys_mknod p g)" "quiet p (sys_chdir p g)"
  "quiet p (sys_exec p g)" "quiet p (sys_pipe p)"
  unfolding sys_dup_def sys_read_def sys_write_def sys_close_def sys_fstat_def sys_link_def sys_unlink_def sys_open_def sys_mkdir_def
    sys_mknod_def sys_chdir_def sys_exec_def sys_pipe_def Let_def
  by (intro quiet)+

lemma quiet_sysproc [quiet]: "quiet p (sys_getpid p)" "quiet p (sys_sbrk p)" "quiet p (sys_sleep_loop p n t0)" "quiet p (sys_sleep p)"
  "quiet p (sys_kill p)" "quiet p sys_uptime"
proof -
  show l: "quiet p (sys_sleep_loop p n t0)" for n t0 unfolding sys_sleep_loop_def by (intro quiet)
  show "quiet p (sys_sleep p)" unfolding sys_sleep_def Let_def by (intro quiet l)
qed (unfold sys_getpid_def sys_sbrk_def sys_kill_def sys_uptime_def, (intro quiet)+)

end
