(* ===== verification/Proctree.thy ===== *)
theory Proctree
  imports Quiet
begin

text \<open>
  The process tree: identifiers are unique, every process but \<^verbatim>\<open>init\<close> has a living parent that is older than itself, and
  no operation of the kernel breaks this, whether it returns, sleeps or panics.
\<close>

subsection \<open>The invariant\<close>

definition tree :: "pview list \<times> int \<times> nat \<Rightarrow> bool" where
  "tree T \<longleftrightarrow> (case T of (v, n, init) \<Rightarrow>
     length v = NPROC \<and> init < NPROC \<and> v_life (v ! init) = Alive \<and> v_pid (v ! init) = 1 \<and>
     (\<forall>i<NPROC. if v_life (v ! i) = Free then v_pid (v ! i) = 0 else 1 \<le> v_pid (v ! i) \<and> v_pid (v ! i) < n) \<and>
     (\<forall>i<NPROC. \<forall>j<NPROC. v_pid (v ! i) = v_pid (v ! j) \<longrightarrow> v_life (v ! i) \<noteq> Free \<longrightarrow> v_life (v ! j) \<noteq> Free \<longrightarrow> i = j) \<and>
     (\<forall>i<NPROC. i \<noteq> init \<longrightarrow> v_life (v ! i) = Alive \<or> v_life (v ! i) = Dead \<longrightarrow>
        v_parent (v ! i) < NPROC \<and> v_life (v ! v_parent (v ! i)) = Alive \<and> v_pid (v ! v_parent (v ! i)) < v_pid (v ! i)))"

lemma treeD:
  assumes "tree (v, n, init)"
  shows "length v = NPROC" "init < NPROC" "v_life (v ! init) = Alive" "v_pid (v ! init) = 1"
    "i < NPROC \<Longrightarrow> v_life (v ! i) = Free \<Longrightarrow> v_pid (v ! i) = 0"
    "i < NPROC \<Longrightarrow> v_life (v ! i) \<noteq> Free \<Longrightarrow> 1 \<le> v_pid (v ! i) \<and> v_pid (v ! i) < n"
    "i < NPROC \<Longrightarrow> j < NPROC \<Longrightarrow> v_pid (v ! i) = v_pid (v ! j) \<Longrightarrow> v_life (v ! i) \<noteq> Free \<Longrightarrow> v_life (v ! j) \<noteq> Free \<Longrightarrow> i = j"
    "i < NPROC \<Longrightarrow> i \<noteq> init \<Longrightarrow> v_life (v ! i) = Alive \<or> v_life (v ! i) = Dead \<Longrightarrow>
      v_parent (v ! i) < NPROC \<and> v_life (v ! v_parent (v ! i)) = Alive \<and> v_pid (v ! v_parent (v ! i)) < v_pid (v ! i)"
  using assms by (auto simp: tree_def)

lemma treeI:
  assumes "length v = NPROC" "init < NPROC" "v_life (v ! init) = Alive" "v_pid (v ! init) = 1"
    "\<And>i. i < NPROC \<Longrightarrow> v_life (v ! i) = Free \<Longrightarrow> v_pid (v ! i) = 0"
    "\<And>i. i < NPROC \<Longrightarrow> v_life (v ! i) \<noteq> Free \<Longrightarrow> 1 \<le> v_pid (v ! i) \<and> v_pid (v ! i) < n"
    "\<And>i j. i < NPROC \<Longrightarrow> j < NPROC \<Longrightarrow> v_pid (v ! i) = v_pid (v ! j) \<Longrightarrow> v_life (v ! i) \<noteq> Free \<Longrightarrow> v_life (v ! j) \<noteq> Free \<Longrightarrow> i = j"
    "\<And>i. i < NPROC \<Longrightarrow> i \<noteq> init \<Longrightarrow> v_life (v ! i) = Alive \<or> v_life (v ! i) = Dead \<Longrightarrow>
      v_parent (v ! i) < NPROC \<and> v_life (v ! v_parent (v ! i)) = Alive \<and> v_pid (v ! v_parent (v ! i)) < v_pid (v ! i)"
  shows "tree (v, n, init)"
  using assms by (auto simp: tree_def)

text \<open>Everyone else is younger than \<^verbatim>\<open>init\<close>.\<close>

lemma tree_init_oldest: "tree (v, n, init) \<Longrightarrow> i < NPROC \<Longrightarrow> i \<noteq> init \<Longrightarrow> v_life (v ! i) \<noteq> Free \<Longrightarrow> 1 < v_pid (v ! i)"
  using treeD(2-4,6,7) [of v n init] by (metis life.distinct(3) order_le_less)

subsection \<open>Steps on the tree\<close>

lemma tree_pid: "tree (v, n, init) \<Longrightarrow> n \<le> n' \<Longrightarrow> tree (v, n', init)"
  by (auto simp: tree_def)

lemma tree_alloc:
  assumes T: "tree (v, n, init)" and q: "q < NPROC" "v_life (v ! q) = Free" 
    and x: "v_life x = Embryo" "v_pid x < n" and young: "\<And>i. i < NPROC \<Longrightarrow> v_pid (v ! i) < v_pid x"
  shows "tree (v[q := x], n, init)"
proof (rule treeI)
  note d = treeD [OF T]
  have init: "q \<noteq> init" using q(2) d(3) by auto
  show "length (v[q := x]) = NPROC" "init < NPROC" "v_life (v[q := x] ! init) = Alive" "v_pid (v[q := x] ! init) = 1"
    using d(1-4) init by auto
  fix i assume i: "i < NPROC"
  show "v_pid (v[q := x] ! i) = 0" if "v_life (v[q := x] ! i) = Free" using that d(1) d(5) [OF i] x i by (cases "i = q") auto
  show "1 \<le> v_pid (v[q := x] ! i) \<and> v_pid (v[q := x] ! i) < n" if "v_life (v[q := x] ! i) \<noteq> Free"
    using that d(1) d(6) [OF i] young [OF d(2)] d(4) x i by (cases "i = q") auto
  show "v_parent (v[q := x] ! i) < NPROC \<and> v_life (v[q := x] ! v_parent (v[q := x] ! i)) = Alive \<and>
      v_pid (v[q := x] ! v_parent (v[q := x] ! i)) < v_pid (v[q := x] ! i)"
    if "i \<noteq> init" "v_life (v[q := x] ! i) = Alive \<or> v_life (v[q := x] ! i) = Dead"
  proof -
    have iq: "i \<noteq> q" using that(2) x(1) d(1) q(1) by auto
    then have p: "v_parent (v ! i) < NPROC \<and> v_life (v ! v_parent (v ! i)) = Alive \<and> v_pid (v ! v_parent (v ! i)) < v_pid (v ! i)"
      using d(8) [OF i that(1)] that(2) by simp
    then have "v_parent (v ! i) \<noteq> q" using q(2) by auto
    then show ?thesis using iq p by simp
  qed
  fix j assume j: "j < NPROC" and e: "v_pid (v[q := x] ! i) = v_pid (v[q := x] ! j)"
    and l: "v_life (v[q := x] ! i) \<noteq> Free" "v_life (v[q := x] ! j) \<noteq> Free"
  show "i = j"
    using e l d(1) young [OF i] young [OF j] d(7) [OF i j] i j by (cases "i = q"; cases "j = q") auto
qed

text \<open>A slot that is not alive, hence nobody's parent, can be cleared.\<close>

lemma tree_free:
  assumes T: "tree (v, n, init)" and q: "v_life (v ! q) \<noteq> Alive" and x: "v_life x = Free" "v_pid x = 0"
  shows "tree (v[q := x], n, init)"
proof (rule treeI)
  note d = treeD [OF T]
  have init: "q \<noteq> init" using q d(3) by auto
  show "length (v[q := x]) = NPROC" "init < NPROC" "v_life (v[q := x] ! init) = Alive" "v_pid (v[q := x] ! init) = 1"
    using d(1-4) init by auto
  fix i assume i: "i < NPROC"
  show "v_pid (v[q := x] ! i) = 0" if "v_life (v[q := x] ! i) = Free" using that d(1) d(5) [OF i] x i by (cases "i = q") auto
  show "1 \<le> v_pid (v[q := x] ! i) \<and> v_pid (v[q := x] ! i) < n" if "v_life (v[q := x] ! i) \<noteq> Free"
    using that d(1) d(6) [OF i] x i by (cases "i = q") auto
  show "v_parent (v[q := x] ! i) < NPROC \<and> v_life (v[q := x] ! v_parent (v[q := x] ! i)) = Alive \<and>
      v_pid (v[q := x] ! v_parent (v[q := x] ! i)) < v_pid (v[q := x] ! i)"
    if "i \<noteq> init" "v_life (v[q := x] ! i) = Alive \<or> v_life (v[q := x] ! i) = Dead"
  proof -
    have iq: "i \<noteq> q" using that(2) x(1) d(1) i by auto
    then have p: "v_parent (v ! i) < NPROC \<and> v_life (v ! v_parent (v ! i)) = Alive \<and> v_pid (v ! v_parent (v ! i)) < v_pid (v ! i)"
      using d(8) [OF i that(1)] that(2) by simp
    then have "v_parent (v ! i) \<noteq> q" using q by auto
    then show ?thesis using iq p by simp
  qed
  fix j assume j: "j < NPROC" and e: "v_pid (v[q := x] ! i) = v_pid (v[q := x] ! j)"
    and l: "v_life (v[q := x] ! i) \<noteq> Free" "v_life (v[q := x] ! j) \<noteq> Free"
  show "i = j"
    using e l d(1) d(7) [OF i j] x(1) i j by (cases "i = q"; cases "j = q") auto
qed

text \<open>A change of one slot that keeps its identifier: a new parent, the birth and the death of a process.\<close>

lemma tree_slot:
  assumes T: "tree (v, n, init)" and q: "q < NPROC" "v_life (v ! q) \<noteq> Free" "v_pid x = v_pid (v ! q)" "v_life x \<noteq> Free"
    and life: "v_life x = Alive \<or> v_life (v ! q) \<noteq> Alive \<or> q \<noteq> init \<and> (\<forall>i<NPROC. i \<noteq> init \<longrightarrow> v_life (v ! i) \<noteq> Free \<longrightarrow> v_parent (v[q := x] ! i) \<noteq> q)"
    and par: "v_life x = Alive \<or> v_life x = Dead \<Longrightarrow> q \<noteq> init \<Longrightarrow>
      v_parent x < NPROC \<and> v_life (v ! v_parent x) = Alive \<and> v_pid (v ! v_parent x) < v_pid x"
  shows "tree (v[q := x], n, init)"
proof (rule treeI)
  note d = treeD [OF T]
  show "length (v[q := x]) = NPROC" "init < NPROC" "v_life (v[q := x] ! init) = Alive" "v_pid (v[q := x] ! init) = 1"
    using d(1-4) life q by (cases "init = q"; simp)+
  fix i assume i: "i < NPROC"
  show "v_pid (v[q := x] ! i) = 0" if "v_life (v[q := x] ! i) = Free" using that d(1) d(5) [OF i] q(4) i by (cases "i = q") auto
  show "1 \<le> v_pid (v[q := x] ! i) \<and> v_pid (v[q := x] ! i) < n" if "v_life (v[q := x] ! i) \<noteq> Free"
    using that d(1) d(6) [OF i] q i by (cases "i = q") auto
  show "v_parent (v[q := x] ! i) < NPROC \<and> v_life (v[q := x] ! v_parent (v[q := x] ! i)) = Alive \<and>
      v_pid (v[q := x] ! v_parent (v[q := x] ! i)) < v_pid (v[q := x] ! i)"
    if "i \<noteq> init" "v_life (v[q := x] ! i) = Alive \<or> v_life (v[q := x] ! i) = Dead"
  proof -
    let ?p = "v_parent (v[q := x] ! i)"
    have p: "?p < NPROC \<and> v_life (v ! ?p) = Alive \<and> v_pid (v ! ?p) < v_pid (v[q := x] ! i)"
      using d(8) [OF i that(1)] that par d(1) i by (cases "i = q") auto
    have "v_life (v ! i) \<noteq> Free" using that(2) q(2) by (cases "i = q") auto
    then have "?p = q \<Longrightarrow> v_life x = Alive" using life p i that(1) by auto
    then show ?thesis using p d(1) q(3) by (cases "?p = q") auto
  qed
  fix j assume j: "j < NPROC" and e: "v_pid (v[q := x] ! i) = v_pid (v[q := x] ! j)"
    and l: "v_life (v[q := x] ! i) \<noteq> Free" "v_life (v[q := x] ! j) \<noteq> Free"
  show "i = j"
    using e l d(1) d(7) [OF i j] q i j by (cases "i = q"; cases "j = q") auto
qed


subsection \<open>Programs that keep the tree\<close>

text \<open>
  \<open>keeps \<pi> P m Q\<close>: run in a state whose tree is intact and satisfies \<open>P\<close>, \<open>m\<close> leaves the tree intact, whether it returns,
  sleeps or panics, and if it returns the tree satisfies \<open>Q\<close>. \<open>\<pi>\<close> finds the kernel in the state.
\<close>

definition living :: "nat \<Rightarrow> pview list \<times> int \<times> nat \<Rightarrow> bool" where
  "living p T \<longleftrightarrow> p < length (fst T) \<and> v_life (fst T ! p) = Alive"

definition present :: "nat \<Rightarrow> pview list \<times> int \<times> nat \<Rightarrow> bool" where
  "present p T \<longleftrightarrow> (p < length (fst T) \<longrightarrow> v_life (fst T ! p) = Alive)"

lemma alive_present: "alive p k = present p (tbl k)"
  by (auto simp: alive_def present_def tbl_def)

lemma living_present: "living p T \<Longrightarrow> present p T"
  by (simp add: living_def present_def)

definition keeps :: "(pview list \<times> int \<times> nat \<Rightarrow> bool) \<Rightarrow> ('s \<Rightarrow> kernel) \<Rightarrow> (pview list \<times> int \<times> nat \<Rightarrow> bool) \<Rightarrow> ('s, 'a) prog \<Rightarrow>
    ('a \<Rightarrow> pview list \<times> int \<times> nat \<Rightarrow> bool) \<Rightarrow> bool" where
  "keeps I \<pi> P m Q \<longleftrightarrow> (\<forall>s. I (tbl (\<pi> s)) \<longrightarrow> P (tbl (\<pi> s)) \<longrightarrow>
     (case m s of Ok a t \<Rightarrow> I (tbl (\<pi> t)) \<and> Q a (tbl (\<pi> t)) | Err _ t \<Rightarrow> I (tbl (\<pi> t))))"

abbreviation keepsk :: "(pview list \<times> int \<times> nat \<Rightarrow> bool) \<Rightarrow> (kernel, 'a) prog \<Rightarrow> ('a \<Rightarrow> pview list \<times> int \<times> nat \<Rightarrow> bool) \<Rightarrow> bool" where
  "keepsk \<equiv> keeps tree (\<lambda>k. k)"

lemma keepsI:
  assumes "\<And>s a t. I (tbl (\<pi> s)) \<Longrightarrow> P (tbl (\<pi> s)) \<Longrightarrow> m s = Ok a t \<Longrightarrow> I (tbl (\<pi> t)) \<and> Q a (tbl (\<pi> t))"
    "\<And>s e t. I (tbl (\<pi> s)) \<Longrightarrow> P (tbl (\<pi> s)) \<Longrightarrow> m s = Err e t \<Longrightarrow> I (tbl (\<pi> t))"
  shows "keeps I \<pi> P m Q"
  unfolding keeps_def
proof (intro allI impI)
  fix s assume s: "I (tbl (\<pi> s))" "P (tbl (\<pi> s))"
  show "case m s of Ok a t \<Rightarrow> I (tbl (\<pi> t)) \<and> Q a (tbl (\<pi> t)) | Err _ t \<Rightarrow> I (tbl (\<pi> t))"
  proof (cases "m s")
    case (Ok a t)
    then show ?thesis using assms(1) [OF s Ok] by simp
  next
    case (Err e t)
    then show ?thesis using assms(2) [OF s Err] by simp
  qed
qed

lemma keepsD:
  assumes "keeps I \<pi> P m Q" "I (tbl (\<pi> s))" "P (tbl (\<pi> s))"
  shows "m s = Ok a t \<Longrightarrow> I (tbl (\<pi> t)) \<and> Q a (tbl (\<pi> t))" "m s = Err e t \<Longrightarrow> I (tbl (\<pi> t))"
proof -
  have "case m s of Ok a t \<Rightarrow> I (tbl (\<pi> t)) \<and> Q a (tbl (\<pi> t)) | Err _ t \<Rightarrow> I (tbl (\<pi> t))"
    using assms unfolding keeps_def by blast
  then show "m s = Ok a t \<Longrightarrow> I (tbl (\<pi> t)) \<and> Q a (tbl (\<pi> t))" "m s = Err e t \<Longrightarrow> I (tbl (\<pi> t))" by simp_all
qed

lemma keeps_bnd: "keeps I \<pi> P m R \<Longrightarrow> (\<And>a. keeps I \<pi> (R a) (f a) Q) \<Longrightarrow> keeps I \<pi> P (bnd m f) Q"
  by (rule keepsI; simp add: bnd_def split: res.splits; meson keepsD)

lemma keeps_andthen: "keeps I \<pi> P m (\<lambda>_. R) \<Longrightarrow> keeps I \<pi> R n Q \<Longrightarrow> keeps I \<pi> P (andthen m n) Q"
  unfolding andthen_def by (rule keeps_bnd)

lemma keeps_conseq: "keeps I \<pi> P' m Q' \<Longrightarrow> (\<And>T. I T \<Longrightarrow> P T \<Longrightarrow> P' T) \<Longrightarrow> (\<And>a T. I T \<Longrightarrow> Q' a T \<Longrightarrow> Q a T) \<Longrightarrow> keeps I \<pi> P m Q"
  by (rule keepsI; meson keepsD)

lemma keeps_if: "(b \<Longrightarrow> keeps I \<pi> P m Q) \<Longrightarrow> (\<not> b \<Longrightarrow> keeps I \<pi> P n Q) \<Longrightarrow> keeps I \<pi> P (if b then m else n) Q"
  by simp

lemma keeps_false: "keeps I \<pi> (\<lambda>_. False) m Q"
  by (simp add: keeps_def)

lemma keeps_ret: "(\<And>T. I T \<Longrightarrow> P T \<Longrightarrow> Q a T) \<Longrightarrow> keeps I \<pi> P (ret a) Q"
  by (simp add: keeps_def ret_def)

lemma keeps_fails: "keeps I \<pi> P (fails e) Q"
  by (simp add: keeps_def fails_def)

lemma keeps_gets: "(\<And>s. I (tbl (\<pi> s)) \<Longrightarrow> P (tbl (\<pi> s)) \<Longrightarrow> Q (f s) (tbl (\<pi> s))) \<Longrightarrow> keeps I \<pi> P (gets f) Q"
  by (simp add: keeps_def gets_def)

lemma keeps_modify:
  "(\<And>s. I (tbl (\<pi> s)) \<Longrightarrow> P (tbl (\<pi> s)) \<Longrightarrow> I (tbl (\<pi> (f s))) \<and> Q (tbl (\<pi> (f s)))) \<Longrightarrow> keeps I \<pi> P (modify f) (\<lambda>_. Q)"
  by (simp add: keeps_def modify_def)

lemma keeps_quiet: "quiet p m \<Longrightarrow> (\<And>T. P T \<Longrightarrow> present p T) \<Longrightarrow> keeps I (\<lambda>k. k) P m (\<lambda>_. P)"
proof (rule keepsI)
  assume q: "quiet p m" and P: "\<And>T. P T \<Longrightarrow> present p T"
  fix k assume "I (tbl k)" and k: "P (tbl k)"
  moreover have "case m k of Ok _ t \<Rightarrow> tbl t = tbl k | Err _ t \<Rightarrow> tbl t = tbl k"
    using q P [OF k] by (simp add: quiet_def alive_present)
  ultimately show "m k = Ok a t \<Longrightarrow> I (tbl t) \<and> P (tbl t)" "m k = Err e t \<Longrightarrow> I (tbl t)" for a e t by simp_all
qed

lemma keeps_pick: "(\<And>T. I T \<Longrightarrow> P T \<Longrightarrow> B) \<Longrightarrow> (B \<Longrightarrow> keeps I \<pi> P m Q) \<Longrightarrow> keeps I \<pi> P m Q"
  unfolding keeps_def by blast

lemma keeps_for: "(\<And>q. q < n \<Longrightarrow> keeps I \<pi> (J q) (f q) (\<lambda>_. J (Suc q))) \<Longrightarrow> keeps I \<pi> (J i) (for_each [i..<n] f) (\<lambda>_. J (max i n))"
proof (induction "n - i" arbitrary: i)
  case 0
  then show ?case by (auto intro: keeps_ret)
next
  case (Suc d)
  then have i: "i < n" by simp
  then have "[i..<n] = i # [Suc i..<n]" by (rule upt_conv_Cons)
  moreover have "keeps I \<pi> (J (Suc i)) (for_each [Suc i..<n] f) (\<lambda>_. J n)"
    using Suc.hyps(1) [of "Suc i"] Suc.hyps(2) Suc.prems i by (simp add: max_absorb2 Suc_leI)
  ultimately show ?case using keeps_andthen [OF Suc.prems [OF i]] i by (simp add: max_absorb2)
qed

lemma keeps_for0: "(\<And>q. q < n \<Longrightarrow> keeps I \<pi> (J q) (f q) (\<lambda>_. J (Suc q))) \<Longrightarrow> keeps I \<pi> (J 0) (for_each [0..<n] f) (\<lambda>_. J n)"
  using keeps_for [of n I \<pi> J f 0] by simp

lemma tbl_upd: "q < length (procs k) \<Longrightarrow> tbl (upd_proc q f k) = ((map view (procs k))[q := view (f (proc_at k q))], nextpid k, initproc k)"
  by (simp add: tbl_def upd_proc_def map_update)


subsection \<open>Slots\<close>

text \<open>A fresh slot: not yet alive, and younger than everybody.\<close>

definition fresh :: "nat \<Rightarrow> pview list \<times> int \<times> nat \<Rightarrow> bool" where
  "fresh q T \<longleftrightarrow> q < NPROC \<and> v_life (fst T ! q) = Embryo \<and>
     (\<forall>i<NPROC. i \<noteq> q \<longrightarrow> v_pid (fst T ! i) < v_pid (fst T ! q))"

lemma unused_slot: "unused_slot xs i = Some q \<Longrightarrow> i \<le> q \<and> q < i + length xs \<and> p_state (xs ! (q - i)) = UNUSED"
proof (induction xs arbitrary: i)
  case (Cons x xs)
  show ?case
  proof (cases "p_state x = UNUSED")
    case True
    then show ?thesis using Cons.prems by auto
  next
    case False
    then have "unused_slot xs (Suc i) = Some q" using Cons.prems by auto
    then show ?thesis using Cons.IH [of "Suc i"] by (auto simp: nth_Cons' Suc_diff_le)
  qed
qed simp

lemma zombie_child: "zombie_child xs p i = Some q \<Longrightarrow> i \<le> q \<and> q < i + length xs \<and> p_state (xs ! (q - i)) = ZOMBIE"
proof (induction xs arbitrary: i)
  case (Cons x xs)
  show ?case
  proof (cases "p_parent x = p \<and> p_state x = ZOMBIE")
    case True
    then show ?thesis using Cons.prems by auto
  next
    case False
    then have "zombie_child xs p (Suc i) = Some q" using Cons.prems by auto
    then show ?thesis using Cons.IH [of "Suc i"] by (auto simp: nth_Cons' Suc_diff_le)
  qed
qed simp

lemma tree_procs: "tree (tbl k) \<Longrightarrow> length (procs k) = NPROC"
  using treeD(1) by (fastforce simp: tbl_def)

text \<open>\<^verbatim>\<open>freeproc\<close> on a slot that is not alive.\<close>

lemma keeps_freeproc:
  "keepsk (\<lambda>T. living p T \<and> q < NPROC \<and> v_life (fst T ! q) \<noteq> Alive) (freeproc q) (\<lambda>_. living p)"
proof -
  let ?P = "\<lambda>T. living p T \<and> q < NPROC \<and> v_life (fst T ! q) \<noteq> Alive"
  let ?f = "\<lambda>x. x\<lparr>p_pagetable := 0, p_sz := 0, p_pid := 0, p_parent := nullproc,
        p_name := (p_name x)[0 := 0], p_chan := None, p_killed := False, p_xstate := 0, p_state := UNUSED\<rparr>"
  have "keepsk ?P (modify (upd_proc q ?f)) (\<lambda>_. living p)"
  proof (rule keeps_modify)
    fix k assume T: "tree (tbl k)" and P: "?P (tbl k)"
    then have l: "q < length (procs k)" using tree_procs by simp
    have "tree (tbl (upd_proc q ?f k))"
      unfolding tbl_upd [OF l] by (rule tree_free) (use T P l in \<open>auto simp: tbl_def view_def\<close>)
    moreover have "living p (tbl (upd_proc q ?f k))"
      unfolding tbl_upd [OF l] using P l by (auto simp: tbl_def living_def nth_list_update)
    ultimately show "tree (tbl (upd_proc q ?f k)) \<and> living p (tbl (upd_proc q ?f k))" ..
  qed
  then show ?thesis
    unfolding freeproc_def
    by (intro keeps_bnd [where R = "\<lambda>_. ?P"] keeps_andthen [where R = ?P] keeps_quiet [where p = p] quiet) (auto intro: living_present)
qed


text \<open>\<^verbatim>\<open>allocproc\<close> finds no slot, or a fresh one.\<close>

definition newborn :: "nat \<Rightarrow> nat \<Rightarrow> pview list \<times> int \<times> nat \<Rightarrow> bool" where
  "newborn p q T \<longleftrightarrow> living p T \<and> fresh q T"

lemma tree_below: "tree (v, n, init) \<Longrightarrow> i < NPROC \<Longrightarrow> v_pid (v ! i) < n"
  using treeD(2,3) [of v n init] treeD(6) [of v n init init] treeD(5,6) [of v n init i] by (cases "v_life (v ! i) = Free") auto

text \<open>Identifiers are left: the next one is below the largest \<^verbatim>\<open>int\<close>, so that the one after it is still positive.\<close>

definition pids_left :: "pview list \<times> int \<times> nat \<Rightarrow> bool" where
  "pids_left T \<longleftrightarrow> fst (snd T) < 2 ^ 31 - 1"

definition forkable :: "nat \<Rightarrow> pview list \<times> int \<times> nat \<Rightarrow> bool" where
  "forkable p T \<longleftrightarrow> living p T \<and> pids_left T"

lemma forkable_present: "forkable p T \<Longrightarrow> present p T"
  by (simp add: forkable_def living_present)

lemma next_pid: "0 < n \<Longrightarrow> n < 2 ^ 31 - 1 \<Longrightarrow> sint (word_of_int (n + 1) :: u32) = n + 1"
  by (simp add: signed_of_int signed_take_bit_int_eq_self del: of_int_add)

lemma keeps_allocpid:
  "keepsk (\<lambda>T. forkable p T \<and> v_life (fst T ! q) = Free)
     allocpid (\<lambda>pid T. living p T \<and> v_life (fst T ! q) = Free \<and> (\<forall>i<NPROC. v_pid (fst T ! i) < pid) \<and> pid < fst (snd T))"
  unfolding allocpid_def
proof (rule keepsI, goal_cases)
  case (1 k a t)
  obtain v n init where T: "tbl k = (v, n, init)" by (cases "tbl k") auto
  have "0 < n" "n < 2 ^ 31 - 1" using 1 T treeD(2-4,6) [of v n init] by (fastforce simp: forkable_def pids_left_def)+
  then have "tbl (nextpid_update (\<lambda>n. sint (word_of_int (n + 1) :: u32)) k) = (v, n + 1, init)" using T next_pid [of n] by (simp add: tbl_def)
  then show ?case using 1 T tree_pid [of v n init "n + 1"] tree_below [of v n init]
    by (auto simp: bnd_def gets_def andthen_def modify_def ret_def tbl_def living_def forkable_def)
qed (simp add: bnd_def gets_def andthen_def modify_def ret_def)

lemma keeps_embryo:
  "keepsk (\<lambda>T. living p T \<and> q < NPROC \<and> v_life (fst T ! q) = Free \<and> (\<forall>i<NPROC. v_pid (fst T ! i) < pid) \<and> pid < fst (snd T))
     (modify (upd_proc q (\<lambda>x. x\<lparr>p_pid := pid, p_state := USED\<rparr>))) (\<lambda>_. newborn p q)"
proof (rule keeps_modify, goal_cases)
  case (1 k)
  let ?f = "\<lambda>x. x\<lparr>p_pid := pid, p_state := USED\<rparr>"
  have l: "q < length (procs k)" using 1 tree_procs by simp
  have n: "p_pid (proc_at k i) < pid" if "i < NPROC" for i using 1 that tree_procs [of k] by (auto simp: tbl_def view_def)
  have "tree (tbl (upd_proc q ?f k))"
    unfolding tbl_upd [OF l] by (rule tree_alloc) (use 1 l n tree_procs [of k] in \<open>auto simp: tbl_def view_def\<close>)
  moreover have "newborn p q (tbl (upd_proc q ?f k))"
    unfolding tbl_upd [OF l] newborn_def fresh_def using 1 l n tree_procs [of k] by (auto simp: tbl_def living_def nth_list_update view_def)
  ultimately show ?case ..
qed

lemma newborn_dead: "newborn p q T \<Longrightarrow> living p T \<and> q < NPROC \<and> v_life (fst T ! q) \<noteq> Alive"
  by (simp add: newborn_def fresh_def)

lemma newborn_present: "newborn p q T \<Longrightarrow> present p T"
  by (simp add: newborn_def living_present)

lemma quiet_context [quiet]: "quiet p (modify (upd_proc q (\<lambda>x. x\<lparr>p_context := c x\<rparr>)))"
  by (rule quiet_upd_proc) (simp add: view_def)

lemma keeps_give_up: "(\<And>T. living p T \<Longrightarrow> Q a T) \<Longrightarrow> keepsk (newborn p q) (andthen (freeproc q) (ret a)) Q"
  by (rule keeps_andthen [OF keeps_conseq [OF keeps_freeproc [of p q]] keeps_ret]) (auto dest: newborn_dead)


lemma keeps_allocproc: "keepsk (forkable p) allocproc (\<lambda>q T. living p T \<and> (q \<noteq> nullproc \<longrightarrow> newborn p q T))"
proof -
  let ?Q = "\<lambda>q T. living p T \<and> (q \<noteq> nullproc \<longrightarrow> newborn p q T)"
  let ?R = "\<lambda>r T. forkable p T \<and> (\<forall>q. r = Some q \<longrightarrow> q < NPROC \<and> v_life (fst T ! q) = Free)"
  have find: "keepsk (forkable p) (gets (\<lambda>k. unused_slot (procs k) 0)) ?R"
    by (rule keeps_gets) (use tree_procs unused_slot in \<open>fastforce simp: tbl_def view_def\<close>)
  have give_up: "keepsk (newborn p q) (andthen (freeproc q) (ret nullproc)) ?Q" for q
    by (rule keeps_give_up) simp
  have q: "keepsk (newborn p q) m (\<lambda>_. newborn p q)" if "quiet p m" for q and m :: "(kernel, 'b) prog"
    using that newborn_present by (rule keeps_quiet)
  show ?thesis
    unfolding allocproc_def
  proof (rule keeps_bnd [OF find], goal_cases)
    case (1 r)
    show ?case
    proof (cases r)
      case None
      then show ?thesis by (auto intro: keeps_ret simp: forkable_def)
    next
      case (Some q)
      have pid: "keepsk (?R r) allocpid
        (\<lambda>pid T. living p T \<and> q < NPROC \<and> v_life (fst T ! q) = Free \<and> (\<forall>i<NPROC. v_pid (fst T ! i) < pid) \<and> pid < fst (snd T))"
        by (rule keeps_pick [where B = "q < NPROC"], use Some in simp, rule keeps_conseq [OF keeps_allocpid [of p q]]) (use Some in auto)
      show ?thesis
        unfolding Some option.case
        by (rule keeps_bnd [OF pid [unfolded Some]], rule keeps_andthen [OF keeps_embryo])
          (intro keeps_bnd [where R = "\<lambda>_. newborn p q"] keeps_andthen [where R = "newborn p q"] keeps_if give_up q quiet keeps_ret; simp add: newborn_def)
    qed
  qed
qed

subsection \<open>fork\<close>

lemma quiet_dup_ofile [quiet]: "quiet p (dup_ofile q r)"
  unfolding dup_ofile_def by (intro quiet)

lemma keeps_parent: "keepsk (newborn p q) (modify (upd_proc q (p_parent_update (\<lambda>_. p)))) (\<lambda>_ T. newborn p q T \<and> v_parent (fst T ! q) = p)"
proof (rule keeps_modify, goal_cases)
  case (1 k)
  let ?f = "p_parent_update (\<lambda>_. p)"
  have l: "q < length (procs k)" using 1 tree_procs by (simp add: newborn_def fresh_def)
  have "tree (tbl (upd_proc q ?f k))"
    unfolding tbl_upd [OF l] by (rule tree_slot) (use 1 l tree_procs [of k] in \<open>auto simp: newborn_def fresh_def tbl_def view_def\<close>)
  then show ?case
    unfolding tbl_upd [OF l] newborn_def fresh_def using 1 l tree_procs [of k]
    by (auto simp: newborn_def fresh_def tbl_def living_def nth_list_update view_def)
qed

lemma keeps_born:
  "keepsk (\<lambda>T. newborn p q T \<and> v_parent (fst T ! q) = p) (modify (upd_proc q (p_state_update (\<lambda>_. RUNNABLE)))) (\<lambda>_. living p)"
proof (rule keeps_modify, goal_cases)
  case (1 k)
  let ?f = "p_state_update (\<lambda>_. RUNNABLE)"
  have l: "q < length (procs k)" using 1 tree_procs by (simp add: newborn_def fresh_def)
  have "tree (tbl (upd_proc q ?f k))"
    unfolding tbl_upd [OF l] by (rule tree_slot) (use 1 l tree_procs [of k] in \<open>auto simp: newborn_def living_def fresh_def tbl_def view_def\<close>)
  then show ?case
    unfolding tbl_upd [OF l] using 1 l tree_procs [of k]
    by (auto simp: newborn_def fresh_def tbl_def living_def nth_list_update view_def)
qed


lemma keeps_prod: "(\<And>a b. keeps I \<pi> P (f a b) Q) \<Longrightarrow> keeps I \<pi> P (case x of (a, b) \<Rightarrow> f a b) Q"
  by (cases x) simp

lemma keeps_child:
  "keepsk (newborn p q) (andthen (modify (upd_proc q (p_parent_update (\<lambda>_. p))))
     (andthen (modify (upd_proc q (p_state_update (\<lambda>_. RUNNABLE)))) (ret r))) (\<lambda>_. living p)"
  by (rule keeps_andthen [OF keeps_parent], rule keeps_andthen [OF keeps_born], rule keeps_ret)

lemma keeps_fork: "keepsk (forkable p) (fork p) (\<lambda>_. living p)"
  unfolding fork_def
proof (rule keeps_bnd [OF keeps_allocproc], rule keeps_if, goal_cases)
  case (1 np)
  show ?case by (rule keeps_ret) simp
next
  case (2 np)
  have q: "keepsk (newborn p np) m (\<lambda>_. newborn p np)" if "quiet p m" for m :: "(kernel, 'b) prog"
    using that newborn_present by (rule keeps_quiet)
  show ?case
    by (rule keeps_conseq [where P' = "newborn p np" and Q' = "\<lambda>_. living p"])
      ((rule keeps_child keeps_give_up keeps_bnd [where R = "\<lambda>_. newborn p np"] keeps_andthen [where R = "newborn p np"]
         keeps_if keeps_prod q quiet | (use 2 in simp; fail))+)
qed

subsection \<open>exit and wait\<close>

text \<open>After \<open>n\<close> rounds of \<^verbatim>\<open>reparent\<close> the first \<open>n\<close> slots are nobody's or somebody else's children.\<close>

definition leaving :: "nat \<Rightarrow> nat \<Rightarrow> pview list \<times> int \<times> nat \<Rightarrow> bool" where
  "leaving p n T \<longleftrightarrow> living p T \<and> p \<noteq> snd (snd T) \<and> (\<forall>i<n. v_parent (fst T ! i) \<noteq> p)"

lemma leaving_present: "leaving p n T \<Longrightarrow> present p T"
  by (simp add: leaving_def living_present)

lemma keeps_adopt:
  assumes "q < NPROC"
  shows "keepsk (\<lambda>T. leaving p q T \<and> snd (snd T) = init) (modify (upd_proc q (p_parent_update (\<lambda>_. init)))) (\<lambda>_. leaving p (Suc q))"
proof (rule keeps_modify, goal_cases)
  case (1 k)
  let ?f = "p_parent_update (\<lambda>_. init)"
  have l: "q < length (procs k)" using 1 assms tree_procs by simp
  have T: "tree (map view (procs k), nextpid k, init)" and i: "initproc k = init" using 1 by (auto simp: tbl_def)
  have view: "view (?f (proc_at k q)) = (view (proc_at k q))\<lparr>v_parent := init\<rparr>" by (simp add: view_def)
  have old: "v_pid (view (proc_at k init)) < v_pid (view (proc_at k q))" if "v_life (view (proc_at k q)) \<noteq> Free" "q \<noteq> init"
    using tree_init_oldest [OF T assms that(2)] treeD(2,4) [OF T] that(1) l assms tree_procs [OF 1(1)] by simp
  have "tree (tbl (upd_proc q ?f k))"
  proof (cases "v_life (view (proc_at k q)) = Free")
    case True
    then show ?thesis
      unfolding tbl_upd [OF l] i by (intro tree_free [OF T]) (use l treeD(5) [OF T assms] view in auto)
  next
    case False
    then show ?thesis
      unfolding tbl_upd [OF l] i by (intro tree_slot [OF T assms]) (use l treeD(2,3) [OF T] view old tree_procs [OF 1(1)] in auto)
  qed
  moreover have "leaving p (Suc q) (tbl (upd_proc q ?f k))"
    unfolding tbl_upd [OF l] using 1 l assms tree_procs [OF 1(1)] i view
    by (auto simp: leaving_def living_def tbl_def nth_list_update less_Suc_eq)
  ultimately show ?case ..
qed

lemma keeps_reparent: "keepsk (leaving p 0) (reparent p) (\<lambda>_. leaving p NPROC)"
  unfolding reparent_def
proof (rule keeps_for0)
  fix q assume q: "q < NPROC"
  let ?R = "\<lambda>x T. leaving p q T \<and> snd (snd T) = snd x \<and> v_parent (fst T ! q) = fst x"
  have look: "keepsk (leaving p q) (gets (\<lambda>k. (p_parent (proc_at k q), initproc k))) ?R"
    by (rule keeps_gets) (use q tree_procs in \<open>auto simp: tbl_def view_def\<close>)
  show "keepsk (leaving p q) (bnd (gets (\<lambda>k. (p_parent (proc_at k q), initproc k))) (\<lambda>(par, init).
     if par = p then andthen (modify (upd_proc q (p_parent_update (\<lambda>_. init)))) (wakeup p (Ch_proc init)) else ret ())) (\<lambda>_. leaving p (Suc q))"
  proof (rule keeps_bnd [OF look], unfold split_beta, rule keeps_if, goal_cases)
    case (1 x)
    show ?case
      by (rule keeps_andthen [OF keeps_conseq [OF keeps_adopt [OF q, of p "snd x"]] keeps_quiet [OF quiet_proc(1)]]) (auto dest: leaving_present)
  next
    case (2 x)
    then show ?case by (intro keeps_ret) (auto simp: leaving_def less_Suc_eq)
  qed
qed

lemma keeps_zombie:
  "keepsk (leaving p NPROC) (modify (upd_proc p (\<lambda>x. x\<lparr>p_xstate := status, p_state := ZOMBIE\<rparr>))) (\<lambda>_ _. True)"
proof (rule keeps_modify, goal_cases)
  case (1 k)
  let ?f = "\<lambda>x. x\<lparr>p_xstate := status, p_state := ZOMBIE\<rparr>"
  have T: "tree (map view (procs k), nextpid k, initproc k)" using 1 by (simp add: tbl_def)
  have p: "p < NPROC" "p < length (procs k)" "p \<noteq> initproc k" "v_life (view (proc_at k p)) = Alive"
    using 1 tree_procs [OF 1(1)] by (auto simp: leaving_def living_def tbl_def)
  have view: "view (?f (proc_at k p)) = (view (proc_at k p))\<lparr>v_life := Dead\<rparr>" by (simp add: view_def)
  have "\<forall>i<NPROC. v_parent ((map view (procs k))[p := view (?f (proc_at k p))] ! i) \<noteq> p"
    unfolding view using 1 tree_procs [OF 1(1)] p by (auto simp: leaving_def tbl_def nth_list_update)
  then have "tree (tbl (upd_proc p ?f k))"
    unfolding tbl_upd [OF p(2)] by (intro tree_slot [OF T p(1)]) (use p view treeD(8) [OF T p(1) p(3)] tree_procs [OF 1(1)] in auto)
  then show ?case by simp
qed

lemma quiet_close_ofile [quiet]: "quiet p (close_ofile p)"
  unfolding close_ofile_def by (intro quiet)

lemma keeps_leaving: "quiet p m \<Longrightarrow> keepsk (leaving p n) m (\<lambda>_. leaving p n)"
  by (erule keeps_quiet) (rule leaving_present)

lemma keeps_die: "keepsk (leaving p 0) (andthen (become_zombie p status) (sched p)) Q"
proof -
  have "keepsk (\<lambda>_. True) (sched p) Q"
    unfolding sched_def by (intro keeps_bnd [where R = "\<lambda>_ _. True"] keeps_if keeps_fails keeps_gets) simp
  then show ?thesis
    unfolding become_zombie_def
    by (rule keeps_andthen [rotated], intro keeps_andthen [OF keeps_reparent])
      (intro keeps_bnd [where R = "\<lambda>_. leaving p NPROC"] keeps_andthen [where R = "leaving p NPROC"] keeps_zombie keeps_leaving quiet)
qed

lemma keeps_exit: "keepsk (living p) (exit p status) Q"
  unfolding exit_def
proof (rule keeps_bnd [where R = "\<lambda>init T. living p T \<and> init = snd (snd T)"], rule keeps_gets, goal_cases)
  case (2 init)
  show ?case
  proof (rule keeps_if, goal_cases)
    case 2
    show ?case
      by (rule keeps_conseq [where P' = "leaving p 0" and Q' = Q])
       ((rule keeps_die keeps_bnd [where R = "\<lambda>_. leaving p 0"] keeps_andthen [where R = "leaving p 0"] keeps_leaving quiet
          | (use 2 in \<open>simp add: leaving_def\<close>; fail))+)
  qed (rule keeps_fails)
qed (simp add: tbl_def)

lemma keeps_wait: "keepsk (living p) (wait p addr) (\<lambda>_. living p)"
proof -
  let ?R = "\<lambda>z T. living p T \<and> (\<forall>q. z = Some q \<longrightarrow> q < NPROC \<and> v_life (fst T ! q) \<noteq> Alive)"
  have find: "keepsk (living p) (gets (\<lambda>k. zombie_child (procs k) p 0)) ?R"
    by (rule keeps_gets) (use tree_procs zombie_child in \<open>fastforce simp: tbl_def view_def\<close>)
  show ?thesis
    unfolding wait_def
  proof (rule keeps_bnd [OF find], goal_cases)
    case (1 z)
    show ?case
    proof (cases z)
      case None
      have q: "keepsk (?R z) m (\<lambda>_. living p)" if "quiet p m" for m :: "(kernel, int) prog"
        by (rule keeps_conseq [OF keeps_quiet [OF that, where P = "living p"]]) (auto intro: living_present)
      show ?thesis unfolding None option.case by (intro q [unfolded None] quiet)
    next
      case (Some q)
      let ?P = "\<lambda>T. living p T \<and> q < NPROC \<and> v_life (fst T ! q) \<noteq> Alive"
      have q: "keepsk ?P m (\<lambda>_. ?P)" if "quiet p m" for m :: "(kernel, 'b) prog"
        using that by (rule keeps_quiet) (simp add: living_present)
      show ?thesis
        unfolding Some option.case
        by (rule keeps_conseq [where P' = ?P and Q' = "\<lambda>_. living p"])
          ((rule keeps_andthen [OF keeps_freeproc] keeps_ret keeps_bnd [where R = "\<lambda>_. ?P"] keeps_prod keeps_if q quiet | (simp; fail))+)
    qed
  qed
qed

subsection \<open>System calls\<close>

lemma keepsk_quiet: "quiet p m \<Longrightarrow> keepsk (living p) m (\<lambda>_. living p)"
  by (rule keeps_quiet [where p = p]) (auto intro: living_present)

lemma keeps_sys_exit: "keepsk (living p) (sys_exit p) (\<lambda>_. living p)"
  unfolding sys_exit_def
  by (rule keeps_bnd [OF keepsk_quiet [OF quiet_args(4)]], rule keeps_andthen [OF keeps_exit [where Q = "\<lambda>_. living p"]], rule keeps_ret)

lemma keeps_sys_wait: "keepsk (living p) (sys_wait p) (\<lambda>_. living p)"
  unfolding sys_wait_def by (rule keeps_bnd [OF keepsk_quiet [OF quiet_args(5)] keeps_wait])

lemma keepsk_ready: "keepsk (living p) m Q \<Longrightarrow> keepsk (forkable p) m Q"
  by (erule keeps_conseq) (simp_all add: forkable_def)

lemma keepsk_quiet_ready: "quiet p m \<Longrightarrow> keepsk (forkable p) m (\<lambda>_. forkable p)"
  by (rule keeps_quiet [where p = p]) (auto intro: forkable_present)

lemma keeps_syscalls: "Some m \<in> set (syscalls g pad p) \<Longrightarrow> keepsk (forkable p) m (\<lambda>_. living p)"
  unfolding syscalls_def sys_fork_def list.set insert_iff option.inject
  by (elim disjE; (simp only: option.distinct; fail | hypsubst)?;
      (rule keeps_fork | rule keepsk_ready, (rule keeps_sys_exit keeps_sys_wait | rule keepsk_quiet, rule quiet) | blast))

lemma keeps_syscall: "keepsk (forkable p) (syscall g pad p) (\<lambda>_. living p)"
proof -
  have t: "keepsk (forkable p) (the (syscalls g pad p ! i)) (\<lambda>_. living p)" if "i < length (syscalls g pad p)" "syscalls g pad p ! i \<noteq> None" for i
  proof (rule keeps_syscalls)
    show "Some (the (syscalls g pad p ! i)) \<in> set (syscalls g pad p)" using nth_mem [OF that(1)] that(2) by simp
  qed
  show ?thesis
    unfolding syscall_def Let_def
    by (rule keeps_bnd [OF keepsk_quiet_ready [OF quiet_proc(6)]], rule keeps_if, rule keeps_bnd [OF t];
        (rule keepsk_ready)?; (intro keepsk_quiet quiet)?; linarith?; simp?)
qed

subsection \<open>Traps\<close>

lemma keeps_in_k: "keeps I (\<lambda>k. k) P m Q \<Longrightarrow> keeps I tker P (in_k m) Q"
  by (rule keepsI; simp add: zoom_def split: res.splits) (fastforce dest: keepsD)+


text \<open>Operations of the system that leave the tree alone, with the rules for them in the collection \<open>calm\<close>.\<close>

definition calm :: "nat \<Rightarrow> (system, 'a) prog \<Rightarrow> bool" where
  "calm p m \<longleftrightarrow> (\<forall>I P. (\<forall>T. P T \<longrightarrow> present p T) \<longrightarrow> keeps I tker P m (\<lambda>_. P))"

named_theorems calm \<open>operations of the system that leave the process tree alone\<close>

lemma calm_keeps: "calm p m \<Longrightarrow> (\<And>T. P T \<Longrightarrow> present p T) \<Longrightarrow> keeps I tker P m (\<lambda>_. P)"
  by (simp add: calm_def)

lemma calm_in_k [calm]: "quiet p m \<Longrightarrow> calm p (in_k m)"
  unfolding calm_def by (auto intro!: keeps_in_k keeps_quiet)

lemma calm_bnd [calm]: "calm p m \<Longrightarrow> (\<And>a. calm p (f a)) \<Longrightarrow> calm p (bnd m f)"
  unfolding calm_def by (blast intro: keeps_bnd)

lemma calm_andthen [calm]: "calm p m \<Longrightarrow> calm p n \<Longrightarrow> calm p (andthen m n)"
  unfolding andthen_def by (rule calm_bnd)

lemma calm_if [calm]: "(b \<Longrightarrow> calm p m) \<Longrightarrow> (\<not> b \<Longrightarrow> calm p n) \<Longrightarrow> calm p (if b then m else n)"
  by simp

lemma calm_list [calm]: "calm p m \<Longrightarrow> (\<And>x xs. calm p (f x xs)) \<Longrightarrow> calm p (case l of [] \<Rightarrow> m | x # xs \<Rightarrow> f x xs)"
  by (cases l) simp_all

lemma calm_basic [calm]: "calm p (ret a)" "calm p (fails e)" "calm p (gets h)"
  unfolding calm_def by (auto intro: keeps_ret keeps_fails keeps_gets)

lemma calm_modify: "(\<And>s. tbl (tker (f s)) = tbl (tker s)) \<Longrightarrow> calm p (modify f)"
  unfolding calm_def by (auto intro: keeps_modify)

lemma calm_updates [calm]: "calm p (upd_hart f)" "calm p (modify (started_update g))" "calm p (modify (kernel_pagetable_update h))"
  by (rule calm_modify, simp)+

lemma calm_disk [calm]: "calm p (zoom tdisk tdisk_update m)" "calm p (zoom get_vboot put_vboot m')"
  unfolding calm_def by (auto intro!: keepsI simp: zoom_def put_vboot_def Let_def split: res.splits)

lemma calm_intr [calm]: "calm p intr_on" "calm p intr_off" "calm p plicinit" "calm p plicinithart" "calm p plic_claim" "calm p (plic_complete irq)"
    "calm p trapinithart" "calm p (clockintr q)" "calm p (kerneltrap_end epc status)" "calm p kvminithart"
  unfolding intr_on_def intr_off_def plicinit_def plicinithart_def plic_claim_def plic_complete_def trapinithart_def clockintr_def
    kerneltrap_end_def kvminithart_def
  by (intro calm quiet)+

lemma calm_devintr [calm]: "calm p (devintr q)"
  unfolding devintr_def by (intro calm quiet)

lemma calm_usertrapret [calm]: "calm p (usertrapret q)"
  unfolding usertrapret_def Let_def by (intro calm quiet)

lemma calm_kerneltrap [calm]: "calm p (kerneltrap p)"
  unfolding kerneltrap_def by (intro calm quiet)

lemma calm_forkret [calm]: "calm p (forkret p)"
  unfolding forkret_def by (intro calm quiet)

lemma keeps_calm: "calm p m \<Longrightarrow> keeps tree tker (living p) m (\<lambda>_. living p)"
  by (rule calm_keeps [where p = p]) (auto intro: living_present)

lemmas keeps_live = keeps_bnd [where P = "living p" and R = "\<lambda>_. living p" for p] keeps_andthen [where P = "living p" and R = "living p" for p]

lemma keeps_usertrap_end: "keeps tree tker (living p) (usertrap_end p which_dev) (\<lambda>_. living p)"
  unfolding usertrap_end_def by (intro keeps_live keeps_if keeps_in_k keeps_exit; rule keepsk_quiet keeps_calm; intro calm quiet)

lemma keeps_calm_ready: "calm p m \<Longrightarrow> keeps tree tker (forkable p) m (\<lambda>_. forkable p)"
  by (rule calm_keeps [where p = p]) (auto intro: forkable_present)

lemma keeps_ready: "keeps I \<pi> (living p) m Q \<Longrightarrow> keeps I \<pi> (forkable p) m Q"
  by (erule keeps_conseq) (simp_all add: forkable_def)

lemma keeps_exit_ready: "keeps tree tker (forkable p) (in_k (exit p status)) Q"
  by (intro keeps_ready keeps_in_k keeps_exit)

lemmas keeps_up = keeps_bnd [where P = "forkable p" and R = "\<lambda>_. forkable p" for p] keeps_andthen [where P = "forkable p" and R = "forkable p" for p]

lemma keeps_call: "keeps tree tker (forkable p) (andthen (in_k (syscall g pad p)) (usertrap_end p 0)) (\<lambda>_. living p)"
  by (rule keeps_andthen [OF keeps_in_k [OF keeps_syscall] keeps_usertrap_end])

lemma keeps_usertrap: "keeps tree tker (forkable p) (usertrap g pad p) (\<lambda>_. living p)"
  unfolding usertrap_def
  by ((rule keeps_call keeps_up keeps_if keeps_exit_ready keeps_ready [OF keeps_usertrap_end] keeps_fails | rule keeps_calm_ready, (intro calm quiet; fail))+)


subsection \<open>The start of the system\<close>

text \<open>Before \<^verbatim>\<open>userinit\<close> the table is as the loader left it, after it there is one process.\<close>

definition blank :: "pview list \<times> int \<times> nat \<Rightarrow> bool" where
  "blank T \<longleftrightarrow> length (fst T) = NPROC \<and> fst (snd T) = 1 \<and> (\<forall>i<NPROC. v_life (fst T ! i) = Free \<and> v_pid (fst T ! i) = 0)"

definition infant :: "nat \<Rightarrow> pview list \<times> int \<times> nat \<Rightarrow> bool" where
  "infant q T \<longleftrightarrow> length (fst T) = NPROC \<and> fst (snd T) = 2 \<and> q < NPROC \<and> v_life (fst T ! q) = Embryo \<and> v_pid (fst T ! q) = 1 \<and>
     (\<forall>i<NPROC. i \<noteq> q \<longrightarrow> v_life (fst T ! i) = Free \<and> v_pid (fst T ! i) = 0)"

lemma tree_first:
  assumes "infant q (v, n, init)" "v_life x = Alive" "v_pid x = 1"
  shows "tree (v[q := x], n, q)"
  using assms unfolding infant_def tree_def by (auto simp: nth_list_update)

abbreviation boots :: "(pview list \<times> int \<times> nat \<Rightarrow> bool) \<Rightarrow> (kernel, 'a) prog \<Rightarrow> ('a \<Rightarrow> pview list \<times> int \<times> nat \<Rightarrow> bool) \<Rightarrow> bool" where
  "boots \<equiv> keeps (\<lambda>_. True) (\<lambda>k. k)"

lemma boots_quiet: "quiet nullproc m \<Longrightarrow> (\<And>T. P T \<Longrightarrow> length (fst T) = NPROC) \<Longrightarrow> boots P m (\<lambda>_. P)"
  by (rule keeps_quiet) (auto simp: present_def)

lemma boots_allocproc: "boots blank allocproc (\<lambda>q T. q \<noteq> nullproc \<longrightarrow> infant q T)"
proof -
  let ?Q = "\<lambda>q T. q \<noteq> nullproc \<longrightarrow> infant q T"
  let ?R = "\<lambda>r T. blank T \<and> (\<forall>q. r = Some q \<longrightarrow> q < NPROC)"
  have find: "boots blank (gets (\<lambda>k. unused_slot (procs k) 0)) ?R"
    by (rule keeps_gets) (use unused_slot in \<open>fastforce simp: tbl_def blank_def\<close>)
  have q: "boots (infant q) m (\<lambda>_. infant q)" if "quiet nullproc m" for q and m :: "(kernel, 'b) prog"
    using that by (rule boots_quiet) (simp add: infant_def)
  have give_up: "boots (infant q) (andthen (freeproc q) (ret nullproc)) ?Q" for q
    by (rule keeps_andthen [where R = "\<lambda>_. True"]; rule keepsI; simp add: ret_def)
  show ?thesis
    unfolding allocproc_def
  proof (rule keeps_bnd [OF find], goal_cases)
    case (1 r)
    show ?case
    proof (cases r)
      case None
      then show ?thesis by (auto intro: keeps_ret)
    next
      case (Some q)
      have pid: "boots (?R r) allocpid (\<lambda>pid T. length (fst T) = NPROC \<and> q < NPROC \<and> pid = 1 \<and> fst (snd T) = 2 \<and>
          (\<forall>i<NPROC. v_life (fst T ! i) = Free \<and> v_pid (fst T ! i) = 0))"
        unfolding allocpid_def
        by (rule keepsI) (use Some in \<open>auto simp: bnd_def gets_def andthen_def modify_def ret_def tbl_def blank_def\<close>)
      have emb: "boots (\<lambda>T. length (fst T) = NPROC \<and> q < NPROC \<and> pid = 1 \<and> fst (snd T) = 2 \<and>
          (\<forall>i<NPROC. v_life (fst T ! i) = Free \<and> v_pid (fst T ! i) = 0))
          (modify (upd_proc q (\<lambda>x. x\<lparr>p_pid := pid, p_state := USED\<rparr>))) (\<lambda>_. infant q)" for pid
        by (rule keeps_modify) (auto simp: tbl_def upd_proc_def map_update infant_def nth_list_update view_def)
      show ?thesis
        unfolding Some option.case
        by (rule keeps_bnd [OF pid [unfolded Some]], rule keeps_andthen [OF emb])
          (intro keeps_bnd [where R = "\<lambda>_. infant q"] keeps_andthen [where R = "infant q"] keeps_if give_up q quiet keeps_ret; simp)
    qed
  qed
qed

lemma boots_userinit: "boots blank (userinit nullproc g) (\<lambda>_. tree)"
proof -
  let ?I = "\<lambda>p T. snd (snd T) = p \<and> (p \<noteq> nullproc \<longrightarrow> infant p T)"
  let ?J = "\<lambda>p T. snd (snd T) = p \<and> infant p T"
  have set: "boots (\<lambda>T. p \<noteq> nullproc \<longrightarrow> infant p T) (modify (initproc_update (\<lambda>_. p))) (\<lambda>_. ?I p)" for p
    by (rule keeps_modify) (auto simp: tbl_def infant_def)
  have guard: "boots (?I p) (guard (p \<noteq> nullproc) e) (\<lambda>_. ?J p)" for p e
    unfolding guard_def by (intro keeps_if keeps_ret keeps_fails) simp
  have run: "boots (?J p) (modify (upd_proc p (\<lambda>x. x\<lparr>p_cwd := ip, p_state := RUNNABLE\<rparr>))) (\<lambda>_. tree)" for p ip
  proof (rule keeps_modify, goal_cases)
    case (1 k)
    then have l: "p < length (procs k)" by (simp add: infant_def tbl_def)
    show ?case
      using 1 tree_first [of p "map view (procs k)" "nextpid k" p "view ((proc_at k p)\<lparr>p_cwd := ip, p_state := RUNNABLE\<rparr>)"] l
      unfolding tbl_upd [OF l] by (auto simp: tbl_def view_def infant_def)
  qed
  have q: "boots (?J p) m (\<lambda>_. ?J p)" if "quiet nullproc m" for p and m :: "(kernel, 'b) prog"
    using that by (rule boots_quiet) (simp add: infant_def)
  show ?thesis
    unfolding userinit_def
    by (rule keeps_bnd [OF boots_allocproc], rule keeps_andthen [OF set], rule keeps_andthen [OF guard])
      (rule run keeps_bnd [where R = "\<lambda>_. ?J p" for p] keeps_andthen [where R = "?J p" for p] q quiet)+
qed


lemma quiet_start [quiet]: "quiet p consoleinit" "quiet p (proc_mapstacks pt)" "quiet p (kvmmake e)"
proof -
  show "quiet p consoleinit" unfolding consoleinit_def by (intro quiet quiet_modify tbl_cong) simp_all
  show m: "quiet p (proc_mapstacks pt)" for pt unfolding proc_mapstacks_def by (intro quiet)
  show "quiet p (kvmmake e)" unfolding kvmmake_def by (intro quiet m)
qed

lemma calm_kvminit [calm]: "calm p kvminit"
  unfolding kvminit_def by (intro calm quiet)

lemma boots_procinit: "boots blank procinit (\<lambda>_. blank)"
  unfolding procinit_def
proof (rule keeps_for0 [where J = "\<lambda>_. blank"])
  fix q assume "q < NPROC"
  then show "boots blank (modify (upd_proc q (\<lambda>x. x\<lparr>p_state := UNUSED, p_kstack := KSTACK q\<rparr>))) (\<lambda>_. blank)"
    by (intro keeps_modify) (auto simp: tbl_def upd_proc_def map_update blank_def nth_list_update view_def)
qed

lemma boots_main: "keeps (\<lambda>_. True) tker blank (main_first rd g) (\<lambda>_. tree)"
proof -
  have c: "keeps (\<lambda>_. True) tker blank m (\<lambda>_. blank)" if "calm nullproc m" for m :: "(system, 'b) prog"
    using that by (rule calm_keeps) (simp add: blank_def present_def)
  have d: "keeps (\<lambda>_. True) tker tree m (\<lambda>_. tree)" if "calm nullproc m" for m :: "(system, 'b) prog"
    using that by (rule calm_keeps) (auto simp: present_def dest: treeD(1))
  show ?thesis
    unfolding main_first_def
    by ((rule keeps_andthen [OF keeps_in_k [OF boots_userinit] d] keeps_andthen [OF keeps_in_k [OF boots_procinit]]
          keeps_andthen [OF c] | (intro calm quiet; fail))+)
qed

end
