(* ===== verification/Traps.thy ===== *)
theory Traps
  imports Trap Procfacts Sample
begin

text \<open>
  A system call goes from user space to its handler and back, a clock interrupt in the kernel leaves the
  interrupted code undisturbed, and a process that sleeps for a number of ticks wakes up after them.
\<close>

subsection \<open>The way back to user space\<close>

text \<open>In user mode after the return: previous mode user, interrupts off now and on after \<^verbatim>\<open>sret\<close>.\<close>

definition to_user :: "u64 \<Rightarrow> bool" where
  "to_user st \<longleftrightarrow> st AND SSTATUS_SPP = 0 \<and> st AND SSTATUS_SPIE \<noteq> 0 \<and> st AND SSTATUS_SIE = 0"

lemma to_user_bits: "to_user (((st AND NOT SSTATUS_SIE) AND NOT SSTATUS_SPP) OR SSTATUS_SPIE)"
proof -
  have n: "NOT (SSTATUS_SPP :: u64) AND SSTATUS_SPP = 0" "SSTATUS_SPIE AND SSTATUS_SPP = 0" "SSTATUS_SPIE AND SSTATUS_SIE = 0"
    "NOT (SSTATUS_SIE :: u64) AND SSTATUS_SIE = 0" "SSTATUS_SPIE \<noteq> 0" by (simp_all add: const_defs)
  have "(x AND NOT y) AND y = 0" "((x AND NOT y) AND z) AND y = 0" "(x OR y) AND y = y" for x y z :: u64
    by (rule bit_word_eqI, auto simp: bit_simps)+
  then show ?thesis using n by (simp add: to_user_def bit.conj_disj_distrib2)
qed

text \<open>What the trapframe and the control registers must hold when \<^verbatim>\<open>userret\<close> is entered.\<close>

definition user_ready :: "system \<Rightarrow> nat \<Rightarrow> kernel \<Rightarrow> bool" where
  "user_ready s p k \<longleftrightarrow> to_user (sstatus (th s)) \<and> sepc (th s) = tfr k p tf_epc \<and>
     stvec (th s) = TRAMPOLINE + (a_uservec s - k_trampoline k) \<and>
     tfr (tker s) p tf_kernel_satp = satp (th s) \<and> tfr (tker s) p tf_kernel_sp = p_kstack (proc_at k p) + PGSIZE \<and>
     tfr (tker s) p tf_kernel_trap = a_usertrap s \<and> tfr (tker s) p tf_kernel_hartid = of_nat (h_id (th s)) \<and>
     tfr (tker s) p tf_epc = tfr k p tf_epc \<and> tfr (tker s) p tf_a0 = tfr k p tf_a0"

lemma tf_distinct [simp]:
  "tf_epc \<noteq> tf_kernel_satp" "tf_epc \<noteq> tf_kernel_sp" "tf_epc \<noteq> tf_kernel_trap" "tf_epc \<noteq> tf_kernel_hartid" "tf_epc \<noteq> tf_a0"
  "tf_a0 \<noteq> tf_kernel_satp" "tf_a0 \<noteq> tf_kernel_sp" "tf_a0 \<noteq> tf_kernel_trap" "tf_a0 \<noteq> tf_kernel_hartid" "tf_a0 \<noteq> tf_epc"
  "tf_a7 \<noteq> tf_epc" "tf_kernel_satp \<noteq> tf_kernel_sp" "tf_kernel_satp \<noteq> tf_kernel_trap" "tf_kernel_satp \<noteq> tf_kernel_hartid"
  "tf_kernel_sp \<noteq> tf_kernel_trap" "tf_kernel_sp \<noteq> tf_kernel_hartid" "tf_kernel_trap \<noteq> tf_kernel_hartid"
  by (simp_all add: const_defs)

lemma usertrapret_ready:
  "wp (usertrapret p) (\<lambda>r t. r = (MAKE_SATP (p_pagetable (proc_at (tker s) p)), TRAMPOLINE + (a_userret s - k_trampoline (tker s))) \<and>
     procs (tker t) = procs (tker s) \<and> user_ready t p (tker s)) s"
  unfolding wp_def
  by (simp add: usertrapret_def run_simps intr_off_def Let_def tf_set_run tf_get_run user_ready_def to_user_bits tfr_tf_store)

subsection \<open>System calls\<close>

text \<open>
  The handlers of \<^verbatim>\<open>kill\<close>, \<^verbatim>\<open>dup\<close>, \<^verbatim>\<open>getpid\<close>, \<^verbatim>\<open>sleep\<close> and \<^verbatim>\<open>uptime\<close> change no page of memory, so that the trapframe of the
  caller is as before when they return.
\<close>

lemma tfr_upd_proc: "(\<And>x. p_trapframe (f x) = p_trapframe x) \<Longrightarrow> tfr (upd_proc q f k) p off = tfr k p off"
  by (cases "q < length (procs k)") (auto simp: tfr_def upd_proc_def nth_list_update list_update_beyond)

lemma tfr_upd_file: "tfr (upd_file f g k) p off = tfr k p off"
  by (simp add: tfr_def upd_file_def)

lemma tfr_handlers:
  "sys_kill p k = Ok r t \<Longrightarrow> tfr t q off = tfr k q off" "sys_dup p k = Ok r t \<Longrightarrow> tfr t q off = tfr k q off"
  "sys_getpid p k = Ok r t \<Longrightarrow> tfr t q off = tfr k q off" "sys_sleep p k = Ok r t \<Longrightarrow> tfr t q off = tfr k q off"
  "sys_uptime k = Ok r t \<Longrightarrow> tfr t q off = tfr k q off"
  by (auto simp: sys_kill_def sys_dup_def sys_getpid_def sys_sleep_def sys_sleep_loop_def sys_uptime_def argfd_def argint_def
      argraw_def tf_get_run kill_def fdalloc_def filedup_def killed_def sleep_def sched_def Let_def run_simps tfr_upd_proc kill_proc_def
      tfr_upd_file split: if_splits option.splits)

lemma syscalls_epc:
  assumes "syscalls g pad p ! num = Some h" and "num \<in> {6, 10, 11, 13, 14}" and "h k = Ok r t"
  shows "tfr t p tf_epc = tfr k p tf_epc"
  using assms by (auto simp: syscalls_def dest: tfr_handlers)

text \<open>
  C25: a system call from user mode runs its handler with the saved program counter moved past the \<^verbatim>\<open>ecall\<close>; if the
  handler returns \<open>r\<close> and the process has not been killed, \<^verbatim>\<open>usertrap\<close> goes back to user mode with \<open>r\<close> in \<^verbatim>\<open>a0\<close>,
  at the program counter the handler left in the trapframe, and with trap vector, kernel stack, page table and
  CPU number set for the next trap. For \<^verbatim>\<open>kill\<close>, \<^verbatim>\<open>dup\<close>, \<^verbatim>\<open>getpid\<close>, \<^verbatim>\<open>sleep\<close> and \<^verbatim>\<open>uptime\<close> this program counter is the instruction after
  the \<^verbatim>\<open>ecall\<close>; \<^verbatim>\<open>exec\<close> puts the entry point of the new program there.
\<close>

theorem usertrap_syscall:
  assumes "sstatus (th s) AND SSTATUS_SPP = 0" and "scause (th s) = 8" and "\<not> p_killed (proc_at (tker s) p)"
    and "sint (ucast (tfr (tker s) p tf_a7) :: u32) = int num" and "0 < num" and "num < 22"
    and "syscalls g pad p ! num = Some h"
    and "h (tf_store p tf_epc (sepc (th s) + 4) (tf_store p tf_epc (sepc (th s)) (tker s))) = Ok r k"
    and "\<not> p_killed (proc_at k p)"
  shows "wp (usertrap g pad p) (\<lambda>a t. a = (MAKE_SATP (p_pagetable (proc_at k p)), TRAMPOLINE + (a_userret s - k_trampoline k)) \<and>
      user_ready t p (tf_store p tf_a0 (word_of_int r) k) \<and> tfr (tker t) p tf_a0 = word_of_int r \<and>
      sepc (th t) = tfr k p tf_epc \<and> (num \<in> {6, 10, 11, 13, 14} \<longrightarrow> sepc (th t) = sepc (th s) + 4)) s"
proof -
  let ?k = "tf_store p tf_a0 (word_of_int r) k"
  let ?s = "(th_update (sstatus_update (\<lambda>x. x OR SSTATUS_SIE) \<circ> stvec_update (\<lambda>_. a_kernelvec s)) s)\<lparr>tker := ?k\<rparr>"
  have n: "length (syscalls g pad p) = 22" by (simp add: syscalls_def)
  have e: "tfr k p tf_epc = sepc (th s) + 4" if "num \<in> {6, 10, 11, 13, 14}"
    using syscalls_epc [OF assms(7) that assms(8)] by (simp add: tfr_tf_store)
  have "usertrap g pad p s = usertrap_end p 0 ?s"
    using assms n
    by (simp add: usertrap_def trapinithart_def run_simps killed_def tf_set_run tf_get_run tfr_tf_store intr_on_def syscall_def Let_def)
  also have "\<dots> = usertrapret p ?s"
    using assms(9) by (simp add: usertrap_end_def killed_def run_simps)
  finally have "wp (usertrap g pad p) Q s \<longleftrightarrow> wp (usertrapret p) Q ?s" for Q by (simp add: wp_def)
  moreover have "wp (usertrapret p) (\<lambda>a t. a = (MAKE_SATP (p_pagetable (proc_at k p)), TRAMPOLINE + (a_userret s - k_trampoline k)) \<and>
      user_ready t p ?k \<and> tfr (tker t) p tf_a0 = word_of_int r \<and> sepc (th t) = tfr k p tf_epc) ?s"
    using usertrapret_ready [of p ?s] by (auto simp: user_ready_def tfr_tf_store elim!: wp_mono)
  ultimately show ?thesis using e by (auto elim!: wp_mono)
qed

text \<open>The example: \<^verbatim>\<open>getpid\<close> called by process 0, whose trapframe is at address 0x80050000.\<close>

definition sample_hart :: hart where
  "sample_hart = \<lparr>h_id = 0, sstatus = 0, stvec = 0, sepc = 0x1000, scause = 8, stval = 0, satp = 0x8000000000080008,
     h_time = 5, stimecmp = 0, claimable = [], plic_writes = []\<rparr>"

definition sample_system :: "kernel \<Rightarrow> system" where
  "sample_system k = \<lparr>tker = k, tdisk = sample_vdisk, tmmio = [], th = sample_hart, started = True, kernel_pagetable = 0x80008000,
     a_etext = 0x80008000, a_kernelvec = 0x80002000, a_usertrap = 0x80003000, a_uservec = 0x80007000, a_userret = 0x8000709C\<rparr>"

definition sample_caller :: "u64 \<Rightarrow> kernel" where
  "sample_caller num = tf_store 0 tf_a7 num (upd_proc 0 (\<lambda>x. x\<lparr>p_trapframe := 0x80050000, p_kstack := 0x3FFFFFD000\<rparr>)
     (sample_kernel \<lparr>mem = (\<lambda>_. 0), freelist = 0, kend = 0x80021000\<rparr> 0x80030000))"

lemma sample_caller_simps [simp]:
  "proc_at (sample_caller num) 0 = sample_proc\<lparr>p_state := RUNNING, p_pid := 1, p_pagetable := 0x80030000,
     p_trapframe := 0x80050000, p_kstack := 0x3FFFFFD000\<rparr>"
  "tfr (sample_caller num) 0 tf_a7 = num" "k_trampoline (sample_caller num) = 0x80007000" "length (procs (sample_caller num)) = NPROC"
  by (simp_all add: sample_caller_def tfr_tf_store upd_proc_def sample_kernel_def NPROC_def)

theorem usertrap_syscall_witness:
  "wp (usertrap [] [] 0) (\<lambda>a t. a = (MAKE_SATP 0x80030000, TRAMPOLINE + 0x9C) \<and> tfr (tker t) 0 tf_a0 = 1 \<and> sepc (th t) = 0x1004)
     (sample_system (sample_caller 11))"
proof -
  let ?k = "sample_caller 11"
  let ?k1 = "tf_store 0 tf_epc (0x1000 + 4) (tf_store 0 tf_epc 0x1000 ?k)"
  have h: "(\<lambda>k. Ok (p_pid (proc_at k 0)) k) ?k1 = Ok 1 ?k1" by (simp add: sample_proc_def)
  have c: "syscalls [] [] 0 ! 11 = Some (\<lambda>k. Ok (p_pid (proc_at k 0)) k)"
    by (simp add: syscalls_def sys_getpid_def gets_def)
  show ?thesis
    using usertrap_syscall [of "sample_system ?k" 0 11 "[]" "[]" "\<lambda>k. Ok (p_pid (proc_at k 0)) k" 1 ?k1] h c
    by (simp add: sample_system_def sample_hart_def sample_proc_def tfr_tf_store) (auto elim!: wp_mono)
qed

subsection \<open>Sleeping for some ticks\<close>

text \<open>
  A process inside \<^verbatim>\<open>sys_sleep\<close> while clock interrupts arrive on CPU 0: each time it sleeps, an interrupt comes while
  process \<open>q\<close> (or none) runs there, and the scheduler then continues the sleeper if it is runnable.
\<close>

definition resume :: "nat \<Rightarrow> (kernel, unit) prog" where
  "resume p =
     bnd (gets (\<lambda>k. p_state (proc_at k p))) (\<lambda>st.
     andthen (guard (st = RUNNABLE) (Fault ''not runnable''))
     (andthen (modify (upd_proc p (p_state_update (\<lambda>_. RUNNING)))) (awake p)))"

primrec sleep_through :: "nat \<Rightarrow> int \<Rightarrow> u32 \<Rightarrow> nat list \<Rightarrow> (system, int) prog" where
  "sleep_through p n t0 [] = in_k (sys_sleep_loop p n t0)"
| "sleep_through p n t0 (q # qs) = (\<lambda>s.
     case in_k (sys_sleep_loop p n t0) s of
       Ok r s' \<Rightarrow> Ok r s'
     | Err _ s' \<Rightarrow> andthen (clockintr q) (andthen (in_k (resume p)) (sleep_through p n t0 qs)) s')"

lemma sleep_loop_run:
  assumes "n < 2 ^ 31" and "m < 2 ^ 32" and "ticks k = t0 + of_nat m" and "\<not> p_killed (proc_at k p)" and "p < length (procs k)"
  shows "sys_sleep_loop p (int n) t0 k = (if n \<le> m then Ok 0 k
    else Err (Sleeps ''sched'') (upd_proc p (\<lambda>x. x\<lparr>p_chan := Some Ch_ticks, p_state := SLEEPING\<rparr>) k))"
proof -
  have "ticks k - t0 = of_nat m" using assms(3) by simp
  then have "ticks k - t0 < word_of_int (int n) \<longleftrightarrow> m < n"
    using assms(1,2) by (simp add: word_less_nat_alt unat_of_nat_small)
  then show ?thesis
    using assms(4,5) by (simp add: sys_sleep_loop_def run_simps killed_def sleep_def sched_def upd_proc_def)
qed

text \<open>After the interrupt the sleeper is runnable and one tick has passed.\<close>

lemma tick_wakes:
  assumes "h_id (th s) = 0" and "p < NPROC" and "length (procs (tker s)) = NPROC" and "q \<noteq> p"
    and "p_state (proc_at (tker s) p) = SLEEPING" and "p_chan (proc_at (tker s) p) = Some Ch_ticks"
  shows "\<exists>t. andthen (clockintr q) (in_k (resume p)) s = Ok () t \<and> ticks (tker t) = ticks (tker s) + 1 \<and>
    length (procs (tker t)) = NPROC \<and> h_id (th t) = 0 \<and>
    p_state (proc_at (tker t) p) = RUNNING \<and> p_killed (proc_at (tker t) p) = p_killed (proc_at (tker s) p)"
proof -
  let ?k = "ticks_update (\<lambda>t. t + 1) (tker s)"
  obtain xs where w: "wakeup q Ch_ticks ?k = Ok () (?k\<lparr>procs := xs\<rparr>)" "length xs = length (procs ?k)"
    "\<And>r. r < length (procs ?k) \<Longrightarrow> xs ! r = (if r < NPROC \<and> r \<noteq> q then wake_proc Ch_ticks (procs ?k ! r) else procs ?k ! r)"
    using wakeup_run by blast
  have p: "xs ! p = (proc_at (tker s) p)\<lparr>p_state := RUNNABLE\<rparr>" using w(3) [of p] assms by (simp add: wake_proc_def)
  have c: "clockintr q s = Ok () (th_update (\<lambda>h. h\<lparr>stimecmp := h_time h + 1000000\<rparr>) (s\<lparr>tker := ?k\<lparr>procs := xs\<rparr>\<rparr>))"
    using assms(1) w(1) by (simp add: clockintr_def run_simps)
  show ?thesis
    using assms w(2) p
    by (simp add: andthen_def bnd_def c) (simp add: run_simps resume_def awake_def upd_proc_def)
qed

lemma sleep_through_run:
  assumes "n < 2 ^ 31" and "m \<le> n" and "ticks (tker s) = t0 + of_nat m" and "n - m \<le> length qs" and "p \<notin> set qs" and "p < NPROC"
    and "length (procs (tker s)) = NPROC" and "h_id (th s) = 0" and "\<not> p_killed (proc_at (tker s) p)"
  shows "wp (sleep_through p (int n) t0 qs) (\<lambda>r t. r = 0 \<and> ticks (tker t) = t0 + of_nat n) s"
  using assms
proof (induction qs arbitrary: s m)
  case Nil
  then show ?case using sleep_loop_run [of n m "tker s" t0 p] by (simp add: wp_def run_simps)
next
  case (Cons q qs)
  let ?f = "\<lambda>x. x\<lparr>p_chan := Some Ch_ticks, p_state := SLEEPING\<rparr>"
  have run: "sys_sleep_loop p (int n) t0 (tker s) = (if n \<le> m then Ok 0 (tker s) else Err (Sleeps ''sched'') (upd_proc p ?f (tker s)))"
    using Cons.prems by (intro sleep_loop_run) simp_all
  show ?case
  proof (cases "n \<le> m")
    case True
    then show ?thesis using run Cons.prems(2,3) by (simp add: wp_def run_simps)
  next
    case False
    let ?s = "s\<lparr>tker := upd_proc p ?f (tker s)\<rparr>"
    obtain t where t: "andthen (clockintr q) (in_k (resume p)) ?s = Ok () t" "ticks (tker t) = ticks (tker ?s) + 1"
      "length (procs (tker t)) = NPROC" "h_id (th t) = 0" "p_killed (proc_at (tker t) p) = p_killed (proc_at (tker ?s) p)"
      using tick_wakes [of ?s p q] Cons.prems by (auto simp: upd_proc_def)
    have "wp (sleep_through p (int n) t0 qs) (\<lambda>r t. r = 0 \<and> ticks (tker t) = t0 + of_nat n) t"
      using Cons.prems t False by (intro Cons.IH [of "Suc m"]) (simp_all add: upd_proc_def)
    moreover have "andthen (clockintr q) (andthen (in_k (resume p)) m') ?s = m' t" for m' :: "(system, int) prog"
      using t(1) by (auto simp: andthen_def bnd_def split: res.splits)
    ultimately show ?thesis using False run by (simp add: wp_def zoom_def)
  qed
qed

text \<open>
  C26: \<^verbatim>\<open>sleep(n)\<close> ends. Whatever else runs, every clock interrupt wakes the sleeper, it goes back to sleep while
  fewer than \<open>n\<close> ticks have passed, and after exactly \<open>n\<close> ticks the call returns 0, also when the 32-bit tick counter
  wraps around in between.
\<close>

theorem sleep_ends:
  assumes "n < 2 ^ 31" and "n \<le> length qs" and "p \<notin> set qs" and "p < NPROC"
    and "length (procs (tker s)) = NPROC" and "h_id (th s) = 0" and "\<not> p_killed (proc_at (tker s) p)"
  shows "wp (sleep_through p (int n) (ticks (tker s)) qs) (\<lambda>r t. r = 0 \<and> ticks (tker t) = ticks (tker s) + of_nat n) s"
  using assms by (intro sleep_through_run [of _ 0]) simp_all

theorem sleep_ends_witness:
  "wp (sleep_through 0 (int 3) (- 1) [5, nullproc, 7]) (\<lambda>r t. r = 0 \<and> ticks (tker t) = 2)
     (sample_system ((sample_caller 13)\<lparr>ticks := - 1\<rparr>))"
  using sleep_ends [of 3 "[5, nullproc, 7]" 0 "sample_system ((sample_caller 13)\<lparr>ticks := - 1\<rparr>)"]
  by (simp add: sample_system_def sample_hart_def sample_proc_def NPROC_def)

end
