(* ===== verification/Reach.thy ===== *)
theory Reach
  imports Proctree Traps
begin

text \<open>
  The runs of the system as a step relation over its traps, and the process tree as an invariant of all of them.
\<close>

subsection \<open>The process tree, read off the table\<close>

text \<open>
  A child and its parent; \<^verbatim>\<open>init\<close> has none. Slots in the states \<^verbatim>\<open>UNUSED\<close> and \<^verbatim>\<open>USED\<close> hold no process yet.
\<close>

definition has_process :: "proc \<Rightarrow> bool" where
  "has_process x \<longleftrightarrow> p_state x \<notin> {UNUSED, USED}"

definition child_of :: "kernel \<Rightarrow> nat \<Rightarrow> nat \<Rightarrow> bool" where
  "child_of k i j \<longleftrightarrow> i < NPROC \<and> i \<noteq> initproc k \<and> has_process (proc_at k i) \<and> j = p_parent (proc_at k i)"

definition process_tree :: "kernel \<Rightarrow> bool" where
  "process_tree k \<longleftrightarrow>
     length (procs k) = NPROC \<and>
     initproc k < NPROC \<and> p_pid (proc_at k (initproc k)) = 1 \<and>
     p_state (proc_at k (initproc k)) \<in> {SLEEPING, RUNNABLE, RUNNING} \<and>
     (\<forall>i<NPROC. if p_state (proc_at k i) = UNUSED then p_pid (proc_at k i) = 0
                 else 0 < p_pid (proc_at k i) \<and> p_pid (proc_at k i) < nextpid k) \<and>
     (\<forall>i<NPROC. \<forall>j<NPROC. p_state (proc_at k i) \<noteq> UNUSED \<longrightarrow> p_pid (proc_at k i) = p_pid (proc_at k j) \<longrightarrow> i = j) \<and>
     (\<forall>i<NPROC. i \<noteq> initproc k \<longrightarrow> has_process (proc_at k i) \<longrightarrow>
        p_parent (proc_at k i) < NPROC \<and>
        p_state (proc_at k (p_parent (proc_at k i))) \<in> {SLEEPING, RUNNABLE, RUNNING} \<and>
        p_pid (proc_at k (p_parent (proc_at k i))) < p_pid (proc_at k i))"

lemma life_view: "v_life (view x) = Free \<longleftrightarrow> p_state x = UNUSED" "v_life (view x) = Alive \<longleftrightarrow> p_state x \<in> {SLEEPING, RUNNABLE, RUNNING}"
  "v_life (view x) = Alive \<or> v_life (view x) = Dead \<longleftrightarrow> has_process x"
  by (cases "p_state x"; simp add: view_def has_process_def)+

lemma view_fields [simp]: "v_pid (view x) = p_pid x" "v_parent (view x) = p_parent x"
  by (simp_all add: view_def)

lemma tree_process_tree: "tree (tbl k) \<longleftrightarrow> process_tree k"
proof
  assume T: "tree (tbl k)"
  note d = treeD [OF T [unfolded tbl_def]]
  have l: "length (procs k) = NPROC" using T by (rule tree_procs)
  have v: "map view (procs k) ! i = view (proc_at k i)" if "i < NPROC" for i using that l by simp
  have pos: "if p_state (proc_at k i) = UNUSED then p_pid (proc_at k i) = 0 else 0 < p_pid (proc_at k i) \<and> p_pid (proc_at k i) < nextpid k"
    if "i < NPROC" for i using d(5,6) [OF that] v [OF that] by (auto simp: life_view(1))
  moreover have "i = j" if "i < NPROC" "j < NPROC" "p_state (proc_at k i) \<noteq> UNUSED" "p_pid (proc_at k i) = p_pid (proc_at k j)" for i j
    using d(7) [OF that(1,2)] pos [OF that(1)] pos [OF that(2)] that v by (simp add: life_view(1) split: if_splits)
  moreover have "p_parent (proc_at k i) < NPROC \<and> p_state (proc_at k (p_parent (proc_at k i))) \<in> {SLEEPING, RUNNABLE, RUNNING} \<and>
      p_pid (proc_at k (p_parent (proc_at k i))) < p_pid (proc_at k i)" if "i < NPROC" "i \<noteq> initproc k" "has_process (proc_at k i)" for i
    using d(8) [OF that(1,2)] that(3) v [OF that(1)] v unfolding life_view(3) [symmetric] life_view(2) [symmetric] by auto
  ultimately show "process_tree k"
    unfolding process_tree_def using d(2-4) l v unfolding life_view(2) [symmetric] by auto
next
  assume P: "process_tree k"
  have l: "length (procs k) = NPROC" using P by (simp add: process_tree_def)
  have v: "map view (procs k) ! i = view (proc_at k i)" if "i < NPROC" for i using that l by simp
  show "tree (tbl k)"
    unfolding tbl_def
  proof (rule treeI, goal_cases)
    case 1
    then show ?case using l by simp
  next
    case 2
    then show ?case using P by (simp add: process_tree_def)
  next
    case 3
    then show ?case using P v life_view(2) unfolding process_tree_def by auto
  next
    case 4
    then show ?case using P v by (simp add: process_tree_def)
  next
    case (5 i)
    then show ?case using P v life_view(1) unfolding process_tree_def by (metis view_fields(1))
  next
    case (6 i)
    then have "p_state (proc_at k i) \<noteq> UNUSED" using v life_view(1) by simp
    then have "0 < p_pid (proc_at k i) \<and> p_pid (proc_at k i) < nextpid k" using P 6(1) by (auto simp: process_tree_def)
    then show ?case using v 6(1) by simp
  next
    case (7 i j)
    then show ?case using P v by (auto simp: process_tree_def life_view(1))
  next
    case (8 i)
    then have "has_process (proc_at k i)" using v life_view(3) by simp
    then show ?case using P v 8 unfolding process_tree_def life_view(2) [symmetric] by auto
  qed
qed

subsection \<open>Runs\<close>

text \<open>
  A process that slept in the kernel goes on with the loop it slept in, and then with the rest of \<^verbatim>\<open>usertrap\<close>. The last
  rule is for the calls that sleep inside the file system, in the middle of a function: what is left of them is not a
  definition of its own, so the rule lets it be any operation that leaves the process table alone, as all of them do.
\<close>

inductive pending :: "nat \<Rightarrow> (kernel, int) prog \<Rightarrow> bool" for p where
  "pending p (wait p addr)"
| "pending p (sys_sleep_loop p n t0)"
| "pending p (piperead p pi addr n)"
| "pending p (pipewrite_from fuel p pi addr n i)"
| "pending p (consoleread_loop fuel p target dst n)"
| "pending p (consolewrite_from fuel p src n i)"
| "quiet p m \<Longrightarrow> pending p m"

definition go_on :: "nat \<Rightarrow> (kernel, int) prog \<Rightarrow> (system, u64 \<times> u64) prog" where
  "go_on p m =
     andthen (in_k (awake p))
     (bnd (in_k m) (\<lambda>r.
      andthen (in_k (tf_set p tf_a0 (word_of_int r)))
      (usertrap_end p 0)))"

fun final :: "('s, 'a) res \<Rightarrow> 's" where
  "final (Ok a s) = s"
| "final (Err e s) = s"

text \<open>
  One step: a process or the hardware changes anything but the process table, the scheduler picks a runnable
  process, or the kernel handles a trap of the process \<open>p\<close> that runs (or, for a trap inside the kernel, of no process).
\<close>

inductive step :: "system \<Rightarrow> system \<Rightarrow> bool" where
  outside: "procs (tker t) = procs (tker s) \<Longrightarrow> nextpid (tker t) = nextpid (tker s) \<Longrightarrow> initproc (tker t) = initproc (tker s) \<Longrightarrow> step s t"
| schedule: "p_state (proc_at (tker s) p) = RUNNABLE \<Longrightarrow> step s (tker_update (upd_proc p (p_state_update (\<lambda>_. RUNNING))) s)"
| trap: "p < NPROC \<Longrightarrow> p_state (proc_at (tker s) p) = RUNNING \<Longrightarrow> step s (final (usertrap g pad p s))"
| kernel_trap: "p < NPROC \<and> p_state (proc_at (tker s) p) = RUNNING \<or> p = nullproc \<Longrightarrow> step s (final (kerneltrap p s))"
| first_return: "p < NPROC \<Longrightarrow> p_state (proc_at (tker s) p) = RUNNING \<Longrightarrow> step s (final (forkret p s))"
| resumed: "p < NPROC \<Longrightarrow> p_state (proc_at (tker s) p) = RUNNING \<Longrightarrow> pending p m \<Longrightarrow> step s (final (go_on p m s))"
| exiting: "p < NPROC \<Longrightarrow> p_state (proc_at (tker s) p) = RUNNING \<Longrightarrow> p \<noteq> initproc (tker s) \<Longrightarrow> quiet p (m :: (kernel, unit) prog) \<Longrightarrow>
    step s (final (in_k (andthen m (andthen (become_zombie p status) (sched p) :: (kernel, unit) prog)) s))"
| yielded: "p < NPROC \<Longrightarrow> p_state (proc_at (tker s) p) = RUNNING \<Longrightarrow> step s (final (usertrapret p s))"
| kernel_yielded: "step s (final (kerneltrap_end epc status s))"

lemma keeps_final: "keeps tree tker P m Q \<Longrightarrow> tree (tbl (tker s)) \<Longrightarrow> P (tbl (tker s)) \<Longrightarrow> tree (tbl (tker (final (m s))))"
  by (cases "m s") (auto dest: keepsD)

lemma calm_final: "calm p m \<Longrightarrow> tree (tbl (tker s)) \<Longrightarrow> present p (tbl (tker s)) \<Longrightarrow> tree (tbl (tker (final (m s))))"
  by (rule keeps_final [OF calm_keeps [where P = "present p"]])

lemma keeps_pending: "pending p m \<Longrightarrow> keepsk (living p) m (\<lambda>_. living p)"
  by (induction rule: pending.induct) (intro keeps_wait keepsk_quiet quiet; assumption)+

lemma running_living: "p < NPROC \<Longrightarrow> p_state (proc_at (tker s) p) = RUNNING \<Longrightarrow> tree (tbl (tker s)) \<Longrightarrow> living p (tbl (tker s))"
  using tree_procs [of "tker s"] by (auto simp: living_def tbl_def view_def)

lemma step_tree: "step s t \<Longrightarrow> tree (tbl (tker s)) \<Longrightarrow> nextpid (tker s) < 2 ^ 31 - 1 \<Longrightarrow> tree (tbl (tker t))"
proof (induction rule: step.induct)
  case (outside t s)
  then show ?case using tbl_cong [of "tker t" "tker s"] by simp
next
  case (schedule s p)
  then have "tbl (upd_proc p (p_state_update (\<lambda>_. RUNNING)) (tker s)) = tbl (tker s)" by (intro tbl_upd_proc) (simp add: view_def)
  then show ?case using schedule by simp
next
  case (trap p s g pad)
  then have "forkable p (tbl (tker s))" using running_living [of p s] by (simp add: forkable_def pids_left_def tbl_def)
  then show ?case using trap by (intro keeps_final [OF keeps_usertrap])
next
  case (kernel_trap p s)
  then show ?case using tree_procs [of "tker s"] by (intro calm_final [OF calm_kerneltrap]) (auto simp: present_def view_def tbl_def)
next
  case (first_return p s)
  then show ?case by (intro calm_final [OF calm_forkret] living_present running_living)
next
  case (resumed p s m)
  have "keeps tree tker (living p) (go_on p m) (\<lambda>_. living p)"
    unfolding go_on_def
    by (intro keeps_live keeps_usertrap_end keeps_in_k keeps_pending [OF resumed(3)]; rule keepsk_quiet; intro quiet)
  then show ?case using keeps_final resumed running_living by blast
next
  case (exiting p s m status)
  have l: "leaving p 0 (tbl (tker s))" using exiting running_living [of p s] by (simp add: leaving_def tbl_def)
  show ?case
    by (rule keeps_final [OF keeps_in_k [OF keeps_andthen [OF keeps_leaving [OF exiting(4)] keeps_die [where Q = "\<lambda>_ _. True"]]]])
      (rule exiting(5), rule l)
next
  case (yielded p s)
  then show ?case by (intro calm_final [OF calm_usertrapret] living_present running_living)
next
  case (kernel_yielded s epc status)
  then show ?case using tree_procs [of "tker s"] by (intro calm_final [OF calm_intr(9), where p = nullproc]) (auto simp: present_def tbl_def)
qed

subsection \<open>The process tree of a running system\<close>

text \<open>Parents are older than their children, so every line of ancestors ends in \<^verbatim>\<open>init\<close>.\<close>

lemma ancestors:
  assumes "process_tree k" and "i < NPROC" and "has_process (proc_at k i)"
  shows "(child_of k)\<^sup>*\<^sup>* i (initproc k)"
  using assms(2,3)
proof (induction "nat (p_pid (proc_at k i))" arbitrary: i rule: less_induct)
  case less
  show ?case
  proof (cases "i = initproc k")
    case False
    let ?j = "p_parent (proc_at k i)"
    have j: "?j < NPROC" "p_state (proc_at k ?j) \<in> {SLEEPING, RUNNABLE, RUNNING}" "p_pid (proc_at k ?j) < p_pid (proc_at k i)"
      using assms(1) less.prems False by (auto simp: process_tree_def)
    then have "has_process (proc_at k ?j)" by (auto simp: has_process_def)
    moreover have "p_state (proc_at k i) \<noteq> UNUSED" using less.prems(2) by (auto simp: has_process_def)
    then have "0 < p_pid (proc_at k i)" using assms(1) less.prems(1) by (auto simp: process_tree_def)
    ultimately have "(child_of k)\<^sup>*\<^sup>* ?j (initproc k)" using less.hyps [of ?j] j by simp
    moreover have "child_of k i ?j" using less.prems False by (simp add: child_of_def)
    ultimately show ?thesis by (rule converse_rtranclp_into_rtranclp [rotated])
  qed simp
qed

text \<open>The table of a kernel just loaded becomes a tree with \<^verbatim>\<open>main\<close>.\<close>

lemma boot_process_tree:
  assumes "main_first rd g s = Ok () t" and "length (procs (tker s)) = NPROC" and "nextpid (tker s) = 1"
    and "\<And>x. x \<in> set (procs (tker s)) \<Longrightarrow> p_state x = UNUSED \<and> p_pid x = 0"
  shows "process_tree (tker t)"
proof -
  have "blank (tbl (tker s))" using assms(2-4) by (simp add: blank_def tbl_def view_def)
  then show ?thesis using keepsD(1) [OF boots_main _ _ assms(1)] tree_process_tree by simp
qed

text \<open>
  A step of the system while there are identifiers left: \<^verbatim>\<open>nextpid\<close> is a 32-bit \<^verbatim>\<open>int\<close>, and has not been counted up to the
  largest one.
\<close>

definition pid_step :: "system \<Rightarrow> system \<Rightarrow> bool" where
  "pid_step s t \<longleftrightarrow> step s t \<and> nextpid (tker s) < 2 ^ 31 - 1"

text \<open>
  C40: the process table is a tree in every state the system runs into before \<^verbatim>\<open>nextpid\<close>, a 32-bit \<^verbatim>\<open>int\<close>, has counted to its largest value, also
  when a system call, an interrupt or the creation or death of a process ends in the middle, asleep or in a panic. Process identifiers
  are unique and below the next one to be given out, \<^verbatim>\<open>init\<close> has identifier 1 and never dies, and every process, dead or alive, has a parent that is
  alive and older, so that its ancestors lead to \<^verbatim>\<open>init\<close>: a process that exits leaves no orphan behind, and no zombie
  is without a parent that can wait for it.
\<close>

theorem tree_invariant:
  assumes "process_tree (tker s)" and "pid_step\<^sup>*\<^sup>* s t"
  shows "process_tree (tker t) \<and> (\<forall>i<NPROC. has_process (proc_at (tker t) i) \<longrightarrow> (child_of (tker t))\<^sup>*\<^sup>* i (initproc (tker t)))"
proof -
  have "process_tree (tker t)"
    using assms(2,1) by induction (auto dest: step_tree simp: tree_process_tree pid_step_def)
  then show ?thesis using ancestors by blast
qed

text \<open>\<^verbatim>\<open>init\<close> calls \<^verbatim>\<open>wait\<close> with a zombie as its child.\<close>

definition sample_family :: kernel where
  "sample_family = (upd_proc 1 (\<lambda>x. x\<lparr>p_state := ZOMBIE, p_pid := 2, p_parent := 0\<rparr>) (sample_caller 3))\<lparr>nextpid := 3\<rparr>"

lemma sample_family_simps:
  "p_state (proc_at sample_family i) = (if i = 0 then RUNNING else if i = 1 then ZOMBIE else UNUSED)"
  "p_pid (proc_at sample_family i) = (if i = 0 then 1 else if i = 1 then 2 else 0)" "p_parent (proc_at sample_family (Suc 0)) = 0"
  if "i < NPROC"
  using that by (simp_all add: sample_family_def sample_caller_def upd_proc_def sample_kernel_def sample_proc_def nth_list_update NPROC_def)

theorem tree_invariant_witness:
  "process_tree (tker (final (usertrap [] [] 0 (sample_system sample_family))))"
proof -
  let ?s = "sample_system sample_family"
  have l: "length (procs sample_family) = NPROC" "initproc sample_family = 0" "nextpid sample_family = 3"
    by (simp_all add: sample_family_def sample_caller_def upd_proc_def tf_store_def)
  have "process_tree sample_family"
    unfolding process_tree_def has_process_def using l by (simp add: sample_family_simps) (auto simp: sample_family_simps NPROC_def)
  then have "process_tree (tker ?s)" by (simp add: sample_system_def)
  moreover have "step ?s (final (usertrap [] [] 0 ?s))"
    by (rule step.trap) (simp_all add: NPROC_def sample_system_def sample_family_simps)
  then have "pid_step ?s (final (usertrap [] [] 0 ?s))" using l by (simp add: pid_step_def sample_system_def)
  ultimately show ?thesis using tree_invariant by blast
qed

end
