(* ===== verification/Shell.thy ===== *)
theory Shell
  imports Printf
begin

text \<open>
  \<^verbatim>\<open>user/sh.c\<close>, the shell: the commands, the parser with its token functions, \<^verbatim>\<open>nulterminate\<close>, and \<^verbatim>\<open>runcmd\<close> and
  \<^verbatim>\<open>main\<close> as the trees of system calls they make.

  A pointer into the line is its offset. The buffer \<open>b\<close> is the array \<^verbatim>\<open>buf\<close> with the line, its NUL and whatever
  follows; the state of the parser is \<^verbatim>\<open>*ps\<close>. A command is a tree of the structures that the constructors allocate
  (a failing \<^verbatim>\<open>malloc\<close> is not represented), over the type of words: pairs of \<^verbatim>\<open>q\<close> and \<^verbatim>\<open>eq\<close> in the parser, strings
  in specifications. A panic of the shell is the failure \<open>Panic\<close>.
\<close>

subsection \<open>Commands\<close>

datatype 'w cmd =
    EXEC "'w list"
  | REDIR "'w cmd" 'w int nat
  | PIPE "'w cmd" "'w cmd"
  | LIST "'w cmd" "'w cmd"
  | BACK "'w cmd"

type_synonym word_at = "nat \<times> nat"

definition MAXARGS :: nat where [const_defs]: "MAXARGS = 10"

text \<open>The constructors: the node that \<^verbatim>\<open>malloc\<close> and \<^verbatim>\<open>memset\<close> provide, with its fields set.\<close>

definition execcmd :: "'w cmd" where [simp]: "execcmd = EXEC []"

definition redircmd :: "'w cmd \<Rightarrow> 'w \<Rightarrow> int \<Rightarrow> nat \<Rightarrow> 'w cmd" where [simp]: "redircmd c f mode fd = REDIR c f mode fd"

definition pipecmd :: "'w cmd \<Rightarrow> 'w cmd \<Rightarrow> 'w cmd" where [simp]: "pipecmd l r = PIPE l r"

definition listcmd :: "'w cmd \<Rightarrow> 'w cmd \<Rightarrow> 'w cmd" where [simp]: "listcmd l r = LIST l r"

definition backcmd :: "'w cmd \<Rightarrow> 'w cmd" where [simp]: "backcmd c = BACK c"

text \<open>Storing the argument vector in the \<^verbatim>\<open>execcmd\<close> that \<^verbatim>\<open>parseredirs\<close> may have wrapped.\<close>

fun set_argv :: "'w list \<Rightarrow> 'w cmd \<Rightarrow> 'w cmd" where
  "set_argv args (EXEC _) = EXEC args"
| "set_argv args (REDIR c f mode fd) = REDIR (set_argv args c) f mode fd"
| "set_argv args c = c"

subsection \<open>Tokens\<close>

definition whitespace :: "u8 list" where "whitespace = [32, 9, 13, 10, 11]"

definition symbols :: "u8 list" where "symbols = ascii ''<|>&;()''"

function skip_white :: "u8 list \<Rightarrow> nat \<Rightarrow> nat \<Rightarrow> nat" where
  "skip_white b es s = (if s < es \<and> strchr whitespace (b ! s) \<noteq> None then skip_white b es (Suc s) else s)"
  by pat_completeness auto
termination
  by (relation "measure (\<lambda>(_, es, s). es - s)") auto

function skip_word :: "u8 list \<Rightarrow> nat \<Rightarrow> nat \<Rightarrow> nat" where
  "skip_word b es s =
     (if s < es \<and> strchr whitespace (b ! s) = None \<and> strchr symbols (b ! s) = None then skip_word b es (Suc s) else s)"
  by pat_completeness auto
termination
  by (relation "measure (\<lambda>(_, es, s). es - s)") auto

declare skip_white.simps [simp del] skip_word.simps [simp del]

text \<open>Reading a character of the buffer.\<close>

definition rd :: "u8 list \<Rightarrow> nat \<Rightarrow> ('s, u8) prog" where
  "rd b s = (if s < length b then ret (b ! s) else fails (Fault ''sh''))"

text \<open>\<^verbatim>\<open>gettoken\<close> returns the token, \<^verbatim>\<open>*q\<close> and \<^verbatim>\<open>*eq\<close>.\<close>

definition gettoken :: "u8 list \<Rightarrow> nat \<Rightarrow> (nat, u8 \<times> word_at) prog" where
  "gettoken b es =
     bnd (gets (skip_white b es)) (\<lambda>q.
     bnd (rd b q) (\<lambda>c.
     bnd (if c = 0 then ret (c, q)
          else if c \<in> set (ascii ''|();&<'') then ret (c, Suc q)
          else if c = of_char CHR ''>'' then
            bnd (rd b (Suc q)) (\<lambda>d.
            if d = of_char CHR ''>'' then ret (of_char CHR ''+'', Suc (Suc q)) else ret (c, Suc q))
          else ret (of_char CHR ''a'', skip_word b es q)) (\<lambda>(tok, s).
     andthen (modify (\<lambda>_. skip_white b es s)) (ret (tok, q, s)))))"

text \<open>\<^verbatim>\<open>peek\<close>.\<close>

definition peek_tok :: "u8 list \<Rightarrow> nat \<Rightarrow> u8 list \<Rightarrow> (nat, bool) prog" where
  "peek_tok b es toks =
     andthen (modify (skip_white b es))
     (bnd (gets (\<lambda>s. s)) (\<lambda>s.
      bnd (rd b s) (\<lambda>c. ret (c \<noteq> 0 \<and> strchr toks c \<noteq> None))))"

subsection \<open>The parser\<close>

text \<open>The mode and the descriptor of a redirection.\<close>

definition redir_of :: "u8 \<Rightarrow> word_at \<Rightarrow> word_at cmd \<Rightarrow> word_at cmd" where
  "redir_of tok f c =
     (if tok = of_char CHR ''<'' then redircmd c f O_RDONLY 0
      else if tok = of_char CHR ''>'' then redircmd c f (O_WRONLY OR O_CREATE OR O_TRUNC) 1
      else if tok = of_char CHR ''+'' then redircmd c f (O_WRONLY OR O_CREATE) 1
      else c)"

text \<open>Every round of a loop consumes a character of the line, so that \<open>Suc es\<close> rounds are enough.\<close>

primrec parseredirs_loop :: "nat \<Rightarrow> u8 list \<Rightarrow> nat \<Rightarrow> word_at cmd \<Rightarrow> (nat, word_at cmd) prog" where
  "parseredirs_loop 0 b es c = fails (Fault ''out of fuel'')"
| "parseredirs_loop (Suc n) b es c =
     bnd (peek_tok b es (ascii ''<>'')) (\<lambda>r.
     if r then
       bnd (gettoken b es) (\<lambda>(tok, _).
       bnd (gettoken b es) (\<lambda>(t, f).
       if t \<noteq> of_char CHR ''a'' then panic ''missing file for redirection''
       else parseredirs_loop n b es (redir_of tok f c)))
     else ret c)"

definition parseredirs :: "u8 list \<Rightarrow> nat \<Rightarrow> word_at cmd \<Rightarrow> (nat, word_at cmd) prog" where
  "parseredirs b es c = parseredirs_loop (Suc es) b es c"

text \<open>The argument loop of \<^verbatim>\<open>parseexec\<close>: \<open>args\<close> are the words stored so far, \<open>c\<close> is \<^verbatim>\<open>ret\<close>.\<close>

primrec parseargs :: "nat \<Rightarrow> u8 list \<Rightarrow> nat \<Rightarrow> word_at list \<Rightarrow> word_at cmd \<Rightarrow> (nat, word_at cmd) prog" where
  "parseargs 0 b es args c = fails (Fault ''out of fuel'')"
| "parseargs (Suc n) b es args c =
     bnd (peek_tok b es (ascii ''|)&;'')) (\<lambda>r.
     if r then ret (set_argv args c)
     else
       bnd (gettoken b es) (\<lambda>(tok, w).
       if tok = 0 then ret (set_argv args c)
       else if tok \<noteq> of_char CHR ''a'' then panic ''syntax''
       else
         let args = args @ [w] in
         if length args \<ge> MAXARGS then panic ''too many args''
         else bnd (parseredirs b es c) (parseargs n b es args)))"

text \<open>The loop over \<^verbatim>\<open>&\<close> of \<^verbatim>\<open>parseline\<close>.\<close>

primrec parsebacks :: "nat \<Rightarrow> u8 list \<Rightarrow> nat \<Rightarrow> word_at cmd \<Rightarrow> (nat, word_at cmd) prog" where
  "parsebacks 0 b es c = fails (Fault ''out of fuel'')"
| "parsebacks (Suc n) b es c =
     bnd (peek_tok b es (ascii ''&'')) (\<lambda>r.
     if r then andthen (gettoken b es) (parsebacks n b es (backcmd c)) else ret c)"

fun parseline :: "nat \<Rightarrow> u8 list \<Rightarrow> nat \<Rightarrow> (nat, word_at cmd) prog"
and parsepipe :: "nat \<Rightarrow> u8 list \<Rightarrow> nat \<Rightarrow> (nat, word_at cmd) prog"
and parseexec :: "nat \<Rightarrow> u8 list \<Rightarrow> nat \<Rightarrow> (nat, word_at cmd) prog"
and parseblock :: "nat \<Rightarrow> u8 list \<Rightarrow> nat \<Rightarrow> (nat, word_at cmd) prog" where
  "parseline 0 b es = fails (Fault ''out of fuel'')"
| "parseline (Suc n) b es =
     bnd (parsepipe n b es) (\<lambda>c.
     bnd (parsebacks (Suc es) b es c) (\<lambda>c.
     bnd (peek_tok b es (ascii '';'')) (\<lambda>r.
     if r then andthen (gettoken b es) (bnd (parseline n b es) (\<lambda>c'. ret (listcmd c c'))) else ret c)))"
| "parsepipe 0 b es = fails (Fault ''out of fuel'')"
| "parsepipe (Suc n) b es =
     bnd (parseexec n b es) (\<lambda>c.
     bnd (peek_tok b es (ascii ''|'')) (\<lambda>r.
     if r then andthen (gettoken b es) (bnd (parsepipe n b es) (\<lambda>c'. ret (pipecmd c c'))) else ret c))"
| "parseexec 0 b es = fails (Fault ''out of fuel'')"
| "parseexec (Suc n) b es =
     bnd (peek_tok b es (ascii ''('')) (\<lambda>r.
     if r then parseblock n b es
     else bnd (parseredirs b es execcmd) (parseargs (Suc es) b es []))"
| "parseblock 0 b es = fails (Fault ''out of fuel'')"
| "parseblock (Suc n) b es =
     bnd (peek_tok b es (ascii ''('')) (\<lambda>r.
     if \<not> r then panic ''parseblock''
     else
       andthen (gettoken b es)
       (bnd (parseline n b es) (\<lambda>c.
        bnd (peek_tok b es (ascii '')'')) (\<lambda>r.
        if \<not> r then panic ''syntax - missing )''
        else andthen (gettoken b es) (parseredirs b es c)))))"

subsection \<open>Terminating the words\<close>

text \<open>\<^verbatim>\<open>nulterminate\<close> stores a NUL behind every word.\<close>

definition put_nul :: "nat \<Rightarrow> (u8 list, unit) prog" where
  "put_nul i = bnd (gets length) (\<lambda>n. andthen (guard (i < n) (Fault ''nulterminate'')) (modify (\<lambda>b. b[i := 0])))"

primrec nulterminate :: "word_at cmd \<Rightarrow> (u8 list, unit) prog" where
  "nulterminate (EXEC args) = for_each args (\<lambda>(q, eq). put_nul eq)"
| "nulterminate (REDIR c f mode fd) = andthen (nulterminate c) (put_nul (snd f))"
| "nulterminate (PIPE l r) = andthen (nulterminate l) (nulterminate r)"
| "nulterminate (LIST l r) = andthen (nulterminate l) (nulterminate r)"
| "nulterminate (BACK c) = nulterminate c"

text \<open>
  \<^verbatim>\<open>parsecmd\<close>, on the line buffer. The bound on the depth of the calls: every call of \<^verbatim>\<open>parseline\<close> or \<^verbatim>\<open>parsepipe\<close> from
  inside consumes a character, and between two of them there are at most four calls.
\<close>

definition parsecmd :: "(u8 list, word_at cmd) prog" where
  "parsecmd =
     bnd (gets (\<lambda>b. b)) (\<lambda>b.
     case ustrlen b of
       None \<Rightarrow> fails (Fault ''strlen'')
     | Some es \<Rightarrow>
         case bnd (parseline (4 * es + 4) b es) (\<lambda>c. andthen (peek_tok b es []) (ret c)) 0 of
           Err e _ \<Rightarrow> fails e
         | Ok c s \<Rightarrow>
             if s \<noteq> es then panic ''syntax''
             else andthen (nulterminate c) (ret c))"

subsection \<open>System calls\<close>

text \<open>
  What a process of the shell does next, as a tree over the results of its system calls: \<^verbatim>\<open>fork\<close> returns in the child (0)
  and in the parent, \<^verbatim>\<open>pipe\<close> gives its result and the two descriptors, \<^verbatim>\<open>exec\<close> goes on only if it fails. The output of
  one \<^verbatim>\<open>fprintf\<close> is one \<open>Write\<close>; \<open>Undefined\<close> stands for undefined behaviour.
\<close>

datatype act =
    Exit int
  | Exec "u8 list" "u8 list list" act
  | Open "u8 list" int "int \<Rightarrow> act"
  | Close int act
  | Dup int "int \<Rightarrow> act"
  | Pipe "int \<Rightarrow> int \<Rightarrow> int \<Rightarrow> act"
  | Fork "int \<Rightarrow> act"
  | Wait act
  | Write int "u8 list" act
  | Chdir "u8 list" "int \<Rightarrow> act"
  | Undefined

definition fprintf :: "int \<Rightarrow> u8 list \<Rightarrow> arg list \<Rightarrow> act \<Rightarrow> act" where
  "fprintf fd fmt ap k = (case vprintf False fmt ap of None \<Rightarrow> Undefined | Some out \<Rightarrow> Write fd out k)"

text \<open>\<^verbatim>\<open>panic\<close> of the shell.\<close>

definition sh_panic :: "u8 list \<Rightarrow> act" where
  "sh_panic s = fprintf 2 (ascii ''%s'' @ [10]) [AStr (Some s)] (Exit 1)"

definition fork1 :: "(int \<Rightarrow> act) \<Rightarrow> act" where
  "fork1 k = Fork (\<lambda>pid. if pid = - 1 then sh_panic (ascii ''fork'') else k pid)"

primrec runcmd :: "u8 list cmd \<Rightarrow> act" where
  "runcmd (EXEC args) =
     (case args of
        [] \<Rightarrow> Exit 1
      | arg # _ \<Rightarrow> Exec arg args (fprintf 2 (ascii ''exec %s failed'' @ [10]) [AStr (Some arg)] (Exit 0)))"
| "runcmd (REDIR c f mode fd) =
     Close (int fd) (Open f mode (\<lambda>r.
       if r < 0 then fprintf 2 (ascii ''open %s failed'' @ [10]) [AStr (Some f)] (Exit 1) else runcmd c))"
| "runcmd (LIST l r) = fork1 (\<lambda>pid. if pid = 0 then runcmd l else Wait (runcmd r))"
| "runcmd (PIPE l r) =
     Pipe (\<lambda>res p0 p1.
       if res < 0 then sh_panic (ascii ''pipe'')
       else
         fork1 (\<lambda>pid.
           if pid = 0 then Close 1 (Dup p1 (\<lambda>_. Close p0 (Close p1 (runcmd l))))
           else
             fork1 (\<lambda>pid.
               if pid = 0 then Close 0 (Dup p0 (\<lambda>_. Close p0 (Close p1 (runcmd r))))
               else Close p0 (Close p1 (Wait (Wait (Exit 0)))))))"
| "runcmd (BACK c) = fork1 (\<lambda>pid. if pid = 0 then runcmd c else Exit 0)"

text \<open>The string at a position of the buffer, and the command with the strings of its words.\<close>

definition str_at :: "u8 list \<Rightarrow> nat \<Rightarrow> u8 list" where
  "str_at b q = takeWhile (\<lambda>c. c \<noteq> 0) (drop q b)"

definition strings :: "u8 list \<Rightarrow> word_at cmd \<Rightarrow> u8 list cmd" where
  "strings b c = map_cmd (\<lambda>w. str_at b (fst w)) c"

subsection \<open>The main loop\<close>

text \<open>
  \<^verbatim>\<open>getcmd\<close>: the buffer of 100 bytes after \<^verbatim>\<open>memset\<close> and \<^verbatim>\<open>gets\<close>, and the rest of the input.
\<close>

definition getcmd :: "u8 list \<Rightarrow> u8 list \<times> u8 list" where
  "getcmd inp = (let (line, rest) = ugets 100 inp in (line @ replicate (100 - length line) 0, rest))"

text \<open>The child that runs one line; the text about left-over input that precedes the message \<^verbatim>\<open>syntax\<close> is not represented.\<close>

definition run_line :: "u8 list \<Rightarrow> act" where
  "run_line buf =
     (case parsecmd buf of
        Ok c b \<Rightarrow> runcmd (strings b c)
      | Err (Panic msg) _ \<Rightarrow> sh_panic (ascii msg)
      | _ \<Rightarrow> Undefined)"

lemma gets_loop_shorter: "gets_loop i max' inp = (line, rest) \<Longrightarrow> line \<noteq> [] \<Longrightarrow> length rest < length inp"
proof (induction i max' inp arbitrary: line rest rule: gets_loop.induct)
  case (1 i max' inp)
  note s = gets_loop.simps [of i max' inp]
  show ?case
  proof (cases inp)
    case Nil
    then show ?thesis using 1(2,3) s by (simp split: if_splits)
  next
    case (Cons c inp')
    have "length rest' \<le> length inp'" if "gets_loop (Suc i) max' inp' = (line', rest')" "int i + 1 < max'" "\<not> (c = 10 \<or> c = 13)" for line' rest'
    proof (cases "line' = []")
      case True
      then show ?thesis using that by (subst (asm) gets_loop.simps) (auto split: if_splits list.splits prod.splits)
    next
      case False
      then show ?thesis using 1(1) [OF that(2) Cons that(3,1)] by simp
    qed
    then show ?thesis using 1(2,3) s Cons by (auto split: if_splits prod.splits simp: less_Suc_eq_le)
  qed
qed

lemma getcmd_shorter: "getcmd inp = (buf, rest) \<Longrightarrow> buf ! 0 \<noteq> 0 \<Longrightarrow> length rest < length inp"
  using gets_loop_shorter [of 0 100 inp] by (cases "fst (gets_loop 0 100 inp)") (auto simp: getcmd_def ugets_def split: prod.splits)

function main_loop :: "u8 list \<Rightarrow> act" where
  "main_loop inp =
     (let (buf, rest) = getcmd inp in
      Write 2 (ascii ''$ '')
       (if buf ! 0 = 0 then Exit 0
        else if buf ! 0 = of_char CHR ''c'' \<and> buf ! 1 = of_char CHR ''d'' \<and> buf ! 2 = 32 then
          (case ustrlen buf of
             None \<Rightarrow> Undefined
           | Some n \<Rightarrow>
               let dir = str_at (buf[n - 1 := 0]) 3 in
               Chdir dir (\<lambda>r.
                 if r < 0 then fprintf 2 (ascii ''cannot cd %s'' @ [10]) [AStr (Some dir)] (main_loop rest)
                 else main_loop rest))
        else fork1 (\<lambda>pid. if pid = 0 then run_line buf else Wait (main_loop rest))))"
  by pat_completeness auto
termination
  by (relation "measure length") (auto intro: getcmd_shorter [OF sym])

declare main_loop.simps [simp del]

text \<open>The loop that opens the console until three descriptors are open; a fourth is closed again, so that four rounds are enough.\<close>

primrec open_console :: "nat \<Rightarrow> act \<Rightarrow> act" where
  "open_console 0 k = Undefined"
| "open_console (Suc n) k =
     Open (ascii ''console'') O_RDWR (\<lambda>fd.
       if fd < 0 then k else if fd \<ge> 3 then Close fd k else open_console n k)"

definition sh_main :: "u8 list \<Rightarrow> act" where
  "sh_main inp = open_console 4 (main_loop inp)"

end
