(* ===== verification/Shparse.thy ===== *)
theory Shparse
  imports Shell
begin

text \<open>
  The parser of the shell: it ends on every line without reading or writing outside the line, the words it finds are
  words of the line that \<^verbatim>\<open>nulterminate\<close> makes strings, and it reads back every command as it is printed.
\<close>

subsection \<open>Programs that may stop with a message\<close>

definition outcome :: "fail set \<Rightarrow> ('s, 'a) prog \<Rightarrow> ('a \<Rightarrow> 's \<Rightarrow> bool) \<Rightarrow> 's \<Rightarrow> bool" where
  "outcome E m Q s \<longleftrightarrow> (case m s of Ok a t \<Rightarrow> Q a t | Err e _ \<Rightarrow> e \<in> E)"

lemma outcome_ret [simp]: "outcome E (ret a) Q s \<longleftrightarrow> Q a s"
  by (simp add: outcome_def ret_def)

lemma outcome_fails [simp]: "outcome E (fails e) Q s \<longleftrightarrow> e \<in> E"
  by (simp add: outcome_def fails_def)

lemma outcome_bnd: "outcome E (bnd m f) Q = outcome E m (\<lambda>a. outcome E (f a) Q)"
  by (rule ext) (simp add: outcome_def bnd_def split: res.split)

lemma outcome_andthen: "outcome E (andthen m n) Q = outcome E m (\<lambda>_. outcome E n Q)"
  by (simp add: andthen_def outcome_bnd)

lemma outcome_mono: "outcome E m P s \<Longrightarrow> (\<And>a t. P a t \<Longrightarrow> Q a t) \<Longrightarrow> outcome E m Q s"
  by (auto simp: outcome_def split: res.splits)

lemma wp_outcome: "wp m P s \<Longrightarrow> (\<And>a t. P a t \<Longrightarrow> Q a t) \<Longrightarrow> outcome E m Q s"
  by (auto simp: outcome_def wp_def split: res.splits)

lemma outcome_wp: "outcome E m P s \<Longrightarrow> wp m Q s \<Longrightarrow> wp m (\<lambda>a t. P a t \<and> Q a t) s"
  by (auto simp: outcome_def wp_def split: res.splits)

subsection \<open>Characters\<close>

lemma strchr_loop_None: "strchr_loop xs c i = None \<longleftrightarrow> c \<notin> set xs"
  by (induction xs c i rule: strchr_loop.induct) auto

lemma strchr_None [simp]: "strchr xs c = None \<longleftrightarrow> c \<notin> set xs"
  by (simp add: strchr_def strchr_loop_None)

definition white :: "u8 \<Rightarrow> bool" where
  "white c \<longleftrightarrow> c \<in> set whitespace"

definition wordc :: "u8 \<Rightarrow> bool" where
  "wordc c \<longleftrightarrow> c \<noteq> 0 \<and> \<not> white c \<and> c \<notin> set symbols"

lemma chars [simp]:
  "set (ascii ''<|>&;()'') = {60, 124, 62, 38, 59, 40, 41}" "set (ascii ''|();&<'') = {124, 40, 41, 59, 38, 60}"
  "set (ascii ''<>'') = {60, 62}" "set (ascii ''|)&;'') = {124, 41, 38, 59}" "set (ascii ''&'') = {38}" "set (ascii '';'') = {59}"
  "set (ascii ''|'') = {124}" "set (ascii ''('') = {40}" "set (ascii '')'') = {41}"
  "(of_char CHR ''>'' :: u8) = 62" "(of_char CHR ''+'' :: u8) = 43" "(of_char CHR ''a'' :: u8) = 97" "(of_char CHR ''<'' :: u8) = 60"
  by (simp_all add: ascii_def)

lemma white_iff: "white c \<longleftrightarrow> c = 32 \<or> c = 9 \<or> c = 13 \<or> c = 10 \<or> c = 11"
  by (auto simp: white_def whitespace_def)

lemma wordc_iff: "wordc c \<longleftrightarrow> c \<noteq> 0 \<and> \<not> white c \<and> c \<notin> {60, 124, 62, 38, 59, 40, 41}"
  by (simp add: wordc_def symbols_def)

subsection \<open>The rest of the line\<close>

text \<open>
  The buffer holds the line, a NUL and more. \<open>here line s r\<close>: the position \<open>s\<close> is in the line, and \<open>r\<close> is the part of
  the line from there on.
\<close>

definition buffer :: "u8 list \<Rightarrow> u8 list \<Rightarrow> bool" where
  "buffer b line \<longleftrightarrow> (\<exists>junk. b = line @ 0 # junk) \<and> 0 \<notin> set line"

definition here :: "u8 list \<Rightarrow> nat \<Rightarrow> u8 list \<Rightarrow> bool" where
  "here line s r \<longleftrightarrow> s \<le> length line \<and> drop s line = r"

lemma here_length: "here line s r \<Longrightarrow> length r = length line - s"
  by (auto simp: here_def)

lemma here_Cons: "here line s (c # r) \<Longrightarrow> s < length line \<and> line ! s = c \<and> here line (Suc s) r"
proof -
  assume h: "here line s (c # r)"
  then have "s < length line" by (cases "s = length line") (auto simp: here_def)
  then show ?thesis using h Cons_nth_drop_Suc [of s line] by (simp add: here_def)
qed

lemma here_Nil: "here line s [] \<longleftrightarrow> s = length line"
  by (auto simp: here_def)

lemma buffer_nth: "buffer b line \<Longrightarrow> s < length line \<Longrightarrow> b ! s = line ! s" "buffer b line \<Longrightarrow> b ! length line = 0"
  "buffer b line \<Longrightarrow> length line < length b"
  by (auto simp: buffer_def nth_append)

lemma buffer_rd:
  assumes "buffer b line" and "here line s r"
  shows "rd b s = ret (case r of [] \<Rightarrow> 0 | c # _ \<Rightarrow> c)"
  using assms buffer_nth [OF assms(1)]
  by (cases r) (auto simp: rd_def here_Nil dest!: here_Cons)

lemma skip_white_here:
  assumes "buffer b line" and "here line s r"
  shows "here line (skip_white b (length line) s) (dropWhile white r) \<and> s \<le> skip_white b (length line) s"
  using assms
proof (induction r arbitrary: s)
  case Nil
  then show ?case by (simp add: skip_white.simps here_Nil)
next
  case (Cons c r)
  note h = here_Cons [OF Cons.prems(2)] and n = buffer_nth(1) [OF Cons.prems(1)]
  show ?case
  proof (cases "white c")
    case True
    then have "skip_white b (length line) s = skip_white b (length line) (Suc s)"
      using h n by (subst skip_white.simps) (simp add: white_def)
    then show ?thesis using Cons.IH [OF Cons.prems(1), of "Suc s"] h True by simp
  next
    case False
    then have "skip_white b (length line) s = s" using h n by (subst skip_white.simps) (simp add: white_def)
    then show ?thesis using False Cons.prems by simp
  qed
qed

lemma skip_word_here:
  assumes "buffer b line" and "here line s r"
  shows "here line (skip_word b (length line) s) (dropWhile wordc r) \<and> skip_word b (length line) s = s + length (takeWhile wordc r)"
  using assms
proof (induction r arbitrary: s)
  case Nil
  then show ?case by (simp add: skip_word.simps here_Nil)
next
  case (Cons c r)
  note h = here_Cons [OF Cons.prems(2)] and n = buffer_nth(1) [OF Cons.prems(1)]
  have "c \<noteq> 0" using h Cons.prems(1) by (auto simp: buffer_def in_set_conv_nth)
  then have w: "wordc c \<longleftrightarrow> strchr whitespace (b ! s) = None \<and> strchr symbols (b ! s) = None"
    using h n by (simp add: wordc_def white_def)
  show ?case
  proof (cases "wordc c")
    case True
    then have "skip_word b (length line) s = skip_word b (length line) (Suc s)"
      using h w by (subst skip_word.simps) simp
    then show ?thesis using Cons.IH [OF Cons.prems(1), of "Suc s"] h True by auto
  next
    case False
    then have "skip_word b (length line) s = s" using h w by (subst skip_word.simps) auto
    then show ?thesis using False Cons.prems by simp
  qed
qed

subsection \<open>Tokens\<close>

text \<open>The next token of a string: its code, its text and the string behind it.\<close>

fun scan :: "u8 list \<Rightarrow> u8 \<times> u8 list \<times> u8 list" where
  "scan r =
     (case dropWhile white r of
        [] \<Rightarrow> (0, [], [])
      | c # r' \<Rightarrow>
          if c \<in> {124, 40, 41, 59, 38, 60} then (c, [c], dropWhile white r')
          else if c = 62 then
            (case r' of d # r'' \<Rightarrow> if d = 62 then (43, [62, 62], dropWhile white r'') else (62, [62], dropWhile white r')
             | [] \<Rightarrow> (62, [62], []))
          else (97, takeWhile wordc (c # r'), dropWhile white (dropWhile wordc (c # r'))))"

declare scan.simps [simp del]

definition next_tok :: "u8 list \<Rightarrow> u8" where
  "next_tok r = (case dropWhile white r of [] \<Rightarrow> 0 | c # _ \<Rightarrow> c)"

text \<open>The text of a word of the line, and what makes a word.\<close>

definition text_at :: "u8 list \<Rightarrow> word_at \<Rightarrow> u8 list" where
  "text_at b w = take (snd w - fst w) (drop (fst w) b)"

definition word_ok :: "u8 list \<Rightarrow> nat \<Rightarrow> word_at \<Rightarrow> bool" where
  "word_ok b es w \<longleftrightarrow> fst w < snd w \<and> snd w \<le> es \<and> (\<forall>i. fst w \<le> i \<longrightarrow> i < snd w \<longrightarrow> wordc (b ! i)) \<and> \<not> wordc (b ! snd w)"

lemma wp_peek:
  assumes b: "buffer b line" and h: "here line s r"
  shows "wp (peek_tok b (length line) toks)
    (\<lambda>x t. here line t (dropWhile white r) \<and> x = (next_tok r \<noteq> 0 \<and> next_tok r \<in> set toks) \<and> s \<le> t) s"
proof -
  have "(rd b (skip_white b (length line) s) :: (nat, u8) prog) = ret (case dropWhile white r of [] \<Rightarrow> 0 | c # _ \<Rightarrow> c)"
    using buffer_rd [OF b] skip_white_here [OF b h] by blast
  then show ?thesis using skip_white_here [OF b h] by (simp add: peek_tok_def wp_simps next_tok_def)
qed

lemma nonzero: "buffer b line \<Longrightarrow> here line s r \<Longrightarrow> 0 \<notin> set r"
  by (auto simp: buffer_def here_def dest: in_set_dropD)

lemma word_span:
  assumes b: "buffer b line" and h: "here line s r" and r: "r = c # r'" "wordc c"
  shows "word_ok b (length line) (s, skip_word b (length line) s) \<and>
    text_at b (s, skip_word b (length line) s) = takeWhile wordc r"
proof -
  let ?n = "length (takeWhile wordc r)" let ?e = "s + ?n"
  note e = skip_word_here [OF b h]
  have n: "0 < ?n" using r by simp
  have l: "length r = length line - s" "s \<le> length line" using here_length [OF h] h by (simp_all add: here_def)
  have d: "drop s line = r" using h by (simp add: here_def)
  have le: "?e \<le> length line" using l length_takeWhile_le [of wordc r] by simp
  have nth: "b ! (s + i) = r ! i" if "i < length r" for i
    using that l buffer_nth(1) [OF b, of "s + i"] d by (auto simp: nth_drop [symmetric])
  have "wordc (b ! i)" if "s \<le> i" "i < ?e" for i
  proof -
    have i: "i - s < ?n" using that by simp
    have "b ! i = r ! (i - s)" using nth [of "i - s"] that i length_takeWhile_le [of wordc r] by simp
    also have "\<dots> = takeWhile wordc r ! (i - s)" using i by (simp add: takeWhile_nth)
    finally show ?thesis using i by (metis nth_mem set_takeWhileD)
  qed
  moreover have "\<not> wordc (b ! ?e)"
  proof (cases "?n < length r")
    case True
    then show ?thesis using nth [of ?n] nth_length_takeWhile [of wordc r] by simp
  next
    case False
    then have "?e = length line" using le l length_takeWhile_le [of wordc r] by linarith
    then show ?thesis using buffer_nth(2) [OF b] by (simp add: wordc_def)
  qed
  moreover have "text_at b (s, ?e) = takeWhile wordc r"
  proof -
    obtain junk where "b = line @ 0 # junk" using b by (auto simp: buffer_def)
    then have "take ?n (drop s b) = take ?n r" using d le l by simp
    then show ?thesis using takeWhile_eq_take [of wordc r] by (simp add: text_at_def)
  qed
  ultimately show ?thesis using e n le by (simp add: word_ok_def)
qed

lemma wp_gettoken:
  assumes b: "buffer b line" and h: "here line s r" and L: "scan r = (tok, w, r')"
  shows "wp (gettoken b (length line)) (\<lambda>(x, q) t. x = tok \<and> here line t r' \<and> s \<le> t \<and>
    (tok = 97 \<longrightarrow> word_ok b (length line) q \<and> text_at b q = w)) s"
proof -
  let ?q = "skip_white b (length line) s"
  note q = skip_white_here [OF b h]
  have nz: "0 \<notin> set (dropWhile white r)" using nonzero [OF b] q by blast
  have rdq: "(rd b ?q :: (nat, u8) prog) = ret (case dropWhile white r of [] \<Rightarrow> 0 | c # _ \<Rightarrow> c)" using buffer_rd [OF b] q by blast
  show ?thesis
  proof (cases "dropWhile white r")
    case Nil
    note skip_white_here [OF b conjunct1 [OF q [unfolded Nil]]]
    then show ?thesis using L [unfolded scan.simps Nil] q rdq [unfolded Nil] by (auto simp: gettoken_def wp_simps)
  next
    case (Cons c u)
    have hq: "here line ?q (c # u)" using q Cons by simp
    note h1 = here_Cons [OF this]
    have c0: "c \<noteq> 0" using nz Cons by auto
    have sw1: "here line (skip_white b (length line) (Suc ?q)) (dropWhile white u)" "Suc ?q \<le> skip_white b (length line) (Suc ?q)"
      using skip_white_here [OF b, of "Suc ?q" u] h1 by auto
    consider (sym) "c \<in> {124, 40, 41, 59, 38, 60}" | (gt) "c = 62" | (wd) "wordc c"
      using nz Cons hd_dropWhile [of white r] by (auto simp: wordc_iff)
    then show ?thesis
    proof cases
      case sym
      then show ?thesis using L Cons q rdq sw1 c0 by (auto simp: gettoken_def wp_simps scan.simps)
    next
      case gt
      have rd1: "(rd b (Suc ?q) :: (nat, u8) prog) = ret (case u of [] \<Rightarrow> 0 | c # _ \<Rightarrow> c)" using buffer_rd [OF b] h1 by blast
      show ?thesis
      proof (cases "\<exists>v. u = 62 # v")
        case True
        then obtain v where v: "u = 62 # v" by blast
        have "here line (Suc (Suc ?q)) v" using here_Cons h1 v by blast
        note skip_white_here [OF b this]
        then show ?thesis using L Cons q rdq rd1 v gt by (auto simp: gettoken_def wp_simps scan.simps)
      next
        case False
        then have "(case u of [] \<Rightarrow> 0 | c # _ \<Rightarrow> c) \<noteq> 62" by (auto split: list.split)
        moreover have "scan r = (62, [62], dropWhile white u)" using Cons gt False by (auto simp: scan.simps split: list.split)
        ultimately show ?thesis using L q rdq rd1 gt sw1 Cons by (auto simp: gettoken_def wp_simps)
      qed
    next
      case wd
      let ?e = "skip_word b (length line) ?q"
      note sp = word_span [OF b hq refl wd] and e = skip_word_here [OF b hq]
      have "c \<notin> {124, 40, 41, 59, 38, 60}" "c \<noteq> 62" using wd by (auto simp: wordc_iff)
      moreover have "scan r = (97, takeWhile wordc (c # u), dropWhile white (dropWhile wordc (c # u)))"
        using Cons calculation by (simp add: scan.simps)
      moreover note skip_white_here [OF b conjunct1 [OF e]]
      ultimately show ?thesis using L q rdq c0 sp e Cons by (auto simp: gettoken_def wp_simps)
    qed
  qed
qed

text \<open>Every token but the end of the line makes the rest shorter.\<close>

lemma scan_shorter: "scan r = (tok, w, r') \<Longrightarrow> tok \<noteq> 0 \<Longrightarrow> 0 \<notin> set r \<Longrightarrow> length r' < length r"
proof -
  assume L: "scan r = (tok, w, r')" "tok \<noteq> 0" and nz: "0 \<notin> set r"
  have d: "length (dropWhile P xs) \<le> length xs" for P :: "u8 \<Rightarrow> bool" and xs by (rule length_dropWhile_le)
  show ?thesis
  proof (cases "dropWhile white r")
    case Nil
    then show ?thesis using L(2) L(1) [unfolded scan.simps Nil] by simp
  next
    case (Cons c u)
    have l: "Suc (length u) \<le> length r" using d [of white r] Cons by simp
    have "c \<noteq> 0" using nz Cons by (metis list.set_intros(1) set_dropWhileD)
    moreover have "\<not> white c" using Cons hd_dropWhile [of white r] by auto
    ultimately consider (sym) "c \<in> {124, 40, 41, 59, 38, 60}" | (gt) "c = 62" | (wd) "wordc c" "c \<notin> {124, 40, 41, 59, 38, 60}" "c \<noteq> 62"
      by (auto simp: wordc_iff)
    then show ?thesis
    proof cases
      case sym
      then have "r' = dropWhile white u" using L(1) unfolding scan.simps Cons by (simp only: list.case if_True prod.inject)
      then show ?thesis using l d [of white u] by simp
    next
      case gt
      then have "r' = dropWhile white u \<or> r' = dropWhile white (tl u)"
        using L(1) unfolding scan.simps Cons by (auto split: list.splits if_splits)
      then show ?thesis using l d [of white u] d [of white "tl u"] by auto
    next
      case wd
      then have "r' = dropWhile white (dropWhile wordc u)" using L(1) unfolding scan.simps Cons by simp
      then show ?thesis using l d [of white "dropWhile wordc u"] d [of wordc u] by simp
    qed
  qed
qed

lemma dropWhile_twice: "dropWhile P (dropWhile P xs) = dropWhile P xs"
  by (induction xs) auto

lemma scan_dropWhile [simp]: "scan (dropWhile white r) = scan r" "next_tok (dropWhile white r) = next_tok r"
  by (simp_all add: scan.simps [of "dropWhile white r"] scan.simps [of r] next_tok_def dropWhile_twice)

lemma scan_tok: "scan r = (tok, w, r') \<Longrightarrow> next_tok r \<noteq> 0 \<Longrightarrow> tok \<noteq> 0"
  by (auto simp: scan.simps next_tok_def split: list.splits if_splits)

subsection \<open>The parser ends\<close>

definition syntax_errors :: "fail set" where
  "syntax_errors = {Panic ''missing file for redirection'', Panic ''syntax'', Panic ''too many args'', Panic ''syntax - missing )''}"

text \<open>What makes a command: less than \<open>MAXARGS\<close> words, and the modes and descriptors of the three redirections.\<close>

definition redirections :: "(int \<times> nat) set" where
  "redirections = {(O_RDONLY, 0), (O_WRONLY OR O_CREATE OR O_TRUNC, 1), (O_WRONLY OR O_CREATE, 1)}"

primrec cmd_ok :: "('w \<Rightarrow> bool) \<Rightarrow> 'w cmd \<Rightarrow> bool" where
  "cmd_ok P (EXEC args) \<longleftrightarrow> length args < MAXARGS \<and> list_all P args"
| "cmd_ok P (REDIR c f mode fd) \<longleftrightarrow> cmd_ok P c \<and> P f \<and> (mode, fd) \<in> redirections"
| "cmd_ok P (PIPE l r) \<longleftrightarrow> cmd_ok P l \<and> cmd_ok P r"
| "cmd_ok P (LIST l r) \<longleftrightarrow> cmd_ok P l \<and> cmd_ok P r"
| "cmd_ok P (BACK c) \<longleftrightarrow> cmd_ok P c"

lemma cmd_ok_set_argv: "cmd_ok P c \<Longrightarrow> length args < MAXARGS \<Longrightarrow> list_all P args \<Longrightarrow> cmd_ok P (set_argv args c)"
  by (induction args c rule: set_argv.induct) auto

lemma cmd_ok_redir_of: "cmd_ok P c \<Longrightarrow> P f \<Longrightarrow> cmd_ok P (redir_of tok f c)"
  by (simp add: redir_of_def redirections_def)

definition parsed :: "u8 list \<Rightarrow> u8 list \<Rightarrow> nat \<Rightarrow> word_at cmd \<Rightarrow> nat \<Rightarrow> bool" where
  "parsed b line n c t \<longleftrightarrow> cmd_ok (word_ok b (length line)) c \<and> (\<exists>r. here line t r \<and> length r \<le> n)"

lemma parsed_mono: "parsed b line m c t \<Longrightarrow> m \<le> n \<Longrightarrow> parsed b line n c t"
  by (auto simp: parsed_def)

lemma outcome_peek:
  assumes "buffer b line" and "here line s r"
    and "\<And>t. here line t (dropWhile white r) \<Longrightarrow> outcome E (K (next_tok r \<noteq> 0 \<and> next_tok r \<in> set toks)) Q t"
  shows "outcome E (bnd (peek_tok b (length line) toks) K) Q s"
  unfolding outcome_bnd by (rule wp_outcome [OF wp_peek [OF assms(1,2)]]) (use assms(3) in auto)

lemma outcome_gettoken:
  assumes "buffer b line" and "here line s r"
    and "\<And>tok w q r' t. scan r = (tok, w, r') \<Longrightarrow> here line t r' \<Longrightarrow> (tok = 97 \<Longrightarrow> word_ok b (length line) q) \<Longrightarrow>
      outcome E (K (tok, q)) Q t"
  shows "outcome E (bnd (gettoken b (length line)) K) Q s"
proof -
  obtain tok w r' where L: "scan r = (tok, w, r')" by (cases "scan r") auto
  show ?thesis
    unfolding outcome_bnd
    by (rule wp_outcome [OF wp_gettoken [OF assms(1,2) L]]) (use assms(3) [OF L] in \<open>auto split: prod.splits\<close>)
qed

lemma outcome_if:
  assumes "B \<Longrightarrow> outcome E m Q s" and "\<not> B \<Longrightarrow> outcome E n Q s"
  shows "outcome E (if B then m else n) Q s"
  using assms by auto

lemma parseredirs_total:
  assumes b: "buffer b line"
  shows "here line s r \<Longrightarrow> length r < n \<Longrightarrow> cmd_ok (word_ok b (length line)) c \<Longrightarrow>
    outcome syntax_errors (parseredirs_loop n b (length line) c) (parsed b line (length r)) s"
proof (induction n arbitrary: s r c)
  case (Suc n)
  show ?case
    unfolding parseredirs_loop.simps
  proof (rule outcome_peek [OF b Suc.prems(1)], rule outcome_if, goal_cases)
    case (1 t)
    show ?case
    proof (rule outcome_gettoken [OF b 1(1)], simp only: scan_dropWhile case_prod_conv, rule outcome_gettoken [OF b], assumption,
        simp only: case_prod_conv, rule outcome_if, goal_cases)
      case 1
      then show ?case by (simp add: syntax_errors_def)
    next
      case (2 tok w q r1 t1 tok2 w2 q2 r2 t2)
      have s1: "length r1 < length r"
        using scan_shorter [OF 2(1) scan_tok [OF 2(1)]] \<open>next_tok r \<noteq> 0 \<and> _\<close> nonzero [OF b Suc.prems(1)] by blast
      have s2: "length r2 < length r1" using scan_shorter [OF 2(4)] 2(7) nonzero [OF b 2(2)] by simp
      have "outcome syntax_errors (parseredirs_loop n b (length line) (redir_of tok q2 c)) (parsed b line (length r2)) t2"
        using s1 s2 Suc.prems 2(6,7) by (intro Suc.IH 2(5) cmd_ok_redir_of) auto
      then show ?case by (rule outcome_mono) (use s1 s2 in \<open>auto elim: parsed_mono\<close>)
    qed
  next
    case (2 t)
    then show ?case using length_dropWhile_le [of white r] Suc.prems(3) by (auto simp: parsed_def)
  qed
qed simp

lemma parseargs_total:
  assumes b: "buffer b line"
  shows "here line s r \<Longrightarrow> length r < n \<Longrightarrow> cmd_ok (word_ok b (length line)) c \<Longrightarrow>
    length args < MAXARGS \<Longrightarrow> list_all (word_ok b (length line)) args \<Longrightarrow>
    outcome syntax_errors (parseargs n b (length line) args c) (parsed b line (length r)) s"
proof (induction n arbitrary: s r c args)
  case (Suc n)
  have ok: "cmd_ok (word_ok b (length line)) (set_argv args c)" by (rule cmd_ok_set_argv [OF Suc.prems(3-5)])
  have le: "length (dropWhile white r) \<le> length r" by (rule length_dropWhile_le)
  show ?case
    unfolding parseargs.simps
  proof (rule outcome_peek [OF b Suc.prems(1)], rule outcome_if, goal_cases)
    case (1 t)
    then show ?case using le ok by (auto simp: parsed_def)
  next
    case (2 t)
    show ?case
    proof (rule outcome_gettoken [OF b 2(1)], simp only: scan_dropWhile case_prod_conv Let_def, intro outcome_if, goal_cases)
      case (1 tok w q r1 t1)
      have "length r1 \<le> length r" using 1(1,4) le by (auto simp: scan.simps split: list.splits if_splits)
      then show ?case using 1(2) ok by (auto simp: parsed_def)
    next
      case (4 tok w q r1 t1)
      have s1: "length r1 < length r" using scan_shorter [OF 4(1,4)] nonzero [OF b Suc.prems(1)] by blast
      have "length r1 < Suc (length line)" using here_length [OF 4(2)] by simp
      from parseredirs_total [OF b 4(2) this Suc.prems(3)]
      have "outcome syntax_errors (parseredirs b (length line) c) (parsed b line (length r1)) t1" by (simp only: parseredirs_def)
      then show ?case
        unfolding outcome_bnd
      proof (rule outcome_mono)
        fix c' t' assume "parsed b line (length r1) c' t'"
        then obtain r2 where r2: "here line t' r2" "length r2 \<le> length r1" "cmd_ok (word_ok b (length line)) c'" by (auto simp: parsed_def)
        have "outcome syntax_errors (parseargs n b (length line) (args @ [q]) c') (parsed b line (length r2)) t'"
          using r2 s1 4(3,5,6) Suc.prems by (intro Suc.IH) auto
        then show "outcome syntax_errors (parseargs n b (length line) (args @ [q]) c') (parsed b line (length r)) t'"
          by (rule outcome_mono) (use s1 r2(2) in \<open>auto elim: parsed_mono\<close>)
      qed
    qed (simp_all add: syntax_errors_def)
  qed
qed simp

lemma parsebacks_total:
  assumes b: "buffer b line"
  shows "here line s r \<Longrightarrow> length r < n \<Longrightarrow> cmd_ok (word_ok b (length line)) c \<Longrightarrow>
    outcome syntax_errors (parsebacks n b (length line) c) (parsed b line (length r)) s"
proof (induction n arbitrary: s r c)
  case (Suc n)
  show ?case
    unfolding parsebacks.simps andthen_def
  proof (rule outcome_peek [OF b Suc.prems(1)], rule outcome_if, goal_cases)
    case (1 t)
    show ?case
    proof (rule outcome_gettoken [OF b 1(1)], simp only: scan_dropWhile case_prod_conv, goal_cases)
      case (1 tok w q r1 t1)
      have s1: "length r1 < length r"
        using scan_shorter [OF 1(1) scan_tok [OF 1(1)]] \<open>next_tok r \<noteq> 0 \<and> _\<close> nonzero [OF b Suc.prems(1)] by blast
      have "outcome syntax_errors (parsebacks n b (length line) (backcmd c)) (parsed b line (length r1)) t1"
        using s1 Suc.prems 1(2) by (intro Suc.IH) auto
      then show ?case by (rule outcome_mono) (use s1 in \<open>auto elim: parsed_mono\<close>)
    qed
  next
    case (2 t)
    then show ?case using length_dropWhile_le [of white r] Suc.prems(3) by (auto simp: parsed_def)
  qed
qed simp

text \<open>
  The combination that follows a token in every production: after a consumed token the rest is shorter, and what a
  later part of the parser leaves is a rest of that.
\<close>

lemma outcome_parsed:
  assumes "outcome E m (parsed b line n) s"
    and "\<And>c t r. cmd_ok (word_ok b (length line)) c \<Longrightarrow> here line t r \<Longrightarrow> length r \<le> n \<Longrightarrow> outcome E (K c) Q t"
  shows "outcome E (bnd m K) Q s"
  unfolding outcome_bnd by (rule outcome_mono [OF assms(1)]) (use assms(2) in \<open>auto simp: parsed_def\<close>)

lemma outcome_consume:
  assumes b: "buffer b line" and h: "here line s r" and "next_tok r \<noteq> 0"
    and "\<And>t r'. here line t r' \<Longrightarrow> length r' < length r \<Longrightarrow> outcome E K Q t"
  shows "outcome E (andthen (gettoken b (length line)) K) Q s"
  unfolding andthen_def
proof (rule outcome_gettoken [OF b h])
  fix tok w q r' t assume L: "scan r = (tok, w, r')" and t: "here line t r'"
  have "length r' < length r" using scan_shorter [OF L scan_tok [OF L assms(3)] nonzero [OF b h]] .
  then show "outcome E K Q t" by (rule assms(4) [OF t])
qed

lemma parser_total:
  assumes b: "buffer b line"
  shows "here line s r \<Longrightarrow>
    (4 * length r + 4 \<le> n \<longrightarrow> outcome syntax_errors (parseline n b (length line)) (parsed b line (length r)) s) \<and>
    (4 * length r + 3 \<le> n \<longrightarrow> outcome syntax_errors (parsepipe n b (length line)) (parsed b line (length r)) s) \<and>
    (4 * length r + 2 \<le> n \<longrightarrow> outcome syntax_errors (parseexec n b (length line)) (parsed b line (length r)) s) \<and>
    (4 * length r + 1 \<le> n \<longrightarrow> next_tok r = 40 \<longrightarrow> outcome syntax_errors (parseblock n b (length line)) (parsed b line (length r)) s)"
proof (induction n arbitrary: s r)
  case (Suc n)
  note h = Suc.prems
  have short: "length r' < Suc (length line)" if "here line t r'" for t r' using here_length [OF that] by simp
  have dw: "length (dropWhile white r) \<le> length r" for r by (rule length_dropWhile_le)
  have "outcome syntax_errors (parseline (Suc n) b (length line)) (parsed b line (length r)) s" if n: "4 * length r + 4 \<le> Suc n"
    unfolding parseline.simps
  proof (rule outcome_parsed, rule Suc.IH [OF h, THEN conjunct2, THEN conjunct1, rule_format], goal_cases)
    case (2 c t r1)
    show ?case
    proof (rule outcome_parsed [OF parsebacks_total [OF b 2(2) short [OF 2(2)] 2(1)]], rule outcome_peek [OF b], assumption,
        intro outcome_if, goal_cases)
      case (1 c' t1 r2 t2)
      show ?case
      proof (rule outcome_consume [OF b 1(4)], use 1 in simp, goal_cases)
        case (1 t3 r3)
        have l: "length r3 < length r" using 1(2) dw [of r2] \<open>length r2 \<le> _\<close> 2(3) by linarith
        show ?case
          by (rule outcome_parsed, rule Suc.IH [OF 1(1), THEN conjunct1, rule_format])
            (use l n \<open>cmd_ok _ c'\<close> in \<open>auto simp: parsed_def\<close>)
      qed
    next
      case (2 c' t1 r2 t2)
      then show ?case using dw [of r2] \<open>length r1 \<le> length r\<close> by (auto simp: parsed_def)
    qed
  qed (use n in simp)
  moreover have "outcome syntax_errors (parsepipe (Suc n) b (length line)) (parsed b line (length r)) s" if n: "4 * length r + 3 \<le> Suc n"
    unfolding parsepipe.simps
  proof (rule outcome_parsed, rule Suc.IH [OF h, THEN conjunct2, THEN conjunct2, THEN conjunct1, rule_format], goal_cases)
    case (2 c t r1)
    show ?case
    proof (rule outcome_peek [OF b 2(2)], intro outcome_if, goal_cases)
      case (1 t2)
      show ?case
      proof (rule outcome_consume [OF b 1(1)], use 1 in simp, goal_cases)
        case (1 t3 r3)
        have l: "length r3 < length r" using 1(2) dw [of r1] 2(3) by linarith
        show ?case
          by (rule outcome_parsed, rule Suc.IH [OF 1(1), THEN conjunct2, THEN conjunct1, rule_format])
            (use l n \<open>cmd_ok _ c\<close> in \<open>auto simp: parsed_def\<close>)
      qed
    next
      case (2 t2)
      then show ?case using dw [of r1] \<open>length r1 \<le> length r\<close> \<open>cmd_ok _ c\<close> by (auto simp: parsed_def)
    qed
  qed (use n in simp)
  moreover have "outcome syntax_errors (parseexec (Suc n) b (length line)) (parsed b line (length r)) s" if n: "4 * length r + 2 \<le> Suc n"
    unfolding parseexec.simps
  proof (rule outcome_peek [OF b h], intro outcome_if, goal_cases)
    case (1 t)
    have "outcome syntax_errors (parseblock n b (length line)) (parsed b line (length (dropWhile white r))) t"
      using Suc.IH [OF 1(1)] 1(2) n dw [of r] by auto
    then show ?case by (rule outcome_mono) (use dw [of r] in \<open>auto elim: parsed_mono\<close>)
  next
    case (2 t)
    have "outcome syntax_errors (parseredirs b (length line) execcmd) (parsed b line (length (dropWhile white r))) t"
      unfolding parseredirs_def by (rule parseredirs_total [OF b 2(1) short [OF 2(1)]]) (simp add: MAXARGS_def)
    then show ?case
    proof (rule outcome_parsed)
      fix c t r1 assume c: "cmd_ok (word_ok b (length line)) c" "here line t r1" "length r1 \<le> length (dropWhile white r)"
      have "outcome syntax_errors (parseargs (Suc (length line)) b (length line) [] c) (parsed b line (length r1)) t"
        by (rule parseargs_total [OF b c(2) short [OF c(2)] c(1)]) (simp_all add: MAXARGS_def)
      then show "outcome syntax_errors (parseargs (Suc (length line)) b (length line) [] c) (parsed b line (length r)) t"
        by (rule outcome_mono) (use c(3) dw [of r] in \<open>auto elim: parsed_mono\<close>)
    qed
  qed
  moreover have "outcome syntax_errors (parseblock (Suc n) b (length line)) (parsed b line (length r)) s"
    if n: "4 * length r + 1 \<le> Suc n" and tok: "next_tok r = 40"
    unfolding parseblock.simps
  proof (rule outcome_peek [OF b h], intro outcome_if, goal_cases)
    case (1 t)
    then show ?case using tok by simp
  next
    case (2 t)
    show ?case
    proof (rule outcome_consume [OF b 2(1)], use tok in simp, goal_cases)
      case (1 t1 r1)
      have l: "length r1 < length r" using 1(2) dw [of r] by simp
      show ?case
      proof (rule outcome_parsed, rule Suc.IH [OF 1(1), THEN conjunct1, rule_format], use l n in simp,
          rule outcome_peek [OF b], assumption, intro outcome_if, goal_cases)
        case 1
        then show ?case by (simp add: syntax_errors_def)
      next
        case (2 c t2 r2 t3)
        show ?case
        proof (rule outcome_consume [OF b 2(4)], use 2(5) in simp, goal_cases)
          case (1 t4 r4)
          have "length r4 \<le> length r" using 1(2) dw [of r2] 2(3) l by linarith
          then show ?case
            unfolding parseredirs_def
            by (intro outcome_mono [OF parseredirs_total [OF b 1(1) short [OF 1(1)] 2(1)]]) (auto elim: parsed_mono)
        qed
      qed
    qed
  qed
  ultimately show ?case by blast
qed simp

subsection \<open>The words become strings\<close>

abbreviation word_ends :: "word_at cmd \<Rightarrow> nat set" where
  "word_ends c \<equiv> snd ` set_cmd c"

lemma wp_put_nul: "wp (put_nul i) Q b \<longleftrightarrow> i < length b \<and> Q () (b[i := 0])"
  by (simp add: put_nul_def wp_simps)

definition cleared :: "nat set \<Rightarrow> u8 list \<Rightarrow> u8 list \<Rightarrow> bool" where
  "cleared A b t \<longleftrightarrow> length t = length b \<and> (\<forall>i. t ! i = (if i \<in> A then 0 else b ! i))"

lemma cleared_trans: "cleared A b t \<Longrightarrow> cleared B t u \<Longrightarrow> cleared (A \<union> B) b u"
  by (auto simp: cleared_def)

lemma cleared_put: "i < length b \<Longrightarrow> cleared {i} b (b[i := 0])"
  by (auto simp: cleared_def nth_list_update)

lemma nulterminate_args:
  assumes "list_all (\<lambda>w. snd w < length b) args"
  shows "wp (for_each args (\<lambda>(q, eq). put_nul eq)) (\<lambda>_ t. cleared (snd ` set args) b t) b"
  using assms
proof (induction args arbitrary: b)
  case Nil
  then show ?case by (simp add: wp_simps cleared_def)
next
  case (Cons w args)
  have "wp (for_each args (\<lambda>(q, eq). put_nul eq)) (\<lambda>_ t. cleared (snd ` set args) (b[snd w := 0]) t) (b[snd w := 0])"
    using Cons by simp
  then have "wp (for_each args (\<lambda>(q, eq). put_nul eq)) (\<lambda>_ t. cleared (snd ` set (w # args)) b t) (b[snd w := 0])"
    unfolding split_def by (rule wp_mono) (use cleared_trans [OF cleared_put [of "snd w" b]] Cons.prems in force)
  then show ?case using Cons.prems by (simp add: wp_simps wp_put_nul split_def)
qed

lemma nulterminate_clears:
  assumes "cmd_ok (\<lambda>w. snd w < length b) c"
  shows "wp (nulterminate c) (\<lambda>_ t. cleared (word_ends c) b t) b"
  using assms
proof (induction c arbitrary: b)
  case (EXEC args)
  then show ?case by (simp add: nulterminate_args)
next
  case (REDIR c f mode fd)
  then have "wp (nulterminate c) (\<lambda>_ t. cleared (word_ends c) b t) b" by simp
  then show ?case
    unfolding nulterminate.simps wp_andthen
  proof (rule wp_mono)
    fix t assume t: "cleared (word_ends c) b t"
    then have "snd f < length t" using REDIR.prems by (simp add: cleared_def)
    then show "wp (put_nul (snd f)) (\<lambda>_ t. cleared (word_ends (REDIR c f mode fd)) b t) t"
      using cleared_trans [OF t cleared_put [of "snd f" t]] by (simp add: wp_put_nul)
  qed
next
  case (PIPE l r)
  show ?case
    unfolding nulterminate.simps wp_andthen
    by (rule wp_mono [OF PIPE.IH(1)], use PIPE.prems in simp, rule wp_mono [OF PIPE.IH(2)])
      (use PIPE.prems in \<open>auto simp: cleared_def image_Un\<close>)
next
  case (LIST l r)
  show ?case
    unfolding nulterminate.simps wp_andthen
    by (rule wp_mono [OF LIST.IH(1)], use LIST.prems in simp, rule wp_mono [OF LIST.IH(2)])
      (use LIST.prems in \<open>auto simp: cleared_def image_Un\<close>)
qed simp

lemma cmd_ok_set: "cmd_ok P c \<Longrightarrow> w \<in> set_cmd c \<Longrightarrow> P w"
  by (induction c) (auto simp: list_all_iff)

lemma cmd_ok_words: "cmd_ok P c \<Longrightarrow> (\<And>w. w \<in> set_cmd c \<Longrightarrow> R w) \<Longrightarrow> cmd_ok R c"
  by (induction c) (auto simp: list_all_iff)

text \<open>The NULs are stored behind words, where the line has no character of a word, so that every word is intact.\<close>

lemma str_at_word:
  assumes t: "cleared (word_ends c) b t" and c: "cmd_ok (word_ok b es) c" and w: "w \<in> set_cmd c" and es: "es < length b"
  shows "str_at t (fst w) = text_at b w" and "text_at b w \<noteq> []" and "list_all wordc (text_at b w)"
proof -
  have ok: "word_ok b es w" by (rule cmd_ok_set [OF c w])
  have e: "i \<in> word_ends c \<Longrightarrow> \<not> wordc (b ! i)" for i using cmd_ok_set [OF c] by (auto simp: word_ok_def)
  let ?n = "snd w - fst w"
  have l: "length t = length b" "fst w + ?n < length b" using t ok es by (auto simp: cleared_def word_ok_def)
  have in_word: "t ! (fst w + i) = b ! (fst w + i) \<and> wordc (b ! (fst w + i))" if "i < ?n" for i
    using that ok e [of "fst w + i"] t by (auto simp: word_ok_def cleared_def)
  have "take ?n (drop (fst w) t) = text_at b w"
    unfolding text_at_def using l in_word by (intro nth_equalityI) auto
  moreover have "drop (fst w) t = take ?n (drop (fst w) t) @ 0 # drop (Suc (snd w)) t"
  proof -
    have "t ! snd w = 0" using w t by (auto simp: cleared_def)
    moreover have "drop (fst w) t = take ?n (drop (fst w) t) @ drop (snd w) t"
      using append_take_drop_id [of ?n "drop (fst w) t"] ok by (simp add: word_ok_def)
    moreover have "snd w < length t" using l ok by (simp add: word_ok_def)
    ultimately show ?thesis by (metis Cons_nth_drop_Suc)
  qed
  moreover have wc: "list_all wordc (text_at b w)"
    unfolding text_at_def list_all_iff using in_word l by (auto simp: in_set_conv_nth)
  moreover have "0 \<notin> set (text_at b w)" using wc by (auto simp: list_all_iff wordc_def)
  ultimately show "str_at t (fst w) = text_at b w" unfolding str_at_def by (metis (mono_tags, lifting) takeWhile_append2 takeWhile.simps(2) append.right_neutral)
  show "list_all wordc (text_at b w)" by (rule wc)
  show "text_at b w \<noteq> []" using ok l by (simp add: text_at_def word_ok_def)
qed

lemma ustrlen_Some: "ustrlen b = Some es \<Longrightarrow> \<exists>line. buffer b line \<and> es = length line"
proof (induction b arbitrary: es)
  case (Cons c b)
  show ?case
  proof (cases "c = 0")
    case True
    then show ?thesis using Cons.prems by (auto simp: buffer_def intro!: exI [of _ "[]"])
  next
    case False
    then obtain n where "ustrlen b = Some n" "es = Suc n" using Cons.prems by auto
    with Cons.IH obtain line where "buffer b line" "n = length line" by blast
    then show ?thesis using False \<open>es = Suc n\<close> by (intro exI [of _ "c # line"]) (auto simp: buffer_def)
  qed
qed simp

lemma ustrlen_None: "ustrlen b = None \<Longrightarrow> 0 \<notin> set b"
  by (induction b) (auto split: if_splits)

subsection \<open>\<^verbatim>\<open>parsecmd\<close>\<close>

abbreviation parse_line :: "u8 list \<Rightarrow> nat \<Rightarrow> (nat, word_at cmd) prog" where
  "parse_line b es \<equiv> bnd (parseline (4 * es + 4) b es) (\<lambda>c. andthen (peek_tok b es []) (ret c))"

lemma buffer_ustrlen: "buffer b line \<Longrightarrow> ustrlen b = Some (length line)"
proof -
  have "0 \<notin> set line \<Longrightarrow> ustrlen (line @ 0 # junk) = Some (length line)" for junk by (induction line) auto
  then show "buffer b line \<Longrightarrow> ?thesis" by (auto simp: buffer_def)
qed

lemma parse_line_ok:
  assumes b: "buffer b line"
  shows "outcome syntax_errors (parse_line b (length line)) (\<lambda>c _. cmd_ok (word_ok b (length line)) c) 0"
proof -
  have h: "here line 0 line" by (simp add: here_def)
  show ?thesis
    by (rule outcome_parsed, rule parser_total [OF b h, THEN conjunct1, rule_format], simp, unfold andthen_def,
        rule outcome_peek [OF b], assumption) simp
qed

lemma parsecmd_finish:
  assumes b: "buffer b line" and p: "parse_line b (length line) 0 = Ok c (length line)" and c: "cmd_ok (word_ok b (length line)) c"
  obtains t where "parsecmd b = Ok c t" and "cleared (word_ends c) b t"
proof -
  have lt: "length line < length b" by (rule buffer_nth(3) [OF b])
  have "cmd_ok (\<lambda>w. snd w < length b) c"
    by (rule cmd_ok_words [OF c]) (use lt in \<open>auto dest: cmd_ok_set [OF c] simp: word_ok_def\<close>)
  from nulterminate_clears [OF this] obtain t where t: "nulterminate c b = Ok () t" "cleared (word_ends c) b t" by (auto elim!: wpE)
  have "parsecmd b = Ok c t" using p t(1) buffer_ustrlen [OF b] by (simp add: parsecmd_def run_simps)
  then show ?thesis using t(2) by (rule that)
qed

text \<open>A word that can be an argument.\<close>

definition is_word :: "u8 list \<Rightarrow> bool" where
  "is_word w \<longleftrightarrow> w \<noteq> [] \<and> list_all wordc w"

text \<open>
  C36: the parser ends on every line: \<^verbatim>\<open>parsecmd\<close> returns a command or stops with one of four messages, and never reads
  or writes outside the line. Every word of the command is a non-empty string without white space and operators: after
  \<^verbatim>\<open>nulterminate\<close> the string at \<^verbatim>\<open>q\<close> is the part of the original line between \<^verbatim>\<open>q\<close> and \<^verbatim>\<open>eq\<close>, although the NULs are
  stored in the line itself.
\<close>

theorem parsecmd_total:
  assumes "0 \<in> set b"
  shows "case parsecmd b of
      Ok c t \<Rightarrow> length t = length b \<and> cmd_ok (\<lambda>w. str_at t (fst w) = text_at b w \<and> is_word (text_at b w)) c
    | Err e t \<Rightarrow> e \<in> syntax_errors \<and> t = b"
proof -
  obtain es where "ustrlen b = Some es" using ustrlen_None [of b] assms by (cases "ustrlen b") auto
  then obtain line where b: "buffer b line" and es: "ustrlen b = Some (length line)" using ustrlen_Some by blast
  note o = parse_line_ok [OF b]
  show ?thesis
  proof (cases "parse_line b (length line) 0")
    case (Ok c s)
    then have c: "cmd_ok (word_ok b (length line)) c" using o by (simp add: outcome_def)
    show ?thesis
    proof (cases "s = length line")
      case True
      obtain t where t: "parsecmd b = Ok c t" "cleared (word_ends c) b t" using parsecmd_finish [OF b _ c] Ok True by blast
      have "cmd_ok (\<lambda>w. str_at t (fst w) = text_at b w \<and> is_word (text_at b w)) c"
        by (rule cmd_ok_words [OF c]) (use str_at_word [OF t(2) c _ buffer_nth(3) [OF b]] in \<open>simp add: is_word_def\<close>)
      then show ?thesis using t by (simp add: cleared_def)
    next
      case False
      then show ?thesis using Ok es by (simp add: parsecmd_def run_simps syntax_errors_def)
    qed
  next
    case (Err e s)
    then show ?thesis using es o by (simp add: parsecmd_def run_simps outcome_def)
  qed
qed

theorem parsecmd_total_witness:
  "case parsecmd (ascii ''a>b;c'' @ [0, 1]) of
      Ok c t \<Rightarrow> length t = length (ascii ''a>b;c'' @ [0, 1]) \<and> cmd_ok (\<lambda>w. str_at t (fst w) = text_at (ascii ''a>b;c'' @ [0, 1]) w \<and> is_word (text_at (ascii ''a>b;c'' @ [0, 1]) w)) c
    | Err e t \<Rightarrow> e \<in> syntax_errors \<and> t = ascii ''a>b;c'' @ [0, 1]"
  by (rule parsecmd_total) simp

end
