(* ===== verification/Shread.thy ===== *)
theory Shread
  imports Shparse
begin

text \<open>
  The parser of the shell reads back every command that is printed as a line, whatever white space is around it.
\<close>

subsection \<open>Printing commands\<close>

text \<open>
  A command as a line of the shell: every word is followed by a blank; \<open>k\<close> is the strength of the surrounding operator:
  0 in front of a redirection or \<^verbatim>\<open>|\<close>, 1 behind \<^verbatim>\<open>|\<close>, 2 in front of \<^verbatim>\<open>&\<close> or \<^verbatim>\<open>;\<close>, 3 for a line.
\<close>

definition paren :: "bool \<Rightarrow> u8 list \<Rightarrow> u8 list" where
  "paren p xs = (if p then 40 # xs @ [41] else xs)"

definition redir_op :: "int \<Rightarrow> nat \<Rightarrow> u8 list" where
  "redir_op mode fd = (if fd = 0 then [60] else if mode = O_WRONLY OR O_CREATE then [62, 62] else [62])"

primrec show_cmd :: "nat \<Rightarrow> u8 list cmd \<Rightarrow> u8 list" where
  "show_cmd k (EXEC args) = concat (map (\<lambda>w. w @ [32]) args)"
| "show_cmd k (REDIR c f mode fd) = show_cmd 0 c @ redir_op mode fd @ f @ [32]"
| "show_cmd k (PIPE l r) = paren (k < 1) (show_cmd 0 l @ 124 # show_cmd 1 r)"
| "show_cmd k (BACK c) = paren (k < 2) (show_cmd 2 c @ [38])"
| "show_cmd k (LIST l r) = paren (k < 3) (show_cmd 2 l @ 59 # show_cmd 3 r)"

lemma show_nonzero: "cmd_ok is_word C \<Longrightarrow> 0 \<notin> set (show_cmd k C)"
  by (induction C arbitrary: k) (auto simp: paren_def redir_op_def is_word_def list_all_iff wordc_def)

subsection \<open>Positions up to white space\<close>

definition near :: "u8 list \<Rightarrow> nat \<Rightarrow> u8 list \<Rightarrow> bool" where
  "near line s r \<longleftrightarrow> (\<exists>r0. here line s r0 \<and> dropWhile white r0 = dropWhile white r)"

lemma near_dropWhile [simp]: "near line s (dropWhile white r) \<longleftrightarrow> near line s r"
  by (simp add: near_def dropWhile_twice)

lemma near_length: "near line s r \<Longrightarrow> length (dropWhile white r) \<le> length line - s"
proof -
  assume "near line s r"
  then obtain r0 where "here line s r0" "dropWhile white r0 = dropWhile white r" by (auto simp: near_def)
  then show ?thesis using length_dropWhile_le [of white r0] here_length by metis
qed

lemma near_end: "near line s r \<Longrightarrow> s \<le> length line"
  by (auto simp: near_def here_def)

lemma scan_white: "dropWhile white r0 = dropWhile white r \<Longrightarrow> scan r0 = scan r \<and> next_tok r0 = next_tok r"
  by (metis scan_dropWhile)

lemma peek_near:
  assumes "buffer b line" and "near line s r"
    and "\<And>t. near line t r \<Longrightarrow> s \<le> t \<Longrightarrow> wp (K (next_tok r \<noteq> 0 \<and> next_tok r \<in> set toks)) Q t"
  shows "wp (bnd (peek_tok b (length line) toks) K) Q s"
proof -
  obtain r0 where r0: "here line s r0" "dropWhile white r0 = dropWhile white r" using assms(2) by (auto simp: near_def)
  have "near line t r" if "here line t (dropWhile white r0)" for t using that r0(2) by (auto simp: near_def dropWhile_twice)
  then show ?thesis
    unfolding wp_bnd by (intro wp_mono [OF wp_peek [OF assms(1) r0(1)]]) (use scan_white [OF r0(2)] assms(3) in auto)
qed

lemma token_near:
  assumes "buffer b line" and "near line s r" and "scan r = (tok, w, dropWhile white r')"
    and "\<And>q t. near line t r' \<Longrightarrow> s \<le> t \<Longrightarrow> (tok \<noteq> 0 \<Longrightarrow> s < t) \<Longrightarrow> (tok = 97 \<Longrightarrow> text_at b q = w) \<Longrightarrow> wp (K (tok, q)) Q t"
  shows "wp (bnd (gettoken b (length line)) K) Q s"
proof -
  obtain r0 where r0: "here line s r0" "dropWhile white r0 = dropWhile white r" using assms(2) by (auto simp: near_def)
  then have sc: "scan r0 = (tok, w, dropWhile white r')" using scan_white assms(3) by metis
  have n: "near line t r'" if "here line t (dropWhile white r')" for t using that by (auto simp: near_def dropWhile_twice)
  have lt: "s < t" if "here line t (dropWhile white r')" "tok \<noteq> 0" for t
    using scan_shorter [OF sc that(2) nonzero [OF assms(1) r0(1)]] here_length [OF that(1)] here_length [OF r0(1)] by simp
  show ?thesis
    unfolding wp_bnd
    by (rule wp_mono [OF wp_gettoken [OF assms(1) r0(1) sc]]) (use n lt assms(4) in \<open>auto split: prod.splits\<close>)
qed

lemma scan_end: "dropWhile white r = [] \<Longrightarrow> scan r = (0, [], dropWhile white [])"
  by (subst scan.simps) (simp only: list.case dropWhile.simps)

lemma near_nil: "dropWhile white r = [] \<Longrightarrow> near line t [] = near line t r"
  unfolding near_def by (simp only: dropWhile.simps(1))

lemma next_end: "dropWhile white r = [] \<Longrightarrow> next_tok r = 0"
  unfolding next_tok_def by (simp only: list.case)

lemma scan_symbol: "c \<in> {124, 40, 41, 59, 38, 60} \<Longrightarrow> scan (c # r) = (c, [c], dropWhile white r) \<and> next_tok (c # r) = c"
  by (auto simp: scan.simps white_iff next_tok_def)

lemma word_hd: "is_word w \<Longrightarrow> wordc (hd w)"
  by (cases w) (auto simp: is_word_def)

lemma scan_word:
  assumes "is_word w"
  shows "scan (w @ 32 # r) = (97, w, dropWhile white r)" and "next_tok (w @ 32 # r) = hd w" and "dropWhile white (w @ 32 # r) = w @ 32 # r"
proof -
  obtain c u where w: "w = c # u" "wordc c" "list_all wordc u" using assms by (cases w) (auto simp: is_word_def)
  have c: "\<not> white c" "c \<notin> {124, 40, 41, 59, 38, 60}" "c \<noteq> 62" using w(2) by (auto simp: wordc_iff)
  have t: "takeWhile wordc (u @ 32 # r) = u" "dropWhile wordc (u @ 32 # r) = 32 # r"
    using w(3) by (induction u) (auto simp: wordc_iff white_iff)
  show "dropWhile white (w @ 32 # r) = w @ 32 # r" using w c by simp
  then show "next_tok (w @ 32 # r) = hd w" using w by (simp add: next_tok_def)
  show "scan (w @ 32 # r) = (97, w, dropWhile white r)"
    using w c t by (simp add: scan.simps white_iff)
qed

text \<open>The end of a part of a line: nothing, or one of the operators \<open>A\<close>.\<close>

definition follow :: "u8 set \<Rightarrow> u8 list \<Rightarrow> bool" where
  "follow A r \<longleftrightarrow> dropWhile white r = [] \<or> next_tok r \<in> A"

lemma follow_mono: "follow A r \<Longrightarrow> A \<subseteq> B \<Longrightarrow> follow B r"
  by (auto simp: follow_def)

lemma follow_Cons: "c \<in> {124, 40, 41, 59, 38, 60} \<Longrightarrow> c \<in> A \<Longrightarrow> follow A (c # r)"
  using scan_symbol [of c r] by (simp add: follow_def)

text \<open>A test for an operator that is there, and one that is not.\<close>

lemma peek_yes:
  assumes "buffer b line" and "near line s (c # r)" and "c \<in> {124, 40, 41, 59, 38}" and "c \<in> set toks"
    and "\<And>t. near line t (c # r) \<Longrightarrow> s \<le> t \<Longrightarrow> wp (K True) Q t"
  shows "wp (bnd (peek_tok b (length line) toks) K) Q s"
proof (rule peek_near [OF assms(1,2)])
  have "c \<in> {124, 40, 41, 59, 38, 60}" using assms(3) by auto
  then have "(next_tok (c # r) \<noteq> 0 \<and> next_tok (c # r) \<in> set toks) = True" using scan_symbol [of c r] assms(3,4) by auto
  then show "wp (K (next_tok (c # r) \<noteq> 0 \<and> next_tok (c # r) \<in> set toks)) Q t" if "near line t (c # r)" "s \<le> t" for t
    using assms(5) [OF that] by (simp only:)
qed

lemma peek_no:
  assumes "buffer b line" and "near line s r" and "follow A r" and "A \<inter> set toks = {}"
    and "\<And>t. near line t r \<Longrightarrow> s \<le> t \<Longrightarrow> wp (K False) Q t"
  shows "wp (bnd (peek_tok b (length line) toks) K) Q s"
proof (rule peek_near [OF assms(1,2)])
  have "(next_tok r \<noteq> 0 \<and> next_tok r \<in> set toks) = False" using assms(3,4) next_end [of r] by (auto simp: follow_def)
  then show "wp (K (next_tok r \<noteq> 0 \<and> next_tok r \<in> set toks)) Q t" if "near line t r" "s \<le> t" for t
    using assms(5) [OF that] by (simp only:)
qed

lemma symbol_near:
  assumes b: "buffer b line" and h: "near line s (c # r)" and c: "c \<in> {124, 40, 41, 59, 38}"
    and K: "\<And>t. near line t r \<Longrightarrow> s < t \<Longrightarrow> wp K Q t"
  shows "wp (andthen (gettoken b (length line)) K) Q s"
  unfolding andthen_def
proof (rule token_near [OF b h conjunct1 [OF scan_symbol]])
  show "c \<in> {124, 40, 41, 59, 38, 60}" using c by auto
  fix t assume "near line t r" "c \<noteq> 0 \<Longrightarrow> s < t"
  then show "wp K Q t" using c by (intro K) auto
qed

subsection \<open>Redirections, arguments and background marks\<close>

type_synonym redir = "u8 list \<times> int \<times> nat"

definition show_redirs :: "redir list \<Rightarrow> u8 list" where
  "show_redirs rs = concat (map (\<lambda>(f, mode, fd). redir_op mode fd @ f @ [32]) rs)"

definition wrap :: "redir list \<Rightarrow> u8 list cmd \<Rightarrow> u8 list cmd" where
  "wrap rs c = foldl (\<lambda>c (f, mode, fd). REDIR c f mode fd) c rs"

lemma redir_simps [simp]:
  "show_redirs [] = []" "show_redirs ((f, mode, fd) # rs) = redir_op mode fd @ f @ 32 # show_redirs rs"
  "wrap [] c = c" "wrap ((f, mode, fd) # rs) c = wrap rs (REDIR c f mode fd)"
  by (simp_all add: show_redirs_def wrap_def)

definition redirs_ok :: "redir list \<Rightarrow> bool" where
  "redirs_ok rs \<longleftrightarrow> list_all (\<lambda>(f, mode, fd). is_word f \<and> (mode, fd) \<in> redirections) rs"

abbreviation "ends_exec \<equiv> {124, 41, 38, 59} :: u8 set"
abbreviation "ends_pipe \<equiv> {41, 38, 59} :: u8 set"
abbreviation "ends_back \<equiv> {41, 59} :: u8 set"
abbreviation "ends_line \<equiv> {41} :: u8 set"

text \<open>A rest of the line whose first token is not a redirection.\<close>

definition calm :: "u8 list \<Rightarrow> bool" where
  "calm r \<longleftrightarrow> next_tok r \<noteq> 60 \<and> next_tok r \<noteq> 62"

lemma calm_follow: "follow ends_exec r \<Longrightarrow> calm r"
  using next_end [of r] by (auto simp: calm_def follow_def)

lemma calm_word: "is_word w \<Longrightarrow> calm (w @ 32 # r)"
  using word_hd [of w] by (auto simp: calm_def scan_word wordc_iff)

lemma redir_modes:
  "(mode, fd) \<in> redirections \<longleftrightarrow> (mode, fd) = (0, 0) \<or> (mode, fd) = (0x601, 1) \<or> (mode, fd) = (0x201, 1)"
  by (simp add: redirections_def const_defs)

lemma redir_token:
  assumes "(mode, fd) \<in> redirections" and "is_word f"
  shows "\<exists>tok. scan (redir_op mode fd @ f @ r) = (tok, redir_op mode fd, dropWhile white (f @ r)) \<and> (\<forall>q c. redir_of tok q c = REDIR c q mode fd) \<and>
    next_tok (redir_op mode fd @ f @ r) \<in> {60, 62}"
proof -
  obtain d u where f: "f = d # u" "wordc d" using assms(2) by (cases f) (auto simp: is_word_def)
  then have d: "\<not> white d" "d \<noteq> 62" by (auto simp: wordc_iff)
  then show ?thesis
    using assms(1) f unfolding redir_modes
    by (auto simp: redir_op_def redir_of_def const_defs scan.simps white_iff next_tok_def)
qed

lemma near_redirs: "near line s (show_redirs rs @ r) \<Longrightarrow> length rs < Suc (length line)"
proof -
  assume h: "near line s (show_redirs rs @ r)"
  have "length rs \<le> length (show_redirs rs)" by (induction rs) auto
  moreover have "rs \<noteq> [] \<Longrightarrow> dropWhile white (show_redirs rs @ r) = show_redirs rs @ r" by (cases rs) (auto simp: redir_op_def white_iff)
  ultimately show ?thesis using near_length [OF h] by (cases "rs = []") auto
qed

lemma parseredirs_show:
  assumes b: "buffer b line" and r: "calm r"
  shows "near line s (show_redirs rs @ r) \<Longrightarrow> redirs_ok rs \<Longrightarrow> length rs < n \<Longrightarrow>
    wp (parseredirs_loop n b (length line) c) (\<lambda>c' t. near line t r \<and> s \<le> t \<and> map_cmd (text_at b) c' = wrap rs (map_cmd (text_at b) c)) s"
proof (induction rs arbitrary: s n c)
  case Nil
  obtain m where n: "n = Suc m" using Nil(3) by (cases n) auto
  have h: "near line s r" using Nil by simp
  show ?case
    unfolding n parseredirs_loop.simps
    by (rule peek_near [OF b h]) (use r in \<open>auto simp: calm_def wp_ret\<close>)
next
  case (Cons x rs)
  obtain f mode fd where x: "x = (f, mode, fd)" by (cases x) auto
  obtain m where n: "n = Suc m" using Cons(4) by (cases n) auto
  let ?r = "show_redirs rs @ r"
  have ok: "is_word f" "(mode, fd) \<in> redirections" "redirs_ok rs" using Cons.prems(2) x by (auto simp: redirs_ok_def)
  obtain tok where tok: "scan (redir_op mode fd @ f @ 32 # ?r) = (tok, redir_op mode fd, dropWhile white (f @ 32 # ?r))"
      "next_tok (redir_op mode fd @ f @ 32 # ?r) \<in> {60, 62}" "redir_of tok q c = REDIR c q mode fd" for q
    using redir_token [OF ok(2,1), of "32 # ?r"] by blast
  have yes: "(next_tok (redir_op mode fd @ f @ 32 # ?r) \<noteq> 0 \<and> next_tok (redir_op mode fd @ f @ 32 # ?r) \<in> set (ascii ''<>'')) = True"
    using tok(2) by auto
  have h: "near line s (redir_op mode fd @ f @ 32 # ?r)" using Cons.prems(1) x by simp
  show ?case
    unfolding n parseredirs_loop.simps
  proof (rule peek_near [OF b h], unfold yes if_True, rule token_near [OF b _ tok(1)], assumption, simp only: case_prod_conv,
      rule token_near [OF b _ scan_word(1) [OF ok(1)]], assumption, goal_cases)
    case (1 t q t1 q2 t2)
    have "wp (parseredirs_loop m b (length line) (REDIR c q2 mode fd))
      (\<lambda>c' t. near line t r \<and> t2 \<le> t \<and> map_cmd (text_at b) c' = wrap rs (map_cmd (text_at b) (REDIR c q2 mode fd))) t2"
      using 1 ok(3) Cons.prems(3) n by (intro Cons.IH) auto
    then have "wp (parseredirs_loop m b (length line) (REDIR c q2 mode fd))
      (\<lambda>c' t. near line t r \<and> s \<le> t \<and> map_cmd (text_at b) c' = wrap (x # rs) (map_cmd (text_at b) c)) t2"
      by (rule wp_mono) (use 1 x in auto)
    then show ?case by (simp add: tok(3))
  qed
qed

lemma map_set_argv: "map_cmd f (set_argv args c) = set_argv (map f args) (map_cmd f c)"
  by (induction args c rule: set_argv.induct) auto

lemma wrap_snoc: "wrap (rs @ [(f, mode, fd)]) c = REDIR (wrap rs c) f mode fd"
  by (simp add: wrap_def)

lemma set_argv_wrap: "set_argv args (wrap rs (EXEC xs)) = wrap rs (EXEC args)"
  by (induction rs rule: rev_induct) (auto simp: wrap_snoc)

definition show_words :: "u8 list list \<Rightarrow> u8 list" where
  "show_words ws = concat (map (\<lambda>w. w @ [32]) ws)"

lemma show_words_simps [simp]: "show_words [] = []" "show_words (w # ws) = w @ 32 # show_words ws"
  by (simp_all add: show_words_def)

lemma near_words: "near line s (show_words ws @ r) \<Longrightarrow> list_all is_word ws \<Longrightarrow> length ws < Suc (length line)"
proof -
  assume h: "near line s (show_words ws @ r)" and ws: "list_all is_word ws"
  have "length ws \<le> length (show_words ws)" by (induction ws) auto
  moreover have "ws \<noteq> [] \<Longrightarrow> dropWhile white (show_words ws @ r) = show_words ws @ r"
    using ws scan_word(3) by (cases ws) auto
  ultimately show ?thesis using near_length [OF h] by (cases "ws = []") auto
qed

text \<open>The rest behind \<open>ws\<close> when the redirections \<open>rs\<close> have been read with the last word.\<close>

abbreviation args_rest :: "u8 list list \<Rightarrow> redir list \<Rightarrow> u8 list \<Rightarrow> u8 list" where
  "args_rest ws rs r \<equiv> show_words ws @ (if ws = [] then r else show_redirs rs @ r)"

lemma calm_rest: "follow ends_exec r \<Longrightarrow> list_all is_word ws \<Longrightarrow> calm (args_rest ws rs r)"
  by (cases ws) (auto intro: calm_follow calm_word)

lemma parseargs_show:
  assumes b: "buffer b line" and r: "follow ends_exec r" and rs: "redirs_ok rs"
  shows "near line s (args_rest ws rs r) \<Longrightarrow> list_all is_word ws \<Longrightarrow>
    length args + length ws < MAXARGS \<Longrightarrow> length ws < n \<Longrightarrow>
    map_cmd (text_at b) c = wrap (if ws = [] then rs else []) (EXEC []) \<Longrightarrow>
    wp (parseargs n b (length line) args c)
      (\<lambda>c' t. near line t r \<and> s \<le> t \<and> map_cmd (text_at b) c' = wrap rs (EXEC (map (text_at b) args @ ws))) s"
proof (induction ws arbitrary: s args n c)
  case Nil
  obtain m where n: "n = Suc m" using Nil.prems(4) by (cases n) auto
  have h: "near line s r" using Nil.prems(1) by simp
  have fin: "map_cmd (text_at b) (set_argv args c) = wrap rs (EXEC (map (text_at b) args @ []))"
    using Nil.prems(5) by (simp add: map_set_argv set_argv_wrap)
  show ?case
    unfolding n parseargs.simps
  proof (rule peek_near [OF b h], goal_cases)
    case (1 t)
    show ?case
    proof (cases "dropWhile white r = []")
      case True
      have no: "(next_tok r \<noteq> 0 \<and> next_tok r \<in> set (ascii ''|)&;'')) = False" using next_end [OF True] by simp
      show ?thesis
        unfolding no if_False
        by (rule token_near [OF b 1(1) scan_end [OF True]]) (use fin near_nil [OF True] 1(2) in \<open>auto simp: wp_ret\<close>)
    next
      case False
      then have "next_tok r \<in> ends_exec" using r unfolding follow_def by blast
      then show ?thesis using fin 1 by (auto simp: wp_ret)
    qed
  qed
next
  case (Cons w ws)
  obtain m where n: "n = Suc m" using Cons.prems(4) by (cases n) auto
  let ?rs = "if ws = [] then rs else []"
  have ok: "is_word w" "list_all is_word ws" using Cons.prems(2) by simp_all
  have h: "near line s (w @ 32 # show_redirs ?rs @ args_rest ws rs r)" using Cons.prems(1) by (cases ws) auto
  note sw = scan_word [OF ok(1)]
  have nt: "(next_tok (w @ 32 # u) \<noteq> 0 \<and> next_tok (w @ 32 # u) \<in> set (ascii ''|)&;'')) = False" for u
    using word_hd [OF ok(1)] sw(2) by (auto simp: wordc_iff)
  show ?case
    unfolding n parseargs.simps
  proof (rule peek_near [OF b h], unfold nt if_False, rule token_near [OF b _ sw(1)], assumption, goal_cases)
    case (1 t q t1)
    have "wp (parseredirs b (length line) c)
        (\<lambda>c' t. near line t (args_rest ws rs r) \<and> t1 \<le> t \<and> map_cmd (text_at b) c' = wrap ?rs (map_cmd (text_at b) c)) t1"
      unfolding parseredirs_def
      by (rule parseredirs_show [OF b calm_rest [OF r ok(2)] 1(3) _ near_redirs [OF 1(3)]]) (use rs in \<open>simp add: redirs_ok_def\<close>)
    then have "wp (bnd (parseredirs b (length line) c) (parseargs m b (length line) (args @ [q])))
      (\<lambda>c' t. near line t r \<and> s \<le> t \<and> map_cmd (text_at b) c' = wrap rs (EXEC (map (text_at b) args @ w # ws))) t1"
      unfolding wp_bnd
    proof (rule wp_mono, elim conjE)
      fix c' t' assume t': "near line t' (args_rest ws rs r)" "t1 \<le> t'" "map_cmd (text_at b) c' = wrap ?rs (map_cmd (text_at b) c)"
      have "wp (parseargs m b (length line) (args @ [q]) c')
        (\<lambda>c' t. near line t r \<and> t' \<le> t \<and> map_cmd (text_at b) c' = wrap rs (EXEC (map (text_at b) (args @ [q]) @ ws))) t'"
        by (rule Cons.IH [OF t'(1)]) (use ok(2) Cons.prems(3-5) n t'(3) in auto)
      then show "wp (parseargs m b (length line) (args @ [q]) c')
        (\<lambda>c' t. near line t r \<and> s \<le> t \<and> map_cmd (text_at b) c' = wrap rs (EXEC (map (text_at b) args @ w # ws))) t'"
        by (rule wp_mono) (use 1 t'(2) in auto)
    qed
    then show ?case using Cons.prems(3) by (simp add: Let_def)
  qed
qed

lemma parsebacks_show:
  assumes b: "buffer b line" and r: "follow ends_back r"
  shows "near line s (replicate k 38 @ r) \<Longrightarrow> k < n \<Longrightarrow> wp (parsebacks n b (length line) c)
    (\<lambda>c' t. near line t r \<and> s \<le> t \<and> map_cmd (text_at b) c' = (BACK ^^ k) (map_cmd (text_at b) c)) s"
proof (induction k arbitrary: s n c)
  case 0
  obtain m where n: "n = Suc m" using 0(2) by (cases n) auto
  have "near line s r" using 0 by simp
  then show ?case
    unfolding n parsebacks.simps by (rule peek_no [OF b _ r]) (auto simp: wp_ret)
next
  case (Suc k)
  obtain m where n: "n = Suc m" using Suc.prems(2) by (cases n) auto
  have h: "near line s (38 # replicate k 38 @ r)" using Suc.prems(1) by simp
  show ?case
    unfolding n parsebacks.simps
  proof (rule peek_yes [OF b h], simp, simp, unfold if_True, rule symbol_near [OF b], assumption, simp, goal_cases)
    case (1 t t1)
    have "wp (parsebacks m b (length line) (backcmd c))
      (\<lambda>c' t. near line t r \<and> t1 \<le> t \<and> map_cmd (text_at b) c' = (BACK ^^ k) (map_cmd (text_at b) (backcmd c))) t1"
      using 1 Suc.prems(2) n by (intro Suc.IH) auto
    then show ?case by (rule wp_mono) (use 1 in \<open>auto simp: funpow_swap1\<close>)
  qed
qed

subsection \<open>Commands\<close>

text \<open>
  What the functions of the parser do with a printed command; \<open>reads_back\<close> is about \<^verbatim>\<open>parsepipe\<close> with the loop over \<^verbatim>\<open>&\<close>.
\<close>

definition reads :: "u8 list \<Rightarrow> u8 list \<Rightarrow> (nat, word_at cmd) prog \<Rightarrow> u8 list \<Rightarrow> u8 list cmd \<Rightarrow> nat \<Rightarrow> bool" where
  "reads b line m r C s \<longleftrightarrow> wp m (\<lambda>c t. near line t r \<and> s \<le> t \<and> map_cmd (text_at b) c = C) s"

definition reads_exec :: "u8 list \<Rightarrow> u8 list \<Rightarrow> u8 list cmd \<Rightarrow> bool" where
  "reads_exec b line C \<longleftrightarrow> (\<forall>n s rs r. near line s (show_cmd 0 C @ show_redirs rs @ r) \<longrightarrow> redirs_ok rs \<longrightarrow> follow ends_exec r \<longrightarrow>
     4 * (length line - s) + 2 \<le> n \<longrightarrow> reads b line (parseexec n b (length line)) r (wrap rs C) s)"

definition reads_pipe :: "u8 list \<Rightarrow> u8 list \<Rightarrow> u8 list cmd \<Rightarrow> bool" where
  "reads_pipe b line C \<longleftrightarrow> (\<forall>n s r. near line s (show_cmd 1 C @ r) \<longrightarrow> follow ends_pipe r \<longrightarrow> 4 * (length line - s) + 3 \<le> n \<longrightarrow>
     reads b line (parsepipe n b (length line)) r C s)"

definition reads_back :: "u8 list \<Rightarrow> u8 list \<Rightarrow> u8 list cmd \<Rightarrow> bool" where
  "reads_back b line C \<longleftrightarrow> (\<forall>n s k r. near line s (show_cmd 2 C @ replicate k 38 @ r) \<longrightarrow> follow ends_back r \<longrightarrow> 4 * (length line - s) + 3 \<le> n \<longrightarrow>
     reads b line (bnd (parsepipe n b (length line)) (parsebacks (Suc (length line)) b (length line))) r ((BACK ^^ k) C) s)"

definition reads_line :: "u8 list \<Rightarrow> u8 list \<Rightarrow> u8 list cmd \<Rightarrow> bool" where
  "reads_line b line C \<longleftrightarrow> (\<forall>n s r. near line s (show_cmd 3 C @ r) \<longrightarrow> follow ends_line r \<longrightarrow> 4 * (length line - s) + 4 \<le> n \<longrightarrow>
     reads b line (parseline n b (length line)) r C s)"

lemma readsI: "wp m (\<lambda>c t. near line t r \<and> s \<le> t \<and> map_cmd (text_at b) c = C) s \<Longrightarrow> reads b line m r C s"
  by (simp add: reads_def)

lemma wp_read:
  assumes "reads b line m r C s" and "\<And>c t. near line t r \<Longrightarrow> s \<le> t \<Longrightarrow> map_cmd (text_at b) c = C \<Longrightarrow> wp (K c) Q t"
  shows "wp (bnd m K) Q s"
  unfolding wp_bnd by (rule wp_mono [OF assms(1) [unfolded reads_def]]) (use assms(2) in blast)

lemma reads_ret: "map_cmd (text_at b) c = C \<Longrightarrow> near line t r \<Longrightarrow> s \<le> t \<Longrightarrow>
    wp (ret c) (\<lambda>c t. near line t r \<and> s \<le> t \<and> map_cmd (text_at b) c = C) t"
  by (simp add: wp_ret)

lemma bnd_assoc: "bnd m (\<lambda>c. bnd (f c) K) = bnd (bnd m f) K"
  by (rule ext) (simp add: bnd_def split: res.split)

lemma read_pipe:
  assumes b: "buffer b line" and l: "reads_exec b line L" and r: "reads_pipe b line R"
  shows "reads_pipe b line (PIPE L R)"
  unfolding reads_pipe_def
proof (intro allI impI)
  fix n s u assume h: "near line s (show_cmd 1 (PIPE L R) @ u)" and u: "follow ends_pipe u" and n: "4 * (length line - s) + 3 \<le> n"
  obtain m where m: "n = Suc m" "4 * (length line - s) + 2 \<le> m" using n by (cases n) auto
  let ?u = "124 # show_cmd 1 R @ u"
  have p: "near line s (show_cmd 0 L @ show_redirs [] @ ?u)" "redirs_ok []" "follow ends_exec ?u"
    using h by (simp_all add: paren_def redirs_ok_def follow_Cons)
  show "reads b line (parsepipe n b (length line)) u (PIPE L R) s"
    unfolding m(1) parsepipe.simps
  proof (rule readsI, rule wp_read [OF l [unfolded reads_exec_def, rule_format, OF p m(2)]],
      rule peek_yes [OF b], assumption, simp, simp, unfold if_True, rule symbol_near [OF b], assumption, simp, goal_cases)
    case (1 c t t1 t2)
    have "4 * (length line - t2) + 3 \<le> m" using 1(2,5,7) near_end [OF 1(6)] m(2) by linarith
    from r [unfolded reads_pipe_def, rule_format, OF 1(6) u this] show ?case
      by (rule wp_read) (use 1 in \<open>simp add: wp_ret\<close>)
  qed
qed

lemma read_words:
  assumes b: "buffer b line" and ok: "cmd_ok is_word (EXEC ws)"
  shows "reads_exec b line (EXEC ws)"
  unfolding reads_exec_def
proof (intro allI impI)
  fix n s rs r
  assume h: "near line s (show_cmd 0 (EXEC ws) @ show_redirs rs @ r)" and rs: "redirs_ok rs" and r: "follow ends_exec r"
    and n: "4 * (length line - s) + 2 \<le> n"
  obtain m where m: "n = Suc m" using n by (cases n) auto
  let ?rs = "if ws = [] then rs else []" let ?r = "args_rest ws rs r"
  have h': "near line s (show_redirs ?rs @ ?r)" using h by (cases ws) (simp_all add: show_words_def)
  have nt: "(next_tok (show_redirs ?rs @ ?r) \<noteq> 0 \<and> next_tok (show_redirs ?rs @ ?r) \<in> set (ascii ''('')) = False"
  proof (cases ws)
    case Nil
    have "next_tok (show_redirs rs @ r) \<noteq> 40"
    proof (cases rs)
      case Nil
      then show ?thesis using r next_end [of r] by (auto simp: follow_def)
    next
      case (Cons x xs)
      then show ?thesis by (cases x) (auto simp: redir_op_def next_tok_def white_iff)
    qed
    then show ?thesis using Nil by simp
  next
    case (Cons v vs)
    then show ?thesis using ok word_hd [of v] scan_word(2) [of v] by (auto simp: wordc_iff)
  qed
  show "reads b line (parseexec n b (length line)) r (wrap rs (EXEC ws)) s"
    unfolding m parseexec.simps
  proof (rule readsI, rule peek_near [OF b h'], unfold nt if_False parseredirs_def)
    fix t assume t: "near line t (show_redirs ?rs @ ?r)" "s \<le> t"
    have "reads b line (parseredirs_loop (Suc (length line)) b (length line) execcmd) ?r (wrap ?rs (EXEC [])) t"
      using parseredirs_show [OF b calm_rest [OF r] t(1) _ near_redirs [OF t(1)], of "EXEC []"] ok rs by (simp add: reads_def redirs_ok_def)
    then show "wp (bnd (parseredirs_loop (Suc (length line)) b (length line) execcmd) (parseargs (Suc (length line)) b (length line) []))
      (\<lambda>c t. near line t r \<and> s \<le> t \<and> map_cmd (text_at b) c = wrap rs (EXEC ws)) t"
    proof (rule wp_read)
      fix c t' assume c: "near line t' ?r" "t \<le> t'" "map_cmd (text_at b) c = wrap ?rs (EXEC [])"
      have "wp (parseargs (Suc (length line)) b (length line) [] c)
        (\<lambda>c' t. near line t r \<and> t' \<le> t \<and> map_cmd (text_at b) c' = wrap rs (EXEC (map (text_at b) [] @ ws))) t'"
        by (rule parseargs_show [OF b r rs c(1)]) (use ok c near_words [OF c(1)] in auto)
      then show "wp (parseargs (Suc (length line)) b (length line) [] c)
        (\<lambda>c t. near line t r \<and> s \<le> t \<and> map_cmd (text_at b) c = wrap rs (EXEC ws)) t'" by (rule wp_mono) (use t c in auto)
    qed
  qed
qed

lemma read_redir:
  assumes "reads_exec b line C" and "is_word f" and "(mode, fd) \<in> redirections"
  shows "reads_exec b line (REDIR C f mode fd)"
  unfolding reads_exec_def
proof (intro allI impI)
  fix n s rs r
  assume h: "near line s (show_cmd 0 (REDIR C f mode fd) @ show_redirs rs @ r)" and rs: "redirs_ok rs" and r: "follow ends_exec r"
    and n: "4 * (length line - s) + 2 \<le> n"
  have "near line s (show_cmd 0 C @ show_redirs ((f, mode, fd) # rs) @ r)" using h by simp
  moreover have "redirs_ok ((f, mode, fd) # rs)" using rs assms(2,3) by (simp add: redirs_ok_def)
  ultimately show "reads b line (parseexec n b (length line)) r (wrap rs (REDIR C f mode fd)) s"
    using assms(1) r n unfolding reads_exec_def redir_simps(4) [symmetric] by blast
qed

lemma read_block:
  assumes b: "buffer b line" and C: "reads_line b line C" and sh: "show_cmd 0 C = 40 # show_cmd 3 C @ [41]"
  shows "reads_exec b line C"
  unfolding reads_exec_def
proof (intro allI impI)
  fix n s rs r
  assume h: "near line s (show_cmd 0 C @ show_redirs rs @ r)" and rs: "redirs_ok rs" and r: "follow ends_exec r"
    and n: "4 * (length line - s) + 2 \<le> n"
  let ?v = "show_redirs rs @ r" let ?u = "41 # ?v"
  have h0: "near line s (40 # show_cmd 3 C @ ?u)" using h sh by simp
  have l0: "0 < length line - s" using near_length [OF h0] by (simp add: white_iff)
  obtain m where m: "n = Suc (Suc m)" "4 * (length line - s) \<le> m" using n l0 by (cases n; cases "n - 1") auto
  have f: "follow ends_line ?u" by (simp add: follow_Cons)
  show "reads b line (parseexec n b (length line)) r (wrap rs C) s"
    unfolding m parseexec.simps parseblock.simps
  proof (rule readsI, rule peek_yes [OF b h0], simp, simp, unfold if_True, rule peek_yes [OF b], assumption, simp, simp,
      unfold not_True_eq_False if_False, rule symbol_near [OF b], assumption, simp, goal_cases)
    case (1 t1 t2 t3)
    have "4 * (length line - t3) + 4 \<le> m" using 1(2,4,6) near_end [OF 1(5)] m(2) by linarith
    note C' = C [unfolded reads_line_def, rule_format, OF 1(5) f this]
    show ?case
    proof (rule wp_read [OF C'], rule peek_yes [OF b], assumption, simp, simp,
        unfold not_True_eq_False if_False, rule symbol_near [OF b], assumption, simp, goal_cases)
      case (1 c t4 t5 t6)
      have "s \<le> t6" using 1(2,5,7) \<open>s \<le> t1\<close> \<open>t1 \<le> t2\<close> \<open>t2 < t3\<close> by linarith
      with parseredirs_show [OF b calm_follow [OF r] 1(6) rs near_redirs [OF 1(6)], of c] show ?case
        unfolding parseredirs_def 1(3) by (auto elim!: wp_mono)
    qed
  qed
qed

lemma read_exec_pipe:
  assumes b: "buffer b line" and C: "reads_exec b line C" and sh: "show_cmd 1 C = show_cmd 0 C"
  shows "reads_pipe b line C"
  unfolding reads_pipe_def
proof (intro allI impI)
  fix n s r assume h: "near line s (show_cmd 1 C @ r)" and r: "follow ends_pipe r" and n: "4 * (length line - s) + 3 \<le> n"
  obtain m where m: "n = Suc m" "4 * (length line - s) + 2 \<le> m" using n by (cases n) auto
  have p: "near line s (show_cmd 0 C @ show_redirs [] @ r)" "redirs_ok []" "follow ends_exec r"
    using h sh follow_mono [OF r, of ends_exec] by (simp_all add: redirs_ok_def)
  show "reads b line (parsepipe n b (length line)) r C s"
    unfolding m(1) parsepipe.simps
    by (rule readsI, rule wp_read [OF C [unfolded reads_exec_def, rule_format, OF p m(2)]], rule peek_no [OF b _ r], assumption)
      (auto simp: wp_ret)
qed

lemma read_pipe_back:
  assumes b: "buffer b line" and C: "reads_pipe b line C" and sh: "show_cmd 2 C = show_cmd 1 C"
  shows "reads_back b line C"
  unfolding reads_back_def
proof (intro allI impI)
  fix n s k r assume h: "near line s (show_cmd 2 C @ replicate k 38 @ r)" and r: "follow ends_back r" and n: "4 * (length line - s) + 3 \<le> n"
  have "follow ends_pipe r" by (rule follow_mono [OF r]) auto
  then have "follow ends_pipe (replicate k 38 @ r)" by (cases k) (simp_all add: follow_Cons)
  with h sh have p: "near line s (show_cmd 1 C @ replicate k 38 @ r)" "follow ends_pipe (replicate k 38 @ r)" by simp_all
  show "reads b line (bnd (parsepipe n b (length line)) (parsebacks (Suc (length line)) b (length line))) r ((BACK ^^ k) C) s"
  proof (rule readsI, rule wp_read [OF C [unfolded reads_pipe_def, rule_format, OF p n]])
    fix c t assume c: "near line t (replicate k 38 @ r)" "s \<le> t" "map_cmd (text_at b) c = C"
    have "k \<le> length (dropWhile white (replicate k 38 @ r))" by (cases k) (simp_all add: white_iff)
    then have "k < Suc (length line)" using near_length [OF c(1)] by simp
    from parsebacks_show [OF b r c(1) this, of c] show "wp (parsebacks (Suc (length line)) b (length line) c)
       (\<lambda>c t. near line t r \<and> s \<le> t \<and> map_cmd (text_at b) c = (BACK ^^ k) C) t" unfolding c(3) by (rule wp_mono) (use c(2) in auto)
  qed
qed

lemma read_back:
  assumes "reads_back b line C"
  shows "reads_back b line (BACK C)"
  unfolding reads_back_def
proof (intro allI impI)
  fix n s k r assume h: "near line s (show_cmd 2 (BACK C) @ replicate k 38 @ r)" and r: "follow ends_back r" and n: "4 * (length line - s) + 3 \<le> n"
  have "near line s (show_cmd 2 C @ replicate (Suc k) 38 @ r)" using h by (simp add: paren_def)
  from assms [unfolded reads_back_def, rule_format, OF this r n]
  show "reads b line (bnd (parsepipe n b (length line)) (parsebacks (Suc (length line)) b (length line))) r ((BACK ^^ k) (BACK C)) s"
    by (simp add: funpow_swap1)
qed

lemma read_back_line:
  assumes b: "buffer b line" and C: "reads_back b line C" and sh: "show_cmd 3 C = show_cmd 2 C"
  shows "reads_line b line C"
  unfolding reads_line_def
proof (intro allI impI)
  fix n s r assume h: "near line s (show_cmd 3 C @ r)" and r: "follow ends_line r" and n: "4 * (length line - s) + 4 \<le> n"
  obtain m where m: "n = Suc m" "4 * (length line - s) + 3 \<le> m" using n by (cases n) auto
  have p: "near line s (show_cmd 2 C @ replicate 0 38 @ r)" "follow ends_back r" using h sh follow_mono [OF r, of ends_back] by simp_all
  show "reads b line (parseline n b (length line)) r C s"
    unfolding m(1) parseline.simps bnd_assoc [of "parsepipe m b (length line)"]
    by (rule readsI, rule wp_read [OF C [unfolded reads_back_def, rule_format, OF p m(2)]], rule peek_no [OF b _ r], assumption)
      (auto simp: wp_ret)
qed

lemma read_list:
  assumes b: "buffer b line" and l: "reads_back b line L" and r: "reads_line b line R"
  shows "reads_line b line (LIST L R)"
  unfolding reads_line_def
proof (intro allI impI)
  fix n s u assume h: "near line s (show_cmd 3 (LIST L R) @ u)" and u: "follow ends_line u" and n: "4 * (length line - s) + 4 \<le> n"
  obtain m where m: "n = Suc m" "4 * (length line - s) + 3 \<le> m" using n by (cases n) auto
  let ?u = "59 # show_cmd 3 R @ u"
  have p: "near line s (show_cmd 2 L @ replicate 0 38 @ ?u)" "follow ends_back ?u" using h by (simp_all add: paren_def follow_Cons)
  show "reads b line (parseline n b (length line)) u (LIST L R) s"
    unfolding m(1) parseline.simps bnd_assoc [of "parsepipe m b (length line)"]
  proof (rule readsI, rule wp_read [OF l [unfolded reads_back_def, rule_format, OF p m(2)]], rule peek_yes [OF b], assumption, simp, simp,
      unfold if_True, rule symbol_near [OF b], assumption, simp, goal_cases)
    case (1 c t1 t2 t3)
    have "4 * (length line - t3) + 4 \<le> m" using 1(2,5,7) near_end [OF 1(6)] m(2) by linarith
    from r [unfolded reads_line_def, rule_format, OF 1(6) u this] show ?case
      by (rule wp_read) (use 1 in \<open>simp add: wp_ret\<close>)
  qed
qed

lemma reads_all:
  assumes b: "buffer b line" and "cmd_ok is_word C"
  shows "reads_exec b line C \<and> reads_pipe b line C \<and> reads_back b line C \<and> reads_line b line C"
  using assms(2)
proof (induction C)
  case (EXEC ws)
  note e = read_words [OF b EXEC]
  note p = read_exec_pipe [OF b e] note k = read_pipe_back [OF b p] note l = read_back_line [OF b k]
  show ?case using e p k l by simp
next
  case (REDIR C f mode fd)
  then have e: "reads_exec b line (REDIR C f mode fd)" by (intro read_redir) simp_all
  note p = read_exec_pipe [OF b e] note k = read_pipe_back [OF b p] note l = read_back_line [OF b k]
  show ?case using e p k l by simp
next
  case (PIPE L R)
  then have p: "reads_pipe b line (PIPE L R)" by (intro read_pipe b) simp_all
  note k = read_pipe_back [OF b p] note l = read_back_line [OF b k] note e = read_block [OF b l]
  show ?case using e p k l by (simp add: paren_def)
next
  case (BACK C)
  then have k: "reads_back b line (BACK C)" by (intro read_back) simp_all
  note l = read_back_line [OF b k] note e = read_block [OF b l] note p = read_exec_pipe [OF b e]
  show ?case using e p k l by (simp add: paren_def)
next
  case (LIST L R)
  then have l: "reads_line b line (LIST L R)" by (intro read_list b) simp_all
  note e = read_block [OF b l] note p = read_exec_pipe [OF b e] note k = read_pipe_back [OF b p]
  show ?case using e p k l by (simp add: paren_def)
qed

subsection \<open>Lines\<close>

lemma parsecmd_reads:
  assumes C: "cmd_ok is_word C" and "list_all white w" and "list_all white w'"
  shows "wp parsecmd (\<lambda>c t. map_cmd (\<lambda>w. str_at t (fst w)) c = C) (w @ show_cmd 3 C @ w' @ 0 # junk)"
proof -
  let ?l = "w @ show_cmd 3 C @ w'" let ?b = "?l @ 0 # junk"
  have w: "0 \<notin> set w" "0 \<notin> set w'" "dropWhile white (w @ r) = dropWhile white r" "dropWhile white w' = []" for r
    using assms(2,3) by (auto simp: list_all_iff white_iff)
  then have b: "buffer ?b ?l" using show_nonzero [OF C] by (simp add: buffer_def)
  have h: "near ?l 0 (show_cmd 3 C @ w')" using w(3) by (auto simp: near_def here_def)
  have f: "follow ends_line w'" using w(4) unfolding follow_def by blast
  have "reads ?b ?l (parseline (4 * length ?l + 4) ?b (length ?l)) w' C 0"
    by (rule reads_all [OF b C, THEN conjunct2, THEN conjunct2, THEN conjunct2, unfolded reads_line_def, rule_format, OF h f]) simp
  then have "wp (parse_line ?b (length ?l)) (\<lambda>c t. t = length ?l \<and> map_cmd (text_at ?b) c = C) 0"
  proof (rule wp_read)
    fix c t assume t: "near ?l t w'" "map_cmd (text_at ?b) c = C"
    then obtain r0 where r0: "here ?l t r0" "dropWhile white r0 = []" using w(4) by (auto simp: near_def)
    show "wp (andthen (peek_tok ?b (length ?l) []) (ret c)) (\<lambda>c t. t = length ?l \<and> map_cmd (text_at ?b) c = C) t"
      unfolding wp_andthen by (rule wp_mono [OF wp_peek [OF b r0(1)]]) (use r0(2) t(2) in \<open>simp add: wp_ret here_Nil del: dropWhile_eq_Nil_conv\<close>)
  qed
  with parse_line_ok [OF b] obtain c where c: "parse_line ?b (length ?l) 0 = Ok c (length ?l)" "map_cmd (text_at ?b) c = C"
      "cmd_ok (word_ok ?b (length ?l)) c"
    by (auto simp: outcome_def elim!: wpE)
  obtain t where t: "parsecmd ?b = Ok c t" "cleared (word_ends c) ?b t" using parsecmd_finish [OF b c(1,3)] by blast
  have "map_cmd (\<lambda>w. str_at t (fst w)) c = map_cmd (text_at ?b) c"
    by (rule cmd.map_cong [OF refl]) (rule str_at_word [OF t(2) c(3) _ buffer_nth(3) [OF b]])
  then show ?thesis using t(1) c(2) by (simp add: wp_def)
qed

text \<open>
  C35: every command, printed as a line of the shell with parentheses where they are needed and any white space around
  it, is read back by \<^verbatim>\<open>parsecmd\<close>: the structure, the strings of the words as the commands will see them, the modes and
  the descriptors of the redirections.
\<close>

theorem parsecmd_show:
  assumes "cmd_ok is_word C" and "list_all white w" and "list_all white w'"
  shows "wp parsecmd (\<lambda>c t. map_cmd (\<lambda>w. str_at t (fst w)) c = C) (w @ show_cmd 3 C @ w' @ 0 # junk)"
  by (rule parsecmd_reads [OF assms])

text \<open>The line \<open>(ls |wc >out ;echo a b &)<in\<close>.\<close>

definition sample_cmd :: "u8 list cmd" where
  "sample_cmd = REDIR (LIST (PIPE (EXEC [ascii ''ls'']) (REDIR (EXEC [ascii ''wc'']) (ascii ''out'') 0x601 1))
     (BACK (EXEC [ascii ''echo'', ascii ''a'', ascii ''b'']))) (ascii ''in'') 0 0"

lemma sample_cmd_ok: "cmd_ok is_word sample_cmd"
  by (simp add: sample_cmd_def ascii_def is_word_def wordc_iff white_iff MAXARGS_def redir_modes)

lemma sample_cmd_line: "show_cmd 3 sample_cmd = ascii ''(ls |wc >out ;echo a b &)<in ''"
  by (simp add: sample_cmd_def ascii_def paren_def redir_op_def const_defs)

theorem parsecmd_show_witness:
  "wp parsecmd (\<lambda>c t. map_cmd (\<lambda>w. str_at t (fst w)) c = sample_cmd) ([9] @ ascii ''(ls |wc >out ;echo a b &)<in '' @ [10] @ 0 # replicate 68 0)"
  unfolding sample_cmd_line [symmetric] by (rule parsecmd_show [OF sample_cmd_ok]) (simp_all add: white_iff)

end
