(* ===== verification/Shrun.thy ===== *)
theory Shrun
  imports Shread
begin

text \<open>
  What the shell starts: with which standard input and output every program of a command runs, for one command and for
  a whole session.
\<close>

subsection \<open>Processes with open files\<close>

text \<open>
  What a descriptor refers to: an object inherited from outside, a file opened for a redirection, or an end of a pipe.
  \<open>launches\<close> follows a tree of system calls that all succeed: \<^verbatim>\<open>open\<close>, \<^verbatim>\<open>dup\<close> and \<^verbatim>\<open>pipe\<close> take the lowest free descriptors,
  as \<^verbatim>\<open>fdalloc\<close> of the kernel does, and a child has a copy of the descriptors. The result is the list of the programs
  started, each with its arguments and its open files; \<open>n\<close> counts the pipes made so far.
\<close>

datatype obj = Inherited nat | Opened "u8 list" int | Pipe_read nat | Pipe_write nat

type_synonym fds = "obj option list"

type_synonym launch = "u8 list list \<times> fds"

primrec free_slot :: "fds \<Rightarrow> nat \<Rightarrow> nat" where
  "free_slot [] i = i"
| "free_slot (x # xs) i = (if x = None then i else free_slot xs (Suc i))"

primrec launches :: "act \<Rightarrow> fds \<Rightarrow> nat \<Rightarrow> launch list \<times> nat" where
  "launches (Exit status) t n = ([], n)"
| "launches (Exec path argv k) t n = ([(argv, t)], n)"
| "launches (Open f mode k) t n = (let fd = free_slot t 0 in launches (k (int fd)) (t[fd := Some (Opened f mode)]) n)"
| "launches (Close fd k) t n = launches k (t[nat fd := None]) n"
| "launches (Dup fd k) t n = (let j = free_slot t 0 in launches (k (int j)) (t[j := t ! nat fd]) n)"
| "launches (Pipe k) t n =
     (let i = free_slot t 0; t = t[i := Some (Pipe_read n)]; j = free_slot t 0 in
      launches (k 0 (int i) (int j)) (t[j := Some (Pipe_write n)]) (Suc n))"
| "launches (Fork k) t n =
     (let (child, n) = launches (k 0) t n; (parent, n) = launches (k 1) t n in (child @ parent, n))"
| "launches (Wait k) t n = launches k t n"
| "launches (Write fd out k) t n = launches k t n"
| "launches (Chdir dir k) t n = launches (k 0) t n"
| "launches Undefined t n = ([], n)"

subsection \<open>The meaning of commands\<close>

text \<open>Only the three standard descriptors are open.\<close>

definition std :: "obj \<Rightarrow> obj \<Rightarrow> obj \<Rightarrow> fds" where
  "std i out err = [Some i, Some out, Some err] @ replicate 13 None"

primrec meaning :: "u8 list cmd \<Rightarrow> obj \<Rightarrow> obj \<Rightarrow> obj \<Rightarrow> nat \<Rightarrow> launch list \<times> nat" where
  "meaning (EXEC args) i out err n = (if args = [] then [] else [(args, std i out err)], n)"
| "meaning (REDIR c f mode fd) i out err n =
     (if fd = 0 then meaning c (Opened f mode) out err n else meaning c i (Opened f mode) err n)"
| "meaning (PIPE l r) i out err n =
     (let (left, n1) = meaning l i (Pipe_write n) err (Suc n); (right, n2) = meaning r (Pipe_read n) out err n1 in (left @ right, n2))"
| "meaning (LIST l r) i out err n =
     (let (left, n1) = meaning l i out err n; (right, n2) = meaning r i out err n1 in (left @ right, n2))"
| "meaning (BACK c) i out err n = meaning c i out err n"

lemma runcmd_means:
  "cmd_ok P c \<Longrightarrow> launches (runcmd c) (std i out err) n = meaning c i out err n"
proof (induction c arbitrary: i out err n)
  case (EXEC args)
  then show ?case by (cases args) simp_all
next
  case (REDIR c f mode fd)
  then have "fd = 0 \<or> fd = 1" by (auto simp: redirections_def)
  then show ?case using REDIR by (auto simp: std_def numeral_eq_Suc)
next
  case (PIPE l r)
  then show ?case
    by (auto simp: fork1_def std_def Let_def numeral_eq_Suc split: prod.splits)
next
  case (LIST l r)
  then show ?case by (auto simp: fork1_def split: prod.splits)
next
  case (BACK c)
  then show ?case by (auto simp: fork1_def split: prod.splits)
qed

subsection \<open>A session\<close>

lemma gets_loop_line:
  assumes "10 \<notin> set line" and "13 \<notin> set line" and "int (i + length line) + 1 < m"
  shows "gets_loop i m (line @ 10 # rest) = (line @ [10], rest)"
  using assms
proof (induction line arbitrary: i)
  case Nil
  then show ?case by (subst gets_loop.simps) simp
next
  case (Cons c line)
  have "gets_loop (Suc i) m (line @ 10 # rest) = (line @ [10], rest)" using Cons by simp
  then show ?case using Cons.prems by (subst gets_loop.simps) auto
qed

lemma show_one_line: "cmd_ok is_word C \<Longrightarrow> 10 \<notin> set (show_cmd k C) \<and> 13 \<notin> set (show_cmd k C)"
  by (induction C arbitrary: k) (auto simp: paren_def redir_op_def is_word_def list_all_iff wordc_def white_iff)

text \<open>A command that is typed in on one line, and is not \<^verbatim>\<open>cd\<close>, which the shell runs itself.\<close>

definition typed :: "u8 list cmd \<Rightarrow> bool" where
  "typed C \<longleftrightarrow> cmd_ok is_word C \<and> length (show_cmd 3 C) < 99 \<and> take 3 (show_cmd 3 C) \<noteq> ascii ''cd ''"

lemma typed_getcmd:
  assumes "typed C"
  shows "getcmd (show_cmd 3 C @ 10 # rest) = (show_cmd 3 C @ [10] @ 0 # replicate (98 - length (show_cmd 3 C)) 0, rest)"
proof -
  have l: "length (show_cmd 3 C) < 99" and ok: "cmd_ok is_word C" using assms by (simp_all add: typed_def)
  have "gets_loop 0 100 (show_cmd 3 C @ 10 # rest) = (show_cmd 3 C @ [10], rest)"
    using show_one_line [OF ok] l by (intro gets_loop_line) auto
  moreover have "replicate (99 - length (show_cmd 3 C)) 0 = (0 :: u8) # replicate (98 - length (show_cmd 3 C)) 0"
    using l by (cases "99 - length (show_cmd 3 C)") (auto simp: Suc_diff_Suc [symmetric] simp flip: replicate_Suc)
  ultimately show ?thesis by (simp add: getcmd_def ugets_def)
qed

lemma run_line_typed:
  assumes "cmd_ok is_word C"
  shows "run_line (show_cmd 3 C @ [10] @ 0 # junk) = runcmd C"
proof -
  have "wp parsecmd (\<lambda>c t. map_cmd (\<lambda>w. str_at t (fst w)) c = C) ([] @ show_cmd 3 C @ [10] @ 0 # junk)"
    by (rule parsecmd_reads [OF assms]) (simp_all add: white_iff)
  then show ?thesis by (auto simp: run_line_def strings_def wp_def split: res.splits)
qed

lemma main_loop_typed:
  assumes "typed C"
  shows "launches (main_loop (show_cmd 3 C @ 10 # rest)) (std i out err) n =
    (let (ls, n1) = meaning C i out err n; (ls', n2) = launches (main_loop rest) (std i out err) n1 in (ls @ ls', n2))"
proof -
  have ok: "cmd_ok is_word C" using assms by (simp add: typed_def)
  define buf where "buf = show_cmd 3 C @ [10] @ 0 # replicate (98 - length (show_cmd 3 C)) 0"
  have nz: "buf ! 0 \<noteq> 0" using show_nonzero [OF ok, of 3] by (cases "show_cmd 3 C") (auto simp: buf_def)
  have cd: "\<not> (buf ! 0 = of_char CHR ''c'' \<and> buf ! 1 = of_char CHR ''d'' \<and> buf ! 2 = 32)"
  proof
    assume a: "buf ! 0 = of_char CHR ''c'' \<and> buf ! 1 = of_char CHR ''d'' \<and> buf ! 2 = 32"
    then have "2 < length (show_cmd 3 C)"
      by (cases "show_cmd 3 C" rule: remdups_adj.cases; cases "tl (tl (show_cmd 3 C))") (auto simp: buf_def)
    then have "take 3 (show_cmd 3 C) = [buf ! 0, buf ! 1, buf ! 2]"
      by (auto simp: buf_def nth_append numeral_3_eq_3 numeral_2_eq_2 take_Suc_conv_app_nth)
    then show False using a assms by (simp add: typed_def ascii_def)
  qed
  have "main_loop (show_cmd 3 C @ 10 # rest) =
      Write 2 (ascii ''$ '') (fork1 (\<lambda>pid. if pid = 0 then run_line buf else Wait (main_loop rest)))"
    using typed_getcmd [OF assms, of rest] nz cd unfolding buf_def [symmetric]
    by (subst main_loop.simps) (simp only: Let_def case_prod_conv if_False)
  then show ?thesis
    using run_line_typed [OF ok] runcmd_means [OF ok] by (simp add: fork1_def buf_def Let_def)
qed

primrec session :: "u8 list cmd list \<Rightarrow> obj \<Rightarrow> obj \<Rightarrow> obj \<Rightarrow> nat \<Rightarrow> launch list \<times> nat" where
  "session [] i out err n = ([], n)"
| "session (C # Cs) i out err n =
     (let (ls, n1) = meaning C i out err n; (ls', n2) = session Cs i out err n1 in (ls @ ls', n2))"

definition keyboard :: "u8 list cmd list \<Rightarrow> u8 list" where
  "keyboard Cs = concat (map (\<lambda>C. show_cmd 3 C @ [10]) Cs)"

text \<open>
  C34: a whole session of the shell: for commands other than \<^verbatim>\<open>cd\<close>, typed in one per line of less than 99 characters, the shell starts exactly the programs of these
  commands in order, each with its arguments and with exactly its standard input, output and error open, as the
  redirections and pipes around it say; no program inherits another end of a pipe.
\<close>

theorem shell_session:
  assumes "list_all typed Cs"
  shows "launches (sh_main (keyboard Cs)) (std i out err) n = session Cs i out err n"
proof -
  have "launches (main_loop (keyboard Cs)) (std i out err) n = session Cs i out err n"
    using assms
  proof (induction Cs arbitrary: n)
    case Nil
    then show ?case by (subst main_loop.simps) (simp add: keyboard_def getcmd_def ugets_def gets_loop.simps)
  next
    case (Cons C Cs)
    have "keyboard (C # Cs) = show_cmd 3 C @ 10 # keyboard Cs" by (simp add: keyboard_def)
    then show ?case using Cons main_loop_typed [of C "keyboard Cs"] by (auto split: prod.splits)
  qed
  moreover have "(std i out err)[3 := Some x, 3 := None] = std i out err" for x by (simp add: std_def numeral_eq_Suc)
  ultimately show ?thesis by (simp add: sh_main_def std_def numeral_eq_Suc)
qed

theorem shell_session_witness:
  "launches (sh_main (ascii ''(ls |wc >out ;echo a b &)<in '' @ [10])) (std (Inherited 0) (Inherited 0) (Inherited 0)) 0 =
    ([([ascii ''ls''], std (Opened (ascii ''in'') 0) (Pipe_write 0) (Inherited 0)),
      ([ascii ''wc''], std (Pipe_read 0) (Opened (ascii ''out'') 0x601) (Inherited 0)),
      ([ascii ''echo'', ascii ''a'', ascii ''b''], std (Opened (ascii ''in'') 0) (Inherited 0) (Inherited 0))], 1)"
proof -
  have "typed sample_cmd" by (simp add: typed_def sample_cmd_ok sample_cmd_line ascii_def)
  then have "launches (sh_main (keyboard [sample_cmd])) (std (Inherited 0) (Inherited 0) (Inherited 0)) 0 =
      session [sample_cmd] (Inherited 0) (Inherited 0) (Inherited 0) 0"
    by (intro shell_session) simp
  then show ?thesis by (simp add: keyboard_def sample_cmd_line) (simp add: sample_cmd_def)
qed

end
