(* ===== verification/Userprog.thy ===== *)
theory Userprog
  imports Printf Ulib Filetab
begin

text \<open>
  The user programs \<^verbatim>\<open>cat\<close>, \<^verbatim>\<open>wc\<close>, \<^verbatim>\<open>echo\<close>, \<^verbatim>\<open>kill\<close>, \<^verbatim>\<open>ln\<close>, \<^verbatim>\<open>mkdir\<close>, \<^verbatim>\<open>rm\<close>, \<^verbatim>\<open>ls\<close>, \<^verbatim>\<open>zombie\<close> and \<^verbatim>\<open>init\<close> under
  \<^verbatim>\<open>user/\<close>. A program is run against the replies of the kernel to its system calls: the state lists the replies still to
  come and the calls made so far. A call without a reply is one that has not returned, the outcome \<open>Sleeps\<close>. Every
  round of a loop that makes a call uses up a reply, which bounds the loops that may run forever. \<open>argv\<close> is
  the list of the argument strings, the name of the program first.
\<close>

subsection \<open>System calls\<close>

datatype call =
    SysOpen "u8 list" int | SysClose int | SysRead int nat | SysWrite int "u8 list" | SysFstat int | SysDup int
  | SysFork | SysWait | SysExec "u8 list" "u8 list list" | SysKill int | SysSleep int
  | SysLink "u8 list" "u8 list" | SysUnlink "u8 list" | SysMkdir "u8 list" | SysMknod "u8 list" int int | SysExit int

text \<open>A reply: the value returned, and the bytes the call stored in the memory of the process.\<close>

type_synonym reply = "int \<times> u8 list"

record os =
  replies :: "reply list"
  calls :: "call list"

definition sys :: "call \<Rightarrow> (os, reply) prog" where
  "sys c =
     bnd (gets replies) (\<lambda>rs.
     case rs of
       [] \<Rightarrow> fails (Sleeps ''system call'')
     | r # rs' \<Rightarrow> andthen (modify (\<lambda>s. s\<lparr>replies := rs', calls := calls s @ [c]\<rparr>)) (ret r))"

text \<open>A call of which the result is not used.\<close>

definition sysdo :: "call \<Rightarrow> (os, unit) prog" where
  "sysdo c = andthen (sys c) (ret ())"

text \<open>\<^verbatim>\<open>exit\<close> does not return: a function that may call it returns \<open>None\<close> then.\<close>

definition uexit :: "int \<Rightarrow> (os, 'a option) prog" where
  "uexit st = andthen (modify (\<lambda>s. s\<lparr>calls := calls s @ [SysExit st]\<rparr>)) (ret None)"

definition unless_exit :: "(os, 'a option) prog \<Rightarrow> ('a \<Rightarrow> (os, 'b option) prog) \<Rightarrow> (os, 'b option) prog" where
  "unless_exit m f = bnd m (\<lambda>r. case r of None \<Rightarrow> ret None | Some a \<Rightarrow> f a)"

text \<open>\<^verbatim>\<open>putc\<close> and \<^verbatim>\<open>fprintf\<close> of \<^verbatim>\<open>user/printf.c\<close>: one write for each byte.\<close>

definition uputc :: "int \<Rightarrow> u8 \<Rightarrow> (os, unit) prog" where
  "uputc fd c = sysdo (SysWrite fd [c])"

definition ufprintf :: "int \<Rightarrow> u8 list \<Rightarrow> arg list \<Rightarrow> (os, unit) prog" where
  "ufprintf fd fmt ap = (case vprintf False fmt ap of None \<Rightarrow> fails (Fault ''printf'') | Some out \<Rightarrow> for_each out (uputc fd))"

definition nl :: u8 where "nl = 10"

text \<open>More rounds than replies are never needed.\<close>

definition rounds :: "(nat \<Rightarrow> (os, 'a) prog) \<Rightarrow> (os, 'a) prog" where
  "rounds f = bnd (gets (\<lambda>s. Suc (length (replies s)))) f"

text \<open>\<^verbatim>\<open>_main\<close> of \<^verbatim>\<open>user/ulib.c\<close>, around a program that may return from \<^verbatim>\<open>main\<close>.\<close>

definition umain :: "(os, unit option) prog \<Rightarrow> (os, unit option) prog" where
  "umain main = unless_exit main (\<lambda>_. uexit 0)"

subsection \<open>cat\<close>

primrec cat_loop :: "nat \<Rightarrow> int \<Rightarrow> (os, unit option) prog" where
  "cat_loop 0 fd = fails (Fault ''cat: out of fuel'')"
| "cat_loop (Suc fuel) fd =
     bnd (sys (SysRead fd 512)) (\<lambda>(n, buf).
     if n > 0 then
       bnd (sys (SysWrite 1 (take (nat n) buf))) (\<lambda>(w, _).
       if w \<noteq> n then andthen (ufprintf 2 (ascii ''cat: write error'' @ [nl]) []) (uexit 1)
       else cat_loop fuel fd)
     else if n < 0 then andthen (ufprintf 2 (ascii ''cat: read error'' @ [nl]) []) (uexit 1)
     else ret (Some ()))"

definition cat :: "int \<Rightarrow> (os, unit option) prog" where
  "cat fd = rounds (\<lambda>n. cat_loop n fd)"

primrec cat_files :: "u8 list list \<Rightarrow> (os, unit option) prog" where
  "cat_files [] = uexit 0"
| "cat_files (a # as) =
     bnd (sys (SysOpen a O_RDONLY)) (\<lambda>(fd, _).
     if fd < 0 then andthen (ufprintf 2 (ascii ''cat: cannot open %s'' @ [nl]) [AStr (Some a)]) (uexit 1)
     else unless_exit (cat fd) (\<lambda>_. andthen (sysdo (SysClose fd)) (cat_files as)))"

definition cat_main :: "u8 list list \<Rightarrow> (os, unit option) prog" where
  "cat_main argv = (if length argv \<le> 1 then unless_exit (cat 0) (\<lambda>_. uexit 0) else cat_files (tl argv))"

subsection \<open>wc\<close>

text \<open>The counters are 32-bit integers.\<close>

record counts =
  wc_l :: u32
  wc_w :: u32
  wc_c :: u32
  wc_inword :: bool

definition wc_seps :: "u8 list" where
  "wc_seps = [32, 13, 9, 10, 11]"

definition wc_byte :: "u8 \<Rightarrow> counts \<Rightarrow> counts" where
  "wc_byte b s =
     (let s = s\<lparr>wc_c := wc_c s + 1\<rparr>;
          s = (if b = nl then s\<lparr>wc_l := wc_l s + 1\<rparr> else s)
      in if strchr wc_seps b \<noteq> None then s\<lparr>wc_inword := False\<rparr>
         else if \<not> wc_inword s then s\<lparr>wc_w := wc_w s + 1, wc_inword := True\<rparr>
         else s)"

primrec wc_loop :: "nat \<Rightarrow> int \<Rightarrow> u8 list \<Rightarrow> counts \<Rightarrow> (os, unit option) prog" where
  "wc_loop 0 fd name s = fails (Fault ''wc: out of fuel'')"
| "wc_loop (Suc fuel) fd name s =
     bnd (sys (SysRead fd 512)) (\<lambda>(n, buf).
     if n > 0 then wc_loop fuel fd name (fold wc_byte (take (nat n) buf) s)
     else if n < 0 then andthen (ufprintf 1 (ascii ''wc: read error'' @ [nl]) []) (uexit 1)
     else
       andthen (ufprintf 1 (ascii ''%d %d %d %s'' @ [nl]) [AInt (wc_l s), AInt (wc_w s), AInt (wc_c s), AStr (Some name)])
       (ret (Some ())))"

definition wc :: "int \<Rightarrow> u8 list \<Rightarrow> (os, unit option) prog" where
  "wc fd name = rounds (\<lambda>n. wc_loop n fd name \<lparr>wc_l = 0, wc_w = 0, wc_c = 0, wc_inword = False\<rparr>)"

primrec wc_files :: "u8 list list \<Rightarrow> (os, unit option) prog" where
  "wc_files [] = uexit 0"
| "wc_files (a # as) =
     bnd (sys (SysOpen a O_RDONLY)) (\<lambda>(fd, _).
     if fd < 0 then andthen (ufprintf 1 (ascii ''wc: cannot open %s'' @ [nl]) [AStr (Some a)]) (uexit 1)
     else unless_exit (wc fd a) (\<lambda>_. andthen (sysdo (SysClose fd)) (wc_files as)))"

definition wc_main :: "u8 list list \<Rightarrow> (os, unit option) prog" where
  "wc_main argv = (if length argv \<le> 1 then unless_exit (wc 0 []) (\<lambda>_. uexit 0) else wc_files (tl argv))"

subsection \<open>echo, kill, ln, mkdir, rm, zombie\<close>

primrec echo_args :: "u8 list list \<Rightarrow> (os, unit) prog" where
  "echo_args [] = ret ()"
| "echo_args (a # as) =
     andthen (sysdo (SysWrite 1 a))
     (andthen (sysdo (SysWrite 1 (if as \<noteq> [] then [32] else [nl])))
     (echo_args as))"

definition echo_main :: "u8 list list \<Rightarrow> (os, unit option) prog" where
  "echo_main argv = andthen (echo_args (tl argv)) (uexit 0)"

definition kill_main :: "u8 list list \<Rightarrow> (os, unit option) prog" where
  "kill_main argv =
     (if length argv < 2 then andthen (ufprintf 2 (ascii ''usage: kill pid...'' @ [nl]) []) (uexit 1)
      else andthen (for_each (tl argv) (\<lambda>a. sysdo (SysKill (sint (atoi a))))) (uexit 0))"

definition ln_main :: "u8 list list \<Rightarrow> (os, unit option) prog" where
  "ln_main argv =
     (if length argv \<noteq> 3 then andthen (ufprintf 2 (ascii ''Usage: ln old new'' @ [nl]) []) (uexit 1)
      else
        bnd (sys (SysLink (argv ! 1) (argv ! 2))) (\<lambda>(r, _).
        andthen
          (if r < 0 then ufprintf 2 (ascii ''link %s %s: failed'' @ [nl]) [AStr (Some (argv ! 1)), AStr (Some (argv ! 2))] else ret ())
        (uexit 0)))"

text \<open>The loops of \<^verbatim>\<open>mkdir\<close> and \<^verbatim>\<open>rm\<close> stop at the first failure.\<close>

primrec each_until :: "(u8 list \<Rightarrow> call) \<Rightarrow> u8 list \<Rightarrow> u8 list list \<Rightarrow> (os, unit) prog" where
  "each_until c msg [] = ret ()"
| "each_until c msg (a # as) =
     bnd (sys (c a)) (\<lambda>(r, _).
     if r < 0 then ufprintf 2 msg [AStr (Some a)] else each_until c msg as)"

definition mkdir_main :: "u8 list list \<Rightarrow> (os, unit option) prog" where
  "mkdir_main argv =
     (if length argv < 2 then andthen (ufprintf 2 (ascii ''Usage: mkdir files...'' @ [nl]) []) (uexit 1)
      else andthen (each_until SysMkdir (ascii ''mkdir: %s failed to create'' @ [nl]) (tl argv)) (uexit 0))"

definition rm_main :: "u8 list list \<Rightarrow> (os, unit option) prog" where
  "rm_main argv =
     (if length argv < 2 then andthen (ufprintf 2 (ascii ''Usage: rm files...'' @ [nl]) []) (uexit 1)
      else andthen (each_until SysUnlink (ascii ''rm: %s failed to delete'' @ [nl]) (tl argv)) (uexit 0))"

definition zombie_main :: "(os, unit option) prog" where
  "zombie_main =
     bnd (sys SysFork) (\<lambda>(pid, _).
     andthen (if pid > 0 then sysdo (SysSleep 5) else ret ()) (uexit 0))"

subsection \<open>ls\<close>

text \<open>The first character after the last slash, searched from the end of the path, where the NUL is.\<close>

primrec after_slash :: "u8 list \<Rightarrow> nat \<Rightarrow> nat" where
  "after_slash path 0 = 0"
| "after_slash path (Suc i) = (if path ! i = of_char CHR ''/'' then Suc i else after_slash path i)"

text \<open>Fourteen blank-padded bytes, from the static buffer whose fifteenth byte stays NUL.\<close>

definition fmtname :: "u8 list \<Rightarrow> u8 list" where
  "fmtname path =
     (let p = drop (after_slash path (length path)) path in
      if length p \<ge> DIRSIZ then p else p @ replicate (DIRSIZ - length p) 32)"

text \<open>\<^verbatim>\<open>stat\<close> of \<^verbatim>\<open>user/ulib.c\<close>, with the 24 bytes of the structure.\<close>

definition ustat :: "u8 list \<Rightarrow> (os, reply) prog" where
  "ustat n =
     bnd (sys (SysOpen n O_RDONLY)) (\<lambda>(fd, _).
     if fd < 0 then ret (- 1, [])
     else bnd (sys (SysFstat fd)) (\<lambda>(r, st). andthen (sysdo (SysClose fd)) (ret (r, st))))"

definition ls_line :: "u8 list \<Rightarrow> u8 list \<Rightarrow> (os, unit) prog" where
  "ls_line path st = ufprintf 1 (ascii ''%s %d %d %d'' @ [nl])
     [AStr (Some (fmtname path)), AInt (scast (get16 st 8)), AInt (get32 st 4), AInt (get32 st 16)]"

primrec ls_entries :: "nat \<Rightarrow> int \<Rightarrow> u8 list \<Rightarrow> (os, unit) prog" where
  "ls_entries 0 fd path = fails (Fault ''ls: out of fuel'')"
| "ls_entries (Suc fuel) fd path =
     bnd (sys (SysRead fd 16)) (\<lambda>(n, de).
     if n \<noteq> 16 then ret ()
     else if get16 de 0 = 0 then ls_entries fuel fd path
     else
       let buf = takeWhile (\<lambda>c. c \<noteq> 0) (path @ [of_char CHR ''/''] @ take DIRSIZ (drop 2 de)) in
       bnd (ustat buf) (\<lambda>(r, st).
       andthen (if r < 0 then ufprintf 1 (ascii ''ls: cannot stat %s'' @ [nl]) [AStr (Some buf)] else ls_line buf st)
       (ls_entries fuel fd path)))"

definition ls :: "u8 list \<Rightarrow> (os, unit) prog" where
  "ls path =
     bnd (sys (SysOpen path O_RDONLY)) (\<lambda>(fd, _).
     if fd < 0 then ufprintf 2 (ascii ''ls: cannot open %s'' @ [nl]) [AStr (Some path)]
     else
       bnd (sys (SysFstat fd)) (\<lambda>(r, st).
       if r < 0 then
         andthen (ufprintf 2 (ascii ''ls: cannot stat %s'' @ [nl]) [AStr (Some path)]) (sysdo (SysClose fd))
       else
         andthen
           (if get16 st 8 = T_DEVICE \<or> get16 st 8 = T_FILE then ls_line path st
            else if get16 st 8 = T_DIR then
              if length path + 1 + DIRSIZ + 1 > 512 then ufprintf 1 (ascii ''ls: path too long'' @ [nl]) []
              else rounds (\<lambda>n. ls_entries n fd path)
            else ret ())
         (sysdo (SysClose fd))))"

definition ls_main :: "u8 list list \<Rightarrow> (os, unit option) prog" where
  "ls_main argv =
     (if length argv < 2 then andthen (ls (ascii ''.'')) (uexit 0)
      else andthen (for_each (tl argv) ls) (uexit 0))"

subsection \<open>init\<close>

primrec init_wait :: "nat \<Rightarrow> int \<Rightarrow> (os, unit option) prog" where
  "init_wait 0 pid = fails (Fault ''init: out of fuel'')"
| "init_wait (Suc fuel) pid =
     bnd (sys SysWait) (\<lambda>(wpid, _).
     if wpid = pid then ret (Some ())
     else if wpid < 0 then andthen (ufprintf 1 (ascii ''init: wait returned an error'' @ [nl]) []) (uexit 1)
     else init_wait fuel pid)"

primrec init_loop :: "nat \<Rightarrow> (os, unit option) prog" where
  "init_loop 0 = fails (Fault ''init: out of fuel'')"
| "init_loop (Suc fuel) =
     andthen (ufprintf 1 (ascii ''init: starting sh'' @ [nl]) [])
     (bnd (sys SysFork) (\<lambda>(pid, _).
      if pid < 0 then andthen (ufprintf 1 (ascii ''init: fork failed'' @ [nl]) []) (uexit 1)
      else if pid = 0 then
        andthen (sysdo (SysExec (ascii ''sh'') [ascii ''sh'']))
        (andthen (ufprintf 1 (ascii ''init: exec sh failed'' @ [nl]) []) (uexit 1))
      else unless_exit (rounds (\<lambda>n. init_wait n pid)) (\<lambda>_. init_loop fuel)))"

definition init_main :: "(os, unit option) prog" where
  "init_main =
     bnd (sys (SysOpen (ascii ''console'') O_RDWR)) (\<lambda>(fd, _).
     andthen
       (if fd < 0 then
          andthen (sysdo (SysMknod (ascii ''console'') (int CONSOLE) 0)) (sysdo (SysOpen (ascii ''console'') O_RDWR))
        else ret ())
     (andthen (sysdo (SysDup 0))
     (andthen (sysdo (SysDup 0))
     (rounds init_loop))))"

end
