(* ===== verification/Userrun.thy ===== *)
theory Userrun
  imports Userprog
begin

text \<open>
  What \<^verbatim>\<open>cat\<close> and \<^verbatim>\<open>wc\<close> do, for any way the kernel cuts the input into pieces.
\<close>

subsection \<open>Calls with replies\<close>

text \<open>What the calls wrote to a descriptor.\<close>

fun written :: "int \<Rightarrow> call \<Rightarrow> u8 list" where
  "written fd (SysWrite f b) = (if f = fd then b else [])"
| "written fd _ = []"

definition wrote :: "int \<Rightarrow> call list \<Rightarrow> u8 list" where
  "wrote fd cs = concat (map (written fd) cs)"

lemma wrote_snoc [simp]: "wrote fd (cs @ [c]) = wrote fd cs @ written fd c"
  by (simp add: wrote_def)

lemma wp_sys [wp_simps]: "replies s = r # rs \<Longrightarrow> wp (sys c) Q s \<longleftrightarrow> Q r (s\<lparr>replies := rs, calls := calls s @ [c]\<rparr>)"
  by (simp add: sys_def wp_simps)

lemma wp_sysdo [wp_simps]: "replies s = r # rs \<Longrightarrow> wp (sysdo c) Q s \<longleftrightarrow> Q () (s\<lparr>replies := rs, calls := calls s @ [c]\<rparr>)"
  by (simp add: sysdo_def wp_simps)

lemma wp_uputc [wp_simps]: "replies s = r # rs \<Longrightarrow> wp (uputc fd c) Q s \<longleftrightarrow> Q () (s\<lparr>replies := rs, calls := calls s @ [SysWrite fd [c]]\<rparr>)"
  by (simp add: uputc_def wp_sysdo)

lemma wp_uexit [wp_simps]: "wp (uexit st) Q s \<longleftrightarrow> Q None (s\<lparr>calls := calls s @ [SysExit st]\<rparr>)"
  by (simp add: uexit_def wp_simps)

lemma wp_unless_exit [wp_simps]: "wp (unless_exit m f) Q s \<longleftrightarrow> wp m (\<lambda>r t. case r of None \<Rightarrow> Q None t | Some a \<Rightarrow> wp (f a) Q t) s"
  by (auto simp: unless_exit_def wp_bnd wp_ret elim!: wp_mono split: option.splits)

lemma wp_rounds [wp_simps]: "wp (rounds f) Q s \<longleftrightarrow> wp (f (Suc (length (replies s)))) Q s"
  by (simp add: rounds_def wp_simps)

text \<open>Printing takes one reply for each byte.\<close>

lemma wp_print:
  assumes "replies s = ws @ rest" and "length ws = length out"
  shows "wp (for_each out (uputc fd)) (\<lambda>_ t. t = s\<lparr>replies := rest, calls := calls s @ map (\<lambda>c. SysWrite fd [c]) out\<rparr>) s"
  using assms
proof (induction out arbitrary: ws s)
  case Nil
  then show ?case by (simp add: wp_simps)
next
  case (Cons c out)
  then obtain r ws' where ws: "ws = r # ws'" by (cases ws) auto
  let ?s = "s\<lparr>replies := ws' @ rest, calls := calls s @ [SysWrite fd [c]]\<rparr>"
  have "wp (for_each out (uputc fd)) (\<lambda>_ t. t = ?s\<lparr>replies := rest, calls := calls ?s @ map (\<lambda>c. SysWrite fd [c]) out\<rparr>) ?s"
    using Cons ws by (intro Cons.IH) simp_all
  then show ?case using Cons.prems ws by (simp add: wp_simps)
qed

lemma wrote_bytes: "wrote fd (cs @ map (\<lambda>c. SysWrite fd [c]) out) = wrote fd cs @ out"
  by (induction out arbitrary: cs) (simp_all add: wrote_def)

subsection \<open>cat\<close>

text \<open>The replies to the reads of one file and to the writes of what was read.\<close>

definition copying :: "u8 list list \<Rightarrow> reply list" where
  "copying cs = concat (map (\<lambda>c. [(int (length c), c), (int (length c), [])]) cs) @ [(0, [])]"

lemma cat_loop_run:
  assumes "replies s = copying cs @ rest" and "\<forall>c \<in> set cs. c \<noteq> []" and "length cs < fuel"
  shows "wp (cat_loop fuel fd) (\<lambda>r t. r = Some () \<and> replies t = rest \<and> wrote 1 (calls t) = wrote 1 (calls s) @ concat cs) s"
  using assms
proof (induction cs arbitrary: s fuel)
  case Nil
  then obtain f where "fuel = Suc f" by (cases fuel) auto
  then show ?case using Nil by (simp add: copying_def wp_simps)
next
  case (Cons c cs)
  obtain f where f: "fuel = Suc f" using Cons.prems(3) by (cases fuel) auto
  let ?s = "s\<lparr>replies := copying cs @ rest, calls := calls s @ [SysRead fd 512, SysWrite 1 c]\<rparr>"
  have "wp (cat_loop f fd) (\<lambda>r t. r = Some () \<and> replies t = rest \<and> wrote 1 (calls t) = wrote 1 (calls ?s) @ concat cs) ?s"
    using Cons.prems f by (intro Cons.IH) simp_all
  moreover have "wrote 1 (calls ?s) = wrote 1 (calls s) @ c" by (simp add: wrote_def)
  ultimately show ?case
    using Cons.prems f by (simp add: copying_def wp_simps)
qed

text \<open>The replies to a whole run over files: \<open>open\<close>, the copying, \<open>close\<close>.\<close>

definition file_replies :: "int \<times> u8 list list \<times> reply \<Rightarrow> reply list" where
  "file_replies = (\<lambda>(fd, cs, cl). (fd, []) # copying cs @ [cl])"

lemma cat_files_run:
  assumes "replies s = concat (map file_replies fs) @ rest" and "length as = length fs"
    and "\<forall>(fd, cs, cl) \<in> set fs. 0 \<le> fd \<and> [] \<notin> set cs"
  shows "wp (cat_files as) (\<lambda>r t. r = None \<and> replies t = rest \<and> last (calls t) = SysExit 0 \<and>
    wrote 1 (calls t) = wrote 1 (calls s) @ concat (concat (map (\<lambda>(fd, cs, cl). cs) fs))) s"
  using assms
proof (induction as arbitrary: fs s)
  case Nil
  then show ?case by (simp add: wp_simps)
next
  case (Cons a as)
  obtain fd cs cl fs' where fs: "fs = (fd, cs, cl) # fs'" using Cons.prems(2) by (cases fs) auto
  let ?rest = "cl # concat (map file_replies fs') @ rest"
  let ?s = "s\<lparr>replies := copying cs @ ?rest, calls := calls s @ [SysOpen a O_RDONLY]\<rparr>"
  have cat: "wp (cat fd) (\<lambda>r t. r = Some () \<and> replies t = ?rest \<and> wrote 1 (calls t) = wrote 1 (calls ?s) @ concat cs) ?s"
    unfolding cat_def wp_rounds using Cons.prems(3) fs
    by (intro cat_loop_run) (auto simp: copying_def length_concat sum_list_triv comp_def)
  have next_file: "wp (cat_files as) (\<lambda>r t. r = None \<and> replies t = rest \<and> last (calls t) = SysExit 0 \<and>
      wrote 1 (calls t) = wrote 1 (calls u) @ concat (concat (map (\<lambda>(fd, cs, cl). cs) fs'))) u"
    if "replies u = concat (map file_replies fs') @ rest" for u
    using Cons.prems fs that by (intro Cons.IH) auto
  have "wp (unless_exit (cat fd) (\<lambda>_. andthen (sysdo (SysClose fd)) (cat_files as))) (\<lambda>r t. r = None \<and> replies t = rest \<and> last (calls t) = SysExit 0 \<and>
      wrote 1 (calls t) = wrote 1 (calls s) @ concat cs @ concat (concat (map (\<lambda>(fd, cs, cl). cs) fs'))) ?s"
    unfolding wp_unless_exit
  proof (rule wp_mono [OF cat], clarsimp)
    fix t :: os assume t: "replies t = ?rest" "wrote 1 (calls t) = wrote 1 (calls s) @ concat cs"
    let ?u = "t\<lparr>replies := concat (map file_replies fs') @ rest, calls := calls t @ [SysClose fd]\<rparr>"
    show "wp (andthen (sysdo (SysClose fd)) (cat_files as)) (\<lambda>r t. r = None \<and> replies t = rest \<and> last (calls t) = SysExit 0 \<and>
      wrote 1 (calls t) = wrote 1 (calls s) @ concat cs @ concat (concat (map (\<lambda>(fd, cs, cl). cs) fs'))) t"
      using next_file [of ?u] t by (simp add: wp_simps)
  qed
  then show ?case using Cons.prems fs by (simp add: wp_simps file_replies_def)
qed

text \<open>
  \<^verbatim>\<open>cat\<close> of one or more files writes to its standard output the contents of the files one after the
  other, whatever pieces the reads return, and exits with 0, if no call fails.
\<close>

theorem cat_copies:
  assumes "replies s = concat (map file_replies fs) @ rest" and "length argv = Suc (length fs)" and "fs \<noteq> []"
    and "\<forall>(fd, cs, cl) \<in> set fs. 0 \<le> fd \<and> [] \<notin> set cs"
  shows "wp (cat_main argv) (\<lambda>r t. r = None \<and> replies t = rest \<and> last (calls t) = SysExit 0 \<and>
    wrote 1 (calls t) = wrote 1 (calls s) @ concat (concat (map (\<lambda>(fd, cs, cl). cs) fs))) s"
  using cat_files_run [OF assms(1) _ assms(4), of "tl argv"] assms(2,3) by (simp add: cat_main_def)

theorem cat_copies_witness:
  "wp (cat_main [[99], [97], [98]]) (\<lambda>r t. r = None \<and> replies t = [] \<and> last (calls t) = SysExit 0 \<and> wrote 1 (calls t) = [104, 105, 33, 10])
     \<lparr>replies = [(3, []), (2, [104, 105]), (2, []), (1, [33]), (1, []), (0, []), (0, []), (3, []), (1, [10]), (1, []), (0, []), (0, [])],
       calls = []\<rparr>"
  using cat_copies [of "\<lparr>replies = [(3, []), (2, [104, 105]), (2, []), (1, [33]), (1, []), (0, []), (0, []), (3, []), (1, [10]), (1, []),
    (0, []), (0, [])], calls = []\<rparr>" "[(3, [[104, 105], [33]], (0, [])), (3, [[10]], (0, []))]" "[]" "[[99], [97], [98]]"]
  by (simp add: file_replies_def copying_def wrote_def)

subsection \<open>wc\<close>

text \<open>What \<^verbatim>\<open>wc\<close> counts: newlines, words (runs of bytes other than the five separators), bytes.\<close>

definition is_sep :: "u8 \<Rightarrow> bool" where
  "is_sep b \<longleftrightarrow> b \<in> {32, 13, 9, 10, 11}"

function words_of :: "u8 list \<Rightarrow> u8 list list" where
  "words_of s =
     (case dropWhile is_sep s of
        [] \<Rightarrow> []
      | c # s' \<Rightarrow> (c # takeWhile (\<lambda>b. \<not> is_sep b) s') # words_of (dropWhile (\<lambda>b. \<not> is_sep b) s'))"
  by pat_completeness auto
termination
proof (relation "measure length", simp)
  fix s :: "u8 list" and c s'
  assume "dropWhile is_sep s = c # s'"
  then have "length s' < length s" using length_dropWhile_le [of is_sep s] by simp
  then show "(dropWhile (\<lambda>b. \<not> is_sep b) s', s) \<in> measure length"
    using length_dropWhile_le [of "\<lambda>b. \<not> is_sep b" s'] by simp
qed

declare words_of.simps [simp del]

definition line_count :: "u8 list \<Rightarrow> nat" where
  "line_count s = count_list s 10"

lemma strchr_seps: "strchr wc_seps b \<noteq> None \<longleftrightarrow> is_sep b"
  by (simp add: strchr_def wc_seps_def is_sep_def)

lemma words_of_sep: "is_sep c \<Longrightarrow> words_of (c # s) = words_of s"
  by (subst (1 2) words_of.simps) simp

lemma words_of_word: "\<not> is_sep c \<Longrightarrow> words_of (c # s) = (c # takeWhile (\<lambda>b. \<not> is_sep b) s) # words_of (dropWhile (\<lambda>b. \<not> is_sep b) s)"
  by (subst words_of.simps) simp

lemma wc_byte_eq:
  "wc_byte b s = \<lparr>wc_l = wc_l s + (if b = 10 then 1 else 0), wc_w = wc_w s + (if is_sep b \<or> wc_inword s then 0 else 1),
     wc_c = wc_c s + 1, wc_inword = (\<not> is_sep b)\<rparr>"
  using strchr_seps [of b] by (cases s) (auto simp: wc_byte_def nl_def Let_def)

text \<open>A word that has begun is counted already.\<close>

lemma wc_fold:
  "fold wc_byte inp s = \<lparr>wc_l = wc_l s + of_nat (line_count inp),
     wc_w = wc_w s + of_nat (length (words_of (if wc_inword s then dropWhile (\<lambda>b. \<not> is_sep b) inp else inp))),
     wc_c = wc_c s + of_nat (length inp), wc_inword = (if inp = [] then wc_inword s else \<not> is_sep (last inp))\<rparr>"
proof (induction inp arbitrary: s)
  case Nil
  then show ?case by (cases s) (simp add: line_count_def words_of.simps [of "[]"])
next
  case (Cons b inp)
  show ?case
    unfolding fold_Cons comp_apply Cons.IH
    by (cases "is_sep b"; cases "wc_inword s")
      (simp_all add: wc_byte_eq line_count_def words_of_sep words_of_word words_of.simps [of "[]"])
qed

definition decimal_of :: "nat \<Rightarrow> u8 list" where
  "decimal_of n = rev (put_digits udigits 10 n)"

lemma decimal_of_value: "dec_value (decimal_of n) = n"
  by (simp add: decimal_of_def put_digits_decimal [OF decimal_tables(2)])

lemma uprintint_nat: "n < 2 ^ 31 \<Longrightarrow> uprintint (of_nat n) 10 True = Some (decimal_of n)"
proof -
  assume n: "n < 2 ^ 31"
  then have u: "unat (of_nat n :: u32) = n" by (simp add: unat_of_nat)
  then have "\<not> (of_nat n :: u32) <s 0" using n by (simp add: word_sless_alt sint_uint uint_nat signed_take_bit_eq_if_positive bit_iff_odd)
  moreover have "length (put_digits udigits 10 n) \<le> 16" using length_put_digits [of 10 udigits n 15] n by simp
  ultimately show ?thesis using u by (simp add: uprintint_def print_buf_def decimal_of_def)
qed

definition wc_report :: "u8 list \<Rightarrow> u8 list \<Rightarrow> u8 list" where
  "wc_report inp name =
     decimal_of (line_count inp) @ [32] @ decimal_of (length (words_of inp)) @ [32] @ decimal_of (length inp) @ [32] @ name @ [10]"

lemma wc_format:
  "vprintf False (ascii ''%d %d %d %s'' @ [nl]) [AInt a, AInt b, AInt c, AStr (Some name)] =
    (case (uprintint a 10 True, uprintint b 10 True, uprintint c 10 True) of
       (Some x, Some y, Some z) \<Rightarrow> Some (x @ [32] @ y @ [32] @ z @ [32] @ name @ [10]) | _ \<Rightarrow> None)"
  by (simp add: ascii_def nl_def vprintf.simps conversion_def null_string_def split: option.split)

lemma words_of_le: "length (words_of s) \<le> length s"
proof (induction s rule: words_of.induct)
  case (1 s)
  show ?case
  proof (cases "dropWhile is_sep s")
    case (Cons c s')
    have "length (words_of (dropWhile (\<lambda>b. \<not> is_sep b) s')) \<le> length s'"
      using 1 [OF Cons] length_dropWhile_le [of "\<lambda>b. \<not> is_sep b" s'] by simp
    moreover have "length s' < length s" using Cons length_dropWhile_le [of is_sep s] by simp
    ultimately show ?thesis using Cons by (simp add: words_of.simps [of s])
  next
    case Nil
    then show ?thesis by (subst words_of.simps) (simp only: Nil list.case list.size le0)
  qed
qed

lemma wc_loop_run:
  assumes "replies s = map (\<lambda>c. (int (length c), c)) cs @ (0, e) # ws @ rest" and "[] \<notin> set cs" and "length cs < fuel"
    and "vprintf False (ascii ''%d %d %d %s'' @ [nl]) [AInt (wc_l k), AInt (wc_w k), AInt (wc_c k), AStr (Some name)] = Some out"
    and "k = fold wc_byte (concat cs) k0" and "length ws = length out"
  shows "wp (wc_loop fuel fd name k0) (\<lambda>r t. r = Some () \<and> replies t = rest \<and> wrote 1 (calls t) = wrote 1 (calls s) @ out) s"
  using assms
proof (induction cs arbitrary: s fuel k0)
  case Nil
  then obtain f where f: "fuel = Suc f" by (cases fuel) auto
  let ?s = "s\<lparr>replies := ws @ rest, calls := calls s @ [SysRead fd 512]\<rparr>"
  have "wp (for_each out (uputc 1)) (\<lambda>_ t. t = ?s\<lparr>replies := rest, calls := calls ?s @ map (\<lambda>c. SysWrite 1 [c]) out\<rparr>) ?s"
    using Nil by (intro wp_print) simp_all
  then have "wp (for_each out (uputc 1)) (\<lambda>_ t. replies t = rest \<and> wrote 1 (calls t) = wrote 1 (calls s) @ out) ?s"
    by (rule wp_mono) (use wrote_bytes [of 1 "calls ?s" out] in \<open>auto simp: wrote_def\<close>)
  then show ?case using Nil f by (simp add: wp_simps ufprintf_def wp_ret_fun)
next
  case (Cons c cs)
  obtain f where f: "fuel = Suc f" using Cons.prems(3) by (cases fuel) auto
  let ?s = "s\<lparr>replies := map (\<lambda>c. (int (length c), c)) cs @ (0, e) # ws @ rest, calls := calls s @ [SysRead fd 512]\<rparr>"
  have "wp (wc_loop f fd name (fold wc_byte c k0)) (\<lambda>r t. r = Some () \<and> replies t = rest \<and> wrote 1 (calls t) = wrote 1 (calls ?s) @ out) ?s"
    using Cons.prems f by (intro Cons.IH) simp_all
  moreover have "c \<noteq> []" using Cons.prems(2) by auto
  ultimately show ?case using Cons.prems(1) f by (simp add: wp_simps)
qed

text \<open>
  C39: \<^verbatim>\<open>wc\<close> prints, for an input of less than $2^{31}$ bytes, the number of its newlines, of its words and of its
  bytes, however the reads cut it into pieces, also through the middle of a word.
\<close>

theorem wc_counts:
  assumes "replies s = map (\<lambda>c. (int (length c), c)) cs @ (0, e) # ws @ rest" and "[] \<notin> set cs" and "length (concat cs) < 2 ^ 31"
    and "length ws = length (wc_report (concat cs) name)"
  shows "wp (wc fd name) (\<lambda>r t. r = Some () \<and> replies t = rest \<and> wrote 1 (calls t) = wrote 1 (calls s) @ wc_report (concat cs) name) s"
proof -
  let ?k = "fold wc_byte (concat cs) \<lparr>wc_l = 0, wc_w = 0, wc_c = 0, wc_inword = False\<rparr>"
  have k: "wc_l ?k = of_nat (line_count (concat cs))" "wc_w ?k = of_nat (length (words_of (concat cs)))" "wc_c ?k = of_nat (length (concat cs))"
    by (simp_all add: wc_fold)
  have b: "line_count (concat cs) < 2 ^ 31" "length (words_of (concat cs)) < 2 ^ 31"
    using assms(3) count_le_length [of "concat cs" 10] words_of_le [of "concat cs"] by (simp_all add: line_count_def)
  have "vprintf False (ascii ''%d %d %d %s'' @ [nl]) [AInt (wc_l ?k), AInt (wc_w ?k), AInt (wc_c ?k), AStr (Some name)] =
      Some (wc_report (concat cs) name)"
    unfolding wc_format k wc_report_def uprintint_nat [OF b(1)] uprintint_nat [OF b(2)] uprintint_nat [OF assms(3)] by simp
  then show ?thesis
    unfolding wc_def wp_rounds using assms by (intro wc_loop_run [where k = ?k]) simp_all
qed

theorem wc_counts_witness:
  "wp (wc 0 [120]) (\<lambda>r t. r = Some () \<and> replies t = [] \<and> wrote 1 (calls t) = ascii ''1 2 5 x'' @ [10])
     \<lparr>replies = [(2, [97, 32]), (1, [98]), (2, [98, 10]), (0, [])] @ replicate 8 (1, []), calls = []\<rparr>"
proof -
  have "wc_report (concat [[97, 32], [98], [98, 10]]) [120] = ascii ''1 2 5 x'' @ [10]"
    by (simp add: wc_report_def line_count_def words_of.simps is_sep_def decimal_of_def put_digits.simps udigits_def ascii_def)
  then show ?thesis
    using wc_counts [of "\<lparr>replies = [(2, [97, 32]), (1, [98]), (2, [98, 10]), (0, [])] @ replicate 8 (1, []), calls = []\<rparr>"
      "[[97, 32], [98], [98, 10]]" "[]" "replicate 8 (1, [])" "[]" "[120]" 0]
    by (simp add: wrote_def ascii_def)
qed

end
