(* ===== verification/Mkfs.thy ===== *)
theory Mkfs
  imports Fs
begin

text \<open>
  \<^verbatim>\<open>mkfs/mkfs.c\<close>, the program that builds the first disk image, on a host with the byte order of RISC-V. The state holds
  the image file, as a list of blocks, and the global variables. A failed \<^verbatim>\<open>assert\<close> and a call of \<^verbatim>\<open>die\<close> end the program
  (\<open>Panic\<close>); of the calls on the image only the read past its end fails here. What the program prints is left out.
\<close>

subsection \<open>Layout\<close>

definition FSSIZE :: nat where [const_defs]: "FSSIZE = 2000"
definition NINODES :: nat where [const_defs]: "NINODES = 200"
definition nbitmap :: nat where [const_defs]: "nbitmap = FSSIZE div (BSIZE * 8) + 1"
definition ninodeblocks :: nat where [const_defs]: "ninodeblocks = NINODES div IPB + 1"
definition nlog :: nat where [const_defs]: "nlog = LOGSIZE"
definition nmeta :: nat where [const_defs]: "nmeta = 2 + nlog + ninodeblocks + nbitmap"
definition nblocks :: nat where [const_defs]: "nblocks = FSSIZE - nmeta"

text \<open>Conversion to the byte order of RISC-V: the bytes are stored from the least significant one on.\<close>

definition xshort :: "u16 \<Rightarrow> u16" where
  "xshort x = get16 [ucast x, ucast (drop_bit 8 x)] 0"

definition xint :: "u32 \<Rightarrow> u32" where
  "xint x = le32_of [ucast x, ucast (drop_bit 8 x), ucast (drop_bit 16 x), ucast (drop_bit 24 x)]"

record mkfs =
  img :: "block list"
  msb :: superblock
  freeinode :: u32
  freeblock :: u32

definition mk_sb :: superblock where
  "mk_sb = \<lparr>sb_magic = FSMAGIC, sb_size = xint (of_nat FSSIZE), sb_nblocks = xint (of_nat nblocks), sb_ninodes = xint (of_nat NINODES),
     sb_nlog = xint (of_nat nlog), sb_logstart = xint 2, sb_inodestart = xint (of_nat (2 + nlog)),
     sb_bmapstart = xint (of_nat (2 + nlog + ninodeblocks))\<rparr>"

definition zeroes :: block where
  "zeroes = replicate BSIZE 0"

text \<open>The block that holds the superblock.\<close>

definition sb_block :: block where
  "sb_block = splice_at zeroes 0 (concat (map le32_bytes [sb_magic mk_sb, sb_size mk_sb, sb_nblocks mk_sb, sb_ninodes mk_sb,
     sb_nlog mk_sb, sb_logstart mk_sb, sb_inodestart mk_sb, sb_bmapstart mk_sb]))"

subsection \<open>Sectors\<close>

text \<open>The offset \<^verbatim>\<open>sec * BSIZE\<close> is computed in 32 bits. A write past the end of the file leaves a hole of zeroes.\<close>

definition sector :: "u32 \<Rightarrow> nat" where
  "sector sec = unat (sec * of_nat BSIZE) div BSIZE"

definition wsect :: "u32 \<Rightarrow> block \<Rightarrow> (mkfs, unit) prog" where
  "wsect sec buf = modify (\<lambda>s. s\<lparr>img :=
     (if sector sec < length (img s) then (img s)[sector sec := buf]
      else img s @ replicate (sector sec - length (img s)) zeroes @ [buf])\<rparr>)"

definition rsect :: "u32 \<Rightarrow> (mkfs, block) prog" where
  "rsect sec = bnd (gets img) (\<lambda>d. if sector sec < length d then ret (d ! sector sec) else panic ''read'')"

subsection \<open>Inodes\<close>

definition winode :: "u32 \<Rightarrow> dinode \<Rightarrow> (mkfs, unit) prog" where
  "winode inum ip =
     bnd (gets (\<lambda>s. IBLOCK inum (msb s))) (\<lambda>bn.
     bnd (rsect bn) (\<lambda>buf.
     wsect bn (put_dinode ip (unat (inum mod of_nat IPB)) buf)))"

definition rinode :: "u32 \<Rightarrow> (mkfs, dinode) prog" where
  "rinode inum =
     bnd (gets (\<lambda>s. IBLOCK inum (msb s))) (\<lambda>bn.
     bnd (rsect bn) (\<lambda>buf.
     ret (get_dinode buf (unat (inum mod of_nat IPB)))))"

definition mk_ialloc :: "u16 \<Rightarrow> (mkfs, u32) prog" where
  "mk_ialloc type =
     bnd (gets freeinode) (\<lambda>inum.
     andthen (modify (freeinode_update (\<lambda>n. n + 1)))
     (andthen (winode inum \<lparr>d_type = xshort type, d_major = 0, d_minor = 0, d_nlink = xshort 1, d_size = xint 0,
        d_addrs = replicate (Suc NDIRECT) 0\<rparr>)
     (ret inum)))"

subsection \<open>Blocks\<close>

text \<open>The bitmap of the first \<open>used\<close> blocks.\<close>

definition mk_balloc :: "int \<Rightarrow> (mkfs, unit) prog" where
  "mk_balloc used =
     andthen (guard (used < int BSIZE * 8) (Panic ''assert''))
     (bnd (gets (\<lambda>s. sb_bmapstart (msb s))) (\<lambda>bn.
      wsect bn (fold mark_bit [0..<nat used] zeroes)))"

definition new_block :: "(mkfs, u32) prog" where
  "new_block = bnd (gets freeblock) (\<lambda>b. andthen (modify (freeblock_update (\<lambda>n. n + 1))) (ret b))"

text \<open>The block with number \<open>fbn\<close> of a file, allocated if there is none, with the inode kept in a local variable.\<close>

definition mk_bmap :: "dinode \<Rightarrow> nat \<Rightarrow> (mkfs, dinode \<times> u32) prog" where
  "mk_bmap din fbn =
     (if fbn < NDIRECT then
        bnd (if xint (d_addrs din ! fbn) = 0
             then bnd new_block (\<lambda>b. ret (din\<lparr>d_addrs := (d_addrs din)[fbn := xint b]\<rparr>)) else ret din) (\<lambda>din.
        ret (din, xint (d_addrs din ! fbn)))
      else
        bnd (if xint (d_addrs din ! NDIRECT) = 0
             then bnd new_block (\<lambda>b. ret (din\<lparr>d_addrs := (d_addrs din)[NDIRECT := xint b]\<rparr>)) else ret din) (\<lambda>din.
        bnd (rsect (xint (d_addrs din ! NDIRECT))) (\<lambda>indirect.
        if get32 indirect (4 * (fbn - NDIRECT)) = 0 then
          bnd new_block (\<lambda>b.
          let indirect = put32 indirect (4 * (fbn - NDIRECT)) (xint b) in
          andthen (wsect (xint (d_addrs din ! NDIRECT)) indirect)
          (ret (din, xint (get32 indirect (4 * (fbn - NDIRECT))))))
        else ret (din, xint (get32 indirect (4 * (fbn - NDIRECT)))))))"

text \<open>Every round of the loop of \<^verbatim>\<open>iappend\<close> takes at least one byte.\<close>

primrec iappend_loop :: "nat \<Rightarrow> dinode \<Rightarrow> u32 \<Rightarrow> u8 list \<Rightarrow> (mkfs, dinode \<times> u32) prog" where
  "iappend_loop 0 din off p = (if p = [] then ret (din, off) else fails (Fault ''iappend: out of fuel''))"
| "iappend_loop (Suc fuel) din off p =
     (if p = [] then ret (din, off)
      else
        let fbn = off div of_nat BSIZE in
        andthen (guard (fbn < of_nat MAXFILE) (Panic ''assert''))
        (bnd (mk_bmap din (unat fbn)) (\<lambda>(din, x).
         let n1 = min (length p) (unat ((fbn + 1) * of_nat BSIZE - off)) in
         bnd (rsect x) (\<lambda>buf.
         andthen (wsect x (splice_at buf (unat (off - fbn * of_nat BSIZE)) (take n1 p)))
         (iappend_loop fuel din (off + of_nat n1) (drop n1 p))))))"

definition iappend :: "u32 \<Rightarrow> u8 list \<Rightarrow> (mkfs, unit) prog" where
  "iappend inum xp =
     bnd (rinode inum) (\<lambda>din.
     bnd (iappend_loop (length xp) din (xint (d_size din)) xp) (\<lambda>(din, off).
     winode inum (din\<lparr>d_size := xint off\<rparr>)))"

subsection \<open>The image\<close>

text \<open>\<^verbatim>\<open>struct dirent\<close>, with the name as \<^verbatim>\<open>strncpy\<close> and \<^verbatim>\<open>strcpy\<close> leave it in a cleared structure.\<close>

definition dirent :: "u32 \<Rightarrow> u8 list \<Rightarrow> u8 list" where
  "dirent inum name = (let x = xshort (ucast inum) in [ucast x, ucast (drop_bit 8 x)]) @ take DIRSIZ name @ replicate (DIRSIZ - length name) 0"

text \<open>An argument: the name of the file, and if it can be opened what the reads of it return.\<close>

type_synonym mkfile = "u8 list \<times> u8 list list option"

definition short_name :: "u8 list \<Rightarrow> u8 list" where
  "short_name arg = (if take 5 arg = [117, 115, 101, 114, 47] then drop 5 arg else arg)"

definition skip_underscore :: "u8 list \<Rightarrow> u8 list" where
  "skip_underscore shortname = (if shortname \<noteq> [] \<and> hd shortname = 95 then tl shortname else shortname)"

definition add_file :: "u32 \<Rightarrow> mkfile \<Rightarrow> (mkfs, unit) prog" where
  "add_file rootino f =
     (let shortname = short_name (fst f) in
      andthen (guard (47 \<notin> set shortname) (Panic ''assert''))
      (case snd f of
         None \<Rightarrow> panic ''open''
       | Some chunks \<Rightarrow>
           let shortname = skip_underscore shortname in
           bnd (mk_ialloc T_FILE) (\<lambda>inum.
           andthen (iappend rootino (dirent inum shortname))
           (for_each chunks (iappend inum)))))"

text \<open>
  \<^verbatim>\<open>main\<close> from the point where the image is open and empty. Before it, \<^verbatim>\<open>main\<close> exits with a message when no image is named or the
  image cannot be opened; that and the line of statistics it prints are left out.
\<close>

definition mkfs_main :: "mkfile list \<Rightarrow> (mkfs, unit) prog" where
  "mkfs_main files =
     andthen (modify (\<lambda>s. s\<lparr>img := [], msb := mk_sb, freeblock := of_nat nmeta, freeinode := 1\<rparr>))
     (andthen (for_each [0..<FSSIZE] (\<lambda>i. wsect (of_nat i) zeroes))
     (andthen (wsect 1 sb_block)
     (bnd (mk_ialloc T_DIR) (\<lambda>rootino.
      andthen (guard (rootino = ROOTINO) (Panic ''assert''))
      (andthen (iappend rootino (dirent rootino [46]))
      (andthen (iappend rootino (dirent rootino [46, 46]))
      (andthen (for_each files (add_file rootino))
      (bnd (rinode rootino) (\<lambda>din.
       let off = (xint (d_size din) div of_nat BSIZE + 1) * of_nat BSIZE in
       andthen (winode rootino (din\<lparr>d_size := xint off\<rparr>))
       (bnd (gets freeblock) (\<lambda>b. mk_balloc (sint b))))))))))))"

end
