(* ===== verification/Mkimage.thy ===== *)
theory Mkimage
  imports Mkfs Dinode
begin

text \<open>
  The image that \<^verbatim>\<open>mkfs\<close> builds: every file has the contents that were appended to it, and no two files share a block.
\<close>

subsection \<open>Sectors and byte order\<close>

lemma xint_id [simp]: "xint x = x"
  using le32_roundtrip [of x] by (simp add: xint_def le32_bytes_def upt_rec)

lemma xshort_id [simp]: "xshort x = x"
  by (simp add: xshort_def)

lemma sector_of_nat [simp]: "b < FSSIZE \<Longrightarrow> sector (of_nat b) = b"
proof -
  assume b: "b < FSSIZE"
  have "(of_nat b * of_nat BSIZE :: u32) = of_nat (b * BSIZE)" by simp
  moreover have "unat (of_nat (b * BSIZE) :: u32) = b * BSIZE" using b by (intro unat_of_nat_small) (simp add: FSSIZE_def BSIZE_def)
  ultimately show ?thesis by (simp add: sector_def BSIZE_def)
qed

lemma unat_blockno [simp]: "b < FSSIZE \<Longrightarrow> unat (of_nat b :: u32) = b"
  by (intro unat_of_nat_small) (simp add: FSSIZE_def)

lemma block_inject: "a < FSSIZE \<Longrightarrow> b < FSSIZE \<Longrightarrow> (of_nat a :: u32) = of_nat b \<longleftrightarrow> a = b"
  by (metis unat_blockno)

lemma rsect_run: "b < FSSIZE \<Longrightarrow> length (img s) = FSSIZE \<Longrightarrow> wp (rsect (of_nat b)) Q s \<longleftrightarrow> Q (img s ! b) s"
  by (simp add: rsect_def wp_simps)

lemma wsect_run: "b < FSSIZE \<Longrightarrow> length (img s) = FSSIZE \<Longrightarrow> wp (wsect (of_nat b) d) Q s \<longleftrightarrow> Q () (s\<lparr>img := (img s)[b := d]\<rparr>)"
  by (simp add: wsect_def wp_simps)

subsection \<open>Files in an image\<close>

text \<open>
  The inode \<open>di\<close> leads to the blocks \<open>bs\<close>, with the indirect block in \<open>ib\<close> if there is one, and they hold the bytes \<open>bytes\<close>
  followed by zeroes.
\<close>

definition holds :: "block list \<Rightarrow> dinode \<Rightarrow> nat list \<Rightarrow> nat list \<Rightarrow> u8 list \<Rightarrow> bool" where
  "holds d di bs ib bytes \<longleftrightarrow>
     length (d_addrs di) = Suc NDIRECT \<and> length bytes \<le> BSIZE * length bs \<and> length bs \<le> MAXFILE \<and>
     (\<forall>i<NDIRECT. d_addrs di ! i = (if i < length bs then of_nat (bs ! i) else 0)) \<and>
     (if length bs \<le> NDIRECT then ib = [] \<and> d_addrs di ! NDIRECT = 0
      else \<exists>b. ib = [b] \<and> d_addrs di ! NDIRECT = of_nat b \<and>
        (\<forall>j<NINDIRECT. get32 (d ! b) (4 * j) = (if NDIRECT + j < length bs then of_nat (bs ! (NDIRECT + j)) else 0))) \<and>
     (\<forall>k<BSIZE * length bs. d ! (bs ! (k div BSIZE)) ! (k mod BSIZE) = (if k < length bytes then bytes ! k else 0))"

type_synonym filemap = "nat \<Rightarrow> nat list \<times> nat list \<times> u8 list"

definition blocks_of :: "nat list \<times> nat list \<times> u8 list \<Rightarrow> nat list" where
  "blocks_of = (\<lambda>(bs, ib, bytes). bs @ ib)"

text \<open>The files with inodes below \<open>freeinode\<close> are kept apart, and above \<open>freeblock\<close> everything is zero.\<close>

definition disk_image :: "mkfs \<Rightarrow> (nat \<Rightarrow> dinode) \<Rightarrow> filemap \<Rightarrow> bool" where
  "disk_image s D F \<longleftrightarrow>
     msb s = mk_sb \<and> img s ! 1 = sb_block \<and> length (img s) = FSSIZE \<and> (\<forall>b<FSSIZE. length (img s ! b) = BSIZE) \<and>
     1 \<le> unat (freeinode s) \<and> unat (freeinode s) \<le> NINODES \<and> nmeta \<le> unat (freeblock s) \<and> unat (freeblock s) \<le> FSSIZE \<and>
     (\<forall>b<FSSIZE. unat (freeblock s) \<le> b \<longrightarrow> img s ! b = zeroes) \<and>
     (\<forall>i \<in> {1..<unat (freeinode s)}. (case F i of (bs, ib, bytes) \<Rightarrow> holds (img s) (D i) bs ib bytes) \<and>
        distinct (blocks_of (F i)) \<and> set (blocks_of (F i)) \<subseteq> {nmeta..<unat (freeblock s)}) \<and>
     (\<forall>i \<in> {1..<unat (freeinode s)}. \<forall>j \<in> {1..<unat (freeinode s)}. i \<noteq> j \<longrightarrow> set (blocks_of (F i)) \<inter> set (blocks_of (F j)) = {})"

text \<open>The inodes of \<open>D\<close> are those on the disk, but for that of one file, which the program keeps in memory.\<close>

definition disk_inode :: "block list \<Rightarrow> nat \<Rightarrow> dinode" where
  "disk_inode d i = get_dinode (d ! (2 + nlog + i div IPB)) (i mod IPB)"

definition stored :: "mkfs \<Rightarrow> (nat \<Rightarrow> dinode) \<Rightarrow> nat set \<Rightarrow> bool" where
  "stored s D X \<longleftrightarrow> (\<forall>i \<in> {1..<unat (freeinode s)} - X. disk_inode (img s) i = D i)"

text \<open>A file only depends on its own blocks.\<close>

lemma holds_cong:
  assumes "holds d di bs ib bytes" and "\<And>b. b \<in> set (bs @ ib) \<Longrightarrow> d' ! b = d ! b"
  shows "holds d' di bs ib bytes"
proof -
  have "bs ! (k div BSIZE) \<in> set bs" if "k < BSIZE * length bs" for k
    using that by (intro nth_mem) (simp add: less_mult_imp_div_less mult.commute)
  then show ?thesis using assms unfolding holds_def by (auto split: if_splits)
qed


lemma holdsD:
  assumes "holds d di bs ib bytes"
  shows "length (d_addrs di) = Suc NDIRECT" "length bytes \<le> BSIZE * length bs" "length bs \<le> MAXFILE"
    "i < NDIRECT \<Longrightarrow> d_addrs di ! i = (if i < length bs then of_nat (bs ! i) else 0)"
    "length bs \<le> NDIRECT \<Longrightarrow> ib = [] \<and> d_addrs di ! NDIRECT = 0"
    "NDIRECT < length bs \<Longrightarrow> \<exists>b. ib = [b] \<and> d_addrs di ! NDIRECT = of_nat b \<and>
        (\<forall>j<NINDIRECT. get32 (d ! b) (4 * j) = (if NDIRECT + j < length bs then of_nat (bs ! (NDIRECT + j)) else 0))"
    "k < BSIZE * length bs \<Longrightarrow> d ! (bs ! (k div BSIZE)) ! (k mod BSIZE) = (if k < length bytes then bytes ! k else 0)"
  using assms by (auto simp: holds_def split: if_splits)

text \<open>One more block, still empty, at the end of a file.\<close>

lemma new_block_bytes:
  assumes "holds d di bs ib bytes" and "d ! b = zeroes" and "k < BSIZE * length (bs @ [b])"
  shows "d ! ((bs @ [b]) ! (k div BSIZE)) ! (k mod BSIZE) = (if k < length bytes then bytes ! k else 0)"
proof (cases "k < BSIZE * length bs")
  case True
  then have "k div BSIZE < length bs" by (simp add: less_mult_imp_div_less mult.commute)
  then show ?thesis using holdsD(7) [OF assms(1) True] by (simp add: nth_append)
next
  case False
  then have "k div BSIZE = length bs" using assms(3) by (intro div_nat_eqI) (simp_all add: mult.commute)
  then show ?thesis using False holdsD(2) [OF assms(1)] assms(2) by (simp add: zeroes_def BSIZE_def)
qed

lemma holds_direct:
  assumes "holds d di bs ib bytes" and "length bs < NDIRECT" and "d ! b = zeroes"
  shows "holds d (di\<lparr>d_addrs := (d_addrs di)[length bs := of_nat b]\<rparr>) (bs @ [b]) [] bytes"
  using holdsD(1-5) [OF assms(1)] assms(2) new_block_bytes [OF assms(1,3)]
  unfolding holds_def by (auto simp: nth_append nth_list_update less_Suc_eq MAXFILE_def)

text \<open>The first block past the direct ones takes an indirect block \<open>b1\<close> as well.\<close>

lemma zeroes_get32: "j < NINDIRECT \<Longrightarrow> get32 zeroes (4 * j) = 0"
proof -
  assume "j < NINDIRECT"
  then have "take 4 (drop (4 * j) zeroes) = replicate 4 0" by (simp add: zeroes_def BSIZE_def NINDIRECT_def)
  then show ?thesis by (simp add: get32_def le32_of_def numeral_eq_Suc)
qed

lemma blocks_apart: "k < BSIZE * length bs \<Longrightarrow> b \<notin> set bs \<Longrightarrow> d[b := x] ! (bs ! (k div BSIZE)) = d ! (bs ! (k div BSIZE))"
proof -
  assume k: "k < BSIZE * length bs" and b: "b \<notin> set bs"
  have "bs ! (k div BSIZE) \<in> set bs" using k by (intro nth_mem) (simp add: less_mult_imp_div_less mult.commute)
  then show ?thesis using b by (metis nth_list_update_neq)
qed

lemma holds_first_indirect:
  assumes "holds d di bs ib bytes" and "length bs = NDIRECT" and "d ! b1 = zeroes" and "d ! b2 = zeroes" and "b1 \<notin> set bs" and "b1 \<noteq> b2"
    and "b1 < length d"
  shows "holds (d[b1 := put32 zeroes 0 (of_nat b2)]) (di\<lparr>d_addrs := (d_addrs di)[NDIRECT := of_nat b1]\<rparr>) (bs @ [b2]) [b1] bytes"
proof -
  let ?d = "d[b1 := put32 zeroes 0 (of_nat b2)]"
  have z: "get32 (put32 zeroes 0 (of_nat b2)) (4 * j) = (if j = 0 then of_nat b2 else 0)" if "j < NINDIRECT" for j
    using that zeroes_get32 [OF that] get32_put32_other [of 0 zeroes "4 * j"] get32_put32 [of 0 zeroes] by (auto simp: zeroes_def BSIZE_def)
  have "?d ! ((bs @ [b2]) ! (k div BSIZE)) ! (k mod BSIZE) = (if k < length bytes then bytes ! k else 0)" if "k < BSIZE * length (bs @ [b2])" for k
    using blocks_apart [OF that, of b1 d] new_block_bytes [OF assms(1,4) that] assms(5,6) by simp
  moreover have "NDIRECT + j < length (bs @ [b2]) \<longleftrightarrow> j = 0" for j using assms(2) by auto
  ultimately show ?thesis
    using holdsD(1-5) [OF assms(1)] assms(2,7) z unfolding holds_def by (auto simp: nth_append MAXFILE_def NINDIRECT_def BSIZE_def)
qed

lemma holds_indirect:
  assumes "holds d di bs [b1] bytes" and "NDIRECT < length bs" and "length bs < MAXFILE" and "d ! b2 = zeroes" and "b1 \<notin> set bs" and "b1 \<noteq> b2"
    and "b1 < length d" and "length (d ! b1) = BSIZE"
  shows "holds (d[b1 := put32 (d ! b1) (4 * (length bs - NDIRECT)) (of_nat b2)]) di (bs @ [b2]) [b1] bytes"
proof -
  let ?n = "length bs - NDIRECT"
  let ?x = "put32 (d ! b1) (4 * ?n) (of_nat b2)"
  let ?d = "d[b1 := ?x]"
  have old: "\<forall>j<NINDIRECT. get32 (d ! b1) (4 * j) = (if NDIRECT + j < length bs then of_nat (bs ! (NDIRECT + j)) else 0)"
    "d_addrs di ! NDIRECT = of_nat b1" using holdsD(6) [OF assms(1,2)] by auto
  have n: "?n < NINDIRECT" using assms(2,3) by (simp add: MAXFILE_def)
  have "get32 ?x (4 * j) = (if NDIRECT + j < length (bs @ [b2]) then of_nat ((bs @ [b2]) ! (NDIRECT + j)) else 0)" if j: "j < NINDIRECT" for j
  proof (cases "j = ?n")
    case True
    then show ?thesis using assms(2,8) n by (simp add: BSIZE_def NINDIRECT_def nth_append)
  next
    case False
    then have "get32 ?x (4 * j) = get32 (d ! b1) (4 * j)" using assms(8) n j by (intro get32_put32_other) (auto simp: BSIZE_def NINDIRECT_def)
    then show ?thesis using old(1) j False assms(2) by (auto simp: nth_append)
  qed
  moreover have "?d ! ((bs @ [b2]) ! (k div BSIZE)) ! (k mod BSIZE) = (if k < length bytes then bytes ! k else 0)" if "k < BSIZE * length (bs @ [b2])" for k
    using blocks_apart [OF that, of b1 d] new_block_bytes [OF assms(1,4) that] assms(5,6) by simp
  ultimately show ?thesis
    using holdsD(1-4) [OF assms(1)] assms(2,3,7) old(2) unfolding holds_def by (auto simp: nth_append)
qed

text \<open>Bytes written behind the end of a file, into its last block.\<close>

lemma holds_append:
  assumes "holds d di bs ib bytes" and "length bytes div BSIZE < length bs" and "length bytes mod BSIZE + length q \<le> BSIZE"
    and "distinct (bs @ ib)" and "\<And>b. b \<in> set bs \<Longrightarrow> b < length d \<and> length (d ! b) = BSIZE"
  shows "holds (d[bs ! (length bytes div BSIZE) := splice_at (d ! (bs ! (length bytes div BSIZE))) (length bytes mod BSIZE) q]) di bs ib (bytes @ q)"
proof -
  let ?f = "length bytes div BSIZE" and ?o = "length bytes mod BSIZE"
  let ?b = "bs ! ?f"
  let ?d = "d[?b := splice_at (d ! ?b) ?o q]"
  have b: "?b \<in> set bs" "?b \<notin> set ib" using nth_mem [OF assms(2)] assms(4) by auto
  note bb = assms(5) [OF b(1)]
  have len: "length bytes = BSIZE * ?f + ?o" by simp
  have "BSIZE * Suc ?f \<le> BSIZE * length bs" using assms(2) by (intro mult_le_mono2) simp
  then have "BSIZE * ?f + BSIZE \<le> BSIZE * length bs" by simp
  then have fits: "length (bytes @ q) \<le> BSIZE * length bs" unfolding length_append using len assms(3) by linarith
  have "?d ! (bs ! (k div BSIZE)) ! (k mod BSIZE) = (if k < length (bytes @ q) then (bytes @ q) ! k else 0)" if k: "k < BSIZE * length bs" for k
  proof (cases "k div BSIZE = ?f")
    case True
    then have k': "k = BSIZE * ?f + k mod BSIZE" by (metis mult_div_mod_eq)
    have m: "k mod BSIZE < BSIZE" by (simp add: BSIZE_def)
    have "?d ! (bs ! (k div BSIZE)) ! (k mod BSIZE) = splice_at (d ! ?b) ?o q ! (k mod BSIZE)" using True bb by simp
    also have "\<dots> = (if k mod BSIZE < ?o then d ! ?b ! (k mod BSIZE) else if k mod BSIZE < ?o + length q then q ! (k mod BSIZE - ?o) else d ! ?b ! (k mod BSIZE))"
      using bb m assms(3) by (auto simp: splice_at_def nth_append)
    also have "\<dots> = (if k < length (bytes @ q) then (bytes @ q) ! k else 0)"
    proof -
      have e: "k mod BSIZE < ?o \<longleftrightarrow> k < length bytes" "k mod BSIZE < ?o + length q \<longleftrightarrow> k < length bytes + length q"
        "k mod BSIZE - ?o = k - length bytes" using k' len by linarith+
      show ?thesis using holdsD(7) [OF assms(1) k] True by (simp add: e nth_append)
    qed
    finally show ?thesis .
  next
    case False
    have kl: "k div BSIZE < length bs" using k by (simp add: less_mult_imp_div_less mult.commute)
    then have "bs ! (k div BSIZE) \<noteq> ?b" using False assms(2,4) by (auto simp: nth_eq_iff_index_eq)
    moreover have "k < length bytes \<longleftrightarrow> k < length (bytes @ q)"
    proof (rule ccontr)
      assume "\<not> ?thesis"
      then have "length bytes \<le> k" "k < length bytes + length q" by auto
      then have "BSIZE * ?f \<le> k" "k < BSIZE * ?f + BSIZE" using len assms(3) by linarith+
      then have "k div BSIZE = ?f" by (intro div_nat_eqI) (simp_all add: mult.commute)
      then show False using False by simp
    qed
    ultimately show ?thesis using holdsD(7) [OF assms(1) k] by (auto simp: nth_append)
  qed
  moreover have "?d ! c = d ! c" if "c \<in> set ib" for c using that b(2) by (metis nth_list_update_neq)
  ultimately show ?thesis
    using holdsD(1-6) [OF assms(1)] fits unfolding holds_def by (auto split: if_splits)
qed


subsection \<open>Changes of the image\<close>

lemma imageD:
  assumes "disk_image s D F"
  shows "msb s = mk_sb" "length (img s) = FSSIZE" "b < FSSIZE \<Longrightarrow> length (img s ! b) = BSIZE"
    "1 \<le> unat (freeinode s)" "unat (freeinode s) \<le> NINODES" "nmeta \<le> unat (freeblock s)" "unat (freeblock s) \<le> FSSIZE"
    "b < FSSIZE \<Longrightarrow> unat (freeblock s) \<le> b \<Longrightarrow> img s ! b = zeroes"
    "i \<in> {1..<unat (freeinode s)} \<Longrightarrow> F i = (bs, ib, bytes) \<Longrightarrow> holds (img s) (D i) bs ib bytes"
    "i \<in> {1..<unat (freeinode s)} \<Longrightarrow> F i = (bs, ib, bytes) \<Longrightarrow> distinct (bs @ ib)"
    "i \<in> {1..<unat (freeinode s)} \<Longrightarrow> b \<in> set (blocks_of (F i)) \<Longrightarrow> nmeta \<le> b \<and> b < unat (freeblock s)"
    "i \<in> {1..<unat (freeinode s)} \<Longrightarrow> j \<in> {1..<unat (freeinode s)} \<Longrightarrow> i \<noteq> j \<Longrightarrow> set (blocks_of (F i)) \<inter> set (blocks_of (F j)) = {}"
proof -
  have files: "\<forall>i \<in> {1..<unat (freeinode s)}. (case F i of (bs, ib, bytes) \<Rightarrow> holds (img s) (D i) bs ib bytes) \<and>
      distinct (blocks_of (F i)) \<and> set (blocks_of (F i)) \<subseteq> {nmeta..<unat (freeblock s)}"
    using assms by (simp add: disk_image_def)
  show "holds (img s) (D i) bs ib bytes" "distinct (bs @ ib)" if "i \<in> {1..<unat (freeinode s)}" "F i = (bs, ib, bytes)"
    using bspec [OF files that(1)] that(2) by (simp_all add: blocks_of_def)
  show "nmeta \<le> b \<and> b < unat (freeblock s)" if "i \<in> {1..<unat (freeinode s)}" "b \<in> set (blocks_of (F i))"
    using bspec [OF files that(1)] that(2) by auto
  show "set (blocks_of (F i)) \<inter> set (blocks_of (F j)) = {}" if "i \<in> {1..<unat (freeinode s)}" "j \<in> {1..<unat (freeinode s)}" "i \<noteq> j"
    using assms that by (simp add: disk_image_def)
qed (use assms in \<open>simp_all add: disk_image_def\<close>)

lemma image_sb: "disk_image s D F \<Longrightarrow> img s ! 1 = sb_block"
  by (simp add: disk_image_def)

text \<open>A file whose inode and blocks change, with new blocks from \<open>freeblock\<close> on.\<close>

lemma image_update:
  assumes I: "disk_image s D F" and i: "i \<in> {1..<unat (freeinode s)}" and fb: "unat (freeblock s) \<le> fb" "fb \<le> FSSIZE"
    and new: "set (bs @ ib) \<subseteq> set (blocks_of (F i)) \<union> {unat (freeblock s)..<fb}" "distinct (bs @ ib)"
    and d: "length d = FSSIZE" "\<And>b. b < FSSIZE \<Longrightarrow> length (d ! b) = BSIZE" "\<And>b. b < FSSIZE \<Longrightarrow> b \<notin> set (bs @ ib) \<Longrightarrow> d ! b = img s ! b"
    and h: "holds d di bs ib bytes"
  shows "disk_image (s\<lparr>img := d, freeblock := of_nat fb\<rparr>) (D(i := di)) (F(i := (bs, ib, bytes)))"
proof -
  let ?s = "s\<lparr>img := d, freeblock := of_nat fb\<rparr>"
  note D = imageD [OF I]
  have fb': "unat (of_nat fb :: u32) = fb" using fb(2) by (intro unat_of_nat_small) (simp add: FSSIZE_def)
  have own: "b \<notin> set (bs @ ib)" if "j \<in> {1..<unat (freeinode s)}" "j \<noteq> i" "b \<in> set (blocks_of (F j))" for j b
  proof
    assume "b \<in> set (bs @ ib)"
    then have "b \<in> set (blocks_of (F i)) \<or> unat (freeblock s) \<le> b" using new(1) by auto
    then show False using D(11) [OF that(1,3)] D(12) [OF that(1) i that(2)] that(3) by auto
  qed
  have files: "(case (F(i := (bs, ib, bytes))) j of (bs, ib, bytes) \<Rightarrow> holds d ((D(i := di)) j) bs ib bytes) \<and>
      distinct (blocks_of ((F(i := (bs, ib, bytes))) j)) \<and> set (blocks_of ((F(i := (bs, ib, bytes))) j)) \<subseteq> {nmeta..<fb}"
    if j: "j \<in> {1..<unat (freeinode s)}" for j
  proof (cases "j = i")
    case True
    moreover have "set (bs @ ib) \<subseteq> {nmeta..<fb}"
    proof
      fix b assume "b \<in> set (bs @ ib)"
      then have "b \<in> set (blocks_of (F i)) \<or> unat (freeblock s) \<le> b \<and> b < fb" using new(1) by auto
      then show "b \<in> {nmeta..<fb}" using D(6) D(11) [OF i, of b] fb(1) by auto
    qed
    ultimately show ?thesis using h new(2) by (simp add: blocks_of_def)
  next
    case False
    obtain bs' ib' bytes' where F: "F j = (bs', ib', bytes')" by (cases "F j") auto
    have "d ! b = img s ! b" if "b \<in> set (bs' @ ib')" for b
      using d(3) [of b] own [OF j False, of b] D(11) [OF j, of b] D(7) that F by (simp add: blocks_of_def)
    then have "holds d (D j) bs' ib' bytes'" using holds_cong [OF D(9) [OF j F]] by blast
    moreover have "set (bs' @ ib') \<subseteq> {nmeta..<fb}"
    proof
      fix b assume "b \<in> set (bs' @ ib')"
      then show "b \<in> {nmeta..<fb}" using D(11) [OF j, of b] F fb(1) by (simp add: blocks_of_def)
    qed
    ultimately show ?thesis using F False D(10) [OF j F] by (simp add: blocks_of_def)
  qed
  have apart: "set (blocks_of ((F(i := (bs, ib, bytes))) j)) \<inter> set (blocks_of ((F(i := (bs, ib, bytes))) k)) = {}"
    if "j \<in> {1..<unat (freeinode s)}" "k \<in> {1..<unat (freeinode s)}" "j \<noteq> k" for j k
  proof -
    have "blocks_of (bs, ib, bytes) = bs @ ib" by (simp add: blocks_of_def)
    then show ?thesis
      using that own [of j] own [of k] D(12) [OF that] by (cases "j = i"; cases "k = i") (auto simp del: set_append)
  qed
  have zero: "d ! b = zeroes" if "b < FSSIZE" "fb \<le> b" for b
  proof -
    have "b \<notin> set (bs @ ib)" using new(1) D(11) [OF i, of b] that(2) fb(1) by auto
    then show ?thesis using d(3) D(8) that fb(1) by simp
  qed
  have "1 \<notin> set (bs @ ib)" using new(1) D(11) [OF i, of 1] D(6) by (auto simp: nmeta_def)
  then have sb: "d ! 1 = sb_block" using d(3) [of 1] image_sb [OF I] by (simp add: FSSIZE_def)
  show ?thesis
    unfolding disk_image_def by (intro conjI ballI allI impI) (use D(1,4-6) fb d(1,2) fb' zero files apart sb in simp_all)
qed

lemma stored_update:
  assumes I: "disk_image s D F" and "stored s D {i}" and i: "i \<in> {1..<unat (freeinode s)}"
    and new: "set bl \<subseteq> set (blocks_of (F i)) \<union> {unat (freeblock s)..<fb}"
    and d: "\<And>b. b < FSSIZE \<Longrightarrow> b \<notin> set bl \<Longrightarrow> d ! b = img s ! b"
  shows "stored (s\<lparr>img := d, freeblock := f\<rparr>) (D(i := di)) {i}"
proof -
  have "disk_inode d j = disk_inode (img s) j" if j: "j \<in> {1..<unat (freeinode s)}" for j
  proof -
    have "j < NINODES" using j imageD(5) [OF I] by simp
    then have b: "2 + nlog + j div IPB < nmeta" by (simp add: nmeta_def ninodeblocks_def NINODES_def IPB_def BSIZE_def)
    then have "2 + nlog + j div IPB \<notin> set bl" using new imageD(6) [OF I] imageD(11) [OF I i] by fastforce
    then show ?thesis using d [of "2 + nlog + j div IPB"] b imageD(6,7) [OF I] by (simp add: disk_inode_def)
  qed
  then show ?thesis using assms(2) by (simp add: stored_def)
qed

end
