(* ===== verification/Mkappend.thy ===== *)
theory Mkappend
  imports Mkimage
begin

text \<open>\<^verbatim>\<open>iappend\<close> appends: the blocks it finds or allocates, the loop, and the inode it writes back.\<close>

subsection \<open>Blocks of a file\<close>

lemma wp_new_block [wp_simps]: "wp new_block Q s \<longleftrightarrow> Q (freeblock s) (s\<lparr>freeblock := freeblock s + 1\<rparr>)"
  by (cases s) (simp add: new_block_def wp_simps)

lemma file_block: "disk_image s D F \<Longrightarrow> i \<in> {1..<unat (freeinode s)} \<Longrightarrow> F i = (bs, ib, bytes) \<Longrightarrow> b \<in> set (bs @ ib) \<Longrightarrow>
    nmeta \<le> b \<and> b < unat (freeblock s) \<and> b < FSSIZE \<and> (of_nat b :: u32) \<noteq> 0"
proof -
  assume I: "disk_image s D F" and i: "i \<in> {1..<unat (freeinode s)}" and F: "F i = (bs, ib, bytes)" and b: "b \<in> set (bs @ ib)"
  have n: "nmeta \<le> b \<and> b < unat (freeblock s)" using imageD(11) [OF I i, of b] F b by (simp add: blocks_of_def)
  then have "b < FSSIZE" using imageD(7) [OF I] by simp
  moreover have "b \<noteq> 0" using n by (auto simp: nmeta_def)
  ultimately show ?thesis using n block_inject [of b 0] by (simp add: FSSIZE_def)
qed

lemma bmap_old:
  assumes I: "disk_image s D F" and i: "i \<in> {1..<unat (freeinode s)}" and F: "F i = (bs, ib, bytes)" and n: "n < length bs"
  shows "wp (mk_bmap (D i) n) (\<lambda>r t. r = (D i, of_nat (bs ! n)) \<and> t = s) s"
proof -
  note h = imageD(9) [OF I i F]
  have nz: "(of_nat (bs ! n) :: u32) \<noteq> 0" using file_block [OF I i F, of "bs ! n"] n by simp
  show ?thesis
  proof (cases "n < NDIRECT")
    case True
    then show ?thesis using holdsD(4) [OF h True] n nz by (simp add: mk_bmap_def wp_simps)
  next
    case False
    then have "NDIRECT < length bs" using n by simp
    then obtain b where b: "ib = [b]" "d_addrs (D i) ! NDIRECT = of_nat b"
      "\<forall>j<NINDIRECT. get32 (img s ! b) (4 * j) = (if NDIRECT + j < length bs then of_nat (bs ! (NDIRECT + j)) else 0)"
      using holdsD(6) [OF h] by blast
    have bb: "b < FSSIZE" "(of_nat b :: u32) \<noteq> 0" using file_block [OF I i F, of b] b(1) by simp_all
    have "n - NDIRECT < NINDIRECT" using n holdsD(3) [OF h] False by (simp add: MAXFILE_def)
    then have "get32 (img s ! b) (4 * (n - NDIRECT)) = of_nat (bs ! n)" using b(3) False n by auto
    then show ?thesis using False b(2) bb nz imageD(2) [OF I] by (simp add: mk_bmap_def wp_simps rsect_run)
  qed
qed

text \<open>The blocks a new last block of a file takes.\<close>

definition grow :: "nat \<Rightarrow> nat" where
  "grow n = (if n = NDIRECT then 2 else 1)"

definition grown :: "mkfs \<Rightarrow> (nat \<Rightarrow> dinode) \<Rightarrow> filemap \<Rightarrow> nat \<Rightarrow> mkfs \<Rightarrow> (nat \<Rightarrow> dinode) \<Rightarrow> filemap \<Rightarrow> nat \<Rightarrow> bool" where
  "grown s D F i t D' F' n \<longleftrightarrow> disk_image t D' F' \<and> stored t D' {i} \<and> freeinode t = freeinode s \<and> unat (freeblock t) = unat (freeblock s) + n \<and>
     (\<forall>j. j \<noteq> i \<longrightarrow> F' j = F j)"

lemma grownI:
  assumes I: "disk_image s D F" and st: "stored s D {i}" and i: "i \<in> {1..<unat (freeinode s)}" and n: "unat (freeblock s) + n \<le> FSSIZE"
    and new: "set (bs @ ib) \<subseteq> set (blocks_of (F i)) \<union> {unat (freeblock s)..<unat (freeblock s) + n}" "distinct (bs @ ib)"
    and d: "length d = FSSIZE" "\<And>b. b < FSSIZE \<Longrightarrow> length (d ! b) = BSIZE" "\<And>b. b < FSSIZE \<Longrightarrow> b \<notin> set (bs @ ib) \<Longrightarrow> d ! b = img s ! b"
    and h: "holds d di bs ib bytes"
  shows "grown s D F i (s\<lparr>img := d, freeblock := of_nat (unat (freeblock s) + n)\<rparr>) (D(i := di)) (F(i := (bs, ib, bytes))) n"
proof -
  have "unat (of_nat (unat (freeblock s) + n) :: u32) = unat (freeblock s) + n" using n by (intro unat_of_nat_small) (simp add: FSSIZE_def)
  then show ?thesis
    unfolding grown_def
    using image_update [OF I i _ n new d h] stored_update [OF I st i new(1) d(3)] by simp
qed

lemma grown_run:
  assumes "wp m (\<lambda>r t. r = (di, of_nat b) \<and> t = t0) s" and "grown s D F i t0 (D(i := di)) (F(i := (bs @ [b], ib, bytes))) n" and "n = n'"
  shows "wp m (\<lambda>(di, x) t. \<exists>b ib'. x = of_nat b \<and> grown s D F i t (D(i := di)) (F(i := (bs @ [b], ib', bytes))) n') s"
  by (rule wp_mono [OF assms(1)]) (use assms(2,3) in auto)

lemma bmap_new:
  assumes I: "disk_image s D F" and st: "stored s D {i}" and i: "i \<in> {1..<unat (freeinode s)}" and F: "F i = (bs, ib, bytes)"
    and n: "length bs < MAXFILE" "unat (freeblock s) + grow (length bs) \<le> FSSIZE"
  shows "wp (mk_bmap (D i) (length bs)) (\<lambda>(di, x) t. \<exists>b ib'. x = of_nat b \<and>
    grown s D F i t (D(i := di)) (F(i := (bs @ [b], ib', bytes))) (grow (length bs))) s"
proof -
  note h = imageD(9) [OF I i F] and dist = imageD(10) [OF I i F]
  let ?fb = "unat (freeblock s)"
  have fb: "?fb < FSSIZE" using n(2) by (simp add: grow_def split: if_splits)
  have next_fb: "freeblock s = of_nat ?fb" "freeblock s + 1 = of_nat (?fb + 1)" "freeblock s + 1 + 1 = of_nat (?fb + 2)" by simp_all
  have blk: "?fb \<notin> set (bs @ ib)" "Suc ?fb \<notin> set (bs @ ib)" using file_block [OF I i F] by fastforce+
  have zero: "img s ! ?fb = zeroes" "Suc ?fb < FSSIZE \<Longrightarrow> img s ! Suc ?fb = zeroes" using imageD(8) [OF I] fb by simp_all
  consider (direct) "length bs < NDIRECT" | (first) "length bs = NDIRECT" | (more) "NDIRECT < length bs" by linarith
  then show ?thesis
  proof cases
    case direct
    have ib: "ib = []" using holdsD(5) [OF h] direct by simp
    let ?di = "(D i)\<lparr>d_addrs := (d_addrs (D i))[length bs := of_nat ?fb]\<rparr>"
    have g: "grown s D F i (s\<lparr>img := img s, freeblock := of_nat (?fb + 1)\<rparr>) (D(i := ?di)) (F(i := (bs @ [?fb], [], bytes))) 1"
      using holds_direct [OF h direct zero(1)] blk dist ib imageD(2,3) [OF I] fb F by (intro grownI I st i) (auto simp: blocks_of_def)
    have "wp (mk_bmap (D i) (length bs)) (\<lambda>r t. r = (?di, of_nat ?fb) \<and> t = s\<lparr>img := img s, freeblock := of_nat (?fb + 1)\<rparr>) s"
      using holdsD(1,4) [OF h] direct by (simp add: mk_bmap_def wp_simps add.commute)
    then show ?thesis using g by (rule grown_run) (use direct in \<open>simp add: grow_def\<close>)
  next
    case first
    have ib: "ib = []" "d_addrs (D i) ! NDIRECT = 0" using holdsD(5) [OF h] first by simp_all
    have fb2: "Suc ?fb < FSSIZE" using n(2) first by (simp add: grow_def)
    let ?di = "(D i)\<lparr>d_addrs := (d_addrs (D i))[NDIRECT := of_nat ?fb]\<rparr>"
    let ?x = "put32 zeroes 0 (of_nat (Suc ?fb))"
    let ?t = "s\<lparr>img := (img s)[?fb := ?x], freeblock := of_nat (?fb + 2)\<rparr>"
    have g: "grown s D F i ?t (D(i := ?di)) (F(i := (bs @ [Suc ?fb], [?fb], bytes))) 2"
    proof (rule grownI [OF I st i])
      show "holds ((img s)[?fb := ?x]) ?di (bs @ [Suc ?fb]) [?fb] bytes"
        using holds_first_indirect [OF h first zero(1) zero(2) [OF fb2]] blk fb imageD(2) [OF I] by simp
      show "length ((img s)[?fb := ?x] ! b) = BSIZE" if "b < FSSIZE" for b
        using that imageD(2,3) [OF I] fb by (cases "b = ?fb") (simp_all add: zeroes_def BSIZE_def)
    qed (use blk dist ib(1) imageD(2) [OF I] n(2) first F in \<open>auto simp: blocks_of_def grow_def\<close>)
    have r: "wp (rsect (freeblock s)) Q u \<longleftrightarrow> Q (img u ! ?fb) u" "wp (wsect (freeblock s) d) R u \<longleftrightarrow> R () (u\<lparr>img := (img u)[?fb := d]\<rparr>)"
      if "length (img u) = FSSIZE" for u d Q R
      using rsect_run [OF fb that, of Q] wsect_run [OF fb that, of d R] by simp_all
    have z: "get32 zeroes 0 = 0" "get32 (put32 zeroes 0 w) 0 = w" for w using zeroes_get32 [of 0] by (simp_all add: NINDIRECT_def BSIZE_def)
    have "wp (mk_bmap (D i) (length bs)) (\<lambda>r t. r = (?di, of_nat (Suc ?fb)) \<and> t = ?t) s"
      using holdsD(1) [OF h] first ib(2) imageD(2) [OF I] zero(1) by (simp add: mk_bmap_def wp_simps r z Let_def add.commute)
    then show ?thesis using g by (rule grown_run) (use first in \<open>simp add: grow_def\<close>)
  next
    case more
    obtain b where b: "ib = [b]" "d_addrs (D i) ! NDIRECT = of_nat b"
      "\<forall>j<NINDIRECT. get32 (img s ! b) (4 * j) = (if NDIRECT + j < length bs then of_nat (bs ! (NDIRECT + j)) else 0)"
      using holdsD(6) [OF h more] by blast
    have bb: "b < FSSIZE" "(of_nat b :: u32) \<noteq> 0" "b \<noteq> ?fb" "b \<notin> set bs" using file_block [OF I i F, of b] b(1) dist by auto
    let ?o = "4 * (length bs - NDIRECT)"
    let ?x = "put32 (img s ! b) ?o (of_nat ?fb)"
    let ?t = "s\<lparr>img := (img s)[b := ?x], freeblock := of_nat (?fb + 1)\<rparr>"
    have l: "length (img s ! b) = BSIZE" "length (img s) = FSSIZE" "length bs - NDIRECT < NINDIRECT" "?o + 4 \<le> BSIZE"
      using imageD(2,3) [OF I] bb(1) n(1) more by (auto simp: MAXFILE_def NINDIRECT_def BSIZE_def)
    have g: "grown s D F i ?t (D(i := D i)) (F(i := (bs @ [?fb], [b], bytes))) 1"
    proof (rule grownI [OF I st i])
      show "holds ((img s)[b := ?x]) (D i) (bs @ [?fb]) [b] bytes"
        using holds_indirect [OF h [unfolded b(1)] more n(1) zero(1) bb(4,3)] bb(1) l by simp
      show "length ((img s)[b := ?x] ! c) = BSIZE" if "c < FSSIZE" for c
        using that imageD(3) [OF I] l by (cases "c = b") simp_all
    qed (use blk dist b(1) l fb F in \<open>auto simp: blocks_of_def\<close>)
    have "get32 (img s ! b) ?o = 0" using b(3) l(3) more by simp
    then have "wp (mk_bmap (D i) (length bs)) (\<lambda>r t. r = (D i, of_nat ?fb) \<and> t = ?t) s"
      using more b(2) bb l by (simp add: mk_bmap_def wp_simps rsect_run wsect_run Let_def add.commute)
    then show ?thesis using g by (rule grown_run) (use more in \<open>simp add: grow_def\<close>)
  qed
qed

lemma grownD:
  assumes "grown s D F i t D' F' n"
  shows "disk_image t D' F'" "stored t D' {i}" "freeinode t = freeinode s" "unat (freeblock t) = unat (freeblock s) + n"
  using assms by (simp_all add: grown_def)

lemma grown_refl: "disk_image s D F \<Longrightarrow> stored s D {i} \<Longrightarrow> grown s D F i s D F 0"
  by (simp add: grown_def)

lemma grown_trans: "grown s D F i t D1 F1 m \<Longrightarrow> grown t D1 F1 i u D2 F2 n \<Longrightarrow> grown s D F i u D2 F2 (m + n)"
  by (simp add: grown_def)

subsection \<open>The loop\<close>

text \<open>The data blocks of a file of \<open>n\<close> bytes, and all its blocks.\<close>

definition nblk :: "nat \<Rightarrow> nat" where
  "nblk n = (n + (BSIZE - 1)) div BSIZE"

definition space :: "nat \<Rightarrow> nat" where
  "space n = nblk n + (if NDIRECT < nblk n then 1 else 0)"

lemma nblk_Suc: "nblk (Suc n) = Suc (n div BSIZE)"
  by (simp add: nblk_def BSIZE_def)

lemma nblk_old: "n mod BSIZE \<noteq> 0 \<Longrightarrow> nblk n = Suc (n div BSIZE)"
proof -
  assume "n mod BSIZE \<noteq> 0"
  then obtain k where k: "n = Suc k" "k div BSIZE = n div BSIZE" by (cases n) (auto simp: div_Suc split: if_splits)
  then show ?thesis using nblk_Suc [of k] by simp
qed

lemma nblk_new: "n mod BSIZE = 0 \<Longrightarrow> nblk n = n div BSIZE"
proof -
  assume "n mod BSIZE = 0"
  then obtain q where q: "n = BSIZE * q" by auto
  show ?thesis unfolding q by (simp add: nblk_def BSIZE_def div_mult_self4)
qed

lemma nblk_block: "0 < k \<Longrightarrow> n mod BSIZE + k \<le> BSIZE \<Longrightarrow> nblk (n + k) = Suc (n div BSIZE)"
proof -
  assume k: "0 < k" "n mod BSIZE + k \<le> BSIZE"
  then obtain j where j: "k = Suc j" by (cases k) auto
  have "(n + j) div BSIZE = n div BSIZE"
  proof (rule div_nat_eqI)
    have "n = BSIZE * (n div BSIZE) + n mod BSIZE" by simp
    then show "BSIZE * (n div BSIZE) \<le> n + j" "n + j < BSIZE * Suc (n div BSIZE)" using k(2) j unfolding mult_Suc_right by linarith+
  qed
  then show ?thesis using nblk_Suc [of "n + j"] j by simp
qed

lemma nblk_mono: "m \<le> n \<Longrightarrow> nblk m \<le> nblk n"
  by (simp add: nblk_def div_le_mono)

lemma space_mono: "m \<le> n \<Longrightarrow> space m \<le> space n"
  using nblk_mono [of m n] by (auto simp: space_def)

lemma bmap_any:
  assumes I: "disk_image s D F" and st: "stored s D {i}" and i: "i \<in> {1..<unat (freeinode s)}" and F: "F i = (bs, ib, bytes)"
    and l: "length bs = nblk (length bytes)" and n: "length bytes < MAXFILE * BSIZE"
      "unat (freeblock s) + space (Suc (length bytes)) \<le> FSSIZE + space (length bytes)"
  shows "wp (mk_bmap (D i) (length bytes div BSIZE)) (\<lambda>(di, x) t. \<exists>bs' ib' k. x = of_nat (bs' ! (length bytes div BSIZE)) \<and>
    length bs' = nblk (Suc (length bytes)) \<and> grown s D F i t (D(i := di)) (F(i := (bs', ib', bytes))) k \<and>
    k + space (length bytes) = space (Suc (length bytes))) s"
proof (cases "length bytes mod BSIZE = 0")
  case True
  have e: "length bytes div BSIZE = length bs" using nblk_new [OF True] l by simp
  have g: "grow (length bs) + space (length bytes) = space (Suc (length bytes))"
    using l e by (auto simp: grow_def space_def nblk_Suc)
  have "length bs < MAXFILE" unfolding e [symmetric] using n(1) by (rule less_mult_imp_div_less)
  then have "wp (mk_bmap (D i) (length bs)) (\<lambda>(di, x) t. \<exists>b ib'. x = of_nat b \<and>
      grown s D F i t (D(i := di)) (F(i := (bs @ [b], ib', bytes))) (grow (length bs))) s"
    using n(2) g by (intro bmap_new [OF I st i F]) simp_all
  then show ?thesis
    unfolding e
  proof (rule wp_mono, clarsimp)
    fix di t b ib'
    assume "grown s D F i t (D(i := di)) (F(i := (bs @ [b], ib', bytes))) (grow (length bs))"
    then show "\<exists>bs'. of_nat b = (of_nat (bs' ! length bs) :: u32) \<and> length bs' = nblk (Suc (length bytes)) \<and>
        (\<exists>ib' k. grown s D F i t (D(i := di)) (F(i := (bs', ib', bytes))) k \<and> k + space (length bytes) = space (Suc (length bytes)))"
      using g e by (intro exI [of _ "bs @ [b]"]) (auto simp: nblk_Suc)
  qed
next
  case False
  have e: "length bs = Suc (length bytes div BSIZE)" using nblk_old [OF False] l by simp
  have "space (length bytes) = space (Suc (length bytes))" using nblk_old [OF False] by (simp add: space_def nblk_Suc)
  moreover have "grown s D F i s (D(i := D i)) (F(i := (bs, ib, bytes))) 0" using grown_refl [OF I st] F by (simp add: fun_upd_idem)
  ultimately show ?thesis
    using e by (intro wp_mono [OF bmap_old [OF I i F]], simp, clarify)
      (rule exI [of _ bs], rule exI [of _ ib], rule exI [of _ 0], simp add: nblk_Suc)
qed


text \<open>The arithmetic of one round, in 32 bits.\<close>

lemma offsets:
  assumes "n < MAXFILE * BSIZE"
  shows "unat (of_nat n div of_nat BSIZE :: u32) = n div BSIZE" "(of_nat n div of_nat BSIZE :: u32) < of_nat MAXFILE"
    "unat ((of_nat n div of_nat BSIZE + 1) * of_nat BSIZE - of_nat n :: u32) = BSIZE - n mod BSIZE"
    "unat (of_nat n - of_nat n div of_nat BSIZE * of_nat BSIZE :: u32) = n mod BSIZE"
proof -
  have n: "n < 274432" using assms by (simp add: MAXFILE_def NDIRECT_def NINDIRECT_def BSIZE_def)
  have B: "(of_nat BSIZE :: u32) = 1024" "BSIZE = 1024" by (simp_all add: BSIZE_def)
  have u: "unat (of_nat n :: u32) = n" using n by (intro unat_of_nat_small) simp
  show d: "unat (of_nat n div of_nat BSIZE :: u32) = n div BSIZE" unfolding B by (simp add: unat_div u)
  have q: "(of_nat n div of_nat BSIZE :: u32) = of_nat (n div BSIZE)" 
  proof -
    have "n div BSIZE < 2 ^ 32" using n by (simp add: B(2) div_less_iff_less_mult)
    then show ?thesis using d by (simp add: word_unat_eq_iff unat_of_nat_small)
  qed
  have l: "n div BSIZE < MAXFILE" using assms by (rule less_mult_imp_div_less)
  then show "(of_nat n div of_nat BSIZE :: u32) < of_nat MAXFILE"
    using d by (simp add: word_less_nat_alt MAXFILE_def NDIRECT_def NINDIRECT_def BSIZE_def)
  have part: "(of_nat (a + c) :: u32) - of_nat (a + m) = of_nat (c - m)" if "m \<le> c" for a c m
    using that by (simp add: of_nat_diff)
  have m: "n mod BSIZE \<le> BSIZE" "BSIZE - n mod BSIZE < 2 ^ 32" "n mod BSIZE < 2 ^ 32"
    using mod_less_divisor [of BSIZE n] unfolding B(2) by simp_all
  have "(of_nat n div of_nat BSIZE + 1) * of_nat BSIZE - (of_nat n :: u32) =
      of_nat (n div BSIZE * BSIZE + BSIZE) - of_nat (n div BSIZE * BSIZE + n mod BSIZE)"
    unfolding q div_mult_mod_eq by (simp add: algebra_simps)
  then show "unat ((of_nat n div of_nat BSIZE + 1) * of_nat BSIZE - of_nat n :: u32) = BSIZE - n mod BSIZE"
    unfolding part [OF m(1)] using m(2) by (simp add: unat_of_nat_small)
  have "(of_nat n :: u32) - of_nat n div of_nat BSIZE * of_nat BSIZE = of_nat (n div BSIZE * BSIZE + n mod BSIZE) - of_nat (n div BSIZE * BSIZE + 0)"
    unfolding q div_mult_mod_eq by simp
  then show "unat (of_nat n - of_nat n div of_nat BSIZE * of_nat BSIZE :: u32) = n mod BSIZE"
    unfolding part [OF le0] using m(3) by (simp add: unat_of_nat_small)
qed

text \<open>The file \<open>i\<close>, with contents \<open>bytes\<close>, has got the bytes \<open>p\<close>; its inode is still in memory.\<close>

definition appended :: "mkfs \<Rightarrow> (nat \<Rightarrow> dinode) \<Rightarrow> filemap \<Rightarrow> nat \<Rightarrow> u8 list \<Rightarrow> u8 list \<Rightarrow> dinode \<times> u32 \<Rightarrow> mkfs \<Rightarrow> bool" where
  "appended s D F i bytes p = (\<lambda>(di, off) t. \<exists>bs ib k. off = of_nat (length bytes + length p) \<and> length bs = nblk (length bytes + length p) \<and>
     grown s D F i t (D(i := di)) (F(i := (bs, ib, bytes @ p))) k \<and> k + space (length bytes) = space (length bytes + length p))"

lemma appended_nothing:
  assumes "disk_image s D F" and "stored s D {i}" and "F i = (bs, ib, bytes)" and "length bs = nblk (length bytes)"
  shows "appended s D F i bytes [] (D i, of_nat (length bytes)) s"
proof -
  have "grown s D F i s (D(i := D i)) (F(i := (bs, ib, bytes))) 0"
    using grown_refl [OF assms(1,2)] assms(3) unfolding fun_upd_triv by (simp only: fun_upd_idem)
  then show ?thesis unfolding appended_def split append_Nil2 using assms(4) by (intro exI [of _ bs] exI [of _ ib] exI [of _ 0]) simp
qed

lemma appended_more:
  assumes "grown s D F i t (D(i := di)) (F(i := (bs, ib, bytes @ q))) m" and "m + space (length bytes) = space (length (bytes @ q))"
    and "appended t (D(i := di)) (F(i := (bs, ib, bytes @ q))) i (bytes @ q) p r u"
  shows "appended s D F i bytes (q @ p) r u"
proof -
  obtain di' off bs' ib' k where "r = (di', off)" "off = of_nat (length (bytes @ q) + length p)" "length bs' = nblk (length (bytes @ q) + length p)"
    "grown t (D(i := di)) (F(i := (bs, ib, bytes @ q))) i u (D(i := di')) (F(i := (bs', ib', (bytes @ q) @ p))) k"
    "k + space (length (bytes @ q)) = space (length (bytes @ q) + length p)"
    using assms(3) by (auto simp: appended_def)
  then show ?thesis
    unfolding appended_def using grown_trans [OF assms(1)] assms(2)
    by (simp add: add.assoc) (rule exI [of _ bs'], simp, rule exI [of _ ib'], rule exI [of _ "m + k"], simp)
qed

text \<open>Bytes put into the last block.\<close>

lemma grown_write:
  assumes g: "grown s D F i t (D(i := di)) (F(i := (bs, ib, bytes))) m" and i: "i \<in> {1..<unat (freeinode s)}"
    and n: "length bs = Suc (length bytes div BSIZE)" and q: "length bytes mod BSIZE + length q \<le> BSIZE"
  defines "b \<equiv> bs ! (length bytes div BSIZE)"
  shows "b < FSSIZE" "length (img t) = FSSIZE"
    "grown s D F i (t\<lparr>img := (img t)[b := splice_at (img t ! b) (length bytes mod BSIZE) q]\<rparr>) (D(i := di)) (F(i := (bs, ib, bytes @ q))) m"
proof -
  let ?D = "D(i := di)" and ?F = "F(i := (bs, ib, bytes))"
  have I: "disk_image t ?D ?F" and st: "stored t ?D {i}" and i': "i \<in> {1..<unat (freeinode t)}" using g i by (simp_all add: grown_def)
  have F: "?F i = (bs, ib, bytes)" and fn: "length bytes div BSIZE < length bs" using n by simp_all
  have own: "c < FSSIZE \<and> length (img t ! c) = BSIZE" if "c \<in> set bs" for c
    using file_block [OF I i' F, of c] imageD(3) [OF I] that by simp
  have b: "b \<in> set bs" using fn by (simp add: b_def)
  show "b < FSSIZE" "length (img t) = FSSIZE" using own [OF b] imageD(2) [OF I] by simp_all
  let ?d = "(img t)[b := splice_at (img t ! b) (length bytes mod BSIZE) q]"
  have "grown t ?D ?F i (t\<lparr>img := ?d, freeblock := of_nat (unat (freeblock t) + 0)\<rparr>) (?D(i := di)) (?F(i := (bs, ib, bytes @ q))) 0"
  proof (rule grownI [OF I st i'])
    show "holds ?d di bs ib (bytes @ q)"
      using holds_append [OF imageD(9) [OF I i' F] fn q imageD(10) [OF I i' F]] own imageD(2) [OF I] by (simp add: b_def)
    show "length (?d ! c) = BSIZE" if "c < FSSIZE" for c
      using that imageD(2,3) [OF I] q own [OF b] by (cases "c = b") simp_all
    show "?d ! c = img t ! c" if "c < FSSIZE" "c \<notin> set (bs @ ib)" for c using that b by (cases "c = b") simp_all
  qed (use imageD(2,7) [OF I] imageD(10) [OF I i' F] in \<open>auto simp: blocks_of_def\<close>)
  then show "grown s D F i (t\<lparr>img := ?d\<rparr>) (D(i := di)) (F(i := (bs, ib, bytes @ q))) m" using grown_trans [OF g] by fastforce
qed


lemma iappend_loop_run:
  assumes "disk_image s D F" and "stored s D {i}" and "i \<in> {1..<unat (freeinode s)}" and "F i = (bs, ib, bytes)"
    and "length bs = nblk (length bytes)" and "length bytes + length p \<le> MAXFILE * BSIZE"
    and "unat (freeblock s) + space (length bytes + length p) \<le> FSSIZE + space (length bytes)" and "length p \<le> fuel"
  shows "wp (iappend_loop fuel (D i) (of_nat (length bytes)) p) (appended s D F i bytes p) s"
  using assms
proof (induction fuel arbitrary: s D F bs ib bytes p)
  case 0
  then show ?case using appended_nothing [of s D F i bs ib bytes] by (simp add: wp_simps)
next
  case (Suc fuel)
  show ?case
  proof (cases "p = []")
    case True
    then show ?thesis using appended_nothing [of s D F i bs ib bytes] Suc.prems by (simp add: wp_simps)
  next
    case False
    let ?n = "length bytes"
    let ?k = "min (length p) (BSIZE - ?n mod BSIZE)"
    let ?q = "take ?k p" and ?p = "drop ?k p"
    have n: "?n < MAXFILE * BSIZE" using Suc.prems(6) False by (cases p) simp_all
    have mb: "?n mod BSIZE < BSIZE" by (simp add: BSIZE_def)
    then have k: "0 < ?k" "length ?q = ?k" "length p = ?k + length ?p" "p = ?q @ ?p" "?n mod BSIZE + ?k \<le> BSIZE" using False by auto
    have ls: "length (bytes @ ?q) = ?n + ?k" "length (bytes @ ?q) + length ?p = ?n + length p" using k(2,3) unfolding length_append by linarith+
    have nb: "nblk (?n + ?k) = Suc (?n div BSIZE)" using k(1,5) by (rule nblk_block)
    have sp: "space (Suc ?n) = space (?n + ?k)" "space (?n + ?k) \<le> space (?n + length p)"
      using nb k(3) space_mono [of "?n + ?k" "?n + length p"] by (simp_all add: space_def nblk_Suc)
    have room: "unat (freeblock s) + space (Suc ?n) \<le> FSSIZE + space ?n" using Suc.prems(7) sp by linarith
    let ?rest = "\<lambda>(di, x). bnd (rsect x) (\<lambda>buf. andthen (wsect x (splice_at buf (?n mod BSIZE) ?q)) (iappend_loop fuel di (of_nat ?n + of_nat ?k) ?p))"
    have "wp (mk_bmap (D i) (?n div BSIZE)) (\<lambda>r. wp (?rest r) (appended s D F i bytes p)) s"
    proof (rule wp_mono [OF bmap_any [OF Suc.prems(1-5) n room]])
      fix r :: "dinode \<times> u32" and t :: mkfs
      assume "(case r of (di, x) \<Rightarrow> \<lambda>t. \<exists>bs' ib' k. x = of_nat (bs' ! (?n div BSIZE)) \<and> length bs' = nblk (Suc ?n) \<and>
        grown s D F i t (D(i := di)) (F(i := (bs', ib', bytes))) k \<and> k + space ?n = space (Suc ?n)) t"
      then obtain di bs1 ib1 m where r: "r = (di, of_nat (bs1 ! (?n div BSIZE)))" and l: "length bs1 = nblk (Suc ?n)"
        and g: "grown s D F i t (D(i := di)) (F(i := (bs1, ib1, bytes))) m" and m: "m + space ?n = space (Suc ?n)"
        by (cases r) auto
      let ?b = "bs1 ! (?n div BSIZE)"
      let ?t = "t\<lparr>img := (img t)[?b := splice_at (img t ! ?b) (?n mod BSIZE) ?q]\<rparr>"
      have q: "?n mod BSIZE + length ?q \<le> BSIZE" using k by simp
      note w = grown_write [OF g Suc.prems(3) l [unfolded nblk_Suc] q]
      have IH: "wp (iappend_loop fuel ((D(i := di)) i) (of_nat (length (bytes @ ?q))) ?p) (appended ?t (D(i := di)) (F(i := (bs1, ib1, bytes @ ?q))) i (bytes @ ?q) ?p) ?t"
      proof (rule Suc.IH)
        show "unat (freeblock ?t) + space (length (bytes @ ?q) + length ?p) \<le> FSSIZE + space (length (bytes @ ?q))"
          using Suc.prems(7) grownD(4) [OF w(3)] m sp(1) unfolding ls(2) unfolding ls(1) by linarith
        show "length (bytes @ ?q) + length ?p \<le> MAXFILE * BSIZE" "length ?p \<le> fuel"
          using Suc.prems(6,8) k(1-3) unfolding length_append by linarith+
        show "length bs1 = nblk (length (bytes @ ?q))" using l nb k(2) unfolding length_append by (simp only: nblk_Suc)
        show "i \<in> {1..<unat (freeinode ?t)}" using Suc.prems(3) grownD(3) [OF w(3)] by simp
        show "(F(i := (bs1, ib1, bytes @ ?q))) i = (bs1, ib1, bytes @ ?q)" by simp
      qed (rule grownD(1,2) [OF w(3)])+
      have args: "(D(i := di)) i = di" "of_nat (length (bytes @ ?q)) = (of_nat ?n + of_nat ?k :: u32)" unfolding length_append k(2) by simp_all
      have m': "m + space ?n = space (length (bytes @ ?q))" unfolding length_append k(2) using m sp(1) by simp
      have "wp (iappend_loop fuel di (of_nat ?n + of_nat ?k) ?p) (appended s D F i bytes p) ?t"
        using IH unfolding args
      proof (rule wp_mono)
        fix r u assume "appended ?t (D(i := di)) (F(i := (bs1, ib1, bytes @ ?q))) i (bytes @ ?q) ?p r u"
        from appended_more [OF w(3) m' this] show "appended s D F i bytes p r u" unfolding append_take_drop_id .
      qed
      then show "wp (?rest r) (appended s D F i bytes p) t"
        unfolding r split using w(1,2) by (simp add: wp_simps rsect_run wsect_run)
    qed
    then show ?thesis
      using False offsets [OF n] by (simp only: iappend_loop.simps Let_def if_False wp_simps split_beta True_implies_equals simp_thms)
  qed
qed

end
