(* ===== verification/Mkwhole.thy ===== *)
theory Mkwhole
  imports Mkappend
begin

text \<open>Inodes on the disk, \<^verbatim>\<open>iappend\<close> and \<^verbatim>\<open>ialloc\<close> as wholes, and the image \<^verbatim>\<open>mkfs\<close> leaves.\<close>

subsection \<open>Inodes on the disk\<close>

abbreviation iblock :: "nat \<Rightarrow> nat" where
  "iblock i \<equiv> 2 + nlog + i div IPB"

lemma iblock_meta: "i < NINODES \<Longrightarrow> iblock i < nmeta \<and> iblock i < FSSIZE \<and> 2 + nlog \<le> iblock i \<and> iblock i < 2 + nlog + ninodeblocks"
proof -
  assume "i < NINODES"
  then have "i div IPB < 13" by (simp add: NINODES_def IPB_def BSIZE_def div_less_iff_less_mult)
  then show ?thesis
    by (simp add: nmeta_def ninodeblocks_def NINODES_def IPB_def BSIZE_def nlog_def LOGSIZE_def MAXOPBLOCKS_def FSSIZE_def nbitmap_def)
qed

lemma IBLOCK_mk: "i < NINODES \<Longrightarrow> IBLOCK (of_nat i) mk_sb = of_nat (iblock i)"
proof -
  assume i: "i < NINODES"
  have "unat (of_nat i div of_nat IPB :: u32) = i div IPB"
    using i by (simp add: unat_div unat_of_nat_small IPB_def BSIZE_def NINODES_def)
  moreover have "unat (of_nat (i div IPB) :: u32) = i div IPB" using i by (intro unat_of_nat_small) (simp add: IPB_def BSIZE_def NINODES_def)
  ultimately have "(of_nat i div of_nat IPB :: u32) = of_nat (i div IPB)" by (simp add: word_unat_eq_iff)
  then show ?thesis by (simp add: IBLOCK_def mk_sb_def)
qed

lemma unat_mod_IPB: "i < NINODES \<Longrightarrow> unat (of_nat i mod of_nat IPB :: u32) = i mod IPB"
  by (simp add: unat_mod unat_of_nat_small IPB_def BSIZE_def NINODES_def)

lemma rinode_run:
  assumes "msb s = mk_sb" and "length (img s) = FSSIZE" and "i < NINODES"
  shows "wp (rinode (of_nat i)) Q s \<longleftrightarrow> Q (disk_inode (img s) i) s"
  using assms iblock_meta [OF assms(3)] rsect_run [of "iblock i" s]
  by (simp add: rinode_def wp_simps IBLOCK_mk unat_mod_IPB disk_inode_def del: of_nat_add)

definition set_inode :: "nat \<Rightarrow> dinode \<Rightarrow> block list \<Rightarrow> block list" where
  "set_inode i di d = d[iblock i := put_dinode di (i mod IPB) (d ! iblock i)]"

lemma winode_run:
  assumes "msb s = mk_sb" and "length (img s) = FSSIZE" and "i < NINODES"
  shows "wp (winode (of_nat i) di) Q s \<longleftrightarrow> Q () (s\<lparr>img := set_inode i di (img s)\<rparr>)"
  using assms iblock_meta [OF assms(3)] rsect_run [of "iblock i" s] wsect_run [of "iblock i" s]
  by (simp add: winode_def wp_simps IBLOCK_mk unat_mod_IPB set_inode_def del: of_nat_add)

lemma set_inode_simps:
  assumes "i < NINODES" and "length d = FSSIZE" and "\<forall>b<FSSIZE. length (d ! b) = BSIZE" and "length (d_addrs di) = Suc NDIRECT"
  shows "length (set_inode i di d) = FSSIZE" "b < FSSIZE \<Longrightarrow> length (set_inode i di d ! b) = BSIZE"
    "b < 2 + nlog \<or> 2 + nlog + ninodeblocks \<le> b \<Longrightarrow> set_inode i di d ! b = d ! b"
    "j < NINODES \<Longrightarrow> disk_inode (set_inode i di d) j = (if j = i then di else disk_inode d j)"
proof -
  note m = iblock_meta [OF assms(1)]
  have k: "64 * (i mod IPB) + 64 \<le> BSIZE" "i mod IPB < IPB" "j mod IPB < IPB" for j using mod_less_divisor [of IPB i] by (simp_all add: IPB_def BSIZE_def)
  show "length (set_inode i di d) = FSSIZE" using assms(2) by (simp add: set_inode_def)
  show "length (set_inode i di d ! b) = BSIZE" if "b < FSSIZE"
    using that assms(2,3) m k(1) by (cases "b = iblock i") (simp_all add: set_inode_def)
  show "set_inode i di d ! b = d ! b" if "b < 2 + nlog \<or> 2 + nlog + ninodeblocks \<le> b"
    using that m by (cases "b = iblock i") (auto simp: set_inode_def)
  show "disk_inode (set_inode i di d) j = (if j = i then di else disk_inode d j)" if j: "j < NINODES"
  proof (cases "iblock j = iblock i")
    case True
    have "disk_inode (set_inode i di d) j = get_dinode (put_dinode di (i mod IPB) (d ! iblock i)) (j mod IPB)"
      using True assms(2) m by (simp add: disk_inode_def set_inode_def)
    also have "\<dots> = (if j mod IPB = i mod IPB then di else get_dinode (d ! iblock i) (j mod IPB))"
      using get_put_dinode [OF _ k(2) k(3) assms(4)] assms(3) m by simp
    also have "j mod IPB = i mod IPB \<longleftrightarrow> j = i" using True by (metis add_left_cancel mult_div_mod_eq)
    finally show ?thesis using True by (simp add: disk_inode_def)
  next
    case False
    then show ?thesis by (auto simp: disk_inode_def set_inode_def)
  qed
qed

text \<open>Blocks before the data blocks do not matter for files, nor do other fields of their inodes.\<close>

lemma image_cong:
  assumes I: "disk_image s D F" and d: "length d = FSSIZE" "\<And>b. b < FSSIZE \<Longrightarrow> length (d ! b) = BSIZE" "\<And>b. b < FSSIZE \<Longrightarrow> nmeta \<le> b \<Longrightarrow> d ! b = img s ! b" "d ! 1 = img s ! 1"
    and D: "\<And>j. j \<in> {1..<unat (freeinode s)} \<Longrightarrow> d_addrs (D' j) = d_addrs (D j)"
  shows "disk_image (s\<lparr>img := d\<rparr>) D' F"
proof -
  have h: "case F j of (bs, ib, bytes) \<Rightarrow> holds d (D' j) bs ib bytes" if j: "j \<in> {1..<unat (freeinode s)}" for j
  proof -
    obtain bs ib bytes where F: "F j = (bs, ib, bytes)" by (cases "F j") auto
    have "holds (img s) (D' j) bs ib bytes" using imageD(9) [OF I j F] D [OF j] by (simp add: holds_def)
    then have "holds d (D' j) bs ib bytes"
      by (rule holds_cong) (use d(3) file_block [OF I j F] in blast)
    then show ?thesis using F by simp
  qed
  show ?thesis
    unfolding disk_image_def
    by (intro conjI ballI allI impI) (use I d h imageD(6) [OF I] in \<open>auto simp: disk_image_def\<close>)
qed


lemma inode_blocks_meta: "2 + nlog + ninodeblocks \<le> nmeta"
  by (simp add: nmeta_def)

lemma image_set_inode:
  assumes I: "disk_image s D F" and st: "stored s D {i}" and i: "i \<in> {1..<unat (freeinode s)}" and di: "d_addrs di = d_addrs (D i)"
  shows "disk_image (s\<lparr>img := set_inode i di (img s)\<rparr>) (D(i := di)) F" "stored (s\<lparr>img := set_inode i di (img s)\<rparr>) (D(i := di)) {}"
proof -
  obtain bs ib bytes where F: "F i = (bs, ib, bytes)" by (cases "F i") auto
  have "i < NINODES" "length (d_addrs di) = Suc NDIRECT" using i imageD(5) [OF I] holdsD(1) [OF imageD(9) [OF I i F]] di by simp_all
  moreover have "\<forall>b<FSSIZE. length (img s ! b) = BSIZE" using imageD(3) [OF I] by simp
  ultimately have m: "length (set_inode i di (img s)) = FSSIZE" "\<And>b. b < FSSIZE \<Longrightarrow> length (set_inode i di (img s) ! b) = BSIZE"
    "\<And>b. b < 2 + nlog \<or> 2 + nlog + ninodeblocks \<le> b \<Longrightarrow> set_inode i di (img s) ! b = img s ! b"
    "\<And>j. j < NINODES \<Longrightarrow> disk_inode (set_inode i di (img s)) j = (if j = i then di else disk_inode (img s) j)"
    using set_inode_simps imageD(2) [OF I] by blast+
  show "disk_image (s\<lparr>img := set_inode i di (img s)\<rparr>) (D(i := di)) F"
    by (rule image_cong [OF I m(1,2)]) (use m(3) inode_blocks_meta di in auto)
  show "stored (s\<lparr>img := set_inode i di (img s)\<rparr>) (D(i := di)) {}"
    using st m(4) imageD(5) [OF I] by (auto simp: stored_def)
qed

subsection \<open>iappend and ialloc\<close>

text \<open>Every file is on the disk, with its size, and takes no more blocks than it needs.\<close>

definition consistent :: "mkfs \<Rightarrow> filemap \<Rightarrow> bool" where
  "consistent s F \<longleftrightarrow> disk_image s (disk_inode (img s)) F \<and>
     (\<forall>i \<in> {1..<unat (freeinode s)}. case F i of (bs, ib, bytes) \<Rightarrow>
        d_size (disk_inode (img s) i) = of_nat (length bytes) \<and> length bytes \<le> MAXFILE * BSIZE \<and> length bs = nblk (length bytes))"

lemma consistentD:
  assumes "consistent s F"
  shows "disk_image s (disk_inode (img s)) F"
    "i \<in> {1..<unat (freeinode s)} \<Longrightarrow> F i = (bs, ib, bytes) \<Longrightarrow>
      d_size (disk_inode (img s) i) = of_nat (length bytes) \<and> length bytes \<le> MAXFILE * BSIZE \<and> length bs = nblk (length bytes)"
proof -
  have f: "\<forall>i \<in> {1..<unat (freeinode s)}. case F i of (bs, ib, bytes) \<Rightarrow>
        d_size (disk_inode (img s) i) = of_nat (length bytes) \<and> length bytes \<le> MAXFILE * BSIZE \<and> length bs = nblk (length bytes)"
    and "disk_image s (disk_inode (img s)) F" using assms by (simp_all add: consistent_def)
  then show "disk_image s (disk_inode (img s)) F" by simp
  show "d_size (disk_inode (img s) i) = of_nat (length bytes) \<and> length bytes \<le> MAXFILE * BSIZE \<and> length bs = nblk (length bytes)"
    if "i \<in> {1..<unat (freeinode s)}" "F i = (bs, ib, bytes)" using bspec [OF f that(1)] that(2) by simp
qed

lemma image_stored: "disk_image s D F \<Longrightarrow> stored s D {} \<Longrightarrow> disk_image s (disk_inode (img s)) F"
  by (auto simp: disk_image_def stored_def)

lemma iappend_run:
  assumes C: "consistent s F" and i: "i \<in> {1..<unat (freeinode s)}" and F: "F i = (bs, ib, bytes)"
    and n: "length bytes + length p \<le> MAXFILE * BSIZE" "unat (freeblock s) + space (length bytes + length p) \<le> FSSIZE + space (length bytes)"
  shows "wp (iappend (of_nat i) p) (\<lambda>_ t. (\<exists>bs' ib'. consistent t (F(i := (bs', ib', bytes @ p)))) \<and> freeinode t = freeinode s \<and>
    unat (freeblock t) + space (length bytes) = unat (freeblock s) + space (length bytes + length p)) s"
proof -
  let ?D = "disk_inode (img s)"
  have I: "disk_image s ?D F" and sz: "d_size (?D i) = of_nat (length bytes)" and l: "length bs = nblk (length bytes)"
    using consistentD [OF C] i F by auto
  have st: "stored s ?D {i}" by (simp add: stored_def)
  have iN: "i < NINODES" using i imageD(5) [OF I] by simp
  have "wp (bnd (iappend_loop (length p) (?D i) (of_nat (length bytes)) p) (\<lambda>(din, off). winode (of_nat i) (din\<lparr>d_size := off\<rparr>)))
    (\<lambda>_ t. (\<exists>bs' ib'. consistent t (F(i := (bs', ib', bytes @ p)))) \<and> freeinode t = freeinode s \<and>
    unat (freeblock t) + space (length bytes) = unat (freeblock s) + space (length bytes + length p)) s"
    unfolding wp_bnd
  proof (rule wp_mono [OF iappend_loop_run [OF I st i F l n order.refl]])
    fix r :: "dinode \<times> u32" and t assume "appended s ?D F i bytes p r t"
    then obtain di bs' ib' k where r: "r = (di, of_nat (length bytes + length p))" and l': "length bs' = nblk (length bytes + length p)"
      and g: "grown s ?D F i t (?D(i := di)) (F(i := (bs', ib', bytes @ p))) k" and k: "k + space (length bytes) = space (length bytes + length p)"
      unfolding appended_def by (cases r) auto
    let ?F = "F(i := (bs', ib', bytes @ p))" and ?di = "di\<lparr>d_size := of_nat (length bytes + length p)\<rparr>"
    let ?t = "t\<lparr>img := set_inode i ?di (img t)\<rparr>"
    note g' = grownD [OF g]
    have i': "i \<in> {1..<unat (freeinode t)}" using i g'(3) by simp
    have m: "disk_image ?t (?D(i := ?di)) ?F" "stored ?t (?D(i := ?di)) {}"
      using image_set_inode [OF g'(1,2) i', of ?di] by simp_all
    have "consistent ?t ?F"
      unfolding consistent_def
    proof (intro conjI ballI image_stored [OF m])
      fix j assume "j \<in> {1..<unat (freeinode ?t)}"
      then have j: "j \<in> {1..<unat (freeinode s)}" "disk_inode (img ?t) j = (?D(i := ?di)) j" using m(2) g'(3) by (auto simp: stored_def)
      then show "case ?F j of (bs, ib, bytes) \<Rightarrow>
        d_size (disk_inode (img ?t) j) = of_nat (length bytes) \<and> length bytes \<le> MAXFILE * BSIZE \<and> length bs = nblk (length bytes)"
        using C n(1) l' unfolding consistent_def j(2) by (cases "j = i") auto
    qed
    then show "wp ((\<lambda>(din, off). winode (of_nat i) (din\<lparr>d_size := off\<rparr>)) r) (\<lambda>_ t. (\<exists>bs' ib'. consistent t (F(i := (bs', ib', bytes @ p)))) \<and> freeinode t = freeinode s \<and>
        unat (freeblock t) + space (length bytes) = unat (freeblock s) + space (length bytes + length p)) t"
      unfolding r split using winode_run [OF imageD(1,2) [OF g'(1)] iN, of ?di] g'(3,4) k by auto
  qed
  then show ?thesis
    using rinode_run [OF imageD(1,2) [OF I] iN] sz by (simp add: iappend_def wp_simps)
qed


definition empty_inode :: "u16 \<Rightarrow> dinode" where
  "empty_inode ty = \<lparr>d_type = ty, d_major = 0, d_minor = 0, d_nlink = 1, d_size = 0, d_addrs = replicate (Suc NDIRECT) 0\<rparr>"

lemma holds_empty: "holds d (empty_inode ty) [] [] []"
  by (simp add: holds_def empty_inode_def del: replicate_Suc)

lemma image_new_inode:
  assumes I: "disk_image s D F" and n: "n = unat (freeinode s)" "n < NINODES" and h: "holds (img s) (D n) [] [] []"
  shows "disk_image (s\<lparr>freeinode := of_nat (Suc n)\<rparr>) D (F(n := ([], [], [])))"
proof -
  have u: "unat (of_nat (Suc n) :: u32) = Suc n" using n(2) by (intro unat_of_nat_small) (simp add: NINODES_def)
  have old: "j = n \<or> j \<in> {1..<unat (freeinode s)} \<and> j \<noteq> n" if "j \<in> {1..<Suc n}" for j using that n by auto
  have files: "(case (F(n := ([], [], []))) j of (bs, ib, bytes) \<Rightarrow> holds (img s) (D j) bs ib bytes) \<and>
      distinct (blocks_of ((F(n := ([], [], []))) j)) \<and> set (blocks_of ((F(n := ([], [], []))) j)) \<subseteq> {nmeta..<unat (freeblock s)}"
    if "j \<in> {1..<Suc n}" for j
  proof (cases "j = n")
    case False
    then have j: "j \<in> {1..<unat (freeinode s)}" using old [OF that] by simp
    obtain bs ib bytes where F: "F j = (bs, ib, bytes)" by (cases "F j") auto
    have "set (bs @ ib) \<subseteq> {nmeta..<unat (freeblock s)}" using file_block [OF I j F] by auto
    then show ?thesis using imageD(9,10) [OF I j F] F False by (simp add: blocks_of_def)
  qed (use h in \<open>simp add: blocks_of_def\<close>)
  have apart: "set (blocks_of ((F(n := ([], [], []))) j)) \<inter> set (blocks_of ((F(n := ([], [], []))) k)) = {}"
    if "j \<in> {1..<Suc n}" "k \<in> {1..<Suc n}" "j \<noteq> k" for j k
    using old [OF that(1)] old [OF that(2)] imageD(12) [OF I, of j k] that(3) by (auto simp: blocks_of_def)
  show ?thesis
    unfolding disk_image_def
    by (intro conjI ballI allI impI) (use u n imageD(1-8) [OF I] image_sb [OF I] files apart in simp_all)
qed

lemma ialloc_run:
  assumes C: "consistent s F" and n: "n = unat (freeinode s)" "n < NINODES"
  shows "wp (mk_ialloc ty) (\<lambda>r t. r = of_nat n \<and> consistent t (F(n := ([], [], []))) \<and> unat (freeinode t) = Suc n \<and> freeblock t = freeblock s) s"
proof -
  note I = consistentD(1) [OF C]
  let ?e = "empty_inode ty"
  let ?d = "set_inode n ?e (img s)"
  let ?t = "s\<lparr>img := ?d, freeinode := of_nat (Suc n)\<rparr>" and ?F = "F(n := ([], [], []))"
  have fi: "freeinode s = of_nat n" "freeinode s + 1 = of_nat (Suc n)" "unat (freeinode ?t) = Suc n"
    using n(2) unat_of_nat_small [of "Suc n", where 'a = 32] by (simp_all add: n(1) NINODES_def)
  have addrs: "length (d_addrs ?e) = Suc NDIRECT" by (simp add: empty_inode_def)
  have len: "\<forall>b<FSSIZE. length (img s ! b) = BSIZE" using imageD(3) [OF I] by simp
  note m = set_inode_simps [OF n(2) imageD(2) [OF I] len addrs]
  have dj: "disk_inode ?d j = (if j = n then ?e else disk_inode (img s) j)" if "j \<in> {1..<Suc n}" for j using m(4) [of j] that n(2) by simp
  have "disk_image (s\<lparr>img := ?d\<rparr>) (disk_inode ?d) F"
    by (rule image_cong [OF I m(1,2)]) (use m(3) inode_blocks_meta dj n(1) in auto)
  then have im: "disk_image ?t (disk_inode (img ?t)) ?F"
    using image_new_inode [of "s\<lparr>img := ?d\<rparr>" "disk_inode ?d" F n] n m(4) [OF n(2)] holds_empty by simp
  have sz: "case ?F j of (bs, ib, bytes) \<Rightarrow> d_size (disk_inode (img ?t) j) = of_nat (length bytes) \<and>
      length bytes \<le> MAXFILE * BSIZE \<and> length bs = nblk (length bytes)" if j: "j \<in> {1..<unat (freeinode ?t)}" for j
  proof (cases "j = n")
    case True
    then show ?thesis using dj [of j] j fi(3) by (simp add: empty_inode_def nblk_def BSIZE_def)
  next
    case False
    then have "j \<in> {1..<unat (freeinode s)}" "j \<in> {1..<Suc n}" using j fi(3) n(1) by auto
    then show ?thesis using consistentD(2) [OF C, of j] dj [of j] False by (auto split: prod.split)
  qed
  have "consistent ?t ?F" unfolding consistent_def by (intro conjI ballI, rule im, rule sz, assumption)
  moreover have "?t = s\<lparr>freeinode := of_nat (Suc n), img := ?d\<rparr>" by (cases s) simp
  ultimately have c: "consistent (s\<lparr>freeinode := of_nat (Suc n), img := ?d\<rparr>) ?F" by (simp only:)
  have up: "freeinode_update (\<lambda>n. n + 1) s = s\<lparr>freeinode := of_nat (Suc n)\<rparr>" using fi(2) by (cases s) simp
  have e: "\<lparr>d_type = xshort ty, d_major = 0, d_minor = 0, d_nlink = xshort 1, d_size = xint 0, d_addrs = replicate (Suc NDIRECT) 0\<rparr> = ?e"
    unfolding empty_inode_def by (simp del: replicate_Suc)
  show ?thesis
    unfolding mk_ialloc_def wp_bnd wp_andthen wp_gets wp_modify wp_ret fi(1) e up
    using c winode_run [of "s\<lparr>freeinode := of_nat (Suc n)\<rparr>" n ?e] imageD(1,2) [OF I] n(2) fi(3) by (simp add: wp_ret)
qed

end
