(* ===== verification/Mkresult.thy ===== *)
theory Mkresult
  imports Mkwhole Balloc
begin

text \<open>The contents of files as the kernel finds them on the disk, \<^verbatim>\<open>iappend\<close> as an operation on them, and the whole of \<^verbatim>\<open>mkfs\<close>.\<close>

subsection \<open>Contents\<close>

text \<open>The bytes of a file, found through its inode and the indirect block.\<close>

definition file_byte :: "block list \<Rightarrow> nat \<Rightarrow> nat \<Rightarrow> u8" where
  "file_byte d i k =
     (let addrs = d_addrs (disk_inode d i); n = k div BSIZE;
          b = (if n < NDIRECT then addrs ! n else get32 (d ! unat (addrs ! NDIRECT)) (4 * (n - NDIRECT)))
      in d ! unat b ! (k mod BSIZE))"

definition contents :: "block list \<Rightarrow> nat \<Rightarrow> u8 list" where
  "contents d i = map (file_byte d i) [0..<unat (d_size (disk_inode d i))]"

lemma file_byte_holds:
  assumes h: "holds d (disk_inode d i) bs ib bytes" and k: "k < BSIZE * length bs" and b: "\<And>b. b \<in> set (bs @ ib) \<Longrightarrow> b < FSSIZE"
  shows "file_byte d i k = (if k < length bytes then bytes ! k else 0)"
proof -
  have n: "k div BSIZE < length bs" using k by (simp add: less_mult_imp_div_less mult.commute)
  let ?a = "d_addrs (disk_inode d i)"
  have "(if k div BSIZE < NDIRECT then ?a ! (k div BSIZE) else get32 (d ! unat (?a ! NDIRECT)) (4 * (k div BSIZE - NDIRECT))) = of_nat (bs ! (k div BSIZE))"
  proof (cases "k div BSIZE < NDIRECT")
    case True
    then show ?thesis using holdsD(4) [OF h True] n by simp
  next
    case False
    then obtain c where c: "ib = [c]" "?a ! NDIRECT = of_nat c"
      "\<forall>j<NINDIRECT. get32 (d ! c) (4 * j) = (if NDIRECT + j < length bs then of_nat (bs ! (NDIRECT + j)) else 0)"
      using holdsD(6) [OF h] n by auto
    have "k div BSIZE - NDIRECT < NINDIRECT" using n holdsD(3) [OF h] False by (simp add: MAXFILE_def)
    then show ?thesis using c b [of c] False n by auto
  qed
  then show ?thesis using holdsD(7) [OF h k] b [of "bs ! (k div BSIZE)"] n by (simp add: file_byte_def Let_def)
qed

text \<open>The abstract state: \<open>c i\<close> is the contents of the file with inode \<open>i\<close>.\<close>

definition used :: "(nat \<Rightarrow> u8 list) \<Rightarrow> nat \<Rightarrow> nat" where
  "used c n = (\<Sum>i \<in> {1..<n}. space (length (c i)))"

definition files :: "mkfs \<Rightarrow> (nat \<Rightarrow> u8 list) \<Rightarrow> bool" where
  "files s c \<longleftrightarrow> (\<exists>F. consistent s F \<and> (\<forall>i \<in> {1..<unat (freeinode s)}. snd (snd (F i)) = c i)) \<and>
     unat (freeblock s) = nmeta + used c (unat (freeinode s))"

lemma files_contents: "files s c \<Longrightarrow> i \<in> {1..<unat (freeinode s)} \<Longrightarrow> contents (img s) i = c i"
proof -
  assume f: "files s c" and i: "i \<in> {1..<unat (freeinode s)}"
  obtain F where C: "consistent s F" and c: "\<forall>i \<in> {1..<unat (freeinode s)}. snd (snd (F i)) = c i" using f by (auto simp: files_def)
  note I = consistentD(1) [OF C]
  obtain bs ib where F: "F i = (bs, ib, c i)" using bspec [OF c i] by (cases "F i") auto
  note z = consistentD(2) [OF C i F]
  have l: "length (c i) < 2 ^ 32" using z by (simp add: MAXFILE_def NDIRECT_def NINDIRECT_def BSIZE_def)
  have "length (c i) \<le> BSIZE * length bs" using holdsD(2) [OF imageD(9) [OF I i F]] .
  then have "file_byte (img s) i k = c i ! k" if "k < length (c i)" for k
    using file_byte_holds [OF imageD(9) [OF I i F], of k] file_block [OF I i F] that by simp
  then show ?thesis using z l by (auto simp: contents_def unat_of_nat_small intro: nth_equalityI)
qed

lemma used_upd: "i \<in> {1..<n} \<Longrightarrow> used (c(i := x)) n + space (length (c i)) = used c n + space (length x)"
proof -
  assume i: "i \<in> {1..<n}"
  have "(\<Sum>j \<in> {1..<n} - {i}. space (length ((c(i := x)) j))) = (\<Sum>j \<in> {1..<n} - {i}. space (length (c j)))" by (rule sum.cong) auto
  then show ?thesis using sum.remove [OF _ i, of "\<lambda>j. space (length ((c(i := x)) j))"] sum.remove [OF _ i, of "\<lambda>j. space (length (c j))"]
    by (simp add: used_def)
qed

lemma files_iappend:
  assumes f: "files s c" and i: "i \<in> {1..<unat (freeinode s)}" and n: "length (c i @ p) \<le> MAXFILE * BSIZE"
    "nmeta + used (c(i := c i @ p)) (unat (freeinode s)) \<le> FSSIZE"
  shows "wp (iappend (of_nat i) p) (\<lambda>_ t. files t (c(i := c i @ p)) \<and> freeinode t = freeinode s) s"
proof -
  obtain F where C: "consistent s F" and c: "\<forall>i \<in> {1..<unat (freeinode s)}. snd (snd (F i)) = c i"
    and u: "unat (freeblock s) = nmeta + used c (unat (freeinode s))" using f by (auto simp: files_def)
  obtain bs ib where F: "F i = (bs, ib, c i)" using bspec [OF c i] by (cases "F i") auto
  have s: "used (c(i := c i @ p)) (unat (freeinode s)) + space (length (c i)) = used c (unat (freeinode s)) + space (length (c i) + length p)"
    using used_upd [OF i, of c "c i @ p"] by simp
  show ?thesis
  proof (rule wp_mono [OF iappend_run [OF C i F, of p]])
    fix r t assume "(\<exists>bs' ib'. consistent t (F(i := (bs', ib', c i @ p)))) \<and> freeinode t = freeinode s \<and>
      unat (freeblock t) + space (length (c i)) = unat (freeblock s) + space (length (c i) + length p)"
    then obtain bs' ib' where t: "consistent t (F(i := (bs', ib', c i @ p)))" "freeinode t = freeinode s"
      "unat (freeblock t) + space (length (c i)) = unat (freeblock s) + space (length (c i) + length p)" by blast
    have "\<forall>j \<in> {1..<unat (freeinode t)}. snd (snd ((F(i := (bs', ib', c i @ p))) j)) = (c(i := c i @ p)) j" using c t(2) by simp
    then have "\<exists>F. consistent t F \<and> (\<forall>j \<in> {1..<unat (freeinode t)}. snd (snd (F j)) = (c(i := c i @ p)) j)" using t(1) by blast
    then show "files t (c(i := c i @ p)) \<and> freeinode t = freeinode s" using t(2,3) u s by (simp add: files_def)
  qed (use n u s in simp_all)
qed

lemma files_ialloc:
  assumes f: "files s c" and n: "n = unat (freeinode s)" "n < NINODES"
  shows "wp (mk_ialloc ty) (\<lambda>r t. r = of_nat n \<and> files t (c(n := [])) \<and> unat (freeinode t) = Suc n) s"
proof -
  obtain F where C: "consistent s F" and c: "\<forall>i \<in> {1..<unat (freeinode s)}. snd (snd (F i)) = c i"
    and u: "unat (freeblock s) = nmeta + used c (unat (freeinode s))" using f by (auto simp: files_def)
  have "1 \<le> n" using imageD(4) [OF consistentD(1) [OF C]] n by simp
  then have "{1..<Suc n} = insert n {1..<n}" by auto
  moreover have "(\<Sum>i \<in> {1..<n}. space (length ((c(n := [])) i))) = (\<Sum>i \<in> {1..<n}. space (length (c i)))" by (rule sum.cong) auto
  ultimately have s: "used (c(n := [])) (Suc n) = used c n" by (simp add: used_def space_def nblk_def BSIZE_def)
  show ?thesis
  proof (rule wp_mono [OF ialloc_run [OF C n]])
    fix r t assume t: "r = of_nat n \<and> consistent t (F(n := ([], [], []))) \<and> unat (freeinode t) = Suc n \<and> freeblock t = freeblock s"
    have "\<forall>j \<in> {1..<unat (freeinode t)}. snd (snd ((F(n := ([], [], []))) j)) = (c(n := [])) j" using c t n(1) by auto
    then have "\<exists>F. consistent t F \<and> (\<forall>j \<in> {1..<unat (freeinode t)}. snd (snd (F j)) = (c(n := [])) j)" using t by blast
    then show "r = of_nat n \<and> files t (c(n := [])) \<and> unat (freeinode t) = Suc n" using t u s n(1) by (simp add: files_def)
  qed
qed


subsection \<open>Adding files\<close>

definition fits :: "(nat \<Rightarrow> u8 list) \<Rightarrow> nat \<Rightarrow> bool" where
  "fits c n \<longleftrightarrow> (\<forall>i \<in> {1..<n}. length (c i) \<le> MAXFILE * BSIZE) \<and> nmeta + used c n \<le> FSSIZE"

lemma fits_mono:
  assumes "fits c' n'" and "n \<le> n'" and "\<And>i. i \<in> {1..<n} \<Longrightarrow> length (c i) \<le> length (c' i)"
  shows "fits c n"
proof -
  have "used c n \<le> (\<Sum>i \<in> {1..<n}. space (length (c' i)))" unfolding used_def by (intro sum_mono space_mono assms(3))
  also have "\<dots> \<le> used c' n'" unfolding used_def by (intro sum_mono2) (use assms(2) in auto)
  finally have "nmeta + used c n \<le> FSSIZE" using assms(1) by (simp add: fits_def)
  moreover have "length (c i) \<le> MAXFILE * BSIZE" if i: "i \<in> {1..<n}" for i
  proof -
    have "i \<in> {1..<n'}" using i assms(2) by simp
    then have "length (c' i) \<le> MAXFILE * BSIZE" using assms(1) unfolding fits_def by blast
    then show ?thesis using assms(3) [OF i] by simp
  qed
  ultimately show ?thesis by (simp add: fits_def)
qed

lemma files_append:
  assumes "files s c" and "i \<in> {1..<unat (freeinode s)}" and "fits (c(i := c i @ p)) (unat (freeinode s))"
  shows "wp (iappend (of_nat i) p) (\<lambda>_ t. files t (c(i := c i @ p)) \<and> freeinode t = freeinode s) s"
proof (rule files_iappend [OF assms(1,2)])
  have "length ((c(i := c i @ p)) i) \<le> MAXFILE * BSIZE" using assms(2,3) unfolding fits_def by blast
  then show "length (c i @ p) \<le> MAXFILE * BSIZE" by simp
qed (use assms(3) in \<open>simp add: fits_def\<close>)

lemma files_chunks:
  assumes "files s c" and "i \<in> {1..<unat (freeinode s)}" and "fits (c(i := c i @ concat ps)) (unat (freeinode s))"
  shows "wp (for_each ps (iappend (of_nat i))) (\<lambda>_ t. files t (c(i := c i @ concat ps)) \<and> freeinode t = freeinode s) s"
  using assms
proof (induction ps arbitrary: s c)
  case Nil
  then show ?case by (simp add: wp_simps)
next
  case (Cons p ps)
  have f: "fits (c(i := c i @ p)) (unat (freeinode s))" by (rule fits_mono [OF Cons.prems(3)]) auto
  show ?case
    unfolding for_each.simps wp_andthen
  proof (rule wp_mono [OF files_append [OF Cons.prems(1,2) f]])
    fix r t assume t: "files t (c(i := c i @ p)) \<and> freeinode t = freeinode s"
    show "wp (for_each ps (iappend (of_nat i))) (\<lambda>_ t. files t (c(i := c i @ concat (p # ps))) \<and> freeinode t = freeinode s) t"
      using Cons.IH [of t "c(i := c i @ p)"] t Cons.prems(2,3) by (simp del: fun_upd_apply add: fun_upd_same)
  qed
qed

text \<open>The name of a file on the disk, and the directory entry it gets.\<close>

definition entry_name :: "u8 list \<Rightarrow> u8 list" where
  "entry_name arg = skip_underscore (short_name arg)"

definition good_file :: "mkfile \<Rightarrow> bool" where
  "good_file f \<longleftrightarrow> 47 \<notin> set (short_name (fst f)) \<and> snd f \<noteq> None"

definition with_file :: "nat \<Rightarrow> mkfile \<Rightarrow> (nat \<Rightarrow> u8 list) \<Rightarrow> nat \<Rightarrow> u8 list" where
  "with_file n f c = c(n := concat (the (snd f)), 1 := c 1 @ dirent (of_nat n) (entry_name (fst f)))"

lemma files_add_file:
  assumes "files s c" and n: "n = unat (freeinode s)" "1 < n" "n < NINODES" and f: "good_file f" and fit: "fits (with_file n f c) (Suc n)"
  shows "wp (add_file 1 f) (\<lambda>_ t. files t (with_file n f c) \<and> unat (freeinode t) = Suc n) s"
proof -
  obtain ps where ps: "snd f = Some ps" using f by (cases "snd f") (auto simp: good_file_def)
  let ?de = "dirent (of_nat n) (entry_name (fst f))"
  let ?c1 = "c(n := [])" let ?c2 = "?c1(1 := c 1 @ ?de)"
  have c: "?c1 1 = c 1" "?c2 n = []" "?c2(n := concat ps) = with_file n f c" using n(2) ps by (auto simp: with_file_def fun_upd_twist)
  have fit2: "fits ?c2 (Suc n)" by (rule fits_mono [OF fit]) (use n(2) in \<open>auto simp: with_file_def\<close>)
  have "wp (bnd (mk_ialloc T_FILE) (\<lambda>inum. andthen (iappend 1 (dirent inum (entry_name (fst f)))) (for_each ps (iappend inum))))
    (\<lambda>_ t. files t (with_file n f c) \<and> unat (freeinode t) = Suc n) s"
    unfolding wp_bnd
  proof (rule wp_mono [OF files_ialloc [OF assms(1) n(1,3)]], clarify)
    fix t assume t: "files t ?c1" "unat (freeinode t) = Suc n"
    have "wp (iappend (of_nat 1) ?de) (\<lambda>_ u. files u ?c2 \<and> freeinode u = freeinode t) t"
      using files_append [OF t(1), of 1 ?de] t(2) fit2 n(2) c(1) by simp
    then have "wp (iappend 1 ?de) (\<lambda>_. wp (for_each ps (iappend (of_nat n))) (\<lambda>_ t. files t (with_file n f c) \<and> unat (freeinode t) = Suc n)) t"
      unfolding of_nat_1
    proof (rule wp_mono)
      fix r u assume u: "files u ?c2 \<and> freeinode u = freeinode t"
      show "wp (for_each ps (iappend (of_nat n))) (\<lambda>_ t. files t (with_file n f c) \<and> unat (freeinode t) = Suc n) u"
        by (rule wp_mono [OF files_chunks [of u ?c2 n ps, unfolded c(2) append_Nil c(3)]]) (use u t(2) fit n(2) in simp_all)
    qed
    then show "wp (andthen (iappend 1 ?de) (for_each ps (iappend (of_nat n)))) (\<lambda>_ t. files t (with_file n f c) \<and> unat (freeinode t) = Suc n) t"
      by (simp only: wp_andthen)
  qed
  then show ?thesis using f ps by (simp add: add_file_def Let_def wp_simps good_file_def entry_name_def)
qed

primrec build :: "nat \<Rightarrow> mkfile list \<Rightarrow> (nat \<Rightarrow> u8 list) \<Rightarrow> nat \<Rightarrow> u8 list" where
  "build n [] c = c"
| "build n (f # fs) c = build (Suc n) fs (with_file n f c)"

lemma build_grows: "1 < n \<Longrightarrow> i \<in> {1..<n} \<Longrightarrow> length (c i) \<le> length (build n fs c i)"
proof (induction fs arbitrary: n c)
  case (Cons f fs)
  have "length (c i) \<le> length (with_file n f c i)" using Cons.prems by (auto simp: with_file_def)
  also have "\<dots> \<le> length (build (Suc n) fs (with_file n f c) i)" using Cons.prems by (intro Cons.IH) auto
  finally show ?case by simp
qed simp

lemma files_build:
  assumes "files s c" and "n = unat (freeinode s)" and "1 < n" and "n + length fs \<le> NINODES" and "list_all good_file fs"
    and "fits (build n fs c) (n + length fs)"
  shows "wp (for_each fs (add_file 1)) (\<lambda>_ t. files t (build n fs c) \<and> unat (freeinode t) = n + length fs) s"
  using assms
proof (induction fs arbitrary: s c n)
  case Nil
  then show ?case by (simp add: wp_simps)
next
  case (Cons f fs)
  have fit: "fits (with_file n f c) (Suc n)"
    by (rule fits_mono [OF Cons.prems(6)]) (use build_grows [of "Suc n" _ "with_file n f c" fs] Cons.prems(3) in auto)
  have "wp (add_file 1 f) (\<lambda>_ t. files t (with_file n f c) \<and> unat (freeinode t) = Suc n) s"
    using Cons.prems fit by (intro files_add_file) auto
  then show ?case
    unfolding for_each.simps wp_andthen
  proof (rule wp_mono)
    fix r t assume t: "files t (with_file n f c) \<and> unat (freeinode t) = Suc n"
    show "wp (for_each fs (add_file 1)) (\<lambda>_ t. files t (build n (f # fs) c) \<and> unat (freeinode t) = n + length (f # fs)) t"
      using Cons.IH [of t "with_file n f c" "Suc n"] t Cons.prems by simp
  qed
qed


subsection \<open>The image\<close>

text \<open>The image file filled with zeroes.\<close>

lemma wp_for_each_append: "wp (for_each (xs @ ys) f) Q s \<longleftrightarrow> wp (for_each xs f) (\<lambda>_. wp (for_each ys f) Q) s"
  by (induction xs arbitrary: s) (simp_all add: wp_simps, auto elim!: wp_mono)

lemma zero_fill:
  "img s = [] \<Longrightarrow> n \<le> FSSIZE \<Longrightarrow> wp (for_each [0..<n] (\<lambda>i. wsect (of_nat i) zeroes)) (\<lambda>_ t. t = s\<lparr>img := replicate n zeroes\<rparr>) s"
proof (induction n)
  case 0
  then show ?case by (cases s) (simp add: wp_simps)
next
  case (Suc n)
  have "wp (wsect (of_nat n) zeroes) (\<lambda>_ t. t = s\<lparr>img := replicate (Suc n) zeroes\<rparr>) (s\<lparr>img := replicate n zeroes\<rparr>)"
    using Suc.prems by (simp add: wsect_def wp_simps replicate_append_same)
  moreover have "wp (for_each [0..<n] (\<lambda>i. wsect (of_nat i) zeroes)) (\<lambda>_ t. t = s\<lparr>img := replicate n zeroes\<rparr>) s" using Suc by simp
  ultimately show ?case by (auto simp: wp_for_each_append wp_andthen wp_ret elim!: wp_mono)
qed

lemma length_sb_block: "length sb_block = BSIZE"
  by (simp add: sb_block_def splice_at_def zeroes_def BSIZE_def)

lemma sb_block_superblock: "get_superblock sb_block = mk_sb"
  by (simp add: sb_block_def get_superblock_def splice_at_def get32_def)

lemma no_files:
  assumes "img s = (replicate FSSIZE zeroes)[1 := sb_block]" and "msb s = mk_sb" and "freeblock s = of_nat nmeta" and "freeinode s = 1"
  shows "files s c"
proof -
  have u: "unat (freeblock s) = nmeta" using assms(3) by (simp add: nmeta_def nlog_def LOGSIZE_def MAXOPBLOCKS_def ninodeblocks_def NINODES_def
        IPB_def BSIZE_def nbitmap_def FSSIZE_def)
  have n: "1 < nmeta" "nmeta \<le> FSSIZE" "length zeroes = BSIZE"
    by (simp_all add: nmeta_def nlog_def LOGSIZE_def MAXOPBLOCKS_def ninodeblocks_def NINODES_def IPB_def BSIZE_def nbitmap_def FSSIZE_def zeroes_def)
  have "disk_image s (disk_inode (img s)) (\<lambda>_. ([], [], []))"
    unfolding disk_image_def
    by (intro conjI ballI allI impI) (use assms u n length_sb_block in \<open>auto simp: nth_list_update FSSIZE_def NINODES_def\<close>)
  then show ?thesis using u assms(4) by (auto simp: files_def consistent_def used_def)
qed

text \<open>What the disk holds in the end: the directory, and the files.\<close>

definition entries :: "nat \<Rightarrow> mkfile list \<Rightarrow> u8 list" where
  "entries n fs = concat (map (\<lambda>j. dirent (of_nat (n + j)) (entry_name (fst (fs ! j)))) [0..<length fs])"

definition disk_contents :: "mkfile list \<Rightarrow> nat \<Rightarrow> u8 list" where
  "disk_contents fs i =
     (if i = 1 then dirent 1 [46] @ dirent 1 [46, 46] @ entries 2 fs
      else if 2 \<le> i \<and> i < 2 + length fs then concat (the (snd (fs ! (i - 2)))) else [])"

lemma entries_Cons: "entries n (f # fs) = dirent (of_nat n) (entry_name (fst f)) @ entries (Suc n) fs"
  by (simp add: entries_def upt_conv_Cons map_Suc_upt [symmetric] comp_def ac_simps del: upt_Suc)

lemma build_closed:
  "1 < n \<Longrightarrow> build n fs c i = (if n \<le> i \<and> i < n + length fs then concat (the (snd (fs ! (i - n)))) else if i = 1 then c 1 @ entries n fs else c i)"
proof (induction fs arbitrary: n c i)
  case Nil
  then show ?case by (auto simp: entries_def)
next
  case (Cons f fs)
  have "with_file n f c 1 = c 1 @ dirent (of_nat n) (entry_name (fst f))" by (simp add: with_file_def)
  moreover have "i = n \<Longrightarrow> with_file n f c i = concat (the (snd f))" "i \<noteq> n \<Longrightarrow> i \<noteq> 1 \<Longrightarrow> with_file n f c i = c i"
    using Cons.prems by (auto simp: with_file_def)
  ultimately show ?case using Cons.prems
    by (cases "i = n") (auto simp: Cons.IH entries_Cons nth_Cons')
qed

lemma build_disk: "build 2 fs ((\<lambda>_. [])(1 := dirent 1 [46] @ dirent 1 [46, 46])) = disk_contents fs"
  by (rule ext) (simp add: build_closed disk_contents_def)


text \<open>The bitmap.\<close>

lemma bitmap_marks: "n \<le> BPB \<Longrightarrow> bit_used (fold mark_bit [0..<n] zeroes) b \<longleftrightarrow> b < n \<and> b < BPB \<or> bit_used zeroes b"
proof (induction n)
  case (Suc n)
  have "length (fold mark_bit xs d) = length d" for xs d by (induction xs arbitrary: d) (simp_all add: mark_bit_def)
  then show ?case using Suc bit_used_mark [of "fold mark_bit [0..<n] zeroes" n b] by (auto simp: zeroes_def)
qed simp

lemma zeroes_unused: "b < BPB \<Longrightarrow> \<not> bit_used zeroes b"
  by (simp add: bit_used_bit zeroes_def BPB_def BSIZE_def div_less_iff_less_mult)

lemma contents_prefix:
  assumes I: "disk_image t (disk_inode (img t)) F" and i: "i \<in> {1..<unat (freeinode t)}" and F: "F i = (bs, ib, bytes)"
    and n: "length bytes \<le> unat (d_size (disk_inode (img t) i))"
  shows "take (length bytes) (contents (img t) i) = bytes"
proof (rule nth_equalityI)
  show "length (take (length bytes) (contents (img t) i)) = length bytes" using n by (simp add: contents_def)
  fix k assume "k < length (take (length bytes) (contents (img t) i))"
  then have k: "k < length bytes" "k < unat (d_size (disk_inode (img t) i))" by (simp_all add: contents_def)
  have h: "holds (img t) (disk_inode (img t) i) bs ib bytes" using imageD(9) [OF I i F] .
  have "k < BSIZE * length bs" using k(1) holdsD(2) [OF h] by simp
  then show "take (length bytes) (contents (img t) i) ! k = bytes ! k"
    using file_byte_holds [OF h, of k] file_block [OF I i F] k by (simp add: contents_def)
qed

text \<open>The size of the root directory is rounded up, and the bitmap is written.\<close>

definition finished :: "mkfs \<Rightarrow> mkfs" where
  "finished s = s\<lparr>img := (set_inode 1 ((disk_inode (img s) 1)\<lparr>d_size := (d_size (disk_inode (img s) 1) div of_nat BSIZE + 1) * of_nat BSIZE\<rparr>)
     (img s))[2 + nlog + ninodeblocks := fold mark_bit [0..<unat (freeblock s)] zeroes]\<rparr>"

lemma bitmap_block: "2 + nlog + ninodeblocks < nmeta" "2 + nlog + ninodeblocks < FSSIZE" "sb_bmapstart mk_sb = of_nat (2 + nlog + ninodeblocks)"
  by (simp_all add: nmeta_def nbitmap_def mk_sb_def const_defs)

lemma bitmap_start: "unat (sb_bmapstart mk_sb) = 2 + nlog + ninodeblocks"
  by (simp only: bitmap_block(3) unat_blockno [OF bitmap_block(2)])

lemma length_marks: "length (fold mark_bit xs d) = length d"
  by (induction xs arbitrary: d) (simp_all add: mark_bit_def)

lemma finish_eq:
  assumes I: "disk_image s D F" and n: "1 < unat (freeinode s)"
  shows "wp (bnd (rinode 1) (\<lambda>din. let off = (xint (d_size din) div of_nat BSIZE + 1) * of_nat BSIZE in
      andthen (winode 1 (din\<lparr>d_size := xint off\<rparr>)) (bnd (gets freeblock) (\<lambda>b. mk_balloc (sint b)))))
    (\<lambda>_ t. t = finished s) s"
proof -
  have fb: "unat (freeblock s) \<le> FSSIZE" using imageD(7) [OF I] by simp
  then have "unat (freeblock s) < 2 ^ 31" by (simp add: FSSIZE_def)
  then have sb: "sint (freeblock s) = int (unat (freeblock s))"
    unfolding sint_uint by (subst signed_take_bit_int_eq_self) (simp_all add: uint_nat del: of_nat_unat)
  have "unat (freeblock s) < BSIZE * 8" using fb by (simp add: FSSIZE_def BSIZE_def)
  then have "int (unat (freeblock s)) < int BSIZE * 8" by linarith
  moreover have "(1 :: nat) < NINODES" by (simp add: NINODES_def)
  ultimately show ?thesis
    using rinode_run [OF imageD(1,2) [OF I], of 1] winode_run [OF imageD(1,2) [OF I], of 1] wsect_run [of "2 + nlog + ninodeblocks"] bitmap_block
      imageD(1,2) [OF I] sb
    by (simp add: wp_simps Let_def mk_balloc_def finished_def set_inode_def del: of_nat_add)
qed

lemma finished_image:
  assumes I: "disk_image s (disk_inode (img s)) F" and n: "1 < unat (freeinode s)"
  shows "disk_image (finished s) (disk_inode (img (finished s))) F"
    "j \<in> {1..<unat (freeinode s)} \<Longrightarrow> disk_inode (img (finished s)) j =
      (if j = 1 then (disk_inode (img s) 1)\<lparr>d_size := (d_size (disk_inode (img s) 1) div of_nat BSIZE + 1) * of_nat BSIZE\<rparr>
       else disk_inode (img s) j)"
proof -
  let ?bm = "2 + nlog + ninodeblocks"
  let ?di = "(disk_inode (img s) 1)\<lparr>d_size := (d_size (disk_inode (img s) 1) div of_nat BSIZE + 1) * of_nat BSIZE\<rparr>"
  let ?d = "set_inode 1 ?di (img s)" and ?B = "fold mark_bit [0..<unat (freeblock s)] zeroes"
  obtain bs ib bytes where F: "F 1 = (bs, ib, bytes)" by (cases "F 1") auto
  have "length (d_addrs ?di) = Suc NDIRECT" using holdsD(1) [OF imageD(9) [OF I _ F]] n by simp
  moreover have "\<forall>b<FSSIZE. length (img s ! b) = BSIZE" using imageD(3) [OF I] by simp
  moreover have "(1 :: nat) < NINODES" by (simp add: NINODES_def)
  ultimately have m: "length ?d = FSSIZE" "\<And>b. b < FSSIZE \<Longrightarrow> length (?d ! b) = BSIZE"
    "\<And>b. b < 2 + nlog \<or> ?bm \<le> b \<Longrightarrow> ?d ! b = img s ! b"
    "\<And>j. j < NINODES \<Longrightarrow> disk_inode ?d j = (if j = 1 then ?di else disk_inode (img s) j)"
    using set_inode_simps [of 1 "img s" ?di] imageD(2) [OF I] by blast+
  have dj: "disk_inode (?d[?bm := ?B]) j = (if j = 1 then ?di else disk_inode (img s) j)" if "j \<in> {1..<unat (freeinode s)}" for j
  proof -
    have j: "j < NINODES" using that imageD(5) [OF I] by simp
    then have "j div IPB < ninodeblocks" by (simp add: const_defs)
    then have "disk_inode (?d[?bm := ?B]) j = disk_inode ?d j" by (simp add: disk_inode_def)
    then show ?thesis using m(4) [OF j] by simp
  qed
  then show "j \<in> {1..<unat (freeinode s)} \<Longrightarrow> disk_inode (img (finished s)) j = (if j = 1 then ?di else disk_inode (img s) j)"
    by (simp add: finished_def)
  have z: "length zeroes = BSIZE" by (simp add: zeroes_def)
  have "disk_image (s\<lparr>img := ?d[?bm := ?B]\<rparr>) (disk_inode (?d[?bm := ?B])) F"
    by (rule image_cong [OF I]) (use m(1-3) dj bitmap_block z in \<open>auto simp: nth_list_update length_marks\<close>)
  then show "disk_image (finished s) (disk_inode (img (finished s))) F" by (simp add: finished_def)
qed

lemma contents_padded:
  assumes I: "disk_image t (disk_inode (img t)) F" and i: "i \<in> {1..<unat (freeinode t)}" and F: "F i = (bs, ib, bytes)"
    and n: "n = unat (d_size (disk_inode (img t) i))" "length bytes \<le> n" "n \<le> BSIZE * length bs"
  shows "contents (img t) i = bytes @ replicate (n - length bytes) 0"
proof (rule nth_equalityI)
  show "length (contents (img t) i) = length (bytes @ replicate (n - length bytes) 0)" using n by (simp add: contents_def)
  fix k assume "k < length (contents (img t) i)"
  then have k: "k < n" using n(1) by (simp add: contents_def)
  have "file_byte (img t) i k = (if k < length bytes then bytes ! k else 0)"
    using file_byte_holds [OF imageD(9) [OF I i F], of k] file_block [OF I i F] k n(3) by simp
  then show "contents (img t) i ! k = (bytes @ replicate (n - length bytes) 0) ! k" using k n by (simp add: contents_def nth_append)
qed

text \<open>What the image shows, for the contents \<open>c\<close> and inodes below \<open>n\<close>; the size of the root directory is rounded up.\<close>

definition shows_files :: "block list \<Rightarrow> (nat \<Rightarrow> u8 list) \<Rightarrow> nat \<Rightarrow> bool" where
  "shows_files d c n \<longleftrightarrow> get_superblock (d ! 1) = mk_sb \<and>
     take (length (c 1)) (contents d 1) = c 1 \<and>
     (\<not> BSIZE dvd length (c 1) \<longrightarrow> contents d 1 = c 1 @ replicate (BSIZE - length (c 1) mod BSIZE) 0) \<and>
     (\<forall>i \<in> {2..<n}. contents d i = c i) \<and>
     (\<forall>b<BPB. bit_used (d ! unat (sb_bmapstart mk_sb)) b \<longleftrightarrow> b < nmeta + used c n)"

lemma round_up:
  assumes "n \<le> MAXFILE * BSIZE"
  shows "unat ((of_nat n div of_nat BSIZE + 1) * of_nat BSIZE :: u32) = (n div BSIZE + 1) * BSIZE"
proof -
  have n: "n < 2 ^ 32" "n div BSIZE \<le> MAXFILE" using assms div_le_mono [OF assms, of BSIZE] by (simp_all add: const_defs MAXFILE_def)
  have "(of_nat n div of_nat BSIZE :: u32) = of_nat (n div BSIZE)" using n(1) by (simp add: word_arith_nat_div unat_of_nat_small BSIZE_def)
  then have "((of_nat n div of_nat BSIZE + 1) * of_nat BSIZE :: u32) = of_nat ((n div BSIZE + 1) * BSIZE)" by (simp add: algebra_simps)
  also have "unat \<dots> = (n div BSIZE + 1) * BSIZE"
  proof (rule unat_of_nat_small)
    have "(n div BSIZE + 1) * BSIZE \<le> (MAXFILE + 1) * BSIZE" using n(2) by (intro mult_le_mono1) simp
    then show "(n div BSIZE + 1) * BSIZE < 2 ^ LENGTH(32)" by (simp add: const_defs MAXFILE_def)
  qed
  finally show ?thesis .
qed

lemma finished_shows:
  assumes f: "files s c" and n: "1 < unat (freeinode s)"
  shows "shows_files (img (finished s)) c (unat (freeinode s))"
proof -
  obtain F where C: "consistent s F" and c: "\<forall>i \<in> {1..<unat (freeinode s)}. snd (snd (F i)) = c i"
    and u: "unat (freeblock s) = nmeta + used c (unat (freeinode s))" using f by (auto simp: files_def)
  note I = consistentD(1) [OF C]
  note J = finished_image(1) [OF I n] and dj = finished_image(2) [OF I n]
  have fi: "freeinode (finished s) = freeinode s" by (simp add: finished_def)
  have B: "img (finished s) ! (2 + nlog + ninodeblocks) = fold mark_bit [0..<unat (freeblock s)] zeroes"
    using imageD(2) [OF I] bitmap_block by (simp add: finished_def set_inode_def)
  have "unat (freeblock s) \<le> BPB" using imageD(7) [OF I] by (simp add: const_defs)
  then have bits: "\<forall>b<BPB. bit_used (img (finished s) ! unat (sb_bmapstart mk_sb)) b \<longleftrightarrow> b < nmeta + used c (unat (freeinode s))"
    unfolding bitmap_start B using bitmap_marks [of "unat (freeblock s)"] zeroes_unused u by auto
  have other: "contents (img (finished s)) i = c i" if i: "i \<in> {2..<unat (freeinode s)}" for i
  proof -
    have i': "i \<in> {1..<unat (freeinode s)}" using i by simp
    obtain bs ib where F: "F i = (bs, ib, c i)" using bspec [OF c i'] by (cases "F i") auto
    note z = consistentD(2) [OF C i' F]
    have "length (c i) < 2 ^ 32" using z by (simp add: const_defs MAXFILE_def)
    then have "unat (d_size (disk_inode (img (finished s)) i)) = length (c i)" using z dj [OF i'] i by (simp add: unat_of_nat_small)
    then show ?thesis using contents_padded [OF J _ F, of "length (c i)"] i' fi holdsD(2) [OF imageD(9) [OF I i' F]] by simp
  qed
  have r: "1 \<in> {1..<unat (freeinode s)}" using n by simp
  obtain bs ib where F: "F 1 = (bs, ib, c 1)" using bspec [OF c r] by (cases "F 1") auto
  note z = consistentD(2) [OF C r F]
  have d1: "unat (d_size (disk_inode (img (finished s)) 1)) = (length (c 1) div BSIZE + 1) * BSIZE"
    using dj [OF r] z round_up by simp
  have le: "length (c 1) \<le> (length (c 1) div BSIZE + 1) * BSIZE"
    using div_mult_mod_eq [of "length (c 1)" BSIZE] mod_less_divisor [of BSIZE "length (c 1)"] by (simp add: const_defs)
  have pre: "take (length (c 1)) (contents (img (finished s)) 1) = c 1"
    using contents_prefix [OF J _ F] r fi d1 le by simp
  have "contents (img (finished s)) 1 = c 1 @ replicate (BSIZE - length (c 1) mod BSIZE) 0" if nd: "\<not> BSIZE dvd length (c 1)"
  proof -
    have "length bs = length (c 1) div BSIZE + 1" using z nd nblk_old by (simp add: dvd_eq_mod_eq_0)
    then have "contents (img (finished s)) 1 = c 1 @ replicate ((length (c 1) div BSIZE + 1) * BSIZE - length (c 1)) 0"
      using contents_padded [OF J _ F d1 [symmetric] le] r fi by simp
    moreover have "(length (c 1) div BSIZE + 1) * BSIZE - length (c 1) = BSIZE - length (c 1) mod BSIZE"
      using div_mult_mod_eq [of "length (c 1)" BSIZE] by (simp only: add_mult_distrib mult_1)
    ultimately show ?thesis by simp
  qed
  moreover have "get_superblock (img (finished s) ! 1) = mk_sb" using image_sb [OF J] sb_block_superblock by simp
  ultimately show ?thesis using pre other bits by (simp add: shows_files_def)
qed

text \<open>The part of \<^verbatim>\<open>main\<close> after the inode of the root directory is allocated.\<close>

definition fill :: "u32 \<Rightarrow> mkfile list \<Rightarrow> (mkfs, unit) prog" where
  "fill rootino fs =
     andthen (iappend rootino (dirent rootino [46]))
     (andthen (iappend rootino (dirent rootino [46, 46]))
     (andthen (for_each fs (add_file rootino))
     (bnd (rinode rootino) (\<lambda>din. let off = (xint (d_size din) div of_nat BSIZE + 1) * of_nat BSIZE in
      andthen (winode rootino (din\<lparr>d_size := xint off\<rparr>)) (bnd (gets freeblock) (\<lambda>b. mk_balloc (sint b)))))))"

lemma mkfs_main_fill: "mkfs_main fs =
     andthen (modify (\<lambda>s. s\<lparr>img := [], msb := mk_sb, freeblock := of_nat nmeta, freeinode := 1\<rparr>))
     (andthen (for_each [0..<FSSIZE] (\<lambda>i. wsect (of_nat i) zeroes))
     (andthen (wsect 1 sb_block)
     (bnd (mk_ialloc T_DIR) (\<lambda>rootino. andthen (guard (rootino = ROOTINO) (Panic ''assert'')) (fill rootino fs)))))"
  by (simp add: mkfs_main_def fill_def)

lemma fill_run:
  assumes "list_all good_file fs" and "2 + length fs \<le> NINODES" and fit: "fits (disk_contents fs) (2 + length fs)"
    and f: "files s ((\<lambda>_. [])(1 := []))" and n: "unat (freeinode s) = 2"
  shows "wp (fill 1 fs) (\<lambda>_ t. shows_files (img t) (disk_contents fs) (2 + length fs)) s"
proof -
  let ?dot = "dirent 1 [46]" and ?ddot = "dirent 1 [46, 46]"
  let ?c0 = "(\<lambda>_. [])(1 := []) :: nat \<Rightarrow> u8 list" and ?c1 = "(\<lambda>_. [])(1 := ?dot)" and ?c2 = "(\<lambda>_. [])(1 := ?dot @ ?ddot)"
  have fit1: "fits ?c1 2" and fit2: "fits ?c2 2" by (rule fits_mono [OF fit]; auto simp: disk_contents_def)+
  have "wp (iappend 1 ?dot) (\<lambda>_ t. files t ?c1 \<and> freeinode t = freeinode s) s"
    using files_append [OF f, of 1 ?dot] n fit1 by simp
  then show ?thesis
    unfolding fill_def wp_andthen
  proof (rule wp_mono, clarify)
    fix t :: mkfs assume t: "files t ?c1" "freeinode t = freeinode s"
    have "wp (iappend 1 ?ddot) (\<lambda>_ u. files u ?c2 \<and> freeinode u = freeinode t) t"
      using files_append [OF t(1), of 1 ?ddot] n t(2) fit2 by simp
    then show "wp (iappend 1 ?ddot) (\<lambda>_. wp (for_each fs (add_file 1)) (\<lambda>_. wp (bnd (rinode 1)
      (\<lambda>din. let off = (xint (d_size din) div of_nat BSIZE + 1) * of_nat BSIZE in
        andthen (winode 1 (din\<lparr>d_size := xint off\<rparr>)) (bnd (gets freeblock) (\<lambda>b. mk_balloc (sint b)))))
      (\<lambda>_ t. shows_files (img t) (disk_contents fs) (2 + length fs)))) t"
    proof (rule wp_mono, clarify)
      fix u :: mkfs assume u: "files u ?c2" "freeinode u = freeinode t"
      have "wp (for_each fs (add_file 1)) (\<lambda>_ t. files t (disk_contents fs) \<and> unat (freeinode t) = 2 + length fs) u"
        using files_build [OF u(1), of 2 fs] assms(1,2) fit n t(2) u(2) by (simp only: build_disk)
      then show "wp (for_each fs (add_file 1)) (\<lambda>_. wp (bnd (rinode 1)
        (\<lambda>din. let off = (xint (d_size din) div of_nat BSIZE + 1) * of_nat BSIZE in
          andthen (winode 1 (din\<lparr>d_size := xint off\<rparr>)) (bnd (gets freeblock) (\<lambda>b. mk_balloc (sint b)))))
        (\<lambda>_ t. shows_files (img t) (disk_contents fs) (2 + length fs))) u"
      proof (rule wp_mono, clarify)
        fix v :: mkfs assume v: "files v (disk_contents fs)" "unat (freeinode v) = 2 + length fs"
        obtain F where I: "disk_image v (disk_inode (img v)) F" using v(1) consistentD(1) by (auto simp: files_def)
        show "wp (bnd (rinode 1) (\<lambda>din. let off = (xint (d_size din) div of_nat BSIZE + 1) * of_nat BSIZE in
          andthen (winode 1 (din\<lparr>d_size := xint off\<rparr>)) (bnd (gets freeblock) (\<lambda>b. mk_balloc (sint b)))))
          (\<lambda>_ t. shows_files (img t) (disk_contents fs) (2 + length fs)) v"
          by (rule wp_mono [OF finish_eq [OF I]]) (use finished_shows [OF v(1)] v(2) in simp_all)
      qed
    qed
  qed
qed

text \<open>
  C33: \<^verbatim>\<open>mkfs\<close>, for files whose contents fit on the disk, builds an image on which the superblock describes the layout, the root
  directory begins with the entries of itself and of all files, every file has the contents it was read with, and the bitmap
  marks exactly the blocks below the first free one.
\<close>

theorem mkfs_image:
  assumes "list_all good_file fs" and "2 + length fs \<le> NINODES" and "fits (disk_contents fs) (2 + length fs)"
  shows "wp (mkfs_main fs) (\<lambda>_ t. shows_files (img t) (disk_contents fs) (2 + length fs)) s"
proof -
  let ?s0 = "s\<lparr>img := [], msb := mk_sb, freeblock := of_nat nmeta, freeinode := 1\<rparr>"
  let ?s1 = "?s0\<lparr>img := replicate FSSIZE zeroes\<rparr>" and ?s2 = "?s0\<lparr>img := (replicate FSSIZE zeroes)[1 := sb_block]\<rparr>"
  let ?Q = "\<lambda>_ t. shows_files (img t) (disk_contents fs) (2 + length fs)"
  have "wp (mk_ialloc T_DIR) (\<lambda>rootino. wp (andthen (guard (rootino = ROOTINO) (Panic ''assert'')) (fill rootino fs)) ?Q) ?s2"
  proof (rule wp_mono [OF files_ialloc [of ?s2 "\<lambda>_. []" 1]])
    show "files ?s2 (\<lambda>_. [])" by (rule no_files) simp_all
  qed (use fill_run [OF assms] in \<open>auto simp: NINODES_def ROOTINO_def wp_simps\<close>)
  then have "wp (wsect 1 sb_block) (\<lambda>_. wp (bnd (mk_ialloc T_DIR) (\<lambda>rootino. andthen (guard (rootino = ROOTINO) (Panic ''assert'')) (fill rootino fs))) ?Q) ?s1"
    using wsect_run [of 1 ?s1] by (simp add: FSSIZE_def wp_bnd)
  then show ?thesis
    using zero_fill [of ?s0 FSSIZE] by (auto simp: mkfs_main_fill wp_andthen wp_modify elim!: wp_mono)
qed

definition one_file :: mkfile where
  "one_file = ([117, 115, 101, 114, 47, 95, 97], Some [[1, 2], [3]])"

theorem mkfs_image_witness:
  "wp (mkfs_main [one_file]) (\<lambda>_ t. shows_files (img t) (disk_contents [one_file]) 3)
     \<lparr>img = [], msb = mk_sb, freeinode = 0, freeblock = 0\<rparr> \<and>
   disk_contents [one_file] 2 = [1, 2, 3] \<and> drop 34 (disk_contents [one_file] 1) = 97 # replicate 13 0"
proof -
  have "good_file one_file" by (simp add: good_file_def one_file_def short_name_def)
  moreover have "length (disk_contents [one_file] 1) = 48"
    by (simp add: disk_contents_def entries_def dirent_def DIRSIZ_def entry_name_def one_file_def short_name_def skip_underscore_def Let_def)
  then have "fits (disk_contents [one_file]) 3"
    by (simp add: fits_def used_def space_def nblk_def const_defs MAXFILE_def one_file_def disk_contents_def atLeastLessThan_nat_numeral)
  ultimately show ?thesis using mkfs_image [of "[one_file]"]
    by (simp add: NINODES_def disk_contents_def entries_def dirent_def DIRSIZ_def entry_name_def one_file_def short_name_def skip_underscore_def Let_def)
qed

end
