(* ===== verification/Umalloc.thy ===== *)
theory Umalloc
  imports Kalloc
begin

text \<open>
  \<^verbatim>\<open>user/umalloc.c\<close>: the allocator of user programs, a circular list of free blocks in the order of their addresses. The headers
  are kept in a store of their own, by the address of the header; an access outside of the memory of the process, which the
  hardware stops, is not represented. A loop that does not end gives \<^const>\<open>None\<close>.
\<close>

subsection \<open>Headers\<close>

record header =
  h_ptr :: u64
  h_size :: u32

text \<open>The state: the headers, the variable \<^verbatim>\<open>freep\<close>, the size of the process, and the answers of the kernel to requests for memory.\<close>

record uheap =
  hdr :: "u64 \<Rightarrow> header"
  freep :: u64
  brk :: u64
  grants :: "bool list"

definition set_ptr :: "u64 \<Rightarrow> u64 \<Rightarrow> uheap \<Rightarrow> uheap" where
  "set_ptr a x h = h\<lparr>hdr := (hdr h)(a := (hdr h a)\<lparr>h_ptr := x\<rparr>)\<rparr>"

definition set_size :: "u64 \<Rightarrow> u32 \<Rightarrow> uheap \<Rightarrow> uheap" where
  "set_size a n h = h\<lparr>hdr := (hdr h)(a := (hdr h a)\<lparr>h_size := n\<rparr>)\<rparr>"

text \<open>Pointer arithmetic on \<^verbatim>\<open>Header *\<close>: a header has 16 bytes.\<close>

definition hplus :: "u64 \<Rightarrow> u32 \<Rightarrow> u64" where
  "hplus p n = p + 16 * ucast n"

subsection \<open>The system call\<close>

text \<open>
  \<^verbatim>\<open>sbrk\<close> as \<^verbatim>\<open>sys_sbrk\<close> and \<^verbatim>\<open>growproc\<close> answer it. The kernel may run out of memory at any time, and it has no more than
  the \<^verbatim>\<open>PHYSTOP - KERNBASE\<close> bytes of physical memory to give.
\<close>

definition sbrk :: "int \<Rightarrow> uheap \<Rightarrow> u64 \<times> uheap" where
  "sbrk n h =
     (if n > 0 then
        (case grants h of
           [] \<Rightarrow> (-1, h)
         | ok # gs \<Rightarrow>
             if ok \<and> uint (brk h) + n \<le> uint (PHYSTOP - KERNBASE)
             then (brk h, h\<lparr>grants := gs, brk := brk h + of_int n\<rparr>) else (-1, h\<lparr>grants := gs\<rparr>))
      else if n < 0 then
        (brk h, h\<lparr>brk := (if brk h + of_int n \<ge> brk h then brk h else brk h + of_int n)\<rparr>)
      else (brk h, h))"

subsection \<open>free\<close>

text \<open>The loop of \<^verbatim>\<open>free\<close>, which looks for the block of the list to put the new one behind.\<close>

partial_function (option) free_place :: "(u64 \<Rightarrow> header) \<Rightarrow> u64 \<Rightarrow> u64 \<Rightarrow> u64 option" where
  "free_place H bp p =
     (if bp > p \<and> bp < h_ptr (H p) then Some p
      else if p \<ge> h_ptr (H p) \<and> (bp > p \<or> bp < h_ptr (H p)) then Some p
      else free_place H bp (h_ptr (H p)))"

definition join_next :: "u64 \<Rightarrow> u64 \<Rightarrow> uheap \<Rightarrow> uheap" where
  "join_next bp p h =
     (let n = h_ptr (hdr h p) in
      if hplus bp (h_size (hdr h bp)) = n
      then set_ptr bp (h_ptr (hdr h n)) (set_size bp (h_size (hdr h bp) + h_size (hdr h n)) h)
      else set_ptr bp n h)"

definition join_prev :: "u64 \<Rightarrow> u64 \<Rightarrow> uheap \<Rightarrow> uheap" where
  "join_prev bp p h =
     (if hplus p (h_size (hdr h p)) = bp
      then set_ptr p (h_ptr (hdr h bp)) (set_size p (h_size (hdr h p) + h_size (hdr h bp)) h)
      else set_ptr p bp h)"

definition ufree :: "u64 \<Rightarrow> uheap \<Rightarrow> uheap option" where
  "ufree ap h =
     (let bp = ap - 16 in
      Option.bind (free_place (hdr h) bp (freep h)) (\<lambda>p.
      Some ((join_prev bp p (join_next bp p h))\<lparr>freep := p\<rparr>)))"

subsection \<open>malloc\<close>

text \<open>The argument of \<^verbatim>\<open>sbrk\<close> is an \<^verbatim>\<open>int\<close>: the product is cut to 32 bits.\<close>

definition morecore :: "u32 \<Rightarrow> uheap \<Rightarrow> (u64 \<times> uheap) option" where
  "morecore nu h =
     (let nu = (if nu < 4096 then 4096 else nu);
          (p, h) = sbrk (sint (ucast (ucast nu * 16 :: u64) :: u32)) h in
      if p = -1 then Some (0, h)
      else Option.bind (ufree (p + 16) (set_size p nu h)) (\<lambda>h. Some (freep h, h)))"

text \<open>A block that is large enough is taken, or its tail is.\<close>

definition take_block :: "u32 \<Rightarrow> u64 \<Rightarrow> u64 \<Rightarrow> uheap \<Rightarrow> u64 \<times> uheap" where
  "take_block nunits prevp p h =
     (if h_size (hdr h p) = nunits
      then (p + 16, (set_ptr prevp (h_ptr (hdr h p)) h)\<lparr>freep := prevp\<rparr>)
      else
        let h = set_size p (h_size (hdr h p) - nunits) h;
            p = hplus p (h_size (hdr h p));
            h = set_size p nunits h in
        (p + 16, h\<lparr>freep := prevp\<rparr>))"

partial_function (option) malloc_loop :: "u32 \<Rightarrow> u64 \<Rightarrow> u64 \<Rightarrow> uheap \<Rightarrow> (u64 \<times> uheap) option" where
  "malloc_loop nunits prevp p h =
     (if h_size (hdr h p) \<ge> nunits then Some (take_block nunits prevp p h)
      else if p = freep h then
        Option.bind (morecore nunits h) (\<lambda>r.
          if fst r = 0 then Some (0, snd r)
          else malloc_loop nunits (fst r) (h_ptr (hdr (snd r) (fst r))) (snd r))
      else malloc_loop nunits p (h_ptr (hdr h p)) h)"

definition units :: "u32 \<Rightarrow> u32" where
  "units nbytes = ucast ((ucast nbytes + 16 - 1) div 16 + 1 :: u64)"

text \<open>\<open>base\<close> is the address of the variable of that name.\<close>

definition malloc :: "u64 \<Rightarrow> u32 \<Rightarrow> uheap \<Rightarrow> (u64 \<times> uheap) option" where
  "malloc base nbytes h =
     (let nunits = units nbytes;
          h = (if freep h = 0 then set_size base 0 ((set_ptr base base h)\<lparr>freep := base\<rparr>) else h);
          prevp = freep h in
      malloc_loop nunits prevp (h_ptr (hdr h prevp)) h)"

end
