(* ===== verification/Heaplist.thy ===== *)
theory Heaplist
  imports Umalloc
begin

text \<open>
  The free list of \<^verbatim>\<open>umalloc.c\<close>: a circle of blocks in the order of their addresses, with a gap between any two of them,
  because \<^verbatim>\<open>free\<close> joins neighbours.
\<close>

subsection \<open>Linked blocks\<close>

primrec linked :: "(u64 \<Rightarrow> header) \<Rightarrow> u64 \<Rightarrow> u64 list \<Rightarrow> u64 \<Rightarrow> bool" where
  "linked H a [] z \<longleftrightarrow> h_ptr (H a) = z"
| "linked H a (b # bs) z \<longleftrightarrow> h_ptr (H a) = b \<and> linked H b bs z"

lemma linked_append: "linked H a (xs @ b # ys) z \<longleftrightarrow> linked H a xs b \<and> linked H b ys z"
  by (induction xs arbitrary: a) auto

lemma linked_last: "linked H a xs z \<Longrightarrow> h_ptr (H (last (a # xs))) = z"
  by (induction xs arbitrary: a) auto

lemma linked_upd_last:
  assumes "linked H a xs z" and "distinct (a # xs)" and "\<And>x. x \<in> set (a # xs) \<Longrightarrow> x \<noteq> last (a # xs) \<Longrightarrow> h_ptr (H' x) = h_ptr (H x)"
    and "h_ptr (H' (last (a # xs))) = z'"
  shows "linked H' a xs z'"
  using assms
proof (induction xs arbitrary: a)
  case (Cons x xs)
  have "a \<noteq> last (x # xs)" using Cons.prems(2) by (metis distinct.simps(2) last_in_set list.distinct(1))
  then have "h_ptr (H' a) = x" using Cons.prems(1,3) by simp
  moreover have "linked H' x xs z'" using Cons.prems by (intro Cons.IH) auto
  ultimately show ?case by simp
qed simp

lemma linked_from:
  "linked H a xs z \<Longrightarrow> h_ptr (H' b) = h_ptr (H a) \<Longrightarrow> (\<And>x. x \<in> set xs \<Longrightarrow> h_ptr (H' x) = h_ptr (H x)) \<Longrightarrow> linked H' b xs z"
  by (induction xs arbitrary: a b) auto

text \<open>The circle can be read from any of its blocks, and every block has one predecessor.\<close>

lemma linked_rotate:
  assumes "linked H b fs b" and "f \<in> set (b # fs)" and "distinct (b # fs)"
  shows "\<exists>zs. linked H f zs f \<and> set (f # zs) = set (b # fs) \<and> f \<notin> set zs"
proof (cases "f = b")
  case False
  then obtain xs ys where fs: "fs = xs @ f # ys" using assms(2) by (auto simp: in_set_conv_decomp)
  then have "linked H f (ys @ b # xs) f" using assms(1) by (simp add: linked_append)
  then show ?thesis using fs assms(3) False by (intro exI [of _ "ys @ b # xs"]) auto
qed (use assms in auto)

lemma linked_pred:
  assumes "linked H b (xs @ z # ys) b" and "distinct (b # xs @ z # ys)" and "p \<in> set (b # xs @ z # ys)" and "h_ptr (H p) = z"
  shows "p = last (b # xs)"
proof -
  have L: "linked H b xs z" "linked H z ys b" using assms(1) by (auto simp: linked_append)
  have succ: "h_ptr (H q) \<in> set ws \<union> {e} \<and> (h_ptr (H q) = e \<longrightarrow> q = last (a # ws))"
    if "linked H a ws e" "q \<in> set (a # ws)" "distinct (a # ws)" "e \<notin> set ws" for q a ws e
    using that by (induction ws arbitrary: a) (auto split: if_splits)
  show ?thesis
  proof (cases "p \<in> set (b # xs)")
    case True
    then show ?thesis using succ [OF L(1) True] assms(2,4) by auto
  next
    case False
    then have "p \<in> set (z # ys)" using assms(3) by auto
    then have "h_ptr (H p) \<in> set ys \<union> {b}" using succ [OF L(2)] assms(2) by auto
    then show ?thesis using assms(2,4) by auto
  qed
qed

subsection \<open>Blocks in order\<close>

definition endp :: "(u64 \<Rightarrow> header) \<Rightarrow> u64 \<Rightarrow> nat" where
  "endp H a = unat a + 16 * unat (h_size (H a))"

primrec gaps :: "(u64 \<Rightarrow> header) \<Rightarrow> nat \<Rightarrow> u64 list \<Rightarrow> bool" where
  "gaps H e [] \<longleftrightarrow> True"
| "gaps H e (a # as) \<longleftrightarrow> e < unat a \<and> h_size (H a) \<noteq> 0 \<and> gaps H (endp H a) as"

primrec ends :: "(u64 \<Rightarrow> header) \<Rightarrow> nat \<Rightarrow> u64 list \<Rightarrow> nat" where
  "ends H e [] = e"
| "ends H e (a # as) = ends H (endp H a) as"

lemma gaps_append: "gaps H e (xs @ ys) \<longleftrightarrow> gaps H e xs \<and> gaps H (ends H e xs) ys"
  by (induction xs arbitrary: e) auto

lemma ends_append: "ends H e (xs @ ys) = ends H (ends H e xs) ys"
  by (induction xs arbitrary: e) auto

lemma ends_last: "ends H (endp H b) xs = endp H (last (b # xs))"
  by (induction xs arbitrary: b) auto

lemma endp_above: "unat a \<le> endp H a" "h_size (H a) \<noteq> 0 \<Longrightarrow> unat a + 16 \<le> endp H a"
  by (auto simp: endp_def unat_eq_0 [symmetric] simp del: unat_eq_0)

lemma gaps_above: "gaps H e xs \<Longrightarrow> a \<in> set xs \<Longrightarrow> e < unat a"
proof (induction xs arbitrary: e)
  case (Cons x xs)
  then show ?case using endp_above(1) [of x H] by fastforce
qed simp

lemma gaps_distinct: "gaps H e xs \<Longrightarrow> distinct xs"
proof (induction xs arbitrary: e)
  case (Cons x xs)
  then have "x \<notin> set xs" using gaps_above [of H "endp H x" xs x] endp_above(1) [of x H] by fastforce
  then show ?case using Cons by auto
qed simp

lemma gaps_mono: "gaps H e xs \<Longrightarrow> e' \<le> e \<Longrightarrow> gaps H e' xs"
  by (cases xs) auto

lemma gaps_cong: "gaps H e xs \<Longrightarrow> (\<And>x. x \<in> set xs \<Longrightarrow> h_size (H' x) = h_size (H x)) \<Longrightarrow> gaps H' e xs"
  by (induction xs arbitrary: e) (auto simp: endp_def)

lemma ends_cong: "(\<And>x. x \<in> set xs \<Longrightarrow> h_size (H' x) = h_size (H x)) \<Longrightarrow> ends H' e xs = ends H e xs"
  by (induction xs arbitrary: e) (auto simp: endp_def)

lemma gaps_upd_last:
  assumes "gaps H e (xs @ [a])" and "h_size (H' a) \<noteq> 0" and "\<And>x. x \<in> set xs \<Longrightarrow> h_size (H' x) = h_size (H x)"
  shows "gaps H' e (xs @ [a])"
  using assms ends_cong [of xs H' H e] by (auto simp: gaps_append intro: gaps_cong)

text \<open>The bytes of blocks.\<close>

definition extent :: "u64 \<Rightarrow> u32 \<Rightarrow> nat set" where
  "extent a n = {unat a..<unat a + 16 * unat n}"

definition avail :: "(u64 \<Rightarrow> header) \<Rightarrow> u64 list \<Rightarrow> nat set" where
  "avail H fs = (\<Union>a \<in> set fs. extent a (h_size (H a)))"

lemma extent_endp: "extent a (h_size (H a)) = {unat a..<endp H a}"
  by (simp add: extent_def endp_def)

lemma avail_simps: "avail H [] = {}" "avail H (a # as) = extent a (h_size (H a)) \<union> avail H as"
  "avail H (xs @ ys) = avail H xs \<union> avail H ys"
  by (auto simp: avail_def)

lemma avail_cong: "(\<And>x. x \<in> set xs \<Longrightarrow> h_size (H' x) = h_size (H x)) \<Longrightarrow> avail H' xs = avail H xs"
  by (auto simp: avail_def)

text \<open>A block outside of the free ones lies between two of them.\<close>

lemma gap_split:
  assumes "gaps H e fs" and "e \<le> unat a" and "n \<noteq> 0" and "extent a n \<inter> avail H fs = {}"
  shows "\<exists>ls rs. fs = ls @ rs \<and> ends H e ls \<le> unat a \<and> (\<forall>r \<in> set rs. unat a + 16 * unat n \<le> unat r)"
  using assms
proof (induction fs arbitrary: e)
  case (Cons x fs)
  have n: "0 < unat n" using Cons.prems(3) by (simp add: unat_gt_0)
  have z: "unat x < endp H x" using endp_above(2) [of H x] Cons.prems(1) by simp
  have "extent a n \<inter> extent x (h_size (H x)) = {}" using Cons.prems(4) by (auto simp: avail_simps)
  then have d: "{unat a..<unat a + 16 * unat n} \<inter> {unat x..<endp H x} = {}" unfolding extent_endp by (simp add: extent_def)
  show ?case
  proof (cases "endp H x \<le> unat a")
    case True
    then obtain ls rs where "fs = ls @ rs" "ends H (endp H x) ls \<le> unat a" "\<forall>r \<in> set rs. unat a + 16 * unat n \<le> unat r"
      using Cons.IH [of "endp H x"] Cons.prems by (auto simp: avail_simps)
    then show ?thesis by (intro exI [of _ "x # ls"] exI [of _ rs]) auto
  next
    case False
    have le: "unat a + 16 * unat n \<le> unat x"
    proof (rule ccontr)
      assume "\<not> ?thesis"
      then have "max (unat a) (unat x) \<in> {unat a..<unat a + 16 * unat n} \<inter> {unat x..<endp H x}" using False z n by auto
      then show False using d by blast
    qed
    have "\<forall>r \<in> set (x # fs). unat a + 16 * unat n \<le> unat r"
      using le z gaps_above [of H "endp H x" fs] Cons.prems(1) by fastforce
    then show ?thesis using Cons.prems(2) by (intro exI [of _ "[]"] exI [of _ "x # fs"]) simp
  qed
qed auto

subsection \<open>The loop of free\<close>

definition stops :: "(u64 \<Rightarrow> header) \<Rightarrow> u64 \<Rightarrow> u64 \<Rightarrow> bool" where
  "stops H bp p \<longleftrightarrow> bp > p \<and> bp < h_ptr (H p) \<or> p \<ge> h_ptr (H p) \<and> (bp > p \<or> bp < h_ptr (H p))"

lemma free_place_stops: "stops H bp p \<Longrightarrow> free_place H bp p = Some p"
  by (subst free_place.simps) (auto simp: stops_def)

lemma free_place_skip:
  "linked H q ys z \<Longrightarrow> (\<And>x. x \<in> set (q # ys) \<Longrightarrow> \<not> stops H bp x) \<Longrightarrow> free_place H bp q = free_place H bp z"
proof (induction ys arbitrary: q)
  case Nil
  then show ?case by (subst free_place.simps) (auto simp: stops_def)
next
  case (Cons y ys)
  have "free_place H bp q = free_place H bp y" using Cons.prems by (subst free_place.simps) (auto simp: stops_def)
  also have "\<dots> = free_place H bp z" using Cons by auto
  finally show ?case .
qed

lemma linked_up:
  "linked H a xs z \<Longrightarrow> gaps H (unat a) xs \<Longrightarrow> x \<in> set (a # xs) \<Longrightarrow> x \<noteq> last (a # xs) \<Longrightarrow> x < h_ptr (H x) \<and> h_ptr (H x) \<in> set xs"
proof (induction xs arbitrary: a)
  case (Cons y ys)
  have "gaps H (unat y) ys" using Cons.prems(2) endp_above(1) [of y H] by (auto intro: gaps_mono)
  then show ?case using Cons by (auto simp: word_less_nat_alt split: if_splits)
qed simp

lemma linked_path:
  "linked H a xs z \<Longrightarrow> distinct (a # xs) \<Longrightarrow> q \<in> set (a # xs) \<Longrightarrow> q \<noteq> last (a # xs) \<Longrightarrow>
    \<exists>ws. linked H q ws (last (a # xs)) \<and> set (q # ws) \<subseteq> set (a # xs) - {last (a # xs)}"
proof (induction xs arbitrary: a q)
  case (Cons y ys)
  show ?case
  proof (cases "q = a")
    case False
    then obtain ws where "linked H q ws (last (y # ys))" "set (q # ws) \<subseteq> set (y # ys) - {last (y # ys)}"
      using Cons.IH [of y] Cons.prems by auto
    then show ?thesis by (intro exI [of _ ws]) auto
  next
    case True
    show ?thesis
    proof (cases "y = last (y # ys)")
      case True
      then show ?thesis using Cons.prems \<open>q = a\<close> by (intro exI [of _ "[]"]) auto
    next
      case False
      then obtain ws where "linked H y ws (last (y # ys))" "set (y # ws) \<subseteq> set (y # ys) - {last (y # ys)}"
        using Cons.IH [of y] Cons.prems by auto
      moreover have "a \<noteq> last (y # ys)" using Cons.prems(2) last_in_set [of "y # ys"] by auto
      ultimately show ?thesis using Cons.prems(1) \<open>q = a\<close> by (intro exI [of _ "y # ws"]) auto
    qed
  qed
qed simp

text \<open>From wherever in the circle it starts, the loop finds the block in front of the new one.\<close>

lemma free_place_found:
  assumes L: "linked H b (ls @ rs) b" and g: "gaps H (unat b) (ls @ rs)" and bp: "b < bp"
    and ls: "\<And>l. l \<in> set ls \<Longrightarrow> l < bp" and rs: "\<And>r. r \<in> set rs \<Longrightarrow> bp < r" and q: "q \<in> set (b # ls @ rs)"
  shows "free_place H bp q = Some (last (b # ls))"
proof -
  let ?p = "last (b # ls)" and ?z = "hd (rs @ [b])"
  have above: "b < x" if "x \<in> set (ls @ rs)" for x using gaps_above [OF g that] by (simp add: word_less_nat_alt)
  have L': "linked H b ls ?z" using L by (cases rs) (auto simp: linked_append)
  have g': "gaps H (unat b) ls" using g by (simp add: gaps_append)
  have p: "?p < bp" "b \<le> ?p" using ls bp above by (auto simp: less_imp_le)
  have "stops H bp ?p" using linked_last [OF L'] p rs by (cases rs) (auto simp: stops_def)
  then have here: "free_place H bp ?p = Some ?p" by (rule free_place_stops)
  have low: "\<not> stops H bp x" if "x \<in> set (b # ls)" "x \<noteq> ?p" for x
    using linked_up [OF L' g' that] ls [of "h_ptr (H x)"] by (auto simp: stops_def)
  have d: "distinct (b # ls)" using gaps_distinct [OF g] above by auto
  have from_low: "free_place H bp x = Some ?p" if x: "x \<in> set (b # ls)" for x
  proof (cases "x = ?p")
    case False
    then obtain ws where w: "linked H x ws ?p" "set (x # ws) \<subseteq> set (b # ls) - {?p}" using linked_path [OF L' d x] by blast
    then have "free_place H bp x = free_place H bp ?p" by (intro free_place_skip [OF w(1)] low) blast+
    then show ?thesis using here by simp
  qed (use here in simp)
  have high: "\<not> stops H bp x" if x: "x \<in> set rs" for x
  proof (cases "x = last (b # ls @ rs)")
    case True
    then have "h_ptr (H x) = b" using linked_last [OF L] by simp
    then show ?thesis using rs [OF x] bp by (auto simp: stops_def)
  next
    case False
    then have "x < h_ptr (H x)" using linked_up [OF L g, of x] x by simp
    then show ?thesis using rs [OF x] by (auto simp: stops_def)
  qed
  show ?thesis
  proof (cases "q \<in> set rs")
    case True
    then obtain us vs where r: "rs = us @ q # vs" by (auto simp: in_set_conv_decomp)
    then have "linked H q vs b" using L linked_append [of H b "ls @ us" q vs b] by simp
    then have "free_place H bp q = free_place H bp b" by (rule free_place_skip) (use r high in auto)
    then show ?thesis using from_low by simp
  qed (use q from_low in auto)
qed

end
