(* ===== verification/Umfree.thy ===== *)
theory Umfree
  imports Heaplist
begin

text \<open>The invariant of the heap of \<^verbatim>\<open>umalloc.c\<close>, and \<^verbatim>\<open>free\<close>.\<close>

subsection \<open>The invariant\<close>

text \<open>
  \<open>fs\<close> are the free blocks in the order of their addresses, and \<open>A\<close> maps the addresses of the allocated blocks to their sizes; all
  of them lie between \<open>lo\<close> and the end of the memory of the process.
\<close>

text \<open>
  A bound on the addresses: above all memory the kernel can give out, and low enough that the sizes of joined blocks fit in 32 bits.
\<close>

definition limit :: nat where
  "limit = 2 ^ 35"

definition apart :: "(u64 \<Rightarrow> header) \<Rightarrow> nat \<Rightarrow> nat \<Rightarrow> u64 list \<Rightarrow> (u64 \<rightharpoonup> u32) \<Rightarrow> bool" where
  "apart H lo hi fs A \<longleftrightarrow>
     avail H fs \<subseteq> {lo..<hi} \<and>
     (\<forall>a n. A a = Some n \<longrightarrow> h_size (H a) = n \<and> n \<noteq> 0 \<and> extent a n \<subseteq> {lo..<hi} \<and> extent a n \<inter> avail H fs = {}) \<and>
     (\<forall>a b m n. A a = Some m \<longrightarrow> A b = Some n \<longrightarrow> a \<noteq> b \<longrightarrow> extent a m \<inter> extent b n = {})"

definition circle :: "u64 \<Rightarrow> (u64 \<Rightarrow> header) \<Rightarrow> u64 list \<Rightarrow> bool" where
  "circle b H fs \<longleftrightarrow> linked H b fs b \<and> gaps H (unat b) fs \<and> h_size (H b) = 0"

definition heap_ok :: "u64 \<Rightarrow> nat \<Rightarrow> uheap \<Rightarrow> u64 list \<Rightarrow> (u64 \<rightharpoonup> u32) \<Rightarrow> bool" where
  "heap_ok b lo h fs A \<longleftrightarrow>
     circle b (hdr h) fs \<and> freep h \<in> set (b # fs) \<and> apart (hdr h) lo (unat (brk h)) fs A \<and>
     0 < unat b \<and> unat b + 16 \<le> lo \<and> lo \<le> unat (brk h) \<and> unat (brk h) \<le> limit"

subsection \<open>Joining blocks\<close>

lemma unat_hplus: "endp H p \<le> limit \<Longrightarrow> unat (hplus p (h_size (H p))) = endp H p"
proof -
  assume e: "endp H p \<le> limit"
  then have "unat p + 16 * unat (h_size (H p)) < 2 ^ 64" by (simp add: endp_def limit_def)
  then show ?thesis by (simp add: hplus_def endp_def unat_word_ariths unat_ucast_up)
qed

lemma hplus_eq_iff: "endp H p \<le> limit \<Longrightarrow> hplus p (h_size (H p)) = q \<longleftrightarrow> endp H p = unat q"
  using unat_hplus [of H p] by (simp add: word_unat_eq_iff)

lemma unat_sum: "unat (m :: u32) + unat n < 2 ^ 32 \<Longrightarrow> unat (m + n) = unat m + unat n"
  by (simp add: unat_word_ariths)

lemma set_simps [simp]:
  "hdr (set_ptr a x h) = (hdr h)(a := (hdr h a)\<lparr>h_ptr := x\<rparr>)" "hdr (set_size a n h) = (hdr h)(a := (hdr h a)\<lparr>h_size := n\<rparr>)"
  "brk (set_ptr a x h) = brk h" "brk (set_size a n h) = brk h" "freep (set_ptr a x h) = freep h" "freep (set_size a n h) = freep h"
  "grants (set_ptr a x h) = grants h" "grants (set_size a n h) = grants h"
  by (simp_all add: set_ptr_def set_size_def)

text \<open>The new block takes in the one behind it if they touch.\<close>

lemma join_next_ok:
  assumes L: "linked (hdr h) p rs b" and g: "gaps (hdr h) e rs" and bp: "bp \<noteq> p" "b < bp" "h_size (hdr h bp) \<noteq> 0"
    and rs: "\<And>r. r \<in> set rs \<Longrightarrow> endp (hdr h) bp \<le> unat r" and l: "endp (hdr h) bp \<le> limit" "\<And>r. r \<in> set rs \<Longrightarrow> endp (hdr h) r \<le> limit"
  shows "\<exists>rs' H'. hdr (join_next bp p h) = H' \<and> (\<forall>x. x \<noteq> bp \<longrightarrow> H' x = hdr h x) \<and> brk (join_next bp p h) = brk h \<and> grants (join_next bp p h) = grants h \<and>
    linked H' bp rs' b \<and> gaps H' (endp H' bp) rs' \<and> set rs' \<subseteq> set rs \<and> unat (h_size (hdr h bp)) \<le> unat (h_size (H' bp)) \<and>
    extent bp (h_size (H' bp)) \<union> avail H' rs' = extent bp (h_size (hdr h bp)) \<union> avail (hdr h) rs"
proof -
  let ?H = "hdr h" and ?h = "join_next bp p h"
  have nz: "unat bp < endp ?H bp" using endp_above(2) [of ?H bp] bp(3) by simp
  have notin: "bp \<notin> set rs" using rs nz by force
  show ?thesis
  proof (cases "\<exists>r rs'. rs = r # rs' \<and> endp ?H bp = unat r")
    case True
    then obtain r rs' where r: "rs = r # rs'" "endp ?H bp = unat r" by blast
    have pr: "h_ptr (?H p) = r" using L r by simp
    have "hplus bp (h_size (?H bp)) = r" using hplus_eq_iff [OF l(1)] r by simp
    then have h: "?h = set_ptr bp (h_ptr (?H r)) (set_size bp (h_size (?H bp) + h_size (?H r)) h)" by (simp add: join_next_def pr Let_def)
    have "unat bp + 16 * unat (h_size (?H bp)) + 16 * unat (h_size (?H r)) \<le> limit" using l(2) [of r] r by (simp add: endp_def)
    then have s: "unat (h_size (?H bp) + h_size (?H r)) = unat (h_size (?H bp)) + unat (h_size (?H r))" by (intro unat_sum) (simp add: limit_def)
    have e: "endp (hdr ?h) bp = endp ?H r" using s r by (simp add: h endp_def)
    have "linked (hdr ?h) bp rs' b" by (rule linked_from [of ?H r]) (use L r notin in \<open>auto simp: h\<close>)
    moreover have "gaps (hdr ?h) (endp (hdr ?h) bp) rs'" unfolding e by (rule gaps_cong [of ?H]) (use g r notin in \<open>auto simp: h\<close>)
    moreover have "extent bp (h_size (hdr ?h bp)) \<union> avail (hdr ?h) rs' = extent bp (h_size (?H bp)) \<union> avail ?H rs"
    proof -
      have "avail (hdr ?h) rs' = avail ?H rs'" by (rule avail_cong) (use r notin in \<open>auto simp: h\<close>)
      moreover have "extent bp (h_size (hdr ?h bp)) = extent bp (h_size (?H bp)) \<union> extent r (h_size (?H r))"
        unfolding extent_endp e using r(2) nz endp_above(1) [of r ?H] by auto
      ultimately show ?thesis using r(1) by (simp add: avail_simps Un_assoc)
    qed
    ultimately show ?thesis using r s by (intro exI [of _ rs'] exI [of _ "hdr ?h"]) (auto simp: h)
  next
    case False
    have pn: "h_ptr (?H p) = hd (rs @ [b])" using L by (cases rs) auto
    have "endp ?H bp \<noteq> unat (hd (rs @ [b]))" using False bp(2) nz by (cases rs) (auto simp: word_less_nat_alt)
    then have "hplus bp (h_size (?H bp)) \<noteq> h_ptr (?H p)" using hplus_eq_iff [OF l(1)] pn by simp
    then have h: "?h = set_ptr bp (h_ptr (?H p)) h" by (simp add: join_next_def Let_def)
    have e: "endp (hdr ?h) bp = endp ?H bp" by (simp add: h endp_def)
    have "linked (hdr ?h) bp rs b" by (rule linked_from [OF L]) (use notin in \<open>auto simp: h\<close>)
    moreover have "gaps ?H (endp ?H bp) rs" using g rs False by (cases rs) (auto simp: order_less_le)
    then have "gaps (hdr ?h) (endp (hdr ?h) bp) rs" unfolding e by (rule gaps_cong) (auto simp: h)
    moreover have "avail (hdr ?h) rs = avail ?H rs" by (rule avail_cong) (auto simp: h)
    ultimately show ?thesis by (intro exI [of _ rs] exI [of _ "hdr ?h"]) (auto simp: h)
  qed
qed

text \<open>The block in front takes in the new one if they touch.\<close>

lemma join_prev_ok:
  assumes L: "linked (hdr h) b ls z" and g: "gaps (hdr h) (unat b) ls" and b: "h_size (hdr h b) = 0"
    and R: "linked (hdr h) bp rs b" "gaps (hdr h) (endp (hdr h) bp) rs"
    and bp: "b < bp" "h_size (hdr h bp) \<noteq> 0" "ends (hdr h) (unat b) ls \<le> unat bp" "endp (hdr h) bp \<le> limit"
    and d: "distinct (b # ls @ bp # rs)" and p: "p = last (b # ls)"
  shows "\<exists>fs' H'. hdr (join_prev bp p h) = H' \<and> (\<forall>x. x \<noteq> p \<longrightarrow> H' x = hdr h x) \<and> brk (join_prev bp p h) = brk h \<and> grants (join_prev bp p h) = grants h \<and>
    circle b H' fs' \<and> p \<in> set (b # fs') \<and> set fs' \<subseteq> set (ls @ bp # rs) \<and>
    avail H' fs' = avail (hdr h) ls \<union> (extent bp (h_size (hdr h bp)) \<union> avail (hdr h) rs) \<and>
    (\<exists>a \<in> set fs'. unat (h_size (hdr h bp)) \<le> unat (h_size (H' a)))"
proof -
  let ?H = "hdr h" and ?h = "join_prev bp p h"
  have ep: "ends ?H (unat b) ls = endp ?H p" using ends_last [of ?H b ls] b p by (simp add: endp_def)
  then have lp: "endp ?H p \<le> limit" using bp(3,4) endp_above(1) [of bp ?H] by simp
  have px: "p \<notin> set rs" "p \<noteq> bp" "p \<in> set (b # ls)" using d p last_in_set [of "b # ls"] by (auto simp del: last.simps)
  show ?thesis
  proof (cases "endp ?H p = unat bp")
    case True
    then have h: "?h = set_ptr p (h_ptr (?H bp)) (set_size p (h_size (?H p) + h_size (?H bp)) h)"
      using hplus_eq_iff [OF lp] by (simp add: join_prev_def)
    have "p \<noteq> b" using True b bp(1) by (auto simp: endp_def word_less_nat_alt)
    then obtain ls' where ls: "ls = ls' @ [p]" using p by (cases ls rule: rev_cases) auto
    have "unat p + 16 * unat (h_size (?H p)) + 16 * unat (h_size (?H bp)) \<le> limit" using True bp(4) by (simp add: endp_def)
    then have s: "unat (h_size (?H p) + h_size (?H bp)) = unat (h_size (?H p)) + unat (h_size (?H bp))" by (intro unat_sum) (simp add: limit_def)
    have e: "endp (hdr ?h) p = endp ?H bp" using s True by (simp add: h endp_def)
    have nz: "h_size (hdr ?h p) \<noteq> 0" using s bp(2) by (simp add: h unat_eq_0 [symmetric] del: unat_eq_0)
    have px': "p \<notin> set ls'" using d ls by auto
    have L': "linked (hdr ?h) b ls (h_ptr (?H bp))"
      by (rule linked_upd_last [OF L, folded p]) (use d in \<open>auto simp: h\<close>)
    have R': "linked (hdr ?h) p rs b" by (rule linked_from [OF R(1)]) (use px in \<open>auto simp: h\<close>)
    have lk: "linked (hdr ?h) b (ls @ rs) b"
      unfolding ls append_assoc append_Cons append_Nil linked_append using L' R' unfolding ls linked_append by simp
    have "gaps (hdr ?h) (unat b) ls" unfolding ls by (rule gaps_upd_last [of "hdr h"]) (use g nz px' in \<open>auto simp: h ls\<close>)
    moreover have "gaps (hdr ?h) (ends (hdr ?h) (unat b) ls) rs"
      unfolding ls ends_append ends.simps e by (rule gaps_cong [OF R(2)]) (use px in \<open>auto simp: h\<close>)
    ultimately have "circle b (hdr ?h) (ls @ rs)" using lk b \<open>p \<noteq> b\<close> by (simp add: circle_def gaps_append) (simp add: h)
    moreover have "avail (hdr ?h) (ls @ rs) = avail ?H ls \<union> (extent bp (h_size (?H bp)) \<union> avail ?H rs)"
    proof -
      have "avail (hdr ?h) rs = avail ?H rs" by (rule avail_cong) (use px in \<open>auto simp: h\<close>)
      moreover have "avail (hdr ?h) ls' = avail ?H ls'" by (rule avail_cong) (use px' in \<open>auto simp: h\<close>)
      moreover have "extent p (h_size (hdr ?h p)) = extent p (h_size (?H p)) \<union> extent bp (h_size (?H bp))"
        unfolding extent_endp e using True endp_above(1) [of p ?H] endp_above(1) [of bp ?H] by auto
      ultimately show ?thesis unfolding ls by (simp add: avail_simps Un_assoc)
    qed
    ultimately show ?thesis using px s ls by (intro exI [of _ "ls @ rs"] exI [of _ "hdr ?h"]) (auto simp: h)
  next
    case False
    then have h: "?h = set_ptr p bp h" using hplus_eq_iff [OF lp] by (simp add: join_prev_def)
    have L': "linked (hdr ?h) b ls bp" by (rule linked_upd_last [OF L, folded p]) (use d in \<open>auto simp: h\<close>)
    have R': "linked (hdr ?h) bp rs b" by (rule linked_from [OF R(1)]) (use px in \<open>auto simp: h\<close>)
    have sz: "h_size (hdr ?h x) = h_size (?H x)" for x by (simp add: h)
    have "gaps ?H (unat b) (ls @ bp # rs)" using g R(2) bp(2,3) False ep by (simp add: gaps_append)
    then have "gaps (hdr ?h) (unat b) (ls @ bp # rs)" by (rule gaps_cong) (simp add: sz)
    then have "circle b (hdr ?h) (ls @ bp # rs)" using L' R' b sz [of b] by (simp add: circle_def linked_append)
    moreover have "avail (hdr ?h) xs = avail ?H xs" for xs by (rule avail_cong) (simp add: sz)
    ultimately show ?thesis using px by (intro exI [of _ "ls @ bp # rs"] exI [of _ "hdr ?h"]) (auto simp: h avail_simps)
  qed
qed

subsection \<open>free\<close>

lemma extent_bounds: "extent a n \<subseteq> {lo..<hi} \<Longrightarrow> n \<noteq> 0 \<Longrightarrow> lo \<le> unat a \<and> unat a + 16 * unat n \<le> hi"
  by (auto simp: extent_def unat_gt_0 [symmetric] simp del: unat_gt_0)

lemma extent_self: "n \<noteq> 0 \<Longrightarrow> unat a \<in> extent a n"
  by (simp add: extent_def unat_gt_0)

lemma gaps_size: "gaps H e fs \<Longrightarrow> a \<in> set fs \<Longrightarrow> h_size (H a) \<noteq> 0"
  by (induction fs arbitrary: e) auto

lemma gaps_ends: "gaps H e fs \<Longrightarrow> a \<in> set fs \<Longrightarrow> unat a < ends H e fs"
proof (induction fs arbitrary: e)
  case (Cons x fs)
  have mono: "e' \<le> ends H e' fs" if "gaps H e' fs" for e'
    using that
  proof (induction fs arbitrary: e')
    case (Cons y ys)
    then show ?case using endp_above(1) [of y H] by fastforce
  qed simp
  show ?case
  proof (cases "a = x")
    case True
    then show ?thesis using Cons.prems mono [of "endp H x"] endp_above(2) [of H x] by simp
  qed (use Cons in auto)
qed simp

lemma apartD:
  assumes "apart H lo hi fs A"
  shows "avail H fs \<subseteq> {lo..<hi}"
    "A a = Some n \<Longrightarrow> h_size (H a) = n \<and> n \<noteq> 0 \<and> lo \<le> unat a \<and> unat a + 16 * unat n \<le> hi"
    "A a = Some n \<Longrightarrow> extent a n \<subseteq> {lo..<hi}" "A a = Some n \<Longrightarrow> extent a n \<inter> avail H fs = {}"
    "A a = Some m \<Longrightarrow> A c = Some n \<Longrightarrow> a \<noteq> c \<Longrightarrow> extent a m \<inter> extent c n = {}"
  using assms extent_bounds [of a n lo hi] unfolding apart_def by blast+

text \<open>The headers in use are told apart by their addresses.\<close>

lemma free_block:
  assumes "circle b H fs" and "apart H lo hi fs A" and "x \<in> set fs"
  shows "lo \<le> unat x" "endp H x \<le> hi" "h_size (H x) \<noteq> 0"
proof -
  show nz: "h_size (H x) \<noteq> 0" using assms(1,3) gaps_size by (auto simp: circle_def)
  have "extent x (h_size (H x)) \<subseteq> {lo..<hi}" using apartD(1) [OF assms(2)] assms(3) by (auto simp: avail_def)
  then show "lo \<le> unat x" "endp H x \<le> hi" using extent_bounds [OF _ nz] by (auto simp: endp_def)
qed

lemma used_block:
  assumes "circle b H fs" and "apart H lo hi fs A" and "unat b < lo" and "A x = Some n"
  shows "x \<notin> set (b # fs)"
proof
  note a = apartD(2,4) [OF assms(2,4)]
  assume "x \<in> set (b # fs)"
  then have "x \<in> set fs" using a(1) assms(3) by auto
  then have "unat x \<in> extent x n \<inter> avail H fs" using a extent_self [of n x] by (auto simp: avail_def)
  then show False using a(2) by blast
qed

lemma heap_okD:
  assumes "heap_ok b lo h fs A"
  shows "circle b (hdr h) fs" "apart (hdr h) lo (unat (brk h)) fs A" "freep h \<in> set (b # fs)"
    "0 < unat b" "unat b + 16 \<le> lo" "lo \<le> unat (brk h)" "unat (brk h) \<le> limit"
    "linked (hdr h) b fs b" "gaps (hdr h) (unat b) fs" "h_size (hdr h b) = 0"
  using assms by (auto simp: heap_ok_def circle_def)

text \<open>Where an allocated block belongs in the list.\<close>

lemma free_split:
  assumes h: "heap_ok b lo h fs A" and A: "A a = Some n"
  shows "\<exists>ls rs. fs = ls @ rs \<and> free_place (hdr h) a (freep h) = Some (last (b # ls)) \<and> ends (hdr h) (unat b) ls \<le> unat a \<and>
    linked (hdr h) b ls (hd (rs @ [b])) \<and> linked (hdr h) (last (b # ls)) rs b \<and> (\<forall>r \<in> set rs. endp (hdr h) a \<le> unat r)"
proof -
  let ?H = "hdr h"
  note D = heap_okD [OF h] and aD = apartD(2) [OF heap_okD(2) [OF h] A]
  have nz: "n \<noteq> 0" "h_size (?H a) = n" and ba: "b < a" using aD D(5) by (auto simp: word_less_nat_alt)
  obtain ls rs where fs: "fs = ls @ rs" and le: "ends ?H (unat b) ls \<le> unat a" and ge: "\<forall>r \<in> set rs. unat a + 16 * unat n \<le> unat r"
    using gap_split [OF D(9) _ nz(1) apartD(4) [OF D(2) A]] ba by (auto simp: word_less_nat_alt)
  have gl: "gaps ?H (unat b) ls" using D(9) fs by (auto simp: gaps_append)
  have lb: "l < a" if "l \<in> set ls" for l using gaps_ends [OF gl that] le by (simp add: word_less_nat_alt)
  have rb: "a < r" if "r \<in> set rs" for r using ge that nz(1) by (auto simp: word_less_nat_alt unat_gt_0 [symmetric] simp del: unat_gt_0)
  have "free_place ?H a (freep h) = Some (last (b # ls))" using free_place_found [OF D(8,9) [unfolded fs] ba lb rb] D(3) fs by simp
  moreover have "linked ?H b ls (hd (rs @ [b]))" "linked ?H (last (b # ls)) rs b"
    using D(8) linked_last [of ?H b ls b] linked_last [of ?H b ls "hd (rs @ [b])"] unfolding fs by (cases rs; simp add: linked_append)+
  moreover have "\<forall>r \<in> set rs. endp ?H a \<le> unat r" using ge nz(2) by (simp add: endp_def)
  ultimately show ?thesis using fs le by blast
qed

lemma ufree_ok:
  assumes h: "heap_ok b lo h fs A" and A: "A a = Some n"
  shows "\<exists>h' fs'. ufree (a + 16) h = Some h' \<and> heap_ok b lo h' fs' (A(a := None)) \<and> brk h' = brk h \<and> grants h' = grants h \<and>
    avail (hdr h') fs' = avail (hdr h) fs \<union> extent a n \<and> (\<exists>x \<in> set fs'. unat n \<le> unat (h_size (hdr h' x)))"
proof -
  let ?H = "hdr h"
  note C = heap_okD(1) [OF h] and P = heap_okD(2) [OF h] and lim = heap_okD(4-7) [OF h] and g = heap_okD(9) [OF h]
  note aD = apartD(2) [OF P A] and block = free_block [OF C P]
  have nz: "n \<noteq> 0" "h_size (?H a) = n" and ba: "b < a" using aD lim(2) by (auto simp: word_less_nat_alt)
  obtain ls rs where fs: "fs = ls @ rs" and place: "free_place ?H a (freep h) = Some (last (b # ls))" and le: "ends ?H (unat b) ls \<le> unat a"
    and Ll: "linked ?H b ls (hd (rs @ [b]))" and Lr: "linked ?H (last (b # ls)) rs b" and ge: "\<forall>r \<in> set rs. endp ?H a \<le> unat r"
    using free_split [OF h A] by blast
  let ?p = "last (b # ls)" and ?z = "hd (rs @ [b])"
  have gl: "gaps ?H (unat b) ls" "gaps ?H (ends ?H (unat b) ls) rs" using g fs by (auto simp: gaps_append)
  have anot: "a \<notin> set (b # fs)" using used_block [OF C P _ A] lim(2) by simp
  have pin: "?p \<in> set (b # ls)" by (rule last_in_set) simp
  have endr: "\<And>r. r \<in> set rs \<Longrightarrow> endp ?H a \<le> unat r" "endp ?H a \<le> limit" "\<And>r. r \<in> set rs \<Longrightarrow> endp ?H r \<le> limit"
    using ge nz(2) aD lim(4) block(2) fs by (fastforce simp: endp_def)+
  have "a \<noteq> ?p" "h_size (?H a) \<noteq> 0" using anot fs nz pin by auto
  then obtain rs' where H1: "\<forall>x. x \<noteq> a \<longrightarrow> hdr (join_next a ?p h) x = ?H x" "brk (join_next a ?p h) = brk h" "grants (join_next a ?p h) = grants h"
    and j: "linked (hdr (join_next a ?p h)) a rs' b" "gaps (hdr (join_next a ?p h)) (endp (hdr (join_next a ?p h)) a) rs'" "set rs' \<subseteq> set rs"
      "unat n \<le> unat (h_size (hdr (join_next a ?p h) a))"
      "extent a (h_size (hdr (join_next a ?p h) a)) \<union> avail (hdr (join_next a ?p h)) rs' = extent a n \<union> avail ?H rs"
    using join_next_ok [OF Lr gl(2) _ ba _ endr] nz(2) by blast
  let ?h1 = "join_next a ?p h" and ?hi = "unat (brk h)"
  have same: "hdr ?h1 x = ?H x" if "x \<in> set (b # fs)" for x using H1(1) anot that by auto
  have cover: "extent a (h_size (hdr ?h1 a)) \<subseteq> {lo..<?hi}"
  proof -
    have "avail ?H rs \<subseteq> {lo..<?hi}" using apartD(1) [OF P] fs by (simp add: avail_simps)
    then show ?thesis using j(5) apartD(3) [OF P A] by blast
  qed
  have nz1: "h_size (hdr ?h1 a) \<noteq> 0" using j(4) nz(1) by (auto simp: unat_gt_0 [symmetric] simp del: unat_gt_0)
  have lim1: "endp (hdr ?h1) a \<le> limit" using extent_bounds [OF cover nz1] lim(4) by (simp add: endp_def)
  have Ll1: "linked (hdr ?h1) b ls ?z" by (rule linked_from [OF Ll]) (use same fs in auto)
  have gl1: "gaps (hdr ?h1) (unat b) ls" by (rule gaps_cong [OF gl(1)]) (use same fs in auto)
  have b1: "h_size (hdr ?h1 b) = 0" using same heap_okD(10) [OF h] by simp
  have le1: "ends (hdr ?h1) (unat b) ls \<le> unat a" using le ends_cong [of ls "hdr ?h1" ?H "unat b"] same fs by simp
  have above: "\<And>x. x \<in> set fs \<Longrightarrow> b < x" using gaps_above [OF g] by (simp add: word_less_nat_alt)
  have "distinct rs'" "distinct (ls @ rs)" using gaps_distinct [OF j(2)] gaps_distinct [OF g] fs by auto
  then have d: "distinct (b # ls @ a # rs')" using j(3) anot above fs by auto
  obtain fs' where H2: "\<forall>x. x \<noteq> ?p \<longrightarrow> hdr (join_prev a ?p ?h1) x = hdr ?h1 x" "brk (join_prev a ?p ?h1) = brk ?h1" "grants (join_prev a ?p ?h1) = grants ?h1"
    and k: "circle b (hdr (join_prev a ?p ?h1)) fs'" "?p \<in> set (b # fs')" "set fs' \<subseteq> set (ls @ a # rs')"
      "avail (hdr (join_prev a ?p ?h1)) fs' = avail (hdr ?h1) ls \<union> (extent a (h_size (hdr ?h1 a)) \<union> avail (hdr ?h1) rs')"
      "\<exists>x \<in> set fs'. unat (h_size (hdr ?h1 a)) \<le> unat (h_size (hdr (join_prev a ?p ?h1) x))"
    using join_prev_ok [OF Ll1 gl1 b1 j(1,2) ba nz1 le1 lim1 d refl] by blast
  let ?h' = "(join_prev a ?p ?h1)\<lparr>freep := ?p\<rparr>"
  have "avail (hdr ?h1) ls = avail ?H ls" by (rule avail_cong) (use same fs in auto)
  then have av: "avail (hdr ?h') fs' = avail ?H fs \<union> extent a n" using k(4) j(5) fs by (auto simp: avail_simps)
  have other: "hdr ?h' x = ?H x" if "(A(a := None)) x = Some m" for x m
  proof -
    have x: "x \<noteq> a" "A x = Some m" using that by (auto split: if_splits)
    then have "x \<notin> set (b # fs)" using used_block [OF C P _ x(2)] lim(2) by simp
    then have "x \<noteq> ?p" using pin fs by auto
    then show ?thesis using H1(1) H2(1) x(1) by simp
  qed
  have "apart (hdr ?h') lo ?hi fs' (A(a := None))"
    unfolding apart_def
  proof (intro conjI allI impI)
    show "avail (hdr ?h') fs' \<subseteq> {lo..<?hi}" using av apartD(1,3) [OF P] A by auto
    show "extent x m \<inter> extent c k = {}" if "(A(a := None)) x = Some m" "(A(a := None)) c = Some k" "x \<noteq> c" for x c m k
      using that apartD(5) [OF P] by (auto split: if_splits)
    fix x m assume x: "(A(a := None)) x = Some m"
    then have x': "x \<noteq> a" "A x = Some m" by (auto split: if_splits)
    show "h_size (hdr ?h' x) = m" "m \<noteq> 0" "extent x m \<subseteq> {lo..<?hi}" using other [OF x] apartD(2,3) [OF P x'(2)] by auto
    show "extent x m \<inter> avail (hdr ?h') fs' = {}" using av apartD(4) [OF P x'(2)] apartD(5) [OF P x'(2) A x'(1)] by blast
  qed
  then have "heap_ok b lo ?h' fs' (A(a := None))" using k(1,2) lim H1(2) H2(2) by (simp add: heap_ok_def)
  moreover have "ufree (a + 16) h = Some ?h'" using place by (simp add: ufree_def)
  moreover obtain x where "x \<in> set fs'" "unat (h_size (hdr ?h1 a)) \<le> unat (h_size (hdr ?h' x))" using k(5) by auto
  then have "\<exists>x \<in> set fs'. unat n \<le> unat (h_size (hdr ?h' x))" using j(4) by (intro bexI [of _ x]) linarith+
  ultimately show ?thesis using av H1(2,3) H2(2,3) by (intro exI [of _ ?h'] exI [of _ fs']) simp
qed

end
