(* ===== verification/Ummalloc.thy ===== *)
theory Ummalloc
  imports Umfree
begin

text \<open>\<^verbatim>\<open>malloc\<close> of \<^verbatim>\<open>umalloc.c\<close>: taking blocks from the free list, and asking the kernel for more.\<close>

subsection \<open>Taking a block\<close>

lemma avail_above: "gaps H e xs \<Longrightarrow> x \<in> avail H xs \<Longrightarrow> e < x"
  using gaps_above by (fastforce simp: avail_def extent_def)

lemma avail_below: "gaps H e xs \<Longrightarrow> x \<in> avail H xs \<Longrightarrow> x < ends H e xs"
proof (induction xs arbitrary: e)
  case (Cons a xs)
  have mono: "e' \<le> ends H e' xs" if "gaps H e' xs" for e'
    using that endp_above(1) gaps_ends [OF that] gaps_above [OF that] by (cases xs) fastforce+
  show ?case
  proof (cases "x \<in> extent a (h_size (H a))")
    case True
    then show ?thesis using mono [of "endp H a"] Cons.prems(1) by (simp add: extent_endp)
  qed (use Cons in \<open>auto simp: avail_simps\<close>)
qed (simp add: avail_simps)

lemma gaps_disjoint:
  assumes "gaps H e (xs @ z # ys)"
  shows "extent z (h_size (H z)) \<inter> (avail H xs \<union> avail H ys) = {}"
proof -
  have "x < unat z" if "x \<in> avail H xs" for x using avail_below [of H e xs x] that assms by (fastforce simp: gaps_append)
  moreover have "endp H z < x" if "x \<in> avail H ys" for x using avail_above [of H "endp H z" ys x] that assms by (simp add: gaps_append)
  ultimately show ?thesis unfolding extent_endp by fastforce
qed

lemma apart_take:
  assumes P: "apart H lo hi fs A" and n: "n \<noteq> 0" "extent a n \<subseteq> avail H fs" "h_size (H' a) = n" "avail H' fs' = avail H fs - extent a n"
    and same: "\<And>x m. A x = Some m \<Longrightarrow> h_size (H' x) = h_size (H x)"
  shows "apart H' lo hi fs' (A(a \<mapsto> n))" "A a = None"
proof -
  have d: "extent x m \<inter> extent a n = {}" if "A x = Some m" for x m using apartD(4) [OF P that] n(2) by blast
  show A: "A a = None"
  proof (rule ccontr)
    assume "A a \<noteq> None"
    then obtain m where m: "A a = Some m" by blast
    then have "unat a \<in> extent a m \<inter> extent a n" using extent_self n(1) apartD(2) [OF P m] by blast
    then show False using d [OF m] by blast
  qed
  show "apart H' lo hi fs' (A(a \<mapsto> n))"
    unfolding apart_def
  proof (intro conjI allI impI)
    show "avail H' fs' \<subseteq> {lo..<hi}" using n(4) apartD(1) [OF P] by blast
    show "extent x m \<inter> extent c k = {}" if "(A(a \<mapsto> n)) x = Some m" "(A(a \<mapsto> n)) c = Some k" "x \<noteq> c" for x c m k
      using that d [of x m] d [of c k] apartD(5) [OF P, of x m c k] by (auto split: if_splits)
    fix x m assume x: "(A(a \<mapsto> n)) x = Some m"
    show "h_size (H' x) = m" "m \<noteq> 0" "extent x m \<subseteq> {lo..<hi}" "extent x m \<inter> avail H' fs' = {}"
      using x n apartD(1) [OF P] apartD(2-4) [OF P, of x m] same [of x m] by (auto split: if_splits)
  qed
qed

lemma linked_concat: "linked H a xs (hd (ys @ [z])) \<Longrightarrow> (ys \<noteq> [] \<Longrightarrow> linked H (hd ys) (tl ys) z) \<Longrightarrow> linked H a (xs @ ys) z"
  by (cases ys) (auto simp: linked_append)

lemma heap_distinct: "heap_ok b lo h fs A \<Longrightarrow> distinct (b # fs)"
  using gaps_distinct gaps_above heap_okD(9) by fastforce

text \<open>A block of exactly the size leaves the list.\<close>

lemma take_whole:
  assumes h: "heap_ok b lo h (xs @ z # ys) A" and n: "h_size (hdr h z) = n"
  shows "heap_ok b lo ((set_ptr (last (b # xs)) (h_ptr (hdr h z)) h)\<lparr>freep := last (b # xs)\<rparr>) (xs @ ys) (A(z \<mapsto> n))" "A z = None"
proof -
  let ?H = "hdr h" and ?p = "last (b # xs)"
  let ?H' = "?H(?p := (?H ?p)\<lparr>h_ptr := h_ptr (?H z)\<rparr>)"
  note D = heap_okD [OF h]
  have L: "linked ?H b xs z" "linked ?H z ys b" using D(8) by (auto simp: linked_append)
  note d = heap_distinct [OF h]
  have pin: "?p \<in> set (b # xs)" by (rule last_in_set) simp
  have sz: "h_size (?H' x) = h_size (?H x)" for x by simp
  have "linked ?H' b xs (hd (ys @ [b]))"
    by (rule linked_upd_last [OF L(1)]) (use d L(2) in \<open>cases ys; auto\<close>)+
  moreover have "linked ?H' (hd ys) (tl ys) b" if "ys \<noteq> []"
    by (rule linked_from [of ?H "hd ys"]) (use that L(2) d pin in \<open>cases ys; auto\<close>)+
  ultimately have lk: "linked ?H' b (xs @ ys) b" by (rule linked_concat)
  have "gaps ?H (unat b) (xs @ ys)"
    using D(9) endp_above(1) [of z ?H] by (auto simp: gaps_append intro: gaps_mono)
  then have "gaps ?H' (unat b) (xs @ ys)" by (rule gaps_cong) (simp only: sz)
  then have c: "circle b ?H' (xs @ ys)" using lk D(10) sz [of b] by (simp only: circle_def)
  have av: "avail ?H' (xs @ ys) = avail ?H (xs @ z # ys) - extent z n"
    using gaps_disjoint [OF D(9)] n avail_cong [of "xs @ ys" ?H' ?H] sz by (auto simp only: avail_simps)
  have ez: "extent z n \<subseteq> avail ?H (xs @ z # ys)" using n by (auto simp: avail_simps)
  have nz: "n \<noteq> 0" using gaps_size [OF D(9), of z] n by simp
  note T = apart_take [OF D(2) nz ez _ av]
  show "A z = None" by (rule T(2)) (use n in auto)
  have "apart ?H' lo (unat (brk h)) (xs @ ys) (A(z \<mapsto> n))" by (rule T(1)) (use n in auto)
  then show "heap_ok b lo ((set_ptr ?p (h_ptr (?H z)) h)\<lparr>freep := ?p\<rparr>) (xs @ ys) (A(z \<mapsto> n))"
    using c pin D(4-7) by (auto simp: heap_ok_def)
qed

text \<open>A larger block gives its tail.\<close>

lemma take_tail:
  assumes h: "heap_ok b lo h fs A" and z: "z \<in> set fs" and n: "n \<noteq> 0" "n < h_size (hdr h z)" and q: "q \<in> set (b # fs)"
  defines "h1 \<equiv> set_size z (h_size (hdr h z) - n) h"
  defines "a \<equiv> hplus z (h_size (hdr h1 z))"
  shows "heap_ok b lo ((set_size a n h1)\<lparr>freep := q\<rparr>) fs (A(a \<mapsto> n))" "A a = None"
proof -
  let ?H = "hdr h" and ?m = "h_size (hdr h z) - n"
  let ?H' = "hdr (set_size a n h1)"
  note D = heap_okD [OF h] and B = free_block [OF heap_okD(1,2) [OF h] z]
  have u: "unat ?m = unat (h_size (?H z)) - unat n" "unat n < unat (h_size (?H z))" using n(2) by (simp_all add: unat_sub word_less_nat_alt less_imp_le)
  have e1: "endp (hdr h1) z = unat z + 16 * unat ?m" by (simp add: h1_def endp_def)
  moreover have "endp ?H z \<le> limit" using B(2) D(7) by simp
  ultimately have ua: "unat a = unat z + 16 * unat ?m" unfolding a_def using u by (subst unat_hplus) (simp_all add: endp_def)
  have split: "extent z (h_size (?H z)) = extent z ?m \<union> extent a n" "extent z ?m \<inter> extent a n = {}" using ua u by (auto simp: extent_def)
  obtain xs ys where fs: "fs = xs @ z # ys" using z by (auto simp: in_set_conv_decomp)
  have g: "gaps ?H (unat b) (xs @ z # ys)" using D(9) fs by simp
  have az: "extent a n \<subseteq> extent z (h_size (?H z))" using split by blast
  have "unat a \<noteq> unat z" using ua u n(2) by simp
  then have a_z: "a \<noteq> z" by auto
  have "unat a \<in> extent z (h_size (?H z))" using az extent_self [OF n(1), of a] by blast
  then have "unat a \<notin> avail ?H (xs @ ys)" using gaps_disjoint [OF g] unfolding avail_simps by blast
  then have "a \<notin> set (xs @ ys)" using gaps_size [OF g, of a] extent_self [of "h_size (?H a)" a] by (auto simp: avail_def)
  moreover have "a \<noteq> b" using B(1) D(5) ua by auto
  ultimately have anot: "a \<notin> set (b # fs)" using a_z fs by auto
  have sz: "h_size (?H' x) = (if x = a then n else if x = z then ?m else h_size (?H x))" for x by (simp add: h1_def)
  have pt: "h_ptr (?H' x) = h_ptr (?H x)" for x by (simp add: h1_def)
  have lk: "linked ?H' b fs b" by (rule linked_from [OF D(8)]) (simp_all only: pt)
  have zn: "z \<notin> set (xs @ ys)" using gaps_distinct [OF g] by auto
  have gx: "gaps ?H' (unat b) xs" by (rule gaps_cong [of ?H]) (use g anot zn fs sz in \<open>auto simp: gaps_append\<close>)
  have ex: "ends ?H' (unat b) xs = ends ?H (unat b) xs" by (rule ends_cong) (use anot zn fs sz in auto)
  have "endp ?H' z \<le> endp ?H z" using sz [of z] a_z u by (simp add: endp_def)
  then have "gaps ?H (endp ?H' z) ys" using g by (auto simp: gaps_append intro: gaps_mono)
  then have gy: "gaps ?H' (endp ?H' z) ys" by (rule gaps_cong) (use anot zn fs sz in auto)
  have "h_size (?H' z) \<noteq> 0" using sz [of z] a_z n(2) by auto
  then have "gaps ?H' (unat b) fs" using gx gy g ex unfolding fs by (simp add: gaps_append)
  then have c: "circle b ?H' fs" using lk D(10) sz [of b] anot B(3) by (auto simp: circle_def)
  have "avail ?H' xs = avail ?H xs" by (rule avail_cong) (use anot zn fs sz in auto)
  moreover have "avail ?H' ys = avail ?H ys" by (rule avail_cong) (use anot zn fs sz in auto)
  ultimately have av: "avail ?H' fs = avail ?H fs - extent a n"
    using gaps_disjoint [OF g] split az sz [of z] a_z unfolding fs by (auto simp: avail_simps)
  have ea: "extent a n \<subseteq> avail ?H fs" using az z by (auto simp: avail_def)
  have same: "h_size (?H' x) = h_size (?H x)" if "A x = Some m" for x m
  proof -
    have "unat a \<in> avail ?H fs" using ea extent_self [OF n(1), of a] by blast
    then have "x \<noteq> a" using apartD(2,4) [OF D(2) that] extent_self [of m x] by blast
    moreover have "x \<noteq> z" using used_block [OF D(1,2) _ that] D(5) z by auto
    ultimately show ?thesis using sz [of x] by simp
  qed
  note T = apart_take [OF D(2) n(1) ea _ av same]
  show "A a = None" by (rule T(2)) (use sz [of a] in auto)
  have "apart ?H' lo (unat (brk h)) fs (A(a \<mapsto> n))" by (rule T(1)) (use sz [of a] in auto)
  then show "heap_ok b lo ((set_size a n h1)\<lparr>freep := q\<rparr>) fs (A(a \<mapsto> n))"
    using c q D(4-7) unfolding heap_ok_def by (simp add: h1_def)
qed

lemma take_block_ok:
  assumes h: "heap_ok b lo h fs A" and z: "z \<in> set fs" and n: "n \<noteq> 0" "n \<le> h_size (hdr h z)"
    and q: "q \<in> set (b # fs)" "h_ptr (hdr h q) = z"
  shows "\<exists>a h' fs'. take_block n q z h = (a + 16, h') \<and> A a = None \<and> heap_ok b lo h' fs' (A(a \<mapsto> n)) \<and> brk h' = brk h"
proof (cases "h_size (hdr h z) = n")
  case True
  obtain xs ys where fs: "fs = xs @ z # ys" using z by (auto simp: in_set_conv_decomp)
  note D = heap_okD [OF h]
  have "q = last (b # xs)"
    by (rule linked_pred [of "hdr h" b xs z ys]) (use heap_distinct [OF h] D(8) q fs in auto)
  then show ?thesis using take_whole [OF h [unfolded fs] True] True by (auto simp: take_block_def set_ptr_def)
next
  case False
  then have "n < h_size (hdr h z)" using n(2) by simp
  from take_tail [OF h z n(1) this q(1)] False show ?thesis by (auto simp: take_block_def Let_def set_size_def)
qed

subsection \<open>Asking for more\<close>

lemma heap_grow:
  assumes h: "heap_ok b lo h fs A" and n: "n \<noteq> 0" "unat (brk h) + 16 * unat n \<le> limit"
    and h': "hdr h' = (hdr h)(brk h := (hdr h (brk h))\<lparr>h_size := n\<rparr>)" "freep h' = freep h" "unat (brk h') = unat (brk h) + 16 * unat n"
  shows "heap_ok b lo h' fs (A(brk h \<mapsto> n))" "A (brk h) = None"
proof -
  let ?H = "hdr h" and ?e = "brk h"
  note D = heap_okD [OF h]
  have used: "x \<noteq> ?e \<and> unat x < unat ?e" if "A x = Some m" for x m
    using apartD(2) [OF D(2) that] by (auto simp: unat_gt_0 [symmetric] simp del: unat_gt_0)
  then show "A ?e = None" by (cases "A ?e") auto
  have "unat x < unat ?e" if "x \<in> set fs" for x using free_block [OF D(1,2) that] endp_above(2) [of ?H x] by simp
  then have enot: "x \<noteq> ?e" if "x \<in> set (b # fs)" for x using D(5,6) that by auto
  have same: "h_size (hdr h' x) = h_size (?H x)" "hdr h' x = ?H x" if "x \<noteq> ?e" for x using that h'(1) by simp_all
  have "linked (hdr h') b fs b" by (rule linked_from [OF D(8)]) (use enot same in auto)
  moreover have "gaps (hdr h') (unat b) fs" by (rule gaps_cong [OF D(9)]) (use enot same in auto)
  moreover have "h_size (hdr h' b) = 0" using same(1) [of b] enot D(10) by simp
  ultimately have c: "circle b (hdr h') fs" by (simp add: circle_def)
  have av: "avail (hdr h') fs = avail ?H fs" by (rule avail_cong) (use enot same in auto)
  have "apart (hdr h') lo (unat (brk h')) fs (A(?e \<mapsto> n))"
    unfolding apart_def
  proof (intro conjI allI impI)
    have up: "{lo..<unat ?e} \<subseteq> {lo..<unat (brk h')}" using h'(3) by auto
    then show "avail (hdr h') fs \<subseteq> {lo..<unat (brk h')}" using av apartD(1) [OF D(2)] by auto
    have new: "extent ?e n \<inter> {lo..<unat ?e} = {}" by (auto simp: extent_def)
    show "extent x m \<inter> extent c k = {}" if "(A(?e \<mapsto> n)) x = Some m" "(A(?e \<mapsto> n)) c = Some k" "x \<noteq> c" for x c m k
      using that apartD(5) [OF D(2), of x m c k] apartD(3) [OF D(2), of x m] apartD(3) [OF D(2), of c k] new
      by (auto split: if_splits)
    fix x m assume x: "(A(?e \<mapsto> n)) x = Some m"
    show "h_size (hdr h' x) = m" "m \<noteq> 0"
      using x apartD(2) [OF D(2), of x m] same(1) [of x] n h'(1) by (auto split: if_splits)
    show "extent x m \<subseteq> {lo..<unat (brk h')}" using x apartD(3) [OF D(2), of x m] up h'(3) D(6) by (auto simp: extent_def split: if_splits)
    show "extent x m \<inter> avail (hdr h') fs = {}"
      using x apartD(4) [OF D(2), of x m] apartD(1) [OF D(2)] new av by (auto split: if_splits)
  qed
  then show "heap_ok b lo h' fs (A(?e \<mapsto> n))" using c D(3-7) h'(2,3) n(2) by (simp add: heap_ok_def)
qed

lemma heap_same:
  "heap_ok b lo h fs A \<Longrightarrow> hdr h' = hdr h \<Longrightarrow> freep h' = freep h \<Longrightarrow> brk h' = brk h \<Longrightarrow> heap_ok b lo h' fs A"
  by (simp add: heap_ok_def)

lemma request_size: "16 * unat nu < 2 ^ 31 \<Longrightarrow> sint (ucast (ucast nu * 16 :: u64) :: u32) = 16 * int (unat (nu :: u32))"
proof -
  assume n: "16 * unat nu < 2 ^ 31"
  have "unat (ucast nu * 16 :: u64) = 16 * unat nu" using n by (simp add: unat_word_ariths unat_ucast_up mult.commute)
  then have "unat (ucast (ucast nu * 16 :: u64) :: u32) = 16 * unat nu" using n by (simp add: unsigned_ucast_eq take_bit_nat_eq_self)
  then have u: "uint (ucast (ucast nu * 16 :: u64) :: u32) = int (16 * unat nu)" by (simp only: uint_nat)
  have t: "signed_take_bit (LENGTH(32) - Suc 0) (int m) = int m" if "m < 2 ^ 31" for m using that by (intro signed_take_bit_int_eq_self) simp_all
  show ?thesis unfolding sint_uint u t [OF n] by simp
qed

lemma sbrk_ok:
  assumes h: "heap_ok b lo h fs A" and n: "n \<noteq> (0 :: u32)"
  shows "\<exists>h1. sbrk (16 * int (unat n)) h = (-1, h1) \<and> heap_ok b lo h1 fs A \<or>
      sbrk (16 * int (unat n)) h = (brk h, h1) \<and> hdr h1 = hdr h \<and> freep h1 = freep h \<and>
        unat (brk h1) = unat (brk h) + 16 * unat n \<and> unat (brk h) + 16 * unat n \<le> limit"
proof -
  have "0 < unat n" using n by (simp add: unat_gt_0)
  then have pos: "0 < 16 * int (unat n)" by linarith
  have lim: "uint (PHYSTOP - KERNBASE) = 2 ^ 27" by (simp add: PHYSTOP_def KERNBASE_def)
  show ?thesis
  proof (cases "grants h")
    case Nil
    then have "sbrk (16 * int (unat n)) h = (-1, h)" using pos by (simp add: sbrk_def del: of_nat_unat)
    then show ?thesis using h by blast
  next
    case (Cons ok gs)
    show ?thesis
    proof (cases "ok \<and> uint (brk h) + 16 * int (unat n) \<le> 2 ^ 27")
      case True
      have "int (unat (brk h) + 16 * unat n) \<le> int limit" using True by (simp add: limit_def)
      then have l: "unat (brk h) + 16 * unat n \<le> limit" by (simp only: of_nat_le_iff)
      have "of_int (16 * int (unat n)) = (of_nat (16 * unat n) :: u64)" by (simp del: of_nat_unat)
      then have "unat (brk h + of_int (16 * int (unat n))) = unat (brk h) + 16 * unat n"
        using l unat_of_nat_small [of "16 * unat n", where 'a = 64] by (simp only: unat_word_ariths) (simp add: limit_def)
      moreover have "sbrk (16 * int (unat n)) h = (brk h, h\<lparr>grants := gs, brk := brk h + of_int (16 * int (unat n))\<rparr>)"
        using True Cons pos lim by (simp add: sbrk_def)
      ultimately show ?thesis using l by (intro exI [of _ "h\<lparr>grants := gs, brk := brk h + of_int (16 * int (unat n))\<rparr>"] disjI2) simp
    next
      case False
      then have "sbrk (16 * int (unat n)) h = (-1, h\<lparr>grants := gs\<rparr>)" using Cons pos lim by (auto simp: sbrk_def)
      moreover have "heap_ok b lo (h\<lparr>grants := gs\<rparr>) fs A" by (rule heap_same [OF h]) simp_all
      ultimately show ?thesis by blast
    qed
  qed
qed

lemma morecore_ok:
  assumes h: "heap_ok b lo h fs A" and nu: "16 * unat nu < 2 ^ 31"
  shows "\<exists>c h'. morecore nu h = Some (c, h') \<and> (c = 0 \<and> heap_ok b lo h' fs A \<or>
    c = freep h' \<and> c \<noteq> 0 \<and> (\<exists>fs'. heap_ok b lo h' fs' A \<and> (\<exists>x \<in> set fs'. nu \<le> h_size (hdr h' x))))"
proof -
  define n where "n = (if nu < 4096 then 4096 else nu)"
  have n: "16 * unat n < 2 ^ 31" "n \<noteq> 0" "nu \<le> n" using nu by (auto simp: n_def word_less_nat_alt word_le_nat_alt)
  have m: "morecore nu h = (let (p, h) = sbrk (16 * int (unat n)) h in
      if p = -1 then Some (0, h) else Option.bind (ufree (p + 16) (set_size p n h)) (\<lambda>h. Some (freep h, h)))"
    unfolding morecore_def Let_def n_def [symmetric] request_size [OF n(1)] ..
  from sbrk_ok [OF h n(2)] obtain h1 where "sbrk (16 * int (unat n)) h = (-1, h1) \<and> heap_ok b lo h1 fs A \<or>
      sbrk (16 * int (unat n)) h = (brk h, h1) \<and> hdr h1 = hdr h \<and> freep h1 = freep h \<and>
        unat (brk h1) = unat (brk h) + 16 * unat n \<and> unat (brk h) + 16 * unat n \<le> limit" by blast
  then show ?thesis
  proof (elim disjE conjE)
    assume "sbrk (16 * int (unat n)) h = (-1, h1)" "heap_ok b lo h1 fs A"
    then show ?thesis unfolding m by simp
  next
    assume s: "sbrk (16 * int (unat n)) h = (brk h, h1)" "hdr h1 = hdr h" "freep h1 = freep h"
      "unat (brk h1) = unat (brk h) + 16 * unat n" "unat (brk h) + 16 * unat n \<le> limit"
    have g: "heap_ok b lo (set_size (brk h) n h1) fs (A(brk h \<mapsto> n))" "A (brk h) = None"
      by (rule heap_grow [OF h n(2) s(5), of "set_size (brk h) n h1"]; use s in simp)+
    obtain h' fs' where u: "ufree (brk h + 16) (set_size (brk h) n h1) = Some h'" "heap_ok b lo h' fs' ((A(brk h \<mapsto> n))(brk h := None))"
      "\<exists>x \<in> set fs'. unat n \<le> unat (h_size (hdr h' x))" using ufree_ok [OF g(1), of "brk h" n] by auto
    have "(A(brk h \<mapsto> n))(brk h := None) = A" using g(2) by auto
    then have ok: "heap_ok b lo h' fs' A" using u(2) by (simp only:)
    have "unat (brk h) < unat (-1 :: u64)" using heap_okD(7) [OF h] by (simp add: limit_def unsigned_minus_1_eq_mask mask_eq_exp_minus_1)
    then have "brk h \<noteq> -1" by auto
    moreover have "freep h' \<noteq> 0" using heap_okD(3,4) [OF ok] gaps_above [OF heap_okD(9) [OF ok], of "freep h'"] by auto
    moreover have "\<exists>x \<in> set fs'. nu \<le> h_size (hdr h' x)" using u(3) n(3) by (auto simp: word_le_nat_alt intro: order_trans)
    ultimately show ?thesis unfolding m using s(1) u(1) ok by auto
  qed
qed

subsection \<open>malloc\<close>

text \<open>The loop finds a large enough block with its predecessor, or has seen all of them.\<close>

definition refill :: "u32 \<Rightarrow> uheap \<Rightarrow> (u64 \<times> uheap) option" where
  "refill n h = Option.bind (morecore n h) (\<lambda>r.
     if fst r = 0 then Some (0, snd r) else malloc_loop n (fst r) (h_ptr (hdr (snd r) (fst r))) (snd r))"

lemma malloc_search:
  assumes "linked (hdr h) q zs (freep h)" and "freep h \<notin> set zs"
  shows "(\<exists>z p. z \<in> set zs \<union> {freep h} \<and> p \<in> set (q # zs) \<and> h_ptr (hdr h p) = z \<and> n \<le> h_size (hdr h z) \<and>
      malloc_loop n q (h_ptr (hdr h q)) h = Some (take_block n p z h)) \<or>
    (\<forall>z \<in> set zs \<union> {freep h}. h_size (hdr h z) < n) \<and> malloc_loop n q (h_ptr (hdr h q)) h = refill n h"
  using assms
proof (induction zs arbitrary: q)
  case Nil
  then show ?case by (subst (1 2) malloc_loop.simps) (auto simp: refill_def)
next
  case (Cons z zs)
  then have q: "h_ptr (hdr h q) = z" "z \<noteq> freep h" by auto
  show ?case
  proof (cases "n \<le> h_size (hdr h z)")
    case True
    then have "malloc_loop n q (h_ptr (hdr h q)) h = Some (take_block n q z h)" using q by (subst malloc_loop.simps) simp
    then show ?thesis using q True by (intro disjI1 exI [of _ z] exI [of _ q]) simp
  next
    case False
    then have e: "malloc_loop n q (h_ptr (hdr h q)) h = malloc_loop n z (h_ptr (hdr h z)) h" using q by (subst malloc_loop.simps) simp
    show ?thesis unfolding e using Cons.IH [of z] Cons.prems False by (auto simp: not_le)
  qed
qed

lemma malloc_loop_start:
  assumes h: "heap_ok b lo h fs A" and n: "n \<noteq> 0"
  shows "(\<exists>a h' fs'. malloc_loop n (freep h) (h_ptr (hdr h (freep h))) h = Some (a + 16, h') \<and> A a = None \<and> heap_ok b lo h' fs' (A(a \<mapsto> n)) \<and> brk h' = brk h) \<or>
    (\<forall>z \<in> set fs. h_size (hdr h z) < n) \<and> malloc_loop n (freep h) (h_ptr (hdr h (freep h))) h = refill n h"
proof -
  note D = heap_okD [OF h]
  obtain zs where z: "linked (hdr h) (freep h) zs (freep h)" "set (freep h # zs) = set (b # fs)" "freep h \<notin> set zs"
    using linked_rotate [OF D(8,3) heap_distinct [OF h]] by blast
  from malloc_search [OF z(1,3), of n] show ?thesis
  proof (elim disjE exE conjE)
    fix y p assume y: "y \<in> set zs \<union> {freep h}" "p \<in> set (freep h # zs)" "h_ptr (hdr h p) = y" "n \<le> h_size (hdr h y)"
      "malloc_loop n (freep h) (h_ptr (hdr h (freep h))) h = Some (take_block n p y h)"
    have "y \<noteq> b" using y(4) n D(10) by auto
    moreover have "y \<in> set (freep h # zs)" using y(1) by auto
    ultimately have "y \<in> set fs" "p \<in> set (b # fs)" using y(2) unfolding z(2) by auto
    then obtain a h' fs' where "take_block n p y h = (a + 16, h')" "A a = None" "heap_ok b lo h' fs' (A(a \<mapsto> n))" "brk h' = brk h"
      using take_block_ok [OF h _ n y(4) _ y(3)] by blast
    then show ?thesis using y(5) by (intro disjI1 exI conjI) (assumption | simp)+
  next
    assume "\<forall>y \<in> set zs \<union> {freep h}. h_size (hdr h y) < n" "malloc_loop n (freep h) (h_ptr (hdr h (freep h))) h = refill n h"
    moreover have "set fs \<subseteq> set (freep h # zs)" unfolding z(2) by auto
    ultimately show ?thesis by (intro disjI2) auto
  qed
qed

lemma malloc_loop_ok:
  assumes h: "heap_ok b lo h fs A" and n: "n \<noteq> 0" "16 * unat n < 2 ^ 31"
  shows "\<exists>r h'. malloc_loop n (freep h) (h_ptr (hdr h (freep h))) h = Some (r, h') \<and>
    (r = 0 \<and> (\<exists>fs'. heap_ok b lo h' fs' A) \<or> (\<exists>a fs'. r = a + 16 \<and> A a = None \<and> heap_ok b lo h' fs' (A(a \<mapsto> n))))"
  using malloc_loop_start [OF h n(1)]
proof (elim disjE exE conjE)
  assume e: "malloc_loop n (freep h) (h_ptr (hdr h (freep h))) h = refill n h"
  from morecore_ok [OF h n(2)] obtain c h' where m: "morecore n h = Some (c, h')" and r: "c = 0 \<and> heap_ok b lo h' fs A \<or>
    c = freep h' \<and> c \<noteq> 0 \<and> (\<exists>fs'. heap_ok b lo h' fs' A \<and> (\<exists>x \<in> set fs'. n \<le> h_size (hdr h' x)))" by blast
  from r show ?thesis
  proof (elim disjE exE conjE)
    fix fs' assume k: "c = freep h'" "c \<noteq> 0" "heap_ok b lo h' fs' A" "\<exists>x \<in> set fs'. n \<le> h_size (hdr h' x)"
    then have "refill n h = malloc_loop n (freep h') (h_ptr (hdr h' (freep h'))) h'" using m by (simp add: refill_def)
    moreover have "\<not> (\<forall>z \<in> set fs'. h_size (hdr h' z) < n)" using k(4) by (auto simp: not_less)
    ultimately show ?thesis using malloc_loop_start [OF k(3) n(1)] e by auto
  qed (use m e in \<open>auto simp: refill_def\<close>)
qed auto

lemma units_eq: "unat nbytes < 2 ^ 31 \<Longrightarrow> unat (units nbytes) = (unat nbytes + 15) div 16 + 1"
proof -
  assume n: "unat nbytes < 2 ^ 31"
  have "unat (ucast nbytes + 16 - 1 :: u64) = unat nbytes + 15" using n by (simp add: unat_word_ariths unat_ucast_up)
  then have "unat ((ucast nbytes + 16 - 1) div 16 + 1 :: u64) = (unat nbytes + 15) div 16 + 1" using n
    by (simp add: unat_word_ariths unat_div)
  then show ?thesis using n by (simp add: units_def unsigned_ucast_eq take_bit_nat_eq_self)
qed

end
