(* ===== verification/Umsafe.thy ===== *)
theory Umsafe
  imports Ummalloc
begin

text \<open>
  Programs that use the allocator of \<^verbatim>\<open>umalloc.c\<close>: they allocate and free blocks in any order, write into the blocks they hold,
  and move the end of their memory up.
\<close>

subsection \<open>Runs\<close>

text \<open>\<open>U\<close> maps the pointers a program holds to the sizes it asked for.\<close>

inductive heap_run :: "u64 \<Rightarrow> nat \<Rightarrow> uheap \<Rightarrow> (u64 \<rightharpoonup> u32) \<Rightarrow> bool" for b lo where
  start: "freep h = 0 \<Longrightarrow> 0 < unat b \<Longrightarrow> unat b + 16 \<le> lo \<Longrightarrow> lo = unat (brk h) \<Longrightarrow> lo \<le> limit \<Longrightarrow> heap_run b lo h Map.empty"
| alloc: "heap_run b lo h U \<Longrightarrow> unat n + 31 < 2 ^ 31 \<Longrightarrow> malloc b n h = Some (r, h') \<Longrightarrow> r \<noteq> 0 \<Longrightarrow> heap_run b lo h' (U(r \<mapsto> n))"
| alloc_fails: "heap_run b lo h U \<Longrightarrow> unat n + 31 < 2 ^ 31 \<Longrightarrow> malloc b n h = Some (0, h') \<Longrightarrow> heap_run b lo h' U"
| release: "heap_run b lo h U \<Longrightarrow> U r \<noteq> None \<Longrightarrow> ufree r h = Some h' \<Longrightarrow> heap_run b lo h' (U(r := None))"
| use_block: "heap_run b lo h U \<Longrightarrow>
    (\<And>a. H a \<noteq> hdr h a \<Longrightarrow> \<exists>r n. U r = Some n \<and> unat a < unat r + unat n \<and> unat r < unat a + 16) \<Longrightarrow> heap_run b lo (h\<lparr>hdr := H\<rparr>) U"
| grow: "heap_run b lo h U \<Longrightarrow> unat (brk h) \<le> unat e \<Longrightarrow> unat e \<le> limit \<Longrightarrow> heap_run b lo (h\<lparr>brk := e, grants := gs\<rparr>) U"

definition blocks :: "(u64 \<rightharpoonup> u32) \<Rightarrow> u64 \<rightharpoonup> u32" where
  "blocks U a = map_option units (U (a + 16))"

definition heap_inv :: "u64 \<Rightarrow> nat \<Rightarrow> uheap \<Rightarrow> (u64 \<rightharpoonup> u32) \<Rightarrow> bool" where
  "heap_inv b lo h U \<longleftrightarrow> (\<forall>r n. U r = Some n \<longrightarrow> unat n + 31 < 2 ^ 31) \<and>
     (freep h = 0 \<and> U = Map.empty \<and> 0 < unat b \<and> unat b + 16 \<le> lo \<and> lo \<le> unat (brk h) \<and> unat (brk h) \<le> limit \<or>
      (\<exists>fs. heap_ok b lo h fs (blocks U)))"

lemma blocks_simps: "blocks Map.empty = Map.empty" "blocks (U(r \<mapsto> n)) = (blocks U)(r - 16 \<mapsto> units n)" "blocks (U(r := None)) = (blocks U)(r - 16 := None)"
  by (auto simp: blocks_def fun_eq_iff eq_diff_eq)

lemma units_bound: "unat n + 31 < 2 ^ 31 \<Longrightarrow> units n \<noteq> 0 \<and> 16 * unat (units n) < 2 ^ 31 \<and> unat n + 16 \<le> 16 * unat (units n)"
proof -
  assume n: "unat n + 31 < 2 ^ 31"
  then have u: "unat (units n) = (unat n + 15) div 16 + 1" by (intro units_eq) simp
  then have "units n \<noteq> 0" by auto
  then show ?thesis using u n by presburger
qed

text \<open>The first call sets up an empty list.\<close>

lemma malloc_begins:
  assumes h: "heap_inv b lo h U"
  shows "\<exists>h0 fs. heap_ok b lo h0 fs (blocks U) \<and> brk h0 = brk h \<and> grants h0 = grants h \<and>
    malloc b n h = malloc_loop (units n) (freep h0) (h_ptr (hdr h0 (freep h0))) h0"
proof -
  define h0 where "h0 = (if freep h = 0 then set_size b 0 ((set_ptr b b h)\<lparr>freep := b\<rparr>) else h)"
  obtain fs where "heap_ok b lo h0 fs (blocks U)"
  proof (cases "freep h = 0 \<and> U = Map.empty \<and> 0 < unat b \<and> unat b + 16 \<le> lo \<and> lo \<le> unat (brk h) \<and> unat (brk h) \<le> limit")
    case True
    then have "heap_ok b lo h0 [] (blocks U)"
      by (simp add: h0_def heap_ok_def circle_def apart_def avail_simps blocks_simps)
    then show ?thesis by (rule that)
  next
    case False
    then obtain fs where f: "heap_ok b lo h fs (blocks U)" using h by (auto simp: heap_inv_def)
    have "freep h \<noteq> 0" using heap_okD(3,4) [OF f] gaps_above [OF heap_okD(9) [OF f], of "freep h"] by auto
    then show ?thesis using f by (intro that) (simp add: h0_def)
  qed
  moreover have "malloc b n h = malloc_loop (units n) (freep h0) (h_ptr (hdr h0 (freep h0))) h0" by (simp add: malloc_def Let_def h0_def)
  moreover have "brk h0 = brk h" "grants h0 = grants h" by (simp_all add: h0_def set_ptr_def set_size_def)
  ultimately show ?thesis by blast
qed

lemma malloc_ok:
  assumes h: "heap_inv b lo h U" and n: "unat n + 31 < 2 ^ 31"
  shows "\<exists>r h'. malloc b n h = Some (r, h') \<and> (r = 0 \<and> heap_inv b lo h' U \<or> U r = None \<and> heap_inv b lo h' (U(r \<mapsto> n)))"
proof -
  note u = units_bound [OF n]
  obtain h0 fs where ok: "heap_ok b lo h0 fs (blocks U)"
    and m: "malloc b n h = malloc_loop (units n) (freep h0) (h_ptr (hdr h0 (freep h0))) h0" using malloc_begins [OF h] by blast
  have sm: "\<forall>r m. (U(q \<mapsto> n)) r = Some m \<longrightarrow> unat m + 31 < 2 ^ 31" "\<forall>r m. U r = Some m \<longrightarrow> unat m + 31 < 2 ^ 31" for q
    using h n by (auto simp: heap_inv_def)
  obtain r h' where "malloc b n h = Some (r, h')" and r: "r = 0 \<and> (\<exists>fs'. heap_ok b lo h' fs' (blocks U)) \<or>
      (\<exists>a fs'. r = a + 16 \<and> blocks U a = None \<and> heap_ok b lo h' fs' ((blocks U)(a \<mapsto> units n)))"
    using malloc_loop_ok [OF ok, of "units n"] u unfolding m by blast
  moreover from r have "r = 0 \<and> heap_inv b lo h' U \<or> U r = None \<and> heap_inv b lo h' (U(r \<mapsto> n))"
    using sm by (auto simp: heap_inv_def blocks_simps) (auto simp: blocks_def)
  ultimately show ?thesis by blast
qed

lemma ufree_inv:
  assumes h: "heap_inv b lo h U" and r: "U r = Some n"
  shows "\<exists>h'. ufree r h = Some h' \<and> heap_inv b lo h' (U(r := None))"
proof -
  obtain fs where ok: "heap_ok b lo h fs (blocks U)" using h r by (auto simp: heap_inv_def)
  have "blocks U (r - 16) = Some (units n)" using r by (simp add: blocks_def)
  from ufree_ok [OF ok this] obtain h' fs' where "ufree r h = Some h'" "heap_ok b lo h' fs' (blocks (U(r := None)))"
    by (auto simp: blocks_simps)
  then show ?thesis using h by (auto simp: heap_inv_def)
qed

text \<open>What a program may write is not a header in use.\<close>

lemma held_block:
  assumes h: "heap_inv b lo h U" and r: "U r = Some n"
  shows "lo + 16 \<le> unat r" "unat r + unat n \<le> unat (brk h)" "extent (r - 16) (units n) \<supseteq> {unat r - 16..<unat r + unat n}"
    "\<exists>fs. heap_ok b lo h fs (blocks U)" "unat (r - 16) = unat r - 16" "blocks U (r - 16) = Some (units n)"
proof -
  obtain fs where ok: "heap_ok b lo h fs (blocks U)" using h r by (auto simp: heap_inv_def)
  then show "\<exists>fs. heap_ok b lo h fs (blocks U)" by blast
  show bl: "blocks U (r - 16) = Some (units n)" using r by (simp add: blocks_def)
  have n: "unat n + 31 < 2 ^ 31" using h r by (auto simp: heap_inv_def)
  note a = apartD(2) [OF heap_okD(2) [OF ok] bl]
  have "unat (r - 16) + 16 < 2 ^ 64" using a units_bound [OF n] heap_okD(7) [OF ok] by (simp add: limit_def)
  moreover have "r = (r - 16) + 16" by simp
  ultimately have ur: "unat r = unat (r - 16) + 16" using unat_word_ariths(1) [of "r - 16" 16] by simp
  then show "lo + 16 \<le> unat r" "unat r + unat n \<le> unat (brk h)" "extent (r - 16) (units n) \<supseteq> {unat r - 16..<unat r + unat n}" "unat (r - 16) = unat r - 16"
    using a units_bound [OF n] by (auto simp: extent_def)
qed

lemma heap_inv_write:
  assumes h: "heap_inv b lo h U"
    and w: "\<And>a. H a \<noteq> hdr h a \<Longrightarrow> \<exists>r n. U r = Some n \<and> unat a < unat r + unat n \<and> unat r < unat a + 16"
  shows "heap_inv b lo (h\<lparr>hdr := H\<rparr>) U"
proof (cases "U = Map.empty")
  case True
  then have "H = hdr h" using w by (auto simp: fun_eq_iff)
  then show ?thesis using h by simp
next
  case False
  then obtain r0 n0 where "U r0 = Some n0" by (meson not_None_eq ext)
  then obtain fs where ok: "heap_ok b lo h fs (blocks U)" using held_block(4) [OF h] by blast
  note D = heap_okD [OF ok]
  have block: "extent x m \<inter> extent (r - 16) (units n) \<noteq> {}"
    if "U r = Some n" "unat x < unat r + unat n" "unat r < unat x + 16" "m \<noteq> 0" for x r n m
  proof -
    have "unat x + 16 \<le> unat x + 16 * unat m" using that(4) by (simp add: unat_gt_0 [symmetric] Suc_le_eq del: unat_gt_0)
    then have "max (unat x) (unat r - 16) \<in> extent x m \<inter> {unat r - 16..<unat r + unat n}"
      using that(2,3) held_block(1) [OF h that(1)] by (auto simp: extent_def)
    then show ?thesis using held_block(3) [OF h that(1)] by blast
  qed
  have keep: "H x = hdr h x" if x: "x = b \<or> x \<in> set fs \<or> blocks U x \<noteq> None" for x
  proof (rule ccontr)
    assume "H x \<noteq> hdr h x"
    then obtain r n where r: "U r = Some n" "unat x < unat r + unat n" "unat r < unat x + 16" using w by blast
    note B = held_block [OF h r(1)] and bl = block [OF r]
    have "x \<noteq> b" using B(1) r(3) D(5) by auto
    moreover have "x \<notin> set fs"
    proof
      assume x: "x \<in> set fs"
      have "extent x (h_size (hdr h x)) \<subseteq> avail (hdr h) fs" using x by (auto simp: avail_def)
      then show False using apartD(4) [OF D(2) B(6)] bl [OF free_block(3) [OF D(1,2) x]] by blast
    qed
    moreover have "blocks U x = None"
    proof (rule ccontr)
      assume "blocks U x \<noteq> None"
      then obtain m where m: "blocks U x = Some m" by blast
      have "x \<noteq> r - 16" using r(3) B(1,5) by auto
      then show False using apartD(5) [OF D(2) m B(6)] bl [of m] apartD(2) [OF D(2) m] by blast
    qed
    ultimately show False using x by blast
  qed
  have "linked H b fs b" by (rule linked_from [OF D(8)]) (use keep in auto)
  moreover have "gaps H (unat b) fs" by (rule gaps_cong [OF D(9)]) (use keep in auto)
  moreover have "avail H fs = avail (hdr h) fs" by (rule avail_cong) (use keep in auto)
  moreover have "h_size (H x) = h_size (hdr h x)" if "blocks U x = Some m" for x m using keep [of x] that by simp
  ultimately have "heap_ok b lo (h\<lparr>hdr := H\<rparr>) fs (blocks U)"
    using ok keep [of b] by (auto simp: heap_ok_def circle_def apart_def)
  then show ?thesis using h by (auto simp: heap_inv_def)
qed

lemma heap_inv_grow: "heap_inv b lo h U \<Longrightarrow> unat (brk h) \<le> unat e \<Longrightarrow> unat e \<le> limit \<Longrightarrow> heap_inv b lo (h\<lparr>brk := e, grants := gs\<rparr>) U"
proof -
  assume h: "heap_inv b lo h U" and e: "unat (brk h) \<le> unat e" "unat e \<le> limit"
  have up: "{lo..<unat (brk h)} \<subseteq> {lo..<unat e}" using e(1) by auto
  have "heap_ok b lo (h\<lparr>brk := e, grants := gs\<rparr>) fs A" if "heap_ok b lo h fs A" for fs A
  proof -
    have "apart (hdr h) lo (unat e) fs A" using heap_okD(2) [OF that] up unfolding apart_def by (intro conjI allI impI) blast+
    then show ?thesis using that e by (auto simp: heap_ok_def)
  qed
  then have "\<exists>fs. heap_ok b lo h fs (blocks U) \<Longrightarrow> \<exists>fs. heap_ok b lo (h\<lparr>brk := e, grants := gs\<rparr>) fs (blocks U)" by blast
  then show ?thesis using h e unfolding heap_inv_def by auto
qed

lemma heap_run_inv: "heap_run b lo h U \<Longrightarrow> heap_inv b lo h U"
proof (induction rule: heap_run.induct)
  case (start h)
  then show ?case by (simp add: heap_inv_def)
next
  case (alloc h U n r h')
  then show ?case using malloc_ok [OF alloc.IH, of n] by (auto simp del: fun_upd_apply)
next
  case (alloc_fails h U n h')
  obtain r h2 where m: "malloc b n h = Some (r, h2)" "r = 0 \<and> heap_inv b lo h2 U \<or> U r = None \<and> heap_inv b lo h2 (U(r \<mapsto> n))"
    using malloc_ok [OF alloc_fails.IH alloc_fails.hyps(2)] by blast
  moreover have "\<not> heap_inv b lo h2 (U(0 \<mapsto> n))" using held_block(1) [of b lo h2 "U(0 \<mapsto> n)" 0 n] by auto
  ultimately show ?case using alloc_fails.hyps(3) by auto
next
  case (release h U r h')
  then show ?case using ufree_inv [OF release.IH, of r] by (auto simp del: fun_upd_apply)
qed (auto intro: heap_inv_write heap_inv_grow)

text \<open>
  C37: whatever a program does with \<^verbatim>\<open>malloc\<close> of less than two gigabytes, \<^verbatim>\<open>free\<close> and the blocks it holds, every block it holds lies in
  its memory with the size it asked for, no two of them overlap, and the next \<^verbatim>\<open>malloc\<close> of less than two gigabytes, or \<^verbatim>\<open>free\<close> of a held block, returns.
\<close>

theorem malloc_safe:
  assumes "heap_run b lo h U"
  shows "(\<forall>r n. U r = Some n \<longrightarrow> lo < unat r \<and> unat r + unat n \<le> unat (brk h)) \<and>
    (\<forall>r s m n. U r = Some m \<longrightarrow> U s = Some n \<longrightarrow> r \<noteq> s \<longrightarrow> {unat r..<unat r + unat m} \<inter> {unat s..<unat s + unat n} = {}) \<and>
    (\<forall>n. unat n + 31 < 2 ^ 31 \<longrightarrow> (\<exists>r h'. malloc b n h = Some (r, h') \<and> (r = 0 \<or> U r = None \<and> heap_run b lo h' (U(r \<mapsto> n))))) \<and>
    (\<forall>r n. U r = Some n \<longrightarrow> (\<exists>h'. ufree r h = Some h'))"
proof (intro conjI allI impI)
  note I = heap_run_inv [OF assms]
  show "lo < unat r" "unat r + unat n \<le> unat (brk h)" if "U r = Some n" for r n using held_block [OF I that] by auto
  show "\<exists>h'. ufree r h = Some h'" if "U r = Some n" for r n using ufree_inv [OF I that] by blast
  show "{unat r..<unat r + unat m} \<inter> {unat s..<unat s + unat n} = {}" if r: "U r = Some m" and s: "U s = Some n" and "r \<noteq> s" for r s m n
  proof -
    note R = held_block [OF I r] and S = held_block [OF I s]
    obtain fs where ok: "heap_ok b lo h fs (blocks U)" using R(4) by blast
    have "extent (r - 16) (units m) \<inter> extent (s - 16) (units n) = {}"
      using apartD(5) [OF heap_okD(2) [OF ok] R(6) S(6)] \<open>r \<noteq> s\<close> by simp
    moreover have "{unat x..<y} \<subseteq> {unat x - 16..<y}" for x :: u64 and y by auto
    ultimately show ?thesis using R(3) S(3) by blast
  qed
  fix n :: u32 assume n: "unat n + 31 < 2 ^ 31"
  then obtain r h' where m: "malloc b n h = Some (r, h')" "r = 0 \<or> U r = None" using malloc_ok [OF I n] by blast
  then have "r = 0 \<or> U r = None \<and> heap_run b lo h' (U(r \<mapsto> n))" using heap_run.alloc [OF assms n m(1)] by blast
  then show "\<exists>r h'. malloc b n h = Some (r, h') \<and> (r = 0 \<or> U r = None \<and> heap_run b lo h' (U(r \<mapsto> n)))" using m(1) by blast
qed

definition fresh_heap :: uheap where
  "fresh_heap = \<lparr>hdr = (\<lambda>_. \<lparr>h_ptr = 0, h_size = 0\<rparr>), freep = 0, brk = 0x4000, grants = [True]\<rparr>"

lemma fresh_units: "units 100 = 8"
  by (simp add: units_def)

lemmas malloc_eval = Let_def morecore_def sbrk_def PHYSTOP_def KERNBASE_def ufree_def join_next_def join_prev_def hplus_def take_block_def

lemma fresh_malloc: "\<exists>h'. malloc 0x3000 100 fresh_heap = Some (0x13F90, h') \<and> brk h' = 0x14000"
  by (simp add: malloc_def fresh_units Let_def fresh_heap_def, subst malloc_loop.simps, simp add: malloc_eval,
      subst free_place.simps, simp, subst malloc_loop.simps, simp add: malloc_eval)

theorem malloc_safe_witness:
  "\<exists>h'. heap_run 0x3000 0x4000 h' [0x13F90 \<mapsto> 100] \<and> (\<exists>h''. ufree 0x13F90 h' = Some h'')"
proof -
  obtain h' where h: "malloc 0x3000 100 fresh_heap = Some (0x13F90, h')" using fresh_malloc by blast
  have r: "heap_run 0x3000 0x4000 h' [0x13F90 \<mapsto> 100]"
    by (rule heap_run.alloc [OF heap_run.start _ h]) (simp_all add: fresh_heap_def limit_def)
  then show ?thesis using malloc_safe [OF r] by auto
qed

subsection \<open>Requests that are too large\<close>

text \<open>The list code does not look at the end of the memory.\<close>

lemma ufree_brk: "ufree a (h\<lparr>brk := e\<rparr>) = map_option (\<lambda>h. h\<lparr>brk := e\<rparr>) (ufree a h)"
proof -
  have "join_prev x p (join_next x p (h\<lparr>brk := e\<rparr>)) = (join_prev x p (join_next x p h))\<lparr>brk := e\<rparr>" for x p
    by (simp add: join_prev_def join_next_def set_ptr_def set_size_def Let_def)
  then show ?thesis by (cases "free_place (hdr h) (a - 16) (freep h)") (simp_all add: ufree_def Let_def)
qed

lemma ufree_same: "ufree a h = Some h' \<Longrightarrow> brk h' = brk h"
  by (auto simp: ufree_def Let_def join_prev_def join_next_def set_ptr_def set_size_def bind_eq_Some_conv split: if_splits)

lemma huge_units: "n > 0xFFFFFFF0 \<Longrightarrow> units n = 0x10000001"
proof -
  assume "n > 0xFFFFFFF0"
  then have n: "0xFFFFFFF0 < unat n" "unat n < 2 ^ 32" using unat_bound [of n] by (simp_all add: word_less_nat_alt)
  have "unat (ucast n + 16 - 1 :: u64) = unat n + 15" using n by (simp add: unat_word_ariths unat_ucast_up)
  moreover have "(unat n + 15) div 16 = 0x10000000" by (rule div_nat_eqI) (use n in simp_all)
  ultimately have "unat ((ucast n + 16 - 1) div 16 + 1 :: u64) = 0x10000001" by (simp add: unat_word_ariths unat_div)
  then have "unat (units n) = 0x10000001" by (simp add: units_def unsigned_ucast_eq take_bit_nat_eq_self)
  then show ?thesis by (simp add: word_unat_eq_iff)
qed

lemma take_block_nonzero:
  assumes "heap_ok b lo h fs A" and "z \<in> set fs" and "n \<le> h_size (hdr h z)"
  shows "fst (take_block n p z h) \<noteq> 0"
proof -
  note B = free_block [OF heap_okD(1,2) [OF assms(1)] assms(2)]
  have e: "unat z + 16 * unat (h_size (hdr h z)) \<le> limit" using B(2) heap_okD(7) [OF assms(1)] by (simp add: endp_def)
  have "unat (z + 16) \<noteq> 0" using e by (simp add: unat_word_ariths limit_def)
  moreover have "unat (hplus z (h_size (hdr h z) - n) + 16) \<noteq> 0"
  proof -
    have "unat (h_size (hdr h z) - n) \<le> unat (h_size (hdr h z))" using assms(3) by (simp add: unat_sub word_le_nat_alt)
    then have "unat z + 16 * unat (h_size (hdr h z) - n) \<le> limit" using e by linarith
    then show ?thesis by (simp add: hplus_def unat_word_ariths unat_ucast_up limit_def)
  qed
  ultimately show ?thesis by (auto simp: take_block_def Let_def set_size_def)
qed

lemma morecore_huge:
  assumes h: "heap_ok b lo h fs A" and g: "grants h = True # gs" "unat (brk h) + 16 \<le> 2 ^ 27"
  shows "\<exists>h' fs'. morecore 0x10000001 h = Some (freep h', h') \<and> freep h' \<noteq> 0 \<and> brk h' = brk h + 16 \<and>
    heap_ok b lo (h'\<lparr>brk := brk h + 16 * 0x10000001\<rparr>) fs' A \<and> (\<exists>x \<in> set fs'. 0x10000001 \<le> h_size (hdr h' x))"
proof -
  let ?n = "0x10000001 :: u32" and ?e = "brk h" let ?E = "brk h + 16 * 0x10000001"
  let ?h1 = "h\<lparr>grants := gs, brk := ?e + 16\<rparr>" let ?h2 = "set_size ?e ?n ?h1"
  have "sint (ucast (ucast ?n * 16 :: u64) :: u32) = 16" by simp
  moreover have "uint ?e + 16 \<le> 2 ^ 27" using g(2) by (simp add: uint_nat del: of_nat_unat)
  then have "sbrk 16 h = (?e, ?h1)" using g(1) by (simp add: sbrk_def PHYSTOP_def KERNBASE_def)
  moreover have ne: "?e \<noteq> -1" using g(2) by (auto simp: unsigned_minus_1_eq_mask mask_eq_exp_minus_1)
  ultimately have m: "morecore ?n h = Option.bind (ufree (?e + 16) ?h2) (\<lambda>h. Some (freep h, h))" by (simp add: morecore_def)
  have uE: "unat ?E = unat ?e + 16 * unat ?n" using g(2) by (simp add: unat_word_ariths)
  have gr: "heap_ok b lo (?h2\<lparr>brk := ?E\<rparr>) fs (A(?e \<mapsto> ?n))" "A ?e = None"
    by (rule heap_grow [OF h, of ?n "?h2\<lparr>brk := ?E\<rparr>"]; use g(2) uE in \<open>simp add: set_size_def limit_def\<close>)+
  obtain k fs' where k: "ufree (?e + 16) (?h2\<lparr>brk := ?E\<rparr>) = Some k" "heap_ok b lo k fs' ((A(?e \<mapsto> ?n))(?e := None))"
    "\<exists>x \<in> set fs'. unat ?n \<le> unat (h_size (hdr k x))" using ufree_ok [OF gr(1), of ?e ?n] by auto
  have A: "(A(?e \<mapsto> ?n))(?e := None) = A" using gr(2) by auto
  obtain h' where h': "ufree (?e + 16) ?h2 = Some h'" "k = h'\<lparr>brk := ?E\<rparr>" using k(1) unfolding ufree_brk by auto
  have ok: "heap_ok b lo (h'\<lparr>brk := ?E\<rparr>) fs' A" using k(2) unfolding A h'(2) .
  have "freep h' \<noteq> 0" using heap_okD(3,4) [OF ok] gaps_above [OF heap_okD(9) [OF ok], of "freep h'"] by auto
  moreover have "brk h' = ?e + 16" using ufree_same [OF h'(1)] by (simp add: set_size_def)
  moreover have "\<exists>x \<in> set fs'. ?n \<le> h_size (hdr h' x)" using k(3) h'(2) by (auto simp: word_le_nat_alt)
  ultimately show ?thesis using m h'(1) ok by auto
qed

text \<open>
  C38: \<^verbatim>\<open>morecore\<close> hands the number of bytes to \<^verbatim>\<open>sbrk\<close> as an \<^verbatim>\<open>int\<close>. In any run of a program, a request for more than
  \<^verbatim>\<open>0xFFFFFFF0\<close> bytes asks the kernel for 16 bytes; if the kernel has them, \<^verbatim>\<open>malloc\<close> returns a pointer that is not null, to a block
  that goes far beyond the end of the memory of the process.
\<close>

theorem malloc_huge:
  assumes "heap_run b lo h U" and "n > 0xFFFFFFF0" and "grants h = True # gs" and "unat (brk h) + 16 \<le> 2 ^ 27"
  shows "\<exists>r h'. malloc b n h = Some (r, h') \<and> r \<noteq> 0 \<and> brk h' = brk h + 16 \<and> unat (brk h') < unat r + unat n"
proof -
  let ?n = "0x10000001 :: u32"
  have I: "heap_inv b lo h U" by (rule heap_run_inv [OF assms(1)])
  obtain h0 fs where ok: "heap_ok b lo h0 fs (blocks U)" and h0: "brk h0 = brk h" "grants h0 = grants h"
    and m: "malloc b n h = malloc_loop ?n (freep h0) (h_ptr (hdr h0 (freep h0))) h0"
    using malloc_begins [OF I, of n] huge_units [OF assms(2)] by metis
  have "\<not> (\<exists>a h' fs'. malloc_loop ?n (freep h0) (h_ptr (hdr h0 (freep h0))) h0 = Some (a + 16, h') \<and> blocks U a = None \<and>
      heap_ok b lo h' fs' ((blocks U)(a \<mapsto> ?n)) \<and> brk h' = brk h0)"
  proof clarify
    fix a h' fs' assume "heap_ok b lo h' fs' ((blocks U)(a \<mapsto> ?n))" "brk h' = brk h0"
    from apartD(2) [OF heap_okD(2) [OF this(1)], of a ?n] this(2) show False using h0(1) assms(4) by simp
  qed
  then have r: "malloc b n h = refill ?n h0" using malloc_loop_start [OF ok, of ?n] m by auto
  obtain h1 fs1 where h1: "morecore ?n h0 = Some (freep h1, h1)" "freep h1 \<noteq> 0" "brk h1 = brk h + 16"
    "heap_ok b lo (h1\<lparr>brk := brk h0 + 16 * 0x10000001\<rparr>) fs1 (blocks U)" "\<exists>x \<in> set fs1. ?n \<le> h_size (hdr h1 x)"
    using morecore_huge [OF ok, of gs] assms(3,4) h0 by auto
  let ?h = "h1\<lparr>brk := brk h0 + 16 * 0x10000001\<rparr>"
  note D = heap_okD [OF h1(4)]
  obtain zs where z: "linked (hdr h1) (freep h1) zs (freep h1)" "set (freep h1 # zs) = set (b # fs1)" "freep h1 \<notin> set zs"
    using linked_rotate [OF D(8,3) heap_distinct [OF h1(4)]] by auto
  have "set fs1 \<subseteq> set zs \<union> {freep h1}" using z(2) by auto
  then have "\<not> (\<forall>y \<in> set zs \<union> {freep h1}. h_size (hdr h1 y) < ?n)" using h1(5) by (auto simp: not_less)
  then obtain y p where y: "y \<in> set zs \<union> {freep h1}" "?n \<le> h_size (hdr h1 y)"
    "malloc_loop ?n (freep h1) (h_ptr (hdr h1 (freep h1))) h1 = Some (take_block ?n p y h1)"
    using malloc_search [OF z(1,3), of ?n] by blast
  have "y \<noteq> b" using y(2) D(10) by auto
  then have "y \<in> set fs1" using y(1) z(2) by auto
  moreover have "fst (take_block ?n p y h1) = fst (take_block ?n p y ?h)" by (simp add: take_block_def set_size_def Let_def)
  ultimately have nz: "fst (take_block ?n p y h1) \<noteq> 0" using take_block_nonzero [OF h1(4), of y ?n p] y(2) by simp
  have bk: "brk (snd (take_block ?n p y h1)) = brk h1" by (simp add: take_block_def set_size_def set_ptr_def Let_def)
  have "malloc b n h = Some (take_block ?n p y h1)" unfolding r refill_def using h1(1,2) y(3) by simp
  moreover have "unat (brk h + 16) \<le> 2 ^ 27" using assms(4) by (simp add: unat_word_ariths)
  then have "unat (brk h + 16) < unat n" using assms(2) by (simp add: word_less_nat_alt)
  ultimately show ?thesis using nz bk h1(3)
    by (intro exI [of _ "fst (take_block ?n p y h1)"] exI [of _ "snd (take_block ?n p y h1)"]) simp
qed

theorem malloc_huge_witness:
  "\<exists>r h'. malloc 0x3000 0xFFFFFFFF fresh_heap = Some (r, h') \<and> r \<noteq> 0 \<and> brk h' = 0x4010"
proof -
  have "heap_run 0x3000 0x4000 fresh_heap Map.empty" by (rule heap_run.start) (simp_all add: fresh_heap_def limit_def)
  from malloc_huge [OF this, of "0xFFFFFFFF" "[]"] show ?thesis by (auto simp: fresh_heap_def)
qed

end
