(* ===== verification/Kprint.thy ===== *)
theory Kprint
  imports Printf Spinlock
begin

text \<open>
  The lock of the kernel's \<^verbatim>\<open>printf\<close>, \<^verbatim>\<open>printfinit\<close> and \<^verbatim>\<open>panic\<close> (\<^verbatim>\<open>kernel/printf.c\<close>), around the formatting of \<open>Printf\<close>. The state holds the
  locks and CPUs of \<open>Spinlock\<close>, the variables \<^verbatim>\<open>pr.locking\<close> and \<^verbatim>\<open>panicked\<close>, and the bytes sent to the console.
\<close>

record prstate =
  pr_machine :: machine
  pr_locking :: bool
  pr_panicked :: bool
  con_out :: "u8 list"

text \<open>The number of the lock \<^verbatim>\<open>pr.lock\<close>.\<close>

definition PR :: nat where
  "PR = 0"

definition printfinit :: "(prstate, unit) prog" where
  "printfinit = andthen (zoom pr_machine pr_machine_update (initlock PR)) (modify (\<lambda>s. s\<lparr>pr_locking := True\<rparr>))"

text \<open>The calls of \<^verbatim>\<open>consputc\<close>: once a CPU has panicked, \<^verbatim>\<open>uartputc_sync\<close> does not return.\<close>

definition consputs :: "u8 list \<Rightarrow> (prstate, unit) prog" where
  "consputs out =
     for_each out (\<lambda>c. bnd (gets pr_panicked) (\<lambda>b.
       if b then fails (Spins ''uartputc_sync'') else modify (con_out_update (\<lambda>o'. o' @ [c]))))"

definition lprintf :: "nat \<Rightarrow> u8 list \<Rightarrow> arg list \<Rightarrow> (prstate, unit) prog" where
  "lprintf c fmt ap =
     bnd (gets pr_locking) (\<lambda>locking.
     andthen (if locking then zoom pr_machine pr_machine_update (acquire c PR) else ret ())
     (andthen (case printf fmt ap of None \<Rightarrow> fails (Fault ''printf'') | Some out \<Rightarrow> consputs out)
     (if locking then zoom pr_machine pr_machine_update (release c PR) else ret ())))"

definition kpanic :: "nat \<Rightarrow> u8 list \<Rightarrow> (prstate, unit) prog" where
  "kpanic c s =
     andthen (modify (\<lambda>t. t\<lparr>pr_locking := False\<rparr>))
     (andthen (lprintf c (ascii ''panic: '') [])
     (andthen (lprintf c (ascii ''%s'' @ [10]) [AStr (Some s)])
     (andthen (modify (\<lambda>t. t\<lparr>pr_panicked := True\<rparr>))
     (fails (Spins ''panic'')))))"

lemma consputs_run: "\<not> pr_panicked s \<Longrightarrow> consputs out s = Ok () (s\<lparr>con_out := con_out s @ out\<rparr>)"
  unfolding consputs_def by (induction out arbitrary: s) (simp_all add: run_simps)

lemma consputs_panicked: "pr_panicked s \<Longrightarrow> out \<noteq> [] \<Longrightarrow> consputs out s = Err (Spins ''uartputc_sync'') s"
  unfolding consputs_def by (cases out) (simp_all add: run_simps)

lemma panic_formats: "printf (ascii ''panic: '') [] = Some (ascii ''panic: '')" "printf (ascii ''%s'' @ [10]) [AStr (Some s)] = Some (s @ [10])"
  by (simp_all add: printf.simps ascii_def peek_def conversion_def null_string_def)

lemma lprintf_unlocked:
  "\<not> pr_locking s \<Longrightarrow> \<not> pr_panicked s \<Longrightarrow> printf fmt ap = Some out \<Longrightarrow> lprintf c fmt ap s = Ok () (s\<lparr>con_out := con_out s @ out\<rparr>)"
  by (simp add: lprintf_def run_simps consputs_run)

text \<open>
  \<^verbatim>\<open>panic\<close> prints its message in full whatever the state of the locks is, even when the CPU holds the lock of \<^verbatim>\<open>printf\<close> itself,
  freezes the output of every CPU, which then prints nothing more, and does not return.
\<close>

theorem panic_prints:
  assumes "\<not> pr_panicked s"
  shows "\<exists>t. kpanic c m s = Err (Spins ''panic'') t \<and> con_out t = con_out s @ ascii ''panic: '' @ m @ [10] \<and> pr_machine t = pr_machine s \<and>
    (\<forall>d fmt ap out. printf fmt ap = Some out \<longrightarrow> out \<noteq> [] \<longrightarrow> lprintf d fmt ap t = Err (Spins ''uartputc_sync'') t)"
  using assms
  by (simp add: kpanic_def run_simps lprintf_unlocked panic_formats) (simp add: lprintf_def run_simps consputs_panicked)

theorem panic_prints_witness:
  "\<exists>t. kpanic 0 [33] \<lparr>pr_machine = \<lparr>cpus = \<lambda>_. \<lparr>noff = 1, warikomi = True, intr = False\<rparr>, locks = \<lambda>_. \<lparr>locked = 1, lk_cpu = Some 0\<rparr>\<rparr>,
       pr_locking = True, pr_panicked = False, con_out = []\<rparr> = Err (Spins ''panic'') t \<and> con_out t = ascii ''panic: !'' @ [10]"
proof -
  let ?s = "\<lparr>pr_machine = \<lparr>cpus = \<lambda>_. \<lparr>noff = 1, warikomi = True, intr = False\<rparr>, locks = \<lambda>_. \<lparr>locked = 1, lk_cpu = Some 0\<rparr>\<rparr>,
       pr_locking = True, pr_panicked = False, con_out = []\<rparr>"
  show ?thesis using panic_prints [of ?s 0 "[33]"] by (auto simp: ascii_def)
qed

text \<open>With the lock, what \<^verbatim>\<open>printf\<close> prints stays together, and the locks are as before.\<close>

lemma lprintf_locked:
  assumes "cpu_ok (cpus (pr_machine s) c)" and "locks (pr_machine s) PR = \<lparr>locked = 0, lk_cpu = None\<rparr>"
    and "pr_locking s" and "\<not> pr_panicked s" and "printf fmt ap = Some out"
  shows "wp (lprintf c fmt ap) (\<lambda>_ t. con_out t = con_out s @ out \<and> locks (pr_machine t) = locks (pr_machine s) \<and>
    (\<forall>d. noff (cpus (pr_machine t) d) = noff (cpus (pr_machine s) d) \<and> intr (cpus (pr_machine t) d) = intr (cpus (pr_machine s) d))) s"
  using assms by (auto simp: lprintf_def wp_def run_simps consputs_run spin_defs cpu_ok_def fun_eq_iff)

end
