(* ===== verification/Spec2Isabelle.thy ===== *)
theory Spec2Isabelle
  imports Fwrite Spinlock Loglimit Grep Pipe Reach Shrun Userrun Mkresult Umsafe Kprint
begin

text \<open>
  A verification library for xv6-riscv, the teaching operating system whose C code is under \<^verbatim>\<open>src/\<close>: the kernel
  (\<^verbatim>\<open>src/kernel\<close>), the user programs and their library (\<^verbatim>\<open>src/user\<close>), and the program that builds the first disk image
  (\<^verbatim>\<open>src/mkfs\<close>).

  \<^bold>\<open>The program.\<close> At the bottom, \<^verbatim>\<open>kalloc.c\<close> hands out physical pages, \<^verbatim>\<open>vm.c\<close> builds Sv39 page tables in them and copies between
  kernel and user memory, and \<^verbatim>\<open>virtio_disk.c\<close> transfers disk blocks. \<^verbatim>\<open>bio.c\<close> caches blocks, \<^verbatim>\<open>log.c\<close> makes groups of block writes
  atomic, \<^verbatim>\<open>fs.c\<close> builds inodes, directories and path names on them, and \<^verbatim>\<open>file.c\<close>, \<^verbatim>\<open>pipe.c\<close> and \<^verbatim>\<open>console.c\<close> turn them into open
  files. \<^verbatim>\<open>proc.c\<close>, \<^verbatim>\<open>exec.c\<close>, \<^verbatim>\<open>trap.c\<close>, \<^verbatim>\<open>syscall.c\<close>, \<^verbatim>\<open>sysfile.c\<close> and \<^verbatim>\<open>sysproc.c\<close> run processes and serve their system calls. The
  shell \<^verbatim>\<open>sh.c\<close>, the small programs and the allocator \<^verbatim>\<open>umalloc.c\<close> run in user mode.

  \<^bold>\<open>How code is modelled.\<close> A C function is a definition of the same name in a state monad (\<open>Prelude\<close>): it returns a value and a
  state, or fails with an error and the state it failed in. \<open>Panic\<close> is a call of \<^verbatim>\<open>panic\<close>, \<open>Spins\<close> a deliberate endless loop, \<open>Sleeps\<close> a
  process that gives up the CPU and has not come back, \<open>Fault\<close> undefined behaviour of C. Machine integers are words of their width.
  Structures are records, pointers to table entries are indices (the index past the end of the table is the null pointer),
  pointers to pages are addresses. Local variables whose address is taken live in a byte array \<open>stk\<close> of the state; the bytes
  of an uninitialised variable are parameters. The state of a component contains that of the component below it, and \<open>zoom\<close> runs
  an operation on that part. A function that calls \<^verbatim>\<open>myproc()\<close> or \<^verbatim>\<open>mycpu()\<close> takes the index as an argument.
  The model follows one kernel thread at a time. A critical section of a spin lock is one atomic action, which
  \<open>Spinlock\<close> justifies. A loop in which a process sleeps is a definition of its own, so that a resumed process enters it
  again. Where interleaving is the point, there is a step relation: \<open>Spinlock\<close> (CPUs that spin), \<open>Sleeplock\<close> (processes that sleep), \<open>Vdriver\<close> (processes,
  device, interrupts), \<open>Reach\<close> (traps, scheduler and resumed processes of the whole kernel), \<open>Umsafe\<close> (a program with its heap).

  \<^bold>\<open>The theories\<close>, from the bottom up.
  \<^item> \<open>Prelude\<close>: types, errors, the monad and its weakest preconditions, little-endian encodings, lists and words.
  \<^item> \<open>Kstring\<close> (\<^verbatim>\<open>string.c\<close>), \<open>Memory\<close> (page arithmetic of \<^verbatim>\<open>riscv.h\<close>), \<open>Kalloc\<close> (\<^verbatim>\<open>kalloc.c\<close>): \<^verbatim>\<open>memmove\<close> on overlapping ranges,
    names stored and compared, the free list; the locale \<open>page_allocator\<close> is the contract that the page-table code uses.
  \<^item> \<open>Vm\<close>, \<open>Pagetable\<close>, \<open>Usermem\<close> (\<^verbatim>\<open>vm.c\<close>): the code, the page table as a function from virtual addresses to entries that
    \<^verbatim>\<open>mappages\<close> and \<^verbatim>\<open>uvmunmap\<close> update, and user memory as \<^verbatim>\<open>copyin\<close> and \<^verbatim>\<open>copyout\<close> see it.
  \<^item> \<open>Spinlock\<close>, \<open>Sleeplock\<close> (\<^verbatim>\<open>spinlock.c\<close>, \<^verbatim>\<open>sleeplock.c\<close>): mutual exclusion, the nesting of disabled interrupts, no lost wakeup of a sleep lock.
  \<^item> \<open>Virtio\<close>, \<open>Vdriver\<close>, \<open>Vboot\<close> (\<^verbatim>\<open>virtio_disk.c\<close>): the driver with its descriptor table and rings. The device is a relation with the
    behaviour of the virtio specification as its hypothesis; what a register read returns is a function of the writes so far.
  \<^item> \<open>Bio\<close>, \<open>Bcache\<close>, \<open>Bufring\<close> (\<^verbatim>\<open>bio.c\<close>): the ring of buffers, the locale \<open>block_cache\<close> of what it promises, and the refinement proof.
    The disk is a function from block numbers to blocks, with the sequence of writes it has received; \<open>Vdriver\<close> is the reason that
    one \<^verbatim>\<open>virtio_disk_rw\<close> is one transfer.
  \<^item> \<open>Log\<close>, \<open>Crash\<close>, \<open>Loglimit\<close> (\<^verbatim>\<open>log.c\<close>): a crash after any prefix of the writes of \<^verbatim>\<open>commit\<close>, followed by recovery, leaves all or none of them;
    the reservations of \<^verbatim>\<open>begin_op\<close> promise one block more than \<^verbatim>\<open>log_write\<close> accepts.
  \<^item> \<open>Fs\<close>, \<open>Txn\<close>, \<open>Balloc\<close>, \<open>Fread\<close>, \<open>Fmap\<close>, \<open>Fwrite\<close>, \<open>Dinode\<close> (\<^verbatim>\<open>fs.c\<close>, \<^verbatim>\<open>fs.h\<close>): the code; the locale \<open>txn\<close>, in which the file system sees one array of
    blocks inside a transaction; the bitmap; reading files; the blocks of a file that grows; writing files, with their inodes packed in blocks.
  \<^item> \<open>Proc\<close>, \<open>Procfacts\<close>, \<open>Process\<close>, \<open>Exec\<close>, \<open>Filetab\<close>, \<open>Console\<close>, \<open>Sysfile\<close>, \<open>Trap\<close>: the rest of the kernel up to \<^verbatim>\<open>main.c\<close> and \<^verbatim>\<open>start.c\<close>. \<open>Sample\<close> is
    a concrete state. \<open>Ring\<close> is the locale of ring buffers with free-running counters, used for pipes and for the disk rings, and
    \<open>Pipe\<close> shows that pipes are queues. \<open>Traps\<close> follows a system call from user mode and back, and sleeping through clock ticks.
  \<^item> \<open>Quiet\<close>, \<open>Proctree\<close>, \<open>Reach\<close>: in every state the system can run into, identifiers are unique and the parents form a tree, until the 32-bit
    counter of identifiers reaches its largest value.
  \<^item> \<open>Ulib\<close>, \<open>Printf\<close>, \<open>Kprint\<close>, \<open>Grep\<close>, \<open>Userprog\<close>, \<open>Userrun\<close>: the user library, both \<^verbatim>\<open>printf\<close>s, \<^verbatim>\<open>panic\<close>, the matcher of \<^verbatim>\<open>grep\<close> against a declarative
    meaning, and the small programs, run against a list of replies of the kernel.
  \<^item> \<open>Umalloc\<close>, \<open>Heaplist\<close>, \<open>Umfree\<close>, \<open>Ummalloc\<close>, \<open>Umsafe\<close> (\<^verbatim>\<open>umalloc.c\<close>): the circular free list and what a program may rely on.
  \<^item> \<open>Shell\<close>, \<open>Shparse\<close>, \<open>Shread\<close>, \<open>Shrun\<close> (\<^verbatim>\<open>sh.c\<close>): the parser on the line buffer is total and reads back printed commands, and a
    session starts the programs the typed commands mean, with the right standard input and output.
  \<^item> \<open>Mkfs\<close>, \<open>Mkimage\<close>, \<open>Mkappend\<close>, \<open>Mkwhole\<close>, \<open>Mkresult\<close> (\<^verbatim>\<open>mkfs.c\<close>): the image shows every file with its contents.

  \<^bold>\<open>Bounds and fuel.\<close> Most loops are structural or have a termination proof. Fuel is used where a loop is bounded by data: the
  parser of the shell (four times the line plus four, proved enough for every line), the loops of user programs (one more than
  the replies that are left, each round uses one), \<^verbatim>\<open>uartstart\<close> and \<^verbatim>\<open>uartintr\<close> (the room of the device, the bytes received), \<^verbatim>\<open>iappend\<close>
  of \<^verbatim>\<open>mkfs\<close> (the bytes to write), \<^verbatim>\<open>free_chain\<close> of the driver (the number of descriptors plus one, proved enough even for cyclic
  chains). Running out of fuel would be a \<open>Fault\<close>, and the theorems exclude it. \<^verbatim>\<open>strlen\<close> and the loops of \<^verbatim>\<open>malloc\<close> and \<^verbatim>\<open>free\<close> are partial
  functions, which \<open>Umsafe\<close> shows to return in every run.

  \<^bold>\<open>Not modelled.\<close> Assembly (\<^verbatim>\<open>entry.S\<close>, \<^verbatim>\<open>kernelvec.S\<close>, \<^verbatim>\<open>swtch.S\<close>, \<^verbatim>\<open>trampoline.S\<close>): \<^verbatim>\<open>swtch\<close> is the parameter \<open>run\<close> of the scheduler, and the
  contents of the trapframe are read and written as the assembly leaves them. The other CPUs during boot. The wakeups inside the
  lower layers (sleep locks, log, buffer cache, disk), whose sleeps end a run of the sequential model. \<^verbatim>\<open>ramdisk.c\<close>, which is not
  built and uses fields that \<^verbatim>\<open>struct buf\<close> no longer has. The test programs \<^verbatim>\<open>usertests\<close>, \<^verbatim>\<open>grind\<close>, \<^verbatim>\<open>forktest\<close> and \<^verbatim>\<open>stressfs\<close>. In the shell, a failing
  \<^verbatim>\<open>malloc\<close> and the text of one message; the messages of \<^verbatim>\<open>balloc\<close> and \<^verbatim>\<open>ialloc\<close> when the disk is full; in \<^verbatim>\<open>mkfs\<close>, its arguments and the opening
  of the image, what it prints and failing writes; in \<^verbatim>\<open>umalloc.c\<close>, the bytes of headers (a store
  of headers by address stands for them).
\<close>

end
